(* ===== verification/Prelude.thy ===== *)
theory Prelude
  imports Main "HOL-Library.Word"
begin

text \<open>
  Shared vocabulary of the development: machine integers and byte strings as Go has them,
  errors as values, byte ranges of a slice (\<open>b[lo:hi]\<close>) and in-place writes to a range
  (\<open>copy(b[off:], src)\<close>), and the little-endian codec of \<^verbatim>\<open>encoding/binary\<close>, with the lemmas
  the component theories share. The collection \<open>range_simps\<close> carries the facts that compute
  a range of a buffer that was written field by field.
\<close>

unbundle bit_operations_syntax

named_theorems range_simps \<open>ranges of buffers written field by field\<close>

section \<open>Machine types\<close>

type_synonym byte = "8 word"
type_synonym bytes = "8 word list"
type_synonym u16 = "16 word"
type_synonym u32 = "32 word"
type_synonym u64 = "64 word"

text \<open>A Go string literal as its bytes (ASCII only in the sources).\<close>

definition ascii :: "string \<Rightarrow> bytes" where
  "ascii s = map (\<lambda>c. word_of_nat (of_char c)) s"

lemma length_ascii [simp]: "length (ascii s) = length s"
  by (simp add: ascii_def)

section \<open>Errors as values\<close>

text \<open>
  A fallible Go function returns \<open>(value, error)\<close>; the model returns \<open>Inl\<close> of the error or
  \<open>Inr\<close> of the value. An error keeps what the callers can test (its class, by
  \<^verbatim>\<open>errors.Is\<close>) and where it arose (structure and field); the formatted detail text is not kept.
\<close>

datatype err_class =
    ErrCorrupt | ErrUnsupported | ErrLegacyVersion | ErrResource | ErrInvalid
  | ErrOverflow | ErrExhausted | ErrRolledBack | ErrNotExist | ErrExist | ErrTooLarge
  | ErrPermission | ErrClosed | ErrUnexpectedEOF | ErrEOF | ErrSealed | ErrPoisoned
  | ErrPathBusy | ErrTooFewShards | ErrDiscard | ErrHook | ErrOther

datatype error = Err (err_class_of: err_class) (err_struct: string) (err_field: string)

type_synonym 'a result = "error + 'a"

definition errf :: "err_class \<Rightarrow> string \<Rightarrow> string \<Rightarrow> 'a result" where
  "errf c st fld = Inl (Err c st fld)"

lemma errf_not_Inr [simp]: "errf c st fld \<noteq> Inr x" "Inr x \<noteq> errf c st fld"
  by (simp_all add: errf_def)

lemma case_sum_errf [simp]: "case_sum f g (errf c st fld) = f (Err c st fld)"
  by (simp add: errf_def)

lemma errf_eq_Inl [simp]: "errf c st fld = Inl e \<longleftrightarrow> e = Err c st fld"
  by (auto simp: errf_def)

lemma isl_errf [simp]: "isl (errf c st fld)"
  by (simp add: errf_def)

lemma if_errf_eq_Inr [simp]:
  "(if c then errf k st fld else x) = Inr y \<longleftrightarrow> \<not> c \<and> x = Inr y"
  by simp

lemma case_sum_eq_Inr:
  "(case r of Inl e \<Rightarrow> Inl e | Inr x \<Rightarrow> f x) = Inr y \<longleftrightarrow> (\<exists>x. r = Inr x \<and> f x = Inr y)"
  by (cases r) auto

lemma case_sum_errf_eq_Inr:
  "(case r of Inl e \<Rightarrow> errf c st fld | Inr x \<Rightarrow> f x) = Inr y \<longleftrightarrow> (\<exists>x. r = Inr x \<and> f x = Inr y)"
  by (cases r) auto

section \<open>Ranges of a byte slice\<close>

definition seg :: "'a list \<Rightarrow> nat \<Rightarrow> nat \<Rightarrow> 'a list" where
  "seg b lo hi = take (hi - lo) (drop lo b)"

definition put_at :: "'a list \<Rightarrow> nat \<Rightarrow> 'a list \<Rightarrow> 'a list" where
  "put_at b off src = take off b @ src @ drop (off + length src) b"

lemma length_seg [simp]: "hi \<le> length b \<Longrightarrow> length (seg b lo hi) = hi - lo"
  by (simp add: seg_def)

lemma seg_full [simp]: "length b \<le> hi \<Longrightarrow> seg b 0 hi = b"
  by (simp add: seg_def)

lemma seg_seg: "lo + hi' \<le> hi \<Longrightarrow> seg (seg b lo hi) lo' hi' = seg b (lo + lo') (lo + hi')"
  by (simp add: seg_def drop_take min_def add.commute)

lemma seg_replicate [range_simps]: "hi \<le> n \<Longrightarrow> seg (replicate n x) lo hi = replicate (hi - lo) x"
  by (simp add: seg_def min_def)

lemma nth_seg: "lo + i < hi \<Longrightarrow> hi \<le> length b \<Longrightarrow> seg b lo hi ! i = b ! (lo + i)"
  by (simp add: seg_def)

lemma take_is_seg: "take n b = seg b 0 n"
  by (simp add: seg_def)

lemma seg_append_left [range_simps]: "hi \<le> length a \<Longrightarrow> seg (a @ b) lo hi = seg a lo hi"
  by (simp add: seg_def)

lemma seg_append_right [range_simps]:
  "length a \<le> lo \<Longrightarrow> seg (a @ b) lo hi = seg b (lo - length a) (hi - length a)"
  by (simp add: seg_def)

lemma drop_seg_drop: "lo \<le> hi \<Longrightarrow> drop lo b = seg b lo hi @ drop hi b"
  by (metis append_take_drop_id drop_drop le_add_diff_inverse2 seg_def)

lemma length_put_at [simp]: "off + length src \<le> length b \<Longrightarrow> length (put_at b off src) = length b"
  by (simp add: put_at_def)

lemma seg_put_same [range_simps]:
  "hi = off + length src \<Longrightarrow> off \<le> length b \<Longrightarrow> seg (put_at b off src) off hi = src"
  by (simp add: put_at_def seg_def)

lemma seg_put_before [range_simps]:
  "hi \<le> off \<Longrightarrow> off \<le> length b \<Longrightarrow> seg (put_at b off src) lo hi = seg b lo hi"
  by (simp add: put_at_def seg_def drop_take)

lemma seg_put_after [range_simps]:
  "off + length src \<le> lo \<Longrightarrow> off \<le> length b \<Longrightarrow> seg (put_at b off src) lo hi = seg b lo hi"
  by (simp add: put_at_def seg_def drop_take min_def)

lemma take_put_at [range_simps]:
  "n \<le> off \<Longrightarrow> off \<le> length b \<Longrightarrow> take n (put_at b off src) = take n b"
  by (simp add: put_at_def)

lemma drop_put_at [range_simps]:
  "off + length src \<le> n \<Longrightarrow> off \<le> length b \<Longrightarrow> drop n (put_at b off src) = drop n b"
  by (simp add: put_at_def)

lemma nth_put_at [range_simps]:
  "off + length src \<le> length b \<Longrightarrow> i < length b \<Longrightarrow>
   put_at b off src ! i = (if off \<le> i \<and> i < off + length src then src ! (i - off) else b ! i)"
  by (auto simp: put_at_def nth_append min_def)

text \<open>
  A sequence of writes. When the writes go to increasing, disjoint offsets of a zeroed buffer,
  the result is the sources in order with zeros in the gaps.
\<close>

primrec put_all :: "'a list \<Rightarrow> (nat \<times> 'a list) list \<Rightarrow> 'a list" where
  "put_all b [] = b"
| "put_all b (w # ws) = put_all (put_at b (fst w) (snd w)) ws"

primrec placed :: "nat \<Rightarrow> nat \<Rightarrow> (nat \<times> 'a list) list \<Rightarrow> bool" where
  "placed n pos [] = (pos \<le> n)"
| "placed n pos (w # ws) = (pos \<le> fst w \<and> placed n (fst w + length (snd w)) ws)"

primrec laid_out :: "'a \<Rightarrow> nat \<Rightarrow> nat \<Rightarrow> (nat \<times> 'a list) list \<Rightarrow> 'a list" where
  "laid_out z n pos [] = replicate (n - pos) z"
| "laid_out z n pos (w # ws) = replicate (fst w - pos) z @ snd w @ laid_out z n (fst w + length (snd w)) ws"

lemma placed_le: "placed n pos ws \<Longrightarrow> pos \<le> n"
  by (induction ws arbitrary: pos) fastforce+

lemma put_all_laid_out_from:
  "placed n pos ws \<Longrightarrow> length done = pos \<Longrightarrow>
   put_all (done @ replicate (n - pos) z) ws = done @ laid_out z n pos ws"
proof (induction ws arbitrary: pos "done")
  case Nil
  then show ?case by simp
next
  case (Cons w ws)
  from Cons.prems have "fst w + length (snd w) \<le> n" "pos \<le> fst w" by (auto dest: placed_le)
  then have "put_at (done @ replicate (n - pos) z) (fst w) (snd w) =
      (done @ replicate (fst w - pos) z @ snd w) @ replicate (n - (fst w + length (snd w))) z"
    using Cons.prems(2) by (simp add: put_at_def min_def)
  then show ?case using Cons.prems \<open>pos \<le> fst w\<close>
      Cons.IH[of "fst w + length (snd w)" "done @ replicate (fst w - pos) z @ snd w"] by simp
qed

lemma put_all_laid_out: "placed n 0 ws \<Longrightarrow> put_all (replicate n z) ws = laid_out z n 0 ws"
  using put_all_laid_out_from[of n 0 ws "[]" z] by simp

lemma put_at_append [range_simps]:
  "length x \<le> off \<Longrightarrow> put_at (x @ y) off src = x @ put_at y (off - length x) src"
  by (simp add: put_at_def)

lemma put_at_exact [range_simps]: "length y = length src \<Longrightarrow> put_at (y @ z) 0 src = src @ z"
  by (simp add: put_at_def)

lemma seg_Cons [range_simps]:
  "0 < lo \<Longrightarrow> seg (x # xs) lo hi = seg xs (lo - 1) (hi - 1)"
  "0 < hi \<Longrightarrow> seg (x # xs) 0 hi = x # seg xs 0 (hi - 1)"
  by (simp_all add: seg_def drop_Cons' take_Cons')

lemma seg_conv_map_nth: "hi \<le> length b \<Longrightarrow> seg b lo hi = map ((!) b) [lo..<hi]"
  by (rule nth_equalityI) (auto simp: nth_seg)

lemma seg_take [range_simps]: "hi \<le> n \<Longrightarrow> seg (take n b) lo hi = seg b lo hi"
  by (simp add: seg_def drop_take)

lemma seg_split:
  assumes "lo \<le> m" "m \<le> hi"
  shows "seg b lo hi = seg b lo m @ seg b m hi"
proof -
  have "hi - lo = (m - lo) + (hi - m)" using assms by simp
  then show ?thesis using assms by (simp only: seg_def take_add drop_drop) simp
qed

lemma seg_empty [simp]: "hi \<le> lo \<Longrightarrow> seg b lo hi = []"
  by (simp add: seg_def)

lemma seg_list_update:
  "seg (b[i := y]) lo hi = (if lo \<le> i \<and> i < hi then (seg b lo hi)[i - lo := y] else seg b lo hi)"
  by (cases "lo \<le> i") (auto simp: seg_def drop_update_swap take_update_swap list_update_beyond)

lemma list_update_neq: "k < length xs \<Longrightarrow> y \<noteq> xs ! k \<Longrightarrow> xs[k := y] \<noteq> xs"
  by (metis nth_list_update_eq)

text \<open>Two buffers agree when they agree on consecutive ranges that cover them.\<close>

fun same_ranges :: "'a list \<Rightarrow> 'a list \<Rightarrow> nat \<Rightarrow> nat list \<Rightarrow> bool" where
  "same_ranges a b lo [] = (drop lo a = drop lo b)"
| "same_ranges a b lo (hi # his) = (lo \<le> hi \<and> seg a lo hi = seg b lo hi \<and> same_ranges a b hi his)"

lemma same_ranges_drop: "same_ranges a b lo his \<Longrightarrow> drop lo a = drop lo b"
  by (induction his arbitrary: lo) (simp, metis drop_seg_drop same_ranges.simps(2))

lemma same_rangesI: "same_ranges a b 0 his \<Longrightarrow> a = b"
  using same_ranges_drop by fastforce

section \<open>Little-endian integers\<close>

primrec le_bytes :: "nat \<Rightarrow> 'a::len word \<Rightarrow> bytes" where
  "le_bytes 0 w = []"
| "le_bytes (Suc n) w = ucast w # le_bytes n (drop_bit 8 w)"

primrec le_word :: "bytes \<Rightarrow> 'a::len word" where
  "le_word [] = 0"
| "le_word (b # bs) = ucast b OR push_bit 8 (le_word bs)"

definition le16 :: "u16 \<Rightarrow> bytes" where "le16 = le_bytes 2"
definition le32 :: "u32 \<Rightarrow> bytes" where "le32 = le_bytes 4"
definition le64 :: "u64 \<Rightarrow> bytes" where "le64 = le_bytes 8"
definition of_le16 :: "bytes \<Rightarrow> u16" where "of_le16 = le_word"
definition of_le32 :: "bytes \<Rightarrow> u32" where "of_le32 = le_word"
definition of_le64 :: "bytes \<Rightarrow> u64" where "of_le64 = le_word"

lemma length_le_bytes [simp]: "length (le_bytes n w) = n"
  by (induction n arbitrary: w) simp_all

lemma length_le [simp]: "length (le16 x) = 2" "length (le32 y) = 4" "length (le64 z) = 8"
  by (simp_all add: le16_def le32_def le64_def)

lemma le_word_le_bytes_take: "le_word (le_bytes n (w :: 'a::len word)) = take_bit (8 * n) w"
proof (induction n arbitrary: w)
  case 0
  show ?case by simp
next
  case (Suc n)
  show ?case
    by (rule bit_eqI) (auto simp: Suc bit_simps)
qed

lemma le_word_le_bytes [simp]: "LENGTH('a) \<le> 8 * n \<Longrightarrow> le_word (le_bytes n (w :: 'a::len word)) = w"
  by (simp add: le_word_le_bytes_take take_bit_word_eq_self)

lemma bit_le_word_bound: "bit (le_word bs :: 'a::len word) i \<Longrightarrow> i < 8 * length bs"
proof (induction bs arbitrary: i)
  case Nil
  then show ?case by simp
next
  case (Cons b bs)
  then show ?case
    by (cases "i < 8") (auto simp: bit_simps dest: bit_imp_le_length dest!: Cons.IH)
qed

lemma le_bytes_le_word [simp]:
  "n = length bs \<Longrightarrow> 8 * n \<le> LENGTH('a) \<Longrightarrow> le_bytes n (le_word bs :: 'a::len word) = bs"
proof (induction bs arbitrary: n)
  case Nil
  then show ?case by simp
next
  case (Cons b bs)
  let ?w = "le_word bs :: 'a word"
  have len: "8 * length bs + 8 \<le> LENGTH('a)" using Cons.prems by simp
  have hd: "ucast (ucast b OR push_bit 8 ?w :: 'a word) = b"
    using len by (intro bit_eqI) (auto simp: bit_simps)
  have tl: "drop_bit 8 (ucast b OR push_bit 8 ?w :: 'a word) = ?w"
    using len by (intro bit_eqI) (auto simp: bit_simps dest: bit_le_word_bound bit_imp_le_length)
  show ?case using Cons hd tl len by simp
qed

lemma of_le_le [simp]: "of_le16 (le16 x) = x" "of_le32 (le32 y) = y" "of_le64 (le64 z) = z"
  by (simp_all add: le16_def le32_def le64_def of_le16_def of_le32_def of_le64_def)

lemma le_of_le [simp]:
  "length b = 2 \<Longrightarrow> le16 (of_le16 b) = b"
  "length b = 4 \<Longrightarrow> le32 (of_le32 b) = b"
  "length b = 8 \<Longrightarrow> le64 (of_le64 b) = b"
  by (simp_all add: le16_def le32_def le64_def of_le16_def of_le32_def of_le64_def)

lemma le_inject [simp]: "le16 x = le16 x' \<longleftrightarrow> x = x'" "le32 y = le32 y' \<longleftrightarrow> y = y'" "le64 z = le64 z' \<longleftrightarrow> z = z'"
  by (metis of_le_le)+

lemma of_le_zero [simp]:
  "of_le16 (replicate n 0) = 0" "of_le32 (replicate n 0) = 0" "of_le64 (replicate n 0) = 0"
  by (induction n; simp add: of_le16_def of_le32_def of_le64_def)+

section \<open>Words\<close>

lemma word_xor_cancel_right: "a XOR c = b XOR c \<longleftrightarrow> a = (b :: 'a::len word)"
  by (auto simp: bit_eq_iff bit_simps)

lemma word_xor_cancel_left: "c XOR a = c XOR b \<longleftrightarrow> a = (b :: 'a::len word)"
  by (auto simp: bit_eq_iff bit_simps)

lemma ucast_up_inj: "LENGTH('a) \<le> LENGTH('b) \<Longrightarrow> (ucast (a :: 'a::len word) :: 'b::len word) = ucast b \<longleftrightarrow> a = b"
  by (auto simp: bit_eq_iff bit_simps dest: bit_imp_le_length)

lemma unat_u64_lt: "unat (x :: u64) < 18446744073709551616"
  using unsigned_less[of x, where ?'a = nat] by simp

lemma unat_u32_lt: "unat (x :: u32) < 4294967296"
  using unsigned_less[of x, where ?'a = nat] by simp

lemma unat_byte_lt: "unat (x :: byte) < 256"
  using unsigned_less[of x, where ?'a = nat] by simp

lemma unat_ucast_up: "LENGTH('a) \<le> LENGTH('b) \<Longrightarrow> unat (ucast (x :: 'a::len word) :: 'b::len word) = unat x"
  by (simp add: unsigned_ucast_eq take_bit_nat_eq_self order.strict_trans2[OF unsigned_less])

lemma unat_ucast_u32_u64 [simp]: "unat (ucast (x :: u32) :: u64) = unat x"
  by (rule unat_ucast_up) simp

lemma unat_ucast_byte_u64 [simp]: "unat (ucast (x :: byte) :: u64) = unat x"
  by (rule unat_ucast_up) simp

lemma unat_of_nat_u64: "n < 2 ^ 64 \<Longrightarrow> unat (word_of_nat n :: u64) = n"
  by (simp add: unat_of_nat)

lemma unat_of_nat_u32: "n < 2 ^ 32 \<Longrightarrow> unat (word_of_nat n :: u32) = n"
  by (simp add: unat_of_nat)

end
