(* ===== verification/Checked.thy ===== *)
theory Checked
  imports Prelude
begin

text \<open>
  Package \<^verbatim>\<open>internal/checked\<close>: overflow-checked unsigned arithmetic. \<open>bits_Add64\<close>,
  \<open>bits_Sub64\<close> and \<open>bits_Mul64\<close> are the carry-returning primitives of \<^verbatim>\<open>math/bits\<close> the
  package calls. Every operation is shown to be exact on \<open>nat\<close> values: it returns the true
  result exactly when that fits the machine word.
\<close>

section \<open>Definitions\<close>

definition bits_Add64 :: "u64 \<Rightarrow> u64 \<Rightarrow> u64 \<Rightarrow> u64 \<times> u64" where
  "bits_Add64 x y carry = (x + y + carry, if unat x + unat y + unat carry < 2 ^ 64 then 0 else 1)"

definition bits_Sub64 :: "u64 \<Rightarrow> u64 \<Rightarrow> u64 \<Rightarrow> u64 \<times> u64" where
  "bits_Sub64 x y borrow = (x - y - borrow, if unat x < unat y + unat borrow then 1 else 0)"

definition bits_Mul64 :: "u64 \<Rightarrow> u64 \<Rightarrow> u64 \<times> u64" where
  "bits_Mul64 x y = (word_of_nat (unat x * unat y div 2 ^ 64), x * y)"

definition Add64 :: "u64 \<Rightarrow> u64 \<Rightarrow> u64 result" where
  "Add64 a b = (let (s, c) = bits_Add64 a b 0 in
     if c \<noteq> 0 then errf ErrOverflow ''checked'' '''' else Inr s)"

definition Sub64 :: "u64 \<Rightarrow> u64 \<Rightarrow> u64 result" where
  "Sub64 a b = (let (d, borrow) = bits_Sub64 a b 0 in
     if borrow \<noteq> 0 then errf ErrOverflow ''checked'' '''' else Inr d)"

definition Mul64 :: "u64 \<Rightarrow> u64 \<Rightarrow> u64 result" where
  "Mul64 a b = (let (hi, lo) = bits_Mul64 a b in
     if hi \<noteq> 0 then errf ErrOverflow ''checked'' '''' else Inr lo)"

fun Sum64_from :: "u64 \<Rightarrow> u64 list \<Rightarrow> u64 result" where
  "Sum64_from t [] = Inr t"
| "Sum64_from t (v # vs) = (case Add64 t v of Inl e \<Rightarrow> Inl e | Inr t' \<Rightarrow> Sum64_from t' vs)"

definition Sum64 :: "u64 list \<Rightarrow> u64 result" where
  "Sum64 vs = Sum64_from 0 vs"

definition MaxInt :: nat where "MaxInt = 2 ^ 63 - 1"

definition ToInt :: "u64 \<Rightarrow> int result" where
  "ToInt v = (if unat v > MaxInt then errf ErrOverflow ''checked'' '''' else Inr (uint v))"

definition RangeEnd :: "u64 \<Rightarrow> u64 \<Rightarrow> u64 \<Rightarrow> u64 result" where
  "RangeEnd off len limit = (case Add64 off len of
       Inl e \<Rightarrow> Inl e
     | Inr en \<Rightarrow> if en > limit then errf ErrOverflow ''checked'' '''' else Inr en)"

section \<open>Exactness\<close>

lemma unat_add_u64: "unat (a :: u64) + unat b < 2 ^ 64 \<Longrightarrow> unat (a + b) = unat a + unat b"
  by (simp add: unat_word_ariths)

lemma unat_sub_u64: "unat b \<le> unat (a :: u64) \<Longrightarrow> unat (a - b) = unat a - unat b"
  by (simp add: unat_sub_if')

lemma unat_mult_u64: "unat (a :: u64) * unat b < 2 ^ 64 \<Longrightarrow> unat (a * b) = unat a * unat b"
  by (simp add: unat_word_ariths)

lemma unat_quanta_bytes [simp]: "unat (ucast (q :: u32) * 4096 :: u64) = unat q * 4096"
  using unat_u32_lt[of q] by (subst unat_mult_u64) simp_all

lemma Add64_eq: "Add64 a b = (if unat a + unat b < 2 ^ 64 then Inr (a + b) else errf ErrOverflow ''checked'' '''')"
  by (simp add: Add64_def bits_Add64_def)

lemma Add64_Inr: "Add64 a b = Inr c \<longleftrightarrow> unat c = unat a + unat b"
  using unat_u64_lt[of c] by (auto simp: Add64_eq word_unat_eq_iff[of "a + b"] unat_word_ariths)

lemma Add64_Inl: "Add64 a b = Inl e \<longleftrightarrow> 2 ^ 64 \<le> unat a + unat b \<and> e = Err ErrOverflow ''checked'' ''''"
  by (auto simp: Add64_eq)

lemma Sub64_Inr: "Sub64 a b = Inr c \<longleftrightarrow> unat b \<le> unat a \<and> unat c = unat a - unat b"
  by (auto simp: Sub64_def bits_Sub64_def unat_sub_u64 word_unat_eq_iff)

lemma Mul64_hi_zero:
  "(word_of_nat (unat a * unat (b :: u64) div 2 ^ 64) :: u64) = 0 \<longleftrightarrow> unat (a :: u64) * unat b < 2 ^ 64"
proof -
  have "unat a * unat b < 2 ^ 64 * 2 ^ 64"
    using mult_strict_mono'[OF unat_u64_lt[of a] unat_u64_lt[of b]] by simp
  then have "unat (word_of_nat (unat a * unat b div 2 ^ 64) :: u64) = unat a * unat b div 2 ^ 64"
    by (intro unat_of_nat_u64) (simp add: less_mult_imp_div_less)
  then show ?thesis by (metis div_eq_0_iff power_not_zero unat_0_iff zero_neq_numeral)
qed

lemma Mul64_Inr: "Mul64 a b = Inr c \<longleftrightarrow> unat c = unat a * unat b"
proof (cases "unat a * unat b < 2 ^ 64")
  case True
  then have "Mul64 a b = Inr (a * b)" and "unat (a * b) = unat a * unat b"
    using Mul64_hi_zero[of a b] by (simp_all add: Mul64_def bits_Mul64_def unat_word_ariths)
  then show ?thesis by (auto simp: word_unat_eq_iff)
next
  case False
  then have "isl (Mul64 a b)"
    using Mul64_hi_zero[of a b] by (simp add: Mul64_def bits_Mul64_def)
  then show ?thesis using False unat_u64_lt[of c] by (cases "Mul64 a b") auto
qed

lemma Sum64_from_Inr: "Sum64_from t vs = Inr r \<longleftrightarrow> unat r = unat t + sum_list (map unat vs)"
proof (induction vs arbitrary: t)
  case Nil
  show ?case by (auto simp: word_unat_eq_iff)
next
  case (Cons v vs)
  show ?case
  proof (cases "Add64 t v")
    case (Inl e)
    then have "2 ^ 64 \<le> unat t + unat v" by (simp add: Add64_Inl)
    with Inl show ?thesis using unat_u64_lt[of r] by simp
  next
    case (Inr t')
    then have "unat t' = unat t + unat v" by (simp add: Add64_Inr)
    with Inr show ?thesis using Cons.IH[of t'] by (simp add: add.assoc)
  qed
qed

lemma Sum64_Inr: "Sum64 vs = Inr r \<longleftrightarrow> unat r = sum_list (map unat vs)"
  by (simp add: Sum64_def Sum64_from_Inr)

lemma Sum64_total: "sum_list (map unat vs) < 2 ^ 64 \<Longrightarrow> Sum64 vs = Inr (word_of_nat (sum_list (map unat vs)))"
  by (simp add: Sum64_Inr unat_of_nat_u64)

lemma Sum64_Inl: "isl (Sum64 vs) \<longleftrightarrow> 2 ^ 64 \<le> sum_list (map unat vs)"
proof (cases "Sum64 vs")
  case (Inl e)
  then show ?thesis using Sum64_total[of vs] by fastforce
next
  case (Inr r)
  then have "sum_list (map unat vs) = unat r" by (simp add: Sum64_Inr)
  with Inr show ?thesis using unat_u64_lt[of r] by simp
qed

lemma ToInt_Inr: "ToInt v = Inr i \<longleftrightarrow> unat v \<le> MaxInt \<and> i = int (unat v)"
  by (auto simp: ToInt_def)

lemma RangeEnd_Inr:
  "RangeEnd off len limit = Inr en \<longleftrightarrow> unat en = unat off + unat len \<and> unat en \<le> unat limit"
  by (auto simp: RangeEnd_def case_sum_eq_Inr Add64_Inr word_le_nat_alt not_less)


section \<open>Properties\<close>

text \<open>The checked operations return the mathematical value exactly when it is representable in 64 bits (and, for a
  range, does not pass the limit); in every other case they return the overflow error instead of a wrapped value.\<close>

lemma checked_exact:
  "(Add64 a b = Inr c \<longleftrightarrow> unat c = unat a + unat b) \<and>
   (Sub64 a b = Inr c \<longleftrightarrow> unat b \<le> unat a \<and> unat c = unat a - unat b) \<and>
   (Mul64 a b = Inr c \<longleftrightarrow> unat c = unat a * unat b) \<and>
   (Sum64 vs = Inr c \<longleftrightarrow> unat c = sum_list (map unat vs)) \<and>
   (isl (Sum64 vs) \<longleftrightarrow> 2 ^ 64 \<le> sum_list (map unat vs)) \<and>
   (RangeEnd a b c = Inr d \<longleftrightarrow> unat d = unat a + unat b \<and> unat d \<le> unat c)"
  by (simp add: Add64_Inr Sub64_Inr Mul64_Inr Sum64_Inr Sum64_Inl RangeEnd_Inr)

end
