(* ===== verification/Wire_Base.thy ===== *)
theory Wire_Base
  imports Checked
begin

text \<open>
  Package \<^verbatim>\<open>internal/wire\<close>, the parts every codec uses: sizes, magic values and identifier
  ranges (\<^verbatim>\<open>consts.go\<close>), the error classes (\<^verbatim>\<open>errors.go\<close>) and CRC32C (\<^verbatim>\<open>crc.go\<close> and
  \<^verbatim>\<open>outercrc.go\<close>). CRC32C is modelled as Go computes it: the reflected Castagnoli table of
  \<^verbatim>\<open>hash/crc32\<close>, one table lookup per byte. The lemmas show that the table step is eight
  bit steps, that a step is injective in the running value and in the byte, that \<open>Update\<close>
  composes over concatenation, and hence that a change confined to one byte of a
  checksummed structure is always detected.
\<close>

section \<open>Constants and identifiers\<close>

abbreviation (input) Version :: u16 where "Version \<equiv> 0x0006"
abbreviation (input) ArchiveHeaderSize :: nat where "ArchiveHeaderSize \<equiv> 64"
abbreviation (input) FrameAreaStart :: nat where "FrameAreaStart \<equiv> 64"
abbreviation (input) BaseQuantum :: nat where "BaseQuantum \<equiv> 4096"
abbreviation (input) FramePrefixSize :: nat where "FramePrefixSize \<equiv> 16"
abbreviation (input) MasterTrailerSize :: nat where "MasterTrailerSize \<equiv> 96"
abbreviation (input) PreTrailerLenSize :: nat where "PreTrailerLenSize \<equiv> 4"
abbreviation (input) RootSize :: nat where "RootSize \<equiv> 64"
abbreviation (input) AllocStateSize :: nat where "AllocStateSize \<equiv> 64"
abbreviation (input) IndexHeaderSize :: nat where "IndexHeaderSize \<equiv> 64"
abbreviation (input) IndexRecordSize :: nat where "IndexRecordSize \<equiv> 64"
abbreviation (input) FrameOverhead :: nat where "FrameOverhead \<equiv> 116"
abbreviation (input) MinParityPreTrailerLen :: nat where "MinParityPreTrailerLen \<equiv> 8"
abbreviation (input) ParityShardOverhead :: nat where "ParityShardOverhead \<equiv> 124"
abbreviation (input) MinParityPadding :: nat where "MinParityPadding \<equiv> 112"
abbreviation (input) MaxMaxFrameQuanta :: u32 where "MaxMaxFrameQuanta \<equiv> 0x00100000"
abbreviation (input) MaxBlobOrdinal :: byte where "MaxBlobOrdinal \<equiv> 0xFE"
abbreviation (input) MaxPackedEntries :: nat where "MaxPackedEntries \<equiv> 65535"
abbreviation (input) MaxPathLen :: nat where "MaxPathLen \<equiv> 4096"
abbreviation (input) MaxParityShards :: nat where "MaxParityShards \<equiv> 256"
abbreviation (input) AEADOverhead :: nat where "AEADOverhead \<equiv> 28"
abbreviation (input) HashSize :: nat where "HashSize \<equiv> 32"
abbreviation (input) ObjectIDSize :: nat where "ObjectIDSize \<equiv> 16"
abbreviation (input) ArchiveIDSize :: nat where "ArchiveIDSize \<equiv> 32"

text \<open>Magic values: STSH, STFR, STROOT8, STALLOC and STIDX8, the last three NUL-padded.\<close>

definition MagicArchiveHeader :: bytes where "MagicArchiveHeader = [0x53, 0x54, 0x53, 0x48]"
definition MagicMasterTrailer :: bytes where "MagicMasterTrailer = [0x53, 0x54, 0x53, 0x48]"
definition MagicFramePrefix :: bytes where "MagicFramePrefix = [0x53, 0x54, 0x46, 0x52]"
definition MagicRoot :: bytes where "MagicRoot = [0x53, 0x54, 0x52, 0x4F, 0x4F, 0x54, 0x38, 0]"
definition MagicAllocState :: bytes where "MagicAllocState = [0x53, 0x54, 0x41, 0x4C, 0x4C, 0x4F, 0x43, 0]"
definition MagicIndex :: bytes where "MagicIndex = [0x53, 0x54, 0x49, 0x44, 0x58, 0x38, 0, 0]"

lemma length_magics [simp]:
  "length MagicArchiveHeader = 4" "length MagicMasterTrailer = 4" "length MagicFramePrefix = 4"
  "length MagicRoot = 8" "length MagicAllocState = 8" "length MagicIndex = 8"
  by (simp_all add: MagicArchiveHeader_def MagicMasterTrailer_def MagicFramePrefix_def
      MagicRoot_def MagicAllocState_def MagicIndex_def)

type_synonym FrameSizeMode = byte
type_synonym HashID = byte
type_synonym CodecID = byte
type_synonym ParityScheme = byte
type_synonym BlockType = byte
type_synonym AllocKind = byte

abbreviation (input) ModeVariable :: FrameSizeMode where "ModeVariable \<equiv> 0x00"
abbreviation (input) ModeFixed :: FrameSizeMode where "ModeFixed \<equiv> 0x01"
abbreviation (input) HashBLAKE3 :: HashID where "HashBLAKE3 \<equiv> 0x01"
abbreviation (input) HashSHA256 :: HashID where "HashSHA256 \<equiv> 0x02"
abbreviation (input) CodecStore :: CodecID where "CodecStore \<equiv> 0x00"
abbreviation (input) CodecZstdDense :: CodecID where "CodecZstdDense \<equiv> 0x03"
abbreviation (input) ParityNone :: ParityScheme where "ParityNone \<equiv> 0x00"
abbreviation (input) ParityXOR :: ParityScheme where "ParityXOR \<equiv> 0x01"
abbreviation (input) ParityRS :: ParityScheme where "ParityRS \<equiv> 0x02"
abbreviation (input) BlockData :: BlockType where "BlockData \<equiv> 0"
abbreviation (input) BlockParity :: BlockType where "BlockParity \<equiv> 1"
abbreviation (input) BlockPacked :: BlockType where "BlockPacked \<equiv> 2"
abbreviation (input) HeaderFlagEncrypted :: byte where "HeaderFlagEncrypted \<equiv> 0x01"
abbreviation (input) AllocGeneration :: AllocKind where "AllocGeneration \<equiv> 0"
abbreviation (input) AllocFileVer :: AllocKind where "AllocFileVer \<equiv> 1"
abbreviation (input) AllocManifestSeq :: AllocKind where "AllocManifestSeq \<equiv> 2"
abbreviation (input) AllocFrameOrdinal :: AllocKind where "AllocFrameOrdinal \<equiv> 3"
abbreviation (input) AllocGroupID :: AllocKind where "AllocGroupID \<equiv> 4"

definition FrameSizeMode_Valid :: "FrameSizeMode \<Rightarrow> bool" where
  "FrameSizeMode_Valid m \<longleftrightarrow> m = ModeVariable \<or> m = ModeFixed"
definition HashID_Valid :: "HashID \<Rightarrow> bool" where
  "HashID_Valid h \<longleftrightarrow> h = HashBLAKE3 \<or> h = HashSHA256"
definition CodecID_Valid :: "CodecID \<Rightarrow> bool" where
  "CodecID_Valid c \<longleftrightarrow> c \<le> CodecZstdDense"
definition BlockType_Valid :: "BlockType \<Rightarrow> bool" where
  "BlockType_Valid b \<longleftrightarrow> b \<le> BlockPacked"
definition AllocKind_Valid :: "AllocKind \<Rightarrow> bool" where
  "AllocKind_Valid k \<longleftrightarrow> k \<le> AllocGroupID"

definition PerGeneration :: "AllocKind \<Rightarrow> bool" where
  "PerGeneration k \<longleftrightarrow> k = AllocManifestSeq \<or> k = AllocFrameOrdinal \<or> k = AllocGroupID"

definition MaxReservationBlock :: "AllocKind \<Rightarrow> u64" where
  "MaxReservationBlock k = (if k = AllocGeneration \<or> k = AllocGroupID then 2 ^ 8 else 2 ^ 16)"

definition ReinitSkip :: "AllocKind \<Rightarrow> u64" where
  "ReinitSkip k = (if k = AllocGeneration \<or> k = AllocGroupID then 2 ^ 16 else 2 ^ 32)"

definition isLegacyVersion :: "u16 \<Rightarrow> bool" where
  "isLegacyVersion v \<longleftrightarrow> 0x0002 \<le> v \<and> v \<le> 0x0005"

definition IsFormatError :: "error \<Rightarrow> bool" where
  "IsFormatError e \<longleftrightarrow> err_class_of e \<in> {ErrCorrupt, ErrUnsupported, ErrLegacyVersion}"

lemma BlockType_cases: "BlockType_Valid b \<Longrightarrow> b = BlockData \<or> b = BlockParity \<or> b = BlockPacked"
proof -
  assume "BlockType_Valid b"
  then have "unat b \<le> 2" by (simp add: BlockType_Valid_def word_le_nat_alt)
  then have "unat b = 0 \<or> unat b = 1 \<or> unat b = 2" by arith
  then show ?thesis by (auto simp: word_unat_eq_iff)
qed

section \<open>CRC32C\<close>

definition crc_poly :: u32 where "crc_poly = 0x82F63B78"

definition crc_bit :: "u32 \<Rightarrow> u32" where
  "crc_bit c = (if bit c 0 then drop_bit 1 c XOR crc_poly else drop_bit 1 c)"

text \<open>\<^verbatim>\<open>crc32.MakeTable(crc32.Castagnoli)\<close>, one entry per byte, and \<^verbatim>\<open>crc32.Update\<close>.\<close>

definition castagnoli :: "byte \<Rightarrow> u32" where
  "castagnoli i = (crc_bit ^^ 8) (ucast i)"

definition crc_step :: "u32 \<Rightarrow> byte \<Rightarrow> u32" where
  "crc_step c b = castagnoli (ucast c XOR b) XOR drop_bit 8 c"

definition crc32_Update :: "u32 \<Rightarrow> bytes \<Rightarrow> u32" where
  "crc32_Update c p = NOT (foldl crc_step (NOT c) p)"

definition CRC32C :: "bytes list \<Rightarrow> u32" where
  "CRC32C parts = foldl crc32_Update 0 parts"

definition crcWithZeroField :: "bytes \<Rightarrow> nat \<Rightarrow> u32" where
  "crcWithZeroField b off = CRC32C [take off b, replicate 4 0, drop (off + 4) b]"

definition allZero :: "bytes \<Rightarrow> bool" where
  "allZero b = list_all (\<lambda>x. x = 0) b"

text \<open>\<open>crcUint32LE\<close> runs the table step on the four little-endian bytes of \<open>v\<close>.\<close>

fun crcUint32LE_loop :: "nat \<Rightarrow> nat \<Rightarrow> u32 \<Rightarrow> u32 \<Rightarrow> u32" where
  "crcUint32LE_loop 0 i v c = c"
| "crcUint32LE_loop (Suc n) i v c =
     crcUint32LE_loop n (Suc i) v (castagnoli (ucast c XOR ucast (drop_bit (8 * i) v)) XOR drop_bit 8 c)"

definition crcUint32LE :: "u32 \<Rightarrow> u32 \<Rightarrow> u32" where
  "crcUint32LE c v = NOT (crcUint32LE_loop 4 0 v (NOT c))"

definition OuterCRC :: "bytes \<Rightarrow> u32 \<Rightarrow> bytes \<Rightarrow> u32" where
  "OuterCRC bodyWithoutCRC preTrailerLen trailer =
     crc32_Update (crcUint32LE (crc32_Update 0 bodyWithoutCRC) preTrailerLen) trailer"

subsection \<open>The table step is eight bit steps\<close>

lemma allZero_iff [simp]: "allZero b \<longleftrightarrow> b = replicate (length b) 0"
  by (induction b) (auto simp: allZero_def)

lemma bit_crc_bit: "bit (crc_bit c) n \<longleftrightarrow> (bit c (Suc n) \<noteq> (bit c 0 \<and> bit crc_poly n))"
  by (auto simp: crc_bit_def bit_xor_iff bit_drop_bit_eq)

lemma crc_bit_xor: "crc_bit (x XOR y) = crc_bit x XOR crc_bit y"
  by (rule bit_eqI) (auto simp: bit_crc_bit bit_xor_iff)

lemma crc_bits_xor: "(crc_bit ^^ n) (x XOR y) = (crc_bit ^^ n) x XOR (crc_bit ^^ n) y"
  by (induction n) (simp_all add: crc_bit_xor)

lemma bit_crc_bit_top: "bit (crc_bit c) 31 \<longleftrightarrow> bit c 0"
proof -
  have "\<not> bit c 32" using bit_imp_le_length[of c 32] by auto
  moreover have "bit crc_poly 31" by (simp add: crc_poly_def)
  ultimately show ?thesis using bit_crc_bit[of c 31] by simp
qed

lemma crc_bit_inj: "crc_bit x = crc_bit y \<longleftrightarrow> x = y"
proof
  assume eq: "crc_bit x = crc_bit y"
  then have low: "bit x 0 \<longleftrightarrow> bit y 0" by (metis bit_crc_bit_top)
  then have "bit x (Suc n) \<longleftrightarrow> bit y (Suc n)" for n
    using eq bit_crc_bit[of x n] bit_crc_bit[of y n] by auto
  with low show "x = y" by (intro bit_eqI) (metis not0_implies_Suc)
qed simp

lemma crc_bits_inj: "(crc_bit ^^ n) x = (crc_bit ^^ n) y \<longleftrightarrow> x = y"
  by (induction n) (simp_all add: crc_bit_inj)

lemma crc_bit_push: "n < k \<Longrightarrow> crc_bit (push_bit (Suc n) (drop_bit k c)) = push_bit n (drop_bit k c)"
proof (rule bit_eqI)
  fix i assume "n < k"
  then have "\<not> bit c (k + 31 - n)" using bit_imp_le_length[of c "k + 31 - n"] by auto
  then show "bit (crc_bit (push_bit (Suc n) (drop_bit k c))) i \<longleftrightarrow> bit (push_bit n (drop_bit k c)) i"
    by (cases "i = 31")
      (auto simp: bit_crc_bit bit_push_bit_iff bit_drop_bit_eq simp del: push_bit_Suc)
qed

lemma crc_bits_shift: "n \<le> k \<Longrightarrow> (crc_bit ^^ n) (push_bit n (drop_bit k c)) = drop_bit k (c :: u32)"
  by (induction n) (simp_all add: funpow_Suc_right crc_bit_push del: funpow.simps(2) push_bit_Suc)

lemma crc_step_bits: "crc_step c b = (crc_bit ^^ 8) (c XOR ucast b)"
proof -
  have split: "c XOR ucast b = ucast (ucast c XOR b :: byte) XOR push_bit 8 (drop_bit 8 c)"
    by (rule bit_eqI) (auto simp: bit_simps dest: bit_imp_le_length)
  show ?thesis
    unfolding split crc_bits_xor crc_step_def castagnoli_def by (simp add: crc_bits_shift)
qed

lemma crc_step_inj_state: "crc_step c b = crc_step c' b \<longleftrightarrow> c = c'"
  by (simp add: crc_step_bits crc_bits_inj word_xor_cancel_right)

lemma crc_step_inj_byte: "crc_step c b = crc_step c b' \<longleftrightarrow> b = b'"
  by (simp add: crc_step_bits crc_bits_inj word_xor_cancel_left ucast_up_inj)

lemma foldl_crc_step_inj: "foldl crc_step c xs = foldl crc_step c' xs \<longleftrightarrow> c = c'"
  by (induction xs arbitrary: c c') (simp_all add: crc_step_inj_state)

subsection \<open>Composition and detection\<close>

lemma crc32_Update_append: "crc32_Update c (p @ q) = crc32_Update (crc32_Update c p) q"
  by (simp add: crc32_Update_def)

lemma crc32_Update_Nil [simp]: "crc32_Update c [] = c"
  by (simp add: crc32_Update_def)

lemma CRC32C_concat: "CRC32C parts = crc32_Update 0 (concat parts)"
proof -
  have "foldl crc32_Update c parts = crc32_Update c (concat parts)" for c
    by (induction parts arbitrary: c) (simp_all add: crc32_Update_append)
  then show ?thesis by (simp add: CRC32C_def)
qed

lemma crc32_detects_byte:
  assumes "x \<noteq> y"
  shows "crc32_Update c (p @ x # q) \<noteq> crc32_Update c (p @ y # q)"
  using assms by (simp add: crc32_Update_def bit.compl_eq_compl_iff foldl_crc_step_inj crc_step_inj_byte)

lemma crc32_detects_update:
  assumes "i < length b" "x \<noteq> b ! i"
  shows "crc32_Update c (b[i := x]) \<noteq> crc32_Update c b"
proof -
  have b: "b = take i b @ b ! i # drop (Suc i) b" using assms(1) by (simp add: id_take_nth_drop)
  have b': "b[i := x] = take i b @ x # drop (Suc i) b" using assms(1) by (simp add: upd_conv_take_nth_drop)
  show ?thesis by (subst b, unfold b') (rule crc32_detects_byte[OF assms(2)])
qed

lemma crcUint32LE_update: "crcUint32LE c v = crc32_Update c (le32 v)"
  by (simp add: crcUint32LE_def crc32_Update_def le32_def crc_step_def numeral_eq_Suc drop_bit_drop_bit)

lemma crcWithZeroField_put: "off + 4 \<le> length b \<Longrightarrow> crcWithZeroField b off = crc32_Update 0 (put_at b off (replicate 4 0))"
  by (simp add: crcWithZeroField_def CRC32C_concat put_at_def)

lemma crcWithZeroField_covers:
  assumes "off + 4 \<le> length b" "i < length b" "i < off \<or> off + 4 \<le> i" "y \<noteq> b ! i"
  shows "crcWithZeroField (b[i := y]) off \<noteq> crcWithZeroField b off"
proof -
  let ?z = "\<lambda>b. put_at b off (replicate 4 (0 :: byte))"
  have "?z (b[i := y]) = (?z b)[i := y]"
    using assms(1-3) by (intro nth_equalityI) (auto simp: nth_put_at nth_list_update)
  moreover have "?z b ! i = b ! i" using assms(1-3) by (auto simp: nth_put_at)
  ultimately show ?thesis
    using assms crc32_detects_update[of i "?z b" y 0] by (simp add: crcWithZeroField_put)
qed

lemma crcWithZeroField_skips:
  "off \<le> i \<Longrightarrow> i < off + 4 \<Longrightarrow> crcWithZeroField (b[i := y]) off = crcWithZeroField b off"
  by (simp add: crcWithZeroField_def)

text \<open>Sealing: the checksum is computed with its own field zeroed, then written there.\<close>

lemma crcWithZeroField_put_at [simp]:
  "off + 4 \<le> length b \<Longrightarrow> length s = 4 \<Longrightarrow> crcWithZeroField (put_at b off s) off = crcWithZeroField b off"
  by (simp add: crcWithZeroField_def put_at_def)

lemma seal_again:
  assumes "off + 4 \<le> length b" "of_le32 (seg b off (off + 4)) = crcWithZeroField b off" "length z = 4"
  shows "put_at (put_at b off z) off (le32 (crcWithZeroField b off)) = b"
proof -
  have "le32 (crcWithZeroField b off) = seg b off (off + 4)"
    using assms le_of_le(2)[of "seg b off (off + 4)"] by simp
  then show ?thesis
    using assms(1,3) by (intro nth_equalityI) (auto simp: nth_put_at nth_seg)
qed


section \<open>Properties\<close>

text \<open>The CRC32C of a byte sequence changes whenever a single byte of it changes, whatever was hashed before it.\<close>

lemma CRC32C_detects_change:
  assumes "i < length b" "x \<noteq> b ! i"
  shows "CRC32C [p, b[i := x], q] \<noteq> CRC32C [p, b, q]"
proof -
  have "p @ b[i := x] @ q = (p @ b @ q)[length p + i := x]" using assms(1) by (simp add: list_update_append)
  moreover have "x \<noteq> (p @ b @ q) ! (length p + i)" using assms by (simp add: nth_append)
  ultimately show ?thesis using crc32_detects_update[of "length p + i" "p @ b @ q" x 0] assms(1) by (simp add: CRC32C_concat)
qed

end
