(* ===== verification/Wire_Header.thy ===== *)
theory Wire_Header
  imports Wire_Base
begin

text \<open>
  Package \<^verbatim>\<open>internal/wire\<close>, the 64-byte identity structures: Archive Header (\<^verbatim>\<open>header.go\<close>),
  \<^verbatim>\<open>root.current\<close> (\<^verbatim>\<open>root.go\<close>) and Allocator State (\<^verbatim>\<open>alloc.go\<close>). Each is a record, an
  encoder that writes field by field into a zeroed buffer as the code does, and a decoder
  with the code's checks in the code's order. The locale \<open>codec\<close> states what a fixed-size
  codec promises its callers (encode then decode, decode then encode, only valid values are
  decoded); every codec of the package is an interpretation of it. The locale
  \<open>sealed_codec\<close> adds the self-checksum and derives that any change of one byte is refused.
\<close>

section \<open>What a fixed-size codec promises\<close>

locale codec =
  fixes enc :: "'a \<Rightarrow> bytes result"
    and dec :: "bytes \<Rightarrow> 'a result"
    and valid :: "'a \<Rightarrow> bool"
    and size :: nat
  assumes enc_total: "valid x \<Longrightarrow> \<exists>b. enc x = Inr b \<and> length b = size"
    and dec_enc: "valid x \<Longrightarrow> enc x = Inr b \<Longrightarrow> dec b = Inr x"
    and dec_valid: "dec b = Inr x \<Longrightarrow> valid x"
    and enc_dec: "dec b = Inr x \<Longrightarrow> enc x = Inr (take size b)"
begin

lemma round_trip: "valid x \<Longrightarrow> \<exists>b. enc x = Inr b \<and> length b = size \<and> dec b = Inr x"
  using enc_total dec_enc by blast

lemma enc_inj: "valid x \<Longrightarrow> valid y \<Longrightarrow> enc x = enc y \<Longrightarrow> x = y"
  by (metis dec_enc enc_total sum.inject(2))

lemma dec_canonical: "dec b = Inr x \<Longrightarrow> dec b' = Inr x \<Longrightarrow> take size b = take size b'"
  by (metis enc_dec sum.inject(2))

lemma dec_length: "dec b = Inr x \<Longrightarrow> size \<le> length b"
  using enc_total[OF dec_valid] enc_dec by fastforce

lemma dec_iff: "length b = size \<Longrightarrow> dec b = Inr x \<longleftrightarrow> valid x \<and> enc x = Inr b"
  using dec_valid[of b x] enc_dec[of b x] dec_enc[of x b] by auto

end

text \<open>A codec whose bytes carry the CRC32C of the rest at offset \<open>at\<close>.\<close>

locale sealed_codec = codec +
  fixes crc :: "bytes \<Rightarrow> u32" and at :: nat
  assumes sealed: "dec b = Inr x \<Longrightarrow> length b = size \<and> of_le32 (seg b at (at + 4)) = crc b"
    and at_fits: "at + 4 \<le> size"
    and crc_covers: "length b = size \<Longrightarrow> i < size \<Longrightarrow> i < at \<or> at + 4 \<le> i \<Longrightarrow> y \<noteq> b ! i \<Longrightarrow> crc (b[i := y]) \<noteq> crc b"
    and crc_skips: "length b = size \<Longrightarrow> at \<le> i \<Longrightarrow> i < at + 4 \<Longrightarrow> crc (b[i := y]) = crc b"
begin

lemma one_byte_change_refused:
  assumes ok: "dec b = Inr x" and i: "i < size" and y: "y \<noteq> b ! i"
  shows "isl (dec (b[i := y]))"
proof (rule ccontr)
  assume "\<not> isl (dec (b[i := y]))"
  then obtain x' where ok': "dec (b[i := y]) = Inr x'" by (cases "dec (b[i := y])") auto
  note s = sealed[OF ok] and s' = sealed[OF ok']
  show False
  proof (cases "at \<le> i \<and> i < at + 4")
    case True
    have "seg (b[i := y]) at (at + 4) \<noteq> seg b at (at + 4)"
    proof
      assume eq: "seg (b[i := y]) at (at + 4) = seg b at (at + 4)"
      have "b[i := y] ! (at + (i - at)) = seg (b[i := y]) at (at + 4) ! (i - at)"
        using True at_fits s by (subst nth_seg) auto
      also have "\<dots> = b ! (at + (i - at))"
        unfolding eq using True at_fits s by (subst nth_seg) auto
      finally show False using True y i s by simp
    qed
    moreover have "length (seg (b[i := y]) at (at + 4)) = 4" "length (seg b at (at + 4)) = 4"
      using at_fits s by simp_all
    ultimately have "of_le32 (seg (b[i := y]) at (at + 4)) \<noteq> of_le32 (seg b at (at + 4))"
      by (metis le_of_le(2))
    then show False using s s' True crc_skips[of b i y] by simp
  next
    case False
    then have "seg (b[i := y]) at (at + 4) = seg b at (at + 4)"
      using at_fits s by (intro nth_equalityI) (auto simp: nth_seg)
    then show False using s s' crc_covers[of b i y] False i y by auto
  qed
qed

end

section \<open>Archive Header\<close>

record ArchiveHeader =
  h_Mode :: FrameSizeMode
  h_HashID :: HashID
  h_CodecID :: CodecID
  h_ParityScheme :: ParityScheme
  h_ParityK :: byte
  h_ParityM :: byte
  h_BlobCount :: byte
  h_Flags :: byte
  h_MaxFrameQuanta :: u32
  h_GenerationID :: u64
  h_ArchiveID :: bytes

definition Encrypted :: "ArchiveHeader \<Rightarrow> bool" where
  "Encrypted h \<longleftrightarrow> h_Flags h AND HeaderFlagEncrypted \<noteq> 0"

definition MaxFrameSize :: "ArchiveHeader \<Rightarrow> u64" where
  "MaxFrameSize h = ucast (h_MaxFrameQuanta h) * 4096"

definition validateParityHeader :: "ParityScheme \<Rightarrow> byte \<Rightarrow> byte \<Rightarrow> byte \<Rightarrow> unit result" where
  "validateParityHeader p k m blobs =
    (let shared =
       (if blobs < 2 then errf ErrCorrupt ''ArchiveHeader'' ''blob_count''
        else if unat k + unat m > MaxParityShards then errf ErrCorrupt ''ArchiveHeader'' ''parity_m''
        else Inr ())
     in if p = ParityNone then
          (if k \<noteq> 0 \<or> m \<noteq> 0 then errf ErrCorrupt ''ArchiveHeader'' ''parity_k'' else Inr ())
        else if p = ParityXOR then
          (if k = 0 \<or> m \<noteq> 1 then errf ErrCorrupt ''ArchiveHeader'' ''parity_k'' else shared)
        else if p = ParityRS then
          (if k = 0 \<or> m = 0 then errf ErrCorrupt ''ArchiveHeader'' ''parity_k'' else shared)
        else errf ErrUnsupported ''ArchiveHeader'' ''parity_scheme'')"

definition ArchiveHeader_Validate :: "ArchiveHeader \<Rightarrow> unit result" where
  "ArchiveHeader_Validate h =
    (if \<not> FrameSizeMode_Valid (h_Mode h) then errf ErrUnsupported ''ArchiveHeader'' ''frame_size_mode''
     else if \<not> HashID_Valid (h_HashID h) then errf ErrUnsupported ''ArchiveHeader'' ''hash_id''
     else if \<not> CodecID_Valid (h_CodecID h) then errf ErrUnsupported ''ArchiveHeader'' ''codec_id''
     else if h_BlobCount h = 0 then errf ErrCorrupt ''ArchiveHeader'' ''blob_count''
     else if h_Flags h AND NOT HeaderFlagEncrypted \<noteq> 0 then errf ErrCorrupt ''ArchiveHeader'' ''flags''
     else if h_MaxFrameQuanta h = 0 \<or> h_MaxFrameQuanta h > MaxMaxFrameQuanta
       then errf ErrCorrupt ''ArchiveHeader'' ''max_frame_quanta''
     else validateParityHeader (h_ParityScheme h) (h_ParityK h) (h_ParityM h) (h_BlobCount h))"

definition ArchiveHeader_image :: "ArchiveHeader \<Rightarrow> bytes" where
  "ArchiveHeader_image h = put_all (replicate ArchiveHeaderSize 0)
    [(0, MagicArchiveHeader),
     (4, le16 Version),
     (6, [h_Mode h]),
     (7, [h_HashID h]),
     (8, [h_CodecID h]),
     (9, [h_ParityScheme h]),
     (10, [h_ParityK h]),
     (11, [h_ParityM h]),
     (12, [h_BlobCount h]),
     (13, [h_Flags h]),
     (14, le16 64),
     (16, le32 (h_MaxFrameQuanta h)),
     (20, le64 (h_GenerationID h)),
     (32, h_ArchiveID h)]"

definition ArchiveHeader_AppendBinary :: "ArchiveHeader \<Rightarrow> bytes \<Rightarrow> bytes result" where
  "ArchiveHeader_AppendBinary h dst =
    (case ArchiveHeader_Validate h of Inl e \<Rightarrow> Inl e | Inr _ \<Rightarrow> Inr (dst @ ArchiveHeader_image h))"

definition DecodeArchiveHeader :: "bytes \<Rightarrow> ArchiveHeader result" where
  "DecodeArchiveHeader b =
    (if length b < 6 then errf ErrCorrupt ''ArchiveHeader'' ''''
     else if seg b 0 4 \<noteq> MagicArchiveHeader then errf ErrCorrupt ''ArchiveHeader'' ''magic''
     else let v = of_le16 (seg b 4 6) in
     if isLegacyVersion v then errf ErrLegacyVersion ''ArchiveHeader'' ''version''
     else if v \<noteq> Version then errf ErrUnsupported ''ArchiveHeader'' ''version''
     else if length b < ArchiveHeaderSize then errf ErrCorrupt ''ArchiveHeader'' ''''
     else if of_le16 (seg b 14 16) \<noteq> 64 then errf ErrCorrupt ''ArchiveHeader'' ''header_size''
     else if \<not> allZero (seg b 28 32) then errf ErrCorrupt ''ArchiveHeader'' ''reserved''
     else let h = \<lparr> h_Mode = b ! 6, h_HashID = b ! 7, h_CodecID = b ! 8, h_ParityScheme = b ! 9,
                    h_ParityK = b ! 10, h_ParityM = b ! 11, h_BlobCount = b ! 12, h_Flags = b ! 13,
                    h_MaxFrameQuanta = of_le32 (seg b 16 20), h_GenerationID = of_le64 (seg b 20 28),
                    h_ArchiveID = seg b 32 64 \<rparr>
     in case ArchiveHeader_Validate h of Inl e \<Rightarrow> Inl e | Inr _ \<Rightarrow> Inr h)"

definition SameArchive :: "ArchiveHeader \<Rightarrow> ArchiveHeader \<Rightarrow> bool" where
  "SameArchive h k \<longleftrightarrow> h\<lparr>h_GenerationID := 0\<rparr> = k\<lparr>h_GenerationID := 0\<rparr>"

definition wf_header :: "ArchiveHeader \<Rightarrow> bool" where
  "wf_header h \<longleftrightarrow> length (h_ArchiveID h) = ArchiveIDSize \<and> ArchiveHeader_Validate h = Inr ()"

subsection \<open>Header invariants\<close>

lemma ArchiveHeader_eta [simp]:
  "\<lparr> h_Mode = h_Mode h, h_HashID = h_HashID h, h_CodecID = h_CodecID h, h_ParityScheme = h_ParityScheme h,
     h_ParityK = h_ParityK h, h_ParityM = h_ParityM h, h_BlobCount = h_BlobCount h, h_Flags = h_Flags h,
     h_MaxFrameQuanta = h_MaxFrameQuanta h, h_GenerationID = h_GenerationID h,
     h_ArchiveID = h_ArchiveID h \<rparr> = h"
  by simp

lemma wf_header_bounds:
  assumes "wf_header h"
  shows "0 < unat (h_MaxFrameQuanta h)" "unat (h_MaxFrameQuanta h) \<le> 2 ^ 20"
    "HashID_Valid (h_HashID h)" "FrameSizeMode_Valid (h_Mode h)"
    "unat (MaxFrameSize h) = unat (h_MaxFrameQuanta h) * 4096"
proof -
  from assms have v: "ArchiveHeader_Validate h = Inr ()" by (simp add: wf_header_def)
  then show q: "0 < unat (h_MaxFrameQuanta h)" "unat (h_MaxFrameQuanta h) \<le> 2 ^ 20"
    "HashID_Valid (h_HashID h)" "FrameSizeMode_Valid (h_Mode h)"
    by (auto simp: ArchiveHeader_Validate_def word_le_nat_alt not_less unat_gt_0 split: if_splits)
  show "unat (MaxFrameSize h) = unat (h_MaxFrameQuanta h) * 4096" by (simp add: MaxFrameSize_def)
qed

lemma wf_header_parity:
  assumes "wf_header h" "h_ParityScheme h \<noteq> ParityNone"
  shows "0 < unat (h_ParityK h)" "0 < unat (h_ParityM h)" "unat (h_ParityK h) + unat (h_ParityM h) \<le> 256"
    "2 \<le> unat (h_BlobCount h)" "h_ParityScheme h = ParityXOR \<or> h_ParityScheme h = ParityRS"
    "h_ParityScheme h = ParityXOR \<Longrightarrow> h_ParityM h = 1"
  using assms
  by (auto simp: wf_header_def ArchiveHeader_Validate_def validateParityHeader_def Let_def
      word_le_nat_alt not_less unat_gt_0 split: if_splits)

subsection \<open>The header codec\<close>

lemma ArchiveHeader_image_eq:
  assumes "length (h_ArchiveID h) = 32"
  shows "ArchiveHeader_image h = MagicArchiveHeader @ le16 Version @
    [h_Mode h, h_HashID h, h_CodecID h, h_ParityScheme h, h_ParityK h, h_ParityM h, h_BlobCount h, h_Flags h] @
    le16 64 @ le32 (h_MaxFrameQuanta h) @ le64 (h_GenerationID h) @ replicate 4 0 @ h_ArchiveID h"
  unfolding ArchiveHeader_image_def using assms by (subst put_all_laid_out) simp_all

lemma length_ArchiveHeader_image [simp]:
  "length (h_ArchiveID h) = 32 \<Longrightarrow> length (ArchiveHeader_image h) = 64"
  by (simp add: ArchiveHeader_image_eq)

lemma DecodeArchiveHeader_image:
  assumes "wf_header h"
  shows "DecodeArchiveHeader (ArchiveHeader_image h) = Inr h"
proof -
  from assms have len: "length (h_ArchiveID h) = 32" and v: "ArchiveHeader_Validate h = Inr ()"
    by (simp_all add: wf_header_def)
  show ?thesis
    unfolding DecodeArchiveHeader_def ArchiveHeader_image_eq[OF len]
    by (simp add: len v range_simps nth_append isLegacyVersion_def Let_def)
qed

lemma DecodeArchiveHeader_Inr:
  assumes "DecodeArchiveHeader b = Inr h"
  shows "wf_header h \<and> 64 \<le> length b \<and> ArchiveHeader_image h = take 64 b"
proof -
  have len: "64 \<le> length b"
    using assms by (auto simp: DecodeArchiveHeader_def Let_def split: if_splits)
  have hd: "seg b 0 4 = MagicArchiveHeader" "of_le16 (seg b 4 6) = Version" "of_le16 (seg b 14 16) = 64"
    "seg b 28 32 = replicate 4 0"
    and h: "h = \<lparr> h_Mode = b ! 6, h_HashID = b ! 7, h_CodecID = b ! 8, h_ParityScheme = b ! 9,
                  h_ParityK = b ! 10, h_ParityM = b ! 11, h_BlobCount = b ! 12, h_Flags = b ! 13,
                  h_MaxFrameQuanta = of_le32 (seg b 16 20), h_GenerationID = of_le64 (seg b 20 28),
                  h_ArchiveID = seg b 32 64 \<rparr>"
    and v: "ArchiveHeader_Validate h = Inr ()"
    using assms len
    by (auto simp: DecodeArchiveHeader_def Let_def split: if_splits sum.splits)
  have wf: "wf_header h" using v len by (simp add: wf_header_def h)
  have le: "le16 Version = seg b 4 6" "le16 64 = seg b 14 16"
    using hd len le_of_le(1)[of "seg b 4 6"] le_of_le(1)[of "seg b 14 16"] by simp_all
  have mid: "seg b 6 14 = [b ! 6, b ! 7, b ! 8, b ! 9, b ! 10, b ! 11, b ! 12, b ! 13]"
    using len by (simp add: seg_conv_map_nth upt_rec_numeral)
  have "same_ranges (ArchiveHeader_image h) (take 64 b) 0 [4, 6, 14, 16, 20, 28, 32, 64]"
    using len hd le mid wf unfolding wf_header_def
    by (simp add: ArchiveHeader_image_eq range_simps h)
  then show ?thesis using wf len same_rangesI by blast
qed

interpretation header_codec: codec "\<lambda>h. ArchiveHeader_AppendBinary h []" DecodeArchiveHeader wf_header 64
  by unfold_locales
    (auto simp: ArchiveHeader_AppendBinary_def wf_header_def DecodeArchiveHeader_image
      dest: DecodeArchiveHeader_Inr)

section \<open>root.current\<close>

record Root =
  r_GenerationID :: u64
  r_ArchiveID :: bytes

definition Root_fields :: "Root \<Rightarrow> bytes" where
  "Root_fields r = put_all (replicate RootSize 0)
     [(0, MagicRoot), (8, le16 Version), (10, le16 64), (12, le64 (r_GenerationID r)), (20, r_ArchiveID r)]"

definition Root_AppendBinary :: "Root \<Rightarrow> bytes \<Rightarrow> bytes" where
  "Root_AppendBinary r dst =
    (let b = Root_fields r
     in dst @ put_at b 56 (le32 (crcWithZeroField b 56)))"

definition DecodeRoot :: "bytes \<Rightarrow> Root result" where
  "DecodeRoot b =
    (if length b \<noteq> RootSize then errf ErrCorrupt ''Root'' ''''
     else if seg b 0 8 \<noteq> MagicRoot then errf ErrCorrupt ''Root'' ''magic''
     else if of_le32 (seg b 56 60) \<noteq> crcWithZeroField b 56 then errf ErrCorrupt ''Root'' ''root_crc32c''
     else if of_le16 (seg b 8 10) \<noteq> Version then errf ErrUnsupported ''Root'' ''version''
     else if of_le16 (seg b 10 12) \<noteq> 64 then errf ErrCorrupt ''Root'' ''root_size''
     else if \<not> allZero (seg b 52 56) then errf ErrCorrupt ''Root'' ''flags''
     else if \<not> allZero (seg b 60 64) then errf ErrCorrupt ''Root'' ''reserved''
     else Inr \<lparr> r_GenerationID = of_le64 (seg b 12 20), r_ArchiveID = seg b 20 52 \<rparr>)"

definition wf_root :: "Root \<Rightarrow> bool" where
  "wf_root r \<longleftrightarrow> length (r_ArchiveID r) = ArchiveIDSize"

lemma Root_fields_eq:
  assumes "wf_root r"
  shows "Root_fields r = MagicRoot @ le16 Version @ le16 64 @ le64 (r_GenerationID r) @ r_ArchiveID r @ replicate 12 0"
  using assms unfolding Root_fields_def by (subst put_all_laid_out) (simp_all add: wf_root_def)

lemma Root_fields_parts:
  assumes "wf_root r"
  shows "length (Root_fields r) = 64" "seg (Root_fields r) 0 8 = MagicRoot" "seg (Root_fields r) 8 10 = le16 Version"
    "seg (Root_fields r) 10 12 = le16 64" "seg (Root_fields r) 12 20 = le64 (r_GenerationID r)"
    "seg (Root_fields r) 20 52 = r_ArchiveID r" "seg (Root_fields r) 52 56 = replicate 4 0"
    "seg (Root_fields r) 60 64 = replicate 4 0"
  using assms by (simp_all add: Root_fields_eq wf_root_def range_simps)

lemma length_Root_AppendBinary [simp]: "wf_root r \<Longrightarrow> length (Root_AppendBinary r dst) = length dst + 64"
  by (simp add: Root_AppendBinary_def Root_fields_parts Let_def)

lemma DecodeRoot_image: "wf_root r \<Longrightarrow> DecodeRoot (Root_AppendBinary r []) = Inr r"
  by (simp add: DecodeRoot_def Root_AppendBinary_def Root_fields_parts Let_def range_simps)

lemma DecodeRoot_Inr:
  assumes "DecodeRoot b = Inr r"
  shows "wf_root r \<and> length b = 64 \<and> of_le32 (seg b 56 60) = crcWithZeroField b 56 \<and> Root_AppendBinary r [] = b"
proof -
  have len: "length b = 64" and crc: "of_le32 (seg b 56 60) = crcWithZeroField b 56"
    and f: "seg b 0 8 = MagicRoot" "of_le16 (seg b 8 10) = Version" "of_le16 (seg b 10 12) = 64"
      "seg b 52 56 = replicate 4 0" "seg b 60 64 = replicate 4 0"
    and r: "r = \<lparr> r_GenerationID = of_le64 (seg b 12 20), r_ArchiveID = seg b 20 52 \<rparr>"
    using assms by (auto simp: DecodeRoot_def split: if_splits)
  have le: "le16 Version = seg b 8 10" "le16 64 = seg b 10 12"
    using f len le_of_le(1)[of "seg b 8 10"] le_of_le(1)[of "seg b 10 12"] by simp_all
  have wf: "wf_root r" using len by (simp add: wf_root_def r)
  have "same_ranges (Root_fields r) (put_at b 56 (replicate 4 0)) 0 [8, 10, 12, 20, 52, 56, 60, 64]"
    unfolding Root_fields_eq[OF wf] using len f le by (simp add: range_simps r)
  then have z: "Root_fields r = put_at b 56 (replicate 4 0)" by (rule same_rangesI)
  show ?thesis
    using wf len crc seal_again[of 56 b "replicate 4 0"] by (simp add: Root_AppendBinary_def Let_def z)
qed

interpretation root_codec: sealed_codec "\<lambda>r. Inr (Root_AppendBinary r [])" DecodeRoot wf_root 64 "\<lambda>b. crcWithZeroField b 56" 56
  by unfold_locales
    (auto simp: DecodeRoot_image crcWithZeroField_covers crcWithZeroField_skips dest: DecodeRoot_Inr)

section \<open>Allocator State\<close>

record AllocState =
  a_Kind :: AllocKind
  a_BlobOrdinal :: byte
  a_GenerationID :: u64
  a_ReservedThrough :: u64
  a_ArchiveID :: bytes

definition AllocState_Validate :: "AllocState \<Rightarrow> unit result" where
  "AllocState_Validate a =
    (if \<not> AllocKind_Valid (a_Kind a) then errf ErrUnsupported ''AllocState'' ''kind''
     else if a_Kind a = AllocFrameOrdinal \<and> a_BlobOrdinal a > MaxBlobOrdinal
       then errf ErrCorrupt ''AllocState'' ''blob_ordinal''
     else if a_Kind a \<noteq> AllocFrameOrdinal \<and> a_BlobOrdinal a \<noteq> 0
       then errf ErrCorrupt ''AllocState'' ''blob_ordinal''
     else if \<not> PerGeneration (a_Kind a) \<and> a_GenerationID a \<noteq> 0
       then errf ErrCorrupt ''AllocState'' ''generation_id''
     else Inr ())"

definition AllocState_fields :: "AllocState \<Rightarrow> bytes" where
  "AllocState_fields a = put_all (replicate AllocStateSize 0)
     [(0, MagicAllocState), (8, le16 Version), (10, [a_Kind a]), (11, [a_BlobOrdinal a]),
      (16, le64 (a_GenerationID a)), (24, le64 (a_ReservedThrough a)), (32, a_ArchiveID a)]"

definition AllocState_AppendBinary :: "AllocState \<Rightarrow> bytes \<Rightarrow> bytes result" where
  "AllocState_AppendBinary a dst =
    (case AllocState_Validate a of Inl e \<Rightarrow> Inl e
     | Inr _ \<Rightarrow>
       (let b = AllocState_fields a in Inr (dst @ put_at b 12 (le32 (crcWithZeroField b 12)))))"

definition DecodeAllocState :: "bytes \<Rightarrow> AllocState result" where
  "DecodeAllocState b =
    (if length b \<noteq> AllocStateSize then errf ErrCorrupt ''AllocState'' ''''
     else if seg b 0 8 \<noteq> MagicAllocState then errf ErrCorrupt ''AllocState'' ''magic''
     else if of_le32 (seg b 12 16) \<noteq> crcWithZeroField b 12 then errf ErrCorrupt ''AllocState'' ''alloc_crc32c''
     else if of_le16 (seg b 8 10) \<noteq> Version then errf ErrUnsupported ''AllocState'' ''version''
     else let a = \<lparr> a_Kind = b ! 10, a_BlobOrdinal = b ! 11, a_GenerationID = of_le64 (seg b 16 24),
                    a_ReservedThrough = of_le64 (seg b 24 32), a_ArchiveID = seg b 32 64 \<rparr>
     in case AllocState_Validate a of Inl e \<Rightarrow> Inl e | Inr _ \<Rightarrow> Inr a)"

definition wf_allocstate :: "AllocState \<Rightarrow> bool" where
  "wf_allocstate a \<longleftrightarrow> length (a_ArchiveID a) = ArchiveIDSize \<and> AllocState_Validate a = Inr ()"

lemma AllocState_fields_eq:
  assumes "length (a_ArchiveID a) = 32"
  shows "AllocState_fields a
    = MagicAllocState @ le16 Version @ [a_Kind a, a_BlobOrdinal a] @ replicate 4 0 @
      le64 (a_GenerationID a) @ le64 (a_ReservedThrough a) @ a_ArchiveID a"
  unfolding AllocState_fields_def using assms by (subst put_all_laid_out) simp_all

lemma AllocState_fields_parts:
  assumes "length (a_ArchiveID a) = 32"
  shows "length (AllocState_fields a) = 64" "seg (AllocState_fields a) 0 8 = MagicAllocState"
    "seg (AllocState_fields a) 8 10 = le16 Version" "AllocState_fields a ! 10 = a_Kind a"
    "AllocState_fields a ! 11 = a_BlobOrdinal a" "seg (AllocState_fields a) 16 24 = le64 (a_GenerationID a)"
    "seg (AllocState_fields a) 24 32 = le64 (a_ReservedThrough a)" "seg (AllocState_fields a) 32 64 = a_ArchiveID a"
  using assms by (simp_all add: AllocState_fields_eq nth_append range_simps)

lemma AllocState_AppendBinary_Inr:
  "wf_allocstate a \<Longrightarrow> \<exists>b. AllocState_AppendBinary a [] = Inr b \<and> length b = 64"
  by (auto simp: AllocState_AppendBinary_def AllocState_fields_parts wf_allocstate_def Let_def)

lemma AllocState_eta [simp]:
  "\<lparr> a_Kind = a_Kind a, a_BlobOrdinal = a_BlobOrdinal a, a_GenerationID = a_GenerationID a,
     a_ReservedThrough = a_ReservedThrough a, a_ArchiveID = a_ArchiveID a \<rparr> = a"
  by simp

lemma DecodeAllocState_image:
  assumes "wf_allocstate a" "AllocState_AppendBinary a [] = Inr b"
  shows "DecodeAllocState b = Inr a"
proof -
  from assms have len: "length (a_ArchiveID a) = 32" and v: "AllocState_Validate a = Inr ()"
    and b: "b = put_at (AllocState_fields a) 12 (le32 (crcWithZeroField (AllocState_fields a) 12))"
    by (auto simp: wf_allocstate_def AllocState_AppendBinary_def Let_def)
  show ?thesis
    unfolding b by (simp add: DecodeAllocState_def AllocState_fields_parts[OF len] v Let_def range_simps)
qed

lemma DecodeAllocState_Inr:
  assumes "DecodeAllocState b = Inr a"
  shows "wf_allocstate a \<and> length b = 64 \<and> of_le32 (seg b 12 16) = crcWithZeroField b 12 \<and>
    AllocState_AppendBinary a [] = Inr b"
proof -
  have len: "length b = 64" and crc: "of_le32 (seg b 12 16) = crcWithZeroField b 12"
    and f: "seg b 0 8 = MagicAllocState" "of_le16 (seg b 8 10) = Version"
    and v: "AllocState_Validate a = Inr ()"
    and a: "a = \<lparr> a_Kind = b ! 10, a_BlobOrdinal = b ! 11, a_GenerationID = of_le64 (seg b 16 24),
                  a_ReservedThrough = of_le64 (seg b 24 32), a_ArchiveID = seg b 32 64 \<rparr>"
    using assms by (auto simp: DecodeAllocState_def Let_def split: if_splits sum.splits)
  have le: "le16 Version = seg b 8 10" using f len le_of_le(1)[of "seg b 8 10"] by simp
  have mid: "seg b 10 12 = [b ! 10, b ! 11]" using len by (simp add: seg_conv_map_nth upt_rec_numeral)
  have wf: "wf_allocstate a" using len v by (simp add: wf_allocstate_def a)
  have al: "length (a_ArchiveID a) = 32" using len by (simp add: a)
  have "same_ranges (AllocState_fields a) (put_at b 12 (replicate 4 0)) 0 [8, 10, 12, 16, 24, 32, 64]"
    unfolding AllocState_fields_eq[OF al] using len f le mid by (simp add: range_simps a)
  then have z: "AllocState_fields a = put_at b 12 (replicate 4 0)" by (rule same_rangesI)
  show ?thesis
    using wf len crc v seal_again[of 12 b "replicate 4 0"]
    by (simp add: AllocState_AppendBinary_def Let_def z)
qed

interpretation alloc_codec: sealed_codec "\<lambda>a. AllocState_AppendBinary a []" DecodeAllocState wf_allocstate 64
    "\<lambda>b. crcWithZeroField b 12" 12
  by unfold_locales
    (auto simp: AllocState_AppendBinary_Inr DecodeAllocState_image crcWithZeroField_covers
      crcWithZeroField_skips dest: DecodeAllocState_Inr)


section \<open>Properties\<close>

text \<open>Encoding and decoding of the Archive Header are exact inverses: every valid header encodes to 64 bytes, and
  64 bytes decode to a header exactly when that header is valid and encodes to these bytes.\<close>

lemma header_codec_exact:
  assumes "length b = 64"
  shows "(DecodeArchiveHeader b = Inr h \<longleftrightarrow> wf_header h \<and> ArchiveHeader_AppendBinary h [] = Inr b) \<and>
    (wf_header h \<longrightarrow> (\<exists>b. ArchiveHeader_AppendBinary h [] = Inr b \<and> length b = 64))"
  using header_codec.dec_iff[OF assms] header_codec.enc_total by blast

definition sample_header :: ArchiveHeader where
  "sample_header = \<lparr> h_Mode = 0, h_HashID = 1, h_CodecID = 0, h_ParityScheme = 1, h_ParityK = 2, h_ParityM = 1,
     h_BlobCount = 3, h_Flags = 0, h_MaxFrameQuanta = 16, h_GenerationID = 7, h_ArchiveID = replicate 32 9 \<rparr>"

lemma wf_sample_header: "wf_header sample_header"
  by (simp add: wf_header_def sample_header_def ArchiveHeader_Validate_def validateParityHeader_def
      FrameSizeMode_Valid_def HashID_Valid_def CodecID_Valid_def)

text \<open>Every header that decodes keeps the format's bounds: one to \<open>2 ^ 20\<close> quanta per frame, a frame size that does
  not wrap, a known hash; and with parity at least one data and one parity shard, at most 256 shards and two blobs, a
  single parity shard for XOR.\<close>

lemma decoded_header_bounds:
  assumes "DecodeArchiveHeader b = Inr h"
  shows "0 < unat (h_MaxFrameQuanta h) \<and> unat (h_MaxFrameQuanta h) \<le> 2 ^ 20 \<and>
    unat (MaxFrameSize h) = unat (h_MaxFrameQuanta h) * 4096 \<and> HashID_Valid (h_HashID h) \<and>
    (h_ParityScheme h \<noteq> ParityNone \<longrightarrow> 0 < unat (h_ParityK h) \<and> 0 < unat (h_ParityM h) \<and>
       unat (h_ParityK h) + unat (h_ParityM h) \<le> 256 \<and> 2 \<le> unat (h_BlobCount h)) \<and>
    (h_ParityScheme h = ParityXOR \<longrightarrow> h_ParityM h = 1)"
proof -
  have wf: "wf_header h" using DecodeArchiveHeader_Inr[OF assms] by simp
  show ?thesis using wf_header_bounds[OF wf] wf_header_parity[OF wf] by auto
qed

text \<open>\<^verbatim>\<open>root.current\<close> decodes to a root exactly when it is the encoding of that root, and any change of one byte of a
  file that decodes is refused.\<close>

lemma root_codec_sealed:
  assumes "DecodeRoot b = Inr r"
  shows "wf_root r \<and> Root_AppendBinary r [] = b \<and> (i < 64 \<and> y \<noteq> b ! i \<longrightarrow> isl (DecodeRoot (b[i := y])))"
  using DecodeRoot_Inr[OF assms] root_codec.one_byte_change_refused[OF assms] by blast

text \<open>An Allocator State file decodes to a state exactly when it is the encoding of that state, and any change of one
  byte of a file that decodes is refused.\<close>

lemma alloc_state_codec_sealed:
  assumes "DecodeAllocState b = Inr a"
  shows "wf_allocstate a \<and> AllocState_AppendBinary a [] = Inr b \<and>
    (i < 64 \<and> y \<noteq> b ! i \<longrightarrow> isl (DecodeAllocState (b[i := y])))"
  using DecodeAllocState_Inr[OF assms] alloc_codec.one_byte_change_refused[OF assms] by blast

end
