(* ===== verification/Wire_Frame.thy ===== *)
theory Wire_Frame
  imports Wire_Header
begin

text \<open>
  Package \<^verbatim>\<open>internal/wire\<close>, the structures of one frame: Frame Prefix (\<^verbatim>\<open>prefix.go\<close>), frame
  geometry (\<^verbatim>\<open>geometry.go\<close>), Master Trailer and its semantic rules (\<^verbatim>\<open>trailer.go\<close>) and the
  reverse parse of a frame's tail (\<^verbatim>\<open>outercrc.go\<close>). The lemmas give the codecs' round
  trips, that the layout partitions the frame exactly, and what a successful tail parse
  guarantees, including that a changed byte of the body or the trailer is refused.
\<close>

section \<open>Frame Prefix\<close>

record FramePrefix =
  p_FrameQuanta :: u32

definition prefixCRC :: "bytes \<Rightarrow> u32" where
  "prefixCRC b = CRC32C [seg b 0 8, seg b 12 16]"

definition FramePrefix_AppendBinary :: "FramePrefix \<Rightarrow> bytes \<Rightarrow> bytes result" where
  "FramePrefix_AppendBinary p dst =
    (if p_FrameQuanta p = 0 \<or> p_FrameQuanta p > MaxMaxFrameQuanta
     then errf ErrInvalid ''FramePrefix'' ''frame_quanta''
     else let b = MagicFramePrefix @ le32 (p_FrameQuanta p) @ replicate 8 0
       in Inr (dst @ put_at b 8 (le32 (prefixCRC b))))"

definition CheckFrameQuanta :: "u32 \<Rightarrow> ArchiveHeader \<Rightarrow> unit result" where
  "CheckFrameQuanta q h =
    (if q = 0 \<or> q > h_MaxFrameQuanta h then errf ErrCorrupt ''Frame'' ''frame_quanta''
     else if h_Mode h = ModeFixed \<and> q \<noteq> h_MaxFrameQuanta h then errf ErrCorrupt ''Frame'' ''frame_quanta''
     else Inr ())"

definition DecodeFramePrefix :: "bytes \<Rightarrow> ArchiveHeader \<Rightarrow> FramePrefix result" where
  "DecodeFramePrefix b h =
    (if length b < FramePrefixSize then errf ErrCorrupt ''FramePrefix'' ''''
     else if seg b 0 4 \<noteq> MagicFramePrefix then errf ErrCorrupt ''FramePrefix'' ''magic''
     else if of_le32 (seg b 8 12) \<noteq> prefixCRC b then errf ErrCorrupt ''FramePrefix'' ''prefix_crc32c''
     else if of_le32 (seg b 12 16) \<noteq> 0 then errf ErrCorrupt ''FramePrefix'' ''flags''
     else let q = of_le32 (seg b 4 8)
       in case CheckFrameQuanta q h of Inl e \<Rightarrow> Inl e | Inr _ \<Rightarrow> Inr \<lparr> p_FrameQuanta = q \<rparr>)"

section \<open>Geometry\<close>

definition FrameSize :: "u32 \<Rightarrow> u64" where
  "FrameSize q = ucast q * 4096"

definition OnFrameGrid :: "u64 \<Rightarrow> bool" where
  "OnFrameGrid off \<longleftrightarrow> off \<ge> 64 \<and> (off - 64) mod 4096 = 0"

definition FixedSlotOffset :: "u64 \<Rightarrow> ArchiveHeader \<Rightarrow> u64 result" where
  "FixedSlotOffset n h =
    (case Mul64 n (MaxFrameSize h) of
       Inl _ \<Rightarrow> errf ErrResource ''Geometry'' ''slot''
     | Inr m \<Rightarrow> (case Add64 m 64 of
         Inl _ \<Rightarrow> errf ErrResource ''Geometry'' ''slot''
       | Inr off \<Rightarrow> Inr off))"

definition FrameEnd :: "u64 \<Rightarrow> u32 \<Rightarrow> u64 \<Rightarrow> u64 result" where
  "FrameEnd off q blobSize =
    (if \<not> OnFrameGrid off then errf ErrCorrupt ''Geometry'' ''offset''
     else case RangeEnd off (FrameSize q) blobSize of
       Inl _ \<Rightarrow> errf ErrCorrupt ''Geometry'' ''frame_end''
     | Inr e \<Rightarrow> Inr e)"

record Layout =
  l_FrameSize :: u64
  l_PayloadStart :: u64
  l_PayloadEnd :: u64
  l_PaddingLen :: u64
  l_PreTrailerStart :: u64
  l_PreTrailerLen :: u64
  l_TrailerStart :: u64

definition ComputeLayout :: "u32 \<Rightarrow> u64 \<Rightarrow> u64 \<Rightarrow> Layout result" where
  "ComputeLayout q dataLen preTrailerLen =
    (let fs = FrameSize q in
     case Sum64 [116, dataLen, preTrailerLen] of
       Inl _ \<Rightarrow> errf ErrCorrupt ''Geometry'' ''budget''
     | Inr used \<Rightarrow>
       if used > fs then errf ErrCorrupt ''Geometry'' ''budget''
       else let trailerStart = fs - 96;
                ptStart = trailerStart - 4 - preTrailerLen;
                payloadEnd = 16 + dataLen
         in Inr \<lparr> l_FrameSize = fs, l_PayloadStart = 16, l_PayloadEnd = payloadEnd,
                  l_PaddingLen = ptStart - payloadEnd, l_PreTrailerStart = ptStart,
                  l_PreTrailerLen = preTrailerLen, l_TrailerStart = trailerStart \<rparr>)"

definition ParityShardLen :: "u32 \<Rightarrow> u64" where
  "ParityShardLen q = FrameSize q - 124"

subsection \<open>The prefix codec\<close>

lemma CheckFrameQuanta_Inr:
  "CheckFrameQuanta q h = Inr () \<longleftrightarrow>
     0 < unat q \<and> unat q \<le> unat (h_MaxFrameQuanta h) \<and> (h_Mode h = ModeFixed \<longrightarrow> q = h_MaxFrameQuanta h)"
  by (auto simp: CheckFrameQuanta_def word_le_nat_alt not_less unat_gt_0)

lemma prefixCRC_put_at [simp]: "16 \<le> length b \<Longrightarrow> length s = 4 \<Longrightarrow> prefixCRC (put_at b 8 s) = prefixCRC b"
  by (simp add: prefixCRC_def range_simps)

lemma prefixCRC_take [simp]: "16 \<le> n \<Longrightarrow> prefixCRC (take n b) = prefixCRC b"
  by (simp add: prefixCRC_def range_simps)

lemma prefixCRC_append [simp]: "16 \<le> length b \<Longrightarrow> prefixCRC (b @ x) = prefixCRC b"
  by (simp add: prefixCRC_def range_simps)

lemma FramePrefix_AppendBinary_Inr:
  assumes "FramePrefix_AppendBinary p dst = Inr b"
  shows "\<exists>pre. b = dst @ pre \<and> length pre = 16 \<and> seg pre 0 4 = MagicFramePrefix \<and>
    seg pre 4 8 = le32 (p_FrameQuanta p) \<and> seg pre 8 12 = le32 (prefixCRC pre) \<and> seg pre 12 16 = replicate 4 0"
proof -
  let ?f = "MagicFramePrefix @ le32 (p_FrameQuanta p) @ replicate 8 0"
  have len: "length ?f = 16" by simp
  have parts: "seg ?f 0 4 = MagicFramePrefix" "seg ?f 4 8 = le32 (p_FrameQuanta p)" "seg ?f 12 16 = replicate 4 0"
    by (simp_all add: range_simps)
  from assms have "b = dst @ put_at ?f 8 (le32 (prefixCRC ?f))"
    by (simp add: FramePrefix_AppendBinary_def Let_def split: if_splits)
  moreover have "length (put_at ?f 8 (le32 (prefixCRC ?f))) = 16"
    using len by (subst length_put_at) simp_all
  moreover have "seg (put_at ?f 8 (le32 (prefixCRC ?f))) 0 4 = MagicFramePrefix"
    "seg (put_at ?f 8 (le32 (prefixCRC ?f))) 4 8 = le32 (p_FrameQuanta p)"
    "seg (put_at ?f 8 (le32 (prefixCRC ?f))) 12 16 = replicate 4 0"
    using parts len by (subst seg_put_before seg_put_after; simp)+
  moreover have "seg (put_at ?f 8 (le32 (prefixCRC ?f))) 8 12 = le32 (prefixCRC ?f)"
    using len by (subst seg_put_same) simp_all
  ultimately show ?thesis using len prefixCRC_put_at[of ?f] by auto
qed

lemma FramePrefix_round_trip:
  assumes "CheckFrameQuanta q h = Inr ()" "wf_header h"
  shows "\<exists>pre. FramePrefix_AppendBinary \<lparr> p_FrameQuanta = q \<rparr> [] = Inr pre \<and> length pre = 16 \<and>
    DecodeFramePrefix (pre @ rest) h = Inr \<lparr> p_FrameQuanta = q \<rparr>"
proof -
  have q: "0 < unat q" "unat q \<le> 2 ^ 20"
    using assms(1) wf_header_bounds(2)[OF assms(2)] by (simp_all add: CheckFrameQuanta_Inr)
  then have "\<not> (q = 0 \<or> q > MaxMaxFrameQuanta)" by (auto simp: word_less_nat_alt)
  then obtain pre where e: "FramePrefix_AppendBinary \<lparr> p_FrameQuanta = q \<rparr> [] = Inr pre"
    by (simp add: FramePrefix_AppendBinary_def Let_def)
  from FramePrefix_AppendBinary_Inr[OF this] show ?thesis
    using e assms(1) by (auto simp: DecodeFramePrefix_def range_simps)
qed

lemma DecodeFramePrefix_Inr:
  assumes "DecodeFramePrefix b h = Inr p"
  shows "16 \<le> length b \<and> CheckFrameQuanta (p_FrameQuanta p) h = Inr () \<and> of_le32 (seg b 4 8) = p_FrameQuanta p \<and>
    seg b 0 4 = MagicFramePrefix \<and> of_le32 (seg b 8 12) = prefixCRC b \<and> seg b 12 16 = replicate 4 0"
proof -
  have z: "le32 0 = replicate 4 0" by (simp add: le32_def numeral_eq_Suc)
  have "16 \<le> length b" "of_le32 (seg b 12 16) = 0" "seg b 0 4 = MagicFramePrefix" "of_le32 (seg b 8 12) = prefixCRC b"
    "CheckFrameQuanta (p_FrameQuanta p) h = Inr ()" "of_le32 (seg b 4 8) = p_FrameQuanta p"
    using assms by (auto simp: DecodeFramePrefix_def Let_def split: if_splits sum.splits)
  then show ?thesis using le_of_le(2)[of "seg b 12 16"] z by simp
qed

subsection \<open>Geometry is exact\<close>

lemma unat_FrameSize [simp]: "unat (FrameSize q) = unat q * 4096"
  by (simp add: FrameSize_def)

lemma OnFrameGrid_iff: "OnFrameGrid off \<longleftrightarrow> (\<exists>j. unat off = 64 + j * 4096)"
proof
  assume "OnFrameGrid off"
  then have "64 \<le> unat off" "(unat off - 64) mod 4096 = 0"
    by (auto simp: OnFrameGrid_def word_le_nat_alt unat_sub_u64 unat_mod word_unat_eq_iff)
  then show "\<exists>j. unat off = 64 + j * 4096"
    by (metis le_add_diff_inverse mod_0_imp_dvd dvd_def mult.commute)
next
  assume "\<exists>j. unat off = 64 + j * 4096"
  then obtain j where "unat off = 64 + j * 4096" by blast
  then show "OnFrameGrid off"
    by (auto simp: OnFrameGrid_def word_le_nat_alt unat_sub_u64 unat_mod word_unat_eq_iff)
qed

lemma FixedSlotOffset_Inr:
  "FixedSlotOffset n h = Inr off \<longleftrightarrow> unat off = 64 + unat n * unat (MaxFrameSize h)"
proof (cases "Mul64 n (MaxFrameSize h)")
  case (Inl e)
  then have "unat x \<noteq> unat n * unat (MaxFrameSize h)" for x :: u64 using Mul64_Inr by force
  then have "2 ^ 64 \<le> unat n * unat (MaxFrameSize h)" by (metis not_le unat_of_nat_u64)
  then show ?thesis using Inl unat_u64_lt[of off] by (simp add: FixedSlotOffset_def)
next
  case (Inr m)
  then have "unat m = unat n * unat (MaxFrameSize h)" by (simp add: Mul64_Inr)
  then have "Add64 m 64 = Inr off \<longleftrightarrow> unat off = 64 + unat n * unat (MaxFrameSize h)"
    unfolding Add64_Inr by auto
  then show ?thesis by (cases "Add64 m 64") (simp_all add: FixedSlotOffset_def Inr)
qed

lemma FrameEnd_Inr:
  "FrameEnd off q blobSize = Inr e \<longleftrightarrow>
     OnFrameGrid off \<and> unat e = unat off + unat q * 4096 \<and> unat e \<le> unat blobSize"
  using RangeEnd_Inr[of off "FrameSize q" blobSize e] by (auto simp: FrameEnd_def split: sum.splits)

text \<open>A layout exists exactly within the budget and partitions the frame.\<close>

lemma ComputeLayout_ok_iff:
  "(\<exists>L. ComputeLayout q d p = Inr L) \<longleftrightarrow> 116 + unat d + unat p \<le> unat q * 4096"
proof (cases "Sum64 [116, d, p]")
  case (Inl e)
  then have "2 ^ 64 \<le> 116 + unat d + unat p" using Sum64_Inl[of "[116, d, p]"] by simp
  then show ?thesis using Inl unat_u32_lt[of q] by (simp add: ComputeLayout_def)
next
  case (Inr u)
  then have "unat u = 116 + unat d + unat p" by (simp add: Sum64_Inr)
  with Inr show ?thesis by (simp add: ComputeLayout_def Let_def word_less_nat_alt not_less)
qed

lemma ComputeLayout_partition:
  assumes "ComputeLayout q d p = Inr L"
  shows "unat (l_FrameSize L) = unat q * 4096" "unat (l_PayloadStart L) = 16"
    "unat (l_PayloadEnd L) = 16 + unat d"
    "unat (l_PayloadEnd L) + unat (l_PaddingLen L) = unat (l_PreTrailerStart L)"
    "unat (l_PreTrailerStart L) + unat p + 4 = unat (l_TrailerStart L)"
    "unat (l_TrailerStart L) + 96 = unat (l_FrameSize L)" "l_PreTrailerLen L = p"
proof -
  have b: "116 + unat d + unat p \<le> unat q * 4096" using assms ComputeLayout_ok_iff by blast
  have fs: "unat (FrameSize q) = unat q * 4096" by simp
  let ?t = "FrameSize q - 96"
  have t: "unat ?t = unat q * 4096 - 96" using b by (simp add: unat_sub_u64)
  have t4: "unat (?t - 4) = unat q * 4096 - 100" using b t by (simp add: unat_sub_u64)
  have pt: "unat (?t - 4 - p) = unat q * 4096 - 100 - unat p" using b t4 by (simp add: unat_sub_u64)
  have pe: "unat (16 + d) = 16 + unat d"
    using b unat_u32_lt[of q] by (subst unat_add_u64) simp_all
  have pad: "unat (?t - 4 - p - (16 + d)) = unat q * 4096 - 100 - unat p - (16 + unat d)"
    using b pt pe by (subst unat_sub_u64) simp_all
  have L: "L = \<lparr> l_FrameSize = FrameSize q, l_PayloadStart = 16, l_PayloadEnd = 16 + d,
      l_PaddingLen = ?t - 4 - p - (16 + d), l_PreTrailerStart = ?t - 4 - p,
      l_PreTrailerLen = p, l_TrailerStart = ?t \<rparr>"
    using assms by (auto simp: ComputeLayout_def Let_def split: if_splits sum.splits)
  show "unat (l_FrameSize L) = unat q * 4096" "unat (l_PayloadStart L) = 16"
    "unat (l_PayloadEnd L) = 16 + unat d"
    "unat (l_PayloadEnd L) + unat (l_PaddingLen L) = unat (l_PreTrailerStart L)"
    "unat (l_PreTrailerStart L) + unat p + 4 = unat (l_TrailerStart L)"
    "unat (l_TrailerStart L) + 96 = unat (l_FrameSize L)" "l_PreTrailerLen L = p"
    using b by (simp_all only: L Layout.simps fs t pt pe pad) simp_all
qed

section \<open>Master Trailer\<close>

record MasterTrailer =
  m_HashID :: HashID
  m_CodecID :: CodecID
  m_BlockType :: BlockType
  m_GroupID :: u32
  m_GroupIndex :: byte
  m_GroupK :: byte
  m_GroupM :: byte
  m_DataLen :: u32
  m_FrameQuanta :: u32
  m_ObjectID :: bytes
  m_LogicalOffset :: u64
  m_LogicalLength :: u64
  m_FrameOrdinal :: u64
  m_HashPayload :: bytes

definition MasterTrailer_image :: "MasterTrailer \<Rightarrow> bytes" where
  "MasterTrailer_image t = put_all (replicate MasterTrailerSize 0)
    [(0, MagicMasterTrailer),
     (4, [m_HashID t]),
     (5, [m_CodecID t]),
     (6, [m_BlockType t]),
     (8, le32 (m_GroupID t)),
     (12, [m_GroupIndex t]),
     (13, [m_GroupK t]),
     (14, [m_GroupM t]),
     (16, le32 (m_DataLen t)),
     (20, le32 (m_FrameQuanta t)),
     (24, m_ObjectID t),
     (40, le64 (m_LogicalOffset t)),
     (48, le64 (m_LogicalLength t)),
     (56, le64 (m_FrameOrdinal t)),
     (64, m_HashPayload t)]"

definition MasterTrailer_AppendBinary :: "MasterTrailer \<Rightarrow> bytes \<Rightarrow> bytes result" where
  "MasterTrailer_AppendBinary t dst =
    (if \<not> HashID_Valid (m_HashID t) then errf ErrInvalid ''MasterTrailer'' ''hash_id''
     else if \<not> CodecID_Valid (m_CodecID t) then errf ErrInvalid ''MasterTrailer'' ''codec_id''
     else if \<not> BlockType_Valid (m_BlockType t) then errf ErrInvalid ''MasterTrailer'' ''block_type''
     else Inr (dst @ MasterTrailer_image t))"

definition DecodeMasterTrailer :: "bytes \<Rightarrow> MasterTrailer result" where
  "DecodeMasterTrailer b =
    (if length b \<noteq> MasterTrailerSize then errf ErrCorrupt ''MasterTrailer'' ''''
     else if seg b 0 4 \<noteq> MagicMasterTrailer then errf ErrCorrupt ''MasterTrailer'' ''magic''
     else if \<not> HashID_Valid (b ! 4) then errf ErrUnsupported ''MasterTrailer'' ''hash_id''
     else if \<not> CodecID_Valid (b ! 5) then errf ErrUnsupported ''MasterTrailer'' ''codec_id''
     else if \<not> BlockType_Valid (b ! 6) then errf ErrCorrupt ''MasterTrailer'' ''block_type''
     else if b ! 7 \<noteq> 0 then errf ErrCorrupt ''MasterTrailer'' ''flags''
     else if b ! 15 \<noteq> 0 then errf ErrCorrupt ''MasterTrailer'' ''reserved''
     else Inr \<lparr> m_HashID = b ! 4, m_CodecID = b ! 5, m_BlockType = b ! 6,
                m_GroupID = of_le32 (seg b 8 12), m_GroupIndex = b ! 12, m_GroupK = b ! 13, m_GroupM = b ! 14,
                m_DataLen = of_le32 (seg b 16 20), m_FrameQuanta = of_le32 (seg b 20 24),
                m_ObjectID = seg b 24 40, m_LogicalOffset = of_le64 (seg b 40 48),
                m_LogicalLength = of_le64 (seg b 48 56), m_FrameOrdinal = of_le64 (seg b 56 64),
                m_HashPayload = seg b 64 96 \<rparr>)"

abbreviation (input) zeroID :: bytes where "zeroID \<equiv> replicate ObjectIDSize 0"

definition validateGroup :: "MasterTrailer \<Rightarrow> ArchiveHeader \<Rightarrow> unit result" where
  "validateGroup t h =
    (if m_GroupID t = 0 then
       (if m_GroupIndex t \<noteq> 0 \<or> m_GroupK t \<noteq> 0 \<or> m_GroupM t \<noteq> 0
        then errf ErrCorrupt ''MasterTrailer'' ''group_index'' else Inr ())
     else if h_ParityScheme h = ParityNone then errf ErrCorrupt ''MasterTrailer'' ''group_id''
     else if m_GroupK t < 1 \<or> m_GroupK t > h_ParityK h then errf ErrCorrupt ''MasterTrailer'' ''group_k''
     else if m_GroupM t \<noteq> h_ParityM h then errf ErrCorrupt ''MasterTrailer'' ''group_m''
     else if unat (m_GroupIndex t) \<ge> unat (m_GroupK t) + unat (m_GroupM t)
       then errf ErrCorrupt ''MasterTrailer'' ''group_index''
     else if (m_BlockType t = BlockParity) \<noteq> (m_GroupIndex t \<ge> m_GroupK t)
       then errf ErrCorrupt ''MasterTrailer'' ''group_index''
     else Inr ())"

definition validateBlock :: "MasterTrailer \<Rightarrow> ArchiveHeader \<Rightarrow> unit result" where
  "validateBlock t h =
    (if m_BlockType t = BlockData then
       (if m_ObjectID t = zeroID then errf ErrCorrupt ''MasterTrailer'' ''object_id''
        else if m_LogicalOffset t mod 4096 \<noteq> 0 then errf ErrCorrupt ''MasterTrailer'' ''logical_offset''
        else if m_LogicalLength t > MaxFrameSize h then errf ErrCorrupt ''MasterTrailer'' ''logical_length''
        else if m_CodecID t = CodecStore \<and>
            ucast (m_DataLen t) \<noteq> m_LogicalLength t + (if Encrypted h then 28 else 0)
          then errf ErrCorrupt ''MasterTrailer'' ''data_len''
        else Inr ())
     else if m_BlockType t = BlockPacked \<or> m_BlockType t = BlockParity then
       (if m_ObjectID t \<noteq> zeroID \<or> m_LogicalOffset t \<noteq> 0 \<or> m_LogicalLength t \<noteq> 0
        then errf ErrCorrupt ''MasterTrailer'' ''object_id'' else Inr ())
     else Inr ())"

definition ValidateTrailer :: "MasterTrailer \<Rightarrow> ArchiveHeader \<Rightarrow> FramePrefix \<Rightarrow> unit result" where
  "ValidateTrailer t h p =
    (let frameSize = ucast (p_FrameQuanta p) * 4096 :: u64 in
     if m_HashID t \<noteq> h_HashID h then errf ErrCorrupt ''MasterTrailer'' ''hash_id''
     else if m_FrameQuanta t \<noteq> p_FrameQuanta p then errf ErrCorrupt ''MasterTrailer'' ''frame_quanta''
     else if ucast (m_DataLen t) > frameSize - 116 - 8 then errf ErrCorrupt ''MasterTrailer'' ''data_len''
     else case validateBlock t h of Inl e \<Rightarrow> Inl e | Inr _ \<Rightarrow>
       if m_BlockType t = BlockParity \<and> m_CodecID t \<noteq> CodecStore
         then errf ErrCorrupt ''MasterTrailer'' ''codec_id''
       else if m_BlockType t = BlockParity \<and> ucast (m_DataLen t) \<noteq> frameSize - 124
         then errf ErrCorrupt ''MasterTrailer'' ''data_len''
       else if m_BlockType t = BlockParity \<and> m_GroupID t = 0
         then errf ErrCorrupt ''MasterTrailer'' ''group_id''
       else validateGroup t h)"

section \<open>The tail of a frame\<close>

record FrameTail =
  t_Body :: bytes
  t_Trailer :: MasterTrailer

definition TailLen :: "bytes \<Rightarrow> u64 \<Rightarrow> nat result" where
  "TailLen last100 frameSize =
    (if length last100 < MasterTrailerSize + PreTrailerLenSize \<or> frameSize < 4096
     then errf ErrCorrupt ''PreTrailer'' ''''
     else let ptl = ucast (of_le32 (seg last100 (length last100 - 100) (length last100 - 96))) :: u64 in
       if ptl < 8 \<or> ptl > frameSize - 116 then errf ErrCorrupt ''PreTrailer'' ''pre_trailer_len''
       else Inr (unat ptl + MasterTrailerSize + PreTrailerLenSize))"

definition DecodeTail :: "bytes \<Rightarrow> u64 \<Rightarrow> FrameTail result" where
  "DecodeTail tail n =
    (if n < 4096 \<or> n mod 4096 \<noteq> 0 \<or> word_of_nat (length tail) > n then errf ErrCorrupt ''PreTrailer'' ''''
     else case TailLen tail n of Inl e \<Rightarrow> Inl e
     | Inr need \<Rightarrow>
       if length tail < need then errf ErrCorrupt ''PreTrailer'' ''''
       else
         let tl = length tail;
             trailer = seg tail (tl - MasterTrailerSize) tl;
             ptl = word_of_nat (need - MasterTrailerSize - PreTrailerLenSize) :: u64;
             body = seg tail (tl - need) (tl - MasterTrailerSize - PreTrailerLenSize);
             stored = of_le32 (seg body (length body - 4) (length body))
         in if OuterCRC (take (length body - 4) body) (ucast ptl) trailer \<noteq> stored
            then errf ErrCorrupt ''PreTrailer'' ''outer_crc32c''
            else case DecodeMasterTrailer trailer of Inl e \<Rightarrow> Inl e
              | Inr t \<Rightarrow>
                (case ComputeLayout (ucast (n div 4096)) (ucast (m_DataLen t)) ptl of
                   Inl e \<Rightarrow> Inl e
                 | Inr _ \<Rightarrow> Inr \<lparr> t_Body = body, t_Trailer = t \<rparr>))"

definition DecodeFrameTail :: "bytes \<Rightarrow> FrameTail result" where
  "DecodeFrameTail frame = DecodeTail frame (word_of_nat (length frame))"

subsection \<open>The trailer codec\<close>

definition wf_trailer :: "MasterTrailer \<Rightarrow> bool" where
  "wf_trailer t \<longleftrightarrow> HashID_Valid (m_HashID t) \<and> CodecID_Valid (m_CodecID t) \<and> BlockType_Valid (m_BlockType t) \<and>
     length (m_ObjectID t) = ObjectIDSize \<and> length (m_HashPayload t) = HashSize"

lemma MasterTrailer_eta [simp]:
  "\<lparr> m_HashID = m_HashID t, m_CodecID = m_CodecID t, m_BlockType = m_BlockType t, m_GroupID = m_GroupID t,
     m_GroupIndex = m_GroupIndex t, m_GroupK = m_GroupK t, m_GroupM = m_GroupM t, m_DataLen = m_DataLen t,
     m_FrameQuanta = m_FrameQuanta t, m_ObjectID = m_ObjectID t, m_LogicalOffset = m_LogicalOffset t,
     m_LogicalLength = m_LogicalLength t, m_FrameOrdinal = m_FrameOrdinal t, m_HashPayload = m_HashPayload t \<rparr> = t"
  by simp

lemma MasterTrailer_image_eq:
  assumes "wf_trailer t"
  shows "MasterTrailer_image t = MagicMasterTrailer @ [m_HashID t, m_CodecID t, m_BlockType t, 0] @
    le32 (m_GroupID t) @ [m_GroupIndex t, m_GroupK t, m_GroupM t, 0] @ le32 (m_DataLen t) @ le32 (m_FrameQuanta t) @
    m_ObjectID t @ le64 (m_LogicalOffset t) @ le64 (m_LogicalLength t) @ le64 (m_FrameOrdinal t) @ m_HashPayload t"
  unfolding MasterTrailer_image_def using assms by (subst put_all_laid_out) (simp_all add: wf_trailer_def)

lemma length_MasterTrailer_image [simp]: "wf_trailer t \<Longrightarrow> length (MasterTrailer_image t) = 96"
  by (simp add: MasterTrailer_image_eq) (simp add: wf_trailer_def)

lemma DecodeMasterTrailer_image: "wf_trailer t \<Longrightarrow> DecodeMasterTrailer (MasterTrailer_image t) = Inr t"
  unfolding DecodeMasterTrailer_def
  by (simp add: MasterTrailer_image_eq) (simp add: wf_trailer_def range_simps nth_append)

lemma DecodeMasterTrailer_Inr:
  assumes "DecodeMasterTrailer b = Inr t"
  shows "wf_trailer t \<and> length b = 96 \<and> MasterTrailer_image t = b"
proof -
  have len: "length b = 96" and hd: "seg b 0 4 = MagicMasterTrailer" "b ! 7 = 0" "b ! 15 = 0"
    and v: "HashID_Valid (b ! 4)" "CodecID_Valid (b ! 5)" "BlockType_Valid (b ! 6)"
    and t: "t = \<lparr> m_HashID = b ! 4, m_CodecID = b ! 5, m_BlockType = b ! 6,
                m_GroupID = of_le32 (seg b 8 12), m_GroupIndex = b ! 12, m_GroupK = b ! 13, m_GroupM = b ! 14,
                m_DataLen = of_le32 (seg b 16 20), m_FrameQuanta = of_le32 (seg b 20 24),
                m_ObjectID = seg b 24 40, m_LogicalOffset = of_le64 (seg b 40 48),
                m_LogicalLength = of_le64 (seg b 48 56), m_FrameOrdinal = of_le64 (seg b 56 64),
                m_HashPayload = seg b 64 96 \<rparr>"
    using assms by (auto simp: DecodeMasterTrailer_def split: if_splits)
  have wf: "wf_trailer t" using len v by (simp add: wf_trailer_def t)
  have mid: "seg b 4 8 = [b ! 4, b ! 5, b ! 6, b ! 7]" "seg b 12 16 = [b ! 12, b ! 13, b ! 14, b ! 15]"
    using len by (simp_all add: seg_conv_map_nth upt_rec_numeral)
  have "same_ranges (MasterTrailer_image t) b 0 [4, 8, 12, 16, 20, 24, 40, 48, 56, 64, 96]"
    unfolding MasterTrailer_image_eq[OF wf] using len hd mid by (simp add: range_simps t)
  then show ?thesis using wf len same_rangesI by blast
qed

interpretation trailer_codec: codec "\<lambda>t. MasterTrailer_AppendBinary t []" DecodeMasterTrailer wf_trailer 96
proof unfold_locales
  fix t assume "wf_trailer t"
  then show "\<exists>b. MasterTrailer_AppendBinary t [] = Inr b \<and> length b = 96"
    by (simp add: MasterTrailer_AppendBinary_def wf_trailer_def length_MasterTrailer_image[unfolded wf_trailer_def])
next
  fix t b assume "wf_trailer t" "MasterTrailer_AppendBinary t [] = Inr b"
  then show "DecodeMasterTrailer b = Inr t"
    by (auto simp: MasterTrailer_AppendBinary_def DecodeMasterTrailer_image split: if_splits)
next
  fix b t assume "DecodeMasterTrailer b = Inr t"
  note r = DecodeMasterTrailer_Inr[OF this]
  then show "wf_trailer t" by simp
  show "MasterTrailer_AppendBinary t [] = Inr (take 96 b)"
    using r by (simp add: MasterTrailer_AppendBinary_def wf_trailer_def)
qed

subsection \<open>What the tail parse guarantees\<close>

lemma OuterCRC_concat: "OuterCRC b v t = crc32_Update 0 (b @ le32 v @ t)"
  by (simp add: OuterCRC_def crcUint32LE_update crc32_Update_append)

lemma TailLen_Inr:
  assumes "TailLen tail n = Inr need"
  shows "100 \<le> length tail \<and> 4096 \<le> unat n \<and>
    need = unat (of_le32 (seg tail (length tail - 100) (length tail - 96))) + 100 \<and> 108 \<le> need \<and> need + 16 \<le> unat n"
proof -
  let ?ptl = "of_le32 (seg tail (length tail - 100) (length tail - 96))"
  from assms have len: "100 \<le> length tail" and n: "4096 \<le> unat n" and need: "need = unat ?ptl + 100"
    and lo: "\<not> ucast ?ptl < (8 :: u64)" and hi: "\<not> ucast ?ptl > n - 116"
    by (auto simp: TailLen_def Let_def not_less word_le_nat_alt split: if_splits)
  have "unat (n - 116) = unat n - 116" using n by (simp add: unat_sub_u64)
  then have "8 \<le> unat ?ptl" "unat ?ptl \<le> unat n - 116" using lo hi by (simp_all add: word_less_nat_alt not_less)
  then show ?thesis using len n need by (intro conjI) simp_all
qed

lemma TailLen_ok:
  assumes "100 \<le> length tail" "4096 \<le> unat n" "8 \<le> unat (of_le32 (seg tail (length tail - 100) (length tail - 96)))"
    "unat (of_le32 (seg tail (length tail - 100) (length tail - 96))) + 116 \<le> unat n"
  shows "TailLen tail n = Inr (unat (of_le32 (seg tail (length tail - 100) (length tail - 96))) + 100)"
proof -
  have "unat (n - 116) = unat n - 116" using assms(2) by (simp add: unat_sub_u64)
  then show ?thesis using assms by (simp add: TailLen_def Let_def word_less_nat_alt)
qed

definition tail_ok :: "bytes \<Rightarrow> u64 \<Rightarrow> nat \<Rightarrow> FrameTail \<Rightarrow> bool" where
  "tail_ok tail n ptl ft \<longleftrightarrow>
    (let tl = length tail in
     4096 \<le> unat n \<and> unat n mod 4096 = 0 \<and> 8 \<le> ptl \<and> ptl + 116 \<le> unat n \<and> ptl + 100 \<le> tl \<and>
     of_le32 (seg tail (tl - 100) (tl - 96)) = word_of_nat ptl \<and> ptl < 2 ^ 32 \<and>
     t_Body ft = seg tail (tl - 100 - ptl) (tl - 100) \<and>
     crc32_Update 0 (seg tail (tl - 100 - ptl) (tl - 104) @ seg tail (tl - 100) tl) =
       of_le32 (seg tail (tl - 104) (tl - 100)) \<and>
     DecodeMasterTrailer (seg tail (tl - 96) tl) = Inr (t_Trailer ft) \<and>
     (\<exists>L. ComputeLayout (ucast (n div 4096)) (ucast (m_DataLen (t_Trailer ft))) (word_of_nat ptl) = Inr L))"

lemma tail_body_parts:
  assumes "8 \<le> ptl" "ptl + 100 \<le> length tail"
  defines "body \<equiv> seg tail (length tail - 100 - ptl) (length tail - 100)"
  shows "length body = ptl" "take (ptl - 4) body = seg tail (length tail - 100 - ptl) (length tail - 104)"
    "seg body (ptl - 4) ptl = seg tail (length tail - 104) (length tail - 100)"
    "seg tail (length tail - (ptl + 100)) (length tail - 100) = body"
  using assms(1,2) by (simp_all add: body_def take_is_seg seg_seg add.commute)

lemma DecodeTail_located:
  assumes "length tail \<le> unat n" "4096 \<le> unat n" "unat n mod 4096 = 0" "TailLen tail n = Inr (ptl + 100)"
    "8 \<le> ptl" "ptl + 100 \<le> length tail" "of_le32 (seg tail (length tail - 100) (length tail - 96)) = word_of_nat ptl"
    "ptl < 2 ^ 32"
  shows "DecodeTail tail n = Inr ft \<longleftrightarrow>
    crc32_Update 0 (seg tail (length tail - 100 - ptl) (length tail - 104) @ seg tail (length tail - 100) (length tail))
      = of_le32 (seg tail (length tail - 104) (length tail - 100)) \<and>
    DecodeMasterTrailer (seg tail (length tail - 96) (length tail)) = Inr (t_Trailer ft) \<and>
    (\<exists>L. ComputeLayout (ucast (n div 4096)) (ucast (m_DataLen (t_Trailer ft))) (word_of_nat ptl) = Inr L) \<and>
    t_Body ft = seg tail (length tail - 100 - ptl) (length tail - 100)"
proof -
  let ?tl = "length tail"
  have guard: "(n < 4096 \<or> n mod 4096 \<noteq> 0 \<or> word_of_nat ?tl > n) = False"
    using assms(1-3) unat_u64_lt[of n] by (simp add: word_less_nat_alt unat_of_nat_u64 word_unat_eq_iff unat_mod)
  note B = tail_body_parts[OF assms(5,6)]
  have cast: "(ucast (word_of_nat ptl :: u64) :: u32) = word_of_nat ptl"
    using assms(8) by (intro bit_eqI) (auto simp: bit_simps)
  have "seg tail (?tl - 100) (?tl - 96) = le32 (word_of_nat ptl)"
    using assms(6,7) le_of_le(2)[of "seg tail (?tl - 100) (?tl - 96)"] by simp
  then have mid: "le32 (word_of_nat ptl) @ seg tail (?tl - 96) ?tl = seg tail (?tl - 100) ?tl"
    using assms(6) seg_split[of "?tl - 100" "?tl - 96" ?tl tail] by simp
  have sz: "ptl + 100 - 96 - 4 = ptl" "?tl - 96 - 4 = ?tl - 100" by simp_all
  have fit: "(?tl < ptl + 100) = False" using assms(6) by simp
  show ?thesis
    unfolding DecodeTail_def
    by (simp only: guard fit assms(4) sum.case Let_def sz B if_False OuterCRC_concat cast mid)
      (cases ft, auto simp: case_sum_eq_Inr)
qed

lemma DecodeTail_iff_ok:
  assumes "length tail \<le> unat n"
  shows "DecodeTail tail n = Inr ft \<longleftrightarrow> (\<exists>ptl. tail_ok tail n ptl ft)"
proof
  let ?tl = "length tail"
  let ?p = "of_le32 (seg tail (?tl - 100) (?tl - 96))"
  assume d: "DecodeTail tail n = Inr ft"
  then have g: "4096 \<le> unat n" "unat n mod 4096 = 0"
    by (auto simp: DecodeTail_def word_less_nat_alt word_unat_eq_iff unat_mod split: if_splits)
  from d obtain need where need: "TailLen tail n = Inr need" "\<not> ?tl < need"
    by (auto simp: DecodeTail_def split: if_splits sum.splits)
  note T = TailLen_Inr[OF need(1)]
  have p: "8 \<le> unat ?p" "unat ?p + 100 \<le> ?tl" "TailLen tail n = Inr (unat ?p + 100)" "unat ?p < 2 ^ 32"
    using T need unat_u32_lt[of ?p] by simp_all
  have "tail_ok tail n (unat ?p) ft"
    unfolding tail_ok_def Let_def
    using d T p g DecodeTail_located[OF assms g p(3) p(1,2) _ p(4)] by simp
  then show "\<exists>ptl. tail_ok tail n ptl ft" ..
next
  assume "\<exists>ptl. tail_ok tail n ptl ft"
  then obtain ptl where ok: "tail_ok tail n ptl ft" ..
  then have T: "TailLen tail n = Inr (ptl + 100)"
    using TailLen_ok[of tail n] by (simp add: tail_ok_def Let_def unat_of_nat_u32)
  show "DecodeTail tail n = Inr ft"
    using ok DecodeTail_located[OF assms _ _ T] by (simp add: tail_ok_def Let_def)
qed

lemma DecodeTail_byte_change:
  assumes d: "DecodeTail tail n = Inr ft" and len: "length tail \<le> unat n" and y: "y \<noteq> tail ! i"
    and i: "length tail - 100 - length (t_Body ft) \<le> i" "i < length tail" "\<not> (length tail - 100 \<le> i \<and> i < length tail - 96)"
  shows "isl (DecodeTail (tail[i := y]) n)"
proof (rule ccontr)
  let ?tl = "length tail"
  let ?cov = "\<lambda>b p. seg b (?tl - 100 - p) (?tl - 104) @ seg b (?tl - 100) ?tl"
  assume "\<not> isl (DecodeTail (tail[i := y]) n)"
  then obtain ft' where "DecodeTail (tail[i := y]) n = Inr ft'" by (cases "DecodeTail (tail[i := y]) n") auto
  then obtain p' where ok': "tail_ok (tail[i := y]) n p' ft'" using len DecodeTail_iff_ok[of "tail[i := y]"] by auto
  from d len obtain p where ok: "tail_ok tail n p ft" using DecodeTail_iff_ok by auto
  have p: "8 \<le> p" "p + 100 \<le> ?tl" "p < 2 ^ 32" "of_le32 (seg tail (?tl - 100) (?tl - 96)) = word_of_nat p"
    "length (t_Body ft) = p" and c: "crc32_Update 0 (?cov tail p) = of_le32 (seg tail (?tl - 104) (?tl - 100))"
    using ok by (simp_all add: tail_ok_def Let_def)
  have p': "p' < 2 ^ 32" "of_le32 (seg (tail[i := y]) (?tl - 100) (?tl - 96)) = word_of_nat p'"
    and c': "crc32_Update 0 (?cov (tail[i := y]) p') = of_le32 (seg (tail[i := y]) (?tl - 104) (?tl - 100))"
    using ok' by (simp_all add: tail_ok_def Let_def)
  have "(word_of_nat p :: u32) = word_of_nat p'" using p(4) p'(2) i by (simp add: seg_list_update)
  then have pp: "p' = p" using p(3) p'(1) by (metis unat_of_nat_u32)
  consider (crc) "?tl - 104 \<le> i" "i < ?tl - 100" | (body) "i < ?tl - 104" | (trailer) "?tl - 96 \<le> i"
    using i by linarith
  then show False
  proof cases
    case crc
    let ?s = "seg tail (?tl - 104) (?tl - 100)"
    have ne: "?s[i - (?tl - 104) := y] \<noteq> ?s"
      using crc y p by (intro list_update_neq) (simp_all add: nth_seg)
    have "?cov (tail[i := y]) p = ?cov tail p" using crc by (simp add: seg_list_update)
    then have "of_le32 (?s[i - (?tl - 104) := y]) = of_le32 ?s"
      using c c' pp crc by (simp add: seg_list_update)
    moreover have "length ?s = 4" using p by simp
    ultimately show False using ne by (metis le_of_le(2) length_list_update)
  next
    case body
    then have e: "?cov (tail[i := y]) p = (?cov tail p)[i - (?tl - 100 - p) := y]"
      using i p by (simp add: seg_list_update list_update_append)
    have "i - (?tl - 100 - p) < p - 4" using i p body by linarith
    then have "?cov tail p ! (i - (?tl - 100 - p)) = tail ! i"
      using i p body by (simp add: nth_append nth_seg)
    moreover have "i - (?tl - 100 - p) < length (?cov tail p)" using i p body by simp
    ultimately have "crc32_Update 0 (?cov (tail[i := y]) p) \<noteq> crc32_Update 0 (?cov tail p)"
      unfolding e using y by (intro crc32_detects_update) simp_all
    then show False using c c' pp body i by (simp add: seg_list_update)
  next
    case trailer
    then have e: "?cov (tail[i := y]) p = (?cov tail p)[p - 4 + (i - (?tl - 100)) := y]"
      using i p by (simp add: seg_list_update list_update_append add.commute)
    have "?cov tail p ! (p - 4 + (i - (?tl - 100))) = seg tail (?tl - 100) ?tl ! (i - (?tl - 100))"
      using p by (simp add: nth_append)
    then have "?cov tail p ! (p - 4 + (i - (?tl - 100))) = tail ! i"
      using i p trailer by (simp add: nth_seg)
    moreover have "p - 4 + (i - (?tl - 100)) < length (?cov tail p)" using i p trailer by simp
    ultimately have "crc32_Update 0 (?cov (tail[i := y]) p) \<noteq> crc32_Update 0 (?cov tail p)"
      unfolding e using y by (intro crc32_detects_update) simp_all
    moreover have "seg (tail[i := y]) (?tl - 104) (?tl - 100) = seg tail (?tl - 104) (?tl - 100)"
      using trailer p by (subst seg_list_update) auto
    ultimately show False using c c' pp by simp
  qed
qed

text \<open>A tail assembled from its parts is accepted and gives those parts back.\<close>

lemma DecodeTail_assembled:
  assumes wf: "wf_trailer t" and n: "unat n = unat (q :: u32) * 4096" "4096 \<le> unat n"
    and bl: "4 \<le> length body" "116 + unat (m_DataLen t) + (length body + 4) \<le> unat n"
      "length body + 4 < 2 ^ 32" "length pre + length body + 104 \<le> unat n"
  defines "ptl \<equiv> word_of_nat (length body + 4) :: u32"
  defines "crc \<equiv> OuterCRC body ptl (MasterTrailer_image t)"
  shows "DecodeTail (pre @ body @ le32 crc @ le32 ptl @ MasterTrailer_image t) n =
    Inr \<lparr> t_Body = body @ le32 crc, t_Trailer = t \<rparr>"
proof -
  let ?p = "length body + 4"
  let ?tail = "pre @ body @ le32 crc @ le32 ptl @ MasterTrailer_image t"
  have tl: "length ?tail = length pre + length body + 104" using wf by simp
  have img: "length (MasterTrailer_image t) = 96" using wf by simp
  have parts: "seg ?tail (length ?tail - 100) (length ?tail - 96) = le32 ptl"
    "seg ?tail (length ?tail - 100 - ?p) (length ?tail - 100) = body @ le32 crc"
    "seg ?tail (length ?tail - 100 - ?p) (length ?tail - 104) = body"
    "seg ?tail (length ?tail - 104) (length ?tail - 100) = le32 crc"
    "seg ?tail (length ?tail - 100) (length ?tail) = le32 ptl @ MasterTrailer_image t"
    "seg ?tail (length ?tail - 96) (length ?tail) = MasterTrailer_image t"
    unfolding tl seg_def by (simp_all add: img)
  have q: "ucast (n div 4096) = q"
    using n(1) unat_u32_lt[of q]
    by (simp add: word_unat_eq_iff unat_div unsigned_ucast_eq take_bit_nat_eq_self)
  have lay: "\<exists>L. ComputeLayout q (ucast (m_DataLen t)) (word_of_nat ?p) = Inr L"
    unfolding ComputeLayout_ok_iff using bl(2,3) n(1) unat_of_nat_u64[of ?p] by (simp del: of_nat_add)
  have "tail_ok ?tail n ?p \<lparr> t_Body = body @ le32 crc, t_Trailer = t \<rparr>"
    unfolding tail_ok_def Let_def parts
    using n bl(1-3) wf tl lay by (simp add: ptl_def crc_def OuterCRC_concat DecodeMasterTrailer_image q)
  then show ?thesis using DecodeTail_iff_ok[of ?tail n] bl(4) tl by auto
qed


section \<open>Properties\<close>

text \<open>The layout of a frame exists exactly when prefix, payload, pre-trailer, its length field and the trailer fit
  into the frame, and it then splits the whole frame without gap or overlap into prefix, payload, padding, pre-trailer
  and trailer, with no wrap-around in any of the offsets.\<close>

lemma layout_partitions_frame:
  "((\<exists>L. ComputeLayout q d p = Inr L) \<longleftrightarrow> 116 + unat d + unat p \<le> unat q * 4096) \<and>
   (ComputeLayout q d p = Inr L \<longrightarrow>
      unat (l_PayloadStart L) = 16 \<and> unat (l_PayloadEnd L) = 16 + unat d \<and>
      unat (l_PayloadEnd L) + unat (l_PaddingLen L) = unat (l_PreTrailerStart L) \<and>
      unat (l_PreTrailerStart L) + unat p + 4 = unat (l_TrailerStart L) \<and>
      unat (l_TrailerStart L) + 96 = unat (l_FrameSize L) \<and> unat (l_FrameSize L) = unat q * 4096)"
  using ComputeLayout_ok_iff[of q d p] ComputeLayout_partition[of q d p L] by auto

text \<open>A position is accepted as the place of a frame exactly when it lies on the grid and the frame ends within the
  blob; the end returned is the exact one, also near the 64-bit limit.\<close>

lemma frame_end_exact:
  "FrameEnd off q blobSize = Inr e \<longleftrightarrow>
     (\<exists>j. unat off = 64 + j * 4096) \<and> unat e = unat off + unat q * 4096 \<and> unat e \<le> unat blobSize"
  by (simp add: FrameEnd_Inr OnFrameGrid_iff)

text \<open>A frame prefix written for an admissible number of quanta is read back from the start of any frame as that
  number.\<close>

lemma frame_prefix_round_trip:
  assumes "wf_header h" "CheckFrameQuanta q h = Inr ()"
  shows "\<exists>pre. FramePrefix_AppendBinary \<lparr> p_FrameQuanta = q \<rparr> [] = Inr pre \<and> length pre = 16 \<and>
    DecodeFramePrefix (pre @ rest) h = Inr \<lparr> p_FrameQuanta = q \<rparr>"
  using FramePrefix_round_trip assms by blast

text \<open>96 bytes decode to a Master Trailer exactly when it is well-formed and encodes to these bytes.\<close>

lemma trailer_codec_exact:
  assumes "length b = 96"
  shows "DecodeMasterTrailer b = Inr t \<longleftrightarrow> wf_trailer t \<and> MasterTrailer_AppendBinary t [] = Inr b"
  using trailer_codec.dec_iff[OF assms] by blast

definition sample_trailer :: MasterTrailer where
  "sample_trailer = \<lparr> m_HashID = 1, m_CodecID = 0, m_BlockType = 0, m_GroupID = 0, m_GroupIndex = 0, m_GroupK = 0,
     m_GroupM = 0, m_DataLen = 3, m_FrameQuanta = 1, m_ObjectID = replicate 16 1, m_LogicalOffset = 0, m_LogicalLength = 3,
     m_FrameOrdinal = 0, m_HashPayload = replicate 32 2 \<rparr>"

lemma wf_sample_trailer: "wf_trailer sample_trailer"
  by (simp add: wf_trailer_def sample_trailer_def HashID_Valid_def CodecID_Valid_def BlockType_Valid_def)

text \<open>Every change of one byte of a tail that decodes, in its pre-trailer, its checksum or its trailer, is refused;
  the stored pre-trailer length is the one field left out.\<close>

lemma tail_change_refused:
  assumes "DecodeTail tail n = Inr ft" "length tail \<le> unat n" "y \<noteq> tail ! i"
    "length tail - 100 - length (t_Body ft) \<le> i" "i < length tail" "\<not> (length tail - 100 \<le> i \<and> i < length tail - 96)"
  shows "isl (DecodeTail (tail[i := y]) n)"
  using DecodeTail_byte_change[OF assms] .

end
