(* ===== verification/Canonpath.thy ===== *)
theory Canonpath
  imports Prelude Assigned15
begin

text \<open>
  Package \<^verbatim>\<open>internal/canonpath\<close>: canonical object paths. A path is the bytes of a Go string;
  \<open>utf8_decode\<close> is the rune loop of the language (\<^verbatim>\<open>range p\<close>) with the acceptance rules of
  \<^verbatim>\<open>unicode/utf8\<close>, \<open>Cut\<close> is \<^verbatim>\<open>strings.Cut\<close>, \<open>Search\<close> is the bisection of \<^verbatim>\<open>sort.Search\<close>.
  The NFC test and the NFC conversion belong to \<^verbatim>\<open>golang.org/x/text\<close> and are parameters. The
  lemmas show that \<open>Assigned\<close> decides membership in the table, that \<open>Validate\<close> accepts exactly
  the paths its documentation describes, and that \<open>Compare\<close> is a linear order.
\<close>

section \<open>UTF-8\<close>

definition cont :: "byte \<Rightarrow> nat \<Rightarrow> nat \<Rightarrow> bool" where
  "cont b lo hi \<longleftrightarrow> lo \<le> unat b \<and> unat b \<le> hi"

text \<open>The first rune and the rest of the string, \<open>None\<close> on an invalid sequence.\<close>

fun decode_rune :: "bytes \<Rightarrow> (nat \<times> bytes) option" where
  "decode_rune [] = None"
| "decode_rune (b0 # r) =
    (let c = unat b0 in
     if c < 0x80 then Some (c, r)
     else if 0xC2 \<le> c \<and> c \<le> 0xDF then
       (case r of b1 # r1 \<Rightarrow> if cont b1 0x80 0xBF then Some ((c - 0xC0) * 64 + (unat b1 - 0x80), r1) else None
        | _ \<Rightarrow> None)
     else if 0xE0 \<le> c \<and> c \<le> 0xEF then
       (case r of b1 # b2 # r2 \<Rightarrow>
          if cont b1 (if c = 0xE0 then 0xA0 else 0x80) (if c = 0xED then 0x9F else 0xBF) \<and> cont b2 0x80 0xBF
          then Some ((c - 0xE0) * 4096 + (unat b1 - 0x80) * 64 + (unat b2 - 0x80), r2) else None
        | _ \<Rightarrow> None)
     else if 0xF0 \<le> c \<and> c \<le> 0xF4 then
       (case r of b1 # b2 # b3 # r3 \<Rightarrow>
          if cont b1 (if c = 0xF0 then 0x90 else 0x80) (if c = 0xF4 then 0x8F else 0xBF) \<and>
             cont b2 0x80 0xBF \<and> cont b3 0x80 0xBF
          then Some ((c - 0xF0) * 262144 + (unat b1 - 0x80) * 4096 + (unat b2 - 0x80) * 64 + (unat b3 - 0x80), r3)
          else None
        | _ \<Rightarrow> None)
     else None)"

lemma decode_rune_shorter: "decode_rune p = Some (r, rest) \<Longrightarrow> length rest < length p"
  by (cases p rule: decode_rune.cases) (auto simp: Let_def split: if_splits list.splits)

function utf8_decode :: "bytes \<Rightarrow> nat list option" where
  "utf8_decode p = (if p = [] then Some [] else
     (case decode_rune p of None \<Rightarrow> None
      | Some (r, rest) \<Rightarrow> (case utf8_decode rest of None \<Rightarrow> None | Some rs \<Rightarrow> Some (r # rs))))"
  by pat_completeness auto
termination
  by (relation "measure length") (auto dest: decode_rune_shorter)

declare utf8_decode.simps [simp del]

definition ValidString :: "bytes \<Rightarrow> bool" where
  "ValidString p \<longleftrightarrow> utf8_decode p \<noteq> None"

section \<open>Assigned code points\<close>

function Search_loop :: "(nat \<Rightarrow> bool) \<Rightarrow> nat \<Rightarrow> nat \<Rightarrow> nat" where
  "Search_loop f i j =
    (if i < j then
       (let h = (i + j) div 2 in if \<not> f h then Search_loop f (h + 1) j else Search_loop f i h)
     else i)"
  by pat_completeness auto
termination
  by (relation "measure (\<lambda>(f, i, j). j - i)") auto

declare Search_loop.simps [simp del]

definition Search :: "nat \<Rightarrow> (nat \<Rightarrow> bool) \<Rightarrow> nat" where
  "Search n f = Search_loop f 0 n"

definition Assigned :: "nat \<Rightarrow> bool" where
  "Assigned r =
    (let i = Search (length assigned15) (\<lambda>i. snd (assigned15 ! i) \<ge> r)
     in i < length assigned15 \<and> fst (assigned15 ! i) \<le> r)"

section \<open>Validate, Normalize, Compare\<close>

definition invalid :: "string \<Rightarrow> 'a result" where
  "invalid what = errf ErrInvalid ''canonpath'' what"

fun check_runes :: "nat list \<Rightarrow> unit result" where
  "check_runes [] = Inr ()"
| "check_runes (r # rs) =
    (if r < 0x20 \<or> r = 0x7F \<or> (r \<ge> 0x80 \<and> r \<le> 0x9F) then invalid ''control character''
     else if r = 0x5C then invalid ''backslash''
     else if \<not> Assigned r then invalid ''unassigned''
     else check_runes rs)"

text \<open>\<^verbatim>\<open>strings.Cut(s, "/")\<close>: the part before the first separator, the part after it, and
  whether there was one.\<close>

definition Cut :: "bytes \<Rightarrow> bytes \<times> bytes \<times> bool" where
  "Cut s = (let c = takeWhile (\<lambda>b. b \<noteq> 0x2F) s; t = dropWhile (\<lambda>b. b \<noteq> 0x2F) s
            in case t of [] \<Rightarrow> (s, [], False) | _ # rest \<Rightarrow> (c, rest, True))"

lemma Cut_shorter: "Cut s = (c, t, True) \<Longrightarrow> length t < length s"
proof -
  assume "Cut s = (c, t, True)"
  then obtain x where "dropWhile (\<lambda>b. b \<noteq> 0x2F) s = x # t" by (auto simp: Cut_def Let_def split: list.splits)
  then show ?thesis using length_dropWhile_le[of "\<lambda>b. b \<noteq> 0x2F" s] by simp
qed

function check_components :: "bytes \<Rightarrow> unit result" where
  "check_components rest =
    (case Cut rest of (c, tail, more) \<Rightarrow>
       if c = [] then invalid ''empty component''
       else if c = [0x2E] \<or> c = [0x2E, 0x2E] then invalid ''dot component''
       else if more then check_components tail else Inr ())"
  by pat_completeness auto
termination
  by (relation "measure length") (auto dest: Cut_shorter[OF sym])

declare check_components.simps [simp del]

text \<open>\<open>isNormal\<close> is \<^verbatim>\<open>norm.NFC.IsNormalString\<close>, \<open>nfc\<close> is \<^verbatim>\<open>norm.NFC.String\<close>.\<close>

definition Validate :: "(bytes \<Rightarrow> bool) \<Rightarrow> bytes \<Rightarrow> unit result" where
  "Validate isNormal p =
    (if length p = 0 then invalid ''empty''
     else if length p > 4096 then invalid ''too long''
     else case utf8_decode p of None \<Rightarrow> invalid ''UTF-8''
     | Some rs \<Rightarrow>
       if p ! 0 = 0x2F then invalid ''absolute''
       else case check_runes rs of Inl e \<Rightarrow> Inl e
       | Inr _ \<Rightarrow> (case check_components p of Inl e \<Rightarrow> Inl e
         | Inr _ \<Rightarrow> if list_ex (\<lambda>r. r \<ge> 0x80) rs \<and> \<not> isNormal p then invalid ''not NFC'' else Inr ()))"

definition Normalize :: "(bytes \<Rightarrow> bool) \<Rightarrow> (bytes \<Rightarrow> bytes) \<Rightarrow> bytes \<Rightarrow> bytes result" where
  "Normalize isNormal nfc p =
    (if \<not> ValidString p then invalid ''UTF-8''
     else let n = nfc p in case Validate isNormal n of Inl e \<Rightarrow> Inl e | Inr _ \<Rightarrow> Inr n)"

fun Compare :: "bytes \<Rightarrow> bytes \<Rightarrow> int" where
  "Compare [] [] = 0"
| "Compare [] (b # bs) = -1"
| "Compare (a # as) [] = 1"
| "Compare (a # as) (b # bs) = (if a < b then -1 else if a > b then 1 else Compare as bs)"

section \<open>The table lookup decides the table\<close>

lemma Search_loop_least:
  "\<forall>a b. a \<le> b \<and> b < j \<and> f a \<longrightarrow> f b \<Longrightarrow> i \<le> j \<Longrightarrow>
   i \<le> Search_loop f i j \<and> Search_loop f i j \<le> j \<and> (\<forall>k. i \<le> k \<and> k < Search_loop f i j \<longrightarrow> \<not> f k) \<and>
    (Search_loop f i j < j \<longrightarrow> f (Search_loop f i j))"
proof (induction f i j rule: Search_loop.induct)
  case (1 f i j)
  let ?h = "(i + j) div 2"
  show ?case
  proof (cases "i < j")
    case False
    then have "i = j" using 1(4) by simp
    moreover have "Search_loop f j j = j" by (simp add: Search_loop.simps[of f j j])
    ultimately show ?thesis by auto
  next
    case True
    then have h: "i \<le> ?h" "?h < j" "?h + 1 \<le> j" by auto
    show ?thesis
    proof (cases "f ?h")
      case f: True
      have eq: "Search_loop f i j = Search_loop f i ?h" using True f by (simp add: Search_loop.simps[of f i j] Let_def)
      have "\<forall>a b. a \<le> b \<and> b < ?h \<and> f a \<longrightarrow> f b" using 1(3) h(2) by (meson less_trans)
      note IH = 1(2)[OF True refl _ this h(1)]
      then show ?thesis using eq h f by (cases "Search_loop f i ?h = ?h") auto
    next
      case f: False
      have eq: "Search_loop f i j = Search_loop f (?h + 1) j" using True f by (simp add: Search_loop.simps[of f i j] Let_def)
      have low: "\<not> f k" if "k \<le> ?h" for k using 1(3) that h f by blast
      note IH = 1(1)[OF True refl f 1(3) h(3)]
      then have "\<not> f k" if "k < Search_loop f i j" for k
        using low[of k] that eq by (cases "k \<le> ?h") auto
      then show ?thesis using eq h IH by auto
    qed
  qed
qed

lemma Search_least:
  assumes "\<forall>a b. a \<le> b \<and> b < n \<and> f a \<longrightarrow> f b"
  shows "Search n f \<le> n" "k < Search n f \<Longrightarrow> \<not> f k" "Search n f < n \<Longrightarrow> f (Search n f)"
  using Search_loop_least[OF assms, of 0] unfolding Search_def by auto

lemma rows_from_nth:
  "rows_from lo rs \<Longrightarrow> i < length rs \<Longrightarrow> lo \<le> fst (rs ! i) \<and> fst (rs ! i) \<le> snd (rs ! i)"
proof (induction lo rs arbitrary: i rule: rows_from.induct)
  case (2 lo a b rs)
  then show ?case by (cases i) fastforce+
qed simp

lemma rows_from_step:
  "rows_from lo rs \<Longrightarrow> i < k \<Longrightarrow> k < length rs \<Longrightarrow> snd (rs ! i) < fst (rs ! k)"
proof (induction lo rs arbitrary: i k rule: rows_from.induct)
  case (2 lo a b rs)
  then show ?case by (cases i; cases k) (auto dest: rows_from_nth 2(1))
qed simp

lemma Assigned_iff: "Assigned r \<longleftrightarrow> (\<exists>(a, b) \<in> set assigned15. a \<le> r \<and> r \<le> b)"
proof -
  let ?f = "\<lambda>i. snd (assigned15 ! i) \<ge> r"
  let ?s = "Search (length assigned15) ?f"
  have "?f b" if "a \<le> b" "b < length assigned15" "?f a" for a b
    using that rows_from_step[OF assigned15_rows, of a b] rows_from_nth[OF assigned15_rows, of b]
    by (cases "a = b") auto
  then have "\<forall>a b. a \<le> b \<and> b < length assigned15 \<and> ?f a \<longrightarrow> ?f b" by blast
  note S = Search_least[OF this]
  show ?thesis
  proof
    assume "Assigned r"
    then have "?s < length assigned15" "fst (assigned15 ! ?s) \<le> r" by (simp_all add: Assigned_def Let_def)
    then show "\<exists>(a, b) \<in> set assigned15. a \<le> r \<and> r \<le> b"
      using S(3) by (intro bexI[where x = "assigned15 ! ?s"]) (simp_all add: case_prod_unfold)
  next
    assume "\<exists>(a, b) \<in> set assigned15. a \<le> r \<and> r \<le> b"
    then obtain i where i: "i < length assigned15" "fst (assigned15 ! i) \<le> r" "?f i"
      by (auto simp: in_set_conv_nth)
    then have le: "?s \<le> i" using S(2)[where k = i] by (meson not_le)
    then have lt: "?s < length assigned15" using i by simp
    have "fst (assigned15 ! ?s) \<le> r"
      using le i S(3)[OF lt] rows_from_step[OF assigned15_rows, of ?s i] rows_from_nth[OF assigned15_rows lt]
      by (cases "?s = i") auto
    then show "Assigned r" using lt by (simp add: Assigned_def)
  qed
qed

section \<open>What Validate accepts\<close>

text \<open>The components of a path: the maximal runs without a separator, by structural recursion.\<close>

fun components :: "bytes \<Rightarrow> bytes list" where
  "components [] = [[]]"
| "components (b # bs) =
    (if b = 0x2F then [] # components bs else (b # hd (components bs)) # tl (components bs))"

definition ok_component :: "bytes \<Rightarrow> bool" where
  "ok_component c \<longleftrightarrow> c \<noteq> [] \<and> c \<noteq> [0x2E] \<and> c \<noteq> [0x2E, 0x2E]"

definition ok_rune :: "nat \<Rightarrow> bool" where
  "ok_rune r \<longleftrightarrow> 0x20 \<le> r \<and> r \<noteq> 0x7F \<and> \<not> (0x80 \<le> r \<and> r \<le> 0x9F) \<and> r \<noteq> 0x5C \<and> Assigned r"

definition canonical :: "(bytes \<Rightarrow> bool) \<Rightarrow> bytes \<Rightarrow> bool" where
  "canonical isNormal p \<longleftrightarrow>
    p \<noteq> [] \<and> length p \<le> 4096 \<and> list_all ok_component (components p) \<and>
    (\<exists>rs. utf8_decode p = Some rs \<and> list_all ok_rune rs \<and> (list_all (\<lambda>r. r < 0x80) rs \<or> isNormal p))"

lemma invalid_not_Inr [simp]: "invalid w \<noteq> Inr x"
  by (simp add: invalid_def)

lemma case_sum_invalid [simp]: "case_sum f g (invalid w) = f (Err ErrInvalid ''canonpath'' w)"
  by (simp add: invalid_def)

lemma check_runes_Inr: "check_runes rs = Inr () \<longleftrightarrow> list_all ok_rune rs"
  by (induction rs) (auto simp: ok_rune_def)

lemma components_nonempty [simp]: "components p \<noteq> []"
  by (cases p) auto

lemma components_Cut:
  "components s = (case Cut s of (c, t, more) \<Rightarrow> c # (if more then components t else []))"
proof (induction s)
  case (Cons b s)
  have t: "dropWhile (\<lambda>b. b \<noteq> 0x2F) s = [] \<Longrightarrow> takeWhile (\<lambda>b. b \<noteq> 0x2F) s = s"
    by (metis append_Nil2 takeWhile_dropWhile_id)
  show ?case
    using Cons t
    by (cases "dropWhile (\<lambda>b. b \<noteq> 0x2F) s") (simp_all add: Cut_def Let_def del: dropWhile_eq_Nil_conv)
qed (simp add: Cut_def)

lemma check_components_Inr: "check_components p = Inr () \<longleftrightarrow> list_all ok_component (components p)"
proof (induction p rule: check_components.induct)
  case (1 s)
  obtain c t more where cut: "Cut s = (c, t, more)" by (cases "Cut s")
  show ?case
    unfolding check_components.simps[of s] components_Cut[of s] cut
    using 1[OF cut[symmetric] refl] by (auto simp: ok_component_def)
qed

lemma components_head_slash: "components (0x2F # bs) = [] # components bs"
  by simp

lemma Validate_iff: "Validate isNormal p = Inr () \<longleftrightarrow> canonical isNormal p"
proof (cases p)
  case Nil
  then show ?thesis by (simp add: Validate_def canonical_def)
next
  case (Cons b bs)
  have slash: "b = 0x2F \<Longrightarrow> \<not> list_all ok_component (components p)"
    using Cons by (simp add: ok_component_def)
  have ex: "list_ex (\<lambda>r. r \<ge> 0x80) rs \<longleftrightarrow> \<not> list_all (\<lambda>r. r < (0x80 :: nat)) rs" for rs
    by (induction rs) auto
  show ?thesis
    using Cons slash
    by (auto simp: Validate_def canonical_def ex case_sum_eq_Inr check_runes_Inr check_components_Inr
        split: option.splits)
qed

lemma canonical_length: "canonical isNormal p \<Longrightarrow> 1 \<le> length p \<and> length p \<le> 4096"
  by (cases p) (auto simp: canonical_def)

section \<open>Compare is a linear order\<close>

lemma Compare_eq_0 [simp]: "Compare a b = 0 \<longleftrightarrow> a = b"
  by (induction a b rule: Compare.induct) auto

lemma Compare_values: "Compare a b \<in> {-1, 0, 1}"
  by (induction a b rule: Compare.induct) auto

lemma Compare_antisym: "Compare b a = - Compare a b"
  by (induction a b rule: Compare.induct) auto

lemma Compare_lexord: "Compare a b = -1 \<longleftrightarrow> (a, b) \<in> lexord {(x, y). x < y}"
  by (induction a b rule: Compare.induct) auto

lemma Compare_trans: "Compare a b = -1 \<Longrightarrow> Compare b c = -1 \<Longrightarrow> Compare a c = -1"
  unfolding Compare_lexord by (rule lexord_trans) (auto simp: trans_def)


lemma Assigned_ascii: "r \<le> 0x7F \<Longrightarrow> Assigned r"
  unfolding Assigned_iff by (rule bexI[of _ "assigned15 ! 0"]) (simp_all add: assigned15_def assigned15_1_def)

section \<open>Properties\<close>

text \<open>C40: A path is accepted exactly when it is canonical: 1 to 4096 bytes of valid UTF-8 whose separator-free components
  are neither empty nor a dot name, every code point assigned and none a control or a backslash, and normalised unless it
  is plain ASCII.\<close>

theorem Validate_exact: "Validate isNormal p = Inr () \<longleftrightarrow> canonical isNormal p"
  by (rule Validate_iff)

text \<open>The binary search over the generated table answers membership in one of its ranges, for every code point.\<close>

lemma Assigned_exact: "Assigned r \<longleftrightarrow> (\<exists>(a, b) \<in> set assigned15. a \<le> r \<and> r \<le> b)"
  by (rule Assigned_iff)

text \<open>Path comparison is the lexicographic order of the bytes, a strict total order.\<close>

lemma Compare_total_order:
  "(Compare a b = -1 \<longleftrightarrow> (a, b) \<in> lexord {(x, y). x < y}) \<and> (Compare a b = 0 \<longleftrightarrow> a = b) \<and>
   Compare b a = - Compare a b \<and> Compare a b \<in> {-1, 0, 1} \<and>
   (Compare a b = -1 \<and> Compare b c = -1 \<longrightarrow> Compare a c = -1)"
  by (intro conjI impI) (simp_all only: Compare_lexord Compare_eq_0 Compare_antisym[of b a] Compare_values, blast intro: Compare_trans[unfolded Compare_lexord])

end
