(* ===== verification/Wire_Entries.thy ===== *)
theory Wire_Entries
  imports Wire_Base Canonpath
begin

text \<open>
  Package \<^verbatim>\<open>internal/wire\<close>, the Pre-Trailer entry list: the canonical two-byte LEB128 path
  length (\<^verbatim>\<open>leb128.go\<close>) and the entry list codec (\<^verbatim>\<open>pretrailer.go\<close>). The encoder and the decoder
  are inverse to each other: exactly the encodings of lists of at most 65535 entries with
  canonical paths decode, and a decoded list encodes back to the same bytes. The NFC test of
  \<^verbatim>\<open>canonpath\<close> stays a parameter.
\<close>

section \<open>LEB128 path length\<close>

definition AppendPathLen :: "bytes \<Rightarrow> nat \<Rightarrow> bytes result" where
  "AppendPathLen dst n =
    (if n < 1 \<or> n > MaxPathLen then errf ErrInvalid ''LEB128'' ''path_len''
     else if n < 0x80 then Inr (dst @ [word_of_nat n])
     else Inr (dst @ [word_of_nat (n AND 0x7F) OR 0x80, word_of_nat (drop_bit 7 n)]))"

definition DecodePathLen :: "bytes \<Rightarrow> (nat \<times> nat) result" where
  "DecodePathLen b =
    (if length b = 0 then errf ErrCorrupt ''LEB128'' ''path_len''
     else let b0 = b ! 0 in
       if b0 AND 0x80 = 0 then
         (if b0 = 0 then errf ErrCorrupt ''LEB128'' ''path_len'' else Inr (unat b0, 1))
       else if length b < 2 then errf ErrCorrupt ''LEB128'' ''path_len''
       else let b1 = b ! 1 in
         if b1 AND 0x80 \<noteq> 0 then errf ErrCorrupt ''LEB128'' ''path_len''
         else if b1 = 0 then errf ErrCorrupt ''LEB128'' ''path_len''
         else let n = unat (b0 AND 0x7F) OR push_bit 7 (unat b1) in
           if n > MaxPathLen then errf ErrCorrupt ''LEB128'' ''path_len'' else Inr (n, 2))"

section \<open>Entry list\<close>

record Entry =
  e_Path :: bytes
  e_Offset :: u64
  e_Length :: u64
  e_FileVer :: u64

fun AppendEntries_loop :: "(bytes \<Rightarrow> bool) \<Rightarrow> bytes \<Rightarrow> Entry list \<Rightarrow> bytes result" where
  "AppendEntries_loop isNormal dst [] = Inr dst"
| "AppendEntries_loop isNormal dst (e # es) =
    (case Validate isNormal (e_Path e) of
       Inl _ \<Rightarrow> errf ErrInvalid ''PreTrailer'' ''path''
     | Inr _ \<Rightarrow>
       (case AppendPathLen dst (length (e_Path e)) of Inl x \<Rightarrow> Inl x
        | Inr d \<Rightarrow> AppendEntries_loop isNormal
            (d @ e_Path e @ le64 (e_Offset e) @ le64 (e_Length e) @ le64 (e_FileVer e)) es))"

definition AppendEntries :: "(bytes \<Rightarrow> bool) \<Rightarrow> bytes \<Rightarrow> Entry list \<Rightarrow> bytes result" where
  "AppendEntries isNormal dst entries =
    (if length entries > MaxPackedEntries then errf ErrInvalid ''PreTrailer'' ''entry_count''
     else AppendEntries_loop isNormal (dst @ le32 (word_of_nat (length entries))) entries)"

fun DecodeEntries_loop :: "(bytes \<Rightarrow> bool) \<Rightarrow> nat \<Rightarrow> bytes \<Rightarrow> (Entry list \<times> bytes) result" where
  "DecodeEntries_loop isNormal 0 p = Inr ([], p)"
| "DecodeEntries_loop isNormal (Suc n) p =
    (case DecodePathLen p of Inl e \<Rightarrow> Inl e
     | Inr (l, used) \<Rightarrow>
       (let p1 = drop used p in
        if length p1 < l + 24 then errf ErrCorrupt ''PreTrailer'' ''entry''
        else let path = take l p1 in
          (case Validate isNormal path of
             Inl _ \<Rightarrow> errf ErrCorrupt ''PreTrailer'' ''path''
           | Inr _ \<Rightarrow>
             (let p2 = drop l p1;
                  e = \<lparr> e_Path = path, e_Offset = of_le64 (seg p2 0 8), e_Length = of_le64 (seg p2 8 16),
                        e_FileVer = of_le64 (seg p2 16 24) \<rparr>
              in case DecodeEntries_loop isNormal n (drop 24 p2) of Inl x \<Rightarrow> Inl x
                 | Inr (es, r) \<Rightarrow> Inr (e # es, r)))))"

definition DecodeEntries :: "(bytes \<Rightarrow> bool) \<Rightarrow> bytes \<Rightarrow> Entry list result" where
  "DecodeEntries isNormal b =
    (if length b < 4 then errf ErrCorrupt ''PreTrailer'' ''entry_count''
     else let n = of_le32 (seg b 0 4) in
       if n > 65535 then errf ErrCorrupt ''PreTrailer'' ''entry_count''
       else if (ucast n :: u64) * 26 > word_of_nat (length b - 4) then errf ErrCorrupt ''PreTrailer'' ''entry_count''
       else case DecodeEntries_loop isNormal (unat n) (drop 4 b) of Inl e \<Rightarrow> Inl e
         | Inr (es, p) \<Rightarrow> if length p \<noteq> 0 then errf ErrCorrupt ''PreTrailer'' ''entry'' else Inr es)"

section \<open>The path length is canonical\<close>

lemma byte_high_clear: "(b :: byte) AND 0x80 = 0 \<longleftrightarrow> unat b < 128"
proof -
  have "(0x80 :: byte) = 2 ^ 7" by simp
  then have "b AND 0x80 = 0 \<longleftrightarrow> \<not> bit b 7" by (simp only: and_exp_eq_0_iff_not_bit)
  also have "\<dots> \<longleftrightarrow> \<not> bit (unat b) 7" by (simp add: bit_unsigned_iff)
  also have "\<dots> \<longleftrightarrow> even (unat b div 128)" by (simp add: bit_iff_odd)
  also have "\<dots> \<longleftrightarrow> unat b < 128"
  proof -
    have "unat b div 128 < 2" using unat_byte_lt[of b] by simp
    then have "unat b div 128 = 0 \<or> unat b div 128 = 1" by linarith
    then show ?thesis by auto
  qed
  finally show ?thesis .
qed

lemma unat_low7: "unat ((b :: byte) AND 0x7F) = unat b mod 128"
proof -
  have "(0x7F :: byte) = mask 7" by (simp add: mask_eq_exp_minus_1)
  then have "b AND 0x7F = take_bit 7 b" by (simp add: take_bit_eq_mask)
  then have "unat (b AND 0x7F) = take_bit 7 (unat b)" by (simp only: unsigned_take_bit_eq)
  then show ?thesis by (simp add: take_bit_eq_mod)
qed

lemma or_push_bit_add: "x < 128 \<Longrightarrow> x OR push_bit 7 y = x + y * (128 :: nat)"
proof -
  assume "x < 128"
  then have x: "take_bit 7 x = x" by (simp add: take_bit_nat_eq_self)
  have "take_bit 7 x AND push_bit 7 y = 0" by (rule bit_eqI) (auto simp: bit_simps)
  then have "x + push_bit 7 y = x OR push_bit 7 y" unfolding x by (rule disjunctive_add_eq_or)
  then show ?thesis by (simp add: push_bit_eq_mult)
qed

lemma nat_and_low7: "(n :: nat) AND 0x7F = n mod 128"
proof -
  have "(0x7F :: nat) = mask 7" by (simp add: mask_eq_exp_minus_1)
  then have "n AND 0x7F = take_bit 7 n" by (simp add: take_bit_eq_mask)
  then show ?thesis by (simp add: take_bit_eq_mod)
qed

lemma take_bit_and_exp: "take_bit m w AND 2 ^ m = (0 :: byte)"
  by (rule bit_eqI) (auto simp: bit_simps)

lemma unat_low7_or_high: "x < 128 \<Longrightarrow> unat (word_of_nat x OR (0x80 :: byte)) = x + 128"
proof -
  assume x: "x < 128"
  then have "take_bit 7 (word_of_nat x :: byte) = word_of_nat x"
    by (simp only: word_unat_eq_iff unsigned_take_bit_eq) (simp add: unat_of_nat take_bit_nat_eq_self)
  then have "word_of_nat x AND (0x80 :: byte) = take_bit 7 (word_of_nat x) AND 2 ^ 7" by simp
  also have "\<dots> = 0" by (rule take_bit_and_exp)
  finally have "word_of_nat x + (0x80 :: byte) = word_of_nat x OR 0x80" by (rule disjunctive_add_eq_or)
  moreover have "unat (word_of_nat x + (0x80 :: byte)) = x + 128" using x by (simp add: unat_word_ariths unat_of_nat)
  ultimately show ?thesis by simp
qed

lemma AppendPathLen_small: "1 \<le> n \<Longrightarrow> n < 128 \<Longrightarrow> AppendPathLen dst n = Inr (dst @ [word_of_nat n])"
  by (simp add: AppendPathLen_def)

lemma AppendPathLen_big: "128 \<le> n \<Longrightarrow> n \<le> 4096 \<Longrightarrow>
    AppendPathLen dst n = Inr (dst @ [word_of_nat (n mod 128 + 128), word_of_nat (n div 128)])"
proof -
  assume n: "128 \<le> n" "n \<le> 4096"
  have "unat (word_of_nat (n mod 128 + 128) :: byte) = n mod 128 + 128" by (simp only: unat_of_nat) simp
  then have "word_of_nat (n mod 128) OR 0x80 = (word_of_nat (n mod 128 + 128) :: byte)"
    using unat_low7_or_high[of "n mod 128"] by (simp add: word_unat_eq_iff)
  then show ?thesis using n by (simp add: AppendPathLen_def nat_and_low7 drop_bit_eq_div)
qed

lemma DecodePathLen_AppendPathLen:
  assumes "AppendPathLen [] n = Inr b"
  shows "DecodePathLen (b @ rest) = Inr (n, length b) \<and> 1 \<le> length b"
proof -
  have n: "1 \<le> n" "n \<le> 4096" using assms by (auto simp: AppendPathLen_def split: if_splits)
  show ?thesis
  proof (cases "n < 128")
    case True
    then have b: "b = [word_of_nat n]" using assms n AppendPathLen_small[of n "[]"] by simp
    have u: "unat (word_of_nat n :: byte) = n" using True by (simp add: unat_of_nat)
    then have "(word_of_nat n :: byte) \<noteq> 0" using n by (metis not_one_le_zero unat_0)
    then show ?thesis using True u by (simp add: b DecodePathLen_def byte_high_clear Let_def)
  next
    case False
    then have b: "b = [word_of_nat (n mod 128 + 128), word_of_nat (n div 128)]"
      using assms n AppendPathLen_big[of n "[]"] by simp
    let ?b0 = "word_of_nat (n mod 128 + 128) :: byte" and ?b1 = "word_of_nat (n div 128) :: byte"
    have d: "n div 128 < 128" "1 \<le> n div 128" using False n by auto
    have u0: "unat ?b0 = n mod 128 + 128" and u1: "unat ?b1 = n div 128"
      using d by (simp_all only: unat_of_nat) simp_all
    have nz: "?b1 \<noteq> 0" using u1 d by (metis not_one_le_zero unat_0)
    have "unat (?b0 AND 0x7F) OR push_bit 7 (unat ?b1) = n"
      unfolding unat_low7 u0 u1 by (subst or_push_bit_add) simp_all
    then show ?thesis
      using d n u0 u1 nz by (simp add: b DecodePathLen_def byte_high_clear Let_def del: of_nat_add)
  qed
qed

lemma AppendPathLen_DecodePathLen:
  assumes "DecodePathLen b = Inr (n, k)"
  shows "k \<le> length b \<and> 1 \<le> k \<and> 1 \<le> n \<and> n \<le> 4096 \<and> AppendPathLen dst n = Inr (dst @ take k b)"
proof (cases "b ! 0 AND 0x80 = 0")
  case True
  then have l: "length b \<noteq> 0" "b ! 0 \<noteq> 0" "n = unat (b ! 0)" "k = 1" and lt: "unat (b ! 0) < 128"
    using assms by (auto simp: DecodePathLen_def Let_def byte_high_clear split: if_splits)
  then have "1 \<le> n" by (metis One_nat_def Suc_leI unat_gt_0)
  then show ?thesis using l lt AppendPathLen_small[of n dst] by (cases b) simp_all
next
  case False
  let ?n = "unat (b ! 0 AND 0x7F) OR push_bit 7 (unat (b ! 1))"
  from False assms have l: "2 \<le> length b" "b ! 1 \<noteq> 0" "n = ?n" "k = 2" "n \<le> 4096" and lt: "unat (b ! 1) < 128"
    and hi: "128 \<le> unat (b ! 0)"
    by (auto simp: DecodePathLen_def Let_def byte_high_clear split: if_splits)
  have n: "n = unat (b ! 0) mod 128 + unat (b ! 1) * 128" using l(3) by (simp add: unat_low7 or_push_bit_add)
  have "1 \<le> unat (b ! 1)" using l(2) by (metis One_nat_def Suc_leI unat_gt_0)
  then have n128: "128 \<le> n" using n by simp
  have m: "unat (b ! 0) mod 128 = unat (b ! 0) - 128"
    using hi unat_byte_lt[of "b ! 0"] by (simp add: le_mod_geq)
  have "n mod 128 = unat (b ! 0) mod 128" "n div 128 = unat (b ! 1)" by (simp_all add: n)
  then have "AppendPathLen dst n = Inr (dst @ [b ! 0, b ! 1])"
    using AppendPathLen_big[OF n128 l(5), of dst] hi m by simp
  moreover have "take 2 b = [b ! 0, b ! 1]" using l(1) by (cases b; cases "tl b") auto
  ultimately show ?thesis using l(1,4,5) n128 by simp
qed

section \<open>The entry list codec\<close>

text \<open>The bytes of one entry, as both directions see them.\<close>

definition entry_bytes :: "Entry \<Rightarrow> bytes" where
  "entry_bytes e = (case AppendPathLen [] (length (e_Path e)) of Inl _ \<Rightarrow> [] | Inr b \<Rightarrow>
     b @ e_Path e @ le64 (e_Offset e) @ le64 (e_Length e) @ le64 (e_FileVer e))"

definition ok_entry :: "(bytes \<Rightarrow> bool) \<Rightarrow> Entry \<Rightarrow> bool" where
  "ok_entry isNormal e \<longleftrightarrow> canonical isNormal (e_Path e)"

lemma AppendPathLen_dst: "AppendPathLen dst n = (case AppendPathLen [] n of Inl e \<Rightarrow> Inl e | Inr b \<Rightarrow> Inr (dst @ b))"
  by (simp add: AppendPathLen_def)

lemma AppendPathLen_ok: "canonical isNormal p \<Longrightarrow> \<exists>b. AppendPathLen [] (length p) = Inr b"
  using canonical_length[of isNormal p] by (auto simp: AppendPathLen_def)

lemma AppendEntries_loop_Inr:
  "AppendEntries_loop isNormal dst es = Inr b \<longleftrightarrow>
     list_all (ok_entry isNormal) es \<and> b = dst @ concat (map entry_bytes es)"
proof (induction es arbitrary: dst)
  case (Cons e es)
  show ?case
  proof (cases "canonical isNormal (e_Path e)")
    case True
    then obtain pl where pl: "AppendPathLen [] (length (e_Path e)) = Inr pl" using AppendPathLen_ok by blast
    have "Validate isNormal (e_Path e) = Inr ()" using True by (simp add: Validate_iff)
    then show ?thesis
      using True Cons pl AppendPathLen_dst[of dst "length (e_Path e)"] by (simp add: entry_bytes_def ok_entry_def)
  next
    case False
    then have "Validate isNormal (e_Path e) \<noteq> Inr ()" by (simp add: Validate_iff)
    then show ?thesis using False by (cases "Validate isNormal (e_Path e)") (auto simp: ok_entry_def)
  qed
qed auto

lemma AppendEntries_loop_dst:
  "AppendEntries_loop isNormal (dst @ d) es = (case AppendEntries_loop isNormal d es of Inl e \<Rightarrow> Inl e | Inr b \<Rightarrow> Inr (dst @ b))"
proof (induction es arbitrary: d)
  case (Cons e es)
  then show ?case
    using AppendPathLen_dst[of "dst @ d" "length (e_Path e)"] AppendPathLen_dst[of d "length (e_Path e)"]
    by (auto simp: errf_def split: sum.splits)
qed simp

lemma AppendEntries_dst:
  "AppendEntries isNormal dst es = (case AppendEntries isNormal [] es of Inl e \<Rightarrow> Inl e | Inr b \<Rightarrow> Inr (dst @ b))"
  using AppendEntries_loop_dst[of isNormal dst "le32 (word_of_nat (length es))" es]
  by (simp add: AppendEntries_def errf_def)

lemma AppendEntries_Inr:
  "AppendEntries isNormal dst es = Inr b \<longleftrightarrow> length es \<le> 65535 \<and> list_all (ok_entry isNormal) es \<and>
     b = dst @ le32 (word_of_nat (length es)) @ concat (map entry_bytes es)"
  by (auto simp: AppendEntries_def AppendEntries_loop_Inr)

lemma entry_bytes_split:
  assumes "ok_entry isNormal e"
  obtains pl where "AppendPathLen [] (length (e_Path e)) = Inr pl"
    "entry_bytes e = pl @ e_Path e @ le64 (e_Offset e) @ le64 (e_Length e) @ le64 (e_FileVer e)"
    "26 \<le> length (entry_bytes e)"
proof -
  obtain pl where pl: "AppendPathLen [] (length (e_Path e)) = Inr pl"
    using assms AppendPathLen_ok by (auto simp: ok_entry_def)
  have "1 \<le> length pl" using DecodePathLen_AppendPathLen[OF pl] by blast
  then show ?thesis
    using that[OF pl] pl canonical_length[of isNormal "e_Path e"] assms by (simp add: entry_bytes_def ok_entry_def)
qed

lemma DecodeEntries_loop_bytes:
  "list_all (ok_entry isNormal) es \<Longrightarrow>
   DecodeEntries_loop isNormal (length es) (concat (map entry_bytes es) @ r) = Inr (es, r)"
proof (induction es)
  case (Cons e es)
  then have ok: "ok_entry isNormal e" by simp
  then obtain pl where pl: "AppendPathLen [] (length (e_Path e)) = Inr pl"
    and eb: "entry_bytes e = pl @ e_Path e @ le64 (e_Offset e) @ le64 (e_Length e) @ le64 (e_FileVer e)"
    by (rule entry_bytes_split)
  have v: "Validate isNormal (e_Path e) = Inr ()" using ok by (simp add: ok_entry_def Validate_iff)
  show ?case
    using Cons DecodePathLen_AppendPathLen[OF pl] by (simp add: eb v Let_def range_simps)
qed simp

lemma DecodeEntries_loop_Inr:
  "DecodeEntries_loop isNormal n p = Inr (es, r) \<Longrightarrow>
   length es = n \<and> list_all (ok_entry isNormal) es \<and> p = concat (map entry_bytes es) @ r"
proof (induction n arbitrary: p es)
  case (Suc n)
  obtain l k where d: "DecodePathLen p = Inr (l, k)" using Suc.prems by (auto split: sum.splits)
  note D = AppendPathLen_DecodePathLen[OF d]
  let ?p1 = "drop k p"
  let ?p2 = "drop l ?p1"
  let ?e = "\<lparr> e_Path = take l ?p1, e_Offset = of_le64 (seg ?p2 0 8), e_Length = of_le64 (seg ?p2 8 16),
              e_FileVer = of_le64 (seg ?p2 16 24) \<rparr>"
  have len: "l + 24 \<le> length ?p1" and v: "Validate isNormal (take l ?p1) = Inr ()"
    using Suc.prems by (auto simp: d Let_def split: if_splits sum.splits)
  then obtain es' where es: "es = ?e # es'" "DecodeEntries_loop isNormal n (drop 24 ?p2) = Inr (es', r)"
    using Suc.prems by (auto simp: d Let_def split: if_splits sum.splits)
  note IH = Suc.IH[OF es(2)]
  have "?p2 = seg ?p2 0 8 @ seg ?p2 8 16 @ seg ?p2 16 24 @ drop 24 ?p2"
    using drop_seg_drop[of 0 8 ?p2] drop_seg_drop[of 8 16 ?p2] drop_seg_drop[of 16 24 ?p2] by simp
  moreover have "entry_bytes ?e = take k p @ take l ?p1 @ seg ?p2 0 8 @ seg ?p2 8 16 @ seg ?p2 16 24"
    using D[of "[]"] len by (simp add: entry_bytes_def)
  ultimately have "p = entry_bytes ?e @ drop 24 ?p2"
    by (metis append.assoc append_take_drop_id)
  then show ?case using IH v es by (simp add: ok_entry_def Validate_iff)
qed simp

lemma entries_min_bytes: "list_all (ok_entry isNormal) es \<Longrightarrow> 26 * length es \<le> length (concat (map entry_bytes es))"
proof (induction es)
  case (Cons e es)
  then have "26 \<le> length (entry_bytes e)" using entry_bytes_split[of isNormal e] by (metis list.pred_inject(2))
  then show ?case using Cons by simp
qed simp

lemma entry_count_word: "n \<le> 65535 \<Longrightarrow> unat (word_of_nat n :: u32) = n"
  by (rule unat_of_nat_u32) simp

lemma DecodeEntries_encoded:
  assumes "AppendEntries isNormal [] es = Inr b" "length b < 2 ^ 63"
  shows "DecodeEntries isNormal b = Inr es"
proof -
  from assms have ok: "length es \<le> 65535" "list_all (ok_entry isNormal) es"
    and b: "b = le32 (word_of_nat (length es)) @ concat (map entry_bytes es)"
    by (auto simp: AppendEntries_Inr)
  have n: "seg b 0 4 = le32 (word_of_nat (length es))" "drop 4 b = concat (map entry_bytes es)" "4 \<le> length b"
    by (simp_all add: b range_simps)
  note u = entry_count_word[OF ok(1)]
  have small: "\<not> (word_of_nat (length es) :: u32) > 65535" using u ok(1) by (simp add: word_less_nat_alt)
  have "unat ((ucast (word_of_nat (length es) :: u32) :: u64) * 26) = length es * 26"
    using ok(1) u by (subst unat_mult_u64) simp_all
  moreover have "unat (word_of_nat (length b - 4) :: u64) = length b - 4"
    using assms(2) by (intro unat_of_nat_u64) simp
  moreover have "length es * 26 \<le> length b - 4" using entries_min_bytes[OF ok(2)] by (simp add: b)
  ultimately have fit: "\<not> (ucast (word_of_nat (length es) :: u32) :: u64) * 26 > word_of_nat (length b - 4)"
    by (simp only: word_less_nat_alt not_less)
  show ?thesis
    using n small fit u DecodeEntries_loop_bytes[OF ok(2), of "[]"] by (simp add: DecodeEntries_def Let_def)
qed

lemma DecodeEntries_Inr:
  assumes "DecodeEntries isNormal b = Inr es"
  shows "AppendEntries isNormal [] es = Inr b"
proof -
  let ?n = "of_le32 (seg b 0 4)"
  from assms have len: "4 \<le> length b" and n: "\<not> ?n > 65535"
    and l: "DecodeEntries_loop isNormal (unat ?n) (drop 4 b) = Inr (es, [])"
    by (auto simp: DecodeEntries_def Let_def split: if_splits sum.splits)
  note L = DecodeEntries_loop_Inr[OF l]
  have "word_of_nat (length es) = ?n" using L by simp
  moreover have "le32 ?n = seg b 0 4" using len by simp
  moreover have "length es \<le> 65535" using L n by (simp add: word_less_nat_alt)
  moreover have "b = seg b 0 4 @ drop 4 b" by (simp add: seg_def)
  ultimately show ?thesis using L by (simp add: AppendEntries_Inr)
qed


section \<open>Properties\<close>

text \<open>A path length is decoded from the front of any bytes exactly when these begin with its one- or two-byte
  encoding; there is no second encoding of the same length.\<close>

lemma path_len_exact: "DecodePathLen (b @ rest) = Inr (n, length b) \<longleftrightarrow> AppendPathLen [] n = Inr b"
  using DecodePathLen_AppendPathLen[of n b rest] AppendPathLen_DecodePathLen[of "b @ rest" n "length b" "[]"] by auto

text \<open>Bytes decode to an entry list exactly when they are its encoding, so encoding and decoding are inverse and
  every accepted byte sequence is canonical.\<close>

lemma entries_codec_exact:
  assumes "length b < 2 ^ 63"
  shows "DecodeEntries isNormal b = Inr es \<longleftrightarrow> AppendEntries isNormal [] es = Inr b"
  using DecodeEntries_encoded DecodeEntries_Inr assms by blast

definition sample_entry :: Entry where
  "sample_entry = \<lparr> e_Path = [0x61, 0x2F, 0x62], e_Offset = 0, e_Length = 3, e_FileVer = 1 \<rparr>"

lemma canonical_sample_path: "canonical isNormal [0x61, 0x2F, 0x62]"
proof -
  have "Assigned 0x61" "Assigned 0x2F" "Assigned 0x62" by (simp_all add: Assigned_ascii)
  moreover have "utf8_decode [0x61, 0x2F, 0x62] = Some [0x61, 0x2F, 0x62]" by code_simp
  ultimately show ?thesis by (simp add: canonical_def ok_component_def ok_rune_def)
qed

end
