(* ===== verification/Ident.thy ===== *)
theory Ident
  imports Wire_Base
begin

text \<open>
  Package \<^verbatim>\<open>internal/ident\<close>: payload hashes and object identifiers. SHA-256, BLAKE3 and
  HMAC-SHA-256 are external and are a record of functions the definitions take; the lemmas
  rely on nothing about them but that a digest has 32 bytes. The message that is hashed
  determines the path and the version.
\<close>

record hashes =
  sha256 :: "bytes \<Rightarrow> bytes"
  blake3 :: "bytes \<Rightarrow> bytes"
  hmac_sha256 :: "bytes \<Rightarrow> bytes \<Rightarrow> bytes"

definition wf_hashes :: "hashes \<Rightarrow> bool" where
  "wf_hashes H \<longleftrightarrow> (\<forall>b. length (sha256 H b) = 32) \<and> (\<forall>b. length (blake3 H b) = 32) \<and>
     (\<forall>k b. length (hmac_sha256 H k b) = 32)"

definition ObjectIDDomain :: bytes where
  "ObjectIDDomain = ascii ''STASH-OBJECT-ID-V2''"

definition Hash :: "hashes \<Rightarrow> HashID \<Rightarrow> bytes \<Rightarrow> bytes result" where
  "Hash H hid b =
    (if hid = HashSHA256 then Inr (sha256 H b)
     else if hid = HashBLAKE3 then Inr (blake3 H b)
     else errf ErrOther ''ident'' ''hash_id'')"

definition objectIDMessage :: "bytes \<Rightarrow> bytes \<Rightarrow> u64 \<Rightarrow> bytes" where
  "objectIDMessage dst path fileVer = dst @ ObjectIDDomain @ path @ le64 fileVer"

definition ObjectID :: "hashes \<Rightarrow> HashID \<Rightarrow> bytes \<Rightarrow> u64 \<Rightarrow> bytes result" where
  "ObjectID H hid canonicalPath fileVer =
    (case Hash H hid (objectIDMessage [] canonicalPath fileVer) of
       Inl e \<Rightarrow> Inl e | Inr h \<Rightarrow> Inr (take 16 h))"

definition KeyedObjectID :: "hashes \<Rightarrow> bytes \<Rightarrow> bytes \<Rightarrow> u64 \<Rightarrow> bytes result" where
  "KeyedObjectID H objectIDKey canonicalPath fileVer =
    (if length objectIDKey \<noteq> 32 then errf ErrOther ''ident'' ''objectid_key''
     else Inr (take 16 (hmac_sha256 H objectIDKey (objectIDMessage [] canonicalPath fileVer))))"

lemma Hash_valid: "HashID_Valid hid \<Longrightarrow> wf_hashes H \<Longrightarrow> \<exists>d. Hash H hid b = Inr d \<and> length d = 32"
  by (auto simp: Hash_def HashID_Valid_def wf_hashes_def)

lemma Hash_Inr: "Hash H hid b = Inr d \<Longrightarrow> HashID_Valid hid"
  by (auto simp: Hash_def HashID_Valid_def split: if_splits)

lemma length_Hash: "Hash H hid b = Inr d \<Longrightarrow> wf_hashes H \<Longrightarrow> length d = 32"
  by (auto simp: Hash_def wf_hashes_def split: if_splits)

lemma objectIDMessage_inj:
  "objectIDMessage dst p v = objectIDMessage dst p' v' \<longleftrightarrow> p = p' \<and> v = v'"
  by (auto simp: objectIDMessage_def)

lemma length_ObjectID: "ObjectID H hid p v = Inr x \<Longrightarrow> wf_hashes H \<Longrightarrow> length x = 16"
  by (auto simp: ObjectID_def length_Hash split: sum.splits)

lemma length_KeyedObjectID: "KeyedObjectID H k p v = Inr x \<Longrightarrow> wf_hashes H \<Longrightarrow> length x = 16"
  by (auto simp: KeyedObjectID_def wf_hashes_def split: if_splits)

text \<open>A collision of object identifiers is a collision of the digest prefix on different messages.\<close>

lemma ObjectID_collision:
  assumes "ObjectID H hid p v = ObjectID H hid p' v'" "HashID_Valid hid" "(p, v) \<noteq> (p', v')"
  shows "\<exists>m m' d d'. m \<noteq> m' \<and> Hash H hid m = Inr d \<and> Hash H hid m' = Inr d' \<and> take 16 d = take 16 d'"
proof -
  let ?m = "objectIDMessage [] p v" and ?m' = "objectIDMessage [] p' v'"
  have "?m \<noteq> ?m'" using assms(3) by (simp add: objectIDMessage_inj)
  moreover obtain d d' where "Hash H hid ?m = Inr d" "Hash H hid ?m' = Inr d'"
    using assms(2) by (auto simp: Hash_def HashID_Valid_def)
  moreover from this have "take 16 d = take 16 d'" using assms(1) by (simp add: ObjectID_def)
  ultimately show ?thesis by blast
qed


section \<open>Properties\<close>

text \<open>The object identifier separates its inputs: two different (path, version) pairs with the same identifier are two
  different messages with the same truncated digest of the archive's hash function.\<close>

lemma ObjectID_separates:
  assumes "ObjectID H hid p v = ObjectID H hid p' v'" "HashID_Valid hid" "(p, v) \<noteq> (p', v')"
  shows "\<exists>m m' d d'. m \<noteq> m' \<and> Hash H hid m = Inr d \<and> Hash H hid m' = Inr d' \<and> take 16 d = take 16 d'"
  using ObjectID_collision[OF assms] .

definition sample_hashes :: hashes where
  "sample_hashes = \<lparr> sha256 = (\<lambda>_. replicate 32 5), blake3 = (\<lambda>_. replicate 32 5), hmac_sha256 = (\<lambda>_ _. replicate 32 5) \<rparr>"

lemma wf_sample_hashes: "wf_hashes sample_hashes"
  by (simp add: wf_hashes_def sample_hashes_def)

end
