(* ===== verification/Frame.thy ===== *)
theory Frame
  imports Wire_Frame Wire_Entries Ident
begin

text \<open>
  Package \<^verbatim>\<open>internal/frame\<close>, \<^verbatim>\<open>frame.go\<close>: building and parsing complete frames. \<open>AppendFrame\<close>
  keeps the buffer discipline of the code: the entry list is encoded at the end of \<open>dst\<close>, the
  slice is grown over stale capacity (the parameter \<open>stale\<close> is what that memory holds), the list
  is moved to its place and every other region is written in turn. The lemmas show that the
  result is the canonical image whatever the stale bytes were, that \<open>Parse\<close> returns what was
  built, that a parsed frame is the image of what was parsed, and which changes of a byte
  \<open>Parse\<close> refuses. Hash functions and the NFC test are parameters.
\<close>

section \<open>Data\<close>

record Spec =
  s_BlockType :: BlockType
  s_Codec :: CodecID
  s_Payload :: bytes
  s_Entries :: "Entry list"
  s_GroupID :: u32
  s_GroupIndex :: byte
  s_GroupK :: byte
  s_GroupM :: byte
  s_FrameOrdinal :: u64
  s_FrameQuanta :: u32

text \<open>\<open>f_Entries\<close> is \<open>None\<close> where the code leaves the slice nil (an opaque encrypted Pre-Trailer).\<close>

record Frame =
  f_Prefix :: FramePrefix
  f_Trailer :: MasterTrailer
  f_Payload :: bytes
  f_Entries :: "Entry list option"
  f_PreTrailer :: bytes
  f_PackedLength :: u64

section \<open>Sizes and entry rules\<close>

definition RequiredQuanta :: "u64 \<Rightarrow> u64 \<Rightarrow> bool \<Rightarrow> u32 result" where
  "RequiredQuanta dataLen preTrailerLen parity =
    (let pad = (if parity then 112 else 0) in
     case Sum64 [116, dataLen, preTrailerLen, pad] of Inl e \<Rightarrow> Inl e
     | Inr need \<Rightarrow>
       (let q = (need + 4096 - 1) div 4096 in
        if q > 0x00100000 then errf ErrResource ''Frame'' ''frame_quanta'' else Inr (ucast q)))"

text \<open>The PARITY block of \<open>chooseQuanta\<close>: the payload length fixes the frame size.\<close>

definition parityQuanta :: "u32 \<Rightarrow> u64 \<Rightarrow> u64 \<Rightarrow> u32 result" where
  "parityQuanta q0 len ptLen =
    (case RequiredQuanta len ptLen False of Inl e \<Rightarrow> Inl e
     | Inr pq \<Rightarrow>
       (let q = (if q0 = 0 then pq else q0) in
        if len \<noteq> ParityShardLen q then errf ErrInvalid ''Frame'' ''payload'' else Inr q))"

definition chooseQuanta :: "ArchiveHeader \<Rightarrow> Spec \<Rightarrow> u64 \<Rightarrow> u32 result" where
  "chooseQuanta h s ptLen =
    (let len = word_of_nat (length (s_Payload s)) :: u64 in
     if h_Mode h = ModeFixed \<and> s_FrameQuanta s \<noteq> 0 \<and> s_FrameQuanta s \<noteq> h_MaxFrameQuanta h
     then errf ErrInvalid ''Frame'' ''frame_quanta''
     else let q0 = (if h_Mode h = ModeFixed then h_MaxFrameQuanta h else s_FrameQuanta s) in
       case (if s_BlockType s = BlockParity then parityQuanta q0 len ptLen else Inr q0) of Inl e \<Rightarrow> Inl e
       | Inr q1 \<Rightarrow>
         (case RequiredQuanta len ptLen (s_GroupID s \<noteq> 0 \<and> s_BlockType s \<noteq> BlockParity) of Inl e \<Rightarrow> Inl e
          | Inr minQ \<Rightarrow>
            (let q = (if q1 = 0 then minQ else q1) in
             if q < minQ \<or> q > h_MaxFrameQuanta h then errf ErrInvalid ''Frame'' ''frame_quanta'' else Inr q)))"

fun checkPacked_loop :: "bytes option \<Rightarrow> u64 \<Rightarrow> Entry list \<Rightarrow> u64 result" where
  "checkPacked_loop prev end [] = Inr end"
| "checkPacked_loop prev end (e # es) =
    (if (case prev of None \<Rightarrow> False | Some q \<Rightarrow> Compare q (e_Path e) \<ge> 0) then errf ErrCorrupt ''Frame'' ''entries''
     else if e_Offset e \<noteq> end then errf ErrCorrupt ''Frame'' ''entries''
     else case Add64 end (e_Length e) of Inl _ \<Rightarrow> errf ErrCorrupt ''Frame'' ''entries''
       | Inr end' \<Rightarrow> checkPacked_loop (Some (e_Path e)) end' es)"

definition checkPacked :: "Entry list \<Rightarrow> u64 \<Rightarrow> u64 result" where
  "checkPacked es maxFrame =
    (if length es < 1 \<or> length es > MaxPackedEntries then errf ErrCorrupt ''Frame'' ''entries''
     else case checkPacked_loop None 0 es of Inl e \<Rightarrow> Inl e
       | Inr end \<Rightarrow> if end > maxFrame then errf ErrCorrupt ''Frame'' ''entries'' else Inr end)"

definition checkEntriesForBuild :: "ArchiveHeader \<Rightarrow> Spec \<Rightarrow> unit result" where
  "checkEntriesForBuild h s =
    (if s_BlockType s = BlockData then
       (if length (s_Entries s) \<noteq> 1 then errf ErrInvalid ''Frame'' ''entries'' else Inr ())
     else if s_BlockType s = BlockPacked then
       (case checkPacked (s_Entries s) (MaxFrameSize h) of Inl e \<Rightarrow> Inl e | Inr _ \<Rightarrow> Inr ())
     else if s_BlockType s = BlockParity then
       (if length (s_Entries s) \<noteq> 0 then errf ErrInvalid ''Frame'' ''entries'' else Inr ())
     else errf ErrInvalid ''Frame'' ''block_type'')"

section \<open>Build\<close>

definition frameTrailer :: "hashes \<Rightarrow> ArchiveHeader \<Rightarrow> Spec \<Rightarrow> u32 \<Rightarrow> MasterTrailer result" where
  "frameTrailer H h s q =
    (let t = \<lparr> m_HashID = h_HashID h, m_CodecID = s_Codec s, m_BlockType = s_BlockType s,
               m_GroupID = s_GroupID s, m_GroupIndex = s_GroupIndex s, m_GroupK = s_GroupK s, m_GroupM = s_GroupM s,
               m_DataLen = word_of_nat (length (s_Payload s)), m_FrameQuanta = q, m_ObjectID = zeroID,
               m_LogicalOffset = 0, m_LogicalLength = 0, m_FrameOrdinal = s_FrameOrdinal s,
               m_HashPayload = replicate HashSize 0 \<rparr> in
     case (if s_BlockType s = BlockData then
             (let e = hd (s_Entries s) in
              case ObjectID H (h_HashID h) (e_Path e) (e_FileVer e) of Inl x \<Rightarrow> Inl x
              | Inr oid \<Rightarrow> Inr (t\<lparr> m_LogicalOffset := e_Offset e, m_LogicalLength := e_Length e, m_ObjectID := oid \<rparr>))
           else Inr t) of Inl x \<Rightarrow> Inl x
     | Inr t1 \<Rightarrow>
       (case Hash H (h_HashID h) (s_Payload s) of Inl x \<Rightarrow> Inl x
        | Inr d \<Rightarrow> Inr (t1\<lparr> m_HashPayload := d \<rparr>)))"

text \<open>The writes into \<open>f = out[start:]\<close>, in the order of the code.\<close>

definition frameWrites :: "Layout \<Rightarrow> bytes \<Rightarrow> bytes \<Rightarrow> bytes \<Rightarrow> nat \<Rightarrow> u64 \<Rightarrow> bytes \<Rightarrow> bytes" where
  "frameWrites lay pb payload tb bodyLen ptLen f0 =
    (let pts = unat (l_PreTrailerStart lay);
         f1 = put_at f0 pts (take bodyLen f0);
         f2 = put_at f1 0 pb;
         f3 = put_at f2 (unat (l_PayloadStart lay)) payload;
         f4 = put_at f3 (unat (l_PayloadEnd lay)) (replicate (pts - unat (l_PayloadEnd lay)) 0);
         f5 = put_at f4 (unat (l_TrailerStart lay)) tb;
         body = seg f5 pts (pts + bodyLen);
         f6 = put_at f5 (pts + bodyLen) (le32 (OuterCRC body (ucast ptLen) tb))
     in put_at f6 (unat (l_TrailerStart lay) - 4) (le32 (ucast ptLen)))"

definition AppendFrame ::
    "hashes \<Rightarrow> (bytes \<Rightarrow> bool) \<Rightarrow> (nat \<Rightarrow> byte) \<Rightarrow> bytes \<Rightarrow> ArchiveHeader \<Rightarrow> Spec \<Rightarrow> bytes result" where
  "AppendFrame H isNormal stale dst h s =
    (if Encrypted h then errf ErrInvalid ''Frame'' ''''
     else case checkEntriesForBuild h s of Inl e \<Rightarrow> Inl e | Inr _ \<Rightarrow>
     (let start = length dst in
      case AppendEntries isNormal dst (s_Entries s) of Inl e \<Rightarrow> Inl e | Inr out \<Rightarrow>
      (let bodyLen = length out - start; ptLen = word_of_nat bodyLen + 4 :: u64 in
       case chooseQuanta h s ptLen of Inl e \<Rightarrow> Inl e | Inr q \<Rightarrow>
       if length (s_Payload s) > 0xFFFFFFFF then errf ErrInvalid ''Frame'' ''data_len''
       else case frameTrailer H h s q of Inl e \<Rightarrow> Inl e | Inr t \<Rightarrow>
       (case ValidateTrailer t h \<lparr> p_FrameQuanta = q \<rparr> of Inl e \<Rightarrow> Inl e | Inr _ \<Rightarrow>
       (case ComputeLayout q (word_of_nat (length (s_Payload s))) ptLen of Inl e \<Rightarrow> Inl e | Inr lay \<Rightarrow>
       (let fsz = unat (l_FrameSize lay);
            grown = take (start + fsz) (out @ map stale [length out..<start + fsz]) in
        case FramePrefix_AppendBinary \<lparr> p_FrameQuanta = q \<rparr> [] of
          Inl _ \<Rightarrow> errf ErrInvalid ''Frame'' ''''
        | Inr pb \<Rightarrow>
          (case MasterTrailer_AppendBinary t [] of
             Inl _ \<Rightarrow> errf ErrInvalid ''Frame'' ''''
           | Inr tb \<Rightarrow>
             Inr (take start grown @ frameWrites lay pb (s_Payload s) tb bodyLen ptLen (drop start grown)))))))))"

definition Build :: "hashes \<Rightarrow> (bytes \<Rightarrow> bool) \<Rightarrow> (nat \<Rightarrow> byte) \<Rightarrow> ArchiveHeader \<Rightarrow> Spec \<Rightarrow> bytes result" where
  "Build H isNormal stale h s = AppendFrame H isNormal stale [] h s"

section \<open>Parse\<close>

definition checkEntriesParsed :: "hashes \<Rightarrow> ArchiveHeader \<Rightarrow> MasterTrailer \<Rightarrow> Entry list \<Rightarrow> u64 result" where
  "checkEntriesParsed H h t es =
    (if m_BlockType t = BlockParity then
       (if length es \<noteq> 0 then errf ErrCorrupt ''Frame'' ''entry_count'' else Inr 0)
     else if m_BlockType t = BlockData then
       (if length es \<noteq> 1 then errf ErrCorrupt ''Frame'' ''entry_count''
        else let e = hd es in
          if e_Offset e \<noteq> m_LogicalOffset t \<or> e_Length e \<noteq> m_LogicalLength t then errf ErrCorrupt ''Frame'' ''entry''
          else case ObjectID H (h_HashID h) (e_Path e) (e_FileVer e) of Inl x \<Rightarrow> Inl x
            | Inr oid \<Rightarrow> if oid \<noteq> m_ObjectID t then errf ErrCorrupt ''Frame'' ''object_id'' else Inr 0)
     else if m_BlockType t = BlockPacked then
       (case checkPacked es (MaxFrameSize h) of Inl e \<Rightarrow> Inl e
        | Inr n \<Rightarrow> if m_CodecID t = CodecStore \<and> ucast (m_DataLen t) \<noteq> n then errf ErrCorrupt ''Frame'' ''data_len''
                  else Inr n)
     else Inr 0)"

definition Parse :: "hashes \<Rightarrow> (bytes \<Rightarrow> bool) \<Rightarrow> bytes \<Rightarrow> ArchiveHeader \<Rightarrow> Frame result" where
  "Parse H isNormal frame h =
    (case DecodeFramePrefix frame h of Inl e \<Rightarrow> Inl e | Inr p \<Rightarrow>
     if word_of_nat (length frame) \<noteq> FrameSize (p_FrameQuanta p) then errf ErrCorrupt ''Frame'' ''''
     else case DecodeFrameTail frame of Inl e \<Rightarrow> Inl e | Inr tail \<Rightarrow>
     (let t = t_Trailer tail; body = t_Body tail in
      case ValidateTrailer t h p of Inl e \<Rightarrow> Inl e | Inr _ \<Rightarrow>
      (case ComputeLayout (p_FrameQuanta p) (ucast (m_DataLen t)) (word_of_nat (length body)) of Inl e \<Rightarrow> Inl e
       | Inr lay \<Rightarrow>
       (let payload = seg frame (unat (l_PayloadStart lay)) (unat (l_PayloadEnd lay));
            f = \<lparr> f_Prefix = p, f_Trailer = t, f_Payload = payload, f_Entries = None,
                  f_PreTrailer = body, f_PackedLength = 0 \<rparr> in
        if \<not> allZero (seg frame (unat (l_PayloadEnd lay)) (unat (l_PreTrailerStart lay)))
        then errf ErrCorrupt ''Frame'' ''padding''
        else case Hash H (h_HashID h) payload of Inl e \<Rightarrow> Inl e | Inr d \<Rightarrow>
        if d \<noteq> m_HashPayload t then errf ErrCorrupt ''Frame'' ''hash_payload''
        else if m_BlockType t = BlockParity \<and> (length body \<noteq> MinParityPreTrailerLen \<or> l_PaddingLen lay \<noteq> 0)
        then errf ErrCorrupt ''Frame'' ''pre_trailer_len''
        else if Encrypted h \<and> m_BlockType t \<noteq> BlockParity then
          (if length body < AEADOverhead + 4 + 4 then errf ErrCorrupt ''Frame'' ''pre_trailer_len''
           else if m_BlockType t = BlockPacked \<and> m_CodecID t = CodecStore \<and> m_DataLen t < 28
           then errf ErrCorrupt ''Frame'' ''data_len'' else Inr f)
        else case DecodeEntries isNormal (take (length body - 4) body) of Inl e \<Rightarrow> Inl e
        | Inr es \<Rightarrow>
          (case checkEntriesParsed H h t es of Inl e \<Rightarrow> Inl e
           | Inr n \<Rightarrow> Inr (f\<lparr> f_Entries := Some es, f_PackedLength := n \<rparr>))))))"

section \<open>RequiredQuanta is the least sufficient size\<close>

definition need :: "u64 \<Rightarrow> u64 \<Rightarrow> bool \<Rightarrow> nat" where
  "need dataLen preTrailerLen parity = 116 + unat dataLen + unat preTrailerLen + (if parity then 112 else 0)"

lemma RequiredQuanta_Inr:
  assumes "need d p par + 4096 \<le> 2 ^ 64"
  shows "RequiredQuanta d p par = Inr q \<longleftrightarrow> unat q = (need d p par + 4095) div 4096 \<and> unat q \<le> 2 ^ 20"
proof -
  let ?n = "need d p par"
  let ?vs = "[116, d, p, if par then 112 else 0] :: u64 list"
  have sum: "sum_list (map unat ?vs) = ?n" by (simp add: need_def)
  then have "\<not> isl (Sum64 ?vs)" using assms by (simp only: Sum64_Inl)
  then obtain u where u: "Sum64 ?vs = Inr u" by (cases "Sum64 ?vs") auto
  then have un: "unat u = ?n" using sum by (simp only: Sum64_Inr)
  have "u + 4096 - 1 = u + 4095" by simp
  moreover have "unat (u + 4095) = ?n + 4095" using assms un unat_add_u64[of u 4095] by simp
  ultimately have "unat (u + 4096 - 1) = ?n + 4095" by (simp only:)
  then have d: "unat ((u + 4096 - 1) div 4096) = (?n + 4095) div 4096" by (simp add: unat_div)
  have cast: "unat (ucast w :: u32) = unat w" if "unat w \<le> 2 ^ 20" for w :: u64
    using that by (simp add: unsigned_ucast_eq take_bit_nat_eq_self)
  show ?thesis
  proof (cases "(?n + 4095) div 4096 \<le> 2 ^ 20")
    case True
    then have "RequiredQuanta d p par = Inr (ucast ((u + 4096 - 1) div 4096))"
      using d by (simp add: RequiredQuanta_def Let_def u word_less_nat_alt not_less)
    then show ?thesis using d True cast[of "(u + 4096 - 1) div 4096"] by (auto simp: word_unat_eq_iff)
  next
    case False
    then show ?thesis using d by (auto simp: RequiredQuanta_def Let_def u word_less_nat_alt)
  qed
qed

lemma RequiredQuanta_least:
  assumes "need d p par + 4096 \<le> 2 ^ 64" "RequiredQuanta d p par = Inr q"
  shows "need d p par \<le> unat q * 4096" "need d p par \<le> k * 4096 \<Longrightarrow> unat q \<le> k"
  using assms by (simp_all add: RequiredQuanta_Inr)

section \<open>The image of a frame\<close>

definition prefix_bytes :: "u32 \<Rightarrow> bytes" where
  "prefix_bytes q = (case FramePrefix_AppendBinary \<lparr> p_FrameQuanta = q \<rparr> [] of Inl _ \<Rightarrow> [] | Inr b \<Rightarrow> b)"

definition tail_bytes :: "bytes \<Rightarrow> MasterTrailer \<Rightarrow> bytes" where
  "tail_bytes body t = (let ptl = word_of_nat (length body + 4) :: u32 in
     body @ le32 (OuterCRC body ptl (MasterTrailer_image t)) @ le32 ptl @ MasterTrailer_image t)"

definition frame_image :: "u32 \<Rightarrow> bytes \<Rightarrow> bytes \<Rightarrow> MasterTrailer \<Rightarrow> bytes" where
  "frame_image q payload body t =
     prefix_bytes q @ payload @ replicate (unat q * 4096 - (120 + length payload + length body)) 0 @ tail_bytes body t"

lemma length_tail_bytes [simp]: "wf_trailer t \<Longrightarrow> length (tail_bytes body t) = length body + 104"
  by (simp add: tail_bytes_def Let_def)

text \<open>Writing consecutive chunks over a buffer split at the same places.\<close>

lemma frameWrites_chunks:
  assumes "length c0 = 16" "length c1 = length payload" "length c2 = pad" "length c3 = bodyLen" "length c4 = 4"
    "length c5 = 4" "length c6 = 96" "length pb = 16" "length tb = 96" "length body = bodyLen"
    and f0: "take bodyLen (c0 @ c1 @ c2 @ c3 @ c4 @ c5 @ c6) = body"
    and lay: "unat (l_PayloadStart lay) = 16" "unat (l_PayloadEnd lay) = 16 + length payload"
      "unat (l_PreTrailerStart lay) = 16 + length payload + pad"
      "unat (l_TrailerStart lay) = 24 + length payload + pad + bodyLen"
  shows "frameWrites lay pb payload tb bodyLen ptLen (c0 @ c1 @ c2 @ c3 @ c4 @ c5 @ c6) =
    pb @ payload @ replicate pad 0 @ body @ le32 (OuterCRC body (ucast ptLen) tb) @ le32 (ucast ptLen) @ tb"
  unfolding frameWrites_def Let_def lay f0
  using assms(1-10) put_at_exact[of c6 tb "[]"] by (simp add: range_simps)

lemma split_chunks: "sum_list ns = length f \<Longrightarrow> \<exists>cs. f = concat cs \<and> map length cs = ns"
proof (induction ns arbitrary: f)
  case (Cons n ns)
  then have "sum_list ns = length (drop n f)" by simp
  then obtain cs where "drop n f = concat cs" "map length cs = ns" using Cons.IH by blast
  then show ?case using Cons.prems by (intro exI[of _ "take n f # cs"]) (metis append_take_drop_id concat.simps(2)
      length_take list.simps(9) min.absorb2 le_add1 sum_list.Cons)
qed simp

lemma frameWrites_image:
  assumes lay: "ComputeLayout q d p = Inr lay" and d: "unat d = length payload" and p: "unat p = length body + 4"
    and q: "unat q \<le> 2 ^ 20" and pb: "length (prefix_bytes q) = 16" and wf: "wf_trailer t"
    and f0: "length f0 = unat (l_FrameSize lay)" "take (length body) f0 = body"
  shows "frameWrites lay (prefix_bytes q) payload (MasterTrailer_image t) (length body) p f0 = frame_image q payload body t"
proof -
  note L = ComputeLayout_partition[OF lay]
  define pad where "pad = unat q * 4096 - (120 + length payload + length body)"
  have fits: "120 + length payload + length body \<le> unat q * 4096"
    using ComputeLayout_ok_iff[of q d p] lay d p by auto
  have tot: "length f0 = 120 + length payload + pad + length body"
    using f0(1) L(1) fits by (simp add: pad_def)
  let ?n = "length payload" and ?m = "length body"
  obtain c0 c1 c2 c3 c4 c5 c6 where c: "f0 = c0 @ c1 @ c2 @ c3 @ c4 @ c5 @ c6" "length c0 = 16" "length c1 = ?n"
    "length c2 = pad" "length c3 = ?m" "length c4 = 4" "length c5 = 4" "length c6 = 96"
    using split_chunks[of "[16, ?n, pad, ?m, 4, 4, 96]" f0] tot by (auto simp: length_Suc_conv)
  have "unat (l_PreTrailerStart lay) = 16 + ?n + pad" "unat (l_TrailerStart lay) = 24 + ?n + pad + ?m"
    using L d p fits by (simp_all add: pad_def)
  then have "frameWrites lay (prefix_bytes q) payload (MasterTrailer_image t) ?m p f0 =
      prefix_bytes q @ payload @ replicate pad 0 @ body @ le32 (OuterCRC body (ucast p) (MasterTrailer_image t)) @
      le32 (ucast p) @ MasterTrailer_image t"
    using L d pb wf f0(2) c(2-) unfolding c(1) by (intro frameWrites_chunks) simp_all
  moreover have "(ucast p :: u32) = word_of_nat (?m + 4)"
    by (simp flip: p)
  ultimately show ?thesis by (simp add: frame_image_def tail_bytes_def Let_def pad_def)
qed

section \<open>What AppendFrame produces\<close>

lemma entry_bytes_bound: "ok_entry isNormal e \<Longrightarrow> length (entry_bytes e) \<le> 4122"
  using canonical_length[of isNormal "e_Path e"]
  by (auto simp: entry_bytes_def ok_entry_def AppendPathLen_def split: sum.splits)

lemma AppendEntries_bound:
  assumes "AppendEntries isNormal [] es = Inr body"
  shows "4 \<le> length body" "length body < 2 ^ 30"
proof -
  have ok: "length es \<le> 65535" "list_all (ok_entry isNormal) es"
    and b: "body = le32 (word_of_nat (length es)) @ concat (map entry_bytes es)"
    using assms by (auto simp: AppendEntries_Inr)
  have "length (concat (map entry_bytes es)) \<le> 4122 * length es"
    using ok(2) by (induction es) (auto dest: entry_bytes_bound)
  then show "4 \<le> length body" "length body < 2 ^ 30" using b ok(1) by simp_all
qed

lemma chooseQuanta_Inr:
  assumes "chooseQuanta h s ptLen = Inr q" "length (s_Payload s) < 2 ^ 32" "unat ptLen < 2 ^ 32"
  shows "0 < unat q" "q \<le> h_MaxFrameQuanta h" "h_Mode h = ModeFixed \<Longrightarrow> q = h_MaxFrameQuanta h"
    "116 + length (s_Payload s) + unat ptLen +
      (if s_GroupID s \<noteq> 0 \<and> s_BlockType s \<noteq> BlockParity then 112 else 0) \<le> unat q * 4096"
proof -
  let ?len = "word_of_nat (length (s_Payload s)) :: u64"
  let ?par = "s_GroupID s \<noteq> 0 \<and> s_BlockType s \<noteq> BlockParity"
  have n: "need ?len ptLen ?par = 116 + length (s_Payload s) + unat ptLen + (if ?par then 112 else 0)"
    using assms(2) by (simp add: need_def unat_of_nat_u64)
  have small: "need ?len ptLen ?par + 4096 \<le> 2 ^ 64" using assms(2,3) unfolding n by simp
  let ?q0 = "if h_Mode h = ModeFixed then h_MaxFrameQuanta h else s_FrameQuanta s"
  have par: "q1 = q0" if "parityQuanta q0 ?len ptLen = Inr q1" "q0 \<noteq> 0" for q0 q1
    using that by (simp add: parityQuanta_def case_sum_eq_Inr Let_def)
  obtain q1 minQ where st: "(if s_BlockType s = BlockParity then parityQuanta ?q0 ?len ptLen else Inr ?q0) = Inr q1"
    and m: "RequiredQuanta ?len ptLen ?par = Inr minQ"
    and q1: "q = (if q1 = 0 then minQ else q1)" "\<not> q < minQ" "\<not> q > h_MaxFrameQuanta h"
    using assms(1) unfolding chooseQuanta_def Let_def if_errf_eq_Inr case_sum_eq_Inr sum.inject by blast
  have q0: "?q0 \<noteq> 0 \<Longrightarrow> q1 = ?q0"
    using st par[of ?q0 q1] by (cases "s_BlockType s = BlockParity") simp_all
  note R = RequiredQuanta_least[OF small m]
  have ge: "unat minQ \<le> unat q" using q1(2) by (simp add: word_less_nat_alt)
  then show b: "116 + length (s_Payload s) + unat ptLen + (if ?par then 112 else 0) \<le> unat q * 4096"
    using R(1) n by linarith
  then show pos: "0 < unat q" by linarith
  show le: "q \<le> h_MaxFrameQuanta h" using q1(3) by simp
  show "q = h_MaxFrameQuanta h" if "h_Mode h = ModeFixed"
  proof -
    have "h_MaxFrameQuanta h \<noteq> 0" using le pos by (metis unat_0 word_le_0_iff less_numeral_extra(3))
    then show ?thesis using q1(1) q0 that by simp
  qed
qed

lemma prefix_bytes_props:
  assumes "0 < unat q" "unat q \<le> 2 ^ 20"
  shows "FramePrefix_AppendBinary \<lparr> p_FrameQuanta = q \<rparr> [] = Inr (prefix_bytes q)" "length (prefix_bytes q) = 16"
proof -
  have "\<not> (q = 0 \<or> q > MaxMaxFrameQuanta)" using assms by (auto simp: word_less_nat_alt)
  then show e: "FramePrefix_AppendBinary \<lparr> p_FrameQuanta = q \<rparr> [] = Inr (prefix_bytes q)"
    by (auto simp: prefix_bytes_def FramePrefix_AppendBinary_def Let_def)
  show "length (prefix_bytes q) = 16" using FramePrefix_AppendBinary_Inr[OF e] by auto
qed

lemma frameTrailer_Inr:
  assumes "frameTrailer H h s q = Inr t"
  shows "m_HashID t = h_HashID h" "m_CodecID t = s_Codec s" "m_BlockType t = s_BlockType s" "m_FrameQuanta t = q"
    "m_DataLen t = word_of_nat (length (s_Payload s))" "m_GroupID t = s_GroupID s"
    "Hash H (h_HashID h) (s_Payload s) = Inr (m_HashPayload t)"
    "s_BlockType s = BlockData \<Longrightarrow> m_LogicalOffset t = e_Offset (hd (s_Entries s)) \<and>
       m_LogicalLength t = e_Length (hd (s_Entries s)) \<and>
       ObjectID H (h_HashID h) (e_Path (hd (s_Entries s))) (e_FileVer (hd (s_Entries s))) = Inr (m_ObjectID t)"
    "wf_hashes H \<Longrightarrow> length (m_ObjectID t) = 16 \<and> length (m_HashPayload t) = 32"
  using assms by (auto simp: frameTrailer_def Let_def case_sum_eq_Inr length_ObjectID length_Hash split: if_splits)

definition built :: "hashes \<Rightarrow> (bytes \<Rightarrow> bool) \<Rightarrow> ArchiveHeader \<Rightarrow> Spec \<Rightarrow> bytes \<Rightarrow> u32 \<Rightarrow> MasterTrailer \<Rightarrow> bool" where
  "built H isNormal h s body q t \<longleftrightarrow>
     \<not> Encrypted h \<and> checkEntriesForBuild h s = Inr () \<and> AppendEntries isNormal [] (s_Entries s) = Inr body \<and>
     chooseQuanta h s (word_of_nat (length body) + 4) = Inr q \<and>
     CheckFrameQuanta q h = Inr () \<and> frameTrailer H h s q = Inr t \<and>
     ValidateTrailer t h \<lparr> p_FrameQuanta = q \<rparr> = Inr () \<and> wf_trailer t \<and> length (s_Payload s) < 2 ^ 32 \<and>
     120 + length (s_Payload s) + length body +
       (if s_GroupID s \<noteq> 0 \<and> s_BlockType s \<noteq> BlockParity then 112 else 0) \<le> unat q * 4096"

lemma AppendFrame_Inr:
  assumes ok: "AppendFrame H isNormal stale dst h s = Inr out" and h: "wf_header h" and H: "wf_hashes H"
  shows "\<exists>body q t. built H isNormal h s body q t \<and> out = dst @ frame_image q (s_Payload s) body t"
proof -
  obtain out1 where e1: "\<not> Encrypted h" "checkEntriesForBuild h s = Inr ()"
    "AppendEntries isNormal dst (s_Entries s) = Inr out1"
    using ok by (auto simp: AppendFrame_def Let_def case_sum_eq_Inr split: if_splits)
  then obtain body where body: "AppendEntries isNormal [] (s_Entries s) = Inr body" "out1 = dst @ body"
    by (auto simp: AppendEntries_Inr)
  note B = AppendEntries_bound[OF body(1)]
  let ?pt = "word_of_nat (length body) + 4 :: u64"
  have pt: "unat ?pt = length body + 4" using B unat_of_nat_u64[of "length body + 4"] by simp
  obtain q t lay pb tb where c: "chooseQuanta h s ?pt = Inr q" "length (s_Payload s) \<le> 0xFFFFFFFF"
    "frameTrailer H h s q = Inr t" "ValidateTrailer t h \<lparr> p_FrameQuanta = q \<rparr> = Inr ()"
    "ComputeLayout q (word_of_nat (length (s_Payload s))) ?pt = Inr lay"
    "FramePrefix_AppendBinary \<lparr> p_FrameQuanta = q \<rparr> [] = Inr pb" "MasterTrailer_AppendBinary t [] = Inr tb"
    and out: "out = dst @ frameWrites lay pb (s_Payload s) tb (length body) ?pt
       (take (unat (l_FrameSize lay)) body @ map stale [length dst + length body..<length dst + unat (l_FrameSize lay)])"
    using ok e1 body
    by (auto simp: AppendFrame_def Let_def case_sum_eq_Inr case_sum_errf_eq_Inr not_less split: if_splits)
  have pl: "length (s_Payload s) < 2 ^ 32" using c(2) by simp
  note Q = chooseQuanta_Inr[OF c(1) pl, unfolded pt]
  have q: "0 < unat q" "unat q \<le> 2 ^ 20"
    using Q(1,2) B wf_header_bounds(2)[OF h] by (simp_all add: word_le_nat_alt)
  have wf: "wf_trailer t"
    using c(7) frameTrailer_Inr(9)[OF c(3) H] by (auto simp: wf_trailer_def MasterTrailer_AppendBinary_def split: if_splits)
  have tb: "tb = MasterTrailer_image t" using c(7) by (auto simp: MasterTrailer_AppendBinary_def split: if_splits)
  have pb: "pb = prefix_bytes q" "length (prefix_bytes q) = 16" using prefix_bytes_props[OF q] c(6) by simp_all
  have fits: "120 + length (s_Payload s) + length body +
       (if s_GroupID s \<noteq> 0 \<and> s_BlockType s \<noteq> BlockParity then 112 else 0) \<le> unat q * 4096"
    using Q(4) B by simp
  have fs: "unat (l_FrameSize lay) = unat q * 4096" using ComputeLayout_partition(1)[OF c(5)] .
  have "frameWrites lay pb (s_Payload s) tb (length body) ?pt
      (take (unat (l_FrameSize lay)) body @ map stale [length dst + length body..<length dst + unat (l_FrameSize lay)])
     = frame_image q (s_Payload s) body t"
    unfolding pb(1) tb using fits fs pl pt q(2)
    by (intro frameWrites_image[OF c(5)]) (simp_all add: unat_of_nat_u64 pb(2) wf)
  then have "out = dst @ frame_image q (s_Payload s) body t" unfolding out by simp
  moreover have "CheckFrameQuanta q h = Inr ()"
    using Q(1-3) B by (simp add: CheckFrameQuanta_Inr word_le_nat_alt)
  ultimately show ?thesis using e1 body(1) c(1,3,4) wf pl fits unfolding built_def by blast
qed

text \<open>The frame as a value: the same checks, and the canonical image in place of the buffer writes.\<close>

definition frame_spec :: "hashes \<Rightarrow> (bytes \<Rightarrow> bool) \<Rightarrow> ArchiveHeader \<Rightarrow> Spec \<Rightarrow> bytes result" where
  "frame_spec H isNormal h s =
    (if Encrypted h then errf ErrInvalid ''Frame'' ''''
     else case checkEntriesForBuild h s of Inl e \<Rightarrow> Inl e | Inr _ \<Rightarrow>
     (case AppendEntries isNormal [] (s_Entries s) of Inl e \<Rightarrow> Inl e | Inr body \<Rightarrow>
      (case chooseQuanta h s (word_of_nat (length body) + 4) of Inl e \<Rightarrow> Inl e | Inr q \<Rightarrow>
       if length (s_Payload s) > 0xFFFFFFFF then errf ErrInvalid ''Frame'' ''data_len''
       else case frameTrailer H h s q of Inl e \<Rightarrow> Inl e | Inr t \<Rightarrow>
       (case ValidateTrailer t h \<lparr> p_FrameQuanta = q \<rparr> of Inl e \<Rightarrow> Inl e | Inr _ \<Rightarrow>
        (case MasterTrailer_AppendBinary t [] of Inl _ \<Rightarrow> errf ErrInvalid ''Frame'' ''''
         | Inr _ \<Rightarrow> Inr (frame_image q (s_Payload s) body t))))))"

lemma chosen_fits:
  assumes "AppendEntries isNormal [] es = Inr body" "chooseQuanta h s (word_of_nat (length body) + 4) = Inr q"
    "length (s_Payload s) \<le> 0xFFFFFFFF" "wf_header h"
  shows "0 < unat q" "unat q \<le> 2 ^ 20"
    "\<not> isl (ComputeLayout q (word_of_nat (length (s_Payload s))) (word_of_nat (length body) + 4))"
proof -
  note B = AppendEntries_bound[OF assms(1)]
  have pt: "unat (word_of_nat (length body) + 4 :: u64) = length body + 4"
    using B unat_of_nat_u64[of "length body + 4"] by simp
  have pl: "length (s_Payload s) < 2 ^ 32" using assms(3) by simp
  note Q = chooseQuanta_Inr[OF assms(2) pl, unfolded pt]
  show "0 < unat q" "unat q \<le> 2 ^ 20"
    using Q(1,2) B wf_header_bounds(2)[OF assms(4)] by (simp_all add: word_le_nat_alt)
  have "\<exists>lay. ComputeLayout q (word_of_nat (length (s_Payload s))) (word_of_nat (length body) + 4) = Inr lay"
    unfolding ComputeLayout_ok_iff pt using Q(4) B pl by (simp add: unat_of_nat_u64)
  then show "\<not> isl (ComputeLayout q (word_of_nat (length (s_Payload s))) (word_of_nat (length body) + 4))" by auto
qed

lemma AppendFrame_spec:
  assumes h: "wf_header h" and H: "wf_hashes H"
  shows "AppendFrame H isNormal stale dst h s =
    (case frame_spec H isNormal h s of Inl e \<Rightarrow> Inl e | Inr f \<Rightarrow> Inr (dst @ f))"
proof (cases "AppendFrame H isNormal stale dst h s")
  case (Inr out)
  then obtain body q t where b: "built H isNormal h s body q t" and o: "out = dst @ frame_image q (s_Payload s) body t"
    using AppendFrame_Inr[OF Inr h H] by blast
  have "MasterTrailer_AppendBinary t [] = Inr (MasterTrailer_image t)"
    using b by (simp add: built_def wf_trailer_def MasterTrailer_AppendBinary_def)
  then show ?thesis using b Inr o by (simp add: built_def frame_spec_def)
next
  case (Inl e)
  show ?thesis
  proof (cases "frame_spec H isNormal h s")
    case (Inr f)
    then obtain body q t tb where f: "\<not> Encrypted h" "checkEntriesForBuild h s = Inr ()"
      "AppendEntries isNormal [] (s_Entries s) = Inr body" "chooseQuanta h s (word_of_nat (length body) + 4) = Inr q"
      "length (s_Payload s) \<le> 0xFFFFFFFF" "frameTrailer H h s q = Inr t"
      "ValidateTrailer t h \<lparr> p_FrameQuanta = q \<rparr> = Inr ()" "MasterTrailer_AppendBinary t [] = Inr tb"
      by (auto simp: frame_spec_def case_sum_eq_Inr case_sum_errf_eq_Inr not_less split: if_splits)
    note q = chosen_fits(1,2)[OF f(3,4,5) h]
    obtain lay where "ComputeLayout q (word_of_nat (length (s_Payload s))) (word_of_nat (length body) + 4) = Inr lay"
      using chosen_fits(3)[OF f(3,4,5) h] by (cases "ComputeLayout q (word_of_nat (length (s_Payload s))) (word_of_nat (length body) + 4)") auto
    then have "\<not> isl (AppendFrame H isNormal stale dst h s)"
      using f prefix_bytes_props(1)[OF q] AppendEntries_dst[of isNormal dst "s_Entries s"]
      by (auto simp: AppendFrame_def Let_def not_less)
    then show ?thesis using Inl by simp
  next
    case (Inl e')
    then show ?thesis
      using \<open>AppendFrame H isNormal stale dst h s = Inl e\<close> AppendEntries_dst[of isNormal dst "s_Entries s"]
      by (auto simp: AppendFrame_def frame_spec_def Let_def errf_def not_less split: sum.splits if_splits
          dest: chosen_fits(3)[OF _ _ _ h])
  qed
qed

section \<open>Parse returns what was built\<close>

lemma frame_image_parts:
  assumes q: "0 < unat q" "unat q \<le> 2 ^ 20" and wf: "wf_trailer t"
    and fits: "120 + length payload + length body \<le> unat q * 4096"
  shows "length (frame_image q payload body t) = unat q * 4096"
    "seg (frame_image q payload body t) 16 (16 + length payload) = payload"
    "seg (frame_image q payload body t) (16 + length payload) (unat q * 4096 - 104 - length body) =
       replicate (unat q * 4096 - (120 + length payload + length body)) 0"
  unfolding frame_image_def seg_def using prefix_bytes_props(2)[OF q] wf fits by simp_all

lemma frame_image_tail:
  assumes q: "0 < unat q" "unat q \<le> 2 ^ 20" and wf: "wf_trailer t" and body: "4 \<le> length body"
    and fits: "120 + length payload + length body \<le> unat q * 4096" and d: "unat (m_DataLen t) = length payload"
  shows "DecodeFrameTail (frame_image q payload body t) =
    Inr \<lparr> t_Body = body @ le32 (OuterCRC body (word_of_nat (length body + 4)) (MasterTrailer_image t)), t_Trailer = t \<rparr>"
proof -
  let ?pre = "prefix_bytes q @ payload @ replicate (unat q * 4096 - (120 + length payload + length body)) 0"
  let ?n = "word_of_nat (unat q * 4096) :: u64"
  have n: "unat ?n = unat q * 4096" using q(2) by (intro unat_of_nat_u64) simp
  have pl: "length (prefix_bytes q) = 16" using prefix_bytes_props(2)[OF q] .
  have "DecodeTail (?pre @ body @ le32 (OuterCRC body (word_of_nat (length body + 4)) (MasterTrailer_image t)) @
        le32 (word_of_nat (length body + 4)) @ MasterTrailer_image t) ?n =
      Inr \<lparr> t_Body = body @ le32 (OuterCRC body (word_of_nat (length body + 4)) (MasterTrailer_image t)), t_Trailer = t \<rparr>"
    using q fits pl d by (intro DecodeTail_assembled[OF wf n _ body]) (simp_all add: n)
  then show ?thesis
    using frame_image_parts(1)[OF q wf fits]
    unfolding DecodeFrameTail_def by (simp add: frame_image_def tail_bytes_def Let_def)
qed

definition parsed :: "u32 \<Rightarrow> bytes \<Rightarrow> bytes \<Rightarrow> MasterTrailer \<Rightarrow> Entry list option \<Rightarrow> u64 \<Rightarrow> Frame" where
  "parsed q payload body t es n = \<lparr> f_Prefix = \<lparr> p_FrameQuanta = q \<rparr>, f_Trailer = t, f_Payload = payload, f_Entries = es,
     f_PreTrailer = body @ le32 (OuterCRC body (word_of_nat (length body + 4)) (MasterTrailer_image t)), f_PackedLength = n \<rparr>"

lemma Parse_image:
  assumes h: "wf_header h" "\<not> Encrypted h" and q: "CheckFrameQuanta q h = Inr ()" and wf: "wf_trailer t"
    and v: "ValidateTrailer t h \<lparr> p_FrameQuanta = q \<rparr> = Inr ()" and body: "4 \<le> length body"
    and fits: "120 + length payload + length body \<le> unat q * 4096" and d: "unat (m_DataLen t) = length payload"
    and hash: "Hash H (h_HashID h) payload = Inr (m_HashPayload t)"
    and par: "m_BlockType t = BlockParity \<Longrightarrow> length body = 4 \<and> unat q * 4096 = 124 + length payload"
    and es: "DecodeEntries isNormal body = Inr es" "checkEntriesParsed H h t es = Inr n"
  shows "Parse H isNormal (frame_image q payload body t) h = Inr (parsed q payload body t (Some es) n)"
proof -
  let ?f = "frame_image q payload body t"
  let ?pt = "body @ le32 (OuterCRC body (word_of_nat (length body + 4)) (MasterTrailer_image t))"
  have q': "0 < unat q" "unat q \<le> 2 ^ 20"
    using q wf_header_bounds(2)[OF h(1)] by (simp_all add: CheckFrameQuanta_Inr)
  have "DecodeFramePrefix ?f h = Inr \<lparr> p_FrameQuanta = q \<rparr>"
    using FramePrefix_round_trip[OF q h(1)] prefix_bytes_props(1)[OF q'] unfolding frame_image_def by auto
  moreover note P = frame_image_parts[OF q' wf fits] and T = frame_image_tail[OF q' wf body fits d]
  moreover have "word_of_nat (unat q * 4096) = FrameSize q"
    using q'(2) by (simp add: word_unat_eq_iff unat_of_nat_u64)
  moreover obtain lay where lay: "ComputeLayout q (ucast (m_DataLen t)) (word_of_nat (length body + 4)) = Inr lay"
  proof -
    have "unat (word_of_nat (length body + 4) :: u64) = length body + 4"
      using fits q'(2) by (intro unat_of_nat_u64) simp
    then have "\<exists>L. ComputeLayout q (ucast (m_DataLen t)) (word_of_nat (length body + 4)) = Inr L"
      unfolding ComputeLayout_ok_iff using fits d by (simp del: of_nat_add)
    then show ?thesis using that by blast
  qed
  moreover have "unat (word_of_nat (length body + 4) :: u64) = length body + 4"
    using fits q'(2) by (intro unat_of_nat_u64) simp
  moreover from this have "unat (l_PayloadStart lay) = 16" "unat (l_PayloadEnd lay) = 16 + length payload"
      "unat (l_PreTrailerStart lay) = unat q * 4096 - 104 - length body"
      "m_BlockType t = BlockParity \<Longrightarrow> l_PaddingLen lay = 0"
    using ComputeLayout_partition[OF lay] d fits par by (simp_all add: word_unat_eq_iff del: of_nat_add)
  ultimately show ?thesis
    using h(2) v hash par es
    by (simp add: Parse_def Let_def parsed_def del: of_nat_add allZero_iff) (simp add: allZero_def list_all_iff)
qed

definition packed_store_ok :: "ArchiveHeader \<Rightarrow> Spec \<Rightarrow> bool" where
  "packed_store_ok h s \<longleftrightarrow>
    (s_BlockType s = BlockPacked \<and> s_Codec s = CodecStore \<longrightarrow>
       checkPacked (s_Entries s) (MaxFrameSize h) = Inr (word_of_nat (length (s_Payload s))))"

lemma built_entries_parsed:
  assumes b: "built H isNormal h s body q t" and p: "packed_store_ok h s"
  shows "\<exists>n. checkEntriesParsed H h t (s_Entries s) = Inr n"
proof -
  have c: "checkEntriesForBuild h s = Inr ()" and t: "frameTrailer H h s q = Inr t" and l: "length (s_Payload s) < 2 ^ 32"
    using b by (simp_all add: built_def)
  note T = frameTrailer_Inr[OF t]
  have "ucast (word_of_nat (length (s_Payload s)) :: u32) = (word_of_nat (length (s_Payload s)) :: u64)"
    using l by (simp add: word_unat_eq_iff unat_of_nat_u32 unat_of_nat_u64)
  then show ?thesis
    using c p T(1-5,8) unfolding checkEntriesParsed_def checkEntriesForBuild_def packed_store_ok_def
    by (auto simp: Let_def case_sum_eq_Inr split: if_splits sum.splits)
qed

lemma built_parity:
  assumes b: "built H isNormal h s body q t" and h: "wf_header h" and p: "m_BlockType t = BlockParity"
  shows "length body = 4 \<and> unat q * 4096 = 124 + length (s_Payload s)"
proof -
  have t: "frameTrailer H h s q = Inr t" and l: "length (s_Payload s) < 2 ^ 32"
    and v: "ValidateTrailer t h \<lparr> p_FrameQuanta = q \<rparr> = Inr ()" and c: "checkEntriesForBuild h s = Inr ()"
    and e: "AppendEntries isNormal [] (s_Entries s) = Inr body"
    and f: "120 + length (s_Payload s) + length body \<le> unat q * 4096"
    using b by (auto simp: built_def split: if_splits)
  note T = frameTrailer_Inr[OF t]
  have "s_Entries s = []" using c p T(3) by (simp add: checkEntriesForBuild_def)
  then have body: "length body = 4" using e by (simp add: AppendEntries_Inr)
  have "ucast (m_DataLen t) = (ucast q * 4096 - 124 :: u64)"
    using v p by (auto simp: ValidateTrailer_def Let_def case_sum_eq_Inr split: if_splits)
  moreover have "unat (ucast q * 4096 - 124 :: u64) = unat q * 4096 - 124"
    using f body by (subst unat_sub_u64) simp_all
  moreover have "unat (ucast (m_DataLen t) :: u64) = length (s_Payload s)" using T(5) l by (simp add: unat_of_nat_u32)
  ultimately show ?thesis using f body by simp
qed

lemma Parse_built:
  assumes h: "wf_header h" and b: "built H isNormal h s body q t" and p: "packed_store_ok h s"
  shows "\<exists>n. Parse H isNormal (frame_image q (s_Payload s) body t) h =
    Inr (parsed q (s_Payload s) body t (Some (s_Entries s)) n)"
proof -
  obtain n where n: "checkEntriesParsed H h t (s_Entries s) = Inr n" using built_entries_parsed[OF b p] by blast
  have t: "frameTrailer H h s q = Inr t" and l: "length (s_Payload s) < 2 ^ 32"
    and e: "AppendEntries isNormal [] (s_Entries s) = Inr body"
    and f: "120 + length (s_Payload s) + length body \<le> unat q * 4096"
    using b by (auto simp: built_def split: if_splits)
  note T = frameTrailer_Inr[OF t] and B = AppendEntries_bound[OF e]
  have "DecodeEntries isNormal body = Inr (s_Entries s)" using B by (intro DecodeEntries_encoded[OF e]) simp
  moreover have "unat (m_DataLen t) = length (s_Payload s)" using T(5) l by (simp add: unat_of_nat_u32)
  ultimately have "Parse H isNormal (frame_image q (s_Payload s) body t) h =
      Inr (parsed q (s_Payload s) body t (Some (s_Entries s)) n)"
    using b B(1) f T(7) built_parity[OF b h] n by (intro Parse_image[OF h]) (auto simp: built_def)
  then show ?thesis ..
qed

lemma Parse_of_AppendFrame:
  assumes "wf_header h" "wf_hashes H" "packed_store_ok h s" "AppendFrame H isNormal stale [] h s = Inr frame"
  shows "\<exists>f. Parse H isNormal frame h = Inr f \<and> f_Payload f = s_Payload s \<and> f_Entries f = Some (s_Entries s) \<and>
    m_BlockType (f_Trailer f) = s_BlockType s \<and> m_CodecID (f_Trailer f) = s_Codec s \<and>
    frameTrailer H h s (p_FrameQuanta (f_Prefix f)) = Inr (f_Trailer f) \<and> length frame = unat (p_FrameQuanta (f_Prefix f)) * 4096"
proof -
  obtain body q t where b: "built H isNormal h s body q t" and fr: "frame = frame_image q (s_Payload s) body t"
    using AppendFrame_Inr[of H isNormal stale "[]" h s frame] assms by auto
  obtain n where P: "Parse H isNormal frame h = Inr (parsed q (s_Payload s) body t (Some (s_Entries s)) n)"
    using Parse_built[OF assms(1) b assms(3)] unfolding fr by blast
  have ft: "frameTrailer H h s q = Inr t" using b by (simp add: built_def)
  have "0 < unat q" "unat q \<le> 2 ^ 20" "wf_trailer t" "120 + length (s_Payload s) + length body \<le> unat q * 4096"
    using b wf_header_bounds(2)[OF assms(1)] by (auto simp: built_def CheckFrameQuanta_Inr split: if_splits)
  then have "length frame = unat q * 4096" unfolding fr by (rule frame_image_parts(1))
  then show ?thesis using P ft frameTrailer_Inr(2,3)[OF ft] by (intro exI[of _ "parsed q (s_Payload s) body t (Some (s_Entries s)) n"]) (simp add: parsed_def)
qed

section \<open>A parsed frame is the image of its parts\<close>

lemma Parse_facts:
  assumes "Parse H isNormal frame h = Inr f"
  obtains lay where "DecodeFramePrefix frame h = Inr (f_Prefix f)"
    "word_of_nat (length frame) = FrameSize (p_FrameQuanta (f_Prefix f))"
    "DecodeFrameTail frame = Inr \<lparr> t_Body = f_PreTrailer f, t_Trailer = f_Trailer f \<rparr>"
    "ValidateTrailer (f_Trailer f) h (f_Prefix f) = Inr ()"
    "ComputeLayout (p_FrameQuanta (f_Prefix f)) (ucast (m_DataLen (f_Trailer f))) (word_of_nat (length (f_PreTrailer f))) = Inr lay"
    "f_Payload f = seg frame (unat (l_PayloadStart lay)) (unat (l_PayloadEnd lay))"
    "allZero (seg frame (unat (l_PayloadEnd lay)) (unat (l_PreTrailerStart lay)))"
    "Hash H (h_HashID h) (f_Payload f) = Inr (m_HashPayload (f_Trailer f))"
    "Encrypted h \<and> m_BlockType (f_Trailer f) \<noteq> BlockParity \<longleftrightarrow> f_Entries f = None"
    "\<forall>es. f_Entries f = Some es \<longrightarrow>
       DecodeEntries isNormal (take (length (f_PreTrailer f) - 4) (f_PreTrailer f)) = Inr es \<and>
       checkEntriesParsed H h (f_Trailer f) es = Inr (f_PackedLength f)"
proof -
  obtain p tail where p: "DecodeFramePrefix frame h = Inr p" "word_of_nat (length frame) = FrameSize (p_FrameQuanta p)"
    "DecodeFrameTail frame = Inr tail" "ValidateTrailer (t_Trailer tail) h p = Inr ()"
    using assms by (auto simp: Parse_def Let_def case_sum_eq_Inr)
  obtain lay where lay: "ComputeLayout (p_FrameQuanta p) (ucast (m_DataLen (t_Trailer tail))) (word_of_nat (length (t_Body tail))) = Inr lay"
    using assms by (simp only: Parse_def Let_def case_sum_eq_Inr p if_errf_eq_Inr sum.inject) auto
  have z: "allZero (seg frame (unat (l_PayloadEnd lay)) (unat (l_PreTrailerStart lay)))"
    and hash: "Hash H (h_HashID h) (seg frame (unat (l_PayloadStart lay)) (unat (l_PayloadEnd lay))) = Inr (m_HashPayload (t_Trailer tail))"
    using assms by (auto simp: Parse_def Let_def case_sum_eq_Inr p lay split: if_splits)
  let ?f = "\<lparr> f_Prefix = p, f_Trailer = t_Trailer tail,
      f_Payload = seg frame (unat (l_PayloadStart lay)) (unat (l_PayloadEnd lay)), f_Entries = None,
      f_PreTrailer = t_Body tail, f_PackedLength = 0 \<rparr>"
  have f: "if Encrypted h \<and> m_BlockType (t_Trailer tail) \<noteq> BlockParity then f = ?f
    else \<exists>es n. DecodeEntries isNormal (take (length (t_Body tail) - 4) (t_Body tail)) = Inr es \<and>
       checkEntriesParsed H h (t_Trailer tail) es = Inr n \<and> f = ?f\<lparr> f_Entries := Some es, f_PackedLength := n \<rparr>"
    using assms z hash by (auto simp: Parse_def Let_def case_sum_eq_Inr p lay split: if_splits)
  have parts: "f_Prefix f = p" "f_Trailer f = t_Trailer tail" "f_PreTrailer f = t_Body tail"
    "f_Payload f = seg frame (unat (l_PayloadStart lay)) (unat (l_PayloadEnd lay))"
    using f by (auto split: if_splits)
  have "Encrypted h \<and> m_BlockType (t_Trailer tail) \<noteq> BlockParity \<longleftrightarrow> f_Entries f = None"
    "\<forall>es. f_Entries f = Some es \<longrightarrow> DecodeEntries isNormal (take (length (t_Body tail) - 4) (t_Body tail)) = Inr es \<and>
       checkEntriesParsed H h (t_Trailer tail) es = Inr (f_PackedLength f)"
    using f by (cases "Encrypted h \<and> m_BlockType (t_Trailer tail) \<noteq> BlockParity"; force)+
  then show ?thesis using that[of lay, unfolded parts] p lay z hash by simp
qed

lemma FramePrefix_canonical:
  assumes "DecodeFramePrefix b h = Inr p" "wf_header h"
  shows "take 16 b = prefix_bytes (p_FrameQuanta p)"
proof -
  note D = DecodeFramePrefix_Inr[OF assms(1)]
  then have q: "0 < unat (p_FrameQuanta p)" "unat (p_FrameQuanta p) \<le> 2 ^ 20"
    using wf_header_bounds(2)[OF assms(2)] by (auto simp: CheckFrameQuanta_Inr)
  have "FramePrefix_AppendBinary p [] = Inr (prefix_bytes (p_FrameQuanta p))"
    using prefix_bytes_props(1)[OF q] by (cases p) simp
  from FramePrefix_AppendBinary_Inr[OF this]
  have P: "length (prefix_bytes (p_FrameQuanta p)) = 16" "seg (prefix_bytes (p_FrameQuanta p)) 0 4 = MagicFramePrefix"
    "seg (prefix_bytes (p_FrameQuanta p)) 4 8 = le32 (p_FrameQuanta p)"
    "seg (prefix_bytes (p_FrameQuanta p)) 8 12 = le32 (prefixCRC (prefix_bytes (p_FrameQuanta p)))"
    "seg (prefix_bytes (p_FrameQuanta p)) 12 16 = replicate 4 0" by auto
  have le: "seg b 4 8 = le32 (p_FrameQuanta p)" "seg b 8 12 = le32 (prefixCRC b)"
    using D le_of_le(2)[of "seg b 4 8"] le_of_le(2)[of "seg b 8 12"] by auto
  have crc: "prefixCRC b = prefixCRC (prefix_bytes (p_FrameQuanta p))"
    unfolding prefixCRC_def using D P le seg_split[of 0 4 8 b] seg_split[of 0 4 8 "prefix_bytes (p_FrameQuanta p)"] by simp
  have "same_ranges (take 16 b) (prefix_bytes (p_FrameQuanta p)) 0 [4, 8, 12, 16]"
    using D P le crc by (simp add: range_simps)
  then show ?thesis by (rule same_rangesI)
qed

lemma Parse_canonical:
  assumes ok: "Parse H isNormal frame h = Inr f" and h: "wf_header h" and len: "length frame < 2 ^ 64"
  defines "body \<equiv> take (length (f_PreTrailer f) - 4) (f_PreTrailer f)"
  shows "frame = frame_image (p_FrameQuanta (f_Prefix f)) (f_Payload f) body (f_Trailer f)"
    "length (f_Payload f) = unat (m_DataLen (f_Trailer f))" "wf_trailer (f_Trailer f)"
    "120 + length (f_Payload f) + length body \<le> unat (p_FrameQuanta (f_Prefix f)) * 4096" "4 \<le> length body"
    "length frame = unat (p_FrameQuanta (f_Prefix f)) * 4096" "length (f_PreTrailer f) = length body + 4"
    "CheckFrameQuanta (p_FrameQuanta (f_Prefix f)) h = Inr ()"
proof -
  let ?q = "p_FrameQuanta (f_Prefix f)" and ?t = "f_Trailer f" and ?B = "f_PreTrailer f"
  obtain lay where p: "DecodeFramePrefix frame h = Inr (f_Prefix f)" "word_of_nat (length frame) = FrameSize ?q"
    "DecodeFrameTail frame = Inr \<lparr> t_Body = ?B, t_Trailer = ?t \<rparr>"
    "ComputeLayout ?q (ucast (m_DataLen ?t)) (word_of_nat (length ?B)) = Inr lay"
    "f_Payload f = seg frame (unat (l_PayloadStart lay)) (unat (l_PayloadEnd lay))"
    "allZero (seg frame (unat (l_PayloadEnd lay)) (unat (l_PreTrailerStart lay)))"
    using Parse_facts[OF ok] by blast
  show cq: "CheckFrameQuanta ?q h = Inr ()" using DecodeFramePrefix_Inr[OF p(1)] by simp
  show tl: "length frame = unat ?q * 4096"
    using arg_cong[OF p(2), of unat] len by (simp add: unat_of_nat_u64)
  then have q: "unat ?q \<le> 2 ^ 20" "unat (word_of_nat (length frame) :: u64) = length frame"
    using cq wf_header_bounds(2)[OF h] len by (simp_all add: CheckFrameQuanta_Inr unat_of_nat_u64)
  obtain ptl where ok: "tail_ok frame (word_of_nat (length frame)) ptl \<lparr> t_Body = ?B, t_Trailer = ?t \<rparr>"
    using p(3) q DecodeTail_iff_ok[of frame "word_of_nat (length frame)"] unfolding DecodeFrameTail_def by auto
  then have pt: "8 \<le> ptl" "ptl + 100 \<le> length frame" "ptl < 2 ^ 32"
    "of_le32 (seg frame (length frame - 100) (length frame - 96)) = word_of_nat ptl"
    "?B = seg frame (length frame - 100 - ptl) (length frame - 100)"
    "crc32_Update 0 (seg frame (length frame - 100 - ptl) (length frame - 104) @ seg frame (length frame - 100) (length frame)) =
       of_le32 (seg frame (length frame - 104) (length frame - 100))"
    "DecodeMasterTrailer (seg frame (length frame - 96) (length frame)) = Inr ?t"
    by (simp_all add: tail_ok_def Let_def)
  have bl: "length ?B = ptl" using pt by simp
  show blen: "length ?B = length body + 4" "4 \<le> length body" using bl pt(1) by (simp_all add: body_def)
  have b: "body = seg frame (length frame - 100 - ptl) (length frame - 104)"
    unfolding body_def bl take_is_seg using pt(1,2,5) by (simp add: seg_seg)
  show "wf_trailer ?t" using DecodeMasterTrailer_Inr[OF pt(7)] by simp
  have img: "MasterTrailer_image ?t = seg frame (length frame - 96) (length frame)"
    using DecodeMasterTrailer_Inr[OF pt(7)] by simp
  have up: "unat (word_of_nat (length ?B) :: u64) = ptl" using pt(3) bl by (simp add: unat_of_nat_u64)
  note L = ComputeLayout_partition[OF p(4), unfolded up]
  have fit: "116 + unat (m_DataLen ?t) + ptl \<le> unat ?q * 4096"
    using ComputeLayout_ok_iff[of ?q "ucast (m_DataLen ?t)" "word_of_nat (length ?B)"] p(4) up by auto
  have le: "unat (l_PayloadEnd lay) = 16 + unat (m_DataLen ?t)" "unat (l_PreTrailerStart lay) = length frame - 100 - ptl"
    using L tl by simp_all
  show pl: "length (f_Payload f) = unat (m_DataLen ?t)" unfolding p(5) using L(2) le fit tl by simp
  show "120 + length (f_Payload f) + length body \<le> unat ?q * 4096" using fit pl blen bl by simp
  let ?pad = "unat ?q * 4096 - (120 + length (f_Payload f) + length body)"
  have pad: "seg frame (16 + length (f_Payload f)) (length frame - 100 - ptl) = replicate ?pad 0"
    using p(6) le L tl pl blen bl fit by (simp add: )
  have ptlb: "seg frame (length frame - 100) (length frame - 96) = le32 (word_of_nat (length body + 4))"
    using pt(2,4) blen bl le_of_le(2)[of "seg frame (length frame - 100) (length frame - 96)"] by simp
  have "seg frame (length frame - 100) (length frame) = le32 (word_of_nat (length body + 4)) @ MasterTrailer_image ?t"
    using seg_split[of "length frame - 100" "length frame - 96" "length frame" frame] unfolding ptlb img by simp
  then have "OuterCRC body (word_of_nat (length body + 4)) (MasterTrailer_image ?t) =
      of_le32 (seg frame (length frame - 104) (length frame - 100))"
    using pt(6) unfolding OuterCRC_concat b[symmetric] by simp
  then have crc: "le32 (OuterCRC body (word_of_nat (length body + 4)) (MasterTrailer_image ?t)) =
      seg frame (length frame - 104) (length frame - 100)" using pt(1,2) by simp
  have tail: "tail_bytes body ?t = body @ seg frame (length frame - 104) (length frame - 100) @
      seg frame (length frame - 100) (length frame - 96) @ seg frame (length frame - 96) (length frame)"
    unfolding tail_bytes_def Let_def crc unfolding ptlb img ..
  have "frame = take 16 frame @ drop 16 frame" by simp
  also have "drop 16 frame = f_Payload f @ drop (16 + length (f_Payload f)) frame"
    using drop_seg_drop[of 16 "16 + length (f_Payload f)" frame] p(5) L(2) le pl by simp
  also have "drop (16 + length (f_Payload f)) frame = replicate ?pad 0 @ drop (length frame - 100 - ptl) frame"
    using drop_seg_drop[of "16 + length (f_Payload f)" "length frame - 100 - ptl" frame] pad tl fit pl by simp
  also have "drop (length frame - 100 - ptl) frame = tail_bytes body ?t"
    unfolding tail unfolding b using pt(1,2) drop_seg_drop[of "length frame - 100 - ptl" "length frame - 104" frame]
      drop_seg_drop[of "length frame - 104" "length frame - 100" frame]
      drop_seg_drop[of "length frame - 100" "length frame - 96" frame]
      drop_seg_drop[of "length frame - 96" "length frame" frame] by simp
  finally show "frame = frame_image ?q (f_Payload f) body ?t"
    unfolding frame_image_def using FramePrefix_canonical[OF p(1) h] by simp
qed

section \<open>Which changes of a byte Parse refuses\<close>

lemma Parse_suffix:
  assumes ok: "Parse H isNormal frame h = Inr f" and h: "wf_header h" and len: "length frame < 2 ^ 64"
  shows "drop (length frame - 100) frame = le32 (word_of_nat (length (f_PreTrailer f))) @ MasterTrailer_image (f_Trailer f)"
    "length (f_PreTrailer f) < 2 ^ 32"
proof -
  note C = Parse_canonical[OF ok h len]
  let ?q = "p_FrameQuanta (f_Prefix f)"
  let ?body = "take (length (f_PreTrailer f) - 4) (f_PreTrailer f)"
  have q: "0 < unat ?q" "unat ?q \<le> 2 ^ 20"
    using C(8) wf_header_bounds(2)[OF h] by (simp_all add: CheckFrameQuanta_Inr)
  have "unat ?q * 4096 \<le> 2 ^ 32" using q(2) by simp
  then show "length (f_PreTrailer f) < 2 ^ 32" using C(4,7) by linarith
  let ?front = "prefix_bytes ?q @ f_Payload f @ replicate (unat ?q * 4096 - (120 + length (f_Payload f) + length ?body)) 0 @
    ?body @ le32 (OuterCRC ?body (word_of_nat (length ?body + 4)) (MasterTrailer_image (f_Trailer f)))"
  have f: "frame = ?front @ le32 (word_of_nat (length ?body + 4)) @ MasterTrailer_image (f_Trailer f)"
    using C(1) by (simp add: frame_image_def tail_bytes_def Let_def)
  have "length frame = length ?front + 100" by (subst f) (simp add: C(3))
  then have "length frame - 100 = length ?front" by simp
  then have "drop (length frame - 100) frame = le32 (word_of_nat (length ?body + 4)) @ MasterTrailer_image (f_Trailer f)"
    using f append_eq_conv_conj by metis
  then show "drop (length frame - 100) frame = le32 (word_of_nat (length (f_PreTrailer f))) @ MasterTrailer_image (f_Trailer f)"
    using C(7) by simp
qed

lemma Parse_same_suffix:
  assumes ok: "Parse H isNormal frame h = Inr f" "Parse H isNormal frame' h = Inr f'" and h: "wf_header h"
    and len: "length frame < 2 ^ 64" "length frame' = length frame"
    and eq: "drop (length frame - 100) frame' = drop (length frame - 100) frame"
  shows "f_Trailer f' = f_Trailer f" "length (f_PreTrailer f') = length (f_PreTrailer f)" "f_Prefix f' = f_Prefix f"
proof -
  note S = Parse_suffix[OF ok(1) h len(1)] and C = Parse_canonical[OF ok(1) h len(1)]
  have len': "length frame' < 2 ^ 64" using len by simp
  note S' = Parse_suffix[OF ok(2) h len'] and C' = Parse_canonical[OF ok(2) h len']
  have "le32 (word_of_nat (length (f_PreTrailer f'))) = le32 (word_of_nat (length (f_PreTrailer f))) \<and>
      MasterTrailer_image (f_Trailer f') = MasterTrailer_image (f_Trailer f)"
    using S(1) S'(1) eq len(2) by simp
  then show "f_Trailer f' = f_Trailer f" "length (f_PreTrailer f') = length (f_PreTrailer f)"
    using DecodeMasterTrailer_image[OF C(3)] DecodeMasterTrailer_image[OF C'(3)] S(2) S'(2)
    by (simp, metis le_inject(2) unat_of_nat_u32)
  have "p_FrameQuanta (f_Prefix f') = p_FrameQuanta (f_Prefix f)" using C(6) C'(6) len(2) by (simp add: word_unat_eq_iff)
  then show "f_Prefix f' = f_Prefix f" by simp
qed

lemma Parse_regions:
  assumes ok: "Parse H isNormal frame h = Inr f" and h: "wf_header h" and len: "length frame < 2 ^ 64"
  shows "seg frame 16 (16 + length (f_Payload f)) = f_Payload f"
    "allZero (seg frame (16 + length (f_Payload f)) (length frame - 100 - length (f_PreTrailer f)))"
proof -
  note C = Parse_canonical[OF ok h len]
  have q: "0 < unat (p_FrameQuanta (f_Prefix f))" "unat (p_FrameQuanta (f_Prefix f)) \<le> 2 ^ 20"
    using C(8) wf_header_bounds(2)[OF h] by (simp_all add: CheckFrameQuanta_Inr)
  note P = frame_image_parts[OF q C(3,4), folded C(1)]
  show "seg frame 16 (16 + length (f_Payload f)) = f_Payload f" using P(2) .
  have "unat (p_FrameQuanta (f_Prefix f)) * 4096 - 104 - length (take (length (f_PreTrailer f) - 4) (f_PreTrailer f)) =
      length frame - 100 - length (f_PreTrailer f)" using C(6,7) by simp
  then show "allZero (seg frame (16 + length (f_Payload f)) (length frame - 100 - length (f_PreTrailer f)))"
    using P(3) by (simp add: allZero_def list_all_iff)
qed

lemma Parse_byte_change:
  assumes ok: "Parse H isNormal frame h = Inr f" and h: "wf_header h" and len: "length frame < 2 ^ 64"
    and i: "i < length frame" "y \<noteq> frame ! i" "\<not> (length frame - 100 \<le> i \<and> i < length frame - 96)"
    and ok': "Parse H isNormal (frame[i := y]) h = Inr f'"
  shows "16 \<le> i \<and> i < 16 + length (f_Payload f) \<and>
    Hash H (h_HashID h) ((f_Payload f)[i - 16 := y]) = Hash H (h_HashID h) (f_Payload f)"
proof -
  let ?n = "length frame" and ?frame' = "frame[i := y]"
  note C = Parse_canonical[OF ok h len]
  have len': "length ?frame' < 2 ^ 64" using len by simp
  note C' = Parse_canonical[OF ok' h len']
  obtain lay where p: "DecodeFramePrefix frame h = Inr (f_Prefix f)"
    "DecodeFrameTail frame = Inr \<lparr> t_Body = f_PreTrailer f, t_Trailer = f_Trailer f \<rparr>"
    "Hash H (h_HashID h) (f_Payload f) = Inr (m_HashPayload (f_Trailer f))"
    using Parse_facts[OF ok] by blast
  obtain lay' where p': "DecodeFramePrefix ?frame' h = Inr (f_Prefix f')"
    "DecodeFrameTail ?frame' = Inr \<lparr> t_Body = f_PreTrailer f', t_Trailer = f_Trailer f' \<rparr>"
    "Hash H (h_HashID h) (f_Payload f') = Inr (m_HashPayload (f_Trailer f'))"
    using Parse_facts[OF ok'] by blast
  have "p_FrameQuanta (f_Prefix f') = p_FrameQuanta (f_Prefix f)" using C(6) C'(6) by (simp add: word_unat_eq_iff)
  then have "take 16 ?frame' = take 16 frame"
    using FramePrefix_canonical[OF p(1) h] FramePrefix_canonical[OF p'(1) h] by simp
  then have lo: "16 \<le> i" using i(1,2) by (metis not_le nth_list_update_eq nth_take)
  have tail: "i < ?n - 100 - length (f_PreTrailer f)"
  proof (rule ccontr)
    assume "\<not> i < ?n - 100 - length (f_PreTrailer f)"
    then have "isl (DecodeTail ?frame' (word_of_nat ?n))"
      using p(2) i len unfolding DecodeFrameTail_def
      by (intro DecodeTail_byte_change[of frame _ "\<lparr> t_Body = f_PreTrailer f, t_Trailer = f_Trailer f \<rparr>"])
        (simp_all add: unat_of_nat_u64)
    then show False using p'(2) unfolding DecodeFrameTail_def by simp
  qed
  then have "drop (?n - 100) ?frame' = drop (?n - 100) frame" by simp
  note S = Parse_same_suffix[OF ok ok' h len _ this]
  have pl: "length (f_Payload f') = length (f_Payload f)" using C(2) C'(2) S by simp
  let ?m = "length (f_Payload f)" and ?e = "?n - 100 - length (f_PreTrailer f)"
  have parts: "seg frame 16 (16 + ?m) = f_Payload f" "allZero (seg frame (16 + ?m) ?e)"
    using Parse_regions[OF ok h len] by simp_all
  have parts': "seg ?frame' 16 (16 + ?m) = f_Payload f'" "allZero (seg ?frame' (16 + ?m) ?e)"
    using Parse_regions[OF ok' h len'] pl S(2) by simp_all
  show ?thesis
  proof (cases "i < 16 + ?m")
    case True
    then have "f_Payload f' = (f_Payload f)[i - 16 := y]" using parts(1) parts'(1) lo by (simp add: seg_list_update)
    then show ?thesis using True lo p(3) p'(3) S(1) by simp
  next
    case False
    then have "seg frame (16 + ?m) ?e ! (i - (16 + ?m)) = frame ! i" "seg ?frame' (16 + ?m) ?e ! (i - (16 + ?m)) = ?frame' ! i"
      "i - (16 + ?m) < length (seg frame (16 + ?m) ?e)" "i - (16 + ?m) < length (seg ?frame' (16 + ?m) ?e)"
      using tail by (simp_all add: nth_seg)
    then have "frame ! i = 0" "?frame' ! i = 0"
      using parts(2) parts'(2) unfolding allZero_def list_all_length by metis+
    then show ?thesis using i(1,2) by simp
  qed
qed


section \<open>Properties\<close>

text \<open>The number of quanta chosen for a frame is the least one whose bytes hold prefix, payload, pre-trailer, trailer and
  (for a grouped frame) the reserve of the recovery shard; it is refused exactly when it would pass \<open>2 ^ 20\<close>.\<close>

lemma RequiredQuanta_is_least:
  assumes "need d p par + 4096 \<le> 2 ^ 64"
  shows "(RequiredQuanta d p par = Inr q \<longrightarrow> need d p par \<le> unat q * 4096 \<and> (\<forall>k. need d p par \<le> k * 4096 \<longrightarrow> unat q \<le> k)) \<and>
    (isl (RequiredQuanta d p par) \<longleftrightarrow> 2 ^ 20 * 4096 < need d p par)"
proof (intro conjI impI allI)
  show "need d p par \<le> unat q * 4096" if "RequiredQuanta d p par = Inr q"
    using RequiredQuanta_least(1)[OF assms that] .
  show "unat q \<le> k" if "RequiredQuanta d p par = Inr q" "need d p par \<le> k * 4096" for k
    using RequiredQuanta_least(2)[OF assms that] .
  have q: "RequiredQuanta d p par = Inr (word_of_nat ((need d p par + 4095) div 4096))" if "need d p par \<le> 2 ^ 20 * 4096"
    using RequiredQuanta_Inr[OF assms] that by (simp add: unat_of_nat)
  show "isl (RequiredQuanta d p par) \<longleftrightarrow> 2 ^ 20 * 4096 < need d p par"
  proof (cases "RequiredQuanta d p par")
    case (Inr x)
    then show ?thesis using RequiredQuanta_Inr[OF assms, of x] by auto
  qed (use q in \<open>auto simp: not_less[symmetric]\<close>)
qed

text \<open>C25: Building a frame in place, over whatever bytes the grown buffer held, gives the canonical image of the frame
  appended to the destination, and fails with the same error as the reference construction.\<close>

theorem AppendFrame_refines_spec:
  assumes "wf_header h" "wf_hashes H"
  shows "AppendFrame H isNormal stale dst h s = (case frame_spec H isNormal h s of Inl e \<Rightarrow> Inl e | Inr f \<Rightarrow> Inr (dst @ f))"
  using AppendFrame_spec[OF assms] .

definition sample_spec :: Spec where
  "sample_spec = \<lparr> s_BlockType = 0, s_Codec = 0, s_Payload = [1, 2, 3], s_Entries = [sample_entry], s_GroupID = 0,
     s_GroupIndex = 0, s_GroupK = 0, s_GroupM = 0, s_FrameOrdinal = 4, s_FrameQuanta = 0 \<rparr>"

lemma sample_entries_bytes:
  "AppendEntries isNormal [] [sample_entry] = Inr (le32 1 @ entry_bytes sample_entry)" "length (entry_bytes sample_entry) = 28"
  unfolding AppendEntries_Inr using canonical_sample_path
  by (simp_all add: ok_entry_def sample_entry_def entry_bytes_def AppendPathLen_small)

lemma sample_frame_spec:
  "\<exists>t. frame_spec sample_hashes isNormal sample_header sample_spec =
     Inr (frame_image 1 [1, 2, 3] (le32 1 @ entry_bytes sample_entry) t)"
proof -
  have q: "RequiredQuanta 3 36 False = Inr 1" by (subst RequiredQuanta_Inr) (simp_all add: need_def)
  have c: "chooseQuanta sample_header sample_spec 36 = Inr 1"
    using q by (simp add: chooseQuanta_def sample_header_def sample_spec_def Let_def)
  show ?thesis
    using sample_entries_bytes(1)[of isNormal] sample_entries_bytes(2) c
    by (simp add: frame_spec_def sample_spec_def checkEntriesForBuild_def)
      (auto simp: frameTrailer_def sample_header_def sample_hashes_def sample_spec_def sample_entry_def Hash_def ObjectID_def
        ValidateTrailer_def validateGroup_def validateBlock_def MasterTrailer_AppendBinary_def Let_def
        HashID_Valid_def CodecID_Valid_def BlockType_Valid_def Encrypted_def MaxFrameSize_def)
qed

theorem AppendFrame_refines_spec_witness:
  "\<exists>t. AppendFrame sample_hashes (\<lambda>_. True) (\<lambda>_. 7) [9] sample_header sample_spec =
     Inr ([9] @ frame_image 1 [1, 2, 3] (le32 1 @ entry_bytes sample_entry) t)"
  using AppendFrame_refines_spec[OF wf_sample_header wf_sample_hashes] sample_frame_spec[of "\<lambda>_. True"] by auto


text \<open>The one kind of built frame that \<open>Parse\<close> does not accept: packed, stored without compression, with a payload that does not
  have the packed length.\<close>

lemma Parse_of_Build_refused:
  assumes h: "wf_header h" and H: "wf_hashes H" and p: "\<not> packed_store_ok h s" and B: "Build H isNormal stale h s = Inr frame"
  shows "isl (Parse H isNormal frame h)"
proof (rule ccontr)
  assume "\<not> isl (Parse H isNormal frame h)"
  then obtain f where f: "Parse H isNormal frame h = Inr f" by (cases "Parse H isNormal frame h") auto
  obtain body q t where b: "built H isNormal h s body q t" and fr: "frame = frame_image q (s_Payload s) body t"
    using AppendFrame_Inr[OF B[unfolded Build_def] h H] by auto
  have t: "frameTrailer H h s q = Inr t" and l: "length (s_Payload s) < 2 ^ 32" and c: "checkEntriesForBuild h s = Inr ()"
    and e: "AppendEntries isNormal [] (s_Entries s) = Inr body" and enc: "\<not> Encrypted h"
    and x: "0 < unat q" "unat q \<le> 2 ^ 20" "wf_trailer t" "120 + length (s_Payload s) + length body \<le> unat q * 4096"
    using b wf_header_bounds(2)[OF h] by (auto simp: built_def CheckFrameQuanta_Inr split: if_splits)
  note T = frameTrailer_Inr[OF t] and A = AppendEntries_bound[OF e]
  have d: "unat (m_DataLen t) = length (s_Payload s)" using T(5) l by (simp add: unat_of_nat_u32)
  obtain es where es: "f_Entries f = Some es" "DecodeEntries isNormal (take (length (f_PreTrailer f) - 4) (f_PreTrailer f)) = Inr es"
    "checkEntriesParsed H h (f_Trailer f) es = Inr (f_PackedLength f)" "DecodeFrameTail frame = Inr \<lparr> t_Body = f_PreTrailer f, t_Trailer = f_Trailer f \<rparr>"
    using Parse_facts[OF f] enc by (metis option.exhaust)
  have tl: "f_Trailer f = t" "f_PreTrailer f = body @ le32 (OuterCRC body (word_of_nat (length body + 4)) (MasterTrailer_image t))"
    using es(4) frame_image_tail[OF x(1-3) _ x(4) d] A(1) unfolding fr by auto
  then have tail: "f_Trailer f = t" "take (length (f_PreTrailer f) - 4) (f_PreTrailer f) = body" by simp_all
  have "DecodeEntries isNormal body = Inr (s_Entries s)" using A by (intro DecodeEntries_encoded[OF e]) simp
  then have "checkEntriesParsed H h t (s_Entries s) = Inr (f_PackedLength f)" using es(2,3) tail by simp
  moreover have "ucast (m_DataLen t) = (word_of_nat (length (s_Payload s)) :: u64)"
    using T(5) l by (simp add: word_unat_eq_iff unat_of_nat_u32 unat_of_nat_u64)
  ultimately have "packed_store_ok h s" using T(2,3)
    by (auto simp: checkEntriesParsed_def packed_store_ok_def split: if_splits sum.splits)
  then show False using p by simp
qed

text \<open>C24: A frame that was built is parsed back to what it was built from: payload, entries, trailer and the chosen number
  of quanta. The only exception are packed frames stored without compression whose payload does not have the packed length:
  they are built, but parsing refuses them.\<close>

theorem Parse_of_Build:
  assumes "wf_header h" "wf_hashes H" "Build H isNormal stale h s = Inr frame"
  shows "if s_BlockType s = BlockPacked \<and> s_Codec s = CodecStore \<and> checkPacked (s_Entries s) (MaxFrameSize h) \<noteq> Inr (word_of_nat (length (s_Payload s)))
    then isl (Parse H isNormal frame h)
    else \<exists>f. Parse H isNormal frame h = Inr f \<and> f_Payload f = s_Payload s \<and> f_Entries f = Some (s_Entries s) \<and>
      m_BlockType (f_Trailer f) = s_BlockType s \<and> m_CodecID (f_Trailer f) = s_Codec s \<and>
      frameTrailer H h s (p_FrameQuanta (f_Prefix f)) = Inr (f_Trailer f) \<and> length frame = unat (p_FrameQuanta (f_Prefix f)) * 4096"
  using Parse_of_AppendFrame[OF assms(1,2) _ assms(3)[unfolded Build_def]] Parse_of_Build_refused[OF assms(1,2) _ assms(3)]
  by (auto simp: packed_store_ok_def)

lemma sample_built:
  "\<exists>frame. Build sample_hashes (\<lambda>_. True) (\<lambda>_. 7) sample_header sample_spec = Inr frame"
  using AppendFrame_spec[OF wf_sample_header wf_sample_hashes] sample_frame_spec[of "\<lambda>_. True"] by (auto simp: Build_def)

lemma sample_packed_ok: "packed_store_ok sample_header sample_spec"
  by (simp add: packed_store_ok_def sample_spec_def)

theorem Parse_of_Build_witness:
  "\<exists>frame f. Build sample_hashes (\<lambda>_. True) (\<lambda>_. 7) sample_header sample_spec = Inr frame \<and>
     Parse sample_hashes (\<lambda>_. True) frame sample_header = Inr f \<and> f_Payload f = [1, 2, 3] \<and> f_Entries f = Some [sample_entry]"
proof -
  obtain frame where b: "Build sample_hashes (\<lambda>_. True) (\<lambda>_. 7) sample_header sample_spec = Inr frame"
    using sample_built by blast
  show ?thesis
    using b Parse_of_Build[OF wf_sample_header wf_sample_hashes b] by (auto simp: sample_spec_def)
qed

lemma sample_parsed:
  "\<exists>frame f. Parse sample_hashes (\<lambda>_. True) frame sample_header = Inr f \<and> length frame = 4096 \<and> f_Payload f = [1, 2, 3] \<and>
     m_BlockType (f_Trailer f) = 0 \<and> length (f_PreTrailer f) = 36 \<and> f_Entries f = Some [sample_entry]"
proof -
  obtain t where "frame_spec sample_hashes (\<lambda>_. True) sample_header sample_spec =
     Inr (frame_image 1 [1, 2, 3] (le32 1 @ entry_bytes sample_entry) t)" using sample_frame_spec by blast
  then have B: "AppendFrame sample_hashes (\<lambda>_. True) (\<lambda>_. 7) [] sample_header sample_spec =
     Inr (frame_image 1 [1, 2, 3] (le32 1 @ entry_bytes sample_entry) t)"
    using AppendFrame_spec[OF wf_sample_header wf_sample_hashes] by simp
  from AppendFrame_Inr[OF B wf_sample_header wf_sample_hashes] obtain body q u where
    b: "built sample_hashes (\<lambda>_. True) sample_header sample_spec body q u"
    and fi: "frame_image 1 [1, 2, 3] (le32 1 @ entry_bytes sample_entry) t = frame_image q (s_Payload sample_spec) body u" by auto
  have body: "body = le32 1 @ entry_bytes sample_entry" using b sample_entries_bytes(1) by (simp add: built_def sample_spec_def)
  have ft: "frameTrailer sample_hashes sample_header sample_spec q = Inr u" using b by (simp add: built_def)
  have "RequiredQuanta 3 36 False = Inr 1" by (subst RequiredQuanta_Inr) (simp_all add: need_def)
  then have q: "q = 1" using b sample_entries_bytes(2)
    by (auto simp: built_def body chooseQuanta_def sample_header_def sample_spec_def Let_def split: if_splits)
  obtain n where P: "Parse sample_hashes (\<lambda>_. True) (frame_image q (s_Payload sample_spec) body u) sample_header =
      Inr (parsed q (s_Payload sample_spec) body u (Some (s_Entries sample_spec)) n)"
    using Parse_built[OF wf_sample_header b sample_packed_ok] by blast
  have "length (frame_image q (s_Payload sample_spec) body u) = unat q * 4096"
    using b q by (intro frame_image_parts(1)) (simp_all add: built_def sample_spec_def)
  then show ?thesis using P q frameTrailer_Inr(3)[OF ft] sample_entries_bytes(2)
    by (intro exI[of _ "frame_image q (s_Payload sample_spec) body u"] exI[of _ "parsed q (s_Payload sample_spec) body u (Some (s_Entries sample_spec)) n"])
      (simp add: parsed_def body sample_spec_def)
qed

text \<open>C26: A frame that parses is the canonical image of what was parsed: its bytes are determined by the quanta, the
  payload, the pre-trailer body and the trailer, so no two different byte strings parse to the same frame.\<close>

theorem Parse_is_canonical:
  assumes "Parse H isNormal frame h = Inr f" "wf_header h" "length frame < 2 ^ 64"
  shows "frame = frame_image (p_FrameQuanta (f_Prefix f)) (f_Payload f) (take (length (f_PreTrailer f) - 4) (f_PreTrailer f)) (f_Trailer f) \<and>
    length frame = unat (p_FrameQuanta (f_Prefix f)) * 4096 \<and> length (f_Payload f) = unat (m_DataLen (f_Trailer f)) \<and>
    CheckFrameQuanta (p_FrameQuanta (f_Prefix f)) h = Inr ()"
  using Parse_canonical[OF assms] by blast

theorem Parse_is_canonical_witness:
  "\<exists>frame f. Parse sample_hashes (\<lambda>_. True) frame sample_header = Inr f \<and> unat (p_FrameQuanta (f_Prefix f)) * 4096 = 4096 \<and>
     f_Payload f = [1, 2, 3]"
proof -
  obtain frame f where p: "Parse sample_hashes (\<lambda>_. True) frame sample_header = Inr f" "length frame = 4096" "f_Payload f = [1, 2, 3]"
    using sample_parsed by blast
  then show ?thesis using Parse_is_canonical[OF p(1) wf_sample_header] by auto
qed

text \<open>When one byte of a valid frame changes (outside the four bytes of the stored pre-trailer length) and the frame
  still parses, the byte lies in the payload and the old and the new payload collide under the archive's hash function.\<close>

lemma Parse_detects_change:
  assumes "Parse H isNormal frame h = Inr f" "wf_header h" "length frame < 2 ^ 64"
    "i < length frame" "y \<noteq> frame ! i" "\<not> (length frame - 100 \<le> i \<and> i < length frame - 96)"
    "Parse H isNormal (frame[i := y]) h = Inr f'"
  shows "16 \<le> i \<and> i < 16 + length (f_Payload f) \<and>
    Hash H (h_HashID h) ((f_Payload f)[i - 16 := y]) = Hash H (h_HashID h) (f_Payload f)"
  using Parse_byte_change[OF assms] .

end
