(* ===== verification/Shard.thy ===== *)
theory Shard
  imports Frame
begin

text \<open>
  Package \<^verbatim>\<open>internal/frame\<close>, \<^verbatim>\<open>shard.go\<close>: the canonical recovery shard of a DATA or PACKED
  frame and the reconstruction of the frame from it. As in \<open>AppendFrame\<close>, the slices are grown
  over stale capacity and written region by region. The lemmas show the exact bytes of a
  shard, that its length is the parity shard length of the frame, and that rebuilding from
  the shard gives back the frame, byte for byte.
\<close>

text \<open>Go's \<^verbatim>\<open>copy(s[off:], src)\<close>, which stops at the end of the destination.\<close>

definition copy_into :: "bytes \<Rightarrow> nat \<Rightarrow> bytes \<Rightarrow> bytes" where
  "copy_into s off src = put_at s off (take (length s - off) src)"

definition AppendRecoveryShard :: "(nat \<Rightarrow> byte) \<Rightarrow> bytes \<Rightarrow> bytes \<Rightarrow> bytes result" where
  "AppendRecoveryShard stale dst fr =
    (case DecodeFrameTail fr of Inl e \<Rightarrow> Inl e
     | Inr tail \<Rightarrow>
       (let t = t_Trailer tail in
        if m_BlockType t = BlockParity then errf ErrInvalid ''Frame'' ''block_type''
        else let S = word_of_nat (length fr) :: u64; ptl = word_of_nat (length (t_Body tail)) :: u64 in
        case ComputeLayout (ucast (S div 4096)) (ucast (m_DataLen t)) ptl of Inl e \<Rightarrow> Inl e
        | Inr lay \<Rightarrow>
          if l_PaddingLen lay < 112 then errf ErrInvalid ''Frame'' ''zero_padding''
          else
            let shardLen = unat (S - 124);
                imageLen = S - 16 - l_PaddingLen lay;
                start = length dst;
                s0 = map stale [start..<start + shardLen];
                s1 = put_at s0 0 (le32 (ucast imageLen));
                payload = seg fr (unat (l_PayloadStart lay)) (unat (l_PayloadEnd lay));
                s2 = copy_into s1 4 payload;
                n1 = 4 + min (length s1 - 4) (length payload);
                rest = drop (unat (l_PreTrailerStart lay)) fr;
                s3 = copy_into s2 n1 rest;
                n2 = n1 + min (length s2 - n1) (length rest);
                s4 = put_at s3 n2 (replicate (length s3 - n2) 0)
            in Inr (dst @ s4)))"

definition AppendFromRecoveryShard :: "(nat \<Rightarrow> byte) \<Rightarrow> bytes \<Rightarrow> bytes \<Rightarrow> u32 \<Rightarrow> bytes result" where
  "AppendFromRecoveryShard stale dst shard q =
    (let S = FrameSize q in
     if q = 0 \<or> word_of_nat (length shard) \<noteq> ParityShardLen q then errf ErrCorrupt ''Frame'' ''shard''
     else let imageLen = unat (of_le32 (seg shard 0 4)) in
     if imageLen < 108 \<or> 4 + imageLen > length shard then errf ErrCorrupt ''Frame'' ''recovery_image_len''
     else if \<not> allZero (drop (4 + imageLen) shard) then errf ErrCorrupt ''Frame'' ''shard''
     else let image = seg shard 4 (4 + imageLen);
              trailer = drop (imageLen - MasterTrailerSize) image;
              ptl = unat (of_le32 (seg image (imageLen - 100) (imageLen - 96)));
              dataLen = unat (of_le32 (seg trailer 16 20));
              tailLen = ptl + PreTrailerLenSize + MasterTrailerSize in
     if tailLen > imageLen \<or> imageLen - tailLen \<noteq> dataLen then errf ErrCorrupt ''Frame'' ''recovery_image_len''
     else let start = length dst; f0 = map stale [start..<start + unat S] in
     case FramePrefix_AppendBinary \<lparr> p_FrameQuanta = q \<rparr> [] of Inl e \<Rightarrow> Inl e
     | Inr pb \<Rightarrow>
       let f1 = put_at f0 0 pb;
           f2 = copy_into f1 FramePrefixSize (take dataLen image);
           f3 = put_at f2 (FramePrefixSize + dataLen) (replicate (unat S - tailLen - (FramePrefixSize + dataLen)) 0);
           f4 = copy_into f3 (unat S - tailLen) (drop dataLen image)
       in Inr (dst @ f4))"

section \<open>The bytes of a shard\<close>

lemma length_copy_into [simp]: "off \<le> length s \<Longrightarrow> length (copy_into s off src) = length s"
  by (simp add: copy_into_def put_at_def min_def)

lemma put_at_end: "length a = off \<Longrightarrow> length b = length src \<Longrightarrow> put_at (a @ b) off src = a @ src"
  by (simp add: put_at_def)

lemma shard_writes:
  assumes "length s0 = 4 + length payload + length rest + z"
  shows "put_at (copy_into (copy_into (put_at s0 0 (le32 v)) 4 payload) (4 + length payload) rest)
      (4 + length payload + length rest) (replicate z 0) = le32 v @ payload @ rest @ replicate z 0"
proof -
  obtain c0 c1 c2 c3 where c: "s0 = c0 @ c1 @ c2 @ c3" "length c0 = 4" "length c1 = length payload"
    "length c2 = length rest" "length c3 = z"
    using split_chunks[of "[4, length payload, length rest, z]" s0] assms by (auto simp: length_Suc_conv)
  then show ?thesis
    using put_at_exact[of c3 "replicate z 0" "[]"] by (simp add: copy_into_def range_simps)
qed

lemma AppendRecoveryShard_image:
  assumes q: "0 < unat q" "unat q \<le> 2 ^ 20" and wf: "wf_trailer t" and body: "4 \<le> length body"
    and pad: "232 + length payload + length body \<le> unat q * 4096" and d: "unat (m_DataLen t) = length payload"
    and bt: "m_BlockType t \<noteq> BlockParity"
  shows "AppendRecoveryShard stale dst (frame_image q payload body t) =
    Inr (dst @ le32 (word_of_nat (length payload + length body + 104)) @ payload @ tail_bytes body t @
      replicate (unat q * 4096 - 124 - (108 + length payload + length body)) 0)"
proof -
  let ?fr = "frame_image q payload body t" and ?N = "unat q * 4096" and ?m = "length payload" and ?b = "length body"
  let ?S = "word_of_nat ?N :: u64"
  have fits: "120 + ?m + ?b \<le> ?N" and N: "124 \<le> ?N" using pad by simp_all
  note P = frame_image_parts[OF q wf fits] and T = frame_image_tail[OF q wf body fits d]
  have S: "unat ?S = ?N" using q(2) by (intro unat_of_nat_u64) simp
  have Sq: "ucast (?S div 4096) = q"
    using S unat_u32_lt[of q] by (simp add: word_unat_eq_iff unat_div unsigned_ucast_eq take_bit_nat_eq_self)
  let ?pt = "word_of_nat (?b + 4) :: u64"
  have pt: "unat ?pt = ?b + 4" using fits q(2) by (intro unat_of_nat_u64) simp
  have "\<exists>L. ComputeLayout q (ucast (m_DataLen t)) ?pt = Inr L"
    unfolding ComputeLayout_ok_iff using fits d pt by simp
  then obtain lay where lay: "ComputeLayout q (ucast (m_DataLen t)) ?pt = Inr lay" ..
  note L = ComputeLayout_partition[OF lay, unfolded pt]
  have l: "unat (l_PayloadStart lay) = 16" "unat (l_PayloadEnd lay) = 16 + ?m"
    "unat (l_PreTrailerStart lay) = ?N - 104 - ?b" "unat (l_PaddingLen lay) = ?N - (120 + ?m + ?b)"
    using L d fits by simp_all
  have nopad: "\<not> l_PaddingLen lay < 112" using l(4) pad by (simp add: word_less_nat_alt)
  have sl: "unat (?S - 124) = ?N - 124" using S N by (subst unat_sub_u64) (simp_all add: S)
  have "unat (?S - 16) = ?N - 16" using S N by (subst unat_sub_u64) (simp_all add: S)
  then have "unat (?S - 16 - l_PaddingLen lay) = ?m + ?b + 104"
    using l(4) fits by (subst unat_sub_u64) simp_all
  then have il: "(ucast (?S - 16 - l_PaddingLen lay) :: u32) = word_of_nat (?m + ?b + 104)"
    by (metis of_nat_unat)
  have "?fr = take (?N - 104 - ?b) ?fr @ tail_bytes body t"
    using fits prefix_bytes_props(2)[OF q] by (simp add: frame_image_def)
  then have rest: "drop (?N - 104 - ?b) ?fr = tail_bytes body t"
    using P(1) by (metis append_take_drop_id same_append_eq)
  have rl: "length (tail_bytes body t) = ?b + 104" using wf by simp
  define z where "z = ?N - 124 - (108 + ?m + ?b)"
  define s0 where "s0 = map stale [length dst..<length dst + (?N - 124)]"
  have s0: "length s0 = 4 + ?m + length (tail_bytes body t) + z" using pad rl by (simp add: s0_def z_def)
  then have s0': "length s0 = 4 + ?m + (?b + 104) + z" using rl by simp
  have mins: "min (length s0 - 4) ?m = ?m" "min (length s0 - (4 + ?m)) (?b + 104) = ?b + 104"
    "length s0 - (4 + ?m + (?b + 104)) = z"
    unfolding s0' by simp_all
  note W = shard_writes[OF s0, of "word_of_nat (?m + ?b + 104)"]
  have lens: "length (put_at s0 0 (le32 v)) = length s0"
    "length (copy_into (put_at s0 0 (le32 v)) 4 payload) = length s0"
    "length (copy_into (copy_into (put_at s0 0 (le32 v)) 4 payload) (4 + ?m) (tail_bytes body t)) = length s0" for v
    using s0' by simp_all
  have pl: "length (body @ le32 c) = ?b + 4" for c by simp
  show ?thesis
    unfolding AppendRecoveryShard_def T sum.case Let_def FrameTail.simps P(1) pl Sq lay
      if_not_P[OF bt] if_not_P[OF nopad] l(1-3) P(2) rest sl il s0_def[symmetric] lens mins rl W[unfolded rl]
      z_def[symmetric] ..
qed

section \<open>Rebuilding the frame\<close>

lemma rebuild_writes:
  assumes "length f0 = 16 + length payload + pad + length rest" "length pb = 16"
  shows "copy_into (put_at (copy_into (put_at f0 0 pb) 16 payload) (16 + length payload) (replicate pad 0))
      (16 + length payload + pad) rest = pb @ payload @ replicate pad 0 @ rest"
proof -
  obtain c0 c1 c2 c3 where c: "f0 = c0 @ c1 @ c2 @ c3" "length c0 = 16" "length c1 = length payload"
    "length c2 = pad" "length c3 = length rest"
    using split_chunks[of "[16, length payload, pad, length rest]" f0] assms by (auto simp: length_Suc_conv)
  then show ?thesis
    using assms(2) put_at_exact[of c3 rest "[]"] by (simp add: copy_into_def range_simps)
qed

lemma trailer_data_len: "wf_trailer t \<Longrightarrow> seg (MasterTrailer_image t) 16 20 = le32 (m_DataLen t)"
  by (simp add: MasterTrailer_image_eq range_simps)

lemma AppendFromRecoveryShard_image:
  assumes q: "0 < unat q" "unat q \<le> 2 ^ 20" and wf: "wf_trailer t" and body: "4 \<le> length body"
    and pad: "232 + length payload + length body \<le> unat q * 4096" and d: "unat (m_DataLen t) = length payload"
    and z: "z = unat q * 4096 - 124 - (108 + length payload + length body)"
  shows "AppendFromRecoveryShard stale dst
      (le32 (word_of_nat (length payload + length body + 104)) @ payload @ tail_bytes body t @ replicate z 0) q =
    Inr (dst @ frame_image q payload body t)"
proof -
  let ?N = "unat q * 4096" and ?m = "length payload" and ?b = "length body"
  let ?il = "?m + ?b + 104"
  let ?shard = "le32 (word_of_nat ?il) @ payload @ tail_bytes body t @ replicate z 0"
  have tl: "length (tail_bytes body t) = ?b + 104" using wf by simp
  have sl: "length ?shard = ?N - 124" using pad z tl by simp
  have N: "?N \<le> 2 ^ 32" using q(2) by simp
  have "unat (ParityShardLen q) = ?N - 124"
    using pad unfolding ParityShardLen_def by (subst unat_sub_u64) simp_all
  moreover have "unat (word_of_nat (?N - 124) :: u64) = ?N - 124" using N by (intro unat_of_nat_u64) simp
  ultimately have g1: "(q = 0 \<or> word_of_nat (length ?shard) \<noteq> ParityShardLen q) = False"
    using q(1) sl by (auto simp: word_unat_eq_iff)
  have il: "unat (of_le32 (seg ?shard 0 4)) = ?il"
    using pad N by (simp add: range_simps unat_of_nat_u32 del: of_nat_add)
  have g2: "(?il < 108 \<or> 4 + ?il > length ?shard) = False" using sl pad body by simp
  have img: "seg ?shard 4 (4 + ?il) = payload @ tail_bytes body t" using tl by (simp add: seg_def)
  have g3: "(\<not> allZero (drop (4 + ?il) ?shard)) = False" using tl by (simp add: allZero_def list_all_iff)
  let ?image = "payload @ tail_bytes body t"
  have tr: "drop (?il - 96) ?image = MasterTrailer_image t"
    using wf by (simp add: tail_bytes_def Let_def)
  have "seg ?image (?il - 100) (?il - 96) = le32 (word_of_nat (?b + 4))"
    using wf by (simp add: tail_bytes_def Let_def seg_def)
  then have pt: "unat (of_le32 (seg ?image (?il - 100) (?il - 96))) = ?b + 4"
    using pad N by (simp add: unat_of_nat_u32 del: of_nat_add)
  have dl: "unat (of_le32 (seg (MasterTrailer_image t) 16 20)) = ?m" using wf d by (simp add: trailer_data_len)
  have g4: "(?b + 4 + 4 + 96 > ?il \<or> ?il - (?b + 4 + 4 + 96) \<noteq> ?m) = False" by simp
  define P where "P = ?N - (120 + ?m + ?b)"
  define f0 where "f0 = map stale [length dst..<length dst + ?N]"
  have f0: "length f0 = 16 + ?m + P + length (tail_bytes body t)" using tl pad by (simp add: f0_def P_def)
  have offs: "?N - (?b + 4 + 4 + 96) = 16 + ?m + P" "16 + ?m + P - (16 + ?m) = P"
    using pad by (simp_all add: P_def)
  have tk: "take ?m ?image = payload" "drop ?m ?image = tail_bytes body t" by simp_all
  note pb = prefix_bytes_props[OF q]
  show ?thesis
    unfolding AppendFromRecoveryShard_def Let_def g1 if_False il g2 img g3 tr pt dl g4 pb(1) sum.case unat_FrameSize
      f0_def[symmetric] offs tk rebuild_writes[OF f0 pb(2)] frame_image_def P_def[symmetric] ..
qed

text \<open>The shard of a parsed DATA or PACKED frame rebuilds exactly that frame.\<close>

lemma recovery_shard_round_trip:
  assumes ok: "Parse H isNormal frame h = Inr f" and h: "wf_header h" and len: "length frame < 2 ^ 64"
    and bt: "m_BlockType (f_Trailer f) \<noteq> BlockParity"
    and pad: "228 + length (f_Payload f) + length (f_PreTrailer f) \<le> length frame"
  shows "\<exists>shard. AppendRecoveryShard stale [] frame = Inr shard \<and>
    length shard = unat (ParityShardLen (p_FrameQuanta (f_Prefix f))) \<and>
    AppendFromRecoveryShard stale' dst shard (p_FrameQuanta (f_Prefix f)) = Inr (dst @ frame)"
proof -
  note C = Parse_canonical[OF ok h len]
  let ?q = "p_FrameQuanta (f_Prefix f)"
  let ?body = "take (length (f_PreTrailer f) - 4) (f_PreTrailer f)"
  have q: "0 < unat ?q" "unat ?q \<le> 2 ^ 20"
    using C(8) wf_header_bounds(2)[OF h] by (simp_all add: CheckFrameQuanta_Inr)
  have p: "232 + length (f_Payload f) + length ?body \<le> unat ?q * 4096" using pad C(6,7) by simp
  let ?z = "unat ?q * 4096 - 124 - (108 + length (f_Payload f) + length ?body)"
  let ?shard = "le32 (word_of_nat (length (f_Payload f) + length ?body + 104)) @ f_Payload f @ tail_bytes ?body (f_Trailer f) @ replicate ?z 0"
  have "AppendRecoveryShard stale [] frame = Inr ?shard"
    using AppendRecoveryShard_image[OF q C(3,5) p C(2)[symmetric] bt, of stale "[]"] C(1) by simp
  moreover have "AppendFromRecoveryShard stale' dst ?shard ?q = Inr (dst @ frame)"
    using AppendFromRecoveryShard_image[OF q C(3,5) p C(2)[symmetric] refl, of stale' dst] C(1) by simp
  moreover have "unat (ParityShardLen ?q) = unat ?q * 4096 - 124"
    using p unfolding ParityShardLen_def by (subst unat_sub_u64) simp_all
  then have "length ?shard = unat (ParityShardLen ?q)" using p C(3) by simp
  ultimately show ?thesis by blast
qed


section \<open>Properties\<close>

text \<open>C27: Recovery is lossless: from the shard of a parsed data frame, whatever the stale bytes of the buffers were, exactly
  the bytes of the frame are rebuilt; the shard has the length the parity layer expects.\<close>

theorem recovery_shard_lossless:
  assumes "Parse H isNormal frame h = Inr f" "wf_header h" "length frame < 2 ^ 64" "m_BlockType (f_Trailer f) \<noteq> BlockParity"
    "228 + length (f_Payload f) + length (f_PreTrailer f) \<le> length frame"
  shows "\<exists>shard. AppendRecoveryShard stale [] frame = Inr shard \<and>
    length shard = unat (ParityShardLen (p_FrameQuanta (f_Prefix f))) \<and>
    AppendFromRecoveryShard stale' dst shard (p_FrameQuanta (f_Prefix f)) = Inr (dst @ frame)"
  using recovery_shard_round_trip[OF assms] .

theorem recovery_shard_lossless_witness:
  "\<exists>frame shard q. length frame = 4096 \<and> AppendRecoveryShard (\<lambda>_. 1) [] frame = Inr shard \<and>
     AppendFromRecoveryShard (\<lambda>_. 2) [3] shard q = Inr ([3] @ frame)"
proof -
  obtain frame f where p: "Parse sample_hashes (\<lambda>_. True) frame sample_header = Inr f" "length frame = 4096"
    "f_Payload f = [1, 2, 3]" "m_BlockType (f_Trailer f) = 0" "length (f_PreTrailer f) = 36" using sample_parsed by blast
  then show ?thesis
    using recovery_shard_lossless[OF p(1) wf_sample_header, of "\<lambda>_. 1" "\<lambda>_. 2" "[3]"] by auto
qed

end
