(* ===== verification/Vfs.thy ===== *)
theory Vfs
  imports Prelude
begin

text \<open>
  Package \<^verbatim>\<open>internal/vfs\<close>: \<open>CrashFS\<close>, the explicit durability model (\<^verbatim>\<open>crashfs.go\<close>), and
  the durable replacement of a small file (\<^verbatim>\<open>atomic.go\<close>). Inodes are shared objects in the code
  (the current and the durable namespace may point to the same one), so they live in an
  explicit store and the namespaces map names to store indices. The random choices of a
  crash are an oracle \<open>rng\<close>, one stream per inode, of which nothing is assumed. A run of
  \<open>ReplaceFileStream\<close> records every intermediate state, and an oracle \<open>fault\<close> makes any of
  its file operations fail, so that power loss and I/O errors can be studied at every point.
\<close>

section \<open>Path helpers (package path)\<close>

fun split_slash :: "string \<Rightarrow> string list" where
  "split_slash [] = [[]]"
| "split_slash (c # cs) = (if c = CHR ''/'' then [] # split_slash cs else (c # hd (split_slash cs)) # tl (split_slash cs))"

fun join_slash :: "string list \<Rightarrow> string" where
  "join_slash [] = []"
| "join_slash [c] = c"
| "join_slash (c # d # cs) = c @ ''/'' @ join_slash (d # cs)"

text \<open>One element of \<^verbatim>\<open>path.Clean\<close>; the stack holds the kept elements, last first.\<close>

definition clean_step :: "bool \<Rightarrow> string list \<Rightarrow> string \<Rightarrow> string list" where
  "clean_step rooted stack c =
    (if c = '''' \<or> c = ''.'' then stack
     else if c = ''..'' then
       (if stack \<noteq> [] \<and> hd stack \<noteq> ''..'' then tl stack else if rooted then stack else c # stack)
     else c # stack)"

definition path_Clean :: "string \<Rightarrow> string" where
  "path_Clean p =
    (let rooted = (p \<noteq> '''' \<and> hd p = CHR ''/'');
         out = (if rooted then ''/'' else '''') @ join_slash (rev (foldl (clean_step rooted) [] (split_slash p)))
     in if out = '''' then ''.'' else out)"

definition path_Dir :: "string \<Rightarrow> string" where
  "path_Dir p = path_Clean (rev (dropWhile (\<lambda>c. c \<noteq> CHR ''/'') (rev p)))"

definition clean :: "string \<Rightarrow> string" where
  "clean name = tl (path_Clean (''/'' @ name))"

definition dirOf :: "string \<Rightarrow> string" where
  "dirOf name = (let d = path_Dir name in if d = '''' \<or> d = ''/'' then ''.'' else d)"

section \<open>CrashFS\<close>

record inode =
  cur :: bytes
  dur :: bytes

record CrashFS =
  inodes :: "inode list"
  ns :: "string \<Rightarrow> nat option"
  durNS :: "string \<Rightarrow> nat option"
  dirs :: "string \<Rightarrow> bool"
  locks :: "string \<Rightarrow> bool"
  SyncCount :: nat

record open_flags =
  O_CREATE :: bool
  O_EXCL :: bool
  O_TRUNC :: bool
  O_WRITE :: bool

record crashFile =
  cf_in :: nat
  cf_name :: string
  cf_writable :: bool
  cf_closed :: bool

definition NewCrashFS :: CrashFS where
  "NewCrashFS = \<lparr> inodes = [], ns = (\<lambda>_. None), durNS = (\<lambda>_. None), dirs = (\<lambda>d. d = ''.''), locks = (\<lambda>_. False), SyncCount = 0 \<rparr>"

definition fs_Lock :: "CrashFS \<Rightarrow> string \<Rightarrow> CrashFS result" where
  "fs_Lock c name0 =
    (let name = clean name0 in
     if locks c name then errf ErrPermission ''vfs'' ''locked''
     else let c1 = c\<lparr> locks := (locks c)(name := True) \<rparr> in
       if ns c name = None \<and> dirs c (dirOf name)
       then Inr (c1\<lparr> inodes := inodes c @ [\<lparr> cur = [], dur = [] \<rparr>], ns := (ns c)(name := Some (length (inodes c))) \<rparr>)
       else Inr c1)"

definition fs_Unlock :: "CrashFS \<Rightarrow> string \<Rightarrow> CrashFS" where
  "fs_Unlock c name = c\<lparr> locks := (locks c)(clean name := False) \<rparr>"

definition trunc_inode :: "CrashFS \<Rightarrow> nat \<Rightarrow> CrashFS" where
  "trunc_inode c i = c\<lparr> inodes := (inodes c)[i := (inodes c ! i)\<lparr> cur := [] \<rparr>] \<rparr>"

definition OpenFile :: "CrashFS \<Rightarrow> string \<Rightarrow> open_flags \<Rightarrow> (CrashFS \<times> crashFile) result" where
  "OpenFile c name0 flag =
    (let name = clean name0 in
     if \<not> dirs c (dirOf name) then errf ErrNotExist ''vfs'' ''open''
     else let finish = (\<lambda>c i. Inr (if O_TRUNC flag then trunc_inode c i else c,
              \<lparr> cf_in = i, cf_name = name, cf_writable = O_WRITE flag, cf_closed = False \<rparr>)) in
       case ns c name of
         Some i \<Rightarrow> if O_CREATE flag \<and> O_EXCL flag then errf ErrExist ''vfs'' ''open'' else finish c i
       | None \<Rightarrow> if \<not> O_CREATE flag then errf ErrNotExist ''vfs'' ''open''
           else let i = length (inodes c) in
             finish (c\<lparr> inodes := inodes c @ [\<lparr> cur = [], dur = [] \<rparr>], ns := (ns c)(name := Some i) \<rparr>) i)"

definition fs_Remove :: "CrashFS \<Rightarrow> string \<Rightarrow> CrashFS result" where
  "fs_Remove c name0 =
    (let name = clean name0 in
     case ns c name of None \<Rightarrow> errf ErrNotExist ''vfs'' ''remove''
     | Some _ \<Rightarrow> Inr (c\<lparr> ns := (ns c)(name := None) \<rparr>))"

definition fs_Rename :: "CrashFS \<Rightarrow> string \<Rightarrow> string \<Rightarrow> CrashFS result" where
  "fs_Rename c a0 b0 =
    (let a = clean a0; b = clean b0 in
     case ns c a of None \<Rightarrow> errf ErrNotExist ''vfs'' ''rename''
     | Some i \<Rightarrow>
       if \<not> dirs c (dirOf b) then errf ErrNotExist ''vfs'' ''rename''
       else Inr (c\<lparr> ns := ((ns c)(a := None))(b := Some i) \<rparr>))"

text \<open>\<open>MkdirAll\<close> walks from the directory to the root; the fuel is the length of the name, which
  every step of \<open>dirOf\<close> shortens.\<close>

fun mkdir_loop :: "nat \<Rightarrow> string \<Rightarrow> (string \<Rightarrow> bool) \<Rightarrow> (string \<Rightarrow> bool)" where
  "mkdir_loop 0 d ds = ds"
| "mkdir_loop (Suc n) d ds = (if d = ''.'' \<or> d = '''' then ds else mkdir_loop n (dirOf d) (ds(d := True)))"

definition MkdirAll :: "CrashFS \<Rightarrow> string \<Rightarrow> CrashFS" where
  "MkdirAll c name = c\<lparr> dirs := mkdir_loop (Suc (length (clean name))) (clean name) (dirs c) \<rparr>"

definition SyncDir :: "CrashFS \<Rightarrow> string \<Rightarrow> CrashFS result" where
  "SyncDir c dir0 =
    (let d0 = clean dir0; dir = (if d0 = '''' then ''.'' else d0) in
     if \<not> dirs c dir then errf ErrNotExist ''vfs'' ''syncdir''
     else Inr (c\<lparr> SyncCount := SyncCount c + 1,
                  durNS := (\<lambda>n. if dirOf n = dir then ns c n else durNS c n) \<rparr>))"

definition fs_Stat :: "CrashFS \<Rightarrow> string \<Rightarrow> (bool \<times> nat) result" where
  "fs_Stat c name0 =
    (let n0 = clean name0; name = (if n0 = '''' then ''.'' else n0) in
     if dirs c name then Inr (True, 0)
     else case ns c name of Some i \<Rightarrow> Inr (False, length (cur (inodes c ! i)))
       | None \<Rightarrow> errf ErrNotExist ''vfs'' ''stat'')"

subsection \<open>Files\<close>

definition ReadAt :: "CrashFS \<Rightarrow> crashFile \<Rightarrow> nat \<Rightarrow> nat \<Rightarrow> bytes \<times> error option" where
  "ReadAt c f n off =
    (let b = cur (inodes c ! cf_in f); got = take n (drop off b) in
     if cf_closed f then ([], Some (Err ErrClosed ''vfs'' ''read''))
     else if off \<ge> length b then ([], Some (Err ErrEOF ''vfs'' ''read''))
     else if length got < n then (got, Some (Err ErrEOF ''vfs'' ''read''))
     else (got, None))"

definition WriteAt :: "CrashFS \<Rightarrow> crashFile \<Rightarrow> bytes \<Rightarrow> nat \<Rightarrow> CrashFS result" where
  "WriteAt c f p off =
    (if cf_closed f then errf ErrClosed ''vfs'' ''write''
     else if \<not> cf_writable f then errf ErrPermission ''vfs'' ''write''
     else let nd = inodes c ! cf_in f;
              grown = cur nd @ replicate (off + length p - length (cur nd)) 0
       in Inr (c\<lparr> inodes := (inodes c)[cf_in f := nd\<lparr> cur := put_at grown off p \<rparr>] \<rparr>))"

definition Truncate :: "CrashFS \<Rightarrow> crashFile \<Rightarrow> nat \<Rightarrow> CrashFS result" where
  "Truncate c f sz =
    (if \<not> cf_writable f then errf ErrPermission ''vfs'' ''truncate''
     else let nd = inodes c ! cf_in f
       in Inr (c\<lparr> inodes := (inodes c)[cf_in f := nd\<lparr> cur := take sz (cur nd @ replicate (sz - length (cur nd)) 0) \<rparr>] \<rparr>))"

definition file_Sync :: "CrashFS \<Rightarrow> crashFile \<Rightarrow> CrashFS result" where
  "file_Sync c f =
    (if cf_closed f then errf ErrClosed ''vfs'' ''sync''
     else let nd = inodes c ! cf_in f
       in Inr (c\<lparr> SyncCount := SyncCount c + 1, inodes := (inodes c)[cf_in f := nd\<lparr> dur := cur nd \<rparr>] \<rparr>))"

definition file_Size :: "CrashFS \<Rightarrow> crashFile \<Rightarrow> nat" where
  "file_Size c f = length (cur (inodes c ! cf_in f))"

definition file_Close :: "crashFile \<Rightarrow> crashFile" where
  "file_Close f = f\<lparr> cf_closed := True \<rparr>"

section \<open>Crash\<close>

text \<open>The oracle is a stream of naturals and a position; \<open>Intn\<close> consumes one element.\<close>

type_synonym rng = "(nat \<Rightarrow> nat) \<times> nat"

definition Intn :: "rng \<Rightarrow> nat \<Rightarrow> nat \<times> rng" where
  "Intn g n = (fst g (snd g) mod n, (fst g, snd g + 1))"

definition rng_Read :: "rng \<Rightarrow> nat \<Rightarrow> bytes \<times> rng" where
  "rng_Read g n = (map (\<lambda>k. word_of_nat (fst g (snd g + k))) [0..<n], (fst g, snd g + n))"

definition sliceOrZero :: "bytes \<Rightarrow> nat \<Rightarrow> nat \<Rightarrow> bytes" where
  "sliceOrZero b from to =
    (let part = (if from < length b then seg b from (min to (length b)) else [])
     in part @ replicate (to - from - length part) 0)"

function tear_sectors :: "bytes \<Rightarrow> bool \<Rightarrow> nat \<Rightarrow> nat \<Rightarrow> bytes \<Rightarrow> rng \<Rightarrow> bytes \<times> rng" where
  "tear_sectors cu dirty s end out g =
    (if s < end then
       (let se = min (s + 512) end; (r, g1) = Intn g 2 in
        if r = 0 then tear_sectors cu dirty (s + 512) end (put_at out s (sliceOrZero cu s se)) g1
        else if dirty then
          (let (r', g2) = Intn g1 4 in
           if r' = 0 then (let (b, g3) = rng_Read g2 (se - s) in tear_sectors cu dirty (s + 512) end (put_at out s b) g3)
           else tear_sectors cu dirty (s + 512) end out g2)
        else tear_sectors cu dirty (s + 512) end out g1)
     else (out, g))"
  by pat_completeness auto
termination
  by (relation "measure (\<lambda>(cu, dirty, s, en, out, g). en - s)") auto

function tear_pages :: "bytes \<Rightarrow> bytes \<Rightarrow> bool \<Rightarrow> nat \<Rightarrow> nat \<Rightarrow> bytes \<Rightarrow> rng \<Rightarrow> bytes" where
  "tear_pages du cu garbage p n out g =
    (if p < n then
       (let end = min (p + 4096) n; (r, g1) = Intn g 3 in
        if r = 0 then tear_pages du cu garbage (p + 4096) n out g1
        else if r = 1 then tear_pages du cu garbage (p + 4096) n (put_at out p (sliceOrZero cu p end)) g1
        else
          (let dirty = (garbage \<and> sliceOrZero du p end \<noteq> sliceOrZero cu p end);
               (out', g2) = tear_sectors cu dirty p end out g1
           in tear_pages du cu garbage (p + 4096) n out' g2))
     else out)"
  by pat_completeness auto
termination
  by (relation "measure (\<lambda>(du, cu, garbage, p, n, out, g). n - p)") auto

declare tear_sectors.simps [simp del] tear_pages.simps [simp del]

definition tear :: "bytes \<Rightarrow> bytes \<Rightarrow> rng \<Rightarrow> bool \<Rightarrow> bytes" where
  "tear du cu g garbage =
    (let (n, g1) =
       (if length cu > length du then
          (let (r, g1) = Intn g ((length cu - length du) div 512 + 1)
           in (min (length du + r * 512) (length cu), g1))
        else if length cu < length du then
          (let (r, g1) = Intn g 2 in (if r = 0 then length cu else length du, g1))
        else (length du, g))
     in tear_pages du cu garbage 0 n (take n (du @ replicate (n - length du) 0)) g1)"

datatype crash_model = CrashDropUnsynced | CrashTear | CrashTearGarbage

definition crash_inode :: "crash_model \<Rightarrow> rng \<Rightarrow> inode \<Rightarrow> inode" where
  "crash_inode model g nd =
    (let data = (if model = CrashDropUnsynced then dur nd else tear (dur nd) (cur nd) g (model = CrashTearGarbage))
     in \<lparr> cur = data, dur = data \<rparr>)"

definition Crash :: "CrashFS \<Rightarrow> crash_model \<Rightarrow> (nat \<Rightarrow> rng) \<Rightarrow> CrashFS" where
  "Crash c model rngs =
    \<lparr> inodes = map (\<lambda>i. crash_inode model (rngs i) (inodes c ! i)) [0..<length (inodes c)],
      ns = durNS c, durNS = durNS c, dirs = dirs c, locks = (\<lambda>_. False), SyncCount = 0 \<rparr>"

section \<open>Durable replacement\<close>

text \<open>\<^verbatim>\<open>bufio.Writer.Write\<close>: the new buffer and the writes passed to the underlying file.\<close>

function bufio_Write :: "nat \<Rightarrow> bytes \<Rightarrow> bytes \<Rightarrow> bytes \<times> bytes list" where
  "bufio_Write n buf p =
    (if length p > n - length buf then
       (if buf = [] then ([], [p])
        else let k = n - length buf; (buf', ws) = bufio_Write n [] (drop k p) in (buf', (buf @ take k p) # ws))
     else (buf @ p, []))"
  by pat_completeness auto
termination
  by (relation "measure (\<lambda>(n, buf, p). (if buf = [] then 0 else 1))") auto

declare bufio_Write.simps [simp del]

fun bufio_writes :: "nat \<Rightarrow> bytes \<Rightarrow> bytes list \<Rightarrow> bytes \<times> bytes list" where
  "bufio_writes n buf [] = (buf, [])"
| "bufio_writes n buf (p # ps) =
    (let (b1, ws1) = bufio_Write n buf p; (b2, ws2) = bufio_writes n b1 ps in (b2, ws1 @ ws2))"

text \<open>\<open>fill\<close> is given by the chunks it writes and the error it returns. The writes that reach
  \<open>fileWriter\<close>: those of the buffer and, when \<open>fill\<close> succeeds, the final \<open>Flush\<close>.\<close>

definition fill_writes :: "bytes list \<Rightarrow> error option \<Rightarrow> bytes list" where
  "fill_writes chunks ferr =
    (let (b, ws) = bufio_writes 1048576 [] chunks in if ferr = None \<and> b \<noteq> [] then ws @ [b] else ws)"

definition io_error :: error where "io_error = Err ErrOther ''vfs'' ''io''"

text \<open>The writes at increasing offsets: intermediate states, last state, next operation number, error.\<close>

fun write_all :: "(nat \<Rightarrow> bool) \<Rightarrow> nat \<Rightarrow> CrashFS \<Rightarrow> crashFile \<Rightarrow> nat \<Rightarrow> bytes list
    \<Rightarrow> CrashFS list \<times> CrashFS \<times> nat \<times> error option" where
  "write_all fault k c f off [] = ([], c, k, None)"
| "write_all fault k c f off (p # ps) =
    (if fault k then ([], c, k + 1, Some io_error)
     else case WriteAt c f p off of
       Inl e \<Rightarrow> ([], c, k + 1, Some e)
     | Inr c1 \<Rightarrow>
       (let (tr, c2, k2, err) = write_all fault (k + 1) c1 f (off + length p) ps in (c1 # tr, c2, k2, err)))"

definition attempt :: "bool \<Rightarrow> 'a result \<Rightarrow> 'a result" where
  "attempt bad r = (if bad then Inl io_error else r)"

definition replace_flags :: open_flags where
  "replace_flags = \<lparr> O_CREATE = True, O_EXCL = False, O_TRUNC = True, O_WRITE = True \<rparr>"

text \<open>The temporary file is written: states passed through, state after \<open>Close\<close>, next operation, error.\<close>

definition fill_tmp :: "(nat \<Rightarrow> bool) \<Rightarrow> CrashFS \<Rightarrow> crashFile \<Rightarrow> bytes list \<Rightarrow> error option
    \<Rightarrow> CrashFS list \<times> CrashFS \<times> nat \<times> error option" where
  "fill_tmp fault c1 f chunks ferr =
    (let (tr, c2, k, werr) = write_all fault 1 c1 f 0 (fill_writes chunks ferr);
         err1 = (if werr \<noteq> None then werr else ferr);
         (c3, err2) = (if err1 \<noteq> None then (c2, err1)
           else case attempt (fault k) (file_Sync c2 f) of Inl e \<Rightarrow> (c2, Some e) | Inr c \<Rightarrow> (c, None));
         err3 = (if err2 = None \<and> fault (k + 1) then Some io_error else err2)
     in (tr @ [c3], c3, k + 2, err3))"

definition ReplaceFileStream :: "(nat \<Rightarrow> bool) \<Rightarrow> CrashFS \<Rightarrow> string \<Rightarrow> bytes list \<Rightarrow> error option
    \<Rightarrow> CrashFS list \<times> CrashFS \<times> error option" where
  "ReplaceFileStream fault c name chunks ferr =
    (let dir = path_Dir name; tmp = name @ ''.tmp'' in
     case attempt (fault 0) (OpenFile c tmp replace_flags) of Inl e \<Rightarrow> ([], c, Some e)
     | Inr (c1, f) \<Rightarrow>
       (let (tr, c3, k, err) = fill_tmp fault c1 f chunks ferr in
        case err of
          Some e \<Rightarrow>
            (case attempt (fault k) (fs_Remove c3 tmp) of Inl _ \<Rightarrow> (c1 # tr, c3, Some e) | Inr c4 \<Rightarrow> (c1 # tr, c4, Some e))
        | None \<Rightarrow>
          (case attempt (fault k) (fs_Rename c3 tmp name) of Inl e \<Rightarrow> (c1 # tr, c3, Some e)
           | Inr c4 \<Rightarrow>
             (case attempt (fault (k + 1)) (SyncDir c4 dir) of Inl e \<Rightarrow> (c1 # tr @ [c4], c4, Some e)
              | Inr c5 \<Rightarrow> (c1 # tr @ [c4], c5, None)))))"

definition ReplaceFile :: "(nat \<Rightarrow> bool) \<Rightarrow> CrashFS \<Rightarrow> string \<Rightarrow> bytes \<Rightarrow> CrashFS list \<times> CrashFS \<times> error option" where
  "ReplaceFile fault c name data = ReplaceFileStream fault c name [data] None"

definition ReadFile :: "CrashFS \<Rightarrow> string \<Rightarrow> nat \<Rightarrow> bytes result" where
  "ReadFile c name maxBytes =
    (case OpenFile c name \<lparr> O_CREATE = False, O_EXCL = False, O_TRUNC = False, O_WRITE = False \<rparr> of Inl e \<Rightarrow> Inl e
     | Inr (c1, f) \<Rightarrow>
       (let n = file_Size c1 f in
        if n > maxBytes then errf ErrTooLarge ''vfs'' ''read''
        else case ReadAt c1 f n 0 of (b, err) \<Rightarrow>
          (case err of Some e \<Rightarrow> if n > 0 then Inl e else Inr [] | None \<Rightarrow> Inr b)))"

section \<open>Buffered writes are the content\<close>

lemma bufio_Write_concat: "bufio_Write n buf p = (b, ws) \<Longrightarrow> concat ws @ b = buf @ p"
proof (induction n buf p arbitrary: b ws rule: bufio_Write.induct)
  case (1 n buf p)
  show ?case
  proof (cases "length p > n - length buf \<and> buf \<noteq> []")
    case True
    obtain b' ws' where r: "bufio_Write n [] (drop (n - length buf) p) = (b', ws')" by fastforce
    have "ws = (buf @ take (n - length buf) p) # ws'" "b = b'"
      using 1(2) True by (simp_all add: bufio_Write.simps[of n buf p] Let_def r)
    then show ?thesis using 1(1)[OF _ _ refl r] True by simp
  next
    case False
    then show ?thesis using 1(2) by (auto simp: bufio_Write.simps[of n buf p] split: if_splits)
  qed
qed

lemma bufio_writes_concat: "bufio_writes n buf ps = (b, ws) \<Longrightarrow> concat ws @ b = buf @ concat ps"
proof (induction ps arbitrary: buf b ws)
  case (Cons p ps)
  obtain b1 ws1 where w: "bufio_Write n buf p = (b1, ws1)" by fastforce
  obtain b2 ws2 where ws: "bufio_writes n b1 ps = (b2, ws2)" by fastforce
  show ?case
    using Cons.prems w ws bufio_Write_concat[OF w] Cons.IH[OF ws] by (auto simp: Let_def)
qed simp

lemma fill_writes_concat: "concat (fill_writes chunks None) = concat chunks"
proof -
  obtain b ws where w: "bufio_writes 1048576 [] chunks = (b, ws)" by fastforce
  show ?thesis using bufio_writes_concat[OF w] by (auto simp: fill_writes_def w)
qed

section \<open>A synced inode survives every crash\<close>

lemma sliceOrZero_same: "to \<le> length b \<Longrightarrow> sliceOrZero b from to = seg b from to"
  by (auto simp: sliceOrZero_def Let_def min_def)

lemma put_at_seg_id: "lo \<le> hi \<Longrightarrow> hi \<le> length b \<Longrightarrow> put_at b lo (seg b lo hi) = b"
  by (intro nth_equalityI) (auto simp: nth_put_at nth_seg)

lemma tear_sectors_synced:
  "en \<le> length b \<Longrightarrow> fst (tear_sectors b False s en b g) = b"
proof (induction "en - s" arbitrary: s g rule: less_induct)
  case less
  then show ?case
    by (subst tear_sectors.simps) (auto simp: Let_def sliceOrZero_same put_at_seg_id split: prod.splits)
qed

lemma tear_pages_synced: "n \<le> length b \<Longrightarrow> tear_pages b b garbage p n b g = b"
proof (induction "n - p" arbitrary: p g rule: less_induct)
  case less
  have s: "fst (tear_sectors b False p (min (p + 4096) n) b g1) = b" for g1
    using less.prems by (intro tear_sectors_synced) simp
  show ?case
  proof (cases "p < n")
    case True
    obtain r g1 where g1: "Intn g 3 = (r, g1)" by (cases "Intn g 3")
    obtain out g2 where t: "tear_sectors b False p (min (p + 4096) n) b g1 = (out, g2)"
      by (cases "tear_sectors b False p (min (p + 4096) n) b g1")
    then have "out = b" using s[of g1] by simp
    moreover have IH: "tear_pages b b garbage (p + 4096) n b g' = b" for g'
      using less.hyps[of "p + 4096" g'] less.prems True by simp
    ultimately show ?thesis
      using True less.prems t by (subst tear_pages.simps) (simp add: g1 Let_def sliceOrZero_same put_at_seg_id)
  next
    case False
    then show ?thesis by (subst tear_pages.simps) simp
  qed
qed

lemma tear_synced: "tear b b g garbage = b"
  by (simp add: tear_def tear_pages_synced)

lemma crash_inode_synced: "cur nd = dur nd \<Longrightarrow> crash_inode model g nd = \<lparr> cur = dur nd, dur = dur nd \<rparr>"
  by (simp add: crash_inode_def tear_synced Let_def)

section \<open>What replacement guarantees\<close>

text \<open>
  The contents of \<open>name\<close> that a reader may see, now or after a power loss: the current content
  and the durable one. \<open>good\<close> says that both are fully synced and that the temporary name never
  shares an inode with them.
\<close>

definition synced :: "CrashFS \<Rightarrow> nat \<Rightarrow> bool" where
  "synced c i \<longleftrightarrow> i < length (inodes c) \<and> cur (inodes c ! i) = dur (inodes c ! i)"

definition good :: "string \<Rightarrow> CrashFS \<Rightarrow> bool" where
  "good name c \<longleftrightarrow>
    (\<forall>i. ns c name = Some i \<or> durNS c name = Some i \<longrightarrow> synced c i) \<and>
    (\<forall>i. ns c (name @ ''.tmp'') = Some i \<longrightarrow> i < length (inodes c) \<and> ns c name \<noteq> Some i \<and> durNS c name \<noteq> Some i) \<and>
    (\<forall>i. durNS c (name @ ''.tmp'') = Some i \<longrightarrow> i < length (inodes c) \<and> durNS c name \<noteq> Some i)"

definition content :: "string \<Rightarrow> CrashFS \<Rightarrow> bytes option" where
  "content name c = map_option (\<lambda>i. cur (inodes c ! i)) (ns c name)"

definition durable :: "string \<Rightarrow> CrashFS \<Rightarrow> bytes option" where
  "durable name c = map_option (\<lambda>i. dur (inodes c ! i)) (durNS c name)"

definition outcomes :: "string \<Rightarrow> CrashFS \<Rightarrow> bytes option set" where
  "outcomes name c = {content name c, durable name c}"

text \<open>Names for which the path helpers behave as on the archive's own files.\<close>

definition plain_name :: "string \<Rightarrow> bool" where
  "plain_name name \<longleftrightarrow> clean name = name \<and> clean (name @ ''.tmp'') = name @ ''.tmp'' \<and>
     (let d = clean (path_Dir name) in dirOf name = (if d = '''' then ''.'' else d)) \<and>
     dirOf (name @ ''.tmp'') = dirOf name"

text \<open>A state in which nothing about \<open>name\<close> has changed since \<open>c\<close>.\<close>

definition untouched :: "string \<Rightarrow> CrashFS \<Rightarrow> CrashFS \<Rightarrow> bool" where
  "untouched name c s \<longleftrightarrow> good name s \<and> ns s name = ns c name \<and> durNS s = durNS c \<and> dirs s = dirs c \<and>
     (\<forall>i. ns c name = Some i \<or> durNS c name = Some i \<longrightarrow> inodes s ! i = inodes c ! i)"

lemma tmp_neq [simp]: "name @ ''.tmp'' \<noteq> name" "name \<noteq> name @ ''.tmp''"
  by simp_all

lemma untouched_outcomes: "untouched name c s \<Longrightarrow> outcomes name s = outcomes name c"
  by (auto simp: untouched_def outcomes_def content_def durable_def map_option_case split: option.splits)

lemma untouched_refl: "good name c \<Longrightarrow> untouched name c c"
  by (simp add: untouched_def)

text \<open>A change of an inode that \<open>name\<close> does not use.\<close>

lemma untouched_update:
  assumes "untouched name c s" "ns s (name @ ''.tmp'') = Some t"
  shows "untouched name c (s\<lparr> inodes := (inodes s)[t := nd] \<rparr>)"
    "untouched name c (s\<lparr> SyncCount := k, inodes := (inodes s)[t := nd] \<rparr>)"
  using assms unfolding untouched_def good_def synced_def by (auto simp: nth_list_update)

lemma OpenFile_tmp:
  assumes "good name c" "plain_name name" "OpenFile c (name @ ''.tmp'') replace_flags = Inr (s, f)"
  shows "untouched name c s \<and> ns s (name @ ''.tmp'') = Some (cf_in f) \<and> cf_writable f \<and> \<not> cf_closed f \<and>
    cf_in f < length (inodes s) \<and> cur (inodes s ! cf_in f) = []"
proof (cases "ns c (name @ ''.tmp'')")
  case (Some i)
  then have "s = trunc_inode c i" "f = \<lparr> cf_in = i, cf_name = name @ ''.tmp'', cf_writable = True, cf_closed = False \<rparr>"
    using assms(2,3) by (auto simp: OpenFile_def replace_flags_def plain_name_def Let_def split: if_splits)
  then show ?thesis
    using assms(1) Some untouched_update(1)[OF untouched_refl[OF assms(1)] Some]
    by (auto simp: trunc_inode_def good_def)
next
  case None
  let ?i = "length (inodes c)"
  have s: "s = trunc_inode (c\<lparr> inodes := inodes c @ [\<lparr> cur = [], dur = [] \<rparr>], ns := (ns c)(name @ ''.tmp'' := Some ?i) \<rparr>) ?i"
    "f = \<lparr> cf_in = ?i, cf_name = name @ ''.tmp'', cf_writable = True, cf_closed = False \<rparr>"
    using assms(2,3) None by (auto simp: OpenFile_def replace_flags_def plain_name_def Let_def split: if_splits)
  have lt: "ns c name = Some i \<or> durNS c name = Some i \<Longrightarrow> i < ?i" "durNS c (name @ ''.tmp'') = Some i \<Longrightarrow> i < ?i" for i
    using assms(1) by (auto simp: good_def synced_def)
  have "good name s"
    using assms(1) lt unfolding good_def synced_def s(1) trunc_inode_def
    by (auto simp: nth_append nth_list_update intro: less_SucI)
  moreover have "inodes s ! i = inodes c ! i" if "i < ?i" for i
    using that by (simp add: s(1) trunc_inode_def nth_append nth_list_update)
  ultimately show ?thesis
    using lt by (auto simp: untouched_def s trunc_inode_def)
qed

lemma write_all_tmp:
  assumes "untouched name c s" "ns s (name @ ''.tmp'') = Some (cf_in f)" "cf_in f < length (inodes s)"
    "cur (inodes s ! cf_in f) = w" "off = length w" "write_all fault k s f off ps = (tr, s', k', err)"
  shows "(\<forall>x \<in> set tr. untouched name c x) \<and> untouched name c s' \<and> ns s' (name @ ''.tmp'') = Some (cf_in f) \<and>
    cf_in f < length (inodes s') \<and> (err = None \<longrightarrow> cur (inodes s' ! cf_in f) = w @ concat ps)"
  using assms
proof (induction ps arbitrary: k s off w tr)
  case Nil
  then show ?case by auto
next
  case (Cons p ps)
  show ?case
  proof (cases "\<not> fault k \<and> (\<exists>s1. WriteAt s f p off = Inr s1)")
    case True
    then obtain s1 where s1: "WriteAt s f p off = Inr s1" "\<not> fault k" by blast
    let ?nd = "inodes s ! cf_in f"
    have e: "s1 = s\<lparr> inodes := (inodes s)[cf_in f := ?nd\<lparr> cur := w @ p \<rparr>] \<rparr>"
      using s1(1) Cons.prems(4,5)
      by (auto simp: WriteAt_def Let_def put_at_def split: if_splits)
    obtain tr' where tr: "write_all fault (k + 1) s1 f (off + length p) ps = (tr', s', k', err)" "tr = s1 # tr'"
      using Cons.prems(6) s1 by (auto simp: Let_def split: prod.splits)
    have u: "untouched name c s1" unfolding e using untouched_update(1)[OF Cons.prems(1,2)] .
    have "ns s1 (name @ ''.tmp'') = Some (cf_in f)" "cf_in f < length (inodes s1)" "cur (inodes s1 ! cf_in f) = w @ p"
      using Cons.prems(2,3) by (simp_all add: e)
    from Cons.IH[OF u this _ tr(1)] show ?thesis using Cons.prems(5) u tr(2) by simp
  next
    case False
    then have "tr = [] \<and> s' = s \<and> err \<noteq> None"
      using Cons.prems(6) by (cases "WriteAt s f p off") (auto split: if_splits)
    then show ?thesis using Cons.prems by auto
  qed
qed

lemma fill_tmp_ok:
  assumes o: "untouched name c s" "ns s (name @ ''.tmp'') = Some (cf_in f)" "cf_in f < length (inodes s)"
    "cur (inodes s ! cf_in f) = []" and r: "fill_tmp fault s f chunks ferr = (tr, s', k, err)"
  shows "(\<forall>x \<in> set tr. untouched name c x) \<and> untouched name c s' \<and> ns s' (name @ ''.tmp'') = Some (cf_in f) \<and>
    (err = None \<longrightarrow> ferr = None \<and> synced s' (cf_in f) \<and> cur (inodes s' ! cf_in f) = concat chunks)"
proof -
  obtain tr2 s2 k2 werr where w: "write_all fault 1 s f 0 (fill_writes chunks ferr) = (tr2, s2, k2, werr)"
    by (cases "write_all fault 1 s f 0 (fill_writes chunks ferr)") auto
  note W = write_all_tmp[OF o _ w, simplified] and r' = r[unfolded fill_tmp_def Let_def w prod.case]
  show ?thesis
  proof (cases "werr = None \<and> ferr = None \<and> \<not> fault k2 \<and> \<not> cf_closed f")
    case True
    let ?nd = "inodes s2 ! cf_in f"
    let ?s3 = "s2\<lparr> SyncCount := SyncCount s2 + 1, inodes := (inodes s2)[cf_in f := ?nd\<lparr> dur := cur ?nd \<rparr>] \<rparr>"
    have e: "tr = tr2 @ [?s3]" "s' = ?s3"
      using r' True by (auto simp: attempt_def file_Sync_def Let_def)
    have "untouched name c ?s3" using untouched_update(2)[of name c s2 "cf_in f"] W by (simp add: inode.simps)
    then show ?thesis using W True e by (auto simp: synced_def fill_writes_concat)
  next
    case False
    then have "err \<noteq> None \<and> tr = tr2 @ [s2] \<and> s' = s2"
      using r' by (auto simp: attempt_def file_Sync_def Let_def split: if_splits)
    then show ?thesis using W by auto
  qed
qed

lemma ReplaceFileStream_guarantee:
  assumes g: "good name c" and p: "plain_name name"
    and r: "ReplaceFileStream fault c name chunks ferr = (tr, c', err)"
  shows "\<forall>s \<in> set tr \<union> {c'}. good name s \<and> dirs s = dirs c \<and> outcomes name s \<subseteq> outcomes name c \<union> {Some (concat chunks)}"
    "err = None \<Longrightarrow> outcomes name c' = {Some (concat chunks)}"
    "ferr \<noteq> None \<Longrightarrow> err \<noteq> None \<and> outcomes name c' = outcomes name c"
proof -
  let ?tmp = "name @ ''.tmp''"
  have cl: "clean name = name" "clean ?tmp = ?tmp" using p by (simp_all add: plain_name_def)
  have U: "good name s \<and> dirs s = dirs c \<and> outcomes name s \<subseteq> outcomes name c \<union> {Some (concat chunks)}" if "untouched name c s" for s
    using untouched_outcomes[OF that] that by (auto simp: untouched_def)
  have "(\<forall>s \<in> set tr \<union> {c'}. good name s \<and> dirs s = dirs c \<and> outcomes name s \<subseteq> outcomes name c \<union> {Some (concat chunks)}) \<and>
    (err = None \<longrightarrow> outcomes name c' = {Some (concat chunks)}) \<and>
    (ferr \<noteq> None \<longrightarrow> err \<noteq> None \<and> outcomes name c' = outcomes name c)"
  proof (cases "attempt (fault 0) (OpenFile c ?tmp replace_flags)")
    case (Inl e)
    then show ?thesis using r U[OF untouched_refl[OF g]] by (auto simp: ReplaceFileStream_def)
  next
    case (Inr sf)
    obtain s f where sf: "sf = (s, f)" by (cases sf)
    then have "OpenFile c ?tmp replace_flags = Inr (s, f)" using Inr by (simp add: attempt_def split: if_splits)
    note O = OpenFile_tmp[OF g p this]
    obtain tr3 s3 k3 err3 where fl: "fill_tmp fault s f chunks ferr = (tr3, s3, k3, err3)"
      by (cases "fill_tmp fault s f chunks ferr") auto
    note F = fill_tmp_ok[OF _ _ _ _ fl, of name c]
    then have F: "\<forall>x \<in> set tr3. untouched name c x" "untouched name c s3" "ns s3 ?tmp = Some (cf_in f)"
      "err3 = None \<Longrightarrow> ferr = None \<and> synced s3 (cf_in f) \<and> cur (inodes s3 ! cf_in f) = concat chunks"
      using O by auto
    note run = r[unfolded ReplaceFileStream_def Let_def Inr sf sum.case prod.case fl]
    show ?thesis
    proof (cases err3)
      case (Some e)
      let ?s4 = "s3\<lparr> ns := (ns s3)(?tmp := None) \<rparr>"
      have "untouched name c ?s4" using F(2) by (auto simp: untouched_def good_def synced_def)
      moreover have "tr = s # tr3 \<and> (c' = s3 \<or> c' = ?s4) \<and> err = Some e"
        using run F(3) by (auto simp: Some attempt_def fs_Remove_def cl Let_def split: if_splits)
      ultimately show ?thesis using U O F untouched_outcomes by auto
    next
      case None
      let ?s4 = "s3\<lparr> ns := ((ns s3)(?tmp := None))(name := Some (cf_in f)) \<rparr>"
      note data = F(4)[OF None]
      consider (norename) "tr = s # tr3" "c' = s3" "err \<noteq> None"
        | (nosync) "tr = s # tr3 @ [?s4]" "c' = ?s4" "err \<noteq> None"
        | (finished) "tr = s # tr3 @ [?s4]" "SyncDir ?s4 (path_Dir name) = Inr c'" "err = None"
      proof (cases "attempt (fault k3) (fs_Rename s3 ?tmp name)")
        case (Inl e)
        then show ?thesis using run that(1) by (auto simp: None)
      next
        case (Inr s4)
        then have s4: "s4 = ?s4" using F(3) by (auto simp: attempt_def fs_Rename_def cl Let_def split: if_splits)
        have run1: "(case attempt (fault (k3 + 1)) (SyncDir ?s4 (path_Dir name)) of
            Inl e \<Rightarrow> (s # tr3 @ [?s4], ?s4, Some e) | Inr c5 \<Rightarrow> (s # tr3 @ [?s4], c5, None)) = (tr, c', err)"
          using run unfolding None option.case Inr sum.case s4 .
        show ?thesis
        proof (cases "attempt (fault (k3 + 1)) (SyncDir ?s4 (path_Dir name))")
          case (Inl e)
          then show ?thesis using run1 by (intro that(2)) auto
        next
          case (Inr s5)
          then have "SyncDir ?s4 (path_Dir name) = Inr s5" by (simp add: attempt_def split: if_splits)
          then show ?thesis using run1 Inr by (intro that(3)) auto
        qed
      qed
      note cases = this
      have d4: "dirs ?s4 = dirs c" using F(2) by (simp add: untouched_def)
      have g4: "good name ?s4" and o4: "outcomes name ?s4 \<subseteq> outcomes name c \<union> {Some (concat chunks)}"
      proof -
        show "good name ?s4"
          using F(2,3) data unfolding untouched_def good_def synced_def by auto
        have "durable name ?s4 = durable name s3" by (simp add: durable_def)
        then show "outcomes name ?s4 \<subseteq> outcomes name c \<union> {Some (concat chunks)}"
          using data untouched_outcomes[OF F(2)] by (auto simp: outcomes_def content_def)
      qed
      from cases show ?thesis
      proof cases
        case norename
        then show ?thesis using U O F data by auto
      next
        case nosync
        then show ?thesis using U O F data g4 o4 d4 by auto
      next
        case finished
        let ?dir = "let d = clean (path_Dir name) in if d = '''' then ''.'' else d"
        have c': "c' = ?s4\<lparr> SyncCount := SyncCount ?s4 + 1,
            durNS := (\<lambda>n. if dirOf n = ?dir then ns ?s4 n else durNS ?s4 n) \<rparr>"
          using finished(2) by (auto simp: SyncDir_def Let_def split: if_splits)
        have d: "dirOf name = ?dir" "dirOf ?tmp = ?dir" using p by (auto simp: plain_name_def Let_def)
        have n: "ns c' name = Some (cf_in f)" "durNS c' name = Some (cf_in f)" "ns c' ?tmp = None" "durNS c' ?tmp = None"
          "inodes c' = inodes s3" unfolding c' using d by simp_all
        have "good name c'" unfolding good_def synced_def n using data by (simp add: synced_def)
        moreover have "outcomes name c' = {Some (concat chunks)}"
          unfolding outcomes_def content_def durable_def n using data unfolding synced_def by (metis insert_absorb2 option.map(2))
        moreover have "dirs c' = dirs c" unfolding c' using d4 by simp
        ultimately show ?thesis using finished(1,3) U O F data g4 o4 d4 by auto
      qed
    qed
  qed
  then show "\<forall>s \<in> set tr \<union> {c'}. good name s \<and> dirs s = dirs c \<and> outcomes name s \<subseteq> outcomes name c \<union> {Some (concat chunks)}"
    "err = None \<Longrightarrow> outcomes name c' = {Some (concat chunks)}"
    "ferr \<noteq> None \<Longrightarrow> err \<noteq> None \<and> outcomes name c' = outcomes name c" by blast+
qed

text \<open>A power loss keeps \<open>good\<close> and leaves only the durable content.\<close>

lemma Crash_guarantee:
  assumes "good name c"
  shows "good name (Crash c model rngs)" "outcomes name (Crash c model rngs) = {durable name c}"
    "durable name c \<in> outcomes name c"
proof -
  have nd: "inodes (Crash c model rngs) ! i = \<lparr> cur = dur (inodes c ! i), dur = dur (inodes c ! i) \<rparr>"
    if "durNS c name = Some i" for i
    using that assms by (auto simp: Crash_def good_def synced_def crash_inode_synced)
  have len: "length (inodes (Crash c model rngs)) = length (inodes c)" by (simp add: Crash_def)
  have ns: "ns (Crash c model rngs) = durNS c" "durNS (Crash c model rngs) = durNS c" by (simp_all add: Crash_def)
  show "good name (Crash c model rngs)"
    unfolding good_def synced_def ns len using assms nd by (auto simp: good_def synced_def)
  show "outcomes name (Crash c model rngs) = {durable name c}"
    unfolding outcomes_def content_def durable_def ns using nd by (cases "durNS c name") auto
  show "durable name c \<in> outcomes name c" by (simp add: outcomes_def)
qed

lemma ReadFile_content:
  assumes "clean name = name" "ReadFile c name m = Inr b"
  shows "content name c = Some b"
proof (cases "ns c name")
  case None
  then show ?thesis using assms by (auto simp: ReadFile_def OpenFile_def Let_def split: if_splits)
next
  case (Some i)
  then show ?thesis
    using assms by (auto simp: ReadFile_def OpenFile_def Let_def content_def file_Size_def ReadAt_def split: if_splits)
qed

lemma ReadFile_ok:
  assumes "clean name = name" "content name c = Some b" "dirs c (dirOf name)" "length b \<le> m"
  shows "ReadFile c name m = Inr b"
  using assms by (auto simp: ReadFile_def OpenFile_def Let_def content_def file_Size_def ReadAt_def)

section \<open>The contract of a durable file\<close>

text \<open>
  What the clients of one durably replaced file rely on: every state a replacement passes
  through, and every state after a crash, shows only contents that were possible before or
  the new one, and a replacement that succeeds leaves only the new content possible.
\<close>

locale durable_file =
  fixes ok :: "'s \<Rightarrow> bool"
    and outcome :: "'s \<Rightarrow> bytes option set"
    and load :: "'s \<Rightarrow> bytes result"
    and replace :: "'f \<Rightarrow> 's \<Rightarrow> bytes \<Rightarrow> 's list \<times> 's \<times> error option"
    and crash :: "'r \<Rightarrow> 's \<Rightarrow> 's"
  assumes load_outcome: "ok s \<Longrightarrow> load s = Inr b \<Longrightarrow> Some b \<in> outcome s"
    and replace_states: "ok s \<Longrightarrow> replace fl s b = (tr, s', err) \<Longrightarrow> x \<in> set tr \<union> {s'} \<Longrightarrow>
      ok x \<and> outcome x \<subseteq> outcome s \<union> {Some b}"
    and replace_done: "ok s \<Longrightarrow> replace fl s b = (tr, s', None) \<Longrightarrow> outcome s' = {Some b}"
    and crash_states: "ok s \<Longrightarrow> ok (crash r s) \<and> outcome (crash r s) \<subseteq> outcome s"
begin

text \<open>\<open>P\<close> holds of the content whatever happens next.\<close>

definition surely :: "(bytes option \<Rightarrow> bool) \<Rightarrow> 's \<Rightarrow> bool" where
  "surely P s \<longleftrightarrow> ok s \<and> (\<forall>x \<in> outcome s. P x)"

lemma surely_replace:
  assumes "surely P s" "P (Some b)" "replace fl s b = (tr, s', err)" "x \<in> set tr \<union> {s'}"
  shows "surely P x"
  using assms replace_states[OF _ assms(3,4)] by (auto simp: surely_def)

lemma surely_replaced:
  assumes "surely P s" "replace fl s b = (tr, s', None)"
  shows "surely (\<lambda>x. x = Some b) s'"
  using assms replace_done[of s fl b tr s'] replace_states[of s fl b tr s' None s'] by (auto simp: surely_def)

lemma surely_crash: "surely P s \<Longrightarrow> surely P (crash r s)"
  using crash_states[of s r] by (auto simp: surely_def)

lemma surely_crash_in_replace:
  assumes "surely P s" "P (Some b)" "replace fl s b = (tr, s', err)" "x \<in> {s} \<union> set tr \<union> {s'}"
  shows "surely P (crash r x)"
  using assms surely_replace[OF assms(1-3)] surely_crash by blast

lemma surely_load: "surely P s \<Longrightarrow> load s = Inr b \<Longrightarrow> P (Some b)"
  using load_outcome by (auto simp: surely_def)

lemma surely_mono: "surely P s \<Longrightarrow> (\<And>x. P x \<Longrightarrow> Q x) \<Longrightarrow> surely Q s"
  by (auto simp: surely_def)

end

interpretation crash_file: durable_file "\<lambda>c. plain_name name \<and> good name c" "outcomes name" "\<lambda>c. ReadFile c name m"
    "\<lambda>fault c b. ReplaceFile fault c name b" "\<lambda>(model, rngs) c. Crash c model rngs"
proof unfold_locales
  fix c b assume "plain_name name \<and> good name c" "ReadFile c name m = Inr b"
  then show "Some b \<in> outcomes name c"
    using ReadFile_content[of name c m b] by (auto simp: plain_name_def outcomes_def)
next
  fix c fl b tr c' err x
  assume g: "plain_name name \<and> good name c" and r: "ReplaceFile fl c name b = (tr, c', err)" and x: "x \<in> set tr \<union> {c'}"
  then have "good name x \<and> outcomes name x \<subseteq> outcomes name c \<union> {Some (concat [b])}"
    using ReplaceFileStream_guarantee(1) unfolding ReplaceFile_def by blast
  then show "(plain_name name \<and> good name x) \<and> outcomes name x \<subseteq> outcomes name c \<union> {Some b}" using g by simp
next
  fix c fl b tr c' assume "plain_name name \<and> good name c" "ReplaceFile fl c name b = (tr, c', None)"
  then show "outcomes name c' = {Some b}" using ReplaceFileStream_guarantee(2) unfolding ReplaceFile_def by fastforce
next
  fix c and r :: "crash_model \<times> (nat \<Rightarrow> rng)" assume "plain_name name \<and> good name c"
  then show "(plain_name name \<and> good name ((\<lambda>(model, rngs) c. Crash c model rngs) r c)) \<and>
      outcomes name ((\<lambda>(model, rngs) c. Crash c model rngs) r c) \<subseteq> outcomes name c"
    using Crash_guarantee[of name c] by (cases r) auto
qed

section \<open>Plain names\<close>

definition plain_part :: "string \<Rightarrow> bool" where
  "plain_part s \<longleftrightarrow> CHR ''/'' \<notin> set s \<and> s \<noteq> '''' \<and> s \<noteq> ''.'' \<and> s \<noteq> ''..''"

lemma split_slash_plain [simp]: "CHR ''/'' \<notin> set s \<Longrightarrow> split_slash s = [s]"
  by (induction s) auto

lemma split_slash_append [simp]: "CHR ''/'' \<notin> set s \<Longrightarrow> split_slash (s @ CHR ''/'' # t) = s # split_slash t"
  by (induction s) auto

lemma two_part_names:
  assumes "plain_part d" "plain_part n"
  shows "clean (d @ ''/'' @ n) = d @ ''/'' @ n" "path_Dir (d @ ''/'' @ n) = d" "dirOf (d @ ''/'' @ n) = d" "clean d = d"
proof -
  have n: "CHR ''/'' \<notin> set d" "CHR ''/'' \<notin> set n" using assms by (simp_all add: plain_part_def)
  have step: "clean_step r st d = d # st" "clean_step r st n = n # st" "clean_step r st '''' = st" for r st
    using assms by (simp_all add: clean_step_def plain_part_def)
  have rd: "d \<noteq> ''''" "hd d \<noteq> CHR ''/''" using assms(1) by (auto simp: plain_part_def dest: list.set_sel)
  show "clean (d @ ''/'' @ n) = d @ ''/'' @ n" "clean d = d"
    using n by (simp_all add: clean_def path_Clean_def Let_def step)
  have "rev (dropWhile (\<lambda>c. c \<noteq> CHR ''/'') (rev (d @ ''/'' @ n))) = d @ ''/''"
    using n by (auto simp: dropWhile_append3)
  then show pd: "path_Dir (d @ ''/'' @ n) = d"
    using n rd by (simp add: path_Dir_def path_Clean_def Let_def step)
  show "dirOf (d @ ''/'' @ n) = d" using pd rd assms(1) by (auto simp: dirOf_def Let_def)
qed

lemma plain_name_two:
  assumes "plain_part d" "plain_part n"
  shows "plain_name (d @ ''/'' @ n)"
proof -
  have "plain_part (n @ ''.tmp'')"
    using assms(2) by (cases n; cases "tl n") (auto simp: plain_part_def)
  note T = two_part_names[OF assms] and T' = two_part_names[OF assms(1) this]
  have "clean d \<noteq> ''''" using T(4) assms(1) by (simp add: plain_part_def)
  then show ?thesis unfolding plain_name_def append.assoc Let_def using T T' by simp
qed

section \<open>Without faults the replacement succeeds\<close>

lemma write_all_no_fault:
  assumes "\<forall>k. \<not> fault k" "cf_writable f" "\<not> cf_closed f"
  shows "\<exists>tr s' k'. write_all fault k s f off ps = (tr, s', k', None) \<and> ns s' = ns s \<and> dirs s' = dirs s"
proof (induction ps arbitrary: k s off)
  case (Cons p ps)
  obtain s1 where s1: "WriteAt s f p off = Inr s1" "ns s1 = ns s" "dirs s1 = dirs s"
    using assms(2,3) by (simp add: WriteAt_def Let_def)
  obtain tr s' k' where "write_all fault (k + 1) s1 f (off + length p) ps = (tr, s', k', None)" "ns s' = ns s1" "dirs s' = dirs s1"
    using Cons by blast
  moreover have "\<not> fault k" using assms(1) by blast
  ultimately show ?case using s1 by simp
qed simp

lemma ReplaceFileStream_succeeds:
  assumes nf: "\<forall>k. \<not> fault k" and p: "plain_name name" and d: "dirs c (dirOf name)"
  shows "\<exists>tr c'. ReplaceFileStream fault c name chunks None = (tr, c', None) \<and> dirs c' = dirs c"
proof -
  let ?tmp = "name @ ''.tmp''"
  have cl: "clean name = name" "clean ?tmp = ?tmp" "dirOf ?tmp = dirOf name" using p by (simp_all add: plain_name_def)
  obtain s f where o: "OpenFile c ?tmp replace_flags = Inr (s, f)" "ns s ?tmp = Some (cf_in f)" "dirs s = dirs c"
    "cf_writable f" "\<not> cf_closed f"
    using d cl by (cases "ns c ?tmp") (simp_all add: OpenFile_def replace_flags_def Let_def trunc_inode_def)
  obtain tr s2 k where w: "write_all fault 1 s f 0 (fill_writes chunks None) = (tr, s2, k, None)" "ns s2 = ns s" "dirs s2 = dirs s"
    using write_all_no_fault[OF nf o(4,5)] by blast
  obtain s3 where s3: "file_Sync s2 f = Inr s3" "ns s3 = ns s2" "dirs s3 = dirs s2"
    using o(5) by (simp add: file_Sync_def Let_def)
  have fl: "fill_tmp fault s f chunks None = (tr @ [s3], s3, k + 2, None)"
    unfolding fill_tmp_def Let_def w(1) prod.case using nf s3 by (simp add: attempt_def)
  obtain s4 where s4: "fs_Rename s3 ?tmp name = Inr s4" "dirs s4 = dirs s3"
    using o s3 w d cl by (simp add: fs_Rename_def Let_def)
  obtain s5 where s5: "SyncDir s4 (path_Dir name) = Inr s5" "dirs s5 = dirs s4"
    using o s3 w s4 d p by (auto simp: SyncDir_def Let_def plain_name_def)
  have "ReplaceFileStream fault c name chunks None = (s # (tr @ [s3]) @ [s4], s5, None)"
    unfolding ReplaceFileStream_def Let_def using nf o(1) s4(1) s5(1) by (simp add: attempt_def fl)
  then show ?thesis using s5 s4 s3 w o by simp
qed

lemma ReplaceFile_succeeds:
  "\<forall>k. \<not> fault k \<Longrightarrow> plain_name name \<Longrightarrow> dirs c (dirOf name) \<Longrightarrow> \<exists>tr c'. ReplaceFile fault c name data = (tr, c', None) \<and> dirs c' = dirs c"
  unfolding ReplaceFile_def by (rule ReplaceFileStream_succeeds)

section \<open>Properties\<close>

lemma ReplaceFileStream_dirs:
  assumes "good name c" "plain_name name" "ReplaceFileStream fault c name chunks ferr = (tr, c', None)"
  shows "dirs c' = dirs c" "dirs c (dirOf name)"
proof -
  obtain c1 f where o: "OpenFile c (name @ ''.tmp'') replace_flags = Inr (c1, f)"
    using assms(3) by (auto simp: ReplaceFileStream_def attempt_def Let_def split: sum.splits if_splits)
  note T = OpenFile_tmp[OF assms(1,2) o]
  obtain tr1 c3 k err where ft: "fill_tmp fault c1 f chunks ferr = (tr1, c3, k, err)" by (cases "fill_tmp fault c1 f chunks ferr")
  have "untouched name c c3" using T fill_tmp_ok[OF _ _ _ _ ft, of name c] by blast
  then have d: "dirs c3 = dirs c" by (simp add: untouched_def)
  show "dirs c' = dirs c"
    using assms(3) o ft d by (auto simp: ReplaceFileStream_def attempt_def Let_def fs_Rename_def SyncDir_def
        split: sum.splits if_splits option.splits)
  show "dirs c (dirOf name)"
    using assms(2,3) o ft d by (auto simp: ReplaceFileStream_def attempt_def Let_def fs_Rename_def plain_name_def
        split: sum.splits if_splits option.splits)
qed

text \<open>C2: Replacing a file is atomic under power loss. Whenever the machine stops, before, at any point of, or after a
  replacement, with any torn or dropped writes and with any injected I/O error: whatever is read after the restart is the
  complete old content or the complete new content, and a file that existed is never lost, reading it succeeds.\<close>

theorem replace_is_crash_atomic:
  assumes "good name c" "plain_name name" "ReplaceFileStream fault c name chunks ferr = (tr, c', err)" "s \<in> {c} \<union> set tr \<union> {c'}"
  shows "(\<forall>b. ReadFile (Crash s model rngs) name m = Inr b \<longrightarrow> b = concat chunks \<or> content name c = Some b \<or> durable name c = Some b) \<and>
    (\<forall>old old'. content name c = Some old \<and> durable name c = Some old' \<and> dirs c (dirOf name) \<and> (\<forall>b \<in> {old, old', concat chunks}. length b \<le> m) \<longrightarrow>
       ReadFile (Crash s model rngs) name m \<in> {Inr old, Inr old', Inr (concat chunks)})"
proof -
  have s: "good name s" "dirs s = dirs c" "outcomes name s \<subseteq> outcomes name c \<union> {Some (concat chunks)}"
    using ReplaceFileStream_guarantee(1)[OF assms(1-3)] assms(1,4) by auto
  have cr: "content name (Crash s model rngs) \<in> outcomes name c \<union> {Some (concat chunks)}"
    using Crash_guarantee(2,3)[OF s(1)] s(3) by (auto simp: outcomes_def)
  have cl: "clean name = name" using assms(2) by (simp add: plain_name_def)
  have "b = concat chunks \<or> content name c = Some b \<or> durable name c = Some b" if "ReadFile (Crash s model rngs) name m = Inr b" for b
    using ReadFile_content[OF cl that] cr by (auto simp: outcomes_def)
  moreover have "ReadFile (Crash s model rngs) name m \<in> {Inr old, Inr old', Inr (concat chunks)}"
    if o: "content name c = Some old" "durable name c = Some old'" "dirs c (dirOf name)" "\<forall>b \<in> {old, old', concat chunks}. length b \<le> m" for old old'
  proof -
    obtain b where b: "content name (Crash s model rngs) = Some b" "b \<in> {old, old', concat chunks}" using cr o(1,2) by (auto simp: outcomes_def)
    have "dirs (Crash s model rngs) (dirOf name)" using o(3) s(2) by (simp add: Crash_def)
    then show ?thesis using ReadFile_ok[OF cl b(1)] b(2) o(4) by auto
  qed
  ultimately show ?thesis by blast
qed

definition sample_fs :: CrashFS where
  "sample_fs = NewCrashFS\<lparr> dirs := (\<lambda>d. d = ''.'' \<or> d = ''alloc'') \<rparr>"

lemma good_sample_fs: "good name sample_fs"
  by (simp add: good_def sample_fs_def NewCrashFS_def)

lemma plain_sample_name: "plain_name ''alloc/filever.alloc''" "dirOf ''alloc/filever.alloc'' = ''alloc''"
  using plain_name_two[of "''alloc''" "''filever.alloc''"] two_part_names(3)[of "''alloc''" "''filever.alloc''"]
  by (simp_all add: plain_part_def)

lemma sample_replaced:
  "\<exists>tr c'. ReplaceFile (\<lambda>_. False) sample_fs ''alloc/filever.alloc'' data = (tr, c', None) \<and> dirs c' = dirs sample_fs"
  by (rule ReplaceFile_succeeds[OF _ plain_sample_name(1)]) (simp_all add: plain_sample_name(2) sample_fs_def)

theorem replace_is_crash_atomic_witness:
  "\<exists>c tr c'. ReplaceFileStream (\<lambda>_. False) c ''alloc/filever.alloc'' [[1, 2]] None = (tr, c', None) \<and>
     (\<forall>s \<in> {c} \<union> set tr \<union> {c'}. ReadFile (Crash s CrashTearGarbage (\<lambda>_. (\<lambda>_. 0, 0))) ''alloc/filever.alloc'' 9 \<in> {Inr [7, 8, 9], Inr [1, 2]})"
proof -
  let ?n = "''alloc/filever.alloc''"
  obtain tr0 c where r0: "ReplaceFileStream (\<lambda>_. False) sample_fs ?n [[7, 8, 9]] None = (tr0, c, None)" "dirs c = dirs sample_fs"
    using sample_replaced[of "[7, 8, 9]"] by (auto simp: ReplaceFile_def)
  note G = ReplaceFileStream_guarantee(1,2)[OF good_sample_fs plain_sample_name(1) r0(1)]
  have g: "good ?n c" and o: "content ?n c = Some [7, 8, 9]" "durable ?n c = Some [7, 8, 9]" and d: "dirs c (dirOf ?n)"
    using G r0(2) by (auto simp: outcomes_def doubleton_eq_iff plain_sample_name(2) sample_fs_def)
  obtain tr c' where r: "ReplaceFileStream (\<lambda>_. False) c ?n [[1, 2]] None = (tr, c', None)"
    using ReplaceFile_succeeds[OF _ plain_sample_name(1) d, of "\<lambda>_. False" "[1, 2]"] by (auto simp: ReplaceFile_def)
  have "ReadFile (Crash s CrashTearGarbage (\<lambda>_. (\<lambda>_. 0, 0))) ?n 9 \<in> {Inr [7, 8, 9], Inr [1, 2]}" if "s \<in> {c} \<union> set tr \<union> {c'}" for s
    using replace_is_crash_atomic[OF g plain_sample_name(1) r that, of CrashTearGarbage "\<lambda>_. (\<lambda>_. 0, 0)" 9] o d by auto
  then show ?thesis using r by blast
qed

text \<open>C30: When a replacement reports success, the new content is what is read, also after any later power loss.\<close>

theorem replace_is_durable:
  assumes "good name c" "plain_name name" "ReplaceFileStream fault c name chunks ferr = (tr, c', None)" "length (concat chunks) \<le> m"
  shows "ReadFile c' name m = Inr (concat chunks) \<and> ReadFile (Crash c' model rngs) name m = Inr (concat chunks)"
proof -
  note d = ReplaceFileStream_dirs[OF assms(1-3)]
  have g: "good name c'" and o: "outcomes name c' = {Some (concat chunks)}"
    using ReplaceFileStream_guarantee[OF assms(1-3)] by auto
  have "outcomes name (Crash c' model rngs) = {Some (concat chunks)}" using Crash_guarantee(2,3)[OF g] o by auto
  then have "content name c' = Some (concat chunks)" "content name (Crash c' model rngs) = Some (concat chunks)"
    using o by (simp_all add: outcomes_def)
  then show ?thesis using ReadFile_ok assms(2,4) d by (auto simp: plain_name_def Crash_def)
qed

theorem replace_is_durable_witness:
  "\<exists>tr c'. ReplaceFileStream (\<lambda>_. False) sample_fs ''alloc/filever.alloc'' [[1, 2]] None = (tr, c', None) \<and>
     ReadFile (Crash c' CrashTearGarbage (\<lambda>_. (\<lambda>_. 0, 0))) ''alloc/filever.alloc'' 9 = Inr [1, 2]"
proof -
  obtain tr c' where r: "ReplaceFileStream (\<lambda>_. False) sample_fs ''alloc/filever.alloc'' [[1, 2]] None = (tr, c', None)"
    using sample_replaced[of "[1, 2]"] by (auto simp: ReplaceFile_def)
  show ?thesis using r replace_is_durable[OF good_sample_fs plain_sample_name(1) r, of 9 CrashTearGarbage "\<lambda>_. (\<lambda>_. 0, 0)"] by auto
qed

text \<open>When the caller's fill function fails, the replacement reports an error and neither the current nor the durable
  content of the file has changed.\<close>

lemma failed_fill_keeps_file:
  assumes "good name c" "plain_name name" "ReplaceFileStream fault c name chunks (Some e) = (tr, c', err)"
  shows "err \<noteq> None \<and> content name c' \<in> outcomes name c \<and> durable name c' \<in> outcomes name c \<and> outcomes name c' = outcomes name c"
  using ReplaceFileStream_guarantee(3)[OF assms] by (auto simp: outcomes_def)

end
