(* ===== verification/Alloc.thy ===== *)
theory Alloc
  imports Wire_Header Vfs
begin

text \<open>
  Package \<^verbatim>\<open>internal/alloc\<close>: identifiers are handed out only below a durably stored
  \<open>reserved_through\<close>. The operations thread the file system and the allocator explicitly and
  report the states the durable write passes through; \<open>OnReserve\<close> is a parameter, as is the
  fault oracle of the file system. The step relation \<open>alloc_step\<close> interleaves opening, handing
  out, I/O errors and power loss at any point; its invariant gives that no identifier is ever
  issued twice.
\<close>

section \<open>Namespaces\<close>

definition hexDigit :: "nat \<Rightarrow> char" where
  "hexDigit d = (''0123456789ABCDEF'' ! d)"

definition FileName :: "AllocKind \<Rightarrow> byte \<Rightarrow> string" where
  "FileName kind blob =
    (if kind = AllocGeneration then ''alloc/generation.alloc''
     else if kind = AllocFileVer then ''alloc/filever.alloc''
     else if kind = AllocManifestSeq then ''alloc/manifest.alloc''
     else if kind = AllocGroupID then ''alloc/groups.alloc''
     else ''alloc/blob-'' @ [hexDigit (unat blob div 16), hexDigit (unat blob mod 16)] @ ''.alloc'')"

definition Limit :: "AllocKind \<Rightarrow> bool \<Rightarrow> u64" where
  "Limit kind encrypted =
    (if kind = AllocGroupID then 0x100000000
     else if kind = AllocGeneration \<and> encrypted then 0x100000000
     else if kind = AllocFrameOrdinal \<and> encrypted then 0x100000000000000
     else 0xFFFFFFFFFFFFFFFF)"

definition Start :: "AllocKind \<Rightarrow> u64" where
  "Start kind = (if kind = AllocGeneration \<or> kind = AllocFrameOrdinal then 0 else 1)"

record Identity =
  id_Kind :: AllocKind
  id_Blob :: byte
  id_GenerationID :: u64
  id_ArchiveID :: bytes
  id_Encrypted :: bool

definition Identity_state :: "Identity \<Rightarrow> u64 \<Rightarrow> AllocState" where
  "Identity_state ident reserved =
    \<lparr> a_Kind = id_Kind ident,
      a_BlobOrdinal = (if id_Kind ident = AllocFrameOrdinal then id_Blob ident else 0),
      a_GenerationID = (if PerGeneration (id_Kind ident) then id_GenerationID ident else 0),
      a_ReservedThrough = reserved, a_ArchiveID = id_ArchiveID ident \<rparr>"

section \<open>Operations\<close>

record Allocator =
  al_name :: string
  al_id :: Identity
  al_block :: u64
  al_limit :: u64
  al_next :: u64
  al_reserved :: u64

definition alloc_write :: "(nat \<Rightarrow> bool) \<Rightarrow> CrashFS \<Rightarrow> string \<Rightarrow> AllocState \<Rightarrow> CrashFS list \<times> CrashFS \<times> error option" where
  "alloc_write fault fs name s =
    (case AllocState_AppendBinary s [] of Inl e \<Rightarrow> ([], fs, Some e) | Inr b \<Rightarrow> ReplaceFile fault fs name b)"

definition alloc_Create :: "(nat \<Rightarrow> bool) \<Rightarrow> CrashFS \<Rightarrow> string \<Rightarrow> Identity \<Rightarrow> CrashFS list \<times> CrashFS \<times> error option" where
  "alloc_Create fault fs name ident =
    (case fs_Stat fs name of
       Inr _ \<Rightarrow> ([], fs, Some (Err ErrInvalid ''alloc'' ''exists''))
     | Inl _ \<Rightarrow> alloc_write fault fs name (Identity_state ident (Start (id_Kind ident))))"

definition alloc_Open :: "CrashFS \<Rightarrow> string \<Rightarrow> Identity \<Rightarrow> u64 \<Rightarrow> Allocator result" where
  "alloc_Open fs name ident block =
    (case ReadFile fs name (AllocStateSize + 1) of Inl e \<Rightarrow> Inl e
     | Inr b \<Rightarrow>
       (case DecodeAllocState b of Inl e \<Rightarrow> Inl e
        | Inr s \<Rightarrow>
          if s \<noteq> Identity_state ident (a_ReservedThrough s) then errf ErrCorrupt ''alloc'' ''identity''
          else
            let maxBlock = MaxReservationBlock (id_Kind ident);
                a = \<lparr> al_name = name, al_id = ident,
                      al_block = (if block = 0 \<or> block > maxBlock then maxBlock else block),
                      al_limit = Limit (id_Kind ident) (id_Encrypted ident),
                      al_next = a_ReservedThrough s, al_reserved = a_ReservedThrough s \<rparr>
            in if al_reserved a > al_limit a then errf ErrCorrupt ''alloc'' ''reserved_through''
               else Inr (if al_next a < Start (id_Kind ident) then a\<lparr> al_next := Start (id_Kind ident) \<rparr> else a)))"

definition ReservedThrough :: "Allocator \<Rightarrow> u64" where
  "ReservedThrough a = al_reserved a"

definition alloc_Check :: "Allocator \<Rightarrow> u64 \<Rightarrow> bool \<Rightarrow> unit result" where
  "alloc_Check a maxObserved observed =
    (if observed \<and> al_reserved a \<le> maxObserved then errf ErrRolledBack ''alloc'' ''reserved_through'' else Inr ())"

definition extendLocked :: "(AllocKind \<Rightarrow> u64 \<Rightarrow> error option) option \<Rightarrow> (nat \<Rightarrow> bool) \<Rightarrow> Allocator \<Rightarrow> CrashFS
    \<Rightarrow> CrashFS list \<times> CrashFS \<times> Allocator \<times> error option" where
  "extendLocked onReserve fault a fs =
    (if al_reserved a \<ge> al_limit a then ([], fs, a, Some (Err ErrExhausted ''alloc'' ''''))
     else
       let r = al_reserved a + min (al_block a) (al_limit a - al_reserved a) in
       case alloc_write fault fs (al_name a) (Identity_state (al_id a) r) of (tr, fs', err) \<Rightarrow>
         (case err of Some e \<Rightarrow> (tr, fs', a, Some e)
          | None \<Rightarrow>
            (case (case onReserve of None \<Rightarrow> None | Some f \<Rightarrow> f (id_Kind (al_id a)) r) of
               Some e \<Rightarrow> (tr, fs', a\<lparr> al_next := r, al_reserved := r \<rparr>, Some e)
             | None \<Rightarrow> (tr, fs', a\<lparr> al_reserved := r \<rparr>, None))))"

definition alloc_Next :: "(AllocKind \<Rightarrow> u64 \<Rightarrow> error option) option \<Rightarrow> (nat \<Rightarrow> bool) \<Rightarrow> Allocator \<Rightarrow> CrashFS
    \<Rightarrow> CrashFS list \<times> CrashFS \<times> Allocator \<times> u64 result" where
  "alloc_Next onReserve fault a fs =
    (case (if al_next a \<ge> al_reserved a then extendLocked onReserve fault a fs else ([], fs, a, None)) of
       (tr, fs', a', Some e) \<Rightarrow> (tr, fs', a', Inl e)
     | (tr, fs', a', None) \<Rightarrow> (tr, fs', a'\<lparr> al_next := al_next a' + 1 \<rparr>, Inr (al_next a')))"

definition reinitReserved :: "Identity \<Rightarrow> u64 \<Rightarrow> bool \<Rightarrow> u64" where
  "reinitReserved ident maxObserved observed =
    (let limit = Limit (id_Kind ident) (id_Encrypted ident);
         base = (if observed then maxObserved else Start (id_Kind ident));
         skip = ReinitSkip (id_Kind ident)
     in if base < limit \<and> limit - base > skip then base + skip else limit)"

definition alloc_Reinit :: "(nat \<Rightarrow> bool) \<Rightarrow> CrashFS \<Rightarrow> string \<Rightarrow> Identity \<Rightarrow> u64 \<Rightarrow> bool \<Rightarrow> bool
    \<Rightarrow> CrashFS list \<times> CrashFS \<times> error option" where
  "alloc_Reinit fault fs name ident maxObserved observed logf =
    (if \<not> logf then ([], fs, Some (Err ErrInvalid ''alloc'' ''log''))
     else alloc_write fault fs name (Identity_state ident (reinitReserved ident maxObserved observed)))"

section \<open>The allocator and its file\<close>

definition wf_identity :: "Identity \<Rightarrow> bool" where
  "wf_identity ident \<longleftrightarrow> length (id_ArchiveID ident) = 32 \<and> AllocKind_Valid (id_Kind ident) \<and>
     (id_Kind ident = AllocFrameOrdinal \<longrightarrow> id_Blob ident \<le> MaxBlobOrdinal)"

definition state_bytes :: "Identity \<Rightarrow> u64 \<Rightarrow> bytes" where
  "state_bytes ident r = (case AllocState_AppendBinary (Identity_state ident r) [] of Inl _ \<Rightarrow> [] | Inr b \<Rightarrow> b)"

lemma Identity_state_wf: "wf_identity ident \<Longrightarrow> wf_allocstate (Identity_state ident r)"
  by (auto simp: wf_identity_def wf_allocstate_def Identity_state_def AllocState_Validate_def not_less)

lemma Identity_state_inj [simp]: "Identity_state ident r = Identity_state ident r' \<longleftrightarrow> r = r'"
  by (simp add: Identity_state_def)

lemma Identity_state_ReservedThrough [simp]: "a_ReservedThrough (Identity_state ident r) = r"
  by (simp add: Identity_state_def)

lemma state_bytes_encodes:
  assumes "wf_identity ident"
  shows "AllocState_AppendBinary (Identity_state ident r) [] = Inr (state_bytes ident r)"
    "DecodeAllocState (state_bytes ident r) = Inr (Identity_state ident r)" "length (state_bytes ident r) = 64"
  using alloc_codec.round_trip[OF Identity_state_wf[OF assms, of r]] by (auto simp: state_bytes_def)

lemma alloc_write_state:
  "wf_identity ident \<Longrightarrow> alloc_write fault fs name (Identity_state ident r) = ReplaceFile fault fs name (state_bytes ident r)"
  by (simp add: alloc_write_def state_bytes_encodes)

text \<open>Every content of the file that may be seen is a state of this allocator, at or above \<open>k\<close>.\<close>

definition holds_at_least :: "string \<Rightarrow> Identity \<Rightarrow> u64 \<Rightarrow> CrashFS \<Rightarrow> bool" where
  "holds_at_least name ident k fs \<longleftrightarrow> plain_name name \<and> good name fs \<and>
     (\<forall>x \<in> outcomes name fs. \<exists>r. x = Some (state_bytes ident r) \<and> k \<le> r)"

lemma holds_at_least_surely:
  "holds_at_least name ident k fs \<longleftrightarrow>
     crash_file.surely name (\<lambda>x. \<exists>r. x = Some (state_bytes ident r) \<and> k \<le> r) fs"
  by (auto simp: holds_at_least_def crash_file.surely_def)

lemma holds_mono: "holds_at_least name ident k fs \<Longrightarrow> k' \<le> k \<Longrightarrow> holds_at_least name ident k' fs"
  unfolding holds_at_least_def by (meson order_trans)

lemma holds_crash: "holds_at_least name ident k fs \<Longrightarrow> holds_at_least name ident k (Crash fs model rngs)"
  unfolding holds_at_least_surely using crash_file.surely_crash[of name _ fs "(model, rngs)"] by simp

lemma holds_write:
  assumes "wf_identity ident" "holds_at_least name ident k fs" "k \<le> r"
    "alloc_write fault fs name (Identity_state ident r) = (tr, fs', err)" "x \<in> set tr \<union> {fs'}"
  shows "holds_at_least name ident k x"
  using assms(1,3,4) unfolding holds_at_least_surely
  by (intro crash_file.surely_replace[OF assms(2)[unfolded holds_at_least_surely] _ _ assms(5)])
    (auto simp: alloc_write_state)

lemma holds_written:
  assumes "wf_identity ident" "holds_at_least name ident k fs"
    "alloc_write fault fs name (Identity_state ident r) = (tr, fs', None)"
  shows "holds_at_least name ident r fs'"
proof -
  have "crash_file.surely name (\<lambda>x. x = Some (state_bytes ident r)) fs'"
    using assms crash_file.surely_replaced[OF assms(2)[unfolded holds_at_least_surely]] by (simp add: alloc_write_state)
  then show ?thesis unfolding holds_at_least_surely by (rule crash_file.surely_mono) auto
qed

lemma holds_read:
  assumes "wf_identity ident" "holds_at_least name ident k fs" "alloc_Open fs name ident block = Inr a" "Start (id_Kind ident) \<le> k"
  shows "al_name a = name" "al_id a = ident" "al_next a = al_reserved a" "k \<le> al_reserved a"
    "al_limit a = Limit (id_Kind ident) (id_Encrypted ident)" "al_reserved a \<le> al_limit a" "0 < al_block a"
proof -
  obtain b where b: "ReadFile fs name 65 = Inr b" using assms(3) by (auto simp: alloc_Open_def split: sum.splits)
  then obtain r where r: "b = state_bytes ident r" "k \<le> r"
    using crash_file.surely_load[OF assms(2)[unfolded holds_at_least_surely], of 65 b] by auto
  have nst: "\<not> r < Start (id_Kind ident)" using assms(4) r(2) by (meson leD order_trans)
  have "0 < MaxReservationBlock (id_Kind ident)" by (simp add: MaxReservationBlock_def)
  then show "al_name a = name" "al_id a = ident" "al_next a = al_reserved a" "k \<le> al_reserved a"
    "al_limit a = Limit (id_Kind ident) (id_Encrypted ident)" "al_reserved a \<le> al_limit a" "0 < al_block a"
    using assms(3) b r nst unfolding alloc_Open_def
    by (auto simp: state_bytes_encodes(2)[OF assms(1)] Let_def not_less word_neq_0_conv split: if_splits)
qed

section \<open>The running allocator\<close>

text \<open>Facts of an open allocator of \<open>ident\<close> on the file \<open>name\<close>.\<close>

definition running :: "string \<Rightarrow> Identity \<Rightarrow> Allocator \<Rightarrow> bool" where
  "running name ident a \<longleftrightarrow> al_name a = name \<and> al_id a = ident \<and> 0 < al_block a \<and>
     al_limit a = Limit (id_Kind ident) (id_Encrypted ident) \<and> al_next a \<le> al_reserved a \<and> al_reserved a \<le> al_limit a"

lemma extend_value:
  fixes res lim blk :: u64
  assumes "res < lim" "0 < blk"
  shows "res < res + min blk (lim - res)" "res + min blk (lim - res) \<le> lim"
proof -
  have lr: "unat (lim - res) = unat lim - unat res" using assms(1) by (simp add: unat_sub_u64 word_less_nat_alt)
  then have m: "unat (min blk (lim - res)) = min (unat blk) (unat lim - unat res)"
    by (simp add: min_def word_le_nat_alt)
  have "unat (res + min blk (lim - res)) = unat res + min (unat blk) (unat lim - unat res)"
    using m unat_u64_lt[of lim] assms(1) by (subst unat_add_u64) (auto simp: word_less_nat_alt)
  then show "res < res + min blk (lim - res)" "res + min blk (lim - res) \<le> lim"
    using assms by (auto simp: word_less_nat_alt word_le_nat_alt)
qed

lemma extendLocked_ok:
  assumes r: "running name ident a" and id: "wf_identity ident" and h: "holds_at_least name ident k fs"
    and k: "k \<le> al_reserved a" "al_next a = al_reserved a"
    and e: "extendLocked onR fault a fs = (tr, fs', a', err)"
  shows "(\<forall>x \<in> set tr \<union> {fs'}. holds_at_least name ident k x) \<and> running name ident a' \<and>
    al_next a \<le> al_next a' \<and> al_reserved a \<le> al_reserved a' \<and>
    (if err = None then al_next a' = al_next a \<and> al_next a' < al_reserved a' \<and> holds_at_least name ident (al_reserved a') fs'
     else al_next a' = al_reserved a')"
proof (cases "al_reserved a \<ge> al_limit a")
  case True
  then show ?thesis using e r h k by (auto simp: extendLocked_def)
next
  case False
  let ?r = "al_reserved a + min (al_block a) (al_limit a - al_reserved a)"
  obtain wtr wfs werr where w: "alloc_write fault fs name (Identity_state ident ?r) = (wtr, wfs, werr)"
    by (cases "alloc_write fault fs name (Identity_state ident ?r)") auto
  have lt: "al_reserved a < ?r" "?r \<le> al_limit a"
    using False r extend_value[of "al_reserved a" "al_limit a" "al_block a"] by (auto simp: running_def)
  then have "k \<le> ?r" using k(1) by (meson less_imp_le order_trans)
  then have W: "\<forall>x \<in> set wtr \<union> {wfs}. holds_at_least name ident k x" using holds_write[OF id h _ w] by blast
  have D: "werr = None \<Longrightarrow> holds_at_least name ident ?r wfs" using holds_written[OF id h] w by simp
  have x: "extendLocked onR fault a fs = (case werr of Some e \<Rightarrow> (wtr, wfs, a, Some e)
        | None \<Rightarrow>
          (case (case onR of None \<Rightarrow> None | Some f \<Rightarrow> f (id_Kind (al_id a)) ?r) of
             Some e \<Rightarrow> (wtr, wfs, a\<lparr> al_next := ?r, al_reserved := ?r \<rparr>, Some e)
           | None \<Rightarrow> (wtr, wfs, a\<lparr> al_reserved := ?r \<rparr>, None)))"
  proof -
    have "al_name a = name" "al_id a = ident" using r by (simp_all add: running_def)
    then show ?thesis using False w by (simp add: extendLocked_def Let_def)
  qed
  have run: "running name ident (a\<lparr> al_reserved := ?r \<rparr>)" "running name ident (a\<lparr> al_next := ?r, al_reserved := ?r \<rparr>)"
    "al_next a \<le> ?r"
    using r lt by (auto simp: running_def)
  show ?thesis
  proof (cases werr)
    case (Some ee)
    then show ?thesis using e[unfolded x] W k r by auto
  next
    case None
    then show ?thesis
      using e[unfolded x] W D[OF None] run lt k(2)
      by (cases "case onR of None \<Rightarrow> None | Some f \<Rightarrow> f (id_Kind (al_id a)) ?r") auto
  qed
qed

lemma word_succ_below: "x < y \<Longrightarrow> x < x + 1 \<and> x + 1 \<le> (y :: u64)"
proof -
  assume "x < y"
  then have "unat x + 1 \<le> unat y" by (simp add: word_less_nat_alt)
  moreover from this have "unat (x + 1) = unat x + 1" using unat_u64_lt[of y] by (subst unat_add_u64) simp_all
  ultimately show ?thesis by (simp add: word_less_nat_alt word_le_nat_alt)
qed

lemma alloc_Next_ok:
  assumes r: "running name ident a" and id: "wf_identity ident" and h: "holds_at_least name ident k fs" "k \<le> al_reserved a"
    and avail: "al_next a < al_reserved a \<Longrightarrow> holds_at_least name ident (al_reserved a) fs"
    and e: "alloc_Next onR fault a fs = (tr, fs', a', res)"
  shows "(\<forall>x \<in> set tr \<union> {fs'}. holds_at_least name ident k x) \<and> running name ident a' \<and>
    al_next a \<le> al_next a' \<and> al_reserved a \<le> al_reserved a' \<and>
    (al_next a' < al_reserved a' \<longrightarrow> holds_at_least name ident (al_reserved a') fs') \<and>
    (\<forall>v. res = Inr v \<longrightarrow> v = al_next a \<and> v < al_next a' \<and> v < al_limit a' \<and> v < al_reserved a' \<and>
       holds_at_least name ident (al_reserved a') fs')"
proof -
  obtain tr1 fs1 a1 err where x: "(if al_next a \<ge> al_reserved a then extendLocked onR fault a fs else ([], fs, a, None)) = (tr1, fs1, a1, err)"
    by (cases "if al_next a \<ge> al_reserved a then extendLocked onR fault a fs else ([], fs, a, None)") auto
  have X: "(\<forall>x \<in> set tr1 \<union> {fs1}. holds_at_least name ident k x) \<and> running name ident a1 \<and>
    al_next a \<le> al_next a1 \<and> al_reserved a \<le> al_reserved a1 \<and>
    (if err = None then al_next a1 = al_next a \<and> al_next a1 < al_reserved a1 \<and> holds_at_least name ident (al_reserved a1) fs1
     else al_next a1 = al_reserved a1)"
  proof (cases "al_next a \<ge> al_reserved a")
    case True
    then have "extendLocked onR fault a fs = (tr1, fs1, a1, err)" and "al_next a = al_reserved a"
      using x r by (auto simp: running_def)
    then show ?thesis using extendLocked_ok[OF r id h] by blast
  next
    case False
    then show ?thesis using x h r avail by auto
  qed
  note E = e[unfolded alloc_Next_def x prod.case]
  show ?thesis
  proof (cases err)
    case (Some ee)
    then show ?thesis using E X by auto
  next
    case None
    then have E: "tr = tr1" "fs' = fs1" "a' = a1\<lparr> al_next := al_next a1 + 1 \<rparr>" "res = Inr (al_next a1)" using E by auto
    have lt: "al_next a1 = al_next a" "al_next a1 < al_reserved a1" using X None by auto
    note inc = word_succ_below[OF lt(2)]
    have "running name ident a'" using X inc unfolding E(3) running_def by auto
    moreover have "al_next a1 < al_limit a1" using lt X unfolding running_def by (meson less_le_trans)
    moreover have "al_next a \<le> al_next a1 + 1" using inc lt by auto
    ultimately show ?thesis using E X None lt inc by auto
  qed
qed

section \<open>Interleaving with errors and power loss\<close>

record alloc_sys =
  sys_fs :: CrashFS
  sys_alloc :: "Allocator option"
  sys_issued :: "u64 list"

text \<open>
  One step of the life of the allocator \<open>ident\<close> kept in the file \<open>name\<close>: the process opens it, asks
  for a value (with any fault pattern and any outcome of \<open>OnReserve\<close>), loses power between
  calls or inside the durable write of a call, or stops.
\<close>

inductive alloc_step :: "string \<Rightarrow> Identity \<Rightarrow> alloc_sys \<Rightarrow> alloc_sys \<Rightarrow> bool" for name ident where
  open_step: "alloc_Open fs name ident block = Inr a \<Longrightarrow>
    alloc_step name ident \<lparr> sys_fs = fs, sys_alloc = None, sys_issued = is \<rparr>
      \<lparr> sys_fs = fs, sys_alloc = Some a, sys_issued = is \<rparr>"
| next_step: "alloc_Next onR fault a fs = (tr, fs', a', Inr v) \<Longrightarrow>
    alloc_step name ident \<lparr> sys_fs = fs, sys_alloc = Some a, sys_issued = is \<rparr>
      \<lparr> sys_fs = fs', sys_alloc = Some a', sys_issued = v # is \<rparr>"
| next_error: "alloc_Next onR fault a fs = (tr, fs', a', Inl e) \<Longrightarrow>
    alloc_step name ident \<lparr> sys_fs = fs, sys_alloc = Some a, sys_issued = is \<rparr>
      \<lparr> sys_fs = fs', sys_alloc = Some a', sys_issued = is \<rparr>"
| crash_in_next: "alloc_Next onR fault a fs = (tr, fs', a', res) \<Longrightarrow> x \<in> {fs, fs'} \<union> set tr \<Longrightarrow>
    alloc_step name ident \<lparr> sys_fs = fs, sys_alloc = Some a, sys_issued = is \<rparr>
      \<lparr> sys_fs = Crash x model rngs, sys_alloc = None, sys_issued = is \<rparr>"
| crash: "alloc_step name ident \<lparr> sys_fs = fs, sys_alloc = al, sys_issued = is \<rparr>
      \<lparr> sys_fs = Crash fs model rngs, sys_alloc = None, sys_issued = is \<rparr>"
| stop: "alloc_step name ident \<lparr> sys_fs = fs, sys_alloc = al, sys_issued = is \<rparr>
      \<lparr> sys_fs = fs, sys_alloc = None, sys_issued = is \<rparr>"

inductive alloc_reach :: "string \<Rightarrow> Identity \<Rightarrow> CrashFS \<Rightarrow> alloc_sys \<Rightarrow> bool" for name ident fs0 where
  start: "alloc_reach name ident fs0 \<lparr> sys_fs = fs0, sys_alloc = None, sys_issued = [] \<rparr>"
| step: "alloc_reach name ident fs0 s \<Longrightarrow> alloc_step name ident s s' \<Longrightarrow> alloc_reach name ident fs0 s'"

definition alloc_inv :: "string \<Rightarrow> Identity \<Rightarrow> alloc_sys \<Rightarrow> bool" where
  "alloc_inv name ident s \<longleftrightarrow>
    distinct (sys_issued s) \<and> (\<forall>v \<in> set (sys_issued s). v < Limit (id_Kind ident) (id_Encrypted ident)) \<and>
    (\<exists>k. Start (id_Kind ident) \<le> k \<and> holds_at_least name ident k (sys_fs s) \<and> (\<forall>v \<in> set (sys_issued s). v < k) \<and>
       (\<forall>a. sys_alloc s = Some a \<longrightarrow> running name ident a \<and> k \<le> al_reserved a \<and>
          (al_next a < al_reserved a \<longrightarrow> holds_at_least name ident (al_reserved a) (sys_fs s)) \<and>
          (\<forall>v \<in> set (sys_issued s). v < al_next a)))"

lemma alloc_invE:
  assumes "alloc_inv name ident \<lparr> sys_fs = fs, sys_alloc = al, sys_issued = is \<rparr>"
  obtains k where "distinct is" "\<forall>v \<in> set is. v < Limit (id_Kind ident) (id_Encrypted ident)"
    "Start (id_Kind ident) \<le> k" "holds_at_least name ident k fs" "\<forall>v \<in> set is. v < k"
    "\<forall>a. al = Some a \<longrightarrow> running name ident a \<and> k \<le> al_reserved a \<and>
      (al_next a < al_reserved a \<longrightarrow> holds_at_least name ident (al_reserved a) fs) \<and> (\<forall>v \<in> set is. v < al_next a)"
  using assms by (auto simp: alloc_inv_def)

lemma alloc_invI:
  assumes "distinct is" "\<forall>v \<in> set is. v < Limit (id_Kind ident) (id_Encrypted ident)"
    "Start (id_Kind ident) \<le> k" "holds_at_least name ident k fs" "\<forall>v \<in> set is. v < k"
    "\<And>a. al = Some a \<Longrightarrow> running name ident a \<and> k \<le> al_reserved a \<and>
      (al_next a < al_reserved a \<longrightarrow> holds_at_least name ident (al_reserved a) fs) \<and> (\<forall>v \<in> set is. v < al_next a)"
  shows "alloc_inv name ident \<lparr> sys_fs = fs, sys_alloc = al, sys_issued = is \<rparr>"
  unfolding alloc_inv_def using assms by auto

lemma alloc_inv_step:
  assumes "alloc_step name ident s s'" "alloc_inv name ident s" "wf_identity ident"
  shows "alloc_inv name ident s'"
  using assms
proof (induction rule: alloc_step.induct)
  case (open_step fs block a "is")
  from open_step(2) obtain k where k: "distinct is" "\<forall>v \<in> set is. v < Limit (id_Kind ident) (id_Encrypted ident)"
    "Start (id_Kind ident) \<le> k" "holds_at_least name ident k fs" "\<forall>v \<in> set is. v < k" by (rule alloc_invE)
  note R = holds_read[OF open_step(3) k(4) open_step(1) k(3)]
  have "\<forall>v \<in> set is. v < al_next a" using k(5) R(3,4) by (metis less_le_trans)
  then show ?case using R by (intro alloc_invI[OF k]) (auto simp: running_def)
next
  case (next_step onR fault a fs tr fs' a' v "is")
  from next_step(2) obtain k where k: "distinct is" "\<forall>v \<in> set is. v < Limit (id_Kind ident) (id_Encrypted ident)"
    "Start (id_Kind ident) \<le> k" "holds_at_least name ident k fs" "\<forall>v \<in> set is. v < k"
    "running name ident a" "k \<le> al_reserved a" "al_next a < al_reserved a \<longrightarrow> holds_at_least name ident (al_reserved a) fs"
    "\<forall>v \<in> set is. v < al_next a" by (rule alloc_invE) auto
  have N: "running name ident a'" "al_reserved a \<le> al_reserved a'" "v = al_next a" "v < al_next a'" "v < al_limit a'"
    "v < al_reserved a'" "holds_at_least name ident (al_reserved a') fs'"
    using alloc_Next_ok[OF k(6) next_step(3) k(4,7) _ next_step(1)] k(8) by auto
  have "\<forall>w \<in> set (v # is). w < al_next a'" "\<forall>w \<in> set (v # is). w < al_reserved a'"
    using k(9) N(3,4,6) by (auto intro: less_trans)
  moreover have "v < Limit (id_Kind ident) (id_Encrypted ident)" using N(1,5) by (simp add: running_def)
  moreover have "distinct (v # is)" using k(1,9) N(3) by auto
  moreover have "Start (id_Kind ident) \<le> al_reserved a'" using k(3,7) N(2) by (meson order_trans)
  ultimately show ?case using N k(2) by (intro alloc_invI[of _ _ "al_reserved a'"]) auto
next
  case (next_error onR fault a fs tr fs' a' e "is")
  from next_error(2) obtain k where k: "distinct is" "\<forall>v \<in> set is. v < Limit (id_Kind ident) (id_Encrypted ident)"
    "Start (id_Kind ident) \<le> k" "holds_at_least name ident k fs" "\<forall>v \<in> set is. v < k"
    "running name ident a" "k \<le> al_reserved a" "al_next a < al_reserved a \<longrightarrow> holds_at_least name ident (al_reserved a) fs"
    "\<forall>v \<in> set is. v < al_next a" by (rule alloc_invE) auto
  have N: "running name ident a'" "al_reserved a \<le> al_reserved a'" "al_next a \<le> al_next a'" "holds_at_least name ident k fs'"
    "al_next a' < al_reserved a' \<longrightarrow> holds_at_least name ident (al_reserved a') fs'"
    using alloc_Next_ok[OF k(6) next_error(3) k(4,7) _ next_error(1)] k(8) by auto
  have "k \<le> al_reserved a'" "\<forall>v \<in> set is. v < al_next a'" using N(2,3) k(7,9) by (meson order_trans less_le_trans)+
  then show ?case using N k by (intro alloc_invI[of _ _ k]) auto
next
  case (crash_in_next onR fault a fs tr fs' a' res x "is" model rngs)
  from crash_in_next(3) obtain k where k: "distinct is" "\<forall>v \<in> set is. v < Limit (id_Kind ident) (id_Encrypted ident)"
    "Start (id_Kind ident) \<le> k" "holds_at_least name ident k fs" "\<forall>v \<in> set is. v < k"
    "running name ident a" "k \<le> al_reserved a" "al_next a < al_reserved a \<longrightarrow> holds_at_least name ident (al_reserved a) fs"
    by (rule alloc_invE) auto
  have "holds_at_least name ident k x"
    using alloc_Next_ok[OF k(6) crash_in_next(4) k(4,7) _ crash_in_next(1)] k(4,8) crash_in_next(2) by auto
  then show ?case using k by (intro alloc_invI[of _ _ k] holds_crash) auto
next
  case (crash fs al "is" model rngs)
  from crash(1) obtain k where k: "distinct is" "\<forall>v \<in> set is. v < Limit (id_Kind ident) (id_Encrypted ident)"
    "Start (id_Kind ident) \<le> k" "holds_at_least name ident k fs" "\<forall>v \<in> set is. v < k" by (rule alloc_invE)
  then show ?case by (intro alloc_invI[of _ _ k] holds_crash) auto
next
  case (stop fs al "is")
  from stop(1) obtain k where k: "distinct is" "\<forall>v \<in> set is. v < Limit (id_Kind ident) (id_Encrypted ident)"
    "Start (id_Kind ident) \<le> k" "holds_at_least name ident k fs" "\<forall>v \<in> set is. v < k" by (rule alloc_invE)
  then show ?case by (intro alloc_invI[of _ _ k]) auto
qed

lemma alloc_reach_inv:
  assumes "alloc_reach name ident fs0 s" "wf_identity ident" "holds_at_least name ident (Start (id_Kind ident)) fs0"
  shows "alloc_inv name ident s"
  using assms
proof (induction rule: alloc_reach.induct)
  case start
  then show ?case by (intro alloc_invI[of _ _ "Start (id_Kind ident)"]) auto
next
  case (step s s')
  then show ?case using alloc_inv_step by blast
qed

section \<open>Creation, progress and re-initialisation\<close>

lemma alloc_Create_holds:
  assumes "wf_identity ident" "plain_name name" "good name fs"
    "alloc_Create fault fs name ident = (tr, fs', None)"
  shows "holds_at_least name ident (Start (id_Kind ident)) fs'"
proof -
  have r: "ReplaceFile fault fs name (state_bytes ident (Start (id_Kind ident))) = (tr, fs', None)"
    using assms(1,4) by (auto simp: alloc_Create_def alloc_write_state split: sum.splits)
  have "crash_file.surely name (\<lambda>x. True) fs" using assms(2,3) unfolding crash_file.surely_def by blast
  from crash_file.surely_replaced[OF this r] show ?thesis
    by (auto simp: holds_at_least_def crash_file.surely_def)
qed

lemma alloc_Next_succeeds:
  assumes r: "running name ident a" and id: "wf_identity ident" and p: "plain_name name" "dirs fs (dirOf name)"
    and nf: "\<forall>k. \<not> fault k" and onR: "onR = None" and lim: "al_next a < al_limit a"
  shows "\<exists>tr fs' a'. alloc_Next onR fault a fs = (tr, fs', a', Inr (al_next a))"
proof (cases "al_next a \<ge> al_reserved a")
  case False
  then show ?thesis by (simp add: alloc_Next_def)
next
  case True
  let ?r = "al_reserved a + min (al_block a) (al_limit a - al_reserved a)"
  have lt: "\<not> al_reserved a \<ge> al_limit a" using True lim by (meson not_le order_trans less_le_trans leD)
  obtain tr fs' where "ReplaceFile fault fs name (state_bytes ident ?r) = (tr, fs', None)"
    using ReplaceFile_succeeds[OF nf p] by blast
  moreover have "al_name a = name" "al_id a = ident" using r by (simp_all add: running_def)
  ultimately have "extendLocked onR fault a fs = (tr, fs', a\<lparr> al_reserved := ?r \<rparr>, None)"
    using lt by (simp add: extendLocked_def Let_def alloc_write_state[OF id] onR)
  then show ?thesis using True by (simp add: alloc_Next_def)
qed

lemma reinitReserved_bounds:
  assumes "observed \<Longrightarrow> maxObserved < Limit (id_Kind ident) (id_Encrypted ident)"
  shows "reinitReserved ident maxObserved observed \<le> Limit (id_Kind ident) (id_Encrypted ident)"
    "observed \<Longrightarrow> maxObserved < reinitReserved ident maxObserved observed"
    "Start (id_Kind ident) \<le> reinitReserved ident maxObserved observed"
proof -
  let ?l = "Limit (id_Kind ident) (id_Encrypted ident)" and ?s = "ReinitSkip (id_Kind ident)"
  define b where "b = (if observed then maxObserved else Start (id_Kind ident))"
  have start: "unat (Start (id_Kind ident)) \<le> 1" "Start (id_Kind ident) \<le> ?l" "1 \<le> unat ?l"
    by (simp_all add: Start_def Limit_def)
  have skip: "0 < unat ?s" by (simp add: ReinitSkip_def)
  have add: "unat (b + ?s) = unat b + unat ?s \<and> unat b + unat ?s < unat ?l" if "b < ?l" "?l - b > ?s"
  proof -
    have "unat (?l - b) = unat ?l - unat b" using that(1) by (simp add: unat_sub_u64 word_less_nat_alt)
    then have "unat b + unat ?s < unat ?l" using that by (simp add: word_less_nat_alt)
    then show ?thesis using unat_u64_lt[of ?l] by (simp add: unat_add_u64)
  qed
  have R: "reinitReserved ident maxObserved observed = (if b < ?l \<and> ?l - b > ?s then b + ?s else ?l)"
    by (simp add: reinitReserved_def Let_def b_def)
  show "reinitReserved ident maxObserved observed \<le> ?l"
    unfolding R using add by (auto simp: word_le_nat_alt)
  show "maxObserved < reinitReserved ident maxObserved observed" if "observed"
    unfolding R using that add assms skip by (simp add: word_less_nat_alt b_def)
  have "1 \<le> unat (b + ?s)" if "b < ?l" "?l - b > ?s" using add[OF that] skip by simp
  then show "Start (id_Kind ident) \<le> reinitReserved ident maxObserved observed"
    unfolding R using start by (auto simp: word_le_nat_alt)
qed

text \<open>The archive's own allocator files have plain names.\<close>

lemma FileName_plain: "plain_name (FileName kind blob)"
proof -
  have hex: "hexDigit d \<noteq> CHR ''/''" if "d < 16" for d
    using that unfolding hexDigit_def
    by (auto simp: numeral_eq_Suc less_Suc_eq nth_Cons' split: if_splits)
  have dir: "plain_part ''alloc''" by (simp add: plain_part_def)
  have "plain_part (''blob-'' @ [c, d] @ ''.alloc'')" if "c \<noteq> CHR ''/''" "d \<noteq> CHR ''/''" for c d
    using that by (auto simp: plain_part_def)
  moreover have "unat blob div 16 < 16" "unat blob mod 16 < 16" using unat_byte_lt[of blob] by auto
  ultimately have "plain_part (''blob-'' @ [hexDigit (unat blob div 16), hexDigit (unat blob mod 16)] @ ''.alloc'')"
    using hex by blast
  moreover have "plain_part ''generation.alloc''" "plain_part ''filever.alloc''" "plain_part ''manifest.alloc''"
    "plain_part ''groups.alloc''" by (simp_all add: plain_part_def)
  ultimately show ?thesis
    using plain_name_two[OF dir] unfolding FileName_def by (simp split: if_splits; force)
qed


lemma alloc_Open_holds:
  assumes "wf_identity ident" "plain_name name" "dirs fs (dirOf name)" "content name fs = Some (state_bytes ident r)"
    "Start (id_Kind ident) \<le> r" "r \<le> Limit (id_Kind ident) (id_Encrypted ident)"
  shows "\<exists>a. alloc_Open fs name ident block = Inr a \<and> al_next a = r"
proof -
  have "ReadFile fs name 65 = Inr (state_bytes ident r)"
    using assms(2,3) state_bytes_encodes(3)[OF assms(1)] by (intro ReadFile_ok[OF _ assms(4)]) (simp_all add: plain_name_def)
  then show ?thesis
    using assms(5,6) by (auto simp: alloc_Open_def state_bytes_encodes(2)[OF assms(1)] Let_def)
qed

section \<open>Properties\<close>

text \<open>C1: No identifier is ever handed out twice: from the creation of an allocator's file on, through any sequence of opens,
  reservations with any I/O errors, stops, and power losses at any point of a reservation, all identifiers ever returned are
  different and below the limit of their kind.\<close>

theorem no_identifier_reissued:
  assumes "wf_identity ident" "plain_name name" "good name fs" "alloc_Create fault fs name ident = (tr, fs0, None)"
    "alloc_reach name ident fs0 s"
  shows "distinct (sys_issued s) \<and> (\<forall>v \<in> set (sys_issued s). v < Limit (id_Kind ident) (id_Encrypted ident))"
  using alloc_reach_inv[OF assms(5,1) alloc_Create_holds[OF assms(1-4)]] by (simp add: alloc_inv_def)

definition sample_identity :: Identity where
  "sample_identity = \<lparr> id_Kind = 1, id_Blob = 0, id_GenerationID = 0, id_ArchiveID = replicate 32 9, id_Encrypted = False \<rparr>"

lemma wf_sample_identity: "wf_identity sample_identity"
  by (simp add: wf_identity_def sample_identity_def AllocKind_Valid_def)

lemma sample_created:
  "\<exists>tr fs0. alloc_Create (\<lambda>_. False) sample_fs ''alloc/filever.alloc'' sample_identity = (tr, fs0, None) \<and> dirs fs0 = dirs sample_fs \<and>
     content ''alloc/filever.alloc'' fs0 = Some (state_bytes sample_identity 1)"
proof -
  let ?n = "''alloc/filever.alloc''"
  obtain tr fs0 where r: "ReplaceFile (\<lambda>_. False) sample_fs ?n (state_bytes sample_identity 1) = (tr, fs0, None)"
    and d: "dirs fs0 = dirs sample_fs" using sample_replaced by blast
  have st: "isl (fs_Stat sample_fs ?n)"
    using plain_sample_name(1) by (simp add: fs_Stat_def sample_fs_def NewCrashFS_def plain_name_def Let_def)
  then have "alloc_Create (\<lambda>_. False) sample_fs ?n sample_identity = (tr, fs0, None)"
    using r alloc_write_state[OF wf_sample_identity]
    by (cases "fs_Stat sample_fs ?n") (simp_all add: alloc_Create_def sample_identity_def Start_def)
  moreover have "outcomes ?n fs0 = {Some (state_bytes sample_identity 1)}"
    using ReplaceFileStream_guarantee(2)[OF good_sample_fs plain_sample_name(1)] r by (fastforce simp: ReplaceFile_def)
  ultimately show ?thesis using d by (auto simp: outcomes_def)
qed

theorem no_identifier_reissued_witness:
  "\<exists>fs0 s. alloc_reach ''alloc/filever.alloc'' sample_identity fs0 s \<and> sys_issued s = [1] \<and> distinct (sys_issued s)"
proof -
  let ?n = "''alloc/filever.alloc''" and ?i = sample_identity
  obtain tr fs0 where c: "alloc_Create (\<lambda>_. False) sample_fs ?n ?i = (tr, fs0, None)" and d: "dirs fs0 (dirOf ?n)"
    and x: "content ?n fs0 = Some (state_bytes ?i 1)"
    using sample_created by (auto simp: plain_sample_name(2) sample_fs_def)
  have l: "Start (id_Kind ?i) \<le> 1" "1 \<le> Limit (id_Kind ?i) (id_Encrypted ?i)" "1 < Limit (id_Kind ?i) (id_Encrypted ?i)"
    by (simp_all add: sample_identity_def Start_def Limit_def)
  obtain a where a: "alloc_Open fs0 ?n ?i 16 = Inr a" "al_next a = 1"
    using alloc_Open_holds[OF wf_sample_identity plain_sample_name(1) d x l(1,2)] by blast
  note h = alloc_Create_holds[OF wf_sample_identity plain_sample_name(1) good_sample_fs c]
  note R = holds_read[OF wf_sample_identity h a(1) order_refl]
  obtain tr' fs' a' where N: "alloc_Next None (\<lambda>_. False) a fs0 = (tr', fs', a', Inr 1)"
    using alloc_Next_succeeds[OF _ wf_sample_identity plain_sample_name(1) d, of a "\<lambda>_. False" None] R a(2) l(3)
    by (auto simp: running_def)
  have "alloc_reach ?n ?i fs0 \<lparr> sys_fs = fs', sys_alloc = Some a', sys_issued = [1] \<rparr>"
    using alloc_reach.step[OF alloc_reach.step[OF alloc_reach.start open_step[OF a(1)]] next_step[OF N]] .
  then show ?thesis
    using no_identifier_reissued[OF wf_sample_identity plain_sample_name(1) good_sample_fs c] by (metis alloc_sys.select_convs(3))
qed

text \<open>An allocator below its limit makes progress: when the file operations work, the next identifier is returned.\<close>

lemma Next_progress:
  assumes "running name ident a" "wf_identity ident" "plain_name name" "dirs fs (dirOf name)"
    "\<forall>k. \<not> fault k" "al_next a < al_limit a"
  shows "\<exists>tr fs' a'. alloc_Next None fault a fs = (tr, fs', a', Inr (al_next a))"
  using alloc_Next_succeeds[OF assms(1-5) refl assms(6)] .

text \<open>C39: Re-initialising after a rollback reserves past every observed identifier without passing the limit and without
  wrapping around.\<close>

theorem Reinit_skips_observed:
  assumes "observed \<Longrightarrow> maxObserved < Limit (id_Kind ident) (id_Encrypted ident)"
  shows "reinitReserved ident maxObserved observed \<le> Limit (id_Kind ident) (id_Encrypted ident) \<and>
    (observed \<longrightarrow> maxObserved < reinitReserved ident maxObserved observed) \<and>
    Start (id_Kind ident) \<le> reinitReserved ident maxObserved observed"
  using reinitReserved_bounds[OF assms] by blast

theorem Reinit_skips_observed_witness:
  "0xFFFFFFFFFFFFFFF0 < reinitReserved sample_identity 0xFFFFFFFFFFFFFFF0 True"
  using Reinit_skips_observed[of True "0xFFFFFFFFFFFFFFF0" sample_identity] by (simp add: sample_identity_def Limit_def)

end
