(* ===== verification/Bufpool.thy ===== *)
theory Bufpool
  imports Prelude
begin

text \<open>
  Package \<^verbatim>\<open>internal/bufpool\<close>: buffers recycled in power-of-two size classes. A buffer is its
  capacity; its bytes are unspecified by contract and are parameters where buffers are used. The
  operations are the critical sections of the code run one after the other. The lemmas show the
  accounting invariant, the retention limit and that a buffer is always large enough.
\<close>

abbreviation (input) minShift :: nat where "minShift \<equiv> 12"
abbreviation (input) maxShift :: nat where "maxShift \<equiv> 24"
abbreviation (input) numClasses :: nat where "numClasses \<equiv> 13"
abbreviation (input) DefaultMaxRetained :: int where "DefaultMaxRetained \<equiv> 268435456"

fun bits_Len :: "nat \<Rightarrow> nat" where
  "bits_Len n = (if n = 0 then 0 else Suc (bits_Len (n div 2)))"

declare bits_Len.simps [simp del]

record Pool =
  pl_maxRetained :: int
  pl_retained :: int
  pl_classes :: "nat list list"
  pl_Hits :: nat
  pl_Misses :: nat
  pl_Drops :: nat

definition pool_New :: "int \<Rightarrow> Pool" where
  "pool_New m = \<lparr> pl_maxRetained = (if m \<le> 0 then DefaultMaxRetained else m), pl_retained = 0,
     pl_classes = replicate numClasses [], pl_Hits = 0, pl_Misses = 0, pl_Drops = 0 \<rparr>"

definition classOf :: "nat \<Rightarrow> nat" where
  "classOf n = (if n \<le> 2 ^ minShift then 0 else bits_Len (n - 1) - minShift)"

text \<open>The pool and the capacity of the buffer returned for length \<open>n\<close>. The code takes the last buffer of the free
  list, which is the head of the model's list.\<close>

definition pool_Get :: "Pool \<Rightarrow> nat \<Rightarrow> Pool \<times> nat" where
  "pool_Get p n =
    (let c = classOf n in
     if c \<ge> numClasses then (p\<lparr> pl_Misses := pl_Misses p + 1 \<rparr>, n)
     else case pl_classes p ! c of
       b # rest \<Rightarrow> (p\<lparr> pl_classes := (pl_classes p)[c := rest], pl_retained := pl_retained p - int b, pl_Hits := pl_Hits p + 1 \<rparr>, b)
     | [] \<Rightarrow> (p\<lparr> pl_Misses := pl_Misses p + 1 \<rparr>, 2 ^ (c + minShift)))"

definition pool_Put :: "Pool \<Rightarrow> nat \<Rightarrow> Pool" where
  "pool_Put p c =
    (if c < 2 ^ minShift \<or> c AND (c - 1) \<noteq> 0 \<or> c > 2 ^ maxShift then p
     else if pl_retained p + int c > pl_maxRetained p then p\<lparr> pl_Drops := pl_Drops p + 1 \<rparr>
     else let k = bits_Len c - 1 - minShift in
       p\<lparr> pl_retained := pl_retained p + int c, pl_classes := (pl_classes p)[k := c # (pl_classes p ! k)] \<rparr>)"

section \<open>Size classes\<close>

lemma bits_Len_bounds: "n < 2 ^ bits_Len n \<and> (0 < n \<longrightarrow> 2 ^ (bits_Len n - 1) \<le> n)"
proof (induction n rule: bits_Len.induct)
  case (1 n)
  show ?case
  proof (cases "n = 0")
    case False
    then have ih: "n div 2 < 2 ^ bits_Len (n div 2)" "0 < n div 2 \<Longrightarrow> 2 ^ (bits_Len (n div 2) - 1) \<le> n div 2"
      using 1 by auto
    have e: "bits_Len n = Suc (bits_Len (n div 2))" using False by (simp add: bits_Len.simps[of n])
    have "2 ^ bits_Len (n div 2) \<le> n"
    proof (cases "n div 2 = 0")
      case True
      then show ?thesis using False by (simp add: bits_Len.simps[of 0])
    next
      case f: False
      then have "bits_Len (n div 2) = Suc (bits_Len (n div 2) - 1)" by (simp add: bits_Len.simps[of "n div 2"])
      then have "(2::nat) ^ bits_Len (n div 2) = 2 * 2 ^ (bits_Len (n div 2) - 1)" by (metis power_Suc)
      then show ?thesis using ih(2) f by linarith
    qed
    moreover have "n < 2 ^ bits_Len n" unfolding e using ih(1) by simp
    ultimately show ?thesis by (simp add: e)
  qed (simp add: bits_Len.simps[of 0])
qed

lemma bits_Len_power: "bits_Len (2 ^ k) = Suc k"
proof (induction k)
  case (Suc k)
  then show ?case by (simp add: bits_Len.simps[of "2 * 2 ^ k"])
qed (simp add: bits_Len.simps[of 0] bits_Len.simps[of "Suc 0"])

lemma classOf_fits: "n \<le> 2 ^ (classOf n + minShift)"
proof (cases "n \<le> 2 ^ minShift")
  case False
  have "n - 1 < 2 ^ bits_Len (n - 1)" using bits_Len_bounds by blast
  moreover have "12 \<le> bits_Len (n - 1)"
  proof (rule ccontr)
    assume "\<not> 12 \<le> bits_Len (n - 1)"
    then have "(2::nat) ^ bits_Len (n - 1) \<le> 2 ^ 12" by (intro power_increasing) auto
    then show False using False bits_Len_bounds[of "n - 1"] by linarith
  qed
  ultimately show ?thesis using False by (simp add: classOf_def)
qed (simp add: classOf_def)

text \<open>The bit trick of \<open>Put\<close> accepts exactly the powers of two.\<close>

lemma and_pred_power: "0 < c \<Longrightarrow> c AND (c - 1) = 0 \<longleftrightarrow> (\<exists>k. c = (2::nat) ^ k)"
proof (induction c rule: bits_Len.induct)
  case (1 c)
  show ?case
  proof (cases "even c")
    case True
    then obtain d where d: "c = 2 * d" by auto
    then have dp: "0 < d" using 1(2) by simp
    have "(c - 1) div 2 = d - 1" using d dp by simp
    then have "c AND (c - 1) = 2 * (d AND (d - 1))" using and_rec[of c "c - 1"] d by simp
    moreover have "d AND (d - 1) = 0 \<longleftrightarrow> (\<exists>k. d = 2 ^ k)" using 1(1) dp d by simp
    moreover have "(\<exists>k. d = 2 ^ k) \<longleftrightarrow> (\<exists>k. c = 2 ^ k)"
    proof
      assume "\<exists>k. c = 2 ^ k"
      then obtain k where k: "c = 2 ^ k" by blast
      then have "k \<noteq> 0" using d by (cases k) auto
      then show "\<exists>k. d = 2 ^ k" using k d by (cases k) auto
    qed (use d power_Suc[of "2::nat"] in metis)
    ultimately show ?thesis by simp
  next
    case False
    then obtain d where d: "c = 2 * d + 1" by (elim oddE)
    have "c AND (c - 1) = 2 * d" using and_rec[of c "c - 1"] d by simp
    moreover have "(\<exists>k. c = 2 ^ k) \<longleftrightarrow> d = 0"
    proof
      assume "\<exists>k. c = 2 ^ k"
      then obtain k where "c = 2 ^ k" by blast
      then show "d = 0" using False by (cases k) (auto simp: d)
    qed (use d in \<open>auto intro: exI[of _ 0]\<close>)
    ultimately show ?thesis by simp
  qed
qed


section \<open>Accounting\<close>

definition wf_pool :: "Pool \<Rightarrow> bool" where
  "wf_pool p \<longleftrightarrow> length (pl_classes p) = numClasses \<and>
    (\<forall>c < numClasses. \<forall>b \<in> set (pl_classes p ! c). b = 2 ^ (c + minShift)) \<and>
    pl_retained p = int (sum_list (map sum_list (pl_classes p))) \<and> pl_retained p \<le> pl_maxRetained p"

lemma sum_classes_update:
  "c < length cs \<Longrightarrow> sum_list (map sum_list (cs[c := x])) + sum_list (cs ! c) = sum_list (map sum_list cs) + (sum_list x :: nat)"
proof (induction cs arbitrary: c)
  case (Cons a cs)
  then show ?case by (cases c) auto
qed simp

lemma wf_pool_New: "wf_pool (pool_New m)"
  unfolding wf_pool_def pool_New_def by (simp add: sum_list_replicate)

lemma wf_pool_Get:
  assumes "wf_pool p" "pool_Get p n = (p', b)"
  shows "wf_pool p'" "n \<le> b" "pl_maxRetained p' = pl_maxRetained p"
proof -
  let ?c = "classOf n"
  have len: "length (pl_classes p) = 13" using assms(1) by (simp add: wf_pool_def)
  consider (big) "13 \<le> ?c" | (miss) "?c < 13" "pl_classes p ! ?c = []"
    | (hit) x rest where "?c < 13" "pl_classes p ! ?c = x # rest"
    by (cases "13 \<le> ?c"; cases "pl_classes p ! ?c") (simp_all add: not_le)
  then have "wf_pool p' \<and> n \<le> b \<and> pl_maxRetained p' = pl_maxRetained p"
  proof cases
    case big
    then show ?thesis using assms by (auto simp: pool_Get_def wf_pool_def)
  next
    case miss
    then show ?thesis using assms classOf_fits[of n] by (auto simp: pool_Get_def wf_pool_def Let_def)
  next
    case hit
    then have r: "p' = p\<lparr> pl_classes := (pl_classes p)[?c := rest], pl_retained := pl_retained p - int x, pl_Hits := pl_Hits p + 1 \<rparr>" "b = x"
      using assms(2) by (auto simp: pool_Get_def Let_def)
    have all: "\<forall>b \<in> set (pl_classes p ! c). b = 2 ^ (c + 12)" if "c < 13" for c
      using assms(1) that by (simp add: wf_pool_def)
    have "x = 2 ^ (?c + 12)" using all[OF hit(1)] hit(2) by simp
    moreover have "sum_list (map sum_list ((pl_classes p)[?c := rest])) + x = sum_list (map sum_list (pl_classes p))"
      using sum_classes_update[of ?c "pl_classes p" rest] hit len by simp
    then have "pl_retained p - int x = int (sum_list (map sum_list ((pl_classes p)[?c := rest])))"
      "pl_retained p - int x \<le> pl_maxRetained p" using assms(1) unfolding wf_pool_def by linarith+
    moreover have "\<forall>b \<in> set ((pl_classes p)[?c := rest] ! c). b = 2 ^ (c + 12)" if "c < 13" for c
      using all[OF that] hit that len by (cases "c = ?c") auto
    ultimately show ?thesis using assms(1) classOf_fits[of n] unfolding r wf_pool_def by simp
  qed
  then show "wf_pool p'" "n \<le> b" "pl_maxRetained p' = pl_maxRetained p" by auto
qed

lemma wf_pool_Put:
  assumes "wf_pool p"
  shows "wf_pool (pool_Put p c)"
proof (cases "c < 2 ^ 12 \<or> c AND (c - 1) \<noteq> 0 \<or> c > 2 ^ 24 \<or> pl_retained p + int c > pl_maxRetained p")
  case True
  then show ?thesis using assms by (auto simp: pool_Put_def wf_pool_def)
next
  case False
  then obtain k where k: "c = 2 ^ k" using and_pred_power[of c] by auto
  have "2 ^ 12 \<le> c" "c \<le> 2 ^ 24" using False by linarith+
  then have kb: "12 \<le> k" "k \<le> 24"
    unfolding k using power_le_imp_le_exp[of "2::nat" 12 k] power_le_imp_le_exp[of "2::nat" k 24] by linarith+
  let ?k = "k - 12"
  have len: "length (pl_classes p) = 13" "?k < 13" using assms kb by (simp_all add: wf_pool_def)
  have r: "pool_Put p c = p\<lparr> pl_retained := pl_retained p + int c, pl_classes := (pl_classes p)[?k := c # (pl_classes p ! ?k)] \<rparr>"
    using False by (simp add: pool_Put_def Let_def k bits_Len_power)
  have "sum_list (map sum_list ((pl_classes p)[?k := c # (pl_classes p ! ?k)])) = sum_list (map sum_list (pl_classes p)) + c"
    using sum_classes_update[of ?k "pl_classes p" "c # (pl_classes p ! ?k)"] len by simp
  moreover have "\<forall>b \<in> set ((pl_classes p)[?k := c # (pl_classes p ! ?k)] ! j). b = 2 ^ (j + 12)" if "j < 13" for j
    using assms that len kb by (cases "j = ?k") (auto simp: wf_pool_def k)
  ultimately show ?thesis using assms False unfolding r wf_pool_def by auto
qed

end
