(* ===== verification/Blob_Read.thy ===== *)
theory Blob_Read
  imports Frame Vfs Bufpool
begin

text \<open>
  Package \<^verbatim>\<open>internal/blob\<close>, reading (\<^verbatim>\<open>blob.go\<close>, \<^verbatim>\<open>scan.go\<close>, \<^verbatim>\<open>hop.go\<close>): header check, single frames, the scan
  through a read-ahead window, the probe of the grid behind a torn tail, and the walk by prefixes and tails. A file open for
  reading is the function \<open>rd off n\<close> that models \<^verbatim>\<open>ReadAt\<close>: the bytes and the error. Offsets are natural numbers; the
  code's \<^verbatim>\<open>int64\<close> cannot wrap on files below \<open>2 ^ 63 - 2 ^ 33\<close> bytes. The interface \<open>random_reader\<close> states what is used of
  \<^verbatim>\<open>io.ReaderAt\<close>: a read within the file returns its bytes or an error that is not about the format. Against it the scan
  is shown to visit exactly the longest run of valid frames, whatever the window holds.
\<close>

type_synonym reader = "nat \<Rightarrow> nat \<Rightarrow> bytes \<times> error option"

section \<open>Names and headers\<close>

definition blob_Name :: "byte \<Rightarrow> string result" where
  "blob_Name ordinal =
    (if ordinal = 0xFF then errf ErrInvalid ''blob'' ''ordinal''
     else Inr (''frames/blob-'' @
       [''0123456789ABCDEF'' ! (unat ordinal div 16), ''0123456789ABCDEF'' ! (unat ordinal mod 16)] @ ''.stash''))"

definition blob_Create :: "(nat \<Rightarrow> bool) \<Rightarrow> CrashFS \<Rightarrow> string \<Rightarrow> ArchiveHeader \<Rightarrow> CrashFS \<times> error option" where
  "blob_Create fault c name h =
    (case ArchiveHeader_AppendBinary h [] of Inl e \<Rightarrow> (c, Some e) | Inr hb \<Rightarrow>
     (case attempt (fault 0) (OpenFile c name \<lparr> O_CREATE = True, O_EXCL = True, O_TRUNC = False, O_WRITE = True \<rparr>) of
        Inl e \<Rightarrow> (c, Some e)
      | Inr (c1, f) \<Rightarrow>
        (case attempt (fault 1) (WriteAt c1 f hb 0) of Inl e \<Rightarrow> (c1, Some e) | Inr c2 \<Rightarrow>
         (case attempt (fault 2) (file_Sync c2 f) of Inl e \<Rightarrow> (c2, Some e) | Inr c3 \<Rightarrow>
          if fault 3 then (c3, Some io_error)
          else case attempt (fault 4) (SyncDir c3 (path_Dir name)) of Inl e \<Rightarrow> (c3, Some e) | Inr c4 \<Rightarrow> (c4, None)))))"

definition checkHeader :: "reader \<Rightarrow> ArchiveHeader \<Rightarrow> unit result" where
  "checkHeader rd want =
    (case rd 0 ArchiveHeaderSize of
       (b, Some e) \<Rightarrow> if err_class_of e = ErrEOF then errf ErrCorrupt ''blob'' ''header'' else Inl e
     | (b, None) \<Rightarrow>
       (case DecodeArchiveHeader b of Inl e \<Rightarrow> Inl e
        | Inr h \<Rightarrow> if h \<noteq> want then errf ErrCorrupt ''blob'' ''header'' else Inr ()))"

definition blob_Open :: "bool \<Rightarrow> (nat \<Rightarrow> nat \<Rightarrow> bool) \<Rightarrow> CrashFS \<Rightarrow> string \<Rightarrow> ArchiveHeader \<Rightarrow> crashFile result" where
  "blob_Open fault rfault c name h =
    (case attempt fault (OpenFile c name \<lparr> O_CREATE = False, O_EXCL = False, O_TRUNC = False, O_WRITE = False \<rparr>) of
       Inl e \<Rightarrow> Inl e
     | Inr (c1, f) \<Rightarrow>
       (case checkHeader (\<lambda>off n. if rfault off n then ([], Some io_error) else ReadAt c1 f n off) h of Inl e \<Rightarrow> Inl e | Inr _ \<Rightarrow> Inr f))"

section \<open>Single frames\<close>

definition frameSizeAt :: "reader \<Rightarrow> ArchiveHeader \<Rightarrow> nat \<Rightarrow> nat \<Rightarrow> nat result" where
  "frameSizeAt rd h off sz =
    (if off < FrameAreaStart \<or> \<not> OnFrameGrid (word_of_nat off) then errf ErrInvalid ''blob'' ''offset''
     else if off + FramePrefixSize > sz then errf ErrCorrupt ''blob'' ''prefix''
     else case rd off FramePrefixSize of
       (b, Some e) \<Rightarrow> Inl e
     | (b, None) \<Rightarrow>
       (case DecodeFramePrefix b h of Inl e \<Rightarrow> Inl e
        | Inr p \<Rightarrow>
          (let fsz = unat (FrameSize (p_FrameQuanta p)) in
           if off + fsz > sz then errf ErrCorrupt ''blob'' ''frame'' else Inr fsz)))"

text \<open>The offset, the parsed frame and its bytes: what a \<^verbatim>\<open>Ref\<close> gives access to until it is released.\<close>

record Ref =
  ref_Frame :: Frame
  ref_Offset :: int
  ref_Bytes :: bytes

definition NewRef :: "hashes \<Rightarrow> (bytes \<Rightarrow> bool) \<Rightarrow> bytes \<Rightarrow> ArchiveHeader \<Rightarrow> Ref result" where
  "NewRef H isNormal buf h =
    (case Parse H isNormal buf h of Inl e \<Rightarrow> Inl e
     | Inr fr \<Rightarrow> Inr \<lparr> ref_Frame = fr, ref_Offset = -1, ref_Bytes = buf \<rparr>)"

definition ReadFrame :: "hashes \<Rightarrow> (bytes \<Rightarrow> bool) \<Rightarrow> reader \<Rightarrow> nat \<Rightarrow> ArchiveHeader \<Rightarrow> nat \<Rightarrow> Ref result" where
  "ReadFrame H isNormal rd sz h off =
    (case frameSizeAt rd h off sz of Inl e \<Rightarrow> Inl e
     | Inr fsz \<Rightarrow>
       (case rd off fsz of
          (b, Some e) \<Rightarrow> Inl e
        | (b, None) \<Rightarrow>
          (case Parse H isNormal b h of Inl e \<Rightarrow> Inl e
           | Inr fr \<Rightarrow> Inr \<lparr> ref_Frame = fr, ref_Offset = int off, ref_Bytes = b \<rparr>)))"

section \<open>The read-ahead window\<close>

abbreviation (input) readAheadSize :: nat where "readAheadSize \<equiv> 1048576"
abbreviation (input) errUnexpectedEOF :: error where "errUnexpectedEOF \<equiv> Err ErrUnexpectedEOF ''io'' ''''"

text \<open>\<open>w_data\<close> are the valid bytes \<^verbatim>\<open>buf[:n]\<close>, \<open>w_cap\<close> the capacity of the buffer (0 before the first one is taken).\<close>

record window =
  w_size :: nat
  w_data :: bytes
  w_off :: nat
  w_cap :: nat

definition new_window :: "nat \<Rightarrow> window" where
  "new_window sz = \<lparr> w_size = sz, w_data = [], w_off = 0, w_cap = 0 \<rparr>"

text \<open>The capacity of the buffer a pool returns for length \<open>n\<close>.\<close>

definition buf_cap :: "nat \<Rightarrow> nat" where
  "buf_cap n = (if classOf n \<ge> numClasses then n else 2 ^ (classOf n + minShift))"

definition window_get :: "reader \<Rightarrow> window \<Rightarrow> nat \<Rightarrow> nat \<Rightarrow> bytes result \<times> window" where
  "window_get rd w off n =
    (if off \<ge> w_off w \<and> off + n \<le> w_off w + length (w_data w)
     then (Inr (seg (w_data w) (off - w_off w) (off - w_off w + n)), w)
     else
       let want = max n readAheadSize;
           cap = (if w_cap w < want then buf_cap want else w_cap w);
           r = min cap (w_size w - off);
           (got, err) = rd off r
       in case err of
            Some e \<Rightarrow>
              if err_class_of e = ErrEOF \<and> length got = r
              then (if length got < n then Inl errUnexpectedEOF else Inr (take n got),
                    w\<lparr> w_cap := cap, w_off := off, w_data := got \<rparr>)
              else (Inl e, w\<lparr> w_cap := cap, w_data := [] \<rparr>)
          | None \<Rightarrow> (if length got < n then Inl errUnexpectedEOF else Inr (take n got),
                    w\<lparr> w_cap := cap, w_off := off, w_data := got \<rparr>))"

definition parseAt :: "hashes \<Rightarrow> (bytes \<Rightarrow> bool) \<Rightarrow> reader \<Rightarrow> window \<Rightarrow> ArchiveHeader \<Rightarrow> nat
    \<Rightarrow> (Frame \<times> nat) result \<times> window" where
  "parseAt H isNormal rd w h off =
    (if off + FramePrefixSize > w_size w then (Inl errUnexpectedEOF, w)
     else case window_get rd w off FramePrefixSize of
       (Inl e, w1) \<Rightarrow> (Inl e, w1)
     | (Inr pb, w1) \<Rightarrow>
       (case DecodeFramePrefix pb h of Inl e \<Rightarrow> (Inl e, w1)
        | Inr p \<Rightarrow>
          (let fsz = unat (FrameSize (p_FrameQuanta p)) in
           if off + fsz > w_size w1 then (Inl errUnexpectedEOF, w1)
           else case window_get rd w1 off fsz of
             (Inl e, w2) \<Rightarrow> (Inl e, w2)
           | (Inr b, w2) \<Rightarrow>
             (case Parse H isNormal b h of Inl e \<Rightarrow> (Inl e, w2) | Inr fr \<Rightarrow> (Inr (fr, fsz), w2)))))"

section \<open>Scan and probe\<close>

record ScanResult =
  sr_End :: nat
  sr_Size :: nat
  sr_Frames :: nat
  sr_Err :: "error option"

lemma parseAt_size: "parseAt H isNormal rd w h off = (Inr (fr, fsz), w') \<Longrightarrow> 0 < fsz"
  by (auto simp: parseAt_def Let_def CheckFrameQuanta_Inr split: if_splits sum.splits prod.splits
      dest!: DecodeFramePrefix_Inr)

text \<open>The callback folds a state of its caller and may stop the scan with an error.\<close>

function scan_loop :: "hashes \<Rightarrow> (bytes \<Rightarrow> bool) \<Rightarrow> reader \<Rightarrow> ArchiveHeader \<Rightarrow> nat \<Rightarrow> ('a \<Rightarrow> nat \<Rightarrow> Frame \<Rightarrow> 'a \<times> error option)
    \<Rightarrow> window \<Rightarrow> nat \<Rightarrow> ScanResult \<Rightarrow> 'a \<Rightarrow> ScanResult \<times> 'a \<times> error option" where
  "scan_loop H isNormal rd h sz fn w off res acc =
    (if off < sz then
       (case parseAt H isNormal rd w h off of
          (Inl e, w1) \<Rightarrow>
            if \<not> IsFormatError e \<and> e \<noteq> errUnexpectedEOF then (res, acc, Some e)
            else (res\<lparr> sr_Err := Some e \<rparr>, acc, None)
        | (Inr (fr, fsz), w1) \<Rightarrow>
            (case fn acc off fr of
               (acc1, Some e) \<Rightarrow> (res, acc1, Some e)
             | (acc1, None) \<Rightarrow>
               scan_loop H isNormal rd h sz fn w1 (off + fsz) (res\<lparr> sr_End := off + fsz, sr_Frames := sr_Frames res + 1 \<rparr>) acc1))
     else (res, acc, None))"
  by pat_completeness auto
termination
  by (relation "measure (\<lambda>(H, isNormal, rd, h, sz, fn, w, off, res, acc). sz - off)")
    (auto dest!: sym[of "(_, _)" "parseAt _ _ _ _ _ _"] dest: parseAt_size)

definition scan :: "hashes \<Rightarrow> (bytes \<Rightarrow> bool) \<Rightarrow> reader \<Rightarrow> ArchiveHeader \<Rightarrow> nat \<Rightarrow> nat \<Rightarrow> ('a \<Rightarrow> nat \<Rightarrow> Frame \<Rightarrow> 'a \<times> error option)
    \<Rightarrow> 'a \<Rightarrow> ScanResult \<times> 'a \<times> error option" where
  "scan H isNormal rd h from sz fn acc =
    scan_loop H isNormal rd h sz fn (new_window sz) from \<lparr> sr_End = from, sr_Size = sz, sr_Frames = 0, sr_Err = None \<rparr> acc"

definition Scan :: "hashes \<Rightarrow> (bytes \<Rightarrow> bool) \<Rightarrow> reader \<Rightarrow> ArchiveHeader \<Rightarrow> nat \<Rightarrow> ('a \<Rightarrow> nat \<Rightarrow> Frame \<Rightarrow> 'a \<times> error option)
    \<Rightarrow> 'a \<Rightarrow> ScanResult \<times> 'a \<times> error option" where
  "Scan H isNormal rd h sz fn acc = scan H isNormal rd h FrameAreaStart sz fn acc"

definition ScanFrom :: "hashes \<Rightarrow> (bytes \<Rightarrow> bool) \<Rightarrow> reader \<Rightarrow> ArchiveHeader \<Rightarrow> nat \<Rightarrow> nat \<Rightarrow> ('a \<Rightarrow> nat \<Rightarrow> Frame \<Rightarrow> 'a \<times> error option)
    \<Rightarrow> 'a \<Rightarrow> ScanResult \<times> 'a \<times> error option" where
  "ScanFrom H isNormal rd h from sz fn acc =
    (if from < FrameAreaStart \<or> \<not> OnFrameGrid (word_of_nat from)
     then (\<lparr> sr_End = 0, sr_Size = 0, sr_Frames = 0, sr_Err = None \<rparr>, acc, Some (Err ErrInvalid ''blob'' ''from''))
     else scan H isNormal rd h from sz fn acc)"

record TailFrame =
  tf_Offset :: nat
  tf_Trailer :: MasterTrailer

function probe_loop :: "hashes \<Rightarrow> (bytes \<Rightarrow> bool) \<Rightarrow> reader \<Rightarrow> ArchiveHeader \<Rightarrow> nat \<Rightarrow> window \<Rightarrow> nat \<Rightarrow> TailFrame list
    \<Rightarrow> TailFrame list result" where
  "probe_loop H isNormal rd h sz w off out =
    (if off + FramePrefixSize \<le> sz then
       (case parseAt H isNormal rd w h off of
          (Inl e, w1) \<Rightarrow>
            if \<not> IsFormatError e \<and> e \<noteq> errUnexpectedEOF then Inl e
            else probe_loop H isNormal rd h sz w1 (off + BaseQuantum) out
        | (Inr (fr, _), w1) \<Rightarrow>
            probe_loop H isNormal rd h sz w1 (off + BaseQuantum) (out @ [\<lparr> tf_Offset = off, tf_Trailer = f_Trailer fr \<rparr>]))
     else Inr out)"
  by pat_completeness auto
termination
  by (relation "measure (\<lambda>(H, isNormal, rd, h, sz, w, off, out). sz - off)") auto

definition probeTail :: "hashes \<Rightarrow> (bytes \<Rightarrow> bool) \<Rightarrow> reader \<Rightarrow> ArchiveHeader \<Rightarrow> nat \<Rightarrow> nat \<Rightarrow> TailFrame list result" where
  "probeTail H isNormal rd h from sz = probe_loop H isNormal rd h sz (new_window sz) from []"

declare scan_loop.simps [simp del] probe_loop.simps [simp del]

section \<open>Hop\<close>

record HopFrame =
  hf_Offset :: nat
  hf_Quanta :: u32
  hf_Trailer :: MasterTrailer
  hf_Entries :: "Entry list option"

text \<open>\<open>Inr None\<close> where the code returns \<^verbatim>\<open>ok = false\<close>.\<close>

definition tailAt :: "(bytes \<Rightarrow> bool) \<Rightarrow> reader \<Rightarrow> ArchiveHeader \<Rightarrow> nat \<Rightarrow> nat \<Rightarrow> HopFrame option result" where
  "tailAt isNormal rd h off sz =
    (case rd off FramePrefixSize of (_, Some e) \<Rightarrow> Inl e | (pre, None) \<Rightarrow>
     (case DecodeFramePrefix pre h of Inl _ \<Rightarrow> Inr None | Inr p \<Rightarrow>
      (let S = unat (FrameSize (p_FrameQuanta p)) in
       if off + S > sz then Inr None
       else case rd (off + S - 100) 100 of (_, Some e) \<Rightarrow> Inl e | (lb, None) \<Rightarrow>
       (case TailLen lb (word_of_nat S) of Inl _ \<Rightarrow> Inr None | Inr nd \<Rightarrow>
        (case rd (off + S - nd) nd of (_, Some e) \<Rightarrow> Inl e | (tail, None) \<Rightarrow>
         (case DecodeTail tail (word_of_nat S) of Inl _ \<Rightarrow> Inr None | Inr t \<Rightarrow>
          if ValidateTrailer (t_Trailer t) h p \<noteq> Inr () then Inr None
          else
            let es = (if m_BlockType (t_Trailer t) \<noteq> BlockParity \<and> \<not> Encrypted h then
                        (case DecodeEntries isNormal (take (length (t_Body t) - 4) (t_Body t)) of Inl _ \<Rightarrow> None | Inr es \<Rightarrow> Some es)
                      else None)
            in Inr (Some \<lparr> hf_Offset = off, hf_Quanta = p_FrameQuanta p, hf_Trailer = t_Trailer t, hf_Entries = es \<rparr>)))))))"

lemma tailAt_quanta: "tailAt isNormal rd h off sz = Inr (Some hf) \<Longrightarrow> 0 < unat (hf_Quanta hf)"
  by (auto simp: tailAt_def Let_def CheckFrameQuanta_Inr split: if_splits sum.splits prod.splits option.splits
      dest!: DecodeFramePrefix_Inr)

function hop_loop :: "(bytes \<Rightarrow> bool) \<Rightarrow> reader \<Rightarrow> ArchiveHeader \<Rightarrow> nat \<Rightarrow> nat \<Rightarrow> ('a \<Rightarrow> HopFrame \<Rightarrow> 'a \<times> error option)
    \<Rightarrow> nat \<Rightarrow> nat option \<Rightarrow> 'a \<Rightarrow> nat \<times> 'a \<times> error option" where
  "hop_loop isNormal rd h from sz fn off contiguous acc =
    (if off + BaseQuantum \<le> sz then
       (case tailAt isNormal rd h off sz of
          Inl e \<Rightarrow> (from, acc, Some e)
        | Inr None \<Rightarrow>
            hop_loop isNormal rd h from sz fn (off + BaseQuantum)
              (case contiguous of None \<Rightarrow> Some off | Some c \<Rightarrow> Some c) acc
        | Inr (Some hf) \<Rightarrow>
            (case fn acc hf of
               (acc1, Some e) \<Rightarrow> (from, acc1, Some e)
             | (acc1, None) \<Rightarrow> hop_loop isNormal rd h from sz fn (off + unat (FrameSize (hf_Quanta hf))) contiguous acc1))
     else (case contiguous of None \<Rightarrow> off | Some c \<Rightarrow> c, acc, None))"
  by pat_completeness auto
termination
  by (relation "measure (\<lambda>(isNormal, rd, h, from, sz, fn, off, contiguous, acc). sz - off)") (auto dest: tailAt_quanta)

declare hop_loop.simps [simp del]

definition HopFrom :: "(bytes \<Rightarrow> bool) \<Rightarrow> reader \<Rightarrow> ArchiveHeader \<Rightarrow> nat \<Rightarrow> nat \<Rightarrow> ('a \<Rightarrow> HopFrame \<Rightarrow> 'a \<times> error option)
    \<Rightarrow> 'a \<Rightarrow> nat \<times> 'a \<times> error option" where
  "HopFrom isNormal rd h from sz fn acc = hop_loop isNormal rd h from sz fn from None acc"

definition Hop :: "(bytes \<Rightarrow> bool) \<Rightarrow> reader \<Rightarrow> ArchiveHeader \<Rightarrow> nat \<Rightarrow> ('a \<Rightarrow> HopFrame \<Rightarrow> 'a \<times> error option)
    \<Rightarrow> 'a \<Rightarrow> 'a \<times> error option" where
  "Hop isNormal rd h sz fn acc = snd (HopFrom isNormal rd h FrameAreaStart sz fn acc)"


section \<open>Parsing fails with format errors only\<close>

lemma IsFormatError_Err [simp]: "IsFormatError (Err c s f) \<longleftrightarrow> c \<in> {ErrCorrupt, ErrUnsupported, ErrLegacyVersion}"
  by (simp add: IsFormatError_def)

lemma CheckFrameQuanta_Inl: "CheckFrameQuanta q h = Inl e \<Longrightarrow> IsFormatError e"
  by (auto simp: CheckFrameQuanta_def split: if_splits)

lemma DecodeFramePrefix_Inl: "DecodeFramePrefix b h = Inl e \<Longrightarrow> IsFormatError e"
  by (auto simp: DecodeFramePrefix_def Let_def dest: CheckFrameQuanta_Inl split: if_splits sum.splits)

lemma ComputeLayout_Inl: "ComputeLayout q d p = Inl e \<Longrightarrow> IsFormatError e"
  by (auto simp: ComputeLayout_def Let_def split: if_splits sum.splits)

lemma TailLen_Inl: "TailLen b n = Inl e \<Longrightarrow> IsFormatError e"
  by (auto simp: TailLen_def Let_def split: if_splits)

lemma DecodeMasterTrailer_Inl: "DecodeMasterTrailer b = Inl e \<Longrightarrow> IsFormatError e"
  by (auto simp: DecodeMasterTrailer_def Let_def split: if_splits)

lemma DecodeTail_Inl: "DecodeTail b n = Inl e \<Longrightarrow> IsFormatError e"
  by (auto simp: DecodeTail_def Let_def dest: TailLen_Inl DecodeMasterTrailer_Inl ComputeLayout_Inl split: if_splits sum.splits)

lemma ValidateTrailer_Inl: "ValidateTrailer t h p = Inl e \<Longrightarrow> IsFormatError e"
  by (auto simp: ValidateTrailer_def validateBlock_def validateGroup_def Let_def split: if_splits sum.splits)

lemma DecodePathLen_Inl: "DecodePathLen b = Inl e \<Longrightarrow> IsFormatError e"
  by (auto simp: DecodePathLen_def Let_def split: if_splits)

lemma DecodeEntries_loop_Inl: "DecodeEntries_loop isNormal n p = Inl e \<Longrightarrow> IsFormatError e"
proof (induction isNormal n p rule: DecodeEntries_loop.induct)
  case (2 isNormal n p)
  then show ?case by (auto simp: Let_def dest: DecodePathLen_Inl split: if_splits sum.splits prod.splits)
qed simp

lemma DecodeEntries_Inl: "DecodeEntries isNormal b = Inl e \<Longrightarrow> IsFormatError e"
  by (auto simp: DecodeEntries_def Let_def dest: DecodeEntries_loop_Inl split: if_splits sum.splits prod.splits)

lemma checkPacked_loop_Inl: "checkPacked_loop prev end es = Inl e \<Longrightarrow> IsFormatError e"
  by (induction prev "end" es rule: checkPacked_loop.induct) (auto split: if_splits sum.splits)

lemma checkPacked_Inl: "checkPacked es m = Inl e \<Longrightarrow> IsFormatError e"
  by (auto simp: checkPacked_def dest: checkPacked_loop_Inl split: if_splits sum.splits)

lemma Hash_not_Inl: "HashID_Valid hid \<Longrightarrow> Hash H hid b \<noteq> Inl e"
  by (auto simp: Hash_def HashID_Valid_def)

lemma checkEntriesParsed_Inl:
  "HashID_Valid (h_HashID h) \<Longrightarrow> checkEntriesParsed H h t es = Inl e \<Longrightarrow> IsFormatError e"
  by (auto simp: Hash_not_Inl checkEntriesParsed_def ObjectID_def Let_def dest: checkPacked_Inl split: if_splits sum.splits)

lemma Parse_Inl:
  assumes "wf_header h" "Parse H isNormal b h = Inl e"
  shows "IsFormatError e"
proof -
  have v: "HashID_Valid (h_HashID h)" using wf_header_bounds(3)[OF assms(1)] .
  show ?thesis
    using assms(2) unfolding Parse_def Let_def DecodeFrameTail_def
    by (auto simp: Hash_not_Inl[OF v] dest: DecodeFramePrefix_Inl DecodeTail_Inl ValidateTrailer_Inl ComputeLayout_Inl DecodeEntries_Inl
        checkEntriesParsed_Inl[OF v] split: if_splits sum.splits)
qed


section \<open>The valid run\<close>

text \<open>The frame that starts at an offset of the file's content.\<close>

definition frame_at :: "hashes \<Rightarrow> (bytes \<Rightarrow> bool) \<Rightarrow> ArchiveHeader \<Rightarrow> bytes \<Rightarrow> nat \<Rightarrow> (Frame \<times> nat) option" where
  "frame_at H isNormal h bs off =
    (if off + 16 > length bs then None
     else case DecodeFramePrefix (seg bs off (off + 16)) h of Inl _ \<Rightarrow> None
     | Inr p \<Rightarrow>
       (let fsz = unat (p_FrameQuanta p) * 4096 in
        if off + fsz > length bs then None
        else case Parse H isNormal (seg bs off (off + fsz)) h of Inl _ \<Rightarrow> None | Inr f \<Rightarrow> Some (f, fsz)))"

lemma frame_at_Some:
  assumes "frame_at H isNormal h bs off = Some (f, fsz)"
  shows "0 < fsz" "off + fsz \<le> length bs" "Parse H isNormal (seg bs off (off + fsz)) h = Inr f"
  using assms by (auto simp: frame_at_def Let_def CheckFrameQuanta_Inr split: if_splits sum.splits dest!: DecodeFramePrefix_Inr)

lemma frame_at_step: "frame_at H isNormal h bs off = Some (f, fsz) \<Longrightarrow> length bs - (off + fsz) < length bs - off"
  using frame_at_Some(1,2)[of H isNormal h bs off f fsz] by simp

function valid_run :: "hashes \<Rightarrow> (bytes \<Rightarrow> bool) \<Rightarrow> ArchiveHeader \<Rightarrow> bytes \<Rightarrow> nat \<Rightarrow> (nat \<times> Frame) list" where
  "valid_run H isNormal h bs off =
    (case frame_at H isNormal h bs off of None \<Rightarrow> []
     | Some (f, fsz) \<Rightarrow> (off, f) # valid_run H isNormal h bs (off + fsz))"
  by pat_completeness auto
termination
  by (relation "measure (\<lambda>(H, isNormal, h, bs, off). length bs - off)") (auto dest: frame_at_Some(1,2) frame_at_step)

function run_end :: "hashes \<Rightarrow> (bytes \<Rightarrow> bool) \<Rightarrow> ArchiveHeader \<Rightarrow> bytes \<Rightarrow> nat \<Rightarrow> nat" where
  "run_end H isNormal h bs off =
    (case frame_at H isNormal h bs off of None \<Rightarrow> off
     | Some (f, fsz) \<Rightarrow> run_end H isNormal h bs (off + fsz))"
  by pat_completeness auto
termination
  by (relation "measure (\<lambda>(H, isNormal, h, bs, off). length bs - off)") (auto dest: frame_at_Some(1,2) frame_at_step)

declare valid_run.simps [simp del] run_end.simps [simp del]

lemma run_end_bound: "off \<le> length bs \<Longrightarrow> off \<le> run_end H isNormal h bs off \<and> run_end H isNormal h bs off \<le> length bs"
proof (induction H isNormal h bs off rule: run_end.induct)
  case (1 H isNormal h bs off)
  show ?case
  proof (cases "frame_at H isNormal h bs off")
    case (Some x)
    obtain f fsz where x: "x = (f, fsz)" by (cases x)
    then have "off + fsz \<le> length bs" using frame_at_Some(2) Some by blast
    then show ?thesis using 1(1)[OF Some x[symmetric]] Some x by (simp add: run_end.simps[of H isNormal h bs off])
  qed (use 1 in \<open>simp add: run_end.simps[of H isNormal h bs off]\<close>)
qed

fun visit :: "('a \<Rightarrow> nat \<Rightarrow> Frame \<Rightarrow> 'a \<times> error option) \<Rightarrow> 'a \<Rightarrow> (nat \<times> Frame) list \<Rightarrow> 'a \<times> error option" where
  "visit fn acc [] = (acc, None)"
| "visit fn acc ((off, f) # r) = (case fn acc off f of (acc1, Some e) \<Rightarrow> (acc1, Some e) | (acc1, None) \<Rightarrow> visit fn acc1 r)"

text \<open>The valid frames at the grid positions from an offset on, whatever lies between them.\<close>

function grid_frames :: "hashes \<Rightarrow> (bytes \<Rightarrow> bool) \<Rightarrow> ArchiveHeader \<Rightarrow> bytes \<Rightarrow> nat \<Rightarrow> TailFrame list" where
  "grid_frames H isNormal h bs off =
    (if off + 16 \<le> length bs then
       (case frame_at H isNormal h bs off of None \<Rightarrow> [] | Some (f, _) \<Rightarrow> [\<lparr> tf_Offset = off, tf_Trailer = f_Trailer f \<rparr>]) @
       grid_frames H isNormal h bs (off + 4096)
     else [])"
  by pat_completeness auto
termination
  by (relation "measure (\<lambda>(H, isNormal, h, bs, off). length bs - off)") auto

declare grid_frames.simps [simp del]

lemma grid_frames_complete:
  "frame_at H isNormal h bs (off + 4096 * j) = Some (f, fsz) \<Longrightarrow>
    \<lparr> tf_Offset = off + 4096 * j, tf_Trailer = f_Trailer f \<rparr> \<in> set (grid_frames H isNormal h bs off)"
proof (induction j arbitrary: off)
  case 0
  then show ?case using frame_at_Some[of H isNormal h bs off f fsz]
    by (subst grid_frames.simps) (auto simp: frame_at_def split: if_splits)
next
  case (Suc j)
  from Suc.prems have "off + 16 \<le> length bs" by (auto simp: frame_at_def split: if_splits)
  then show ?case using Suc.IH[of "off + 4096"] Suc.prems by (subst grid_frames.simps) (simp add: algebra_simps)
qed

section \<open>Tails\<close>

lemma seg_drop: "k \<le> length b \<Longrightarrow> seg (drop k b) i j = seg b (k + i) (k + j)"
  by (simp add: seg_def add.commute)

lemma TailLen_drop: "k + 100 \<le> length b \<Longrightarrow> TailLen (drop k b) n = TailLen b n"
  by (auto simp: TailLen_def Let_def seg_drop)

lemma unat_of_nat_le: "unat (of_nat n :: 'a::len word) \<le> n"
  by (simp add: unat_of_nat take_bit_nat_less_eq_self)

lemma unat_frame_bytes: "unat (word_of_nat (unat (q :: u32) * 4096) :: u64) = unat q * 4096"
  using unsigned_less[of q, where 'a = nat] by (intro unat_of_nat_u64) simp

text \<open>Only the last bytes of a frame decide about its tail.\<close>

lemma DecodeTail_drop:
  assumes t: "TailLen b n = Inr nd" and k: "k + nd \<le> length b" and n: "length b \<le> unat n"
  shows "DecodeTail (drop k b) n = DecodeTail b n"
proof -
  have nd: "108 \<le> nd" using TailLen_Inr[OF t] by simp
  have "word_of_nat (length b) \<le> n" "word_of_nat (length b - k) \<le> n"
    using n unat_of_nat_le[of "length b", where 'a = 64] unat_of_nat_le[of "length b - k", where 'a = 64]
    by (simp_all add: word_le_nat_alt)
  then have le: "\<not> word_of_nat (length b) > n" "\<not> word_of_nat (length (drop k b)) > n" by (simp_all add: not_less)
  have same: "\<not> length b < nd" "\<not> length (drop k b) < nd"
    "seg (drop k b) (length (drop k b) - 96) (length (drop k b)) = seg b (length b - 96) (length b)"
    "seg (drop k b) (length (drop k b) - nd) (length (drop k b) - 96 - 4) = seg b (length b - nd) (length b - 96 - 4)"
    using nd k by (simp_all add: seg_drop)
  have t': "TailLen (drop k b) n = Inr nd" using TailLen_drop[of k b n] nd k t by simp
  show ?thesis unfolding DecodeTail_def t t' Let_def sum.case same by (simp only: le simp_thms same if_False)
qed

text \<open>What a walk by tails sees at an offset of the content, and that it sees every valid frame.\<close>

definition tail_at :: "(bytes \<Rightarrow> bool) \<Rightarrow> ArchiveHeader \<Rightarrow> bytes \<Rightarrow> nat \<Rightarrow> nat \<Rightarrow> HopFrame option" where
  "tail_at isNormal h bs off sz =
    (case tailAt isNormal (\<lambda>i n. (seg bs i (i + n), None)) h off sz of Inl _ \<Rightarrow> None | Inr r \<Rightarrow> r)"

definition hop_of :: "ArchiveHeader \<Rightarrow> nat \<Rightarrow> Frame \<Rightarrow> HopFrame" where
  "hop_of h off f = \<lparr> hf_Offset = off, hf_Quanta = p_FrameQuanta (f_Prefix f), hf_Trailer = f_Trailer f,
     hf_Entries = (if m_BlockType (f_Trailer f) = BlockParity then None else f_Entries f) \<rparr>"

lemma frame_at_prefix:
  assumes "frame_at H isNormal h bs off = Some (f, fsz)"
  shows "DecodeFramePrefix (seg bs off (off + 16)) h = Inr (f_Prefix f)" "fsz = unat (p_FrameQuanta (f_Prefix f)) * 4096"
proof -
  obtain p where p: "DecodeFramePrefix (seg bs off (off + 16)) h = Inr p" "fsz = unat (p_FrameQuanta p) * 4096"
    "Parse H isNormal (seg bs off (off + fsz)) h = Inr f" "off + fsz \<le> length bs"
    using assms by (auto simp: frame_at_def Let_def split: if_splits sum.splits)
  have q: "16 \<le> fsz" using p(1,2) by (auto simp: CheckFrameQuanta_Inr dest!: DecodeFramePrefix_Inr)
  have "DecodeFramePrefix (seg bs off (off + fsz)) h = Inr (f_Prefix f)" using p(3) by (rule Parse_facts)
  then have "p_FrameQuanta (f_Prefix f) = p_FrameQuanta p"
    using q DecodeFramePrefix_Inr[OF p(1)] DecodeFramePrefix_Inr[of "seg bs off (off + fsz)" h "f_Prefix f"]
    by (simp add: seg_seg)
  then have "f_Prefix f = p" by simp
  then show "DecodeFramePrefix (seg bs off (off + 16)) h = Inr (f_Prefix f)" "fsz = unat (p_FrameQuanta (f_Prefix f)) * 4096"
    using p by simp_all
qed

lemma tail_at_frame:
  assumes f: "frame_at H isNormal h bs off = Some (f, fsz)" and sz: "off + fsz \<le> sz"
  shows "tail_at isNormal h bs off sz = Some (hop_of h off f)"
proof -
  let ?b = "seg bs off (off + fsz)" and ?q = "p_FrameQuanta (f_Prefix f)"
  note fs = frame_at_Some[OF f] and pre = frame_at_prefix[OF f]
  have lb: "length ?b = fsz" using fs(2) by simp
  obtain lay where P: "DecodeFrameTail ?b = Inr \<lparr> t_Body = f_PreTrailer f, t_Trailer = f_Trailer f \<rparr>"
    "ValidateTrailer (f_Trailer f) h (f_Prefix f) = Inr ()"
    "Encrypted h \<and> m_BlockType (f_Trailer f) \<noteq> BlockParity \<longleftrightarrow> f_Entries f = None"
    "\<forall>es. f_Entries f = Some es \<longrightarrow> DecodeEntries isNormal (take (length (f_PreTrailer f) - 4) (f_PreTrailer f)) = Inr es"
    by (rule Parse_facts[OF fs(3)]) blast
  have S: "unat (FrameSize ?q) = fsz" "unat (word_of_nat fsz :: u64) = fsz"
    unfolding pre(2) by (rule unat_FrameSize) (rule unat_frame_bytes)
  from P(1) obtain nd where nd: "TailLen ?b (word_of_nat fsz) = Inr nd"
    by (auto simp: DecodeFrameTail_def DecodeTail_def lb split: if_splits sum.splits)
  then have b: "108 \<le> nd" "nd + 16 \<le> fsz" using TailLen_Inr[OF nd] S by simp_all
  have cut: "drop (fsz - k) ?b = seg bs (off + fsz - k) (off + fsz)" if "k \<le> fsz" for k
    using that fs(2) by (simp add: seg_def drop_take add.commute)
  have l: "TailLen (seg bs (off + fsz - 100) (off + fsz)) (word_of_nat fsz) = Inr nd"
    using TailLen_drop[of "fsz - 100" ?b] nd cut[of 100] b lb by simp
  have d: "DecodeTail (seg bs (off + fsz - nd) (off + fsz)) (word_of_nat fsz) = Inr \<lparr> t_Body = f_PreTrailer f, t_Trailer = f_Trailer f \<rparr>"
    using DecodeTail_drop[OF nd, of "fsz - nd"] P(1) cut[of nd] b lb S by (simp add: DecodeFrameTail_def)
  have e: "m_BlockType (f_Trailer f) \<noteq> BlockParity \<and> \<not> Encrypted h \<Longrightarrow>
      (case DecodeEntries isNormal (take (length (f_PreTrailer f) - 4) (f_PreTrailer f)) of Inl _ \<Rightarrow> None | Inr es \<Rightarrow> Some es) = f_Entries f"
    using P(3,4) by (cases "f_Entries f") auto
  show ?thesis
    using pre(1) sz l d b P(2,3) e by (auto simp: tail_at_def tailAt_def hop_of_def Let_def pre(2)[symmetric])
qed

section \<open>Readers\<close>

definition io_failure :: "error \<Rightarrow> bool" where
  "io_failure e \<longleftrightarrow> \<not> IsFormatError e \<and> err_class_of e \<notin> {ErrEOF, ErrUnexpectedEOF}"

lemma buf_cap_fits: "n \<le> buf_cap n"
  using classOf_fits[of n] by (simp add: buf_cap_def)

lemma pool_Get_cap: "wf_pool p \<Longrightarrow> pool_Get p n = (p', b) \<Longrightarrow> b = buf_cap n"
  by (auto simp: pool_Get_def buf_cap_def wf_pool_def Let_def split: if_splits list.splits)

locale random_reader =
  fixes rd :: reader and bs :: bytes and bad :: bool
  assumes read_at: "0 < n \<Longrightarrow> off + n \<le> length bs \<Longrightarrow>
    rd off n = (seg bs off (off + n), None) \<or> (\<exists>b e. rd off n = (b, Some e) \<and> bad \<and> io_failure e)"
begin

definition wf_window :: "window \<Rightarrow> bool" where
  "wf_window w \<longleftrightarrow> w_size w = length bs \<and> w_off w + length (w_data w) \<le> length bs \<and>
     w_data w = seg bs (w_off w) (w_off w + length (w_data w))"

lemma wf_new_window: "wf_window (new_window (length bs))"
  by (simp add: wf_window_def new_window_def)

lemma window_get_ok:
  assumes w: "wf_window w" and n: "0 < n" "off + n \<le> length bs" and g: "window_get rd w off n = (r, w')"
  shows "wf_window w' \<and> (r = Inr (seg bs off (off + n)) \<or> (\<exists>e. r = Inl e \<and> bad \<and> io_failure e))"
proof (cases "off \<ge> w_off w \<and> off + n \<le> w_off w + length (w_data w)")
  case True
  then have r: "r = Inr (seg (w_data w) (off - w_off w) (off - w_off w + n))" "w' = w"
    using g by (auto simp: window_get_def)
  have "seg (w_data w) (off - w_off w) (off - w_off w + n) =
      seg (seg bs (w_off w) (w_off w + length (w_data w))) (off - w_off w) (off - w_off w + n)"
    using w unfolding wf_window_def by simp
  also have "\<dots> = seg bs off (off + n)"
    using True n by (subst seg_seg) auto
  finally show ?thesis using r w by simp
next
  case False
  define cap where "cap = (if w_cap w < max n 1048576 then buf_cap (max n 1048576) else w_cap w)"
  define k where "k = min cap (w_size w - off)"
  have "max n 1048576 \<le> cap" using buf_cap_fits[of "max n 1048576"] unfolding cap_def by (simp only: not_less split: if_split) blast
  then have k: "n \<le> k" "0 < k" "off + k \<le> length bs" using n w by (auto simp: k_def wf_window_def)
  have eq: "window_get rd w off n = (let (got, err) = rd off k in case err of
            Some e \<Rightarrow>
              if err_class_of e = ErrEOF \<and> length got = k
              then (if length got < n then Inl errUnexpectedEOF else Inr (take n got),
                    w\<lparr> w_cap := cap, w_off := off, w_data := got \<rparr>)
              else (Inl e, w\<lparr> w_cap := cap, w_data := [] \<rparr>)
          | None \<Rightarrow> (if length got < n then Inl errUnexpectedEOF else Inr (take n got),
                    w\<lparr> w_cap := cap, w_off := off, w_data := got \<rparr>))"
    by (simp only: window_get_def if_not_P[OF False] Let_def cap_def[symmetric] k_def[symmetric])
  from read_at[OF k(2,3)] show ?thesis
  proof
    assume rd: "rd off k = (seg bs off (off + k), None)"
    have "take n (seg bs off (off + k)) = seg bs off (off + n)" using k n by (simp add: seg_def min_def)
    then show ?thesis using g eq rd k w by (auto simp: wf_window_def)
  next
    assume "\<exists>b e. rd off k = (b, Some e) \<and> bad \<and> io_failure e"
    then show ?thesis using g eq w by (auto simp: wf_window_def io_failure_def)
  qed
qed

lemma parseAt_ok:
  assumes w: "wf_window w" and h: "wf_header h" and p: "parseAt H isNormal rd w h off = (r, w')"
  shows "wf_window w' \<and> ((\<exists>e. r = Inl e \<and> bad \<and> io_failure e) \<or>
    (case frame_at H isNormal h bs off of Some x \<Rightarrow> r = Inr x
     | None \<Rightarrow> \<exists>e. r = Inl e \<and> (IsFormatError e \<or> e = errUnexpectedEOF)))"
proof (cases "off + 16 > length bs")
  case True
  then show ?thesis using p w by (auto simp: parseAt_def frame_at_def wf_window_def)
next
  case False
  have sz: "w_size w = length bs" using w by (simp add: wf_window_def)
  obtain r1 w1 where g1: "window_get rd w off 16 = (r1, w1)" by (cases "window_get rd w off 16")
  note W1 = window_get_ok[OF w _ _ g1]
  show ?thesis
  proof (cases r1)
    case (Inl e)
    then show ?thesis using W1 p False sz g1 by (auto simp: parseAt_def)
  next
    case (Inr pb)
    then have w1: "wf_window w1" and pb: "pb = seg bs off (off + 16)" using W1 False by auto
    have sz1: "w_size w1 = length bs" using w1 by (simp add: wf_window_def)
    show ?thesis
    proof (cases "DecodeFramePrefix pb h")
      case (Inl e)
      then show ?thesis
        using p False sz g1 Inr w1 pb DecodeFramePrefix_Inl[OF Inl] by (auto simp: parseAt_def frame_at_def)
    next
      case pre: (Inr pr)
      let ?fsz = "unat (p_FrameQuanta pr) * 4096"
      have q: "0 < ?fsz" using DecodeFramePrefix_Inr[OF pre] by (simp add: CheckFrameQuanta_Inr)
      show ?thesis
      proof (cases "off + ?fsz > length bs")
        case True
        then show ?thesis using p False sz sz1 g1 Inr w1 pb pre by (auto simp: parseAt_def frame_at_def Let_def)
      next
        case fits: False
        obtain r2 w2 where g2: "window_get rd w1 off ?fsz = (r2, w2)" by (cases "window_get rd w1 off ?fsz")
        have W2: "wf_window w2 \<and> (r2 = Inr (seg bs off (off + ?fsz)) \<or> (\<exists>e. r2 = Inl e \<and> bad \<and> io_failure e))"
          using window_get_ok[OF w1 q _ g2] fits by simp
        show ?thesis
        proof (cases r2)
          case (Inl e)
          then show ?thesis using W2 p False sz sz1 g1 g2 Inr fits pb pre by (auto simp: parseAt_def Let_def)
        next
          case b: (Inr b)
          then have bb: "b = seg bs off (off + ?fsz)" using W2 by auto
          show ?thesis
            using p False sz sz1 g1 g2 Inr b bb fits pb pre W2 Parse_Inl[OF h]
            by (cases "Parse H isNormal b h") (auto simp: parseAt_def frame_at_def Let_def)
        qed
      qed
    qed
  qed
qed

text \<open>The scan visits the valid run in order and ends where it ends, or reports a failed read.\<close>

lemma scan_loop_ok:
  assumes "wf_window w" "wf_header h" "sr_End res = off" "off \<le> length bs" "sr_Err res = None"
    "scan_loop H isNormal rd h (length bs) fn w off res acc = (res', acc', err)"
  shows "(\<exists>e. err = Some e \<and> bad \<and> io_failure e) \<or>
    ((acc', err) = visit fn acc (valid_run H isNormal h bs off) \<and>
     (err = None \<longrightarrow> sr_End res' = run_end H isNormal h bs off \<and>
        sr_Frames res' = sr_Frames res + length (valid_run H isNormal h bs off) \<and> sr_Size res' = sr_Size res \<and>
        (sr_Err res' = None \<longleftrightarrow> run_end H isNormal h bs off = length bs)))"
  using assms
proof (induction "length bs - off" arbitrary: w off res acc rule: less_induct)
  case less
  show ?case
  proof (cases "off < length bs")
    case False
    then have n: "frame_at H isNormal h bs off = None" by (simp add: frame_at_def)
    have "valid_run H isNormal h bs off = []" "run_end H isNormal h bs off = off"
      using n by (simp_all add: valid_run.simps[of H isNormal h bs off] run_end.simps[of H isNormal h bs off])
    then show ?thesis
      using less(7) False less(4,5,6) by (auto simp: scan_loop.simps[of H isNormal rd h])
  next
    case True
    obtain r w1 where p: "parseAt H isNormal rd w h off = (r, w1)" by (cases "parseAt H isNormal rd w h off")
    note P = parseAt_ok[OF less(2,3) p]
    show ?thesis
    proof (cases "\<exists>e. r = Inl e \<and> bad \<and> io_failure e")
      case f: True
      then show ?thesis
        using less(7) True p by (auto simp: scan_loop.simps[of H isNormal rd h] io_failure_def split: if_splits)
    next
      case nf: False
      show ?thesis
      proof (cases "frame_at H isNormal h bs off")
        case None
        then obtain e where e: "r = Inl e" "IsFormatError e \<or> e = errUnexpectedEOF" using P nf by auto
        then show ?thesis
          using less(4,6,7) True p None by (auto simp: scan_loop.simps[of H isNormal rd h] valid_run.simps[of H isNormal h bs off]
              run_end.simps[of H isNormal h bs off])
      next
        case (Some x)
        obtain f fsz where x: "x = (f, fsz)" by (cases x)
        have r: "r = Inr (f, fsz)" and w1: "wf_window w1" using P nf Some x by auto
        have fs: "0 < fsz" "off + fsz \<le> length bs" using frame_at_Some Some x by blast+
        obtain acc1 e1 where fn: "fn acc off f = (acc1, e1)" by (cases "fn acc off f")
        show ?thesis
        proof (cases e1)
          case (Some e)
          then show ?thesis
            using less(7) True p r fn \<open>frame_at H isNormal h bs off = Some x\<close> x
            by (auto simp: scan_loop.simps[of H isNormal rd h] valid_run.simps[of H isNormal h bs off])
        next
          case None
          let ?res = "res\<lparr> sr_End := off + fsz, sr_Frames := sr_Frames res + 1 \<rparr>"
          have "scan_loop H isNormal rd h (length bs) fn w1 (off + fsz) ?res acc1 = (res', acc', err)"
            using less(7) True p r fn None by (simp add: scan_loop.simps[of H isNormal rd h "length bs" fn w])
          from less(1)[OF _ w1 less(3) _ fs(2) _ this] show ?thesis
            using True fs less(6) Some x fn None
            by (auto simp: valid_run.simps[of H isNormal h bs off] run_end.simps[of H isNormal h bs off])
        qed
      qed
    qed
  qed
qed

lemma scan_ok:
  assumes "wf_header h" "from \<le> length bs" "scan H isNormal rd h from (length bs) fn acc = (res, acc', err)"
  shows "(\<exists>e. err = Some e \<and> bad \<and> io_failure e) \<or>
    ((acc', err) = visit fn acc (valid_run H isNormal h bs from) \<and>
     (err = None \<longrightarrow> sr_End res = run_end H isNormal h bs from \<and> sr_Frames res = length (valid_run H isNormal h bs from) \<and>
        sr_Size res = length bs \<and> (sr_Err res = None \<longleftrightarrow> sr_End res = length bs)))"
  using scan_loop_ok[OF wf_new_window assms(1) _ assms(2) _ assms(3)[unfolded scan_def]] by auto

lemma probe_loop_ok:
  assumes "wf_window w" "wf_header h"
  shows "(\<exists>e. probe_loop H isNormal rd h (length bs) w off out = Inl e \<and> bad \<and> io_failure e) \<or>
    probe_loop H isNormal rd h (length bs) w off out = Inr (out @ grid_frames H isNormal h bs off)"
  using assms
proof (induction "length bs - off" arbitrary: w off out rule: less_induct)
  case less
  note loop = probe_loop.simps[of H isNormal rd h "length bs" w off out]
    and grid = grid_frames.simps[of H isNormal h bs off]
  show ?case
  proof (cases "off + 16 \<le> length bs")
    case False
    then show ?thesis by (simp add: loop grid)
  next
    case True
    obtain r w1 where p: "parseAt H isNormal rd w h off = (r, w1)" by (cases "parseAt H isNormal rd w h off")
    note P = parseAt_ok[OF less(2,3) p]
    have IH: "(\<exists>e. probe_loop H isNormal rd h (length bs) w1 (off + 4096) out' = Inl e \<and> bad \<and> io_failure e) \<or>
        probe_loop H isNormal rd h (length bs) w1 (off + 4096) out' = Inr (out' @ grid_frames H isNormal h bs (off + 4096))" for out'
      using less(1)[OF _ _ less(3)] True P by simp
    show ?thesis
    proof (cases "\<exists>e. r = Inl e \<and> bad \<and> io_failure e")
      case f: True
      then show ?thesis using True p by (auto simp: loop io_failure_def)
    next
      case nf: False
      show ?thesis
      proof (cases "frame_at H isNormal h bs off")
        case None
        then obtain e where "r = Inl e" "IsFormatError e \<or> e = errUnexpectedEOF" using P nf by auto
        then show ?thesis using IH[of out] True p None by (auto simp: loop grid)
      next
        case (Some x)
        obtain f fsz where x: "x = (f, fsz)" by (cases x)
        then have "r = Inr (f, fsz)" using P nf Some by auto
        then show ?thesis using IH[of "out @ [\<lparr> tf_Offset = off, tf_Trailer = f_Trailer f \<rparr>]"] True p Some x
          by (simp add: loop grid)
      qed
    qed
  qed
qed

lemma probeTail_ok:
  "wf_header h \<Longrightarrow> (\<exists>e. probeTail H isNormal rd h from (length bs) = Inl e \<and> bad \<and> io_failure e) \<or>
    probeTail H isNormal rd h from (length bs) = Inr (grid_frames H isNormal h bs from)"
  using probe_loop_ok[OF wf_new_window] unfolding probeTail_def by fastforce

lemma tailAt_ok:
  assumes "off + 16 \<le> sz" "sz \<le> length bs"
  shows "(\<exists>e. tailAt isNormal rd h off sz = Inl e \<and> bad \<and> io_failure e) \<or> tailAt isNormal rd h off sz = Inr (tail_at isNormal h bs off sz)"
proof (cases "rd off 16 = (seg bs off (off + 16), None)")
  case False
  then obtain b e where "rd off 16 = (b, Some e)" "bad \<and> io_failure e" using read_at[of 16 off] assms by auto
  then show ?thesis by (simp add: tailAt_def)
next
  case r1: True
  show ?thesis
  proof (cases "DecodeFramePrefix (seg bs off (off + 16)) h")
    case (Inl e)
    then show ?thesis using r1 by (simp add: tailAt_def tail_at_def)
  next
    case p: (Inr p)
    let ?S = "unat (p_FrameQuanta p) * 4096"
    have S: "4096 \<le> ?S" "unat (word_of_nat ?S :: u64) = ?S"
      using DecodeFramePrefix_Inr[OF p] unat_frame_bytes by (simp add: CheckFrameQuanta_Inr, blast)
    show ?thesis
    proof (cases "off + ?S > sz")
      case True
      then show ?thesis using r1 p by (simp add: tailAt_def tail_at_def)
    next
      case fits: False
      show ?thesis
      proof (cases "rd (off + ?S - 100) 100 = (seg bs (off + ?S - 100) (off + ?S), None)")
        case False
        then obtain b e where "rd (off + ?S - 100) 100 = (b, Some e)" "bad \<and> io_failure e"
          using read_at[of 100 "off + ?S - 100"] fits assms S(1) by auto
        then show ?thesis using r1 p fits by (simp add: tailAt_def Let_def)
      next
        case r2: True
        show ?thesis
        proof (cases "TailLen (seg bs (off + ?S - 100) (off + ?S)) (word_of_nat ?S)")
          case (Inl e)
          then show ?thesis using r1 r2 p fits S(1) by (simp add: tailAt_def tail_at_def Let_def)
        next
          case l: (Inr nd)
          then have nd: "108 \<le> nd" "nd + 16 \<le> ?S" using TailLen_Inr[OF l] S(2) by simp_all
          show ?thesis
          proof (cases "rd (off + ?S - nd) nd = (seg bs (off + ?S - nd) (off + ?S), None)")
            case False
            then obtain b e where "rd (off + ?S - nd) nd = (b, Some e)" "bad \<and> io_failure e"
              using read_at[of nd "off + ?S - nd"] fits assms nd by auto
            then show ?thesis using r1 r2 l p fits S(1) by (simp add: tailAt_def Let_def)
          next
            case True
            then show ?thesis using r1 r2 l p fits S(1) nd
              by (simp add: tailAt_def tail_at_def Let_def split: sum.split)
          qed
        qed
      qed
    qed
  qed
qed

abbreviation (input) collect_hop :: "HopFrame list \<Rightarrow> HopFrame \<Rightarrow> HopFrame list \<times> error option" where
  "collect_hop acc hf \<equiv> (acc @ [hf], None)"

lemma hop_loop_extends:
  assumes "hop_loop isNormal rd h from (length bs) collect_hop off c acc = (c', acc', err)" "case c of None \<Rightarrow> True | Some x \<Rightarrow> x \<ge> lo" "lo \<le> off"
  shows "(\<exists>e. err = Some e \<and> bad \<and> io_failure e) \<or> (err = None \<and> lo \<le> c' \<and> (\<exists>rest. acc' = acc @ rest))"
  using assms
proof (induction "length bs - off" arbitrary: off c acc rule: less_induct)
  case less
  note loop = hop_loop.simps[of isNormal rd h "from" "length bs" collect_hop off c acc]
  show ?case
  proof (cases "off + 4096 \<le> length bs")
    case False
    then show ?thesis using less.prems by (auto simp: loop split: option.splits)
  next
    case True
    then have T: "(\<exists>e. tailAt isNormal rd h off (length bs) = Inl e \<and> bad \<and> io_failure e) \<or>
        tailAt isNormal rd h off (length bs) = Inr (tail_at isNormal h bs off (length bs))" by (intro tailAt_ok) simp_all
    show ?thesis
    proof (cases "tailAt isNormal rd h off (length bs)")
      case (Inl e)
      then show ?thesis using T less.prems(1) True by (auto simp: loop)
    next
      case (Inr r)
      show ?thesis
      proof (cases r)
        case None
        have "hop_loop isNormal rd h from (length bs) collect_hop (off + 4096) (case c of None \<Rightarrow> Some off | Some x \<Rightarrow> Some x) acc = (c', acc', err)"
          using less.prems(1) True Inr None by (simp add: loop)
        from less(1)[OF _ this] show ?thesis using True less.prems(2,3) by (auto split: option.splits)
      next
        case (Some hf)
        then have q: "0 < unat (hf_Quanta hf)" using tailAt_quanta Inr by blast
        have "hop_loop isNormal rd h from (length bs) collect_hop (off + unat (FrameSize (hf_Quanta hf))) c (acc @ [hf]) = (c', acc', err)"
          using less.prems(1) True Inr Some by (simp add: loop)
        moreover have "length bs - (off + unat (FrameSize (hf_Quanta hf))) < length bs - off" using True q by simp
        ultimately show ?thesis using less(1) less.prems(2,3) by fastforce
      qed
    qed
  qed
qed

text \<open>The walk by tails passes through every frame of the valid run before it meets a position without one.\<close>

lemma hop_loop_covers:
  assumes "hop_loop isNormal rd h from (length bs) collect_hop off None acc = (c', acc', err)"
  shows "(\<exists>e. err = Some e \<and> bad \<and> io_failure e) \<or> (err = None \<and> run_end H isNormal h bs off \<le> c' \<and>
    (\<exists>rest. acc' = acc @ map (\<lambda>(i, f). hop_of h i f) (valid_run H isNormal h bs off) @ rest))"
  using assms
proof (induction "length bs - off" arbitrary: off acc rule: less_induct)
  case less
  note loop = hop_loop.simps[of isNormal rd h "from" "length bs" collect_hop off None acc]
    and run = valid_run.simps[of H isNormal h bs off] run_end.simps[of H isNormal h bs off]
  show ?case
  proof (cases "frame_at H isNormal h bs off")
    case None
    then show ?thesis using hop_loop_extends[OF less.prems, of off] by (auto simp: run)
  next
    case (Some x)
    obtain f fsz where x: "x = (f, fsz)" by (cases x)
    note fr = frame_at_Some[OF Some[unfolded x]] and pre = frame_at_prefix[OF Some[unfolded x]]
    have le: "off + 4096 \<le> length bs" using fr pre(2) by simp
    then have T: "(\<exists>e. tailAt isNormal rd h off (length bs) = Inl e \<and> bad \<and> io_failure e) \<or>
        tailAt isNormal rd h off (length bs) = Inr (Some (hop_of h off f))"
      using tailAt_ok[of off "length bs" isNormal h] tail_at_frame[OF Some[unfolded x] fr(2)] by simp
    show ?thesis
    proof (cases "tailAt isNormal rd h off (length bs)")
      case (Inl e)
      then show ?thesis using T less.prems le by (auto simp: loop)
    next
      case (Inr r)
      have "unat (FrameSize (hf_Quanta (hop_of h off f))) = fsz" using pre(2) by (simp add: hop_of_def)
      then have "hop_loop isNormal rd h from (length bs) collect_hop (off + fsz) None (acc @ [hop_of h off f]) = (c', acc', err)"
        using less.prems le Inr T by (simp add: loop del: unat_FrameSize)
      from less(1)[OF _ this] show ?thesis using fr Some x by (auto simp: run)
    qed
  qed
qed

lemma ReadFrame_ok:
  assumes h: "wf_header h" and off: "64 \<le> off" "OnFrameGrid (word_of_nat off)"
  shows "(\<exists>e. ReadFrame H isNormal rd (length bs) h off = Inl e \<and> bad \<and> io_failure e) \<or>
    (case frame_at H isNormal h bs off of
       Some (f, fsz) \<Rightarrow> ReadFrame H isNormal rd (length bs) h off =
         Inr \<lparr> ref_Frame = f, ref_Offset = int off, ref_Bytes = seg bs off (off + fsz) \<rparr>
     | None \<Rightarrow> \<exists>e. ReadFrame H isNormal rd (length bs) h off = Inl e \<and> IsFormatError e)"
proof (cases "off + 16 > length bs")
  case True
  then show ?thesis using off by (simp add: ReadFrame_def frameSizeAt_def frame_at_def)
next
  case False
  show ?thesis
  proof (cases "rd off 16 = (seg bs off (off + 16), None)")
    case nr: False
    then obtain b e where "rd off 16 = (b, Some e)" "bad \<and> io_failure e" using read_at[of 16 off] False by auto
    then show ?thesis using False off by (simp add: ReadFrame_def frameSizeAt_def)
  next
    case r1: True
    show ?thesis
    proof (cases "DecodeFramePrefix (seg bs off (off + 16)) h")
      case (Inl e)
      then show ?thesis using r1 False off DecodeFramePrefix_Inl[OF Inl] by (simp add: ReadFrame_def frameSizeAt_def frame_at_def)
    next
      case p: (Inr p)
      let ?S = "unat (p_FrameQuanta p) * 4096"
      have S: "0 < ?S" using DecodeFramePrefix_Inr[OF p] by (simp add: CheckFrameQuanta_Inr)
      show ?thesis
      proof (cases "off + ?S > length bs")
        case True
        then show ?thesis using r1 False off p by (simp add: ReadFrame_def frameSizeAt_def frame_at_def Let_def)
      next
        case fits: False
        from read_at[of ?S off] S fits show ?thesis
          using r1 False off p Parse_Inl[OF h]
          by (auto simp: ReadFrame_def frameSizeAt_def frame_at_def Let_def split: sum.split)
      qed
    qed
  qed
qed

end


section \<open>Files of the crash file system\<close>

text \<open>A read through a file handle, failing where the device does.\<close>

definition file_reader :: "(nat \<Rightarrow> nat \<Rightarrow> bool) \<Rightarrow> CrashFS \<Rightarrow> crashFile \<Rightarrow> reader" where
  "file_reader fault c f off n = (if fault off n then ([], Some io_error) else ReadAt c f n off)"

definition file_bytes :: "CrashFS \<Rightarrow> crashFile \<Rightarrow> bytes" where
  "file_bytes c f = cur (inodes c ! cf_in f)"

definition unreliable :: "(nat \<Rightarrow> nat \<Rightarrow> bool) \<Rightarrow> crashFile \<Rightarrow> bool" where
  "unreliable fault f \<longleftrightarrow> cf_closed f \<or> (\<exists>off n. fault off n)"

lemma file_Size_bytes: "file_Size c f = length (file_bytes c f)"
  by (simp add: file_Size_def file_bytes_def)

interpretation blob_file: random_reader "file_reader fault c f" "file_bytes c f" "unreliable fault f"
proof unfold_locales
  fix off n :: nat
  assume n: "0 < n" "off + n \<le> length (file_bytes c f)"
  show "file_reader fault c f off n = (seg (file_bytes c f) off (off + n), None) \<or>
    (\<exists>b e. file_reader fault c f off n = (b, Some e) \<and> unreliable fault f \<and> io_failure e)"
  proof (cases "fault off n \<or> cf_closed f")
    case True
    then show ?thesis
      by (auto simp: file_reader_def ReadAt_def unreliable_def io_failure_def io_error_def)
  next
    case False
    then show ?thesis using n by (simp add: file_reader_def ReadAt_def file_bytes_def seg_def Let_def)
  qed
qed


lemma file_scan_ok:
  assumes "wf_header h" "from \<le> file_Size c f" "\<not> unreliable fault f"
    "scan H isNormal (file_reader fault c f) h from (file_Size c f) fn acc = (res, acc', err)"
  shows "(acc', err) = visit fn acc (valid_run H isNormal h (file_bytes c f) from)"
    "err = None \<Longrightarrow> sr_End res = run_end H isNormal h (file_bytes c f) from \<and>
       sr_Frames res = length (valid_run H isNormal h (file_bytes c f) from) \<and> (sr_Err res = None \<longleftrightarrow> sr_End res = file_Size c f)"
  using blob_file.scan_ok[OF assms(1,2,4)[unfolded file_Size_bytes]] assms(3) by (auto simp: file_Size_bytes)

lemma valid_run_single:
  assumes "frame_at H isNormal h bs off = Some (f, fsz)" "off + fsz = length bs"
  shows "valid_run H isNormal h bs off = [(off, f)]" "run_end H isNormal h bs off = length bs"
proof -
  have "frame_at H isNormal h bs (length bs) = None" by (simp add: frame_at_def)
  then show "valid_run H isNormal h bs off = [(off, f)]" "run_end H isNormal h bs off = length bs"
    using assms by (simp_all add: valid_run.simps[of H isNormal h bs off] valid_run.simps[of H isNormal h bs "length bs"]
        run_end.simps[of H isNormal h bs off] run_end.simps[of H isNormal h bs "length bs"])
qed

lemma frame_at_parsed:
  assumes "Parse H isNormal fr h = Inr f" "length fr = unat (p_FrameQuanta (f_Prefix f)) * 4096" "16 \<le> length fr"
  shows "frame_at H isNormal h (pre @ fr @ post) (length pre) = Some (f, length fr)"
proof -
  obtain lay where p: "DecodeFramePrefix fr h = Inr (f_Prefix f)" by (rule Parse_facts[OF assms(1)]) blast
  have "prefixCRC (take 16 fr) = prefixCRC fr" using assms(3) by (simp add: prefixCRC_def seg_take)
  then have "DecodeFramePrefix (take 16 fr) h = Inr (f_Prefix f)"
    using p assms(3) by (simp add: DecodeFramePrefix_def seg_take)
  moreover have "seg (pre @ fr @ post) (length pre) (length pre + 16) = take 16 fr"
    "seg (pre @ fr @ post) (length pre) (length pre + length fr) = fr"
    using assms(3) by (simp_all add: seg_def)
  ultimately show ?thesis using assms by (simp add: frame_at_def Let_def)
qed

section \<open>Properties\<close>

text \<open>C8: A scan of a blob through the read-ahead window, from any position and with any callback, calls the callback on
  exactly the frames of the longest uninterrupted run of valid frames of the file's content, in order and until the callback
  fails; its result then names the end of that run, the number of its frames, and an error exactly when the run ends before
  the file does. Only a failing device or a closed file can change that, and then the error returned is the I/O error and
  never one that would be taken for a torn tail.\<close>

theorem scan_visits_valid_run:
  assumes "wf_header h" "from \<le> file_Size c f"
    "scan H isNormal (file_reader fault c f) h from (file_Size c f) fn acc = (res, acc', err)"
  shows "(\<exists>e. err = Some e \<and> unreliable fault f \<and> io_failure e) \<or>
    ((acc', err) = visit fn acc (valid_run H isNormal h (file_bytes c f) from) \<and>
     (err = None \<longrightarrow> sr_End res = run_end H isNormal h (file_bytes c f) from \<and>
        sr_Frames res = length (valid_run H isNormal h (file_bytes c f) from) \<and>
        sr_Size res = file_Size c f \<and> (sr_Err res = None \<longleftrightarrow> sr_End res = file_Size c f)))"
  using blob_file.scan_ok[OF assms(1,2,3)[unfolded file_Size_bytes]] by (simp add: file_Size_bytes)

definition sample_file :: crashFile where
  "sample_file = \<lparr> cf_in = 0, cf_name = ''frames/blob-00.stash'', cf_writable = True, cf_closed = False \<rparr>"

text \<open>A blob of one frame, and a file system whose only file it is.\<close>

lemma sample_content:
  obtains fr f where "length fr = 4096" "f_Payload f = [1, 2, 3]" "m_BlockType (f_Trailer f) = 0" "f_Entries f = Some [sample_entry]"
    "\<And>pre post. frame_at sample_hashes (\<lambda>_. True) sample_header (pre @ fr @ post) (length pre) = Some (f, 4096)"
proof -
  obtain fr f where p: "Parse sample_hashes (\<lambda>_. True) fr sample_header = Inr f" "length fr = 4096" "f_Payload f = [1, 2, 3]"
    "m_BlockType (f_Trailer f) = 0" "f_Entries f = Some [sample_entry]"
    using sample_parsed by blast
  obtain lay where "word_of_nat (length fr) = FrameSize (p_FrameQuanta (f_Prefix f))" by (rule Parse_facts[OF p(1)]) blast
  then have "unat (FrameSize (p_FrameQuanta (f_Prefix f))) = 4096" using p(2) by (simp del: unat_FrameSize)
  then have "length fr = unat (p_FrameQuanta (f_Prefix f)) * 4096" using p(2) by simp
  then have "frame_at sample_hashes (\<lambda>_. True) sample_header (pre @ fr @ post) (length pre) = Some (f, length fr)" for pre post
    using p by (intro frame_at_parsed) simp_all
  then show ?thesis using that p by simp
qed

definition one_file :: "bytes \<Rightarrow> CrashFS" where
  "one_file b = NewCrashFS\<lparr> inodes := [\<lparr> cur = b, dur = b \<rparr>], ns := [''frames/blob-00.stash'' \<mapsto> 0],
     dirs := (\<lambda>d. d = ''.'' \<or> d = ''frames'') \<rparr>"

lemma one_file_simps [simp]: "file_bytes (one_file b) sample_file = b" "ns (one_file b) ''frames/blob-00.stash'' = Some 0"
  "inodes (one_file b) = [\<lparr> cur = b, dur = b \<rparr>]" "dirs (one_file b) ''frames''"
  by (simp_all add: one_file_def file_bytes_def sample_file_def NewCrashFS_def)

lemma sample_blob:
  obtains c fr f where "file_bytes c sample_file = replicate 64 0 @ fr" "length fr = 4096" "f_Payload f = [1, 2, 3]"
    "frame_at sample_hashes (\<lambda>_. True) sample_header (file_bytes c sample_file) 64 = Some (f, 4096)"
proof -
  obtain fr f where fr: "length fr = 4096" "f_Payload f = [1, 2, 3]"
    "frame_at sample_hashes (\<lambda>_. True) sample_header (replicate 64 0 @ fr @ []) (length (replicate 64 0 :: bytes)) = Some (f, 4096)"
    using sample_content by (metis (no_types))
  show ?thesis using that[of "one_file (replicate 64 0 @ fr)" fr f] fr by simp
qed

theorem scan_visits_valid_run_witness:
  "\<exists>c. file_Size c sample_file = 4160 \<and>
     (\<exists>res. scan sample_hashes (\<lambda>_. True) (file_reader (\<lambda>_ _. False) c sample_file) sample_header 64 4160
        (\<lambda>acc i f. (acc @ [(i, f_Payload f)], None)) [] = (res, [(64, [1, 2, 3])], None) \<and> sr_End res = 4160)"
proof -
  obtain c fr f where c: "file_bytes c sample_file = replicate 64 0 @ fr" "length fr = 4096" "f_Payload f = [1, 2, 3]"
    "frame_at sample_hashes (\<lambda>_. True) sample_header (file_bytes c sample_file) 64 = Some (f, 4096)" by (rule sample_blob)
  have sz: "file_Size c sample_file = 4160" using c by (simp add: file_Size_bytes)
  have rel: "\<not> unreliable (\<lambda>_ _. False) sample_file" by (simp add: unreliable_def sample_file_def)
  let ?fn = "\<lambda>acc i f. (acc @ [(i, f_Payload f)], None :: error option)"
  obtain res a err where s: "scan sample_hashes (\<lambda>_. True) (file_reader (\<lambda>_ _. False) c sample_file) sample_header 64
      (file_Size c sample_file) ?fn [] = (res, a, err)" by (metis prod_cases3)
  have "valid_run sample_hashes (\<lambda>_. True) sample_header (file_bytes c sample_file) 64 = [(64, f)]"
    "run_end sample_hashes (\<lambda>_. True) sample_header (file_bytes c sample_file) 64 = 4160"
    using valid_run_single[OF c(4)] sz by (simp_all add: file_Size_bytes)
  then show ?thesis using scan_visits_valid_run[OF wf_sample_header _ s] s sz rel c(3) by (intro exI[of _ c]) simp
qed

text \<open>The probe behind the end of the valid run reports exactly the frames that validate completely at positions of the
  frame grid from there on, in order, whatever garbage lies between them; so a frame that survived behind damage is always
  seen before a tail is cut off. A failed read is reported as such.\<close>

lemma probe_finds_grid_frames:
  assumes "wf_header h"
  shows "(\<exists>e. probeTail H isNormal (file_reader fault c f) h from (file_Size c f) = Inl e \<and> unreliable fault f \<and> io_failure e) \<or>
    (\<exists>tail. probeTail H isNormal (file_reader fault c f) h from (file_Size c f) = Inr tail \<and>
      tail = grid_frames H isNormal h (file_bytes c f) from \<and>
      (\<forall>j fr fsz. frame_at H isNormal h (file_bytes c f) (from + 4096 * j) = Some (fr, fsz) \<longrightarrow>
         \<lparr> tf_Offset = from + 4096 * j, tf_Trailer = f_Trailer fr \<rparr> \<in> set tail))"
  using blob_file.probeTail_ok[OF assms, of H isNormal fault c f "from"] grid_frames_complete by (auto simp: file_Size_bytes)

text \<open>The walk by prefixes and tails, which reads no payload, reports every frame of the valid run, in order and before
  anything else, with the trailer and the entries complete validation gives it; the contiguous end it returns is not before
  the end of that run.\<close>

lemma hop_covers_valid_run:
  assumes "HopFrom isNormal (file_reader fault c f) h from (file_Size c f) (\<lambda>acc hf. (acc @ [hf], None)) [] = (e, seen, err)"
  shows "(\<exists>x. err = Some x \<and> unreliable fault f \<and> io_failure x) \<or>
    (err = None \<and> run_end H isNormal h (file_bytes c f) from \<le> e \<and>
     (\<exists>rest. seen = map (\<lambda>(i, fr). hop_of h i fr) (valid_run H isNormal h (file_bytes c f) from) @ rest))"
  using blob_file.hop_loop_covers[OF assms[unfolded HopFrom_def file_Size_bytes], of H] by simp

end
