(* ===== verification/Blob_Writer.thy ===== *)
theory Blob_Writer
  imports Blob_Read
begin

text \<open>
  Package \<^verbatim>\<open>internal/blob\<close>, appending (\<^verbatim>\<open>writer.go\<close>): opening a blob with the torn-tail decision, and the writer itself. A
  writer is shared by goroutines; what each does under the mutex is one step of the relation \<open>wstep\<close>, so that every
  interleaving of appends and syncs is a sequence of steps. The set of referenced frames is a set of keys, and a Go map
  used as a set is a set here too; its length is its cardinality.
\<close>

section \<open>References of the manifest\<close>

record FrameKey =
  fk_Hash :: bytes
  fk_Path :: bytes
  fk_FileVer :: u64
  fk_Offset :: u64

record Checkpoint =
  cp_End :: int
  cp_LastOff :: int
  cp_LastHash :: bytes

record Committed =
  cm_Refs :: "FrameKey set"
  cm_GroupReferenced :: "(u32 \<Rightarrow> bool) option"
  cm_TailMayHoldCommitted :: bool
  cm_Verified :: Checkpoint

definition keysOfTail :: "MasterTrailer \<Rightarrow> Entry list \<Rightarrow> FrameKey list" where
  "keysOfTail t entries =
    (if m_BlockType t = BlockData then
       (if length entries = 1 then
          let e = hd entries in [\<lparr> fk_Hash = m_HashPayload t, fk_Path = e_Path e, fk_FileVer = e_FileVer e, fk_Offset = e_Offset e \<rparr>]
        else [])
     else if m_BlockType t = BlockPacked then
       map (\<lambda>e. \<lparr> fk_Hash = m_HashPayload t, fk_Path = e_Path e, fk_FileVer = e_FileVer e, fk_Offset = 0 \<rparr>) entries
     else [])"

text \<open>A nil slice of entries has no elements.\<close>

definition entries_of :: "'a list option \<Rightarrow> 'a list" where
  "entries_of xs = (case xs of None \<Rightarrow> [] | Some ys \<Rightarrow> ys)"

definition keysOf :: "Frame \<Rightarrow> FrameKey list" where
  "keysOf f = keysOfTail (f_Trailer f) (entries_of (f_Entries f))"

definition sealed :: "string \<Rightarrow> error" where
  "sealed why = Err ErrSealed ''blob'' why"

definition protects :: "Committed \<Rightarrow> nat \<Rightarrow> nat \<Rightarrow> TailFrame list \<Rightarrow> HopFrame option \<Rightarrow> error option" where
  "protects cm E satisfied tail atE =
    (if satisfied < card (cm_Refs cm) then Some (sealed ''references'')
     else if cm_TailMayHoldCommitted cm then Some (sealed ''tail'')
     else case cm_GroupReferenced cm of None \<Rightarrow> None
     | Some g \<Rightarrow>
       if (case atE of None \<Rightarrow> False | Some hf \<Rightarrow> m_GroupID (hf_Trailer hf) \<noteq> 0 \<and> g (m_GroupID (hf_Trailer hf)))
       then Some (sealed ''damaged frame'')
       else if (\<exists>t \<in> set tail. m_GroupID (tf_Trailer t) \<noteq> 0 \<and> g (m_GroupID (tf_Trailer t)))
       then Some (sealed ''frame'')
       else None)"

section \<open>Opening\<close>

record OpenResult =
  or_Scan :: ScanResult
  or_Tail :: "TailFrame list"
  or_Truncated :: nat
  or_Checkpointed :: nat
  or_MaxGroupID :: u32
  or_MaxOrdinal :: u64
  or_HasFrames :: bool

definition noResult :: OpenResult where
  "noResult = \<lparr> or_Scan = \<lparr> sr_End = 0, sr_Size = 0, sr_Frames = 0, sr_Err = None \<rparr>, or_Tail = [], or_Truncated = 0,
     or_Checkpointed = 0, or_MaxGroupID = 0, or_MaxOrdinal = 0, or_HasFrames = False \<rparr>"

definition see :: "OpenResult \<Rightarrow> MasterTrailer \<Rightarrow> OpenResult" where
  "see r t = r\<lparr> or_HasFrames := True, or_MaxGroupID := max (or_MaxGroupID r) (m_GroupID t),
     or_MaxOrdinal := max (or_MaxOrdinal r) (m_FrameOrdinal t) \<rparr>"

record Writer =
  wr_f :: crashFile
  wr_h :: ArchiveHeader
  wr_inflight :: "nat set"
  wr_end :: nat
  wr_poisoned :: "error option"

text \<open>The loop of \<^verbatim>\<open>useCheckpoint\<close>: \<open>Inr None\<close> when a position has no intact tail.\<close>

function cp_loop :: "(bytes \<Rightarrow> bool) \<Rightarrow> reader \<Rightarrow> ArchiveHeader \<Rightarrow> nat \<Rightarrow> nat \<Rightarrow> HopFrame list \<Rightarrow> (HopFrame list \<times> nat) option result" where
  "cp_loop isNormal rd h cpEnd off seen =
    (if off < cpEnd then
       (case tailAt isNormal rd h off cpEnd of
          Inl e \<Rightarrow> Inl e
        | Inr None \<Rightarrow> Inr None
        | Inr (Some hf) \<Rightarrow> cp_loop isNormal rd h cpEnd (off + unat (FrameSize (hf_Quanta hf))) (seen @ [hf]))
     else Inr (Some (seen, off)))"
  by pat_completeness auto
termination
  by (relation "measure (\<lambda>(isNormal, rd, h, cpEnd, off, seen). cpEnd - off)") (auto dest: tailAt_quanta)

declare cp_loop.simps [simp del]

definition useCheckpoint :: "hashes \<Rightarrow> (bytes \<Rightarrow> bool) \<Rightarrow> reader \<Rightarrow> ArchiveHeader \<Rightarrow> Checkpoint \<Rightarrow> nat
    \<Rightarrow> ('a \<Rightarrow> HopFrame \<Rightarrow> 'a) \<Rightarrow> 'a \<Rightarrow> (nat \<times> 'a) option result" where
  "useCheckpoint H isNormal rd h cp sz fn acc =
    (if cp_End cp \<le> int FrameAreaStart \<or> cp_End cp > int sz \<or> cp_LastOff cp < int FrameAreaStart \<or> cp_LastOff cp \<ge> cp_End cp
     then Inr None
     else case cp_loop isNormal rd h (nat (cp_End cp)) FrameAreaStart [] of
       Inl e \<Rightarrow> Inl e
     | Inr None \<Rightarrow> Inr None
     | Inr (Some (seen, off)) \<Rightarrow>
       (let final = seen ! (length seen - 1) in
        if off \<noteq> nat (cp_End cp) \<or> int (hf_Offset final) \<noteq> cp_LastOff cp \<or> m_HashPayload (hf_Trailer final) \<noteq> cp_LastHash cp
        then Inr None
        else case fst (parseAt H isNormal rd (new_window (nat (cp_End cp))) h (nat (cp_LastOff cp))) of
          Inl e \<Rightarrow> if \<not> IsFormatError e \<and> e \<noteq> errUnexpectedEOF then Inl e else Inr None
        | Inr _ \<Rightarrow> Inr (Some (length seen, foldl fn acc seen))))"

definition collect :: "Committed \<Rightarrow> OpenResult \<times> FrameKey set \<Rightarrow> nat \<Rightarrow> Frame \<Rightarrow> (OpenResult \<times> FrameKey set) \<times> error option" where
  "collect cm st off fr =
    (if card (cm_Refs cm) = 0 then ((see (fst st) (f_Trailer fr), snd st), None)
     else ((see (fst st) (f_Trailer fr), snd st \<union> {k \<in> set (keysOf fr). k \<in> cm_Refs cm}), None))"

definition collectTail :: "Committed \<Rightarrow> OpenResult \<times> FrameKey set \<Rightarrow> HopFrame \<Rightarrow> OpenResult \<times> FrameKey set" where
  "collectTail cm st hf =
    (see (fst st) (hf_Trailer hf), snd st \<union> {k \<in> set (keysOfTail (hf_Trailer hf) (entries_of (hf_Entries hf))). k \<in> cm_Refs cm})"

text \<open>The first half of \<^verbatim>\<open>OpenWriter\<close>: checkpoint and scan, with the result so far also when they fail.\<close>

definition openScan :: "hashes \<Rightarrow> (bytes \<Rightarrow> bool) \<Rightarrow> reader \<Rightarrow> ArchiveHeader \<Rightarrow> nat \<Rightarrow> Committed
    \<Rightarrow> (OpenResult \<times> FrameKey set) \<times> error option" where
  "openScan H isNormal rd h sz cm =
    (case useCheckpoint H isNormal rd h (cm_Verified cm) sz (collectTail cm) (noResult, {}) of
       Inl e \<Rightarrow> ((noResult, {}), Some e)
     | Inr r \<Rightarrow>
       (let (start, st) = (case r of
              Some (n, (res, satisfied)) \<Rightarrow> (nat (cp_End (cm_Verified cm)), (res\<lparr> or_Checkpointed := n \<rparr>, satisfied))
            | None \<Rightarrow> (FrameAreaStart, (noResult, {})));
            (sr, (res, satisfied), err) = scan H isNormal rd h start sz (collect cm) st
        in case err of
             Some e \<Rightarrow> ((res\<lparr> or_Scan := sr \<rparr>, satisfied), Some e)
           | None \<Rightarrow> ((res\<lparr> or_Scan := sr\<lparr> sr_Frames := sr_Frames sr + or_Checkpointed res \<rparr> \<rparr>, satisfied), None)))"

text \<open>The decision about the tail: an error, or none when the blob may be cut at the end of the scan.\<close>

definition openTail :: "hashes \<Rightarrow> (bytes \<Rightarrow> bool) \<Rightarrow> reader \<Rightarrow> ArchiveHeader \<Rightarrow> nat \<Rightarrow> Committed \<Rightarrow> OpenResult \<Rightarrow> FrameKey set
    \<Rightarrow> OpenResult \<times> error option" where
  "openTail H isNormal rd h sz cm res satisfied =
    (let E = sr_End (or_Scan res) in
     if card satisfied < card (cm_Refs cm) then
       (let res1 = (if E < sz then res\<lparr> or_Tail := (case probeTail H isNormal rd h E sz of Inl _ \<Rightarrow> [] | Inr t \<Rightarrow> t) \<rparr> else res)
        in (res1, protects cm E (card satisfied) (or_Tail res1) None))
     else if E < sz then
       (case probeTail H isNormal rd h E sz of
          Inl e \<Rightarrow> (res, Some e)
        | Inr tail \<Rightarrow>
          (let res1 = foldl (\<lambda>r t. see r (tf_Trailer t)) (res\<lparr> or_Tail := tail \<rparr>) tail in
           case tailAt isNormal rd h E sz of
             Inl e \<Rightarrow> (res1, Some e)
           | Inr atE \<Rightarrow>
             ((case atE of None \<Rightarrow> res1 | Some hf \<Rightarrow> see res1 (hf_Trailer hf)), protects cm E (card satisfied) tail atE)))
     else (res, None))"

definition reinitHeader :: "(nat \<Rightarrow> bool) \<Rightarrow> CrashFS \<Rightarrow> crashFile \<Rightarrow> ArchiveHeader \<Rightarrow> CrashFS \<times> error option" where
  "reinitHeader fault c f h =
    (case ArchiveHeader_AppendBinary h [] of Inl e \<Rightarrow> (c, Some e) | Inr hb \<Rightarrow>
     (case attempt (fault 2) (Truncate c f 0) of Inl e \<Rightarrow> (c, Some e) | Inr c1 \<Rightarrow>
      (case attempt (fault 3) (WriteAt c1 f hb 0) of Inl e \<Rightarrow> (c1, Some e) | Inr c2 \<Rightarrow>
       (case attempt (fault 4) (file_Sync c2 f) of Inl e \<Rightarrow> (c2, Some e) | Inr c3 \<Rightarrow> (c3, None)))))"

text \<open>\<^verbatim>\<open>OpenWriter\<close> on the opened file: the blob's size, its header, the scan, the tail.\<close>

definition openFile_writer :: "hashes \<Rightarrow> (bytes \<Rightarrow> bool) \<Rightarrow> (nat \<Rightarrow> bool) \<Rightarrow> (nat \<Rightarrow> nat \<Rightarrow> bool) \<Rightarrow> CrashFS \<Rightarrow> crashFile
    \<Rightarrow> ArchiveHeader \<Rightarrow> nat \<Rightarrow> Committed \<Rightarrow> CrashFS \<times> OpenResult \<times> Writer result" where
  "openFile_writer H isNormal fault rfault c f h sz cm =
    (case openScan H isNormal (file_reader rfault c f) h sz cm of
       ((res, satisfied), Some e) \<Rightarrow> (c, res, Inl e)
     | ((res, satisfied), None) \<Rightarrow>
       (case openTail H isNormal (file_reader rfault c f) h sz cm res satisfied of
          (res1, Some e) \<Rightarrow> (c, res1, Inl e)
        | (res1, None) \<Rightarrow>
          (let E = sr_End (or_Scan res1);
               w = \<lparr> wr_f = f, wr_h = h, wr_inflight = {}, wr_end = E, wr_poisoned = None \<rparr> in
           if E < sz then
             (case attempt (fault 5) (Truncate c f E) of Inl e \<Rightarrow> (c, res1, Inl e) | Inr c1 \<Rightarrow>
              (case attempt (fault 6) (file_Sync c1 f) of Inl e \<Rightarrow> (c1, res1, Inl e) | Inr c2 \<Rightarrow>
               (c2, res1\<lparr> or_Truncated := sz - E \<rparr>, Inr w)))
           else (c, res1, Inr w))))"

definition OpenWriter :: "hashes \<Rightarrow> (bytes \<Rightarrow> bool) \<Rightarrow> (nat \<Rightarrow> bool) \<Rightarrow> (nat \<Rightarrow> nat \<Rightarrow> bool) \<Rightarrow> CrashFS \<Rightarrow> string
    \<Rightarrow> ArchiveHeader \<Rightarrow> Committed \<Rightarrow> CrashFS \<times> OpenResult \<times> Writer result" where
  "OpenWriter H isNormal fault rfault c name h cm =
    (case attempt (fault 0) (OpenFile c name \<lparr> O_CREATE = False, O_EXCL = False, O_TRUNC = False, O_WRITE = True \<rparr>) of
       Inl e \<Rightarrow> (c, noResult, Inl e)
     | Inr (c0, f) \<Rightarrow>
       if fault 1 then (c0, noResult, Inl io_error)
       else let sz = file_Size c0 f in
         case checkHeader (file_reader rfault c0 f) h of
           Inr _ \<Rightarrow> openFile_writer H isNormal fault rfault c0 f h sz cm
         | Inl e \<Rightarrow>
           if \<not> IsFormatError e \<or> sz > FrameAreaStart then (c0, noResult, Inl e)
           else case reinitHeader fault c0 f h of
             (c1, Some e) \<Rightarrow> (c1, noResult, Inl e)
           | (c1, None) \<Rightarrow> openFile_writer H isNormal fault rfault c1 f h FrameAreaStart cm)"


section \<open>What a cut keeps\<close>

lemma tail_at_bounds:
  assumes "tail_at isNormal h bs off sz = Some hf"
  shows "hf_Offset hf = off" "0 < unat (hf_Quanta hf)" "off + unat (hf_Quanta hf) * 4096 \<le> sz"
  using assms by (auto simp: tail_at_def tailAt_def Let_def CheckFrameQuanta_Inr
      split: if_splits sum.splits option.splits dest!: DecodeFramePrefix_Inr)

text \<open>A frame that ends before a cut is seen unchanged behind it.\<close>

lemma tail_at_take:
  assumes "tail_at isNormal h bs off sz = Some hf" "sz \<le> n"
  shows "tail_at isNormal h (take n bs) off n = Some hf"
proof -
  obtain p where p: "DecodeFramePrefix (seg bs off (off + 16)) h = Inr p"
    using assms(1) by (auto simp: tail_at_def tailAt_def split: sum.splits)
  let ?S = "unat (p_FrameQuanta p) * 4096"
  have S: "4096 \<le> ?S" using DecodeFramePrefix_Inr[OF p] by (simp add: CheckFrameQuanta_Inr)
  have fits: "off + ?S \<le> sz" using assms(1) p by (auto simp: tail_at_def tailAt_def Let_def split: if_splits)
  obtain nd where nd: "TailLen (seg bs (off + ?S - 100) (off + ?S)) (word_of_nat ?S) = Inr nd"
    using assms(1) p fits S by (auto simp: tail_at_def tailAt_def Let_def split: sum.splits)
  have "108 \<le> nd" "nd + 16 \<le> ?S" using TailLen_Inr[OF nd] unat_frame_bytes[of "p_FrameQuanta p"] by simp_all
  then show ?thesis
    using assms p fits S nd by (simp add: tail_at_def tailAt_def Let_def seg_take)
qed

lemma frame_at_take:
  assumes "frame_at H isNormal h bs off = Some (f, fsz)" "off + fsz \<le> n"
  shows "frame_at H isNormal h (take n bs) off = Some (f, fsz)"
proof -
  note F = frame_at_Some[OF assms(1)] frame_at_prefix[OF assms(1)]
  then have "16 \<le> fsz" by simp
  then show ?thesis using F assms by (simp add: frame_at_def seg_take Let_def)
qed

lemma valid_run_below:
  assumes "(i, f) \<in> set (valid_run H isNormal h bs off)" "off \<le> length bs"
  shows "\<exists>fsz. frame_at H isNormal h bs i = Some (f, fsz) \<and> i + fsz \<le> run_end H isNormal h bs off"
  using assms
proof (induction H isNormal h bs off rule: valid_run.induct)
  case (1 H isNormal h bs off)
  show ?case
  proof (cases "frame_at H isNormal h bs off")
    case None
    then show ?thesis using 1(2) by (simp add: valid_run.simps[of H isNormal h bs off])
  next
    case (Some x)
    obtain f1 fsz where x: "x = (f1, fsz)" by (cases x)
    have le: "off + fsz \<le> length bs" using frame_at_Some(2) Some x by blast
    have e: "run_end H isNormal h bs off = run_end H isNormal h bs (off + fsz)"
      "valid_run H isNormal h bs off = (off, f1) # valid_run H isNormal h bs (off + fsz)"
      using Some x by (simp_all add: run_end.simps[of H isNormal h bs off] valid_run.simps[of H isNormal h bs off])
    show ?thesis
      using 1(1)[OF Some x[symmetric]] 1(2) run_end_bound[OF le, of H isNormal h] le Some x
      unfolding e by auto
  qed
qed

lemma valid_run_take:
  assumes "off \<le> length bs" "run_end H isNormal h bs off \<le> n" "n \<le> run_end H isNormal h bs off"
  shows "valid_run H isNormal h (take n bs) off = valid_run H isNormal h bs off"
  using assms
proof (induction H isNormal h bs off rule: valid_run.induct)
  case (1 H isNormal h bs off)
  note run = valid_run.simps[of H isNormal h bs off] valid_run.simps[of H isNormal h "take n bs" off]
    and e = run_end.simps[of H isNormal h bs off]
  show ?case
  proof (cases "frame_at H isNormal h bs off")
    case None
    then have "n = off" using 1(3,4) by (simp add: e)
    then have "frame_at H isNormal h (take n bs) off = None" by (auto simp: frame_at_def min_def)
    then show ?thesis using None by (simp add: run)
  next
    case (Some x)
    obtain f fsz where x: "x = (f, fsz)" by (cases x)
    have le: "off + fsz \<le> length bs" using frame_at_Some(2) Some x by blast
    have "off + fsz \<le> n" using 1(3,4) run_end_bound[OF le, of H isNormal h] Some x by (simp add: e)
    then have "frame_at H isNormal h (take n bs) off = Some (f, fsz)" using frame_at_take Some x by blast
    moreover have "valid_run H isNormal h (take n bs) (off + fsz) = valid_run H isNormal h bs (off + fsz)"
      using 1(1)[OF Some x[symmetric] le] 1(3,4) Some x by (simp add: e)
    ultimately show ?thesis using Some x by (simp add: run)
  qed
qed

section \<open>The scan collects the satisfied references\<close>

definition carried :: "Committed \<Rightarrow> FrameKey list list \<Rightarrow> FrameKey set" where
  "carried cm kss = {k \<in> cm_Refs cm. \<exists>ks \<in> set kss. k \<in> set ks}"

lemma carried_simps [simp]:
  "carried cm [] = {}" "carried cm (ks # kss) = {k \<in> set ks. k \<in> cm_Refs cm} \<union> carried cm kss"
  "carried cm (kss @ kss') = carried cm kss \<union> carried cm kss'"
  by (auto simp: carried_def)

lemma see_scan [simp]: "or_Scan (see r t) = or_Scan r" "or_Checkpointed (see r t) = or_Checkpointed r"
  by (simp_all add: see_def)

lemma foldl_see_scan [simp]: "or_Scan (foldl (\<lambda>r t. see r (tf_Trailer t)) r ts) = or_Scan r"
  by (induction ts arbitrary: r) simp_all

lemma visit_collect:
  assumes "finite (cm_Refs cm)"
  shows "\<exists>res'. visit (collect cm) (res, sat) run = ((res', sat \<union> carried cm (map (\<lambda>(i, f). keysOf f) run)), None)"
proof (induction run arbitrary: res sat)
  case (Cons x run)
  obtain i f where x: "x = (i, f)" by (cases x)
  have "collect cm (res, sat) i f = ((see res (f_Trailer f), sat \<union> {k \<in> set (keysOf f). k \<in> cm_Refs cm}), None)"
    using assms by (auto simp: collect_def card_eq_0_iff)
  then show ?case using Cons.IH[of "see res (f_Trailer f)" "sat \<union> {k \<in> set (keysOf f). k \<in> cm_Refs cm}"] x
    by (simp add: Un_assoc)
qed simp

lemma foldl_collectTail:
  "snd (foldl (collectTail cm) st seen) = snd st \<union> carried cm (map (\<lambda>hf. keysOfTail (hf_Trailer hf) (entries_of (hf_Entries hf))) seen)"
  by (induction seen arbitrary: st) (auto simp: collectTail_def)


text \<open>A frame key is held by a content if a frame whose prefix and tail validate carries it.\<close>

definition holds_key :: "(bytes \<Rightarrow> bool) \<Rightarrow> ArchiveHeader \<Rightarrow> bytes \<Rightarrow> FrameKey \<Rightarrow> bool" where
  "holds_key isNormal h bs k \<longleftrightarrow>
    (\<exists>off hf. tail_at isNormal h bs off (length bs) = Some hf \<and> k \<in> set (keysOfTail (hf_Trailer hf) (entries_of (hf_Entries hf))))"

lemma keysOf_hop: "keysOfTail (hf_Trailer (hop_of h off f)) (entries_of (hf_Entries (hop_of h off f))) = keysOf f"
  by (simp add: hop_of_def keysOf_def keysOfTail_def)

lemma protects_None:
  assumes "protects cm E n tail atE = None"
  shows "\<not> cm_TailMayHoldCommitted cm"
    "cm_GroupReferenced cm = Some g \<Longrightarrow> t \<in> set tail \<Longrightarrow> m_GroupID (tf_Trailer t) \<noteq> 0 \<Longrightarrow> \<not> g (m_GroupID (tf_Trailer t))"
  using assms by (auto simp: protects_def split: if_splits option.splits)

text \<open>A cut of a blob at \<open>E\<close> that no manifest record forbids: every referenced frame stays, and nothing behind the cut is a
  valid frame of a referenced parity group.\<close>

definition safe_cut :: "hashes \<Rightarrow> (bytes \<Rightarrow> bool) \<Rightarrow> ArchiveHeader \<Rightarrow> Committed \<Rightarrow> bytes \<Rightarrow> nat \<Rightarrow> bool" where
  "safe_cut H isNormal h cm bs E \<longleftrightarrow> 64 \<le> E \<and> E \<le> length bs \<and>
    (\<forall>k \<in> cm_Refs cm. holds_key isNormal h (take E bs) k) \<and>
    (cp_End (cm_Verified cm) \<le> 64 \<longrightarrow>
       (\<forall>k \<in> cm_Refs cm. \<exists>(i, f) \<in> set (valid_run H isNormal h (take E bs) 64). k \<in> set (keysOf f))) \<and>
    (E < length bs \<longrightarrow> \<not> cm_TailMayHoldCommitted cm \<and>
       (\<forall>g j f fsz. cm_GroupReferenced cm = Some g \<longrightarrow> frame_at H isNormal h bs (E + 4096 * j) = Some (f, fsz) \<longrightarrow>
          m_GroupID (f_Trailer f) \<noteq> 0 \<longrightarrow> \<not> g (m_GroupID (f_Trailer f))))"

context random_reader
begin

lemma tailAt_Some:
  assumes "tailAt isNormal rd h off sz = Inr (Some hf)" "sz \<le> length bs"
  shows "tail_at isNormal h bs off sz = Some hf"
proof -
  obtain b p where "rd off 16 = (b, None)" "DecodeFramePrefix b h = Inr p" "off + unat (FrameSize (p_FrameQuanta p)) \<le> sz"
    using assms(1) by (auto simp: tailAt_def Let_def split: prod.splits option.splits sum.splits if_splits)
  then have "off + 16 \<le> sz" using DecodeFramePrefix_Inr[of b h p] by (simp add: CheckFrameQuanta_Inr)
  then show ?thesis using tailAt_ok[of off sz isNormal h] assms by auto
qed

lemma cp_loop_seen:
  assumes "cp_loop isNormal rd h cpEnd off seen = Inr (Some (seen', off'))" "cpEnd \<le> length bs"
    "\<forall>hf \<in> set seen. tail_at isNormal h bs (hf_Offset hf) cpEnd = Some hf"
  shows "\<forall>hf \<in> set seen'. tail_at isNormal h bs (hf_Offset hf) cpEnd = Some hf"
  using assms
proof (induction "cpEnd - off" arbitrary: off seen rule: less_induct)
  case less
  note loop = cp_loop.simps[of isNormal rd h cpEnd off seen]
  show ?case
  proof (cases "off < cpEnd")
    case True
    then obtain hf where hf: "tailAt isNormal rd h off cpEnd = Inr (Some hf)"
      "cp_loop isNormal rd h cpEnd (off + unat (FrameSize (hf_Quanta hf))) (seen @ [hf]) = Inr (Some (seen', off'))"
      using less.prems(1) by (auto simp: loop split: sum.splits option.splits)
    note t = tailAt_Some[OF hf(1) less.prems(2)]
    then show ?thesis using less.hyps[OF _ hf(2) less.prems(2)] less.prems(3) True tail_at_bounds[OF t] by auto
  qed (use less.prems in \<open>simp add: loop\<close>)
qed

lemma useCheckpoint_seen:
  assumes "useCheckpoint H isNormal rd h cp (length bs) fn acc = Inr (Some (n, st))"
  shows "64 \<le> cp_End cp" "cp_End cp \<le> int (length bs)"
    "\<exists>seen. st = foldl fn acc seen \<and> n = length seen \<and> (\<forall>hf \<in> set seen. tail_at isNormal h bs (hf_Offset hf) (nat (cp_End cp)) = Some hf)"
proof -
  show b: "64 \<le> cp_End cp" "cp_End cp \<le> int (length bs)"
    using assms by (auto simp: useCheckpoint_def Let_def split: if_splits)
  obtain seen off where "cp_loop isNormal rd h (nat (cp_End cp)) 64 [] = Inr (Some (seen, off))" "st = foldl fn acc seen" "n = length seen"
    using assms by (auto simp: useCheckpoint_def Let_def split: if_splits sum.splits option.splits prod.splits)
  then show "\<exists>seen. st = foldl fn acc seen \<and> n = length seen \<and> (\<forall>hf \<in> set seen. tail_at isNormal h bs (hf_Offset hf) (nat (cp_End cp)) = Some hf)"
    using cp_loop_seen b(2) by (intro exI[of _ seen]) force
qed

lemma openScan_ok:
  assumes o: "openScan H isNormal rd h (length bs) cm = ((res, sat), None)"
    and wf: "wf_header h" "finite (cm_Refs cm)" "64 \<le> length bs"
  obtains start seen where "64 \<le> start" "start \<le> length bs" "sr_End (or_Scan res) = run_end H isNormal h bs start"
    "\<forall>hf \<in> set seen. tail_at isNormal h bs (hf_Offset hf) start = Some hf"
    "sat = carried cm (map (\<lambda>hf. keysOfTail (hf_Trailer hf) (entries_of (hf_Entries hf))) seen @
       map (\<lambda>(i, f). keysOf f) (valid_run H isNormal h bs start))"
    "cp_End (cm_Verified cm) \<le> 64 \<Longrightarrow> start = 64 \<and> seen = []"
proof -
  let ?keys = "\<lambda>hf. keysOfTail (hf_Trailer hf) (entries_of (hf_Entries hf))"
  obtain r where u: "useCheckpoint H isNormal rd h (cm_Verified cm) (length bs) (collectTail cm) (noResult, {}) = Inr r"
    using o by (auto simp: openScan_def split: sum.splits)
  obtain start st seen where s: "(case r of
              Some (n, (res, satisfied)) \<Rightarrow> (nat (cp_End (cm_Verified cm)), (res\<lparr> or_Checkpointed := n \<rparr>, satisfied))
            | None \<Rightarrow> (FrameAreaStart, (noResult, {}))) = (start, st)" "start \<le> length bs" "64 \<le> start"
    "\<forall>hf \<in> set seen. tail_at isNormal h bs (hf_Offset hf) start = Some hf" "snd st = carried cm (map ?keys seen)"
    "cp_End (cm_Verified cm) \<le> 64 \<Longrightarrow> start = 64 \<and> seen = []"
  proof (cases r)
    case None
    then show ?thesis using that[of 64 "(noResult, {})" "[]"] wf(3) by simp
  next
    case (Some x)
    obtain n rs ss where x: "x = (n, (rs, ss))" by (cases x) auto
    note U = useCheckpoint_seen[OF u[unfolded Some x]]
    obtain seen where seen: "(rs, ss) = foldl (collectTail cm) (noResult, {}) seen"
      "\<forall>hf \<in> set seen. tail_at isNormal h bs (hf_Offset hf) (nat (cp_End (cm_Verified cm))) = Some hf" using U(3) by blast
    have "ss = carried cm (map ?keys seen)" using foldl_collectTail[of cm "(noResult, {})" seen] seen(1)[symmetric] by simp
    moreover have "\<not> cp_End (cm_Verified cm) \<le> 64" using u Some by (auto simp: useCheckpoint_def split: if_splits)
    ultimately show ?thesis
      using that[of "nat (cp_End (cm_Verified cm))" "(rs\<lparr> or_Checkpointed := n \<rparr>, ss)" seen] seen(2) U(1,2) Some x by simp
  qed
  obtain sr st1 err where sc1: "scan H isNormal rd h start (length bs) (collect cm) st = (sr, st1, err)" by (metis prod_cases3)
  obtain res1 sat1 where "st1 = (res1, sat1)" by (cases st1)
  with sc1 have sc: "scan H isNormal rd h start (length bs) (collect cm) st = (sr, (res1, sat1), err)" by simp
  have e: "err = None" "sat1 = sat" "or_Scan res = sr\<lparr> sr_Frames := sr_Frames sr + or_Checkpointed res1 \<rparr>"
    using o by (auto simp: openScan_def u s(1) sc Let_def split: option.splits)
  have ok: "((res1, sat1), None) = visit (collect cm) st (valid_run H isNormal h bs start)" "sr_End sr = run_end H isNormal h bs start"
    using scan_ok[OF wf(1) s(2) sc] e(1) by auto
  have "sat = snd st \<union> carried cm (map (\<lambda>(i, f). keysOf f) (valid_run H isNormal h bs start))"
    using visit_collect[OF wf(2), of "fst st" "snd st" "valid_run H isNormal h bs start"] ok(1)[symmetric] e(2) by auto
  then show ?thesis using that[of start seen] s(2-6) ok(2) e(3) by simp
qed

lemma openTail_None:
  assumes t: "openTail H isNormal rd h (length bs) cm res sat = (res1, None)" and wf: "wf_header h"
  defines "E \<equiv> sr_End (or_Scan res)"
  shows "or_Scan res1 = or_Scan res" "card (cm_Refs cm) \<le> card sat"
    "E < length bs \<Longrightarrow> \<not> cm_TailMayHoldCommitted cm \<and>
       (\<forall>g j f fsz. cm_GroupReferenced cm = Some g \<longrightarrow> frame_at H isNormal h bs (E + 4096 * j) = Some (f, fsz) \<longrightarrow>
          m_GroupID (f_Trailer f) \<noteq> 0 \<longrightarrow> \<not> g (m_GroupID (f_Trailer f)))"
proof -
  show c: "card (cm_Refs cm) \<le> card sat"
    using t by (auto simp: openTail_def protects_def Let_def split: if_splits)
  show "or_Scan res1 = or_Scan res"
    using t c by (auto simp: openTail_def Let_def not_less split: if_splits sum.splits option.splits)
  assume E: "E < length bs"
  then obtain tail atE where p: "probeTail H isNormal rd h E (length bs) = Inr tail" "protects cm E (card sat) tail atE = None"
    using t c by (auto simp: openTail_def Let_def E_def split: sum.splits if_splits)
  have "tail = grid_frames H isNormal h bs E" using probeTail_ok[OF wf, of H isNormal E] p(1) by auto
  then have "\<not> g (m_GroupID (f_Trailer f))"
    if "cm_GroupReferenced cm = Some g" "frame_at H isNormal h bs (E + 4096 * j) = Some (f, fsz)" "m_GroupID (f_Trailer f) \<noteq> 0"
    for g j f fsz
    using protects_None(2)[OF p(2) that(1), of "\<lparr> tf_Offset = E + 4096 * j, tf_Trailer = f_Trailer f \<rparr>"]
      grid_frames_complete[OF that(2)] that(3) by simp
  then show "\<not> cm_TailMayHoldCommitted cm \<and>
       (\<forall>g j f fsz. cm_GroupReferenced cm = Some g \<longrightarrow> frame_at H isNormal h bs (E + 4096 * j) = Some (f, fsz) \<longrightarrow>
          m_GroupID (f_Trailer f) \<noteq> 0 \<longrightarrow> \<not> g (m_GroupID (f_Trailer f)))"
    using protects_None(1)[OF p(2)] by blast
qed

lemma open_safe:
  assumes o: "openScan H isNormal rd h (length bs) cm = ((res, sat), None)"
    and t: "openTail H isNormal rd h (length bs) cm res sat = (res1, None)"
    and wf: "wf_header h" "finite (cm_Refs cm)" "64 \<le> length bs"
  shows "safe_cut H isNormal h cm bs (sr_End (or_Scan res1))"
proof -
  obtain start seen where s64: "64 \<le> start" and s: "start \<le> length bs" "sr_End (or_Scan res) = run_end H isNormal h bs start"
    "\<forall>hf \<in> set seen. tail_at isNormal h bs (hf_Offset hf) start = Some hf"
    "sat = carried cm (map (\<lambda>hf. keysOfTail (hf_Trailer hf) (entries_of (hf_Entries hf))) seen @
       map (\<lambda>(i, f). keysOf f) (valid_run H isNormal h bs start))"
    "cp_End (cm_Verified cm) \<le> 64 \<Longrightarrow> start = 64 \<and> seen = []"
    using openScan_ok[OF o wf] by blast
  note T = openTail_None[OF t wf(1)]
  let ?E = "run_end H isNormal h bs start"
  have E: "sr_End (or_Scan res1) = ?E" "start \<le> ?E" "?E \<le> length bs" using T(1) s(2) run_end_bound[OF s(1)] by simp_all
  have "sat \<subseteq> cm_Refs cm" using s(4) by (auto simp: carried_def)
  then have sat: "cm_Refs cm = sat" using T(2) wf(2) by (metis card_seteq)
  have car: "k \<in> carried cm (map (\<lambda>hf. keysOfTail (hf_Trailer hf) (entries_of (hf_Entries hf))) seen @
       map (\<lambda>(i, f). keysOf f) (valid_run H isNormal h bs start))" if "k \<in> cm_Refs cm" for k
    using that unfolding sat s(4)[symmetric] .
  have "holds_key isNormal h (take ?E bs) k" if k: "k \<in> cm_Refs cm" for k
  proof -
    from car[OF k] consider hf where "hf \<in> set seen" "k \<in> set (keysOfTail (hf_Trailer hf) (entries_of (hf_Entries hf)))"
      | i f where "(i, f) \<in> set (valid_run H isNormal h bs start)" "k \<in> set (keysOf f)"
      by (auto simp: carried_def)
    then show ?thesis
    proof cases
      case 1
      then have "tail_at isNormal h (take ?E bs) (hf_Offset hf) ?E = Some hf" using s(3) E(2) tail_at_take by blast
      then show ?thesis using 1(2) E(3) by (auto simp: holds_key_def min_absorb2)
    next
      case 2
      obtain fsz where "frame_at H isNormal h bs i = Some (f, fsz)" "i + fsz \<le> ?E" using valid_run_below[OF 2(1) s(1)] by blast
      then have "tail_at isNormal h (take ?E bs) i ?E = Some (hop_of h i f)" using tail_at_frame frame_at_take by blast
      then show ?thesis using 2(2) E(3) keysOf_hop[of h i f] unfolding holds_key_def
        by (intro exI[of _ i] exI[of _ "hop_of h i f"]) (simp add: min_absorb2)
    qed
  qed
  moreover have "\<exists>(i, f) \<in> set (valid_run H isNormal h (take ?E bs) 64). k \<in> set (keysOf f)"
    if "k \<in> cm_Refs cm" "cp_End (cm_Verified cm) \<le> 64" for k
    using car[OF that(1)] s(5)[OF that(2)] valid_run_take[of 64 bs H isNormal h ?E] wf(3) by (auto simp: carried_def)
  moreover note T(3)[unfolded s(2)]
  moreover have "64 \<le> ?E" using s64 E(2) by simp
  ultimately show ?thesis unfolding safe_cut_def E(1) using E(3) by blast
qed

end


section \<open>Opening on the crash file system\<close>

lemma OpenFile_existing:
  assumes "OpenFile c name \<lparr> O_CREATE = False, O_EXCL = False, O_TRUNC = False, O_WRITE = True \<rparr> = Inr (c0, f)"
  shows "c0 = c" "cf_closed f = False" "cf_writable f = True" "ns c (clean name) = Some (cf_in f)"
  using assms by (auto simp: OpenFile_def Let_def split: if_splits option.splits)

lemma openFile_writer_Inr:
  assumes "openFile_writer H isNormal fault rfault c f h sz cm = (c', res, Inr w)" and sz: "sz = file_Size c f" "64 \<le> sz"
    and wf: "wf_header h" "finite (cm_Refs cm)" and f: "cf_in f < length (inodes c)"
  shows "safe_cut H isNormal h cm (file_bytes c f) (wr_end w)" "file_bytes c' f = take (wr_end w) (file_bytes c f)"
    "wr_f w = f" "wr_h w = h" "wr_inflight w = {}" "wr_poisoned w = None" "or_Truncated res = sz - wr_end w \<or> wr_end w = sz"
proof -
  obtain r sat where o: "openScan H isNormal (file_reader rfault c f) h sz cm = ((r, sat), None)"
    using assms(1) by (auto simp: openFile_writer_def split: prod.splits option.splits)
  obtain r1 where t: "openTail H isNormal (file_reader rfault c f) h sz cm r sat = (r1, None)"
    using assms(1) o by (auto simp: openFile_writer_def split: prod.splits option.splits)
  have safe: "safe_cut H isNormal h cm (file_bytes c f) (sr_End (or_Scan r1))"
    using blob_file.open_safe[OF o[unfolded sz(1) file_Size_bytes] t[unfolded sz(1) file_Size_bytes] wf] sz
    by (simp add: file_Size_bytes)
  have w: "w = \<lparr> wr_f = f, wr_h = h, wr_inflight = {}, wr_end = sr_End (or_Scan r1), wr_poisoned = None \<rparr>"
    using assms(1) by (auto simp: openFile_writer_def o t Let_def attempt_def split: if_splits sum.splits)
  show "safe_cut H isNormal h cm (file_bytes c f) (wr_end w)" using safe w by simp
  then have E: "wr_end w \<le> length (file_bytes c f)" by (simp add: safe_cut_def)
  show "file_bytes c' f = take (wr_end w) (file_bytes c f)" "or_Truncated res = sz - wr_end w \<or> wr_end w = sz"
    using assms(1)[unfolded openFile_writer_def o t prod.case option.case Let_def] f E sz(1)
    by (auto simp: w attempt_def Truncate_def file_Sync_def file_bytes_def file_Size_def Let_def split: if_splits sum.splits)
qed (use assms(1) in \<open>auto simp: openFile_writer_def Let_def split: if_splits sum.splits option.splits prod.splits\<close>)


lemma openFile_writer_Inl:
  assumes "openFile_writer H isNormal fault rfault c f h sz cm = (c', res, Inl e)" and sz: "sz = file_Size c f" "64 \<le> sz"
    and wf: "wf_header h" "finite (cm_Refs cm)" and f: "cf_in f < length (inodes c)"
  shows "c' = c \<or> (\<exists>E. safe_cut H isNormal h cm (file_bytes c f) E \<and> file_bytes c' f = take E (file_bytes c f) \<and> err_class_of e \<noteq> ErrSealed)"
proof (cases "\<exists>r sat r1. openScan H isNormal (file_reader rfault c f) h sz cm = ((r, sat), None) \<and>
    openTail H isNormal (file_reader rfault c f) h sz cm r sat = (r1, None)")
  case True
  then obtain r sat r1 where o: "openScan H isNormal (file_reader rfault c f) h sz cm = ((r, sat), None)"
    and t: "openTail H isNormal (file_reader rfault c f) h sz cm r sat = (r1, None)" by blast
  have safe: "safe_cut H isNormal h cm (file_bytes c f) (sr_End (or_Scan r1))"
    using blob_file.open_safe[OF o[unfolded sz(1) file_Size_bytes] t[unfolded sz(1) file_Size_bytes] wf] sz
    by (simp add: file_Size_bytes)
  then have E: "sr_End (or_Scan r1) \<le> length (cur (inodes c ! cf_in f))" by (simp add: safe_cut_def file_bytes_def)
  have "c' = c \<or> (file_bytes c' f = take (sr_End (or_Scan r1)) (file_bytes c f) \<and> err_class_of e \<noteq> ErrSealed)"
    using assms(1)[unfolded openFile_writer_def o t prod.case option.case Let_def] f E
    by (auto simp: attempt_def Truncate_def file_Sync_def file_bytes_def Let_def io_error_def split: if_splits sum.splits)
  then show ?thesis using safe by blast
next
  case False
  then show ?thesis using assms(1) by (auto simp: openFile_writer_def split: prod.splits option.splits)
qed

lemma reinitHeader_ok:
  assumes "reinitHeader fault c f h = (c', None)" "wf_header h" "cf_in f < length (inodes c)"
  shows "file_bytes c' f = ArchiveHeader_image h" "length (inodes c') = length (inodes c)"
  using assms by (auto simp: reinitHeader_def attempt_def Truncate_def WriteAt_def file_Sync_def file_bytes_def Let_def
      ArchiveHeader_AppendBinary_def wf_header_def put_at_def split: if_splits sum.splits)

lemma checkHeader_ok:
  assumes "checkHeader (file_reader rfault c f) h = Inr ()"
  shows "64 \<le> file_Size c f" "DecodeArchiveHeader (take 64 (file_bytes c f)) = Inr h"
  using assms by (auto simp: checkHeader_def file_reader_def ReadAt_def file_Size_def file_bytes_def Let_def
      split: if_splits sum.splits prod.splits option.splits)

lemma OpenWriter_cases:
  assumes "OpenWriter H isNormal fault rfault c name h cm = (c', res, r)"
  obtains (fails) e where "c' = c" "r = Inl e"
  | (opened) f where "ns c (clean name) = Some (cf_in f)" "checkHeader (file_reader rfault c f) h = Inr ()"
      "openFile_writer H isNormal fault rfault c f h (file_Size c f) cm = (c', res, r)"
  | (reset_failed) f e where "ns c (clean name) = Some (cf_in f)" "file_Size c f \<le> 64" "r = Inl e"
  | (reset) f c1 where "ns c (clean name) = Some (cf_in f)" "file_Size c f \<le> 64" "reinitHeader fault c f h = (c1, None)"
      "openFile_writer H isNormal fault rfault c1 f h 64 cm = (c', res, r)"
proof (cases "attempt (fault 0) (OpenFile c name \<lparr> O_CREATE = False, O_EXCL = False, O_TRUNC = False, O_WRITE = True \<rparr>)")
  case (Inl e)
  then show ?thesis using assms fails by (auto simp: OpenWriter_def)
next
  case (Inr x)
  obtain c0 f where x: "x = (c0, f)" by (cases x)
  have of: "OpenFile c name \<lparr> O_CREATE = False, O_EXCL = False, O_TRUNC = False, O_WRITE = True \<rparr> = Inr (c0, f)"
    using Inr x by (auto simp: attempt_def split: if_splits)
  note O = OpenFile_existing[OF of]
  note R = assms[unfolded OpenWriter_def Inr x sum.case prod.case O(1) Let_def]
  show ?thesis
  proof (cases "fault 1")
    case True
    then show ?thesis using R fails by auto
  next
    case False
    show ?thesis
    proof (cases "checkHeader (file_reader rfault c f) h")
      case (Inr u)
      then show ?thesis using R False opened[of f] O(4) by simp
    next
      case (Inl e)
      show ?thesis
      proof (cases "\<not> IsFormatError e \<or> file_Size c f > 64")
        case True
        then show ?thesis using R False Inl fails by auto
      next
        case small: False
        obtain c1 e1 where ri: "reinitHeader fault c f h = (c1, e1)" by (cases "reinitHeader fault c f h")
        then show ?thesis
          using R False Inl small O(4) reset_failed[of f] reset[of f c1] by (cases e1) auto
      qed
    qed
  qed
qed


section \<open>Properties of opening\<close>

text \<open>C3: Whatever \<^verbatim>\<open>OpenWriter\<close> returns, and wherever a read, a truncation or a sync fails, a blob of more than a header is
  left as it was or cut at a position where every frame a manifest record refers to still stands before the cut, where no
  valid frame behind it belongs to a referenced parity group, and where nothing is cut at all if the tail may hold a committed
  member; a blob reported as sealed is left exactly as it was.\<close>

theorem OpenWriter_never_loses_references:
  assumes "OpenWriter H isNormal fault rfault c name h cm = (c', res, r)" "wf_header h" "finite (cm_Refs cm)"
    "ns c (clean name) = Some i" "i < length (inodes c)" "64 < length (cur (inodes c ! i))"
  shows "c' = c \<or> (\<exists>E. safe_cut H isNormal h cm (cur (inodes c ! i)) E \<and> cur (inodes c' ! i) = take E (cur (inodes c ! i)) \<and>
    (\<forall>e. r = Inl e \<longrightarrow> err_class_of e \<noteq> ErrSealed))"
  using assms(1)
proof (cases rule: OpenWriter_cases)
  case (opened f)
  then have f: "cf_in f = i" "cf_in f < length (inodes c)" using assms(4,5) by simp_all
  note ok = checkHeader_ok[OF opened(2)]
  show ?thesis
  proof (cases r)
    case (Inl e)
    then show ?thesis using openFile_writer_Inl[OF opened(3)[unfolded Inl] refl ok(1) assms(2,3) f(2)] f(1)
      by (auto simp: file_bytes_def)
  next
    case (Inr w)
    then show ?thesis using openFile_writer_Inr(1,2)[OF opened(3)[unfolded Inr] refl ok(1) assms(2,3) f(2)] f(1)
      by (auto simp: file_bytes_def)
  qed
qed (use assms(4-6) in \<open>auto simp: file_Size_def\<close>)

text \<open>C33: A writer that \<^verbatim>\<open>OpenWriter\<close> returns stands at the end of a blob that begins with the archive's header, whose length is the
  writer's next offset and that holds every referenced frame; the writer is not poisoned and has nothing in flight.\<close>

theorem OpenWriter_positions_writer:
  assumes "OpenWriter H isNormal fault rfault c name h cm = (c', res, Inr w)" "wf_header h" "finite (cm_Refs cm)"
    "\<forall>i. ns c (clean name) = Some i \<longrightarrow> i < length (inodes c)"
  shows "wr_inflight w = {} \<and> wr_poisoned w = None \<and> wr_end w = file_Size c' (wr_f w) \<and> 64 \<le> wr_end w \<and>
    DecodeArchiveHeader (take 64 (file_bytes c' (wr_f w))) = Inr h \<and>
    (\<forall>k \<in> cm_Refs cm. holds_key isNormal h (file_bytes c' (wr_f w)) k)"
  using assms(1)
proof (cases rule: OpenWriter_cases)
  case (opened f)
  then have f: "cf_in f < length (inodes c)" using assms(4) by simp
  note ok = checkHeader_ok[OF opened(2)]
  note W = openFile_writer_Inr[OF opened(3) refl ok(1) assms(2,3) f]
  have E: "64 \<le> wr_end w" "wr_end w \<le> length (file_bytes c f)" "\<forall>k \<in> cm_Refs cm. holds_key isNormal h (take (wr_end w) (file_bytes c f)) k"
    using W(1) by (simp_all add: safe_cut_def)
  then show ?thesis using W(2-6) ok(2) by (simp add: file_Size_bytes min_absorb1 min_absorb2)
next
  case (reset f c1)
  then have f: "cf_in f < length (inodes c)" using assms(4) by simp
  note R = reinitHeader_ok[OF reset(3) assms(2) f]
  have l: "length (ArchiveHeader_image h) = 64" using assms(2) by (simp add: wf_header_def)
  then have sz: "(64 :: nat) = file_Size c1 f" using R(1) by (simp add: file_Size_bytes)
  note W = openFile_writer_Inr[OF reset(4) sz _ assms(2,3) f[folded R(2)]]
  have "wr_end w = 64" "\<forall>k \<in> cm_Refs cm. holds_key isNormal h (take (wr_end w) (file_bytes c1 f)) k"
    using W(1) l R(1) by (auto simp: safe_cut_def)
  then show ?thesis using W(2-6) R(1) l DecodeArchiveHeader_image[OF assms(2)] by (simp add: file_Size_bytes)
qed simp_all


section \<open>When opening succeeds\<close>

text \<open>A blob on a reliable device, its header intact, no checkpoint, every reference carried by the valid run.\<close>

definition openable :: "hashes \<Rightarrow> (bytes \<Rightarrow> bool) \<Rightarrow> ArchiveHeader \<Rightarrow> Committed \<Rightarrow> bytes \<Rightarrow> bool" where
  "openable H isNormal h cm bs \<longleftrightarrow> 64 \<le> length bs \<and> DecodeArchiveHeader (take 64 bs) = Inr h \<and> finite (cm_Refs cm) \<and>
    cp_End (cm_Verified cm) \<le> 64 \<and> cm_Refs cm \<subseteq> carried cm (map (\<lambda>(i, f). keysOf f) (valid_run H isNormal h bs 64))"

lemma openScan_openable:
  assumes "openable H isNormal h cm (file_bytes c f)" "wf_header h" "\<not> unreliable rfault f"
  obtains res where "openScan H isNormal (file_reader rfault c f) h (file_Size c f) cm = ((res, cm_Refs cm), None)"
    "sr_End (or_Scan res) = run_end H isNormal h (file_bytes c f) 64"
proof -
  let ?bs = "file_bytes c f"
  have o: "64 \<le> file_Size c f" "finite (cm_Refs cm)" "cp_End (cm_Verified cm) \<le> 64"
    "cm_Refs cm = carried cm (map (\<lambda>(i, f). keysOf f) (valid_run H isNormal h ?bs 64))"
    using assms(1) by (auto simp: openable_def file_Size_bytes carried_def)
  obtain sr st err where sc: "scan H isNormal (file_reader rfault c f) h 64 (file_Size c f) (collect cm) (noResult, {}) = (sr, st, err)"
    by (metis prod_cases3)
  note S = file_scan_ok[OF assms(2) o(1) assms(3) sc]
  obtain res where "visit (collect cm) (noResult, {}) (valid_run H isNormal h ?bs 64) = ((res, cm_Refs cm), None)"
    using visit_collect[OF o(2), of noResult "{}" "valid_run H isNormal h ?bs 64"] unfolding o(4)[symmetric] by auto
  then have "st = (res, cm_Refs cm)" "err = None" using S(1) by simp_all
  moreover have "useCheckpoint H isNormal (file_reader rfault c f) h (cm_Verified cm) (file_Size c f) (collectTail cm) (noResult, {}) = Inr None"
    using o(3) by (simp add: useCheckpoint_def)
  ultimately show ?thesis using that sc S(2) by (simp add: openScan_def)
qed

lemma checkHeader_openable:
  assumes "openable H isNormal h cm (file_bytes c f)" "\<not> unreliable rfault f"
  shows "checkHeader (file_reader rfault c f) h = Inr ()"
  using assms by (auto simp: checkHeader_def file_reader_def ReadAt_def openable_def unreliable_def file_bytes_def Let_def)

lemma OpenWriter_reliable:
  assumes "ns c (clean name) = Some i" "dirs c (dirOf (clean name))" "\<And>n. \<not> fault n" "\<And>i n. \<not> rfault i n"
    "openable H isNormal h cm (cur (inodes c ! i))" "wf_header h"
  obtains f where "OpenWriter H isNormal fault rfault c name h cm = openFile_writer H isNormal fault rfault c f h (file_Size c f) cm"
    "cf_in f = i" "cf_writable f" "\<not> unreliable rfault f" "openable H isNormal h cm (file_bytes c f)"
proof -
  let ?f = "\<lparr> cf_in = i, cf_name = clean name, cf_writable = True, cf_closed = False \<rparr>"
  have u: "\<not> unreliable rfault ?f" "openable H isNormal h cm (file_bytes c ?f)" using assms(4,5) by (simp_all add: unreliable_def file_bytes_def)
  have "OpenFile c name \<lparr> O_CREATE = False, O_EXCL = False, O_TRUNC = False, O_WRITE = True \<rparr> = Inr (c, ?f)"
    using assms(1,2) by (simp add: OpenFile_def Let_def)
  then show ?thesis using that[of ?f] assms(3) u checkHeader_openable[OF u(2,1)] by (simp add: OpenWriter_def attempt_def Let_def)
qed

text \<open>C34: On a reliable device a blob with an intact header whose valid run carries every reference is opened, and the writer
  stands at the end of that run, when nothing follows the run, or when what follows it has at least the length of a frame
  prefix, lies behind a cut that nothing forbids and is removed; but when between one and fifteen bytes follow the run,
  \<^verbatim>\<open>OpenWriter\<close> fails with the end-of-file error of the read at the cut, although nothing forbids the cut.\<close>

theorem OpenWriter_succeeds_or_short_tail:
  assumes "ns c (clean name) = Some i" "dirs c (dirOf (clean name))" "\<And>n. \<not> fault n" "\<And>i n. \<not> rfault i n"
    "openable H isNormal h cm (cur (inodes c ! i))" "wf_header h" "\<not> cm_TailMayHoldCommitted cm" "cm_GroupReferenced cm = None"
  defines "bs \<equiv> cur (inodes c ! i)" and "E \<equiv> run_end H isNormal h (cur (inodes c ! i)) 64"
  shows "if E < length bs \<and> length bs < E + 16
    then \<exists>res e. OpenWriter H isNormal fault rfault c name h cm = (c, res, Inl e) \<and> err_class_of e = ErrEOF
    else \<exists>c' res w. OpenWriter H isNormal fault rfault c name h cm = (c', res, Inr w) \<and> wr_end w = E"
proof -
  obtain f where f: "OpenWriter H isNormal fault rfault c name h cm = openFile_writer H isNormal fault rfault c f h (file_Size c f) cm"
    "cf_in f = i" "cf_writable f" "\<not> unreliable rfault f" "openable H isNormal h cm (file_bytes c f)"
    by (rule OpenWriter_reliable[OF assms(1-6)])
  have bs: "file_bytes c f = bs" "file_Size c f = length bs" using f(2) by (simp_all add: bs_def file_bytes_def file_Size_def)
  obtain res where o: "openScan H isNormal (file_reader rfault c f) h (length bs) cm = ((res, cm_Refs cm), None)"
    "sr_End (or_Scan res) = E"
    using openScan_openable[OF f(5) assms(6) f(4)] unfolding bs E_def bs_def by blast
  show ?thesis
  proof (cases "E < length bs")
    case False
    then have "openTail H isNormal (file_reader rfault c f) h (length bs) cm res (cm_Refs cm) = (res, None)"
      by (simp add: openTail_def o(2))
    then show ?thesis using False o by (simp add: f(1) bs openFile_writer_def)
  next
    case True
    obtain tail where p: "probeTail H isNormal (file_reader rfault c f) h E (length bs) = Inr tail"
      using blob_file.probeTail_ok[OF assms(6), of H isNormal rfault c f E] f(4) unfolding bs by blast
    let ?res1 = "foldl (\<lambda>r t. see r (tf_Trailer t)) (res\<lparr> or_Tail := tail \<rparr>) tail"
    show ?thesis
    proof (cases "length bs < E + 16")
      case short: True
      then have "file_reader rfault c f E 16 = (drop E bs, Some (Err ErrEOF ''vfs'' ''read''))"
        using True f(2,4) assms(4) by (simp add: file_reader_def ReadAt_def unreliable_def bs_def Let_def)
      then have "tailAt isNormal (file_reader rfault c f) h E (length bs) = Inl (Err ErrEOF ''vfs'' ''read'')"
        by (simp add: tailAt_def)
      then have "openTail H isNormal (file_reader rfault c f) h (length bs) cm res (cm_Refs cm) = (?res1, Some (Err ErrEOF ''vfs'' ''read''))"
        using True by (simp add: openTail_def o(2) p Let_def)
      then show ?thesis using True short o by (simp add: f(1) bs openFile_writer_def)
    next
      case False
      then obtain atE where "tailAt isNormal (file_reader rfault c f) h E (length bs) = Inr atE"
        using blob_file.tailAt_ok[of E "length bs" c f isNormal rfault h] f(4) unfolding bs by auto
      then obtain r1 where "openTail H isNormal (file_reader rfault c f) h (length bs) cm res (cm_Refs cm) = (r1, None)" "or_Scan r1 = or_Scan res"
        using True assms(7,8) by (cases atE) (auto simp: openTail_def o(2) p Let_def protects_def)
      then show ?thesis using True False o f(3,4) assms(3)
        by (simp add: f(1) bs openFile_writer_def Let_def attempt_def Truncate_def file_Sync_def unreliable_def)
    qed
  qed
qed


text \<open>A blob of a header, one frame and some more bytes, with the frame's key referenced.\<close>

definition sample_refs :: "FrameKey \<Rightarrow> Committed" where
  "sample_refs k = \<lparr> cm_Refs = {k}, cm_GroupReferenced = None, cm_TailMayHoldCommitted = False,
     cm_Verified = \<lparr> cp_End = 0, cp_LastOff = 0, cp_LastHash = [] \<rparr> \<rparr>"

lemma sample_blob_name: "clean ''frames/blob-00.stash'' = ''frames/blob-00.stash''" "dirOf ''frames/blob-00.stash'' = ''frames''"
  using two_part_names(1,3)[of "''frames''" "''blob-00.stash''"] by (simp_all add: plain_part_def)

lemma sample_openable:
  obtains fr k where "length fr = 4096"
    "\<And>n. n < 16 \<Longrightarrow> openable sample_hashes (\<lambda>_. True) sample_header (sample_refs k) (ArchiveHeader_image sample_header @ fr @ replicate n 0)"
    "\<And>n. n < 16 \<Longrightarrow> run_end sample_hashes (\<lambda>_. True) sample_header (ArchiveHeader_image sample_header @ fr @ replicate n 0) 64 = 4160"
proof -
  let ?h = "ArchiveHeader_image sample_header"
  obtain fr f where fr: "length fr = 4096" "m_BlockType (f_Trailer f) = 0" "f_Entries f = Some [sample_entry]"
    "\<And>pre post. frame_at sample_hashes (\<lambda>_. True) sample_header (pre @ fr @ post) (length pre) = Some (f, 4096)"
    using sample_content by (metis (no_types))
  have l: "length ?h = 64" using wf_sample_header by (simp add: wf_header_def)
  obtain k where k: "k \<in> set (keysOf f)" using fr(2,3) by (auto simp: keysOf_def keysOfTail_def entries_of_def Let_def)
  have fa: "frame_at sample_hashes (\<lambda>_. True) sample_header (?h @ fr @ replicate n 0) 64 = Some (f, 4096)" for n
    using fr(4)[of ?h "replicate n 0"] l by simp
  have none: "frame_at sample_hashes (\<lambda>_. True) sample_header (?h @ fr @ replicate n 0) 4160 = None" if "n < 16" for n
    using that fr(1) l by (simp add: frame_at_def)
  have run: "valid_run sample_hashes (\<lambda>_. True) sample_header (?h @ fr @ replicate n 0) 64 = [(64, f)]" if "n < 16" for n
    using fa none[OF that] by (subst valid_run.simps, simp, subst valid_run.simps, simp)
  have e: "run_end sample_hashes (\<lambda>_. True) sample_header (?h @ fr @ replicate n 0) 64 = 4160" if "n < 16" for n
    using fa none[OF that] by (subst run_end.simps, simp, subst run_end.simps, simp)
  have "openable sample_hashes (\<lambda>_. True) sample_header (sample_refs k) (?h @ fr @ replicate n 0)" if "n < 16" for n
    using run[OF that] k l fr(1) DecodeArchiveHeader_image[OF wf_sample_header]
    by (simp add: openable_def sample_refs_def carried_def)
  then show ?thesis using that[of fr k] fr(1) e by blast
qed

theorem OpenWriter_succeeds_or_short_tail_witness:
  "\<exists>fr k. length fr = 4096 \<and>
     (\<exists>c' res w. OpenWriter sample_hashes (\<lambda>_. True) (\<lambda>_. False) (\<lambda>_ _. False) (one_file (ArchiveHeader_image sample_header @ fr))
        ''frames/blob-00.stash'' sample_header (sample_refs k) = (c', res, Inr w) \<and> wr_end w = 4160) \<and>
     (\<exists>res e. OpenWriter sample_hashes (\<lambda>_. True) (\<lambda>_. False) (\<lambda>_ _. False) (one_file (ArchiveHeader_image sample_header @ fr @ [0]))
        ''frames/blob-00.stash'' sample_header (sample_refs k) =
          (one_file (ArchiveHeader_image sample_header @ fr @ [0]), res, Inl e) \<and> err_class_of e = ErrEOF)"
proof -
  let ?h = "ArchiveHeader_image sample_header"
  obtain fr k where s: "length fr = 4096"
    "\<And>n. n < 16 \<Longrightarrow> openable sample_hashes (\<lambda>_. True) sample_header (sample_refs k) (?h @ fr @ replicate n 0)"
    "\<And>n. n < 16 \<Longrightarrow> run_end sample_hashes (\<lambda>_. True) sample_header (?h @ fr @ replicate n 0) 64 = 4160"
    by (rule sample_openable) blast
  have l: "length ?h = 64" using wf_sample_header by (simp add: wf_header_def)
  note W = OpenWriter_succeeds_or_short_tail[of "one_file (?h @ fr @ replicate n 0)" "''frames/blob-00.stash''" 0 "\<lambda>_. False" "\<lambda>_ _. False"
      sample_hashes "\<lambda>_. True" sample_header "sample_refs k" for n]
  have G: "\<not> cm_TailMayHoldCommitted (sample_refs k)" "cm_GroupReferenced (sample_refs k) = None" by (simp_all add: sample_refs_def)
  show ?thesis
    using W[of 0] W[of 1] s(2)[of 0] s(2)[of 1] s(3)[of 0] s(3)[of 1] s(1) l G wf_sample_header
    by (intro exI[of _ fr] exI[of _ k]) (simp add: sample_blob_name)
qed


lemma sample_opened:
  obtains fr k c' res w where "length fr = 4096" "OpenWriter sample_hashes (\<lambda>_. True) (\<lambda>_. False) (\<lambda>_ _. False)
      (one_file (ArchiveHeader_image sample_header @ fr)) ''frames/blob-00.stash'' sample_header (sample_refs k) = (c', res, Inr w)"
proof -
  let ?h = "ArchiveHeader_image sample_header"
  obtain fr k where s: "length fr = 4096"
    "\<And>n. n < 16 \<Longrightarrow> openable sample_hashes (\<lambda>_. True) sample_header (sample_refs k) (?h @ fr @ replicate n 0)"
    "\<And>n. n < 16 \<Longrightarrow> run_end sample_hashes (\<lambda>_. True) sample_header (?h @ fr @ replicate n 0) 64 = 4160"
    by (rule sample_openable) blast
  have l: "length (?h @ fr) = 4160" using wf_sample_header s(1) by (simp add: wf_header_def)
  have op: "openable sample_hashes (\<lambda>_. True) sample_header (sample_refs k) (cur (inodes (one_file (?h @ fr)) ! 0))" using s(2)[of 0] by simp
  obtain f where f: "OpenWriter sample_hashes (\<lambda>_. True) (\<lambda>_. False) (\<lambda>_ _. False) (one_file (?h @ fr)) ''frames/blob-00.stash'' sample_header (sample_refs k) =
      openFile_writer sample_hashes (\<lambda>_. True) (\<lambda>_. False) (\<lambda>_ _. False) (one_file (?h @ fr)) f sample_header (file_Size (one_file (?h @ fr)) f) (sample_refs k)"
    "cf_in f = 0" "\<not> unreliable (\<lambda>_ _. False) f" "openable sample_hashes (\<lambda>_. True) sample_header (sample_refs k) (file_bytes (one_file (?h @ fr)) f)"
    by (rule OpenWriter_reliable[OF _ _ _ _ op wf_sample_header, of "''frames/blob-00.stash''" "\<lambda>_. False" "\<lambda>_ _. False"])
      (simp_all add: sample_blob_name)
  have b: "file_bytes (one_file (?h @ fr)) f = ?h @ fr" "file_Size (one_file (?h @ fr)) f = 4160"
    using f(2) l by (simp_all add: file_bytes_def file_Size_def)
  obtain res where "openScan sample_hashes (\<lambda>_. True) (file_reader (\<lambda>_ _. False) (one_file (?h @ fr)) f) sample_header 4160 (sample_refs k) = ((res, cm_Refs (sample_refs k)), None)"
    "sr_End (or_Scan res) = 4160"
    using openScan_openable[OF f(4) wf_sample_header f(3)] s(3)[of 0] unfolding b by auto
  then show ?thesis using that[of fr k] s(1) f(1) b(2) by (simp add: openFile_writer_def openTail_def)
qed

theorem OpenWriter_never_loses_references_witness:
  "\<exists>fr k c' res w. OpenWriter sample_hashes (\<lambda>_. True) (\<lambda>_. False) (\<lambda>_ _. False)
      (one_file (ArchiveHeader_image sample_header @ fr)) ''frames/blob-00.stash'' sample_header (sample_refs k) = (c', res, Inr w) \<and>
    (c' = one_file (ArchiveHeader_image sample_header @ fr) \<or>
     (\<exists>E. safe_cut sample_hashes (\<lambda>_. True) sample_header (sample_refs k) (ArchiveHeader_image sample_header @ fr) E))"
proof -
  obtain fr k c' res w where o: "length fr = 4096" "OpenWriter sample_hashes (\<lambda>_. True) (\<lambda>_. False) (\<lambda>_ _. False)
      (one_file (ArchiveHeader_image sample_header @ fr)) ''frames/blob-00.stash'' sample_header (sample_refs k) = (c', res, Inr w)"
    by (rule sample_opened)
  have "finite (cm_Refs (sample_refs k))" by (simp add: sample_refs_def)
  then show ?thesis
    using OpenWriter_never_loses_references[OF o(2) wf_sample_header, of 0] o by (fastforce simp: sample_blob_name)
qed

theorem OpenWriter_positions_writer_witness:
  "\<exists>fr k c' res w. OpenWriter sample_hashes (\<lambda>_. True) (\<lambda>_. False) (\<lambda>_ _. False)
      (one_file (ArchiveHeader_image sample_header @ fr)) ''frames/blob-00.stash'' sample_header (sample_refs k) = (c', res, Inr w) \<and>
    holds_key (\<lambda>_. True) sample_header (file_bytes c' (wr_f w)) k"
proof -
  obtain fr k c' res w where o: "OpenWriter sample_hashes (\<lambda>_. True) (\<lambda>_. False) (\<lambda>_ _. False)
      (one_file (ArchiveHeader_image sample_header @ fr)) ''frames/blob-00.stash'' sample_header (sample_refs k) = (c', res, Inr w)"
    by (rule sample_opened)
  have "finite (cm_Refs (sample_refs k))" "k \<in> cm_Refs (sample_refs k)" by (simp_all add: sample_refs_def)
  then show ?thesis using OpenWriter_positions_writer[OF o wf_sample_header] o
    by (intro exI[of _ fr] exI[of _ k] exI[of _ c'] exI[of _ res] exI[of _ w]) (simp add: sample_blob_name)
qed

end
