(* ===== verification/Wire_Index.thy ===== *)
theory Wire_Index
  imports Wire_Frame
begin

text \<open>
  Package \<^verbatim>\<open>internal/wire\<close>, \<^verbatim>\<open>index.go\<close>: the 64-byte physical index header and the 64-byte
  index record, both interpretations of the \<open>codec\<close> contract. The record codec is relative to
  the archive header, whose quanta bound the decoder enforces.
\<close>

section \<open>Index header\<close>

record IndexHeader =
  x_GenerationID :: u64
  x_ArchiveID :: bytes
  x_BlobOrdinal :: byte
  x_HashID :: HashID
  x_RecordCount :: u64

definition IndexHeader_image :: "IndexHeader \<Rightarrow> bytes" where
  "IndexHeader_image x = put_all (replicate IndexHeaderSize 0)
    [(0, MagicIndex), (8, le16 Version), (10, le16 64), (12, le64 (x_GenerationID x)), (20, x_ArchiveID x),
     (52, [x_BlobOrdinal x]), (53, [x_HashID x]), (54, le16 64), (56, le64 (x_RecordCount x))]"

definition IndexHeader_AppendBinary :: "IndexHeader \<Rightarrow> bytes \<Rightarrow> bytes result" where
  "IndexHeader_AppendBinary x dst =
    (if \<not> HashID_Valid (x_HashID x) then errf ErrInvalid ''IndexHeader'' ''hash_id''
     else if x_BlobOrdinal x > MaxBlobOrdinal then errf ErrInvalid ''IndexHeader'' ''blob_ordinal''
     else Inr (dst @ IndexHeader_image x))"

definition DecodeIndexHeader :: "bytes \<Rightarrow> IndexHeader result" where
  "DecodeIndexHeader b =
    (if length b \<noteq> IndexHeaderSize then errf ErrCorrupt ''IndexHeader'' ''''
     else if seg b 0 8 \<noteq> MagicIndex then errf ErrCorrupt ''IndexHeader'' ''magic''
     else if of_le16 (seg b 8 10) \<noteq> Version then errf ErrUnsupported ''IndexHeader'' ''version''
     else if of_le16 (seg b 10 12) \<noteq> 64 then errf ErrCorrupt ''IndexHeader'' ''header_size''
     else if of_le16 (seg b 54 56) \<noteq> 64 then errf ErrCorrupt ''IndexHeader'' ''record_size''
     else if b ! 52 > MaxBlobOrdinal then errf ErrCorrupt ''IndexHeader'' ''blob_ordinal''
     else if \<not> HashID_Valid (b ! 53) then errf ErrCorrupt ''IndexHeader'' ''hash_id''
     else Inr \<lparr> x_GenerationID = of_le64 (seg b 12 20), x_ArchiveID = seg b 20 52, x_BlobOrdinal = b ! 52,
                x_HashID = b ! 53, x_RecordCount = of_le64 (seg b 56 64) \<rparr>)"

definition wf_indexheader :: "IndexHeader \<Rightarrow> bool" where
  "wf_indexheader x \<longleftrightarrow> length (x_ArchiveID x) = ArchiveIDSize \<and> HashID_Valid (x_HashID x) \<and>
     x_BlobOrdinal x \<le> MaxBlobOrdinal"

lemma IndexHeader_image_eq:
  assumes "length (x_ArchiveID x) = 32"
  shows "IndexHeader_image x = MagicIndex @ le16 Version @ le16 64 @ le64 (x_GenerationID x) @ x_ArchiveID x @
    [x_BlobOrdinal x, x_HashID x] @ le16 64 @ le64 (x_RecordCount x)"
  unfolding IndexHeader_image_def using assms by (subst put_all_laid_out) simp_all

lemma length_IndexHeader_image [simp]: "length (x_ArchiveID x) = 32 \<Longrightarrow> length (IndexHeader_image x) = 64"
  by (simp add: IndexHeader_image_eq)

lemma DecodeIndexHeader_image: "wf_indexheader x \<Longrightarrow> DecodeIndexHeader (IndexHeader_image x) = Inr x"
  by (simp add: wf_indexheader_def DecodeIndexHeader_def IndexHeader_image_eq range_simps nth_append not_less)

lemma DecodeIndexHeader_Inr:
  assumes "DecodeIndexHeader b = Inr x"
  shows "wf_indexheader x \<and> length b = 64 \<and> IndexHeader_image x = b"
proof -
  have len: "length b = 64" and f: "seg b 0 8 = MagicIndex" "of_le16 (seg b 8 10) = Version"
      "of_le16 (seg b 10 12) = 64" "of_le16 (seg b 54 56) = 64"
    and v: "\<not> b ! 52 > MaxBlobOrdinal" "HashID_Valid (b ! 53)"
    and x: "x = \<lparr> x_GenerationID = of_le64 (seg b 12 20), x_ArchiveID = seg b 20 52, x_BlobOrdinal = b ! 52,
                x_HashID = b ! 53, x_RecordCount = of_le64 (seg b 56 64) \<rparr>"
    using assms by (auto simp: DecodeIndexHeader_def split: if_splits)
  have le: "le16 Version = seg b 8 10" "le16 64 = seg b 10 12" "le16 64 = seg b 54 56"
    using f len le_of_le(1)[of "seg b 8 10"] le_of_le(1)[of "seg b 10 12"] le_of_le(1)[of "seg b 54 56"] by simp_all
  have mid: "seg b 52 54 = [b ! 52, b ! 53]" using len by (simp add: seg_conv_map_nth upt_rec_numeral)
  have al: "length (x_ArchiveID x) = 32" using len by (simp add: x)
  have "same_ranges (IndexHeader_image x) b 0 [8, 10, 12, 20, 52, 54, 56, 64]"
    unfolding IndexHeader_image_eq[OF al] using len f le mid by (simp add: range_simps x)
  then have "IndexHeader_image x = b" by (rule same_rangesI)
  moreover have "wf_indexheader x" using v al by (simp add: wf_indexheader_def x not_less)
  ultimately show ?thesis using len by simp
qed

interpretation index_header_codec: codec "\<lambda>x. IndexHeader_AppendBinary x []" DecodeIndexHeader wf_indexheader 64
  by unfold_locales
    (auto simp: IndexHeader_AppendBinary_def DecodeIndexHeader_image wf_indexheader_def not_less
      dest: DecodeIndexHeader_Inr)

section \<open>Index record\<close>

record IndexRecord =
  i_FrameHash :: bytes
  i_PhysicalOffset :: u64
  i_FrameQuanta :: u32
  i_BlockType :: BlockType
  i_FrameOrdinal :: u64

definition IndexRecord_image :: "IndexRecord \<Rightarrow> bytes" where
  "IndexRecord_image r = put_all (replicate IndexRecordSize 0)
    [(0, i_FrameHash r), (32, le64 (i_PhysicalOffset r)), (40, le32 (i_FrameQuanta r)), (44, [i_BlockType r]),
     (48, le64 (i_FrameOrdinal r))]"

definition IndexRecord_AppendBinary :: "IndexRecord \<Rightarrow> bytes \<Rightarrow> bytes result" where
  "IndexRecord_AppendBinary r dst =
    (if \<not> BlockType_Valid (i_BlockType r) then errf ErrInvalid ''IndexRecord'' ''block_type''
     else Inr (dst @ IndexRecord_image r))"

definition DecodeIndexRecord :: "bytes \<Rightarrow> ArchiveHeader \<Rightarrow> IndexRecord result" where
  "DecodeIndexRecord b h =
    (if length b \<noteq> IndexRecordSize then errf ErrCorrupt ''IndexRecord'' ''''
     else if \<not> BlockType_Valid (b ! 44) then errf ErrCorrupt ''IndexRecord'' ''block_type''
     else if \<not> allZero (seg b 45 48) \<or> \<not> allZero (seg b 56 64) then errf ErrCorrupt ''IndexRecord'' ''reserved''
     else let r = \<lparr> i_FrameHash = seg b 0 32, i_PhysicalOffset = of_le64 (seg b 32 40),
                    i_FrameQuanta = of_le32 (seg b 40 44), i_BlockType = b ! 44,
                    i_FrameOrdinal = of_le64 (seg b 48 56) \<rparr>
     in if \<not> OnFrameGrid (i_PhysicalOffset r) then errf ErrCorrupt ''IndexRecord'' ''physical_offset''
        else case CheckFrameQuanta (i_FrameQuanta r) h of Inl e \<Rightarrow> Inl e | Inr _ \<Rightarrow> Inr r)"

definition wf_indexrecord :: "ArchiveHeader \<Rightarrow> IndexRecord \<Rightarrow> bool" where
  "wf_indexrecord h r \<longleftrightarrow> length (i_FrameHash r) = HashSize \<and> BlockType_Valid (i_BlockType r) \<and>
     OnFrameGrid (i_PhysicalOffset r) \<and> CheckFrameQuanta (i_FrameQuanta r) h = Inr ()"

lemma IndexRecord_image_eq:
  assumes "length (i_FrameHash r) = 32"
  shows "IndexRecord_image r = i_FrameHash r @ le64 (i_PhysicalOffset r) @ le32 (i_FrameQuanta r) @ [i_BlockType r] @
    replicate 3 0 @ le64 (i_FrameOrdinal r) @ replicate 8 0"
  unfolding IndexRecord_image_def using assms by (subst put_all_laid_out) simp_all

lemma length_IndexRecord_image [simp]: "length (i_FrameHash r) = 32 \<Longrightarrow> length (IndexRecord_image r) = 64"
  by (simp add: IndexRecord_image_eq)

lemma DecodeIndexRecord_image:
  assumes "wf_indexrecord h r"
  shows "DecodeIndexRecord (IndexRecord_image r) h = Inr r"
proof -
  from assms have v: "length (i_FrameHash r) = 32" "BlockType_Valid (i_BlockType r)" "OnFrameGrid (i_PhysicalOffset r)"
    "CheckFrameQuanta (i_FrameQuanta r) h = Inr ()"
    by (simp_all add: wf_indexrecord_def)
  show ?thesis by (simp add: DecodeIndexRecord_def IndexRecord_image_eq range_simps nth_append v Let_def)
qed

lemma DecodeIndexRecord_Inr:
  assumes "DecodeIndexRecord b h = Inr r"
  shows "wf_indexrecord h r \<and> length b = 64 \<and> IndexRecord_image r = b"
proof -
  have len: "length b = 64" and f: "seg b 45 48 = replicate 3 0" "seg b 56 64 = replicate 8 0"
    and v: "BlockType_Valid (b ! 44)" "OnFrameGrid (i_PhysicalOffset r)" "CheckFrameQuanta (i_FrameQuanta r) h = Inr ()"
    and r: "r = \<lparr> i_FrameHash = seg b 0 32, i_PhysicalOffset = of_le64 (seg b 32 40),
                    i_FrameQuanta = of_le32 (seg b 40 44), i_BlockType = b ! 44,
                    i_FrameOrdinal = of_le64 (seg b 48 56) \<rparr>"
    using assms by (auto simp: DecodeIndexRecord_def Let_def split: if_splits sum.splits)
  have mid: "seg b 44 45 = [b ! 44]" using len by (simp add: seg_conv_map_nth upt_rec_numeral)
  have al: "length (i_FrameHash r) = 32" using len by (simp add: r)
  have wf: "wf_indexrecord h r" using v al by (simp add: wf_indexrecord_def r)
  have "same_ranges (IndexRecord_image r) b 0 [32, 40, 44, 45, 48, 56, 64]"
    unfolding IndexRecord_image_eq[OF al] using len f mid by (simp add: range_simps r)
  then have "IndexRecord_image r = b" by (rule same_rangesI)
  then show ?thesis using len wf by simp
qed

interpretation index_record_codec: codec "\<lambda>r. IndexRecord_AppendBinary r []" "\<lambda>b. DecodeIndexRecord b h" "wf_indexrecord h" 64
  by unfold_locales
    (auto simp: IndexRecord_AppendBinary_def DecodeIndexRecord_image wf_indexrecord_def
      dest: DecodeIndexRecord_Inr)


section \<open>Properties\<close>

text \<open>Index headers and index records are coded exactly: 64 bytes decode to a value exactly when it is valid (for a
  record: on the frame grid, with an admissible number of quanta) and encodes to these bytes.\<close>

lemma index_codec_exact:
  assumes "length b = 64"
  shows "(DecodeIndexHeader b = Inr x \<longleftrightarrow> wf_indexheader x \<and> IndexHeader_AppendBinary x [] = Inr b) \<and>
    (DecodeIndexRecord b h = Inr r \<longleftrightarrow> wf_indexrecord h r \<and> IndexRecord_AppendBinary r [] = Inr b)"
  using index_header_codec.dec_iff[OF assms] index_record_codec.dec_iff[OF assms] by blast

end
