(* ===== verification/Blob_Append.thy ===== *)
theory Blob_Append
  imports Blob_Writer Wire_Index
begin

text \<open>
  Package \<^verbatim>\<open>internal/blob\<close>, the methods of an open writer (\<^verbatim>\<open>writer.go\<close>). Each critical section of \<^verbatim>\<open>write\<close>, \<^verbatim>\<open>waitBelow\<close> and
  \<^verbatim>\<open>Sync\<close> is a function on the writer; \<open>wstep\<close> interleaves them with the file operations done outside the mutex, for any
  number of appending and syncing goroutines. The log of allocated frames and the snapshot a sync takes of it are ghost
  state: no step depends on them.
\<close>

section \<open>Appending and syncing\<close>

definition writer_End :: "Writer \<Rightarrow> nat" where
  "writer_End w = wr_end w"

definition poisonedBy :: "Writer \<Rightarrow> error \<Rightarrow> Writer" where
  "poisonedBy w e = (if wr_poisoned w = None then w\<lparr> wr_poisoned := Some (Err ErrPoisoned ''blob'' (err_field e)) \<rparr> else w)"

text \<open>\<^verbatim>\<open>write\<close> up to the unlock before \<^verbatim>\<open>WriteAt\<close>, and from the lock after it.\<close>

definition write_begin :: "Writer \<Rightarrow> nat \<Rightarrow> (nat \<times> Writer) result" where
  "write_begin w n =
    (case wr_poisoned w of Some e \<Rightarrow> Inl e
     | None \<Rightarrow> Inr (wr_end w, w\<lparr> wr_end := wr_end w + n, wr_inflight := insert (wr_end w) (wr_inflight w) \<rparr>))"

definition write_end :: "Writer \<Rightarrow> nat \<Rightarrow> error option \<Rightarrow> Writer" where
  "write_end w off err =
    (let w1 = w\<lparr> wr_inflight := wr_inflight w - {off} \<rparr> in case err of None \<Rightarrow> w1 | Some e \<Rightarrow> poisonedBy w1 e)"

definition writer_write :: "bool \<Rightarrow> CrashFS \<Rightarrow> Writer \<Rightarrow> bytes \<Rightarrow> CrashFS \<times> Writer \<times> (nat \<times> nat) result" where
  "writer_write fault c w b =
    (case write_begin w (length b) of Inl e \<Rightarrow> (c, w, Inl e)
     | Inr (off, w1) \<Rightarrow>
       (case attempt fault (WriteAt c (wr_f w) b off) of
          Inl e \<Rightarrow> (c, write_end w1 off (Some e), Inl e)
        | Inr c1 \<Rightarrow> (c1, write_end w1 off None, Inr (off, length b))))"

definition encodable :: "ArchiveHeader \<Rightarrow> bytes \<Rightarrow> bool" where
  "encodable h fr \<longleftrightarrow> \<not> (length fr < BaseQuantum \<or> length fr mod BaseQuantum \<noteq> 0 \<or> length fr > unat (MaxFrameSize h) \<or>
     (h_Mode h = ModeFixed \<and> length fr \<noteq> unat (MaxFrameSize h)))"

definition AppendEncoded :: "bool \<Rightarrow> CrashFS \<Rightarrow> Writer \<Rightarrow> bytes \<Rightarrow> CrashFS \<times> Writer \<times> (nat \<times> nat) result" where
  "AppendEncoded fault c w fr =
    (if \<not> encodable (wr_h w) fr then (c, w, errf ErrInvalid ''blob'' ''frame'') else writer_write fault c w fr)"

definition AppendBuilt :: "bool \<Rightarrow> CrashFS \<Rightarrow> Writer \<Rightarrow> bytes \<Rightarrow> CrashFS \<times> Writer \<times> IndexRecord result" where
  "AppendBuilt fault c w b =
    (if length b < BaseQuantum then (c, w, errf ErrInvalid ''blob'' ''frame'')
     else case DecodeMasterTrailer (drop (length b - MasterTrailerSize) b) of Inl e \<Rightarrow> (c, w, Inl e)
     | Inr t \<Rightarrow>
       (case AppendEncoded fault c w b of
          (c1, w1, Inl e) \<Rightarrow> (c1, w1, Inl e)
        | (c1, w1, Inr (off, _)) \<Rightarrow>
          (c1, w1, Inr \<lparr> i_FrameHash = m_HashPayload t, i_PhysicalOffset = word_of_nat off, i_FrameQuanta = m_FrameQuanta t,
             i_BlockType = m_BlockType t, i_FrameOrdinal = m_FrameOrdinal t \<rparr>)))"

definition AppendIndexed :: "hashes \<Rightarrow> (bytes \<Rightarrow> bool) \<Rightarrow> (nat \<Rightarrow> byte) \<Rightarrow> bool \<Rightarrow> CrashFS \<Rightarrow> Writer \<Rightarrow> Spec
    \<Rightarrow> CrashFS \<times> Writer \<times> IndexRecord result" where
  "AppendIndexed H isNormal stale fault c w s =
    (case AppendFrame H isNormal stale [] (wr_h w) s of Inl e \<Rightarrow> (c, w, Inl e) | Inr b \<Rightarrow> AppendBuilt fault c w b)"

definition writer_Append :: "hashes \<Rightarrow> (bytes \<Rightarrow> bool) \<Rightarrow> (nat \<Rightarrow> byte) \<Rightarrow> bool \<Rightarrow> CrashFS \<Rightarrow> Writer \<Rightarrow> Spec
    \<Rightarrow> CrashFS \<times> Writer \<times> (nat \<times> nat) result" where
  "writer_Append H isNormal stale fault c w s =
    (case AppendIndexed H isNormal stale fault c w s of
       (c1, w1, Inl e) \<Rightarrow> (c1, w1, Inl e)
     | (c1, w1, Inr r) \<Rightarrow> (c1, w1, Inr (unat (i_PhysicalOffset r), unat (FrameSize (i_FrameQuanta r)))))"

text \<open>The running total of the entries stops at the largest frame.\<close>

fun estimate_loop :: "nat \<Rightarrow> nat \<Rightarrow> Entry list \<Rightarrow> nat option" where
  "estimate_loop maxSize n [] = Some n"
| "estimate_loop maxSize n (e # es) =
    (let n1 = n + length (e_Path e) + 2 + 24 in if n1 > maxSize then None else estimate_loop maxSize n1 es)"

definition estimateFrameSize :: "ArchiveHeader \<Rightarrow> Spec \<Rightarrow> nat" where
  "estimateFrameSize h s =
    (let maxSize = unat (MaxFrameSize h) in
     if h_Mode h = ModeFixed \<or> s_FrameQuanta s \<noteq> 0 then maxSize
     else case estimate_loop maxSize (length (s_Payload s) + FrameOverhead + 8 + MinParityPadding) (s_Entries s) of
       None \<Rightarrow> maxSize
     | Some n \<Rightarrow> min ((n + BaseQuantum - 1) div BaseQuantum * BaseQuantum) maxSize)"

text \<open>One pass of the loop of \<^verbatim>\<open>waitBelow\<close>: \<open>None\<close> when it goes to wait for the condition variable.\<close>

definition waitBelow :: "Writer \<Rightarrow> nat \<Rightarrow> unit result option" where
  "waitBelow w e =
    (case wr_poisoned w of Some err \<Rightarrow> Some (Inl err)
     | None \<Rightarrow> if (\<exists>off \<in> wr_inflight w. off < e) then None else Some (Inr ()))"

section \<open>Interleavings\<close>

datatype sync_phase = Idle | Waiting nat "(nat \<times> bytes) list" | Flushing nat "(nat \<times> bytes) list"

record WState =
  ws_fs :: CrashFS
  ws_w :: Writer
  ws_log :: "(nat \<times> bytes) list"
  ws_sync :: "nat \<Rightarrow> sync_phase"

inductive wstep :: "WState \<Rightarrow> WState \<Rightarrow> bool" where
  append_begin: "encodable (wr_h (ws_w s)) b \<Longrightarrow> write_begin (ws_w s) (length b) = Inr (off, w') \<Longrightarrow>
    wstep s (s\<lparr> ws_w := w', ws_log := ws_log s @ [(off, b)] \<rparr>)"
| append_done: "(off, b) \<in> set (ws_log s) \<Longrightarrow> off \<in> wr_inflight (ws_w s) \<Longrightarrow> WriteAt (ws_fs s) (wr_f (ws_w s)) b off = Inr c' \<Longrightarrow>
    wstep s (s\<lparr> ws_fs := c', ws_w := write_end (ws_w s) off None \<rparr>)"
| append_failed: "(off, b) \<in> set (ws_log s) \<Longrightarrow> off \<in> wr_inflight (ws_w s) \<Longrightarrow> length p \<le> length b \<Longrightarrow>
    WriteAt (ws_fs s) (wr_f (ws_w s)) p off = Inr c' \<Longrightarrow>
    wstep s (s\<lparr> ws_fs := c', ws_w := write_end (ws_w s) off (Some e) \<rparr>)"
| sync_call: "ws_sync s t = Idle \<Longrightarrow> wstep s (s\<lparr> ws_sync := (ws_sync s)(t := Waiting (writer_End (ws_w s)) (ws_log s)) \<rparr>)"
| sync_pass: "ws_sync s t = Waiting e snap \<Longrightarrow> waitBelow (ws_w s) e = Some (Inr ()) \<Longrightarrow>
    wstep s (s\<lparr> ws_sync := (ws_sync s)(t := Flushing e snap) \<rparr>)"
| sync_refused: "ws_sync s t = Waiting e snap \<Longrightarrow> waitBelow (ws_w s) e = Some (Inl err) \<Longrightarrow>
    wstep s (s\<lparr> ws_sync := (ws_sync s)(t := Idle) \<rparr>)"
| sync_done: "ws_sync s t = Flushing e snap \<Longrightarrow> file_Sync (ws_fs s) (wr_f (ws_w s)) = Inr c' \<Longrightarrow>
    wstep s (s\<lparr> ws_fs := c', ws_sync := (ws_sync s)(t := Idle) \<rparr>)"
| sync_failed: "ws_sync s t = Flushing e snap \<Longrightarrow>
    wstep s (s\<lparr> ws_w := poisonedBy (ws_w s) err, ws_sync := (ws_sync s)(t := Idle) \<rparr>)"

definition wstart :: "CrashFS \<Rightarrow> Writer \<Rightarrow> WState" where
  "wstart c w = \<lparr> ws_fs = c, ws_w = w, ws_log = [], ws_sync = (\<lambda>_. Idle) \<rparr>"

inductive wreach :: "CrashFS \<Rightarrow> Writer \<Rightarrow> WState \<Rightarrow> bool" for c w where
  init: "wreach c w (wstart c w)"
| step: "wreach c w s \<Longrightarrow> wstep s s' \<Longrightarrow> wreach c w s'"


section \<open>Allocated ranges tile the blob\<close>

fun tiles :: "nat \<Rightarrow> (nat \<times> bytes) list \<Rightarrow> nat \<Rightarrow> bool" where
  "tiles s [] e = (s = e)"
| "tiles s ((off, b) # log) e = (off = s \<and> b \<noteq> [] \<and> tiles (s + length b) log e)"

lemma tiles_snoc: "tiles s log e \<Longrightarrow> b \<noteq> [] \<Longrightarrow> tiles s (log @ [(e, b)]) (e + length b)"
  by (induction s log e rule: tiles.induct) simp_all

lemma tiles_le: "tiles s log e \<Longrightarrow> s \<le> e"
  by (induction s log e rule: tiles.induct) auto

lemma tiles_range: "tiles s log e \<Longrightarrow> (off, b) \<in> set log \<Longrightarrow> s \<le> off \<and> off + length b \<le> e \<and> b \<noteq> []"
proof (induction s log e rule: tiles.induct)
  case (2 s off' b' log e)
  then show ?case using tiles_le[of "s + length b'" log e] by fastforce
qed simp

lemma tiles_disjoint:
  "tiles s log e \<Longrightarrow> (o1, b1) \<in> set log \<Longrightarrow> (o2, b2) \<in> set log \<Longrightarrow>
    (o1, b1) = (o2, b2) \<or> o1 + length b1 \<le> o2 \<or> o2 + length b2 \<le> o1"
proof (induction s log e rule: tiles.induct)
  case (2 s off b log e)
  note r = tiles_range[of "s + length b" log e]
  show ?case
  proof (cases "(o1, b1) \<in> set log \<and> (o2, b2) \<in> set log")
    case True
    then show ?thesis using 2 by simp
  next
    case False
    then show ?thesis using 2(2-4) r[of o1 b1] r[of o2 b2] by auto
  qed
qed simp

lemma tiles_append_range: "tiles s (l1 @ l2) e \<Longrightarrow> tiles s l1 m \<Longrightarrow> (off, b) \<in> set l2 \<Longrightarrow> m \<le> off"
proof (induction s l1 m rule: tiles.induct)
  case (1 s e')
  then show ?case using tiles_range by fastforce
qed simp

definition written :: "bytes \<Rightarrow> nat \<times> bytes \<Rightarrow> bool" where
  "written x ob \<longleftrightarrow> fst ob + length (snd ob) \<le> length x \<and> seg x (fst ob) (fst ob + length (snd ob)) = snd ob"

text \<open>Ranges that are all written make up the content.\<close>

lemma tiles_written:
  "tiles s log e \<Longrightarrow> s \<le> length x \<Longrightarrow> \<forall>ob \<in> set log. written x ob \<Longrightarrow> e \<le> length x \<and> take e x = take s x @ concat (map snd log)"
proof (induction s log e rule: tiles.induct)
  case (2 s off b log e)
  then have w: "written x (s, b)" "off = s" by simp_all
  then have "take (s + length b) x = take s x @ b" by (simp add: written_def seg_def take_add drop_take)
  then show ?case using 2 w by (simp add: written_def)
qed simp

definition write_cur :: "bytes \<Rightarrow> bytes \<Rightarrow> nat \<Rightarrow> bytes" where
  "write_cur x p off = put_at (x @ replicate (off + length p - length x) 0) off p"

lemma write_cur_length: "off + length p \<le> length (write_cur x p off)" "length x \<le> length (write_cur x p off)"
  by (simp_all add: write_cur_def put_at_def)

lemma write_cur_take: "n \<le> off \<Longrightarrow> n \<le> length x \<Longrightarrow> take n (write_cur x p off) = take n x"
  by (simp add: write_cur_def put_at_def)

lemma written_self: "off + length p \<le> length (x @ replicate (off + length p - length x) (0 :: byte)) \<Longrightarrow> written (write_cur x p off) (off, p)"
  by (simp add: written_def write_cur_def put_at_def seg_def)

lemma written_other:
  assumes "written x (off, b)" "off + length b \<le> off' \<or> off' + length p \<le> off"
  shows "written (write_cur x p off') (off, b)"
proof -
  let ?y = "x @ replicate (off' + length p - length x) 0"
  have o: "off' \<le> length ?y" by simp
  have "seg ?y off (off + length b) = b" using assms(1) by (simp add: written_def range_simps)
  moreover have "seg (put_at ?y off' p) off (off + length b) = seg ?y off (off + length b)"
    using assms(2) seg_put_before[OF _ o] seg_put_after[OF _ o] by blast
  moreover have "off + length b \<le> length x" using assms(1) by (simp add: written_def)
  ultimately show ?thesis using write_cur_length(2)[of x p off'] by (simp add: written_def write_cur_def)
qed


lemma WriteAt_cur:
  assumes "WriteAt c f p off = Inr c'" "cf_in f < length (inodes c)"
  shows "length (inodes c') = length (inodes c)" "file_bytes c' f = write_cur (file_bytes c f) p off"
  using assms by (auto simp: WriteAt_def file_bytes_def write_cur_def Let_def split: if_splits)

lemma file_Sync_cur:
  assumes "file_Sync c f = Inr c'" "cf_in f < length (inodes c)"
  shows "length (inodes c') = length (inodes c)" "file_bytes c' f = file_bytes c f" "dur (inodes c' ! cf_in f) = file_bytes c f"
  using assms by (auto simp: file_Sync_def file_bytes_def Let_def split: if_splits)

section \<open>The invariant of the writer\<close>

text \<open>\<open>snap_ok\<close>: what a sync in progress knows about the frames allocated when it was called.\<close>

definition snap_ok :: "nat \<Rightarrow> WState \<Rightarrow> sync_phase \<Rightarrow> bool" where
  "snap_ok start s ph = (case ph of
     Idle \<Rightarrow> True
   | Waiting e snap \<Rightarrow> tiles start snap e \<and> (\<exists>later. ws_log s = snap @ later)
   | Flushing e snap \<Rightarrow> tiles start snap e \<and> (\<exists>later. ws_log s = snap @ later) \<and>
       (\<forall>ob \<in> set snap. fst ob \<notin> wr_inflight (ws_w s) \<and> written (file_bytes (ws_fs s) (wr_f (ws_w s))) ob))"

definition winv :: "bytes \<Rightarrow> crashFile \<Rightarrow> WState \<Rightarrow> bool" where
  "winv base f s \<longleftrightarrow> wr_f (ws_w s) = f \<and> cf_in f < length (inodes (ws_fs s)) \<and>
    length base \<le> length (file_bytes (ws_fs s) f) \<and> take (length base) (file_bytes (ws_fs s) f) = base \<and>
    tiles (length base) (ws_log s) (wr_end (ws_w s)) \<and> wr_inflight (ws_w s) \<subseteq> fst ` set (ws_log s) \<and>
    (wr_poisoned (ws_w s) = None \<longrightarrow>
      (\<forall>ob \<in> set (ws_log s). fst ob \<notin> wr_inflight (ws_w s) \<longrightarrow> written (file_bytes (ws_fs s) f) ob)) \<and>
    (\<forall>t. snap_ok (length base) s (ws_sync s t))"

lemma write_end_simps [simp]:
  "wr_f (write_end w off err) = wr_f w" "wr_end (write_end w off err) = wr_end w"
  "wr_inflight (write_end w off err) = wr_inflight w - {off}" "wr_h (write_end w off err) = wr_h w"
  "wr_poisoned (write_end w off None) = wr_poisoned w" "wr_poisoned (write_end w off (Some e)) \<noteq> None"
  by (simp_all add: write_end_def poisonedBy_def Let_def split: option.split)

lemma poisonedBy_simps [simp]:
  "wr_f (poisonedBy w e) = wr_f w" "wr_end (poisonedBy w e) = wr_end w" "wr_inflight (poisonedBy w e) = wr_inflight w"
  "wr_h (poisonedBy w e) = wr_h w" "wr_poisoned (poisonedBy w e) \<noteq> None"
  by (auto simp: poisonedBy_def)

text \<open>A write into an allocated range that is still in flight disturbs no range that is not.\<close>

lemma winv_written:
  assumes inv: "winv base f s" and ob: "(off, b) \<in> set (ws_log s)" "off \<in> wr_inflight (ws_w s)" "length p \<le> length b"
    and o: "(o', b') \<in> set (ws_log s)" "o' \<notin> wr_inflight (ws_w s)" "written x (o', b')"
  shows "written (write_cur x p off) (o', b')"
proof -
  have "tiles (length base) (ws_log s) (wr_end (ws_w s))" using inv by (simp add: winv_def)
  from tiles_disjoint[OF this o(1) ob(1)] have "o' + length b' \<le> off \<or> off + length p \<le> o'" using ob o(2) by auto
  then show ?thesis using written_other[OF o(3)] by blast
qed

lemma winv_write:
  assumes inv: "winv base f s" and ob: "(off, b) \<in> set (ws_log s)" "off \<in> wr_inflight (ws_w s)" "length p \<le> length b"
    and wr: "WriteAt (ws_fs s) (wr_f (ws_w s)) p off = Inr c'" and full: "err = None \<Longrightarrow> p = b"
  shows "winv base f (s\<lparr> ws_fs := c', ws_w := write_end (ws_w s) off err \<rparr>)"
proof -
  let ?s' = "s\<lparr> ws_fs := c', ws_w := write_end (ws_w s) off err \<rparr>" and ?x = "file_bytes (ws_fs s) f"
  have f: "wr_f (ws_w s) = f" "cf_in f < length (inodes (ws_fs s))" and t: "tiles (length base) (ws_log s) (wr_end (ws_w s))"
    and base: "length base \<le> length ?x" "take (length base) ?x = base"
    using inv by (simp_all add: winv_def)
  note W = WriteAt_cur[OF wr[unfolded f(1)] f(2)]
  have off: "length base \<le> off" using tiles_range[OF t ob(1)] by simp
  have keep: "written (file_bytes c' f) ob'" if "ob' \<in> set (ws_log s)" "fst ob' \<notin> wr_inflight (ws_w s)" "written ?x ob'" for ob'
    using winv_written[OF inv ob, of "fst ob'" "snd ob'" ?x] that W(2) by simp
  have self: "written (file_bytes c' f) (off, b)" if "err = None"
    using full[OF that] W(2) by (simp add: written_self)
  have only: "ob' = (off, b)" if m: "ob' \<in> set (ws_log s)" "fst ob' = off" for ob'
  proof -
    obtain b' where o: "ob' = (off, b')" using m(2) by (cases ob') simp
    then have "(off, b') \<in> set (ws_log s)" using m(1) by simp
    then show ?thesis using tiles_disjoint[OF t _ ob(1)] tiles_range[OF t ob(1)] tiles_range[OF t, of off b'] o by fastforce
  qed
  have wd: "\<forall>ob' \<in> set (ws_log s). fst ob' \<notin> wr_inflight (ws_w s) - {off} \<longrightarrow> written (file_bytes c' f) ob'"
    if p: "err = None" "wr_poisoned (ws_w s) = None"
  proof (intro ballI impI)
    fix ob' assume o: "ob' \<in> set (ws_log s)" "fst ob' \<notin> wr_inflight (ws_w s) - {off}"
    show "written (file_bytes c' f) ob'"
    proof (cases "fst ob' = off")
      case True
      then show ?thesis using only[OF o(1)] self[OF p(1)] by simp
    next
      case False
      then have "fst ob' \<notin> wr_inflight (ws_w s)" using o(2) by simp
      then show ?thesis using keep o(1) inv p(2) by (simp add: winv_def)
    qed
  qed
  have pd: "wr_poisoned (write_end (ws_w s) off err) = None \<Longrightarrow> err = None \<and> wr_poisoned (ws_w s) = None"
    using write_end_simps(6)[of "ws_w s" off] by (cases err) (simp_all del: write_end_simps(6))
  have sn: "snap_ok (length base) ?s' (ws_sync s t)" for t
  proof -
    have "snap_ok (length base) s (ws_sync s t)" using inv by (simp add: winv_def)
    then show ?thesis using keep f(1) by (auto simp: snap_ok_def split: sync_phase.splits)
  qed
  show ?thesis unfolding winv_def
    using inv f W base off t pd wd sn write_cur_length(2)[of ?x p off] write_cur_take[of "length base" off ?x p]
    by (auto simp: winv_def)
qed


lemma snap_ok_mono:
  assumes "snap_ok start s ph" "\<exists>later. ws_log s' = ws_log s @ later" "ws_fs s' = ws_fs s" "wr_f (ws_w s') = wr_f (ws_w s)"
    "\<forall>ob \<in> set (ws_log s). fst ob \<in> wr_inflight (ws_w s') \<longrightarrow> fst ob \<in> wr_inflight (ws_w s)"
  shows "snap_ok start s' ph"
  using assms by (auto simp: snap_ok_def split: sync_phase.splits)

lemma waitBelow_pass: "waitBelow w e = Some (Inr ()) \<Longrightarrow> wr_poisoned w = None \<and> (\<forall>off \<in> wr_inflight w. e \<le> off)"
  by (auto simp: waitBelow_def not_less split: option.splits if_splits)

lemma winv_begin:
  assumes inv: "winv base f s" and b: "encodable (wr_h (ws_w s)) b" "write_begin (ws_w s) (length b) = Inr (off, w')"
  shows "winv base f (s\<lparr> ws_w := w', ws_log := ws_log s @ [(off, b)] \<rparr>)"
proof -
  let ?s' = "s\<lparr> ws_w := w', ws_log := ws_log s @ [(off, b)] \<rparr>"
  have w: "wr_poisoned (ws_w s) = None" "off = wr_end (ws_w s)"
    "w' = (ws_w s)\<lparr> wr_end := off + length b, wr_inflight := insert off (wr_inflight (ws_w s)) \<rparr>"
    using b(2) by (auto simp: write_begin_def split: option.splits)
  have b0: "b \<noteq> []" using b(1) by (auto simp: encodable_def)
  have t: "tiles (length base) (ws_log s) (wr_end (ws_w s))" using inv by (simp add: winv_def)
  have new: "fst ob \<noteq> off" if "ob \<in> set (ws_log s)" for ob
  proof -
    have "fst ob + length (snd ob) \<le> wr_end (ws_w s) \<and> snd ob \<noteq> []" using tiles_range[OF t, of "fst ob" "snd ob"] that by simp
    then have "fst ob + length (snd ob) \<le> off" "0 < length (snd ob)" using w(2) by simp_all
    then show ?thesis by linarith
  qed
  have sn: "snap_ok (length base) ?s' (ws_sync s t')" for t'
  proof (rule snap_ok_mono[of _ s])
    show "snap_ok (length base) s (ws_sync s t')" using inv by (simp add: winv_def)
    show "\<forall>ob \<in> set (ws_log s). fst ob \<in> wr_inflight (ws_w ?s') \<longrightarrow> fst ob \<in> wr_inflight (ws_w s)"
      using new w(3) by simp
  qed (simp_all add: w(3))
  have "tiles (length base) (ws_log s @ [(off, b)]) (off + length b)" using tiles_snoc[OF t b0] w(2) by simp
  moreover have "insert off (wr_inflight (ws_w s)) \<subseteq> fst ` set (ws_log s @ [(off, b)])" using inv by (auto simp: winv_def)
  moreover have "\<forall>ob \<in> set (ws_log s @ [(off, b)]). fst ob \<notin> insert off (wr_inflight (ws_w s)) \<longrightarrow> written (file_bytes (ws_fs s) f) ob"
    using inv w(1) by (simp add: winv_def)
  ultimately show ?thesis
    using inv sn by (simp add: winv_def w(3))
qed

lemma winv_step:
  assumes "wstep s s'" "winv base f s"
  shows "winv base f s'"
  using assms
proof (cases rule: wstep.cases)
  case (append_begin b off w')
  then show ?thesis using winv_begin assms(2) by simp
next
  case (append_done off b c')
  then show ?thesis using winv_write[OF assms(2), of off b b c' None] by simp
next
  case (append_failed off b p c' e)
  then show ?thesis using winv_write[OF assms(2), of off b p c' "Some e"] by simp
next
  case (sync_call t)
  then show ?thesis using assms(2) by (auto simp: winv_def snap_ok_def writer_End_def split: sync_phase.splits)
next
  case (sync_pass t e snap)
  have sn: "snap_ok (length base) s (Waiting e snap)" using assms(2) sync_pass(2) by (metis winv_def)
  then obtain later where l: "tiles (length base) snap e" "ws_log s = snap @ later" by (auto simp: snap_ok_def)
  note p = waitBelow_pass[OF sync_pass(3)]
  have "fst ob \<notin> wr_inflight (ws_w s) \<and> written (file_bytes (ws_fs s) (wr_f (ws_w s))) ob" if o: "ob \<in> set snap" for ob
  proof -
    have "fst ob + length (snd ob) \<le> e \<and> snd ob \<noteq> []" using tiles_range[OF l(1), of "fst ob" "snd ob"] o by simp
    then have "fst ob < e" by (cases "snd ob") auto
    then have "fst ob \<notin> wr_inflight (ws_w s)" using p by force
    then show ?thesis using assms(2) p o l(2) by (simp add: winv_def)
  qed
  then have "snap_ok (length base) s (Flushing e snap)" using l by (auto simp: snap_ok_def)
  then show ?thesis using assms(2) sync_pass(1) by (auto simp: winv_def snap_ok_def split: sync_phase.splits)
next
  case (sync_refused t e snap err)
  then show ?thesis using assms(2) by (auto simp: winv_def snap_ok_def split: sync_phase.splits)
next
  case (sync_done t e snap c')
  then have "wr_f (ws_w s) = f" "cf_in f < length (inodes (ws_fs s))" using assms(2) by (simp_all add: winv_def)
  then show ?thesis using assms(2) sync_done(1) file_Sync_cur[of "ws_fs s" f c'] sync_done(3)
    by (auto simp: winv_def snap_ok_def split: sync_phase.splits)
next
  case (sync_failed t e snap err)
  then show ?thesis using assms(2) by (auto simp: winv_def snap_ok_def split: sync_phase.splits)
qed

lemma winv_reach:
  assumes "wreach c w s" "wr_inflight w = {}" "wr_end w = file_Size c (wr_f w)" "cf_in (wr_f w) < length (inodes c)"
  shows "winv (file_bytes c (wr_f w)) (wr_f w) s"
  using assms(1)
proof induction
  case init
  then show ?case using assms(2-4) by (simp add: winv_def wstart_def snap_ok_def file_Size_bytes)
qed (blast intro: winv_step)


section \<open>A sequential append extends the valid run\<close>

lemma frame_at_append:
  assumes "frame_at H isNormal h bs off = Some (f, fsz)"
  shows "frame_at H isNormal h (bs @ post) off = Some (f, fsz)"
proof -
  note F = frame_at_Some[OF assms] frame_at_prefix[OF assms]
  then have "16 \<le> fsz" by simp
  then show ?thesis using F by (simp add: frame_at_def Let_def seg_append_left)
qed

lemma valid_run_append:
  "run_end H isNormal h bs off = length bs \<Longrightarrow>
    valid_run H isNormal h (bs @ post) off = valid_run H isNormal h bs off @ valid_run H isNormal h (bs @ post) (length bs)"
proof (induction H isNormal h bs off rule: run_end.induct)
  case (1 H isNormal h bs off)
  note run = valid_run.simps[of H isNormal h bs off] valid_run.simps[of H isNormal h "bs @ post" off]
    and e = run_end.simps[of H isNormal h bs off]
  show ?case
  proof (cases "frame_at H isNormal h bs off")
    case None
    have "valid_run H isNormal h bs off = []" using None by (simp add: run(1))
    then show ?thesis using 1(2) None by (simp add: e)
  next
    case (Some x)
    obtain f fsz where x: "x = (f, fsz)" by (cases x)
    show ?thesis using 1(1)[OF Some x[symmetric]] 1(2) frame_at_append[OF Some[unfolded x]] Some x by (simp add: run e)
  qed
qed

lemma run_end_append:
  "run_end H isNormal h bs off = length bs \<Longrightarrow> run_end H isNormal h (bs @ post) off = run_end H isNormal h (bs @ post) (length bs)"
proof (induction H isNormal h bs off rule: run_end.induct)
  case (1 H isNormal h bs off)
  note e = run_end.simps[of H isNormal h bs off] run_end.simps[of H isNormal h "bs @ post" off]
  show ?case
  proof (cases "frame_at H isNormal h bs off")
    case None
    then show ?thesis using 1(2) by (simp add: e(1))
  next
    case (Some x)
    obtain f fsz where x: "x = (f, fsz)" by (cases x)
    show ?thesis using 1(1)[OF Some x[symmetric]] 1(2) frame_at_append[OF Some[unfolded x]] Some x by (simp add: e)
  qed
qed

lemma DecodeFrameTail_trailer:
  assumes "DecodeFrameTail b = Inr ft"
  shows "DecodeMasterTrailer (drop (length b - 96) b) = Inr (t_Trailer ft)"
  using assms by (auto simp: DecodeFrameTail_def DecodeTail_def Let_def seg_def split: if_splits sum.splits)

lemma writer_write_ok:
  assumes "writer_write fault c w b = (c', w', Inr (off, n))" "wr_end w = file_Size c (wr_f w)" "wr_inflight w = {}"
    "cf_in (wr_f w) < length (inodes c)"
  shows "off = wr_end w" "file_bytes c' (wr_f w') = file_bytes c (wr_f w) @ b" "wr_f w' = wr_f w" "wr_h w' = wr_h w"
    "wr_end w' = file_Size c' (wr_f w')" "wr_inflight w' = {}" "length (inodes c') = length (inodes c)" "wr_poisoned w' = None"
proof -
  obtain w1 where w1: "write_begin w (length b) = Inr (off, w1)" "WriteAt c (wr_f w) b off = Inr c'" "w' = write_end w1 off None"
    using assms(1) by (auto simp: writer_write_def attempt_def split: sum.splits if_splits)
  have b: "off = wr_end w" "w1 = w\<lparr> wr_end := wr_end w + length b, wr_inflight := insert (wr_end w) (wr_inflight w) \<rparr>" "wr_poisoned w = None"
    using w1(1) by (auto simp: write_begin_def split: option.splits)
  note W = WriteAt_cur[OF w1(2) assms(4)]
  have "write_cur (file_bytes c (wr_f w)) b (wr_end w) = file_bytes c (wr_f w) @ b"
    using assms(2) by (simp add: write_cur_def put_at_def file_Size_bytes)
  then show "off = wr_end w" "file_bytes c' (wr_f w') = file_bytes c (wr_f w) @ b" "wr_f w' = wr_f w" "wr_h w' = wr_h w"
    "wr_end w' = file_Size c' (wr_f w')" "wr_inflight w' = {}" "length (inodes c') = length (inodes c)" "wr_poisoned w' = None"
    using b w1(3) W assms(2,3) by (simp_all add: file_Size_bytes)
qed

text \<open>A writer at the end of a blob that is valid from its first frame to its end.\<close>

definition at_end :: "hashes \<Rightarrow> (bytes \<Rightarrow> bool) \<Rightarrow> CrashFS \<Rightarrow> Writer \<Rightarrow> bool" where
  "at_end H isNormal c w \<longleftrightarrow> wr_inflight w = {} \<and> wr_end w = file_Size c (wr_f w) \<and> cf_in (wr_f w) < length (inodes c) \<and>
     run_end H isNormal (wr_h w) (file_bytes c (wr_f w)) 64 = file_Size c (wr_f w)"

lemma AppendIndexed_ok:
  assumes app: "AppendIndexed H isNormal stale fault c w s = (c', w', Inr r)" and ae: "at_end H isNormal c w"
    and wf: "wf_header (wr_h w)" "wf_hashes H" "packed_store_ok (wr_h w) s"
  obtains f where "frameTrailer H (wr_h w) s (p_FrameQuanta (f_Prefix f)) = Inr (f_Trailer f)" "f_Payload f = s_Payload s"
    "f_Entries f = Some (s_Entries s)"
    "frame_at H isNormal (wr_h w) (file_bytes c' (wr_f w')) (wr_end w) = Some (f, wr_end w' - wr_end w)"
    "valid_run H isNormal (wr_h w) (file_bytes c' (wr_f w')) 64 = valid_run H isNormal (wr_h w) (file_bytes c (wr_f w)) 64 @ [(wr_end w, f)]"
    "r = \<lparr> i_FrameHash = m_HashPayload (f_Trailer f), i_PhysicalOffset = word_of_nat (wr_end w), i_FrameQuanta = m_FrameQuanta (f_Trailer f),
       i_BlockType = m_BlockType (f_Trailer f), i_FrameOrdinal = m_FrameOrdinal (f_Trailer f) \<rparr>"
    "at_end H isNormal c' w'" "wr_h w' = wr_h w" "wr_f w' = wr_f w"
proof -
  obtain b where b: "AppendFrame H isNormal stale [] (wr_h w) s = Inr b" "AppendBuilt fault c w b = (c', w', Inr r)"
    using app by (auto simp: AppendIndexed_def split: sum.splits)
  obtain f where f: "Parse H isNormal b (wr_h w) = Inr f" "f_Payload f = s_Payload s" "f_Entries f = Some (s_Entries s)"
    "frameTrailer H (wr_h w) s (p_FrameQuanta (f_Prefix f)) = Inr (f_Trailer f)" "length b = unat (p_FrameQuanta (f_Prefix f)) * 4096"
    using Parse_of_AppendFrame[OF wf b(1)] by blast
  have "DecodeFrameTail b = Inr \<lparr> t_Body = f_PreTrailer f, t_Trailer = f_Trailer f \<rparr>" by (rule Parse_facts[OF f(1)]) blast
  then have tr: "DecodeMasterTrailer (drop (length b - 96) b) = Inr (f_Trailer f)" using DecodeFrameTail_trailer by fastforce
  obtain off n where w: "writer_write fault c w b = (c', w', Inr (off, n))" "length b \<ge> 4096"
    "r = \<lparr> i_FrameHash = m_HashPayload (f_Trailer f), i_PhysicalOffset = word_of_nat off, i_FrameQuanta = m_FrameQuanta (f_Trailer f),
       i_BlockType = m_BlockType (f_Trailer f), i_FrameOrdinal = m_FrameOrdinal (f_Trailer f) \<rparr>"
    using b(2) tr by (auto simp: AppendBuilt_def AppendEncoded_def split: if_splits sum.splits prod.splits)
  have a: "wr_end w = file_Size c (wr_f w)" "wr_inflight w = {}" "cf_in (wr_f w) < length (inodes c)"
    and re: "run_end H isNormal (wr_h w) (file_bytes c (wr_f w)) 64 = length (file_bytes c (wr_f w))"
    using ae by (simp_all add: at_end_def file_Size_bytes)
  note W = writer_write_ok[OF w(1) a]
  let ?bs = "file_bytes c (wr_f w)"
  have fa: "frame_at H isNormal (wr_h w) (?bs @ b) (length ?bs) = Some (f, length b)"
    using frame_at_parsed[OF f(1,5), of ?bs "[]"] w(2) by simp
  have sz: "wr_end w = length ?bs" "wr_end w' = length (?bs @ b)" using a(1) W(2,5) by (simp_all add: file_Size_bytes)
  have run: "valid_run H isNormal (wr_h w) (?bs @ b) 64 = valid_run H isNormal (wr_h w) ?bs 64 @ [(length ?bs, f)]"
    using valid_run_append[OF re, of b] valid_run_single(1)[OF fa] by simp
  have "run_end H isNormal (wr_h w) (?bs @ b) 64 = run_end H isNormal (wr_h w) (?bs @ b) (length ?bs)"
    using run_end_append[OF re] .
  then have "at_end H isNormal c' w'" using W valid_run_single(2)[OF fa] a(3) by (simp add: at_end_def file_Size_bytes)
  then show ?thesis using that[of f] f(2-4) fa run W(1-4) w(3) sz by simp
qed


section \<open>The estimate bounds the frame\<close>

lemma entries_length:
  assumes "AppendEntries isNormal [] es = Inr body"
  shows "length body \<le> 4 + sum_list (map (\<lambda>e. length (e_Path e) + 26) es)"
proof -
  have ok: "list_all (ok_entry isNormal) es" and b: "body = le32 (word_of_nat (length es)) @ concat (map entry_bytes es)"
    using assms by (auto simp: AppendEntries_Inr)
  have "length (entry_bytes e) \<le> length (e_Path e) + 26" if "ok_entry isNormal e" for e
    using canonical_length[of isNormal "e_Path e"] that
    by (auto simp: entry_bytes_def ok_entry_def AppendPathLen_def split: sum.splits)
  then have "length (concat (map entry_bytes es)) \<le> sum_list (map (\<lambda>e. length (e_Path e) + 26) es)"
    using ok by (induction es) (auto intro: add_mono)
  then show ?thesis using b by simp
qed

lemma estimate_loop_sum:
  "estimate_loop m n es = Some k \<Longrightarrow> k = n + sum_list (map (\<lambda>e. length (e_Path e) + 26) es)"
  by (induction m n es rule: estimate_loop.induct) (auto simp: Let_def split: if_splits)

lemma chooseQuanta_auto:
  assumes "chooseQuanta h s pt = Inr q" "h_Mode h \<noteq> ModeFixed" "s_FrameQuanta s = 0"
    "length (s_Payload s) < 2 ^ 32" "unat pt < 2 ^ 32"
  shows "unat q * 4096 \<le> (length (s_Payload s) + unat pt + 228 + 4095) div 4096 * 4096"
proof -
  let ?len = "word_of_nat (length (s_Payload s)) :: u64"
  have n: "need ?len pt par \<le> length (s_Payload s) + unat pt + 228" "need ?len pt par + 4096 \<le> 2 ^ 64" for par
    using assms(4,5) by (simp_all add: need_def unat_of_nat_u64)
  have R: "unat x * 4096 \<le> (length (s_Payload s) + unat pt + 228 + 4095) div 4096 * 4096" if "RequiredQuanta ?len pt par = Inr x" for x par
    using that n[of par] by (simp add: RequiredQuanta_Inr div_le_mono)
  have P: "RequiredQuanta ?len pt False = Inr x" if "parityQuanta 0 ?len pt = Inr x" for x
    using that unfolding parityQuanta_def case_sum_eq_Inr Let_def if_errf_eq_Inr sum.inject by auto
  obtain q1 minQ where "(if s_BlockType s = BlockParity then parityQuanta 0 ?len pt else Inr 0) = Inr q1"
    "RequiredQuanta ?len pt (s_GroupID s \<noteq> 0 \<and> s_BlockType s \<noteq> BlockParity) = Inr minQ" "q = (if q1 = 0 then minQ else q1)"
    using assms(1) unfolding chooseQuanta_def Let_def if_errf_eq_Inr case_sum_eq_Inr sum.inject assms(3) if_not_P[OF assms(2)] by blast
  then show ?thesis using R P by (auto split: if_splits)
qed

lemma estimate_bounds_frame:
  assumes "AppendFrame H isNormal stale [] h s = Inr b" "wf_header h" "wf_hashes H"
  shows "length b \<le> estimateFrameSize h s"
proof -
  obtain body q t where bt: "built H isNormal h s body q t" "b = frame_image q (s_Payload s) body t"
    using AppendFrame_Inr[OF assms] by auto
  have q: "0 < unat q" "unat q \<le> unat (h_MaxFrameQuanta h)" "wf_trailer t" "120 + length (s_Payload s) + length body \<le> unat q * 4096"
    "AppendEntries isNormal [] (s_Entries s) = Inr body" "length (s_Payload s) < 2 ^ 32"
    "chooseQuanta h s (word_of_nat (length body) + 4) = Inr q"
    using bt(1) by (auto simp: built_def CheckFrameQuanta_Inr word_le_nat_alt split: if_splits)
  have len: "length b = unat q * 4096"
    unfolding bt(2) using q(1-4) wf_header_bounds(2)[OF assms(2)] by (intro frame_image_parts(1)) simp_all
  have m: "length b \<le> unat (MaxFrameSize h)" using len q(2) wf_header_bounds(5)[OF assms(2)] by simp
  note B = AppendEntries_bound[OF q(5)]
  have pt: "unat (word_of_nat (length body) + 4 :: u64) = length body + 4" using B unat_of_nat_u64[of "length body + 4"] by simp
  show ?thesis
  proof (cases "estimate_loop (unat (MaxFrameSize h)) (length (s_Payload s) + 116 + 8 + 112) (s_Entries s)")
    case (Some n)
    have "length b \<le> (n + 4096 - 1) div 4096 * 4096" if "h_Mode h \<noteq> ModeFixed" "s_FrameQuanta s = 0"
    proof -
      have "length (s_Payload s) + (length body + 4) + 228 + 4095 \<le> n + 4096 - 1"
        using estimate_loop_sum[OF Some] entries_length[OF q(5)] by simp
      then have "(length (s_Payload s) + (length body + 4) + 228 + 4095) div 4096 * 4096 \<le> (n + 4096 - 1) div 4096 * 4096"
        by (intro mult_le_mono1 div_le_mono)
      then show ?thesis using chooseQuanta_auto[OF q(7) that q(6)] B pt len by simp
    qed
    then show ?thesis using Some m by (simp add: estimateFrameSize_def Let_def)
  qed (use m in \<open>simp add: estimateFrameSize_def Let_def\<close>)
qed

section \<open>Properties of the writer\<close>

text \<open>C6: However appends and syncs of any number of goroutines interleave, and whichever writes and syncs fail: when a sync that
  was called with \<open>snap\<close> allocated reaches the disk, the durable blob begins with its old content followed by exactly the
  frames of \<open>snap\<close> in the order of their allocation, with no hole and no torn range among them.\<close>

theorem sync_leaves_no_hole:
  assumes "wreach c w s" "wr_inflight w = {}" "wr_end w = file_Size c (wr_f w)" "cf_in (wr_f w) < length (inodes c)"
    "ws_sync s t = Flushing e snap" "file_Sync (ws_fs s) (wr_f (ws_w s)) = Inr c'"
  shows "take e (dur (inodes c' ! cf_in (wr_f w))) = file_bytes c (wr_f w) @ concat (map snd snap) \<and>
    e \<le> length (dur (inodes c' ! cf_in (wr_f w))) \<and> e = wr_end w + length (concat (map snd snap))"
proof -
  let ?base = "file_bytes c (wr_f w)"
  have inv: "winv ?base (wr_f w) s" using winv_reach[OF assms(1-4)] .
  then have i: "wr_f (ws_w s) = wr_f w" "cf_in (wr_f w) < length (inodes (ws_fs s))"
    "length ?base \<le> length (file_bytes (ws_fs s) (wr_f w))" "take (length ?base) (file_bytes (ws_fs s) (wr_f w)) = ?base"
    by (simp_all add: winv_def)
  have "snap_ok (length ?base) s (Flushing e snap)" using inv assms(5) by (metis winv_def)
  then have "tiles (length ?base) snap e" "\<forall>ob \<in> set snap. written (file_bytes (ws_fs s) (wr_f w)) ob"
    using i(1) by (auto simp: snap_ok_def)
  from tiles_written[OF this(1) i(3) this(2)] have
    t: "e \<le> length (file_bytes (ws_fs s) (wr_f w))" "take e (file_bytes (ws_fs s) (wr_f w)) = ?base @ concat (map snd snap)"
    using i(4) by simp_all
  from arg_cong[OF t(2), of length] have "e = length ?base + length (concat (map snd snap))" using t(1) by simp
  then show ?thesis using t file_Sync_cur(3)[OF assms(6)[unfolded i(1)] i(2)] assms(3) by (simp add: file_Size_bytes)
qed

text \<open>The ranges handed to concurrent appends tile the blob behind its old end: the old content is never touched, two ranges
  never overlap, the next range starts where the last one ends, and while no write has failed every range that is not in
  flight holds its frame.\<close>

lemma appends_tile_blob:
  assumes "wreach c w s" "wr_inflight w = {}" "wr_end w = file_Size c (wr_f w)" "cf_in (wr_f w) < length (inodes c)"
  shows "take (wr_end w) (file_bytes (ws_fs s) (wr_f w)) = file_bytes c (wr_f w) \<and>
    tiles (wr_end w) (ws_log s) (wr_end (ws_w s)) \<and>
    (wr_poisoned (ws_w s) = None \<longrightarrow>
      (\<forall>(off, b) \<in> set (ws_log s). off \<notin> wr_inflight (ws_w s) \<longrightarrow> seg (file_bytes (ws_fs s) (wr_f w)) off (off + length b) = b))"
  using winv_reach[OF assms] assms(3) by (fastforce simp: winv_def written_def file_Size_bytes)

text \<open>C32: An append to a blob that is valid to its end writes one frame that validates completely, with the payload and entries of
  its specification, at the old end; a scan then visits the old frames and this one, the record returned is the index record
  of that frame, and the blob is again valid to its end. The specification is any that the builder accepts, except a packed frame
  stored without compression whose payload does not have the packed length of its entries: that frame is written, but it does
  not validate.\<close>

theorem append_extends_valid_run:
  assumes "AppendIndexed H isNormal stale fault c w s = (c', w', Inr r)" "at_end H isNormal c w"
    "wf_header (wr_h w)" "wf_hashes H" "packed_store_ok (wr_h w) s"
  shows "\<exists>f. f_Payload f = s_Payload s \<and> f_Entries f = Some (s_Entries s) \<and>
    valid_run H isNormal (wr_h w) (file_bytes c' (wr_f w')) 64 =
      valid_run H isNormal (wr_h w) (file_bytes c (wr_f w)) 64 @ [(wr_end w, f)] \<and>
    r = \<lparr> i_FrameHash = m_HashPayload (f_Trailer f), i_PhysicalOffset = word_of_nat (wr_end w),
       i_FrameQuanta = m_FrameQuanta (f_Trailer f), i_BlockType = m_BlockType (f_Trailer f), i_FrameOrdinal = m_FrameOrdinal (f_Trailer f) \<rparr> \<and>
    at_end H isNormal c' w'"
  using AppendIndexed_ok[OF assms] by metis

text \<open>The size estimated for the pooled buffer is never below the size of the frame that is then encoded into it.\<close>

lemma estimate_is_upper_bound:
  assumes "AppendFrame H isNormal stale [] h s = Inr b" "wf_header h" "wf_hashes H"
  shows "length b \<le> estimateFrameSize h s \<and> estimateFrameSize h s \<le> unat (MaxFrameSize h)"
  using estimate_bounds_frame[OF assms] by (auto simp: estimateFrameSize_def Let_def split: option.split)

section \<open>Witnesses\<close>

definition sample_writer :: "bytes \<Rightarrow> Writer" where
  "sample_writer b = \<lparr> wr_f = sample_file, wr_h = sample_header, wr_inflight = {}, wr_end = length b, wr_poisoned = None \<rparr>"

lemma sample_at_end:
  "wr_inflight (sample_writer b) = {}" "wr_end (sample_writer b) = file_Size (one_file b) (wr_f (sample_writer b))"
  "cf_in (wr_f (sample_writer b)) < length (inodes (one_file b))" "wr_f (sample_writer b) = sample_file"
  by (simp_all add: sample_writer_def file_Size_bytes) (simp add: sample_file_def)

lemma sample_in: "cf_in sample_file = 0"
  by (simp add: sample_file_def)

lemma sample_synced:
  obtains s c' where "wreach (one_file [7]) (sample_writer [7]) s" "ws_sync s 0 = Flushing 4097 [(1, replicate 4096 9)]"
    "file_Sync (ws_fs s) (wr_f (ws_w s)) = Inr c'"
proof -
  let ?b = "replicate 4096 (9 :: byte)" and ?w = "sample_writer [7]"
  let ?s0 = "wstart (one_file [7]) ?w"
  define w1 where "w1 = ?w\<lparr> wr_end := 4097, wr_inflight := {1} \<rparr>"
  define s1 where "s1 = ?s0\<lparr> ws_w := w1, ws_log := ws_log ?s0 @ [(1, ?b)] \<rparr>"
  have "unat (MaxFrameSize sample_header) = 65536" "h_Mode sample_header = 0"
    using wf_header_bounds(5)[OF wf_sample_header] by (simp_all add: sample_header_def)
  then have "encodable (wr_h (ws_w ?s0)) ?b" by (simp add: encodable_def wstart_def sample_writer_def)
  moreover have "write_begin (ws_w ?s0) (length ?b) = Inr (1, w1)"
    by (simp add: write_begin_def wstart_def sample_writer_def w1_def)
  ultimately have 1: "wstep ?s0 s1" unfolding s1_def by (rule wstep.append_begin)
  have f: "cf_closed sample_file = False" "cf_writable sample_file = True" by (simp_all add: sample_file_def)
  obtain c2 where c2: "WriteAt (ws_fs s1) (wr_f (ws_w s1)) ?b 1 = Inr c2"
    using f by (simp add: WriteAt_def s1_def w1_def sample_writer_def Let_def)
  define s2 where "s2 = s1\<lparr> ws_fs := c2, ws_w := write_end (ws_w s1) 1 None \<rparr>"
  have 2: "wstep s1 s2" unfolding s2_def by (rule wstep.append_done[OF _ _ c2]) (simp_all add: s1_def w1_def)
  define s3 where "s3 = s2\<lparr> ws_sync := (ws_sync s2)(0 := Waiting (writer_End (ws_w s2)) (ws_log s2)) \<rparr>"
  have 3: "wstep s2 s3" unfolding s3_def by (rule wstep.sync_call) (simp add: s2_def s1_def wstart_def)
  have w3: "ws_sync s3 0 = Waiting 4097 [(1, ?b)]" "wr_inflight (ws_w s3) = {}" "wr_poisoned (ws_w s3) = None" "wr_f (ws_w s3) = sample_file"
    by (simp_all add: s3_def s2_def s1_def w1_def wstart_def writer_End_def sample_writer_def)
  define s4 where "s4 = s3\<lparr> ws_sync := (ws_sync s3)(0 := Flushing 4097 [(1, ?b)]) \<rparr>"
  have 4: "wstep s3 s4" unfolding s4_def by (rule wstep.sync_pass[OF w3(1)]) (simp add: waitBelow_def w3)
  have r: "wreach (one_file [7]) ?w s4" using wreach.init 1 2 3 4 by (meson wreach.step)
  have "\<exists>c'. file_Sync (ws_fs s4) (wr_f (ws_w s4)) = Inr c'" using f by (simp add: file_Sync_def s4_def w3(4) Let_def)
  then show ?thesis using that[OF r] by (auto simp: s4_def)
qed

theorem sync_leaves_no_hole_witness:
  "\<exists>s c'. wreach (one_file [7]) (sample_writer [7]) s \<and> file_Sync (ws_fs s) sample_file = Inr c' \<and>
     take 4097 (dur (inodes c' ! 0)) = 7 # replicate 4096 9"
proof -
  obtain s c' where s: "wreach (one_file [7]) (sample_writer [7]) s" "ws_sync s 0 = Flushing 4097 [(1, replicate 4096 9)]"
    "file_Sync (ws_fs s) (wr_f (ws_w s)) = Inr c'" by (rule sample_synced)
  have "wr_f (ws_w s) = sample_file" using winv_reach[OF s(1) sample_at_end(1-3)] by (simp add: winv_def sample_at_end(4))
  then show ?thesis using sync_leaves_no_hole[OF s(1) sample_at_end(1-3) s(2,3)] s(1,3) sample_at_end(4)
    by (intro exI[of _ s] exI[of _ c']) (simp add: sample_in)
qed

theorem append_extends_valid_run_witness:
  "\<exists>c' w' r f. AppendIndexed sample_hashes (\<lambda>_. True) (\<lambda>_. 7) False (one_file (replicate 64 0)) (sample_writer (replicate 64 0)) sample_spec =
     (c', w', Inr r) \<and> valid_run sample_hashes (\<lambda>_. True) sample_header (file_bytes c' (wr_f w')) 64 = [(64, f)] \<and> f_Payload f = [1, 2, 3]"
proof -
  let ?w = "sample_writer (replicate 64 0)" and ?c = "one_file (replicate 64 0)"
  have n: "frame_at sample_hashes (\<lambda>_. True) sample_header (replicate 64 0) 64 = None" by (simp add: frame_at_def)
  have ae: "at_end sample_hashes (\<lambda>_. True) ?c ?w" "valid_run sample_hashes (\<lambda>_. True) sample_header (replicate 64 0) 64 = []"
    using n sample_at_end[of "replicate 64 0"] valid_run.simps[of sample_hashes "\<lambda>_. True" sample_header "replicate 64 0" 64]
      run_end.simps[of sample_hashes "\<lambda>_. True" sample_header "replicate 64 0" 64]
    by (simp_all add: at_end_def sample_writer_def file_Size_bytes)
  have h: "wr_h ?w = sample_header" "wr_f ?w = sample_file" "wr_end ?w = 64" by (simp_all add: sample_writer_def)
  obtain b where b: "AppendFrame sample_hashes (\<lambda>_. True) (\<lambda>_. 7) [] sample_header sample_spec = Inr b"
    using sample_built by (auto simp: Build_def)
  obtain f where f: "Parse sample_hashes (\<lambda>_. True) b sample_header = Inr f" "length b = unat (p_FrameQuanta (f_Prefix f)) * 4096"
    using Parse_of_AppendFrame[OF wf_sample_header wf_sample_hashes sample_packed_ok b] by blast
  have q: "0 < unat (p_FrameQuanta (f_Prefix f))" "unat (p_FrameQuanta (f_Prefix f)) \<le> 16"
  proof -
    have "DecodeFramePrefix b sample_header = Inr (f_Prefix f)" by (rule Parse_facts[OF f(1)]) blast
    then show "0 < unat (p_FrameQuanta (f_Prefix f))" "unat (p_FrameQuanta (f_Prefix f)) \<le> 16"
      using DecodeFramePrefix_Inr by (fastforce simp: CheckFrameQuanta_Inr sample_header_def word_le_nat_alt)+
  qed
  have "unat (MaxFrameSize sample_header) = 65536" "h_Mode sample_header = 0"
    using wf_header_bounds(5)[OF wf_sample_header] by (simp_all add: sample_header_def)
  then have e: "encodable sample_header b" using q f(2) by (simp add: encodable_def)
  have "DecodeFrameTail b = Inr \<lparr> t_Body = f_PreTrailer f, t_Trailer = f_Trailer f \<rparr>" by (rule Parse_facts[OF f(1)]) blast
  then have tr: "DecodeMasterTrailer (drop (length b - 96) b) = Inr (f_Trailer f)" using DecodeFrameTail_trailer by fastforce
  obtain c' w' r where a: "AppendIndexed sample_hashes (\<lambda>_. True) (\<lambda>_. 7) False ?c ?w sample_spec = (c', w', Inr r)"
    using b e tr q f(2) by (simp add: AppendIndexed_def AppendBuilt_def AppendEncoded_def writer_write_def write_begin_def attempt_def
        WriteAt_def Let_def sample_writer_def sample_file_def)
  show ?thesis
    using append_extends_valid_run[OF a ae(1)] a ae(2) h wf_sample_header wf_sample_hashes sample_packed_ok
    by (auto simp: sample_spec_def)
qed

end
