(* ===== verification/Index.thy ===== *)
theory Index
  imports Blob_Append "HOL-Library.List_Lexorder" "HOL-Library.Product_Lexorder" "HOL-Library.Multiset"
begin

text \<open>
  Package \<^verbatim>\<open>internal/index\<close> (\<^verbatim>\<open>index.go\<close>, \<^verbatim>\<open>resolve.go\<close>): the physical index of a blob, a sorted multimap from frame hashes to
  records with a buffer of recent additions. \<^verbatim>\<open>slices.SortFunc\<close> is the stable sort by the compared key; the code does not
  depend on the order it leaves open. The signed end of the index is the code's \<^verbatim>\<open>int64\<close>, with its conversion from
  \<^verbatim>\<open>uint64\<close> written out. The interface \<open>multimap\<close> states what a lookup returns after insertions; against it, what an index
  built or caught up by a scan contains is derived once.
\<close>

section \<open>The index in memory\<close>

definition index_Name :: "byte \<Rightarrow> string result" where
  "index_Name ordinal =
    (if ordinal > MaxBlobOrdinal then errf ErrInvalid ''index'' ''ordinal''
     else Inr (''index/blob-'' @
       [''0123456789ABCDEF'' ! (unat ordinal div 16), ''0123456789ABCDEF'' ! (unat ordinal mod 16)] @ ''.idx''))"

record Index =
  ix_h :: ArchiveHeader
  ix_ordinal :: byte
  ix_recs :: "IndexRecord list"
  ix_pending :: "IndexRecord list"
  ix_end :: int

definition index_New :: "ArchiveHeader \<Rightarrow> byte \<Rightarrow> Index" where
  "index_New h ordinal = \<lparr> ix_h = h, ix_ordinal = ordinal, ix_recs = [], ix_pending = [], ix_end = int FrameAreaStart \<rparr>"

definition index_Len :: "Index \<Rightarrow> nat" where
  "index_Len x = length (ix_recs x) + length (ix_pending x)"

definition cmp_Compare :: "u64 \<Rightarrow> u64 \<Rightarrow> int" where
  "cmp_Compare a b = (if a < b then -1 else if a > b then 1 else 0)"

definition less_rec :: "IndexRecord \<Rightarrow> IndexRecord \<Rightarrow> int" where
  "less_rec a b =
    (let c = Compare (i_FrameHash a) (i_FrameHash b) in if c \<noteq> 0 then c else cmp_Compare (i_PhysicalOffset a) (i_PhysicalOffset b))"

definition RecordOf :: "nat \<Rightarrow> Frame \<Rightarrow> IndexRecord" where
  "RecordOf off f = \<lparr> i_FrameHash = m_HashPayload (f_Trailer f), i_PhysicalOffset = word_of_nat off,
     i_FrameQuanta = m_FrameQuanta (f_Trailer f), i_BlockType = m_BlockType (f_Trailer f), i_FrameOrdinal = m_FrameOrdinal (f_Trailer f) \<rparr>"

text \<open>The key \<^verbatim>\<open>less\<close> compares.\<close>

definition rec_key :: "IndexRecord \<Rightarrow> bytes \<times> u64" where
  "rec_key r = (i_FrameHash r, i_PhysicalOffset r)"

fun merge_recs :: "IndexRecord list \<Rightarrow> IndexRecord list \<Rightarrow> IndexRecord list" where
  "merge_recs (a # as) (b # bs) = (if less_rec a b \<le> 0 then a # merge_recs as (b # bs) else b # merge_recs (a # as) bs)"
| "merge_recs as bs = as @ bs"

definition index_merge :: "Index \<Rightarrow> Index" where
  "index_merge x =
    (if ix_pending x = [] then x
     else x\<lparr> ix_recs := merge_recs (ix_recs x) (sort_key rec_key (ix_pending x)), ix_pending := [] \<rparr>)"

definition index_Add :: "Index \<Rightarrow> IndexRecord \<Rightarrow> Index" where
  "index_Add x r =
    (let x1 = x\<lparr> ix_pending := ix_pending x @ [r], ix_end := max (ix_end x) (sint (i_PhysicalOffset r + FrameSize (i_FrameQuanta r))) \<rparr>
     in if length (ix_pending x1) \<ge> 1024 then index_merge x1 else x1)"

text \<open>\<^verbatim>\<open>slices.BinarySearchFunc\<close>: the first position in \<open>[i, j)\<close> whose hash is not below the target.\<close>

function search_hash :: "IndexRecord list \<Rightarrow> bytes \<Rightarrow> nat \<Rightarrow> nat \<Rightarrow> nat" where
  "search_hash recs h i j =
    (if i < j then
       (let m = (i + j) div 2 in
        if Compare (i_FrameHash (recs ! m)) h < 0 then search_hash recs h (m + 1) j else search_hash recs h i m)
     else i)"
  by pat_completeness auto
termination
  by (relation "measure (\<lambda>(recs, h, i, j). j - i)") auto

declare search_hash.simps [simp del]

definition index_Lookup :: "Index \<Rightarrow> bytes \<Rightarrow> IndexRecord list" where
  "index_Lookup x h =
    (let i = search_hash (ix_recs x) h 0 (length (ix_recs x));
         out = takeWhile (\<lambda>r. i_FrameHash r = h) (drop i (ix_recs x))
     in sort_key i_PhysicalOffset (out @ filter (\<lambda>r. i_FrameHash r = h) (ix_pending x)))"

definition index_Build :: "hashes \<Rightarrow> (bytes \<Rightarrow> bool) \<Rightarrow> reader \<Rightarrow> nat \<Rightarrow> ArchiveHeader \<Rightarrow> byte \<Rightarrow> ScanResult \<times> Index result" where
  "index_Build H isNormal rd sz h ordinal =
    (case Scan H isNormal rd h sz (\<lambda>x off f. (index_Add x (RecordOf off f), None)) (index_New h ordinal) of
       (res, _, Some e) \<Rightarrow> (res, Inl e)
     | (res, x, None) \<Rightarrow> (res, Inr (index_merge x)))"

definition CatchUp :: "hashes \<Rightarrow> (bytes \<Rightarrow> bool) \<Rightarrow> reader \<Rightarrow> nat \<Rightarrow> ArchiveHeader \<Rightarrow> Index \<Rightarrow> Index \<times> nat result" where
  "CatchUp H isNormal rd sz h x =
    (case ScanFrom H isNormal rd h (nat (ix_end x)) sz (\<lambda>x off f. (index_Add x (RecordOf off f), None)) x of
       (_, x1, Some e) \<Rightarrow> (x1, Inl e)
     | (res, x1, None) \<Rightarrow> (index_merge x1, Inr (sr_Frames res)))"

definition index_Last :: "Index \<Rightarrow> IndexRecord option" where
  "index_Last x = foldl (\<lambda>best r. case best of
       None \<Rightarrow> Some r
     | Some b \<Rightarrow> if i_PhysicalOffset r > i_PhysicalOffset b then Some r else Some b) None (ix_recs x @ ix_pending x)"

section \<open>The stored index\<close>

text \<open>The chunks \<^verbatim>\<open>Write\<close> passes to the stream and the error it stops with.\<close>

fun record_chunks :: "IndexRecord list \<Rightarrow> bytes list \<times> error option" where
  "record_chunks [] = ([], None)"
| "record_chunks (r # rs) =
    (case IndexRecord_AppendBinary r [] of Inl e \<Rightarrow> ([], Some e)
     | Inr rb \<Rightarrow> (let (cs, err) = record_chunks rs in (rb # cs, err)))"

definition index_header :: "Index \<Rightarrow> IndexHeader" where
  "index_header x = \<lparr> x_GenerationID = h_GenerationID (ix_h x), x_ArchiveID = h_ArchiveID (ix_h x), x_BlobOrdinal = ix_ordinal x,
     x_HashID = h_HashID (ix_h x), x_RecordCount = word_of_nat (length (ix_recs x)) \<rparr>"

definition index_chunks :: "Index \<Rightarrow> bytes list \<times> error option" where
  "index_chunks x =
    (case IndexHeader_AppendBinary (index_header x) [] of Inl e \<Rightarrow> ([], Some e)
     | Inr hb \<Rightarrow> (let (cs, err) = record_chunks (ix_recs x) in (hb # cs, err)))"

definition index_Write :: "(nat \<Rightarrow> bool) \<Rightarrow> CrashFS \<Rightarrow> Index \<Rightarrow> string \<Rightarrow> Index \<times> CrashFS list \<times> CrashFS \<times> error option" where
  "index_Write fault c x name =
    (let x1 = index_merge x; (cs, err) = index_chunks x1 in (x1, ReplaceFileStream fault c name cs err))"

definition discard :: "string \<Rightarrow> 'a result" where
  "discard why = errf ErrDiscard ''index'' why"

definition isDiscard :: "error \<Rightarrow> bool" where
  "isDiscard e \<longleftrightarrow> err_class_of e = ErrDiscard"

text \<open>The records of one buffer, appended to those already loaded.\<close>

fun load_buf :: "nat \<Rightarrow> ArchiveHeader \<Rightarrow> nat \<Rightarrow> bytes \<Rightarrow> Index \<Rightarrow> Index result" where
  "load_buf 0 h blobSize b x = Inr x"
| "load_buf (Suc n) h blobSize b x =
    (case DecodeIndexRecord (take 64 b) h of Inl e \<Rightarrow> discard (err_field e)
     | Inr r \<Rightarrow>
       (let end = i_PhysicalOffset r + FrameSize (i_FrameQuanta r); k = length (ix_recs x) in
        if unat end > blobSize then discard ''end''
        else if k > 0 \<and> less_rec (ix_recs x ! (k - 1)) r \<ge> 0 then discard ''order''
        else load_buf n h blobSize (drop 64 b) (x\<lparr> ix_recs := ix_recs x @ [r], ix_end := max (ix_end x) (sint end) \<rparr>)))"

text \<open>The buffer of the loop holds whole records: \<open>2 ^ 20\<close> bytes, which is the length the pool returns.\<close>

function load_loop :: "reader \<Rightarrow> ArchiveHeader \<Rightarrow> nat \<Rightarrow> nat \<Rightarrow> nat \<Rightarrow> Index \<Rightarrow> Index result" where
  "load_loop rd h blobSize sz off x =
    (if off < sz then
       (let n = min 1048576 (sz - off) in
        case rd off n of
          (_, Some e) \<Rightarrow> Inl e
        | (b, None) \<Rightarrow>
          (case load_buf (n div 64) h blobSize b x of Inl e \<Rightarrow> Inl e | Inr x1 \<Rightarrow> load_loop rd h blobSize sz (off + n) x1))
     else Inr x)"
  by pat_completeness auto
termination
  by (relation "measure (\<lambda>(rd, h, blobSize, sz, off, x). sz - off)") auto

declare load_loop.simps [simp del]

definition load_file :: "reader \<Rightarrow> nat \<Rightarrow> ArchiveHeader \<Rightarrow> byte \<Rightarrow> nat \<Rightarrow> Index result" where
  "load_file rd sz h ordinal blobSize =
    (if sz < IndexHeaderSize then discard ''size''
     else case rd 0 IndexHeaderSize of (_, Some e) \<Rightarrow> Inl e
     | (hb, None) \<Rightarrow>
       (case DecodeIndexHeader hb of Inl e \<Rightarrow> discard (err_field e)
        | Inr hdr \<Rightarrow>
          if x_GenerationID hdr \<noteq> h_GenerationID h \<or> x_ArchiveID hdr \<noteq> h_ArchiveID h \<or> x_BlobOrdinal hdr \<noteq> ordinal \<or> x_HashID hdr \<noteq> h_HashID h
          then discard ''identity''
          else case Mul64 (x_RecordCount hdr) 64 of Inl _ \<Rightarrow> discard ''record_count''
          | Inr body \<Rightarrow>
            (case Add64 body 64 of Inl _ \<Rightarrow> discard ''file size''
             | Inr want \<Rightarrow>
               if want \<noteq> word_of_nat sz then discard ''file size''
               else let maxRecords = (if blobSize > FrameAreaStart then (blobSize - FrameAreaStart) div BaseQuantum else 0) in
                 if unat (x_RecordCount hdr) > maxRecords then discard ''records''
                 else case load_loop rd h blobSize sz IndexHeaderSize (index_New h ordinal) of Inl e \<Rightarrow> Inl e
                 | Inr x \<Rightarrow>
                   (let offs = sort (map i_PhysicalOffset (ix_recs x)) in
                    if (\<exists>i \<in> {1..<length offs}. offs ! i = offs ! (i - 1)) then discard ''offset twice'' else Inr x))))"

definition index_Load :: "(nat \<Rightarrow> bool) \<Rightarrow> (nat \<Rightarrow> nat \<Rightarrow> bool) \<Rightarrow> CrashFS \<Rightarrow> string \<Rightarrow> ArchiveHeader \<Rightarrow> byte \<Rightarrow> nat \<Rightarrow> Index result" where
  "index_Load fault rfault c name h ordinal blobSize =
    (case attempt (fault 0) (OpenFile c name \<lparr> O_CREATE = False, O_EXCL = False, O_TRUNC = False, O_WRITE = False \<rparr>) of
       Inl e \<Rightarrow> if err_class_of e = ErrNotExist then discard ''missing'' else Inl e
     | Inr (c1, f) \<Rightarrow>
       if fault 1 then Inl io_error else load_file (file_reader rfault c1 f) (file_Size c1 f) h ordinal blobSize)"

section \<open>Opening and resolving\<close>

record Status =
  st_Discarded :: "error option"
  st_Rebuilt :: bool
  st_CaughtUp :: nat

definition index_Open :: "hashes \<Rightarrow> (bytes \<Rightarrow> bool) \<Rightarrow> (nat \<Rightarrow> bool) \<Rightarrow> (nat \<Rightarrow> nat \<Rightarrow> bool) \<Rightarrow> CrashFS \<Rightarrow> string
    \<Rightarrow> reader \<Rightarrow> nat \<Rightarrow> ArchiveHeader \<Rightarrow> byte \<Rightarrow> Status \<times> Index result" where
  "index_Open H isNormal fault rfault c name rd sz h ordinal =
    (let st = \<lparr> st_Discarded = None, st_Rebuilt = False, st_CaughtUp = 0 \<rparr> in
     case index_Load fault rfault c name h ordinal sz of
       Inr x \<Rightarrow>
         (case CatchUp H isNormal rd sz h x of
            (_, Inl e) \<Rightarrow> (st, Inl e)
          | (x1, Inr n) \<Rightarrow> (st\<lparr> st_CaughtUp := n \<rparr>, Inr x1))
     | Inl e \<Rightarrow>
         if \<not> isDiscard e then (st, Inl e)
         else case index_Build H isNormal rd sz h ordinal of
           (_, Inl e1) \<Rightarrow> (st\<lparr> st_Discarded := Some e \<rparr>, Inl e1)
         | (_, Inr x) \<Rightarrow> (st\<lparr> st_Discarded := Some e, st_Rebuilt := True \<rparr>, Inr x))"

datatype Resolution = NotFound | ViaIndex | ViaScan

text \<open>The two loops of \<^verbatim>\<open>Find\<close> over candidate offsets; \<open>Inr None\<close> when none qualifies.\<close>

fun try_candidates :: "hashes \<Rightarrow> (bytes \<Rightarrow> bool) \<Rightarrow> reader \<Rightarrow> nat \<Rightarrow> ArchiveHeader \<Rightarrow> bytes \<Rightarrow> (Ref \<Rightarrow> bool) option
    \<Rightarrow> IndexRecord list \<Rightarrow> Ref option result" where
  "try_candidates H isNormal rd sz h hash accept [] = Inr None"
| "try_candidates H isNormal rd sz h hash accept (c # cs) =
    (case ReadFrame H isNormal rd sz h (nat (sint (i_PhysicalOffset c))) of
       Inl e \<Rightarrow> if IsFormatError e then try_candidates H isNormal rd sz h hash accept cs else Inl e
     | Inr ref \<Rightarrow>
       (let t = f_Trailer (ref_Frame ref) in
        if m_HashPayload t = hash \<and> m_FrameQuanta t = i_FrameQuanta c \<and> m_BlockType t = i_BlockType c \<and>
           m_FrameOrdinal t = i_FrameOrdinal c \<and> (case accept of None \<Rightarrow> True | Some a \<Rightarrow> a ref)
        then Inr (Some ref) else try_candidates H isNormal rd sz h hash accept cs))"

fun try_offsets :: "hashes \<Rightarrow> (bytes \<Rightarrow> bool) \<Rightarrow> reader \<Rightarrow> nat \<Rightarrow> ArchiveHeader \<Rightarrow> (Ref \<Rightarrow> bool) option \<Rightarrow> nat list \<Rightarrow> Ref option result" where
  "try_offsets H isNormal rd sz h accept [] = Inr None"
| "try_offsets H isNormal rd sz h accept (off # offs) =
    (case ReadFrame H isNormal rd sz h off of
       Inl e \<Rightarrow> if IsFormatError e then try_offsets H isNormal rd sz h accept offs else Inl e
     | Inr ref \<Rightarrow>
       (if (case accept of None \<Rightarrow> True | Some a \<Rightarrow> a ref) then Inr (Some ref) else try_offsets H isNormal rd sz h accept offs))"

definition index_Find :: "hashes \<Rightarrow> (bytes \<Rightarrow> bool) \<Rightarrow> reader \<Rightarrow> nat \<Rightarrow> ArchiveHeader \<Rightarrow> Index \<Rightarrow> bytes \<Rightarrow> (Ref \<Rightarrow> bool) option
    \<Rightarrow> (Ref option \<times> Resolution) result" where
  "index_Find H isNormal rd sz h x hash accept =
    (case try_candidates H isNormal rd sz h hash accept (index_Lookup x hash) of
       Inl e \<Rightarrow> Inl e
     | Inr (Some ref) \<Rightarrow> Inr (Some ref, ViaIndex)
     | Inr None \<Rightarrow>
       (case Scan H isNormal rd h sz
           (\<lambda>found off f. (if m_HashPayload (f_Trailer f) = hash then found @ [off] else found, None)) [] of
          (_, _, Some e) \<Rightarrow> Inl e
        | (_, found, None) \<Rightarrow>
          (case try_offsets H isNormal rd sz h accept found of
             Inl e \<Rightarrow> Inl e
           | Inr (Some ref) \<Rightarrow> Inr (Some ref, ViaScan)
           | Inr None \<Rightarrow> Inr (None, NotFound))))"


section \<open>Order of the records\<close>

lemma Compare_less: "Compare a b = -1 \<longleftrightarrow> a < b"
  by (simp add: Compare_lexord list_less_def)

lemma Compare_refl [simp]: "Compare a a = 0"
  by simp

lemma Compare_le: "Compare a b \<le> 0 \<longleftrightarrow> a \<le> b"
  using Compare_values[of a b] Compare_less[of a b] Compare_eq_0[of a b] by (auto simp: less_le)

lemma less_rec_le: "less_rec a b \<le> 0 \<longleftrightarrow> rec_key a \<le> rec_key b"
proof -
  have "Compare (i_FrameHash a) (i_FrameHash b) = -1 \<longleftrightarrow> i_FrameHash a < i_FrameHash b" by (rule Compare_less)
  then show ?thesis using Compare_values[of "i_FrameHash a" "i_FrameHash b"]
    by (auto simp: less_rec_def rec_key_def cmp_Compare_def Let_def less_eq_prod_def split: if_splits)
qed

lemma less_rec_antisym: "less_rec b a = - less_rec a b"
  using Compare_antisym[of "i_FrameHash b" "i_FrameHash a"] by (auto simp: less_rec_def cmp_Compare_def Let_def)

lemma less_rec_ge: "less_rec a b \<ge> 0 \<longleftrightarrow> rec_key b \<le> rec_key a"
  using less_rec_le[of b a] less_rec_antisym[of a b] by simp

lemma mset_merge_recs: "mset (merge_recs as bs) = mset as + mset bs"
  by (induction as bs rule: merge_recs.induct) simp_all

lemma sorted_merge_recs: "sorted (map rec_key as) \<Longrightarrow> sorted (map rec_key bs) \<Longrightarrow> sorted (map rec_key (merge_recs as bs))"
proof (induction as bs rule: merge_recs.induct)
  case (1 a as b bs)
  have m: "set (merge_recs as' bs') = set as' \<union> set bs'" for as' bs'
    using mset_merge_recs[of as' bs'] by (metis mset_append set_append set_mset_mset)
  show ?case using 1 by (fastforce simp: less_rec_le m)
qed simp_all

definition wf_index :: "Index \<Rightarrow> bool" where
  "wf_index x \<longleftrightarrow> sorted (map rec_key (ix_recs x)) \<and> length (ix_pending x) < 1024"

definition all_recs :: "Index \<Rightarrow> IndexRecord multiset" where
  "all_recs x = mset (ix_recs x) + mset (ix_pending x)"

lemma index_merge_ok:
  assumes "sorted (map rec_key (ix_recs x))"
  shows "wf_index (index_merge x)" "all_recs (index_merge x) = all_recs x" "ix_end (index_merge x) = ix_end x"
  using assms by (auto simp: index_merge_def wf_index_def all_recs_def mset_merge_recs intro: sorted_merge_recs)

lemma index_Add_ok:
  assumes "wf_index x"
  shows "wf_index (index_Add x r)" "all_recs (index_Add x r) = add_mset r (all_recs x)"
proof -
  let ?x1 = "x\<lparr> ix_pending := ix_pending x @ [r], ix_end := max (ix_end x) (sint (i_PhysicalOffset r + FrameSize (i_FrameQuanta r))) \<rparr>"
  have s: "sorted (map rec_key (ix_recs ?x1))" using assms by (simp add: wf_index_def)
  show "wf_index (index_Add x r)" "all_recs (index_Add x r) = add_mset r (all_recs x)"
    using assms index_merge_ok[OF s] by (auto simp: index_Add_def Let_def wf_index_def all_recs_def)
qed

section \<open>Lookup\<close>

lemma sorted_hashes: "sorted (map rec_key rs) \<Longrightarrow> sorted (map i_FrameHash rs)"
  by (induction rs) (auto simp: rec_key_def less_eq_prod_def)

lemma search_hash_ok:
  assumes "sorted (map i_FrameHash recs)" "i \<le> j" "j \<le> length recs"
    "\<forall>k < i. i_FrameHash (recs ! k) < h" "\<forall>k. j \<le> k \<and> k < length recs \<longrightarrow> h \<le> i_FrameHash (recs ! k)"
  shows "let p = search_hash recs h i j in p \<le> length recs \<and> (\<forall>k < p. i_FrameHash (recs ! k) < h) \<and>
    (\<forall>k. p \<le> k \<and> k < length recs \<longrightarrow> h \<le> i_FrameHash (recs ! k))"
  using assms
proof (induction recs h i j rule: search_hash.induct)
  case (1 recs h i j)
  have mono: "i_FrameHash (recs ! a) \<le> i_FrameHash (recs ! b)" if "a \<le> b" "b < length recs" for a b
    using sorted_nth_mono[OF 1(3), of a b] that by simp
  show ?case
  proof (cases "i < j")
    case True
    let ?m = "(i + j) div 2"
    have m: "i \<le> ?m" "?m < j" using True by simp_all
    show ?thesis
    proof (cases "Compare (i_FrameHash (recs ! ?m)) h < 0")
      case True1: True
      then have "i_FrameHash (recs ! ?m) < h" using Compare_values[of "i_FrameHash (recs ! ?m)" h] by (auto simp: Compare_less)
      moreover have "i_FrameHash (recs ! k) \<le> i_FrameHash (recs ! ?m)" if "k < ?m + 1" for k
        using mono[of k ?m] that m(2) 1(5) by simp
      ultimately have "\<forall>k < ?m + 1. i_FrameHash (recs ! k) < h" using le_less_trans by blast
      moreover have "?m + 1 \<le> j" using m(2) by simp
      moreover have "search_hash recs h i j = search_hash recs h (?m + 1) j"
        using True True1 by (simp add: search_hash.simps[of recs h i j] Let_def)
      ultimately show ?thesis using 1(1)[OF True refl True1 1(3) _ 1(5) _ 1(7)] by metis
    next
      case False
      then have "h \<le> i_FrameHash (recs ! ?m)" by (metis Compare_less linorder_not_le neg_less_0_iff_less zero_less_one)
      then have "\<forall>k. ?m \<le> k \<and> k < length recs \<longrightarrow> h \<le> i_FrameHash (recs ! k)" using mono by (meson order_trans)
      moreover have "?m \<le> length recs" using m(2) 1(5) by simp
      moreover have "search_hash recs h i j = search_hash recs h i ?m"
        using True False by (simp add: search_hash.simps[of recs h i j] Let_def)
      ultimately show ?thesis using 1(2)[OF True refl False 1(3) m(1) _ 1(6)] by metis
    qed
  next
    case False
    then have "i = j" "search_hash recs h i j = i" using 1(4) by (simp, subst search_hash.simps, simp)
    then show ?thesis using 1(5-7) unfolding Let_def by simp
  qed
qed

lemma takeWhile_sorted_filter: "sorted (map f ys) \<Longrightarrow> \<forall>y \<in> set ys. h \<le> f y \<Longrightarrow> takeWhile (\<lambda>y. f y = h) ys = filter (\<lambda>y. f y = h) ys"
proof (induction ys)
  case (Cons y ys)
  have "filter (\<lambda>z. f z = h) ys = []" if "f y \<noteq> h" using Cons.prems that by (auto simp: filter_empty_conv)
  then show ?case using Cons by auto
qed simp

lemma index_Lookup_filter:
  assumes "wf_index x"
  shows "index_Lookup x h = sort_key i_PhysicalOffset (filter (\<lambda>r. i_FrameHash r = h) (ix_recs x @ ix_pending x))"
proof -
  let ?rs = "ix_recs x"
  have s: "sorted (map i_FrameHash ?rs)" using assms by (simp add: wf_index_def sorted_hashes)
  let ?p = "search_hash ?rs h 0 (length ?rs)"
  have e: "\<forall>k < 0. i_FrameHash (?rs ! k) < h" "\<forall>k. length ?rs \<le> k \<and> k < length ?rs \<longrightarrow> h \<le> i_FrameHash (?rs ! k)" by auto
  have p: "?p \<le> length ?rs" "\<forall>k < ?p. i_FrameHash (?rs ! k) < h" "\<forall>k. ?p \<le> k \<and> k < length ?rs \<longrightarrow> h \<le> i_FrameHash (?rs ! k)"
    using search_hash_ok[OF s le0 order_refl e] unfolding Let_def by blast+
  have "filter (\<lambda>r. i_FrameHash r = h) (take ?p ?rs) = []"
    using p(1,2) by (auto simp: filter_empty_conv in_set_conv_nth) (metis less_irrefl)
  moreover have "\<forall>r \<in> set (drop ?p ?rs). h \<le> i_FrameHash r" using p(3) by (auto simp: in_set_conv_nth)
  moreover have "sorted (map i_FrameHash (drop ?p ?rs))" using s by (simp add: drop_map[symmetric] sorted_wrt_drop)
  ultimately have "takeWhile (\<lambda>r. i_FrameHash r = h) (drop ?p ?rs) = filter (\<lambda>r. i_FrameHash r = h) ?rs"
    using takeWhile_sorted_filter[of i_FrameHash "drop ?p ?rs" h] by (metis append_self_conv2 append_take_drop_id filter_append)
  then show ?thesis by (simp add: index_Lookup_def Let_def)
qed


section \<open>What a multimap promises\<close>

locale multimap =
  fixes empty :: 'x and add :: "'x \<Rightarrow> 'r \<Rightarrow> 'x" and lookup :: "'x \<Rightarrow> 'k \<Rightarrow> 'r list" and inv :: "'x \<Rightarrow> bool"
    and key :: "'r \<Rightarrow> 'k" and rank :: "'r \<Rightarrow> 'o::linorder"
  assumes inv_empty: "inv empty"
    and inv_add: "inv x \<Longrightarrow> inv (add x r)"
    and lookup_empty: "lookup empty k = []"
    and lookup_add: "inv x \<Longrightarrow> mset (lookup (add x r) k) = mset (lookup x k) + (if key r = k then {#r#} else {#})"
    and lookup_ranked: "inv x \<Longrightarrow> sorted (map rank (lookup x k))"
begin

lemma inv_adds: "inv x \<Longrightarrow> inv (foldl add x rs)"
  by (induction rs arbitrary: x) (simp_all add: inv_add)

lemma lookup_adds: "inv x \<Longrightarrow> mset (lookup (foldl add x rs) k) = mset (lookup x k) + mset (filter (\<lambda>r. key r = k) rs)"
  by (induction rs arbitrary: x) (simp_all add: inv_add lookup_add)

text \<open>Records added in increasing rank are found in the order they were added.\<close>

lemma lookup_built:
  assumes "sorted_wrt (<) (map rank rs)"
  shows "lookup (foldl add empty rs) k = filter (\<lambda>r. key r = k) rs"
proof -
  have r: "sorted (map rank rs)" "distinct (map rank rs)" using assms by (simp_all add: strict_sorted_iff)
  let ?l = "lookup (foldl add empty rs) k" and ?f = "filter (\<lambda>r. key r = k) rs"
  have m: "mset ?l = mset ?f" using lookup_adds[OF inv_empty, of rs k] by (simp add: lookup_empty)
  have df: "distinct (map rank ?f)" using r(2) by (simp add: distinct_map inj_on_def)
  then have dl: "distinct (map rank ?l)" using m by (metis mset_map mset_eq_imp_distinct_iff)
  have s: "set ?l = set ?f" using m by (metis set_mset_mset)
  show ?thesis
    using df dl lookup_ranked[OF inv_adds[OF inv_empty], of rs k] sorted_filter[OF r(1)] s
    by (intro map_sorted_distinct_set_unique[of rank]) (simp_all add: distinct_map)
qed

end

lemma mset_filter_recs: "mset (filter P (ix_recs x @ ix_pending x)) = filter_mset P (all_recs x)"
  by (simp add: all_recs_def)

lemma index_Lookup_mset: "wf_index x \<Longrightarrow> mset (index_Lookup x k) = filter_mset (\<lambda>r. i_FrameHash r = k) (all_recs x)"
  by (simp add: index_Lookup_filter mset_filter_recs del: filter_append mset_filter)

interpretation index_map: multimap "index_New h ordinal" index_Add index_Lookup wf_index i_FrameHash i_PhysicalOffset
proof unfold_locales
  show "wf_index (index_New h ordinal)" by (simp add: wf_index_def index_New_def)
  show "index_Lookup (index_New h ordinal) k = []" for k
    by (simp add: index_Lookup_def index_New_def)
qed (simp_all add: index_Add_ok index_Lookup_mset, simp add: index_Lookup_filter)

lemma index_merge_Lookup:
  assumes "wf_index x" "distinct (map i_PhysicalOffset (index_Lookup x k))"
  shows "index_Lookup (index_merge x) k = index_Lookup x k"
proof -
  have s: "sorted (map rec_key (ix_recs x))" using assms(1) by (simp add: wf_index_def)
  note M = index_merge_ok[OF s]
  have m: "mset (index_Lookup (index_merge x) k) = mset (index_Lookup x k)"
    using index_Lookup_mset[OF M(1)] index_Lookup_mset[OF assms(1)] M(2) by simp
  then have d: "distinct (map i_PhysicalOffset (index_Lookup (index_merge x) k))" using assms(2) by (metis mset_map mset_eq_imp_distinct_iff)
  have "set (index_Lookup (index_merge x) k) = set (index_Lookup x k)" using m by (metis set_mset_mset)
  then show ?thesis
    using d assms(2) index_map.lookup_ranked[OF M(1)] index_map.lookup_ranked[OF assms(1)]
    by (intro map_sorted_distinct_set_unique[of i_PhysicalOffset]) (simp_all add: distinct_map)
qed


section \<open>Offsets of the valid run\<close>

lemma valid_run_grid:
  "(i, f) \<in> set (valid_run H isNormal h bs off) \<Longrightarrow> \<exists>j. i = off + 4096 * j"
proof (induction H isNormal h bs off rule: valid_run.induct)
  case (1 H isNormal h bs off)
  show ?case
  proof (cases "frame_at H isNormal h bs off")
    case None
    then show ?thesis using 1(2) by (simp add: valid_run.simps[of H isNormal h bs off])
  next
    case (Some x)
    obtain f1 fsz where x: "x = (f1, fsz)" by (cases x)
    have e: "valid_run H isNormal h bs off = (off, f1) # valid_run H isNormal h bs (off + fsz)"
      using Some x by (simp add: valid_run.simps[of H isNormal h bs off])
    have q: "fsz = 4096 * unat (p_FrameQuanta (f_Prefix f1))" using frame_at_prefix(2)[OF Some[unfolded x]] by simp
    show ?thesis
    proof (cases "i = off")
      case True
      then show ?thesis by (intro exI[of _ 0]) simp
    next
      case False
      then have "(i, f) \<in> set (valid_run H isNormal h bs (off + fsz))" using 1(2) e by auto
      then obtain j where "i = off + fsz + 4096 * j" using 1(1)[OF Some x[symmetric]] by blast
      then show ?thesis using q by (intro exI[of _ "unat (p_FrameQuanta (f_Prefix f1)) + j"]) simp
    qed
  qed
qed

lemma valid_run_increasing: "sorted_wrt (<) (map fst (valid_run H isNormal h bs off)) \<and> (\<forall>x \<in> set (valid_run H isNormal h bs off). off \<le> fst x)"
proof (induction H isNormal h bs off rule: valid_run.induct)
  case (1 H isNormal h bs off)
  show ?case
  proof (cases "frame_at H isNormal h bs off")
    case None
    then have "valid_run H isNormal h bs off = []" by (simp add: valid_run.simps[of H isNormal h bs off])
    then show ?thesis by simp
  next
    case (Some x)
    obtain f fsz where x: "x = (f, fsz)" by (cases x)
    have e: "valid_run H isNormal h bs off = (off, f) # valid_run H isNormal h bs (off + fsz)"
      using Some x by (simp add: valid_run.simps[of H isNormal h bs off])
    show ?thesis using 1[OF Some x[symmetric]] frame_at_Some(1)[OF Some[unfolded x]] unfolding e by fastforce
  qed
qed

lemma valid_run_offset:
  assumes "(i, f) \<in> set (valid_run H isNormal h bs 64)" "length bs < 2 ^ 63"
  shows "64 \<le> i" "i < 2 ^ 63" "OnFrameGrid (word_of_nat i)" "\<exists>fsz. frame_at H isNormal h bs i = Some (f, fsz)"
proof -
  obtain j where j: "i = 64 + 4096 * j" using valid_run_grid[OF assms(1)] by blast
  have le: "64 \<le> length bs"
    using assms(1) by (cases "64 \<le> length bs") (auto simp: valid_run.simps[of H isNormal h bs 64] frame_at_def)
  show fa: "\<exists>fsz. frame_at H isNormal h bs i = Some (f, fsz)" using valid_run_below[OF assms(1) le] by blast
  then obtain fsz where "i + fsz \<le> length bs" using frame_at_Some(2) by blast
  then show "i < 2 ^ 63" using assms(2) by simp
  then have "unat (word_of_nat i :: u64) = i" by (intro unat_of_nat_u64) simp
  then show "OnFrameGrid (word_of_nat i)" using j by (auto simp: OnFrameGrid_iff)
  show "64 \<le> i" using j by simp
qed

lemma sint_offset: "i < 2 ^ 63 \<Longrightarrow> nat (sint (word_of_nat i :: u64)) = i"
  by (simp add: sint_uint signed_take_bit_int_eq_self take_bit_nat_eq_self unsigned_of_nat flip: uint_nat)

section \<open>Indexes built by a scan\<close>

lemma visit_adds:
  "visit (\<lambda>x off f. (index_Add x (RecordOf off f), None)) x run = (foldl index_Add x (map (\<lambda>(i, f). RecordOf i f) run), None)"
  by (induction run arbitrary: x) auto

definition run_records :: "hashes \<Rightarrow> (bytes \<Rightarrow> bool) \<Rightarrow> ArchiveHeader \<Rightarrow> bytes \<Rightarrow> IndexRecord list" where
  "run_records H isNormal h bs = map (\<lambda>(i, f). RecordOf i f) (valid_run H isNormal h bs 64)"

lemma run_records_increasing:
  assumes "length bs < 2 ^ 63"
  shows "sorted_wrt (<) (map i_PhysicalOffset (run_records H isNormal h bs))"
proof -
  let ?run = "valid_run H isNormal h bs 64"
  have "(word_of_nat i :: u64) < word_of_nat j" if "i < j" "i < 2 ^ 63" "j < 2 ^ 63" for i j :: nat
    using that by (simp add: word_less_nat_alt unat_of_nat_u64)
  moreover have "\<forall>x \<in> set ?run. fst x < 2 ^ 63" using valid_run_offset(2)[OF _ assms] by fastforce
  ultimately have "sorted_wrt (\<lambda>x y. (word_of_nat (fst x) :: u64) < word_of_nat (fst y)) ?run"
    using valid_run_increasing[of H isNormal h bs 64]
    by (auto simp: sorted_wrt_map intro: sorted_wrt_mono_rel[of ?run "\<lambda>x y. fst x < fst y"])
  then show ?thesis by (simp add: run_records_def sorted_wrt_map RecordOf_def split_beta comp_def)
qed

text \<open>A reference to a frame of the blob with this hash that the caller accepts.\<close>

definition resolves :: "hashes \<Rightarrow> (bytes \<Rightarrow> bool) \<Rightarrow> ArchiveHeader \<Rightarrow> bytes \<Rightarrow> bytes \<Rightarrow> (Ref \<Rightarrow> bool) option \<Rightarrow> Ref \<Rightarrow> bool" where
  "resolves H isNormal h bs hash accept ref \<longleftrightarrow> (\<exists>off f fsz. frame_at H isNormal h bs off = Some (f, fsz) \<and>
     ref = \<lparr> ref_Frame = f, ref_Offset = int off, ref_Bytes = seg bs off (off + fsz) \<rparr> \<and> m_HashPayload (f_Trailer f) = hash \<and>
     (case accept of None \<Rightarrow> True | Some a \<Rightarrow> a ref))"

context random_reader
begin

lemma index_Build_ok:
  assumes "wf_header h" "\<not> bad" "length bs < 2 ^ 63" "64 \<le> length bs"
  obtains res x where "index_Build H isNormal rd (length bs) h ordinal = (res, Inr x)"
    "wf_index x" "\<And>k. index_Lookup x k = filter (\<lambda>r. i_FrameHash r = k) (run_records H isNormal h bs)"
    "all_recs x = mset (run_records H isNormal h bs)" "ix_pending x = []"
proof -
  let ?fn = "\<lambda>x off f. (index_Add x (RecordOf off f), None :: error option)"
  let ?x = "foldl index_Add (index_New h ordinal) (run_records H isNormal h bs)"
  obtain res x err where s: "scan H isNormal rd h 64 (length bs) ?fn (index_New h ordinal) = (res, x, err)" by (metis prod_cases3)
  have "(x, err) = (?x, None)"
    using scan_ok[OF assms(1,4) s] assms(2) by (simp add: visit_adds run_records_def)
  then have b: "index_Build H isNormal rd (length bs) h ordinal = (res, Inr (index_merge ?x))"
    using s by (simp add: index_Build_def Scan_def)
  have wf: "wf_index ?x" using index_map.inv_adds[OF index_map.inv_empty] .
  have l: "index_Lookup ?x k = filter (\<lambda>r. i_FrameHash r = k) (run_records H isNormal h bs)" for k
    using index_map.lookup_built[OF run_records_increasing[OF assms(3)]] .
  have "distinct (map i_PhysicalOffset (run_records H isNormal h bs))" using run_records_increasing[OF assms(3)] by (simp add: strict_sorted_iff)
  then have "distinct (map i_PhysicalOffset (index_Lookup ?x k))" for k by (simp add: l distinct_map inj_on_def)
  then have m: "index_Lookup (index_merge ?x) k = filter (\<lambda>r. i_FrameHash r = k) (run_records H isNormal h bs)" for k
    using index_merge_Lookup[OF wf] l by simp
  have a: "all_recs (foldl index_Add y rs) = all_recs y + mset rs" if "wf_index y" for y rs
    using that by (induction rs arbitrary: y) (simp_all add: index_Add_ok)
  have "sorted (map rec_key (ix_recs ?x))" using wf by (simp add: wf_index_def)
  note M = index_merge_ok[OF this]
  have "all_recs (index_New h ordinal) = {#}" by (simp add: all_recs_def index_New_def)
  then have "all_recs (index_merge ?x) = mset (run_records H isNormal h bs)" using M(2) a[OF index_map.inv_empty] by simp
  then show ?thesis using that[OF b M(1) m] by (simp add: index_merge_def)
qed

lemma ReadFrame_Inr:
  assumes "ReadFrame H isNormal rd (length bs) h off = Inr ref" "wf_header h"
  shows "\<exists>f fsz. frame_at H isNormal h bs off = Some (f, fsz) \<and> ref = \<lparr> ref_Frame = f, ref_Offset = int off, ref_Bytes = seg bs off (off + fsz) \<rparr>"
proof -
  have "64 \<le> off" "OnFrameGrid (word_of_nat off)"
    using assms(1) by (auto simp: ReadFrame_def frameSizeAt_def split: if_splits sum.splits)
  from ReadFrame_ok[OF assms(2) this, of H isNormal] assms(1) show ?thesis by (auto split: option.splits)
qed

lemma resolvesI:
  assumes "ReadFrame H isNormal rd (length bs) h off = Inr ref" "wf_header h" "m_HashPayload (f_Trailer (ref_Frame ref)) = hash"
    "case accept of None \<Rightarrow> True | Some a \<Rightarrow> a ref"
  shows "resolves H isNormal h bs hash accept ref"
proof -
  obtain f fsz where r: "frame_at H isNormal h bs off = Some (f, fsz)" "ref = \<lparr> ref_Frame = f, ref_Offset = int off, ref_Bytes = seg bs off (off + fsz) \<rparr>"
    using ReadFrame_Inr[OF assms(1,2)] by blast
  then have "m_HashPayload (f_Trailer f) = hash" using assms(3) by simp
  then show ?thesis using r assms(4) unfolding resolves_def by blast
qed

lemma try_candidates_ok:
  assumes "wf_header h"
  shows "try_candidates H isNormal rd (length bs) h hash accept cs = Inr (Some ref) \<Longrightarrow> resolves H isNormal h bs hash accept ref"
proof (induction cs)
  case (Cons c cs)
  show ?case
  proof (cases "ReadFrame H isNormal rd (length bs) h (nat (sint (i_PhysicalOffset c)))")
    case (Inl e)
    then show ?thesis using Cons by (simp split: if_splits)
  next
    case (Inr ref')
    then show ?thesis using Cons resolvesI[OF Inr assms] by (auto simp: Let_def split: if_splits)
  qed
qed simp

lemma try_offsets_ok:
  assumes wf: "wf_header h" and offs: "\<forall>off \<in> set offs. 64 \<le> off \<and> OnFrameGrid (word_of_nat off) \<and>
      (\<exists>f fsz. frame_at H isNormal h bs off = Some (f, fsz) \<and> m_HashPayload (f_Trailer f) = hash)"
  shows "try_offsets H isNormal rd (length bs) h accept offs = Inr (Some ref) \<Longrightarrow> resolves H isNormal h bs hash accept ref"
    "try_offsets H isNormal rd (length bs) h accept offs = Inr None \<Longrightarrow> off \<in> set offs \<Longrightarrow> frame_at H isNormal h bs off = Some (f, fsz) \<Longrightarrow>
       \<exists>a. accept = Some a \<and> \<not> a \<lparr> ref_Frame = f, ref_Offset = int off, ref_Bytes = seg bs off (off + fsz) \<rparr>"
  using offs
proof (induction offs)
  case (Cons o' offs)
  { case 1
    show ?case
    proof (cases "ReadFrame H isNormal rd (length bs) h o'")
      case (Inl e)
      then show ?thesis using Cons 1 by (simp split: if_splits)
    next
      case (Inr ref')
      then show ?thesis using Cons 1 ReadFrame_Inr[OF Inr wf] by (fastforce simp: resolves_def split: if_splits)
    qed
  next
    case 2
    then have o': "64 \<le> o'" "OnFrameGrid (word_of_nat o')" "frame_at H isNormal h bs o' \<noteq> None" by auto
    note R = ReadFrame_ok[OF wf o'(1,2), of H isNormal]
    show ?case
    proof (cases "ReadFrame H isNormal rd (length bs) h o'")
      case (Inl e)
      then have "\<not> IsFormatError e" using R o'(3) by (auto simp: io_failure_def)
      then show ?thesis using 2 Inl by simp
    next
      case (Inr ref')
      then show ?thesis using Cons 2 ReadFrame_Inr[OF Inr wf] by (auto split: if_splits option.splits)
    qed
  }
qed simp_all

end


lemma visit_found:
  "visit (\<lambda>found off f. (if m_HashPayload (f_Trailer f) = hash then found @ [off] else found, None)) acc run =
    (acc @ map fst (filter (\<lambda>(i, f). m_HashPayload (f_Trailer f) = hash) run), None)"
  by (induction run arbitrary: acc) auto

section \<open>Properties of the index\<close>

text \<open>C7: Whatever records the index holds, right, wrong or missing, \<^verbatim>\<open>Find\<close> returns only a reference to a frame that validates
  completely where it was read, has the requested hash and is accepted by the caller; and when it reports that there is no
  such frame, no frame of the valid run with that hash is accepted. I/O errors end it with an error.\<close>

theorem Find_sound_and_complete:
  assumes "wf_header h" "64 \<le> file_Size c f" "file_Size c f < 2 ^ 63"
    "index_Find H isNormal (file_reader rfault c f) (file_Size c f) h x hash accept = Inr (found, how)"
  shows "case found of
      Some ref \<Rightarrow> how \<noteq> NotFound \<and> resolves H isNormal h (file_bytes c f) hash accept ref
    | None \<Rightarrow> how = NotFound \<and> (\<forall>off fr fsz. (off, fr) \<in> set (valid_run H isNormal h (file_bytes c f) 64) \<longrightarrow>
        m_HashPayload (f_Trailer fr) = hash \<longrightarrow> frame_at H isNormal h (file_bytes c f) off = Some (fr, fsz) \<longrightarrow>
        (\<exists>a. accept = Some a \<and> \<not> a \<lparr> ref_Frame = fr, ref_Offset = int off, ref_Bytes = seg (file_bytes c f) off (off + fsz) \<rparr>))"
proof -
  let ?bs = "file_bytes c f" and ?rd = "file_reader rfault c f"
  let ?fn = "\<lambda>found off f. (if m_HashPayload (f_Trailer f) = hash then found @ [off] else found, None :: error option)"
  let ?offs = "map fst (filter (\<lambda>(i, f). m_HashPayload (f_Trailer f) = hash) (valid_run H isNormal h ?bs 64))"
  note F = assms(4)[unfolded index_Find_def file_Size_bytes]
  obtain r where r: "try_candidates H isNormal ?rd (length ?bs) h hash accept (index_Lookup x hash) = Inr r"
    using F by (auto split: sum.splits)
  show ?thesis
  proof (cases r)
    case (Some ref)
    then show ?thesis using F r blob_file.try_candidates_ok[OF assms(1) r[unfolded Some]] by auto
  next
    case None
    obtain res acc err where s: "scan H isNormal ?rd h 64 (length ?bs) ?fn [] = (res, acc, err)" by (rule prod_cases3)
    have err: "err = None" using F r None s by (auto simp: Scan_def split: option.splits)
    then have acc: "acc = ?offs"
      using blob_file.scan_ok[OF assms(1) assms(2)[unfolded file_Size_bytes] s] by (auto simp: visit_found)
    have F2: "(case try_offsets H isNormal ?rd (length ?bs) h accept ?offs of
             Inl e \<Rightarrow> Inl e
           | Inr (Some ref) \<Rightarrow> Inr (Some ref, ViaScan)
           | Inr None \<Rightarrow> Inr (None, NotFound)) = Inr (found, how)"
      using F r None s err acc by (simp add: Scan_def)
    have offs: "\<forall>off \<in> set ?offs. 64 \<le> off \<and> OnFrameGrid (word_of_nat off) \<and>
        (\<exists>f fsz. frame_at H isNormal h ?bs off = Some (f, fsz) \<and> m_HashPayload (f_Trailer f) = hash)"
      using valid_run_offset[OF _ assms(3)[unfolded file_Size_bytes]] by fastforce
    note O = blob_file.try_offsets_ok[OF assms(1) offs, of rfault accept]
    show ?thesis
    proof (cases "try_offsets H isNormal ?rd (length ?bs) h accept ?offs")
      case (Inl e)
      then show ?thesis using F2 by simp
    next
      case (Inr t)
      show ?thesis
      proof (cases t)
        case (Some ref)
        then show ?thesis using F2 Inr O(1)[of ref] by auto
      next
        case None
        then have "found = None \<and> how = NotFound" using F2 Inr by auto
        then show ?thesis using O(2)[OF Inr[unfolded None]] by force
      qed
    qed
  qed
qed

text \<open>C35: An index built by scanning a blob on a reliable device holds exactly the records of the frames of the valid run, sorted
  by hash and offset, and a lookup returns exactly the records of the frames with that hash, in the order of their offsets.\<close>

theorem Build_indexes_valid_run:
  assumes "wf_header h" "\<not> unreliable rfault f" "64 \<le> file_Size c f" "file_Size c f < 2 ^ 63"
  shows "\<exists>res x. index_Build H isNormal (file_reader rfault c f) (file_Size c f) h ordinal = (res, Inr x) \<and>
    sorted (map rec_key (ix_recs x)) \<and> ix_pending x = [] \<and> mset (ix_recs x) = mset (run_records H isNormal h (file_bytes c f)) \<and>
    (\<forall>k. index_Lookup x k = filter (\<lambda>r. i_FrameHash r = k) (run_records H isNormal h (file_bytes c f)))"
proof -
  obtain res x where "index_Build H isNormal (file_reader rfault c f) (length (file_bytes c f)) h ordinal = (res, Inr x)" "wf_index x"
    "\<And>k. index_Lookup x k = filter (\<lambda>r. i_FrameHash r = k) (run_records H isNormal h (file_bytes c f))"
    "all_recs x = mset (run_records H isNormal h (file_bytes c f))" "ix_pending x = []"
    using blob_file.index_Build_ok[OF assms(1,2), of c H isNormal ordinal] assms(3,4) unfolding file_Size_bytes by blast
  then show ?thesis by (intro exI[of _ res] exI[of _ x]) (simp add: file_Size_bytes wf_index_def all_recs_def)
qed

text \<open>C36: Adding a record to an index keeps it sorted and its buffer below the merge limit, and a lookup then returns exactly
  what it returned before and the new record, if it has that hash, in the order of offsets; so batching the merges is
  invisible.\<close>

theorem Add_then_Lookup:
  assumes "wf_index x"
  shows "wf_index (index_Add x r) \<and> sorted (map i_PhysicalOffset (index_Lookup (index_Add x r) k)) \<and>
    mset (index_Lookup (index_Add x r) k) = mset (index_Lookup x k) + (if i_FrameHash r = k then {#r#} else {#})"
  using index_map.inv_add[OF assms] index_map.lookup_add[OF assms] index_map.lookup_ranked by blast


section \<open>Witnesses\<close>

definition sample_rec :: "u64 \<Rightarrow> IndexRecord" where
  "sample_rec off = \<lparr> i_FrameHash = replicate 32 5, i_PhysicalOffset = off, i_FrameQuanta = 1, i_BlockType = 0, i_FrameOrdinal = 4 \<rparr>"

theorem Add_then_Lookup_witness:
  "mset (index_Lookup (index_Add (index_New sample_header 0) (sample_rec 64)) (replicate 32 5)) = {#sample_rec 64#}"
  using Add_then_Lookup[OF index_map.inv_empty[of sample_header 0], of "sample_rec 64" "replicate 32 5"]
    index_map.lookup_empty[of sample_header 0] by (simp add: sample_rec_def)

theorem Build_indexes_valid_run_witness:
  "\<exists>c res x f. file_Size c sample_file = 4160 \<and>
     index_Build sample_hashes (\<lambda>_. True) (file_reader (\<lambda>_ _. False) c sample_file) (file_Size c sample_file) sample_header 0 = (res, Inr x) \<and>
     f_Payload f = [1, 2, 3] \<and> index_Lookup x (m_HashPayload (f_Trailer f)) = [RecordOf 64 f]"
proof -
  obtain c fr f where c: "file_bytes c sample_file = replicate 64 0 @ fr" "length fr = 4096" "f_Payload f = [1, 2, 3]"
    "frame_at sample_hashes (\<lambda>_. True) sample_header (file_bytes c sample_file) 64 = Some (f, 4096)" by (rule sample_blob)
  have sz: "file_Size c sample_file = 4160" using c by (simp add: file_Size_bytes)
  have rel: "\<not> unreliable (\<lambda>_ _. False) sample_file" by (simp add: unreliable_def sample_file_def)
  have "run_records sample_hashes (\<lambda>_. True) sample_header (file_bytes c sample_file) = [RecordOf 64 f]"
    using valid_run_single(1)[OF c(4)] sz by (simp add: run_records_def file_Size_bytes)
  moreover have "i_FrameHash (RecordOf 64 f) = m_HashPayload (f_Trailer f)" by (simp add: RecordOf_def)
  ultimately show ?thesis
    using Build_indexes_valid_run[OF wf_sample_header rel, of c sample_hashes "\<lambda>_. True" 0] sz c(3)
    by (intro exI[of _ c]) fastforce
qed

lemma sample_find_scan:
  obtains c and f :: Frame where "file_Size c sample_file = 4160" "f_Payload f = [1, 2, 3]"
    "index_Find sample_hashes (\<lambda>_. True) (file_reader (\<lambda>_ _. False) c sample_file) (file_Size c sample_file) sample_header
       (index_New sample_header 0) (m_HashPayload (f_Trailer f)) None =
     Inr (Some \<lparr> ref_Frame = f, ref_Offset = 64, ref_Bytes = seg (file_bytes c sample_file) 64 4160 \<rparr>, ViaScan)"
proof -
  obtain c fr f where c: "file_bytes c sample_file = replicate 64 0 @ fr" "length fr = 4096" "f_Payload f = [1, 2, 3]"
    "frame_at sample_hashes (\<lambda>_. True) sample_header (file_bytes c sample_file) 64 = Some (f, 4096)" by (rule sample_blob)
  have sz: "file_Size c sample_file = 4160" using c by (simp add: file_Size_bytes)
  have rel: "\<not> unreliable (\<lambda>_ _. False) sample_file" by (simp add: unreliable_def sample_file_def)
  have run: "valid_run sample_hashes (\<lambda>_. True) sample_header (file_bytes c sample_file) 64 = [(64, f)]"
    using valid_run_single(1)[OF c(4)] sz by (simp add: file_Size_bytes)
  let ?hash = "m_HashPayload (f_Trailer f)" and ?rd = "file_reader (\<lambda>_ _. False) c sample_file"
  let ?fn = "\<lambda>found off f. (if m_HashPayload (f_Trailer f) = ?hash then found @ [off] else found, None :: error option)"
  obtain res acc err where s: "scan sample_hashes (\<lambda>_. True) ?rd sample_header 64 (file_Size c sample_file) ?fn [] = (res, acc, err)"
    by (rule prod_cases3)
  have a: "acc = [64] \<and> err = None"
    using file_scan_ok(1)[OF wf_sample_header _ rel s] sz by (simp add: run visit_found)
  have "OnFrameGrid (word_of_nat 64)" by (simp add: OnFrameGrid_def)
  then have r: "ReadFrame sample_hashes (\<lambda>_. True) ?rd (file_Size c sample_file) sample_header 64 =
      Inr \<lparr> ref_Frame = f, ref_Offset = 64, ref_Bytes = seg (file_bytes c sample_file) 64 4160 \<rparr>"
    using blob_file.ReadFrame_ok[OF wf_sample_header, of 64 sample_hashes "\<lambda>_. True" "\<lambda>_ _. False" c sample_file] rel c(4)
    by (simp add: file_Size_bytes)
  have "index_Lookup (index_New sample_header 0) ?hash = []" using index_map.lookup_empty .
  then show ?thesis using that[OF sz c(3)] s a r by (simp add: index_Find_def Scan_def)
qed

theorem Find_sound_and_complete_witness:
  "\<exists>c (f :: Frame) ref. f_Payload f = [1, 2, 3] \<and> index_Find sample_hashes (\<lambda>_. True) (file_reader (\<lambda>_ _. False) c sample_file) (file_Size c sample_file)
     sample_header (index_New sample_header 0) (m_HashPayload (f_Trailer f)) None = Inr (Some ref, ViaScan) \<and>
     resolves sample_hashes (\<lambda>_. True) sample_header (file_bytes c sample_file) (m_HashPayload (f_Trailer f)) None ref"
proof -
  obtain c f where f: "file_Size c sample_file = 4160" "f_Payload f = [1, 2, 3]"
    "index_Find sample_hashes (\<lambda>_. True) (file_reader (\<lambda>_ _. False) c sample_file) (file_Size c sample_file) sample_header
       (index_New sample_header 0) (m_HashPayload (f_Trailer f)) None =
     Inr (Some \<lparr> ref_Frame = f, ref_Offset = 64, ref_Bytes = seg (file_bytes c sample_file) 64 4160 \<rparr>, ViaScan)"
    by (rule sample_find_scan)
  show ?thesis using Find_sound_and_complete[OF wf_sample_header _ _ f(3)] f
    by (intro exI[of _ c] exI[of _ f] exI[of _ "\<lparr> ref_Frame = f, ref_Offset = 64, ref_Bytes = seg (file_bytes c sample_file) 64 4160 \<rparr>"]) simp
qed

end
