(* ===== verification/Index_Store.thy ===== *)
theory Index_Store
  imports Index
begin

text \<open>
  The stored form of the index: what \<^verbatim>\<open>Load\<close> guarantees about an index it accepts, and that it reads back what \<^verbatim>\<open>Write\<close>
  stored. The definitions are in \<open>Index\<close>.
\<close>

section \<open>What a loaded index satisfies\<close>

text \<open>The end of a record as the code computes it, modulo \<open>2 ^ 64\<close>.\<close>

definition rec_end :: "IndexRecord \<Rightarrow> u64" where
  "rec_end r = i_PhysicalOffset r + FrameSize (i_FrameQuanta r)"

definition loaded_ok :: "ArchiveHeader \<Rightarrow> nat \<Rightarrow> IndexRecord list \<Rightarrow> bool" where
  "loaded_ok h blobSize rs \<longleftrightarrow> (\<forall>r \<in> set rs. wf_indexrecord h r \<and> unat (rec_end r) \<le> blobSize) \<and> sorted_wrt (<) (map rec_key rs)"

lemma loaded_ok_snoc:
  assumes "loaded_ok h B rs" "wf_indexrecord h r" "unat (rec_end r) \<le> B"
    "\<not> (length rs > 0 \<and> less_rec (rs ! (length rs - 1)) r \<ge> 0)"
  shows "loaded_ok h B (rs @ [r])"
proof (cases "rs = []")
  case True
  then show ?thesis using assms by (simp add: loaded_ok_def)
next
  case False
  then have l: "rec_key (last rs) < rec_key r" using assms(4) by (simp add: less_rec_ge last_conv_nth not_le)
  have s: "sorted (map rec_key rs)" using assms(1) by (simp add: loaded_ok_def strict_sorted_iff)
  have "rec_key x \<le> rec_key (last rs)" if m: "x \<in> set rs" for x
  proof -
    obtain i where i: "i < length rs" "x = rs ! i" using m by (auto simp: in_set_conv_nth)
    then show ?thesis using sorted_nth_mono[OF s, of i "length rs - 1"] False by (simp add: last_conv_nth)
  qed
  then show ?thesis using assms l by (auto simp: loaded_ok_def sorted_wrt_append intro: le_less_trans)
qed

lemma load_buf_ok:
  assumes "load_buf n h B b x = Inr x'" "loaded_ok h B (ix_recs x)"
  shows "loaded_ok h B (ix_recs x') \<and> ix_pending x' = ix_pending x \<and> ix_h x' = ix_h x"
  using assms
proof (induction n h B b x rule: load_buf.induct)
  case (2 n h B b x)
  obtain r where r: "DecodeIndexRecord (take 64 b) h = Inr r" "unat (rec_end r) \<le> B"
    "\<not> (length (ix_recs x) > 0 \<and> less_rec (ix_recs x ! (length (ix_recs x) - 1)) r \<ge> 0)"
    using 2(2) by (auto simp: Let_def discard_def rec_end_def not_less split: sum.splits if_splits)
  have wf: "wf_indexrecord h r" using DecodeIndexRecord_Inr[OF r(1)] by simp
  show ?case
    using 2(1)[OF r(1) refl refl] 2(2) r loaded_ok_snoc[OF 2(3) wf r(2,3)]
    by (simp add: Let_def rec_end_def not_less discard_def split: if_splits)
qed simp

lemma load_loop_ok:
  assumes "load_loop rd h B sz off x = Inr x'" "loaded_ok h B (ix_recs x)"
  shows "loaded_ok h B (ix_recs x') \<and> ix_pending x' = ix_pending x \<and> ix_h x' = ix_h x"
  using assms
proof (induction rd h B sz off x rule: load_loop.induct)
  case (1 rd h B sz off x)
  show ?case
  proof (cases "off < sz")
    case True
    let ?n = "min 1048576 (sz - off)"
    obtain b x1 where b: "rd off ?n = (b, None)" "load_buf (?n div 64) h B b x = Inr x1" "load_loop rd h B sz (off + ?n) x1 = Inr x'"
      using 1(2) True by (auto simp: load_loop.simps[of rd h B sz off x] Let_def split: prod.splits option.splits sum.splits)
    note L = load_buf_ok[OF b(2) 1(3)]
    then show ?thesis using 1(1)[OF True refl b(1)[symmetric] refl b(2) b(3)] by simp
  qed (use 1(2,3) in \<open>simp add: load_loop.simps[of rd h B sz off x]\<close>)
qed

lemma adjacent_distinct:
  assumes "sorted xs" "\<not> (\<exists>i \<in> {1..<length xs}. xs ! i = xs ! (i - 1))"
  shows "distinct (xs :: u64 list)"
proof (rule ccontr)
  assume "\<not> distinct xs"
  then obtain i j where ij: "i < j" "j < length xs" "xs ! i = xs ! j" by (metis distinct_conv_nth linorder_neqE_nat)
  then have "xs ! (j - 1) = xs ! j" using sorted_nth_mono[OF assms(1), of i "j - 1"] sorted_nth_mono[OF assms(1), of "j - 1" j] by auto
  then show False using assms(2) ij by (metis One_nat_def atLeastLessThan_iff gr_implies_not0 less_one not_le)
qed

lemma load_file_ok:
  assumes "load_file rd sz h ordinal B = Inr x"
  shows "loaded_ok h B (ix_recs x) \<and> distinct (map i_PhysicalOffset (ix_recs x)) \<and> ix_pending x = [] \<and> ix_h x = h"
proof -
  have n: "loaded_ok h B (ix_recs (index_New h ordinal))" by (simp add: loaded_ok_def index_New_def)
  have l: "load_loop rd h B sz 64 (index_New h ordinal) = Inr x"
    and d: "\<not> (\<exists>i \<in> {1..<length (sort (map i_PhysicalOffset (ix_recs x)))}.
       sort (map i_PhysicalOffset (ix_recs x)) ! i = sort (map i_PhysicalOffset (ix_recs x)) ! (i - 1))"
    using assms by (auto simp: load_file_def Let_def discard_def split: if_splits sum.splits prod.splits option.splits)
  have "distinct (sort (map i_PhysicalOffset (ix_recs x)))" using d by (intro adjacent_distinct) simp
  then show ?thesis using load_loop_ok[OF l n] by (simp add: index_New_def)
qed


section \<open>Write and Load\<close>

text \<open>The records of an index that a blob of this size can have: on the grid, in the blob, without wrap-around.\<close>

definition storable :: "ArchiveHeader \<Rightarrow> nat \<Rightarrow> IndexRecord list \<Rightarrow> bool" where
  "storable h blobSize rs \<longleftrightarrow> (\<forall>r \<in> set rs. wf_indexrecord h r \<and> unat (i_PhysicalOffset r) + unat (i_FrameQuanta r) * 4096 \<le> blobSize) \<and>
     sorted_wrt (<) (map rec_key rs) \<and> distinct (map i_PhysicalOffset rs) \<and> blobSize < 2 ^ 63"

lemma storable_end: "storable h B rs \<Longrightarrow> r \<in> set rs \<Longrightarrow> unat (rec_end r) \<le> B"
  by (auto simp: storable_def rec_end_def unat_add_u64)

text \<open>Distinct positions of the grid: there are no more records than the blob has quanta.\<close>

lemma storable_count:
  assumes "storable h B rs"
  shows "length rs \<le> (if B > 64 then (B - 64) div 4096 else 0)"
proof -
  have g: "\<exists>j. unat (i_PhysicalOffset r) = 64 + j * 4096 \<and> 64 + (j + 1) * 4096 \<le> B" if "r \<in> set rs" for r
  proof -
    have "wf_indexrecord h r" "unat (i_PhysicalOffset r) + unat (i_FrameQuanta r) * 4096 \<le> B" using assms that by (simp_all add: storable_def)
    then show ?thesis by (auto simp: wf_indexrecord_def OnFrameGrid_iff CheckFrameQuanta_Inr)
  qed
  let ?pos = "\<lambda>r. (unat (i_PhysicalOffset r) - 64) div 4096"
  have inj: "inj_on ?pos (set rs)"
  proof (rule inj_onI)
    fix r s assume rs: "r \<in> set rs" "s \<in> set rs" "?pos r = ?pos s"
    then have "unat (i_PhysicalOffset r) = unat (i_PhysicalOffset s)" using g[OF rs(1)] g[OF rs(2)] by auto
    then have "i_PhysicalOffset r = i_PhysicalOffset s" by (simp add: word_unat_eq_iff)
    then show "r = s" using assms rs by (auto simp: storable_def distinct_map inj_on_def)
  qed
  have "?pos ` set rs \<subseteq> {..<(if B > 64 then (B - 64) div 4096 else 0)}"
  proof (intro image_subsetI)
    fix r assume "r \<in> set rs"
    from g[OF this] obtain j where j: "unat (i_PhysicalOffset r) = 64 + j * 4096" "64 + (j + 1) * 4096 \<le> B" by blast
    then have "?pos r = j" "j + 1 \<le> (B - 64) div 4096" "64 < B" by simp_all
    then show "?pos r \<in> {..<(if B > 64 then (B - 64) div 4096 else 0)}" by simp
  qed
  from card_inj_on_le[OF inj this] have "card (set rs) \<le> (if B > 64 then (B - 64) div 4096 else 0)" by simp
  moreover have "distinct rs" using assms by (auto simp: storable_def distinct_map)
  ultimately show ?thesis by (simp add: distinct_card)
qed

text \<open>What \<^verbatim>\<open>Load\<close> accepts: the end of a record is compared after it was reduced modulo \<open>2 ^ 64\<close>.\<close>

definition acceptable :: "ArchiveHeader \<Rightarrow> nat \<Rightarrow> IndexRecord list \<Rightarrow> bool" where
  "acceptable h blobSize rs \<longleftrightarrow> loaded_ok h blobSize rs \<and> distinct (map i_PhysicalOffset rs) \<and> blobSize < 2 ^ 63 \<and>
     length rs \<le> (if blobSize > 64 then (blobSize - 64) div 4096 else 0)"

lemma storable_acceptable: "storable h B rs \<Longrightarrow> acceptable h B rs"
  using storable_end[of h B rs] storable_count[of h B rs] unfolding acceptable_def loaded_ok_def by (simp add: storable_def)

definition add_loaded :: "Index \<Rightarrow> IndexRecord list \<Rightarrow> Index" where
  "add_loaded x rs = x\<lparr> ix_recs := ix_recs x @ rs, ix_end := foldl (\<lambda>e r. max e (sint (rec_end r))) (ix_end x) rs \<rparr>"

lemma add_loaded_simps [simp]: "add_loaded x [] = x" "add_loaded (add_loaded x rs) rs' = add_loaded x (rs @ rs')"
  "ix_recs (add_loaded x rs) = ix_recs x @ rs" "ix_pending (add_loaded x rs) = ix_pending x"
  by (simp_all add: add_loaded_def)

lemma load_buf_image:
  assumes "\<forall>r \<in> set rs. wf_indexrecord h r \<and> unat (rec_end r) \<le> B" "sorted_wrt (<) (map rec_key (ix_recs x @ rs))"
  shows "load_buf (length rs) h B (concat (map IndexRecord_image rs)) x = Inr (add_loaded x rs)"
  using assms
proof (induction rs arbitrary: x)
  case (Cons r rs)
  have "length (i_FrameHash r) = 32" using Cons.prems(1) by (simp add: wf_indexrecord_def)
  then have d: "DecodeIndexRecord (take 64 (concat (map IndexRecord_image (r # rs)))) h = Inr r"
    "drop 64 (concat (map IndexRecord_image (r # rs))) = concat (map IndexRecord_image rs)"
    using Cons.prems(1) DecodeIndexRecord_image[of h r] by simp_all
  have "\<not> (length (ix_recs x) > 0 \<and> less_rec (ix_recs x ! (length (ix_recs x) - 1)) r \<ge> 0)"
  proof (cases "ix_recs x = []")
    case False
    then have "ix_recs x ! (length (ix_recs x) - 1) \<in> set (ix_recs x)" by simp
    then have "rec_key (ix_recs x ! (length (ix_recs x) - 1)) < rec_key r" using Cons.prems(2) by (simp add: sorted_wrt_append)
    then show ?thesis by (simp add: less_rec_ge not_le)
  qed simp
  moreover have "load_buf (length rs) h B (concat (map IndexRecord_image rs)) (add_loaded x [r]) = Inr (add_loaded (add_loaded x [r]) rs)"
    using Cons by (intro Cons.IH) simp_all
  ultimately show ?case using d Cons.prems(1)
    by (auto simp: Let_def rec_end_def[symmetric] add_loaded_def not_less)
qed simp

context random_reader
begin

lemma load_loop_image:
  assumes st: "acceptable h B recs" and bs: "bs = hb @ concat (map IndexRecord_image recs)" "length hb = 64" and ok: "\<not> bad"
    and x: "ix_recs x = take k recs" and k: "k \<le> length recs"
  shows "load_loop rd h B (length bs) (64 + 64 * k) x = Inr (add_loaded x (drop k recs))"
  using x k
proof (induction "length recs - k" arbitrary: k x rule: less_induct)
  case less
  have il: "length (IndexRecord_image r) = 64" if "r \<in> set recs" for r using st that by (simp add: acceptable_def loaded_ok_def wf_indexrecord_def)
  have cl: "length (concat (map IndexRecord_image rs)) = 64 * length rs" if "set rs \<subseteq> set recs" for rs
    using that il by (induction rs) auto
  have len: "length bs = 64 + 64 * length recs" using bs cl[of recs] by simp
  show ?case
  proof (cases "k = length recs")
    case True
    then show ?thesis using len by (simp add: load_loop.simps)
  next
    case False
    define m where "m = min 16384 (length recs - k)"
    let ?n = "64 * m" and ?rs = "take m (drop k recs)"
    have m: "0 < m" "k + m \<le> length recs" using False less(3) by (simp_all add: m_def)
    have n: "min 1048576 (length bs - (64 + 64 * k)) = ?n" using len less(3) by (auto simp: m_def min_def)
    have split: "concat (map IndexRecord_image recs) = concat (map IndexRecord_image (take k recs)) @ concat (map IndexRecord_image ?rs) @
        concat (map IndexRecord_image (drop (k + m) recs))"
      by (metis append_take_drop_id concat_append drop_drop map_append add.commute)
    have seg: "seg bs (64 + 64 * k) (64 + 64 * k + ?n) = concat (map IndexRecord_image ?rs)"
      unfolding bs(1) split seg_def using bs(2) cl[of "take k recs"] cl[of ?rs] less(3) m
      by (simp add: set_take_subset set_drop_subset order_trans[OF set_take_subset] min_absorb2)
    have rd: "rd (64 + 64 * k) ?n = (concat (map IndexRecord_image ?rs), None)"
      using read_at[of ?n "64 + 64 * k"] m len ok seg by auto
    have "take k recs @ ?rs = take (k + m) recs" by (simp add: take_add)
    then have "load_buf (length ?rs) h B (concat (map IndexRecord_image ?rs)) x = Inr (add_loaded x ?rs)"
      using st less(2) order_trans[OF set_take_subset set_drop_subset, of m k recs]
      by (intro load_buf_image) (auto simp: acceptable_def loaded_ok_def take_map sorted_wrt_take simp flip: take_map)
    moreover have "length ?rs = ?n div 64" using m by simp
    ultimately have step: "load_loop rd h B (length bs) (64 + 64 * k) x = load_loop rd h B (length bs) (64 + 64 * (k + m)) (add_loaded x ?rs)"
      using rd n m len by (subst load_loop.simps) (simp add: algebra_simps)
    have "load_loop rd h B (length bs) (64 + 64 * (k + m)) (add_loaded x ?rs) = Inr (add_loaded (add_loaded x ?rs) (drop (k + m) recs))"
      using less(2) m by (intro less(1)) (simp_all add: take_add)
    moreover have "?rs @ drop (k + m) recs = drop k recs" by (metis append_take_drop_id drop_drop add.commute)
    ultimately show ?thesis using step by simp
  qed
qed

end


lemma record_chunks_ok: "\<forall>r \<in> set rs. wf_indexrecord h r \<Longrightarrow> record_chunks rs = (map IndexRecord_image rs, None)"
  by (induction rs) (simp_all add: IndexRecord_AppendBinary_def wf_indexrecord_def)

lemma wf_index_header:
  assumes "wf_header (ix_h x)" "ix_ordinal x \<le> 0xFE"
  shows "wf_indexheader (index_header x)"
  using assms wf_header_bounds(3)[OF assms(1)] by (simp add: wf_indexheader_def index_header_def wf_header_def)

lemma index_chunks_ok:
  assumes "wf_header (ix_h x)" "ix_ordinal x \<le> 0xFE" "\<forall>r \<in> set (ix_recs x). wf_indexrecord (ix_h x) r"
  shows "index_chunks x = (IndexHeader_image (index_header x) # map IndexRecord_image (ix_recs x), None)"
  using wf_index_header[OF assms(1,2)] record_chunks_ok[OF assms(3)]
  by (simp add: index_chunks_def IndexHeader_AppendBinary_def wf_indexheader_def not_less)

lemma Mul64_small: "unat a * unat b < 2 ^ 64 \<Longrightarrow> \<exists>c. Mul64 a b = Inr c \<and> unat c = unat a * unat b"
  using Mul64_Inr[of a b "a * b"] unat_mult_u64[of a b] by auto

lemma Add64_small: "unat a + unat b < 2 ^ 64 \<Longrightarrow> \<exists>c. Add64 a b = Inr c \<and> unat c = unat a + unat b"
  using Add64_Inr[of a b "a + b"] unat_add_u64[of a b] by auto


context random_reader
begin

lemma load_file_image:
  assumes st: "acceptable h B (ix_recs x)" and wf: "wf_header h" "ix_ordinal x \<le> 0xFE" and h: "ix_h x = h" and ok: "\<not> bad"
    and bs: "bs = IndexHeader_image (index_header x) @ concat (map IndexRecord_image (ix_recs x))"
  shows "load_file rd (length bs) h (ix_ordinal x) B = Inr (add_loaded (index_New h (ix_ordinal x)) (ix_recs x))"
proof -
  let ?hdr = "index_header x" and ?n = "length (ix_recs x)"
  have wh: "wf_indexheader ?hdr" using wf_index_header wf h by blast
  then have hl: "length (IndexHeader_image ?hdr) = 64" by (simp add: wf_indexheader_def)
  have "length (IndexRecord_image r) = 64" if "r \<in> set (ix_recs x)" for r using st that by (simp add: acceptable_def loaded_ok_def wf_indexrecord_def)
  then have "length (concat (map IndexRecord_image rs)) = 64 * length rs" if "set rs \<subseteq> set (ix_recs x)" for rs
    using that by (induction rs) auto
  then have len: "length bs = 64 + 64 * ?n" using bs hl by simp
  have B: "B < 2 ^ 63" using st by (simp add: acceptable_def)
  have cnt: "?n \<le> (if B > 64 then (B - 64) div 4096 else 0)" using st by (simp add: acceptable_def)
  then have small: "?n < 2 ^ 56" using B by (auto split: if_splits)
  have rc: "unat (x_RecordCount ?hdr) = ?n" using small by (simp add: index_header_def unat_of_nat_u64)
  obtain body where body: "Mul64 (x_RecordCount ?hdr) 64 = Inr body" "unat body = ?n * 64"
    using Mul64_small[of "x_RecordCount ?hdr" 64] small rc by auto
  obtain want where want: "Add64 body 64 = Inr want" "unat want = ?n * 64 + 64"
    using Add64_small[of body 64] small body(2) by auto
  have "unat (word_of_nat (length bs) :: u64) = length bs" using len small by (intro unat_of_nat_u64) simp
  then have "want = word_of_nat (length bs)" using want(2) len by (metis add.commute mult.commute word_unat_eq_iff)
  moreover have "rd 0 64 = (IndexHeader_image ?hdr, None)"
    using read_at[of 64 0] ok len hl bs by (simp add: seg_def)
  moreover have "load_loop rd h B (length bs) (64 + 64 * 0) (index_New h (ix_ordinal x)) =
      Inr (add_loaded (index_New h (ix_ordinal x)) (drop 0 (ix_recs x)))"
    by (rule load_loop_image[OF st bs hl ok]) (simp_all add: index_New_def)
  moreover have "\<not> (\<exists>i \<in> {1..<length (sort (map i_PhysicalOffset (ix_recs x)))}.
       sort (map i_PhysicalOffset (ix_recs x)) ! i = sort (map i_PhysicalOffset (ix_recs x)) ! (i - 1))"
  proof -
    have "distinct (sort (map i_PhysicalOffset (ix_recs x)))" using st by (simp add: acceptable_def)
    then show ?thesis by (auto simp: nth_eq_iff_index_eq)
  qed
  moreover have "x_GenerationID ?hdr = h_GenerationID h" "x_ArchiveID ?hdr = h_ArchiveID h" "x_BlobOrdinal ?hdr = ix_ordinal x" "x_HashID ?hdr = h_HashID h"
    using h by (simp_all add: index_header_def)
  ultimately show ?thesis
    using body(1) want(1) DecodeIndexHeader_image[OF wh] cnt rc len
    by (simp add: load_file_def Let_def index_New_def not_less del: One_nat_def split: if_splits)
qed

end

section \<open>Properties of the stored index\<close>

text \<open>C37: An index that was written without an error is what \<^verbatim>\<open>Load\<close> returns, at once and after any power loss: the same records,
  sorted, with nothing pending; only the records must fit the blob, which every index of frames of that blob does.\<close>

theorem Write_then_Load:
  assumes "index_Write fault c x name = (x1, tr, c', None)" "good name c" "plain_name name"
    "wf_header (ix_h x)" "ix_ordinal x \<le> 0xFE" "storable (ix_h x) blobSize (ix_recs (index_merge x))"
    "c'' = c' \<or> c'' = Crash c' model rngs"
  shows "\<exists>y. index_Load (\<lambda>_. False) (\<lambda>_ _. False) c'' name (ix_h x) (ix_ordinal x) blobSize = Inr y \<and>
    ix_recs y = ix_recs (index_merge x) \<and> ix_pending y = [] \<and> x1 = index_merge x"
proof -
  let ?x = "index_merge x"
  have same: "ix_h ?x = ix_h x" "ix_ordinal ?x = ix_ordinal x" by (simp_all add: index_merge_def)
  define chunks where "chunks = IndexHeader_image (index_header ?x) # map IndexRecord_image (ix_recs ?x)"
  have "index_chunks ?x = (chunks, None)"
    unfolding chunks_def using assms(4-6) same by (intro index_chunks_ok) (simp_all add: storable_def)
  then have w: "ReplaceFileStream fault c name chunks None = (tr, c', None)" "x1 = ?x"
    using assms(1) by (simp_all add: index_Write_def Let_def)
  have g: "good name c'" "outcomes name c' = {Some (concat chunks)}" "dirs c' (dirOf name)"
    using ReplaceFileStream_guarantee[OF assms(2,3) w(1)] ReplaceFileStream_dirs[OF assms(2,3) w(1)] by auto
  have "content name c'' = Some (concat chunks)" "dirs c'' (dirOf name)"
    using assms(7) g Crash_guarantee(2)[OF g(1), of model rngs] Crash_guarantee(3)[OF g(1)] by (auto simp: outcomes_def Crash_def)
  then obtain i where i: "ns c'' name = Some i" "cur (inodes c'' ! i) = concat chunks" "dirs c'' (dirOf name)"
    by (auto simp: content_def)
  let ?f = "\<lparr> cf_in = i, cf_name = name, cf_writable = False, cf_closed = False \<rparr>"
  have o: "OpenFile c'' name \<lparr> O_CREATE = False, O_EXCL = False, O_TRUNC = False, O_WRITE = False \<rparr> = Inr (c'', ?f)"
    using i assms(3) by (simp add: OpenFile_def Let_def plain_name_def)
  have b: "file_bytes c'' ?f = IndexHeader_image (index_header ?x) @ concat (map IndexRecord_image (ix_recs ?x))"
    using i(2) by (simp add: file_bytes_def chunks_def)
  have "load_file (file_reader (\<lambda>_ _. False) c'' ?f) (length (file_bytes c'' ?f)) (ix_h x) (ix_ordinal ?x) blobSize =
      Inr (add_loaded (index_New (ix_h x) (ix_ordinal ?x)) (ix_recs ?x))"
    using assms(4,5) same b storable_acceptable[OF assms(6)] by (intro blob_file.load_file_image) (simp_all add: unreliable_def)
  then show ?thesis using o same w(2) by (simp add: index_Load_def attempt_def file_Size_bytes index_New_def)
qed

text \<open>An index that \<^verbatim>\<open>Load\<close> accepts from any file content has well-formed records in strictly increasing order, no offset twice,
  nothing pending, and the end of each record, as computed modulo \<open>2 ^ 64\<close>, within the blob.\<close>

lemma Load_validates:
  assumes "index_Load fault rfault c name h ordinal blobSize = Inr x"
  shows "loaded_ok h blobSize (ix_recs x) \<and> distinct (map i_PhysicalOffset (ix_recs x)) \<and> ix_pending x = [] \<and> wf_index x"
proof -
  obtain c1 f where "load_file (file_reader rfault c1 f) (file_Size c1 f) h ordinal blobSize = Inr x"
    using assms by (auto simp: index_Load_def discard_def split: sum.splits prod.splits if_splits)
  from load_file_ok[OF this] show ?thesis by (simp add: wf_index_def loaded_ok_def strict_sorted_iff)
qed


section \<open>Witnesses\<close>

definition index_fs :: CrashFS where
  "index_fs = NewCrashFS\<lparr> dirs := (\<lambda>d. d = ''.'' \<or> d = ''index'') \<rparr>"

lemma index_fs_ok: "good name index_fs" "dirs index_fs ''index''"
  by (simp_all add: good_def index_fs_def NewCrashFS_def)

lemma sample_index_name: "plain_name ''index/blob-00.idx''" "dirOf ''index/blob-00.idx'' = ''index''"
  using plain_name_two[of "''index''" "''blob-00.idx''"] two_part_names(3)[of "''index''" "''blob-00.idx''"]
  by (simp_all add: plain_part_def)

definition sample_index :: "u64 \<Rightarrow> Index" where
  "sample_index off = (index_New sample_header 0)\<lparr> ix_recs := [sample_rec off] \<rparr>"

lemma wf_sample_rec: "OnFrameGrid off \<Longrightarrow> wf_indexrecord sample_header (sample_rec off)"
  by (simp add: wf_indexrecord_def sample_rec_def CheckFrameQuanta_Inr sample_header_def BlockType_Valid_def)

lemma sample_index_simps: "ix_h (sample_index off) = sample_header" "ix_ordinal (sample_index off) = 0" "index_merge (sample_index off) = sample_index off"
  "ix_recs (sample_index off) = [sample_rec off]"
  by (simp_all add: sample_index_def index_New_def index_merge_def)

lemma sample_storable: "storable sample_header 4160 [sample_rec 64]"
  using wf_sample_rec[of 64] by (simp add: storable_def sample_rec_def OnFrameGrid_def)

lemma sample_written:
  obtains tr c' where "index_Write (\<lambda>_. False) index_fs (sample_index 64) ''index/blob-00.idx'' = (sample_index 64, tr, c', None)"
proof -
  have "wf_header (ix_h (sample_index 64))" "ix_ordinal (sample_index 64) \<le> 0xFE" using wf_sample_header by (simp_all add: sample_index_simps)
  moreover have "\<forall>r \<in> set (ix_recs (sample_index 64)). wf_indexrecord (ix_h (sample_index 64)) r"
    using sample_storable by (simp add: sample_index_simps storable_def)
  ultimately have "snd (index_chunks (sample_index 64)) = None" using index_chunks_ok by (metis snd_conv)
  then obtain cs where cs: "index_chunks (sample_index 64) = (cs, None)" by (metis prod.collapse)
  have "\<exists>tr c'. ReplaceFileStream (\<lambda>_. False) index_fs ''index/blob-00.idx'' cs None = (tr, c', None)"
    using ReplaceFileStream_succeeds[OF _ sample_index_name(1), of "\<lambda>_. False" index_fs cs] index_fs_ok(2) sample_index_name(2) by auto
  then show ?thesis using that cs by (auto simp: index_Write_def sample_index_simps)
qed


text \<open>A file system whose only file is an index.\<close>

definition index_file :: "bytes \<Rightarrow> CrashFS" where
  "index_file b = index_fs\<lparr> inodes := [\<lparr> cur = b, dur = b \<rparr>], ns := [''index/blob-00.idx'' \<mapsto> 0] \<rparr>"

lemma load_index_file:
  assumes "acceptable sample_header B [sample_rec off]"
  shows "\<exists>x. index_Load (\<lambda>_. False) (\<lambda>_ _. False)
      (index_file (concat (IndexHeader_image (index_header (sample_index off)) # map IndexRecord_image [sample_rec off])))
      ''index/blob-00.idx'' sample_header 0 B = Inr x \<and> ix_recs x = [sample_rec off] \<and> ix_pending x = []"
proof -
  let ?b = "concat (IndexHeader_image (index_header (sample_index off)) # map IndexRecord_image [sample_rec off])"
  let ?f = "\<lparr> cf_in = 0, cf_name = ''index/blob-00.idx'', cf_writable = False, cf_closed = False \<rparr>"
  have o: "OpenFile (index_file ?b) ''index/blob-00.idx'' \<lparr> O_CREATE = False, O_EXCL = False, O_TRUNC = False, O_WRITE = False \<rparr> =
      Inr (index_file ?b, ?f)"
    using sample_index_name by (simp add: OpenFile_def Let_def plain_name_def index_file_def index_fs_def)
  have "load_file (file_reader (\<lambda>_ _. False) (index_file ?b) ?f) (length (file_bytes (index_file ?b) ?f)) sample_header (ix_ordinal (sample_index off)) B =
      Inr (add_loaded (index_New sample_header (ix_ordinal (sample_index off))) (ix_recs (sample_index off)))"
    using assms wf_sample_header
    by (intro blob_file.load_file_image) (simp_all add: unreliable_def sample_index_simps file_bytes_def index_file_def)
  then show ?thesis using o by (simp add: index_Load_def attempt_def file_Size_bytes sample_index_simps index_New_def)
qed

theorem Write_then_Load_witness:
  "\<exists>tr c' y. index_Write (\<lambda>_. False) index_fs (sample_index 64) ''index/blob-00.idx'' = (sample_index 64, tr, c', None) \<and>
     index_Load (\<lambda>_. False) (\<lambda>_ _. False) (Crash c' CrashTearGarbage (\<lambda>_. (\<lambda>_. 0, 0))) ''index/blob-00.idx'' sample_header 0 4160 = Inr y \<and>
     ix_recs y = [sample_rec 64]"
proof -
  obtain tr c' where w: "index_Write (\<lambda>_. False) index_fs (sample_index 64) ''index/blob-00.idx'' = (sample_index 64, tr, c', None)"
    by (rule sample_written)
  show ?thesis
    using Write_then_Load[OF w index_fs_ok(1) sample_index_name(1), of 4160 "Crash c' CrashTearGarbage (\<lambda>_. (\<lambda>_. 0, 0))"
        CrashTearGarbage "\<lambda>_. (\<lambda>_. 0, 0)"] w wf_sample_header sample_storable by (auto simp: sample_index_simps)
qed

text \<open>C38: The comparison of a record's end with the blob size is made after reduction modulo \<open>2 ^ 64\<close>, so an index file can name an
  offset far beyond every blob and still be accepted; a later lookup of that hash then fails with an error that is neither
  a format error nor an I/O error, whatever the blob holds, instead of falling back to a scan.\<close>

theorem Load_accepts_wrapped_offset:
  "\<exists>c x. index_Load (\<lambda>_. False) (\<lambda>_ _. False) c ''index/blob-00.idx'' sample_header 0 4160 = Inr x \<and>
     (\<exists>r \<in> set (ix_recs x). unat (i_PhysicalOffset r) + unat (FrameSize (i_FrameQuanta r)) > 2 ^ 63 \<and>
       (\<forall>H isNormal rd sz accept. index_Find H isNormal rd sz sample_header x (i_FrameHash r) accept = Inl (Err ErrInvalid ''blob'' ''offset'')))"
proof -
  let ?r = "sample_rec (- 4032)"
  have g: "OnFrameGrid (- 4032)" by (simp add: OnFrameGrid_def)
  have "acceptable sample_header 4160 [?r]"
    using wf_sample_rec[OF g] by (simp add: acceptable_def loaded_ok_def rec_end_def sample_rec_def FrameSize_def)
  then obtain x where x: "index_Load (\<lambda>_. False) (\<lambda>_ _. False)
      (index_file (concat (IndexHeader_image (index_header (sample_index (- 4032))) # map IndexRecord_image [?r])))
      ''index/blob-00.idx'' sample_header 0 4160 = Inr x" "ix_recs x = [?r]" "ix_pending x = []"
    using load_index_file[of 4160 "- 4032"] by blast
  have "index_Lookup x (i_FrameHash ?r) = [?r]"
    using x by (subst index_Lookup_filter) (simp_all add: wf_index_def)
  moreover have "nat (sint (i_PhysicalOffset ?r)) = 0" by (simp add: sample_rec_def)
  ultimately have "index_Find H isNormal rd sz sample_header x (i_FrameHash ?r) accept = Inl (Err ErrInvalid ''blob'' ''offset'')"
    for H isNormal rd sz accept
    by (simp add: index_Find_def ReadFrame_def frameSizeAt_def)
  moreover have "unat (i_PhysicalOffset ?r) + unat (FrameSize (i_FrameQuanta ?r)) > 2 ^ 63" by (simp add: sample_rec_def)
  ultimately show ?thesis using x(1,2) by (metis list.set_intros(1))
qed

end
