(* ===== verification/GF256.thy ===== *)
theory GF256
  imports Prelude
begin

text \<open>
  The field arithmetic of \<^verbatim>\<open>internal/parity/parity.go\<close>: the tables filled by \<open>init\<close>, \<open>gfMul\<close>,
  \<open>gfInv\<close> and \<open>gfPow\<close>. The tables are built here by the loops of \<open>init\<close>; the lemmas relate them
  to the powers of the generator 2 under multiplication by \<open>x\<close> modulo
  \<open>x^8 + x^4 + x^3 + x^2 + 1\<close>, and from that follows that bytes with exclusive or and
  \<open>gfMul\<close> form a field. The field is then available to the library's algebra as the type \<open>gf\<close>.
\<close>

section \<open>The tables\<close>

text \<open>The body of the first loop of \<open>init\<close>; the running \<open>x\<close> is a Go \<open>int\<close>.\<close>

definition init_step :: "nat \<Rightarrow> bytes \<times> bytes \<times> int \<Rightarrow> bytes \<times> bytes \<times> int" where
  "init_step i st =
    (case st of (ex, lg, x) \<Rightarrow>
      let ex = ex[i := word_of_int x];
          ex = ex[i + 255 := word_of_int x];
          lg = lg[nat x := word_of_nat i];
          x = push_bit 1 x;
          x = (if x AND 0x100 \<noteq> 0 then x XOR 0x11D else x)
      in (ex, lg, x))"

definition init_tables :: "bytes \<times> bytes \<times> int" where
  "init_tables = fold init_step [0..<255] (replicate 510 0, replicate 256 0, 1)"

definition expTable :: bytes where
  "expTable = fst init_tables"

definition logTable :: bytes where
  "logTable = fst (snd init_tables)"

text \<open>The second loop: row 0 and column 0 keep their zero value.\<close>

definition mulTable :: "bytes list" where
  "mulTable = map (\<lambda>a. map (\<lambda>b.
      if a = 0 \<or> b = 0 then 0 else expTable ! (unat (logTable ! a) + unat (logTable ! b)))
      [0..<256]) [0..<256]"

definition gfMul :: "byte \<Rightarrow> byte \<Rightarrow> byte" where
  "gfMul a b = mulTable ! unat a ! unat b"

text \<open>\<open>gfInv\<close> panics on 0; \<open>None\<close> is the panic.\<close>

definition gfInv :: "byte \<Rightarrow> byte option" where
  "gfInv a = (if a = 0 then None else Some (expTable ! (255 - unat (logTable ! unat a))))"

text \<open>The loop \<open>for ; e > 0; e--\<close> with its accumulator.\<close>

fun gfPow_loop :: "byte \<Rightarrow> byte \<Rightarrow> nat \<Rightarrow> byte" where
  "gfPow_loop r a 0 = r"
| "gfPow_loop r a (Suc e) = gfPow_loop (gfMul r a) a e"

definition gfPow :: "byte \<Rightarrow> nat \<Rightarrow> byte" where
  "gfPow a e = gfPow_loop 1 a e"

section \<open>Multiplication by \<open>x\<close>\<close>

definition xtime :: "byte \<Rightarrow> byte" where
  "xtime b = (if bit b 7 then push_bit 1 b XOR 0x1D else push_bit 1 b)"

definition gexp :: "nat \<Rightarrow> byte" where
  "gexp n = (xtime ^^ n) 1"

lemma gexp_0 [simp]: "gexp 0 = 1"
  by (simp add: gexp_def)

lemma gexp_Suc: "gexp (Suc n) = xtime (gexp n)"
  by (simp add: gexp_def)

lemma gexp_add: "gexp (m + n) = (xtime ^^ m) (gexp n)"
  by (simp add: gexp_def funpow_add)

lemma bit_xtime: "bit (xtime b) i \<longleftrightarrow> i < 8 \<and> ((0 < i \<and> bit b (i - 1)) \<noteq> (bit b 7 \<and> bit (0x1D :: byte) i))"
proof -
  have p: "bit (push_bit 1 b) i \<longleftrightarrow> i < 8 \<and> 0 < i \<and> bit b (i - 1)"
    by (simp only: bit_push_bit_iff) (auto simp: Suc_le_eq)
  have q: "bit (0x1D :: byte) i \<Longrightarrow> i < 8"
    by (metis bit_imp_le_length len_num0 len_bit0 len_num1 mult_2 numeral_Bit0 numeral_One)
  show ?thesis
    by (cases "bit b 7") (use p q in \<open>auto simp only: xtime_def bit_xor_iff if_True if_False\<close>)
qed

lemma xtime_0 [simp]: "xtime 0 = 0"
  by (simp add: xtime_def)

lemma funpow_xtime_0 [simp]: "(xtime ^^ n) 0 = 0"
  by (induction n) simp_all

lemma xtime_xor: "xtime (a XOR b) = xtime a XOR xtime b"
  by (rule bit_word_eqI) (auto simp: bit_xtime bit_xor_iff)

lemma funpow_xtime_xor: "(xtime ^^ n) (a XOR b) = (xtime ^^ n) a XOR (xtime ^^ n) b"
  by (induction n) (simp_all add: xtime_xor)

text \<open>Bit 0 of the result tells whether the polynomial was reduced, so the step can be undone.\<close>

lemma xtime_eq_0: "xtime b = 0 \<longleftrightarrow> b = 0"
proof
  assume z: "xtime b = 0"
  then have n: "\<not> bit (xtime b) i" for i by simp
  from n[of 0] have "\<not> bit b 7" by (simp add: bit_xtime)
  moreover have "\<not> bit b i" if "i < 7" for i
    using n[of "Suc i"] that calculation by (simp add: bit_xtime)
  ultimately have "\<not> bit b i" if "i < 8" for i
    using that by (cases "i = 7") auto
  then show "b = 0" by (intro bit_word_eqI) auto
qed simp

lemma xor_eq_0: "a XOR b = 0 \<longleftrightarrow> a = (b :: 'a :: len word)"
  by (metis xor.left_neutral xor.assoc xor_self_eq xor.right_neutral)

lemma xtime_inject: "xtime a = xtime b \<longleftrightarrow> a = b"
  by (metis xor_eq_0 xtime_xor xtime_eq_0)

lemma funpow_xtime_inject: "(xtime ^^ n) a = (xtime ^^ n) b \<longleftrightarrow> a = b"
  by (induction n) (simp_all add: xtime_inject)

section \<open>2 generates the multiplicative group\<close>

primrec orbit :: "nat \<Rightarrow> byte \<Rightarrow> bytes" where
  "orbit 0 b = []"
| "orbit (Suc n) b = b # orbit n (xtime b)"

lemma nth_orbit: "i < n \<Longrightarrow> orbit n b ! i = (xtime ^^ i) b"
  by (induction n arbitrary: i b) (auto simp: nth_Cons funpow_swap1 split: nat.splits)

lemma length_orbit [simp]: "length (orbit n b) = n"
  by (induction n arbitrary: b) simp_all

lemma orbit_misses_1: "1 \<notin> set (orbit 254 2)"
  by code_simp

lemma orbit_returns: "orbit 256 1 ! 255 = 1"
  by code_simp

lemma gexp_255 [simp]: "gexp 255 = 1"
  using orbit_returns by (simp add: nth_orbit gexp_def)

lemma gexp_neq_1:
  assumes "0 < d" "d < 255"
  shows "gexp d \<noteq> 1"
proof -
  have "gexp 1 = 2" by (simp add: gexp_def xtime_def)
  with assms have "gexp d = (xtime ^^ (d - 1)) 2" using gexp_add[of "d - 1" 1] by simp
  then have "gexp d = orbit 254 2 ! (d - 1)" using assms by (simp add: nth_orbit)
  moreover have "d - 1 < length (orbit 254 2)" using assms by simp
  ultimately have "gexp d \<in> set (orbit 254 2)" by (metis nth_mem)
  then show ?thesis using orbit_misses_1 by metis
qed

lemma gexp_nonzero [simp]: "gexp n \<noteq> 0"
  using funpow_xtime_inject[of n 1 0] by (auto simp: gexp_def)

lemma inj_on_gexp: "inj_on gexp {..<255}"
proof -
  have "gexp i \<noteq> gexp j" if "i < j" "j < 255" for i j
  proof
    assume "gexp i = gexp j"
    moreover have "gexp j = (xtime ^^ i) (gexp (j - i))" using that gexp_add[of i "j - i"] by simp
    ultimately have "gexp (j - i) = 1" by (simp add: gexp_def funpow_xtime_inject)
    then show False using gexp_neq_1[of "j - i"] that by simp
  qed
  then show ?thesis by (intro linorder_inj_onI) auto
qed

lemma card_nonzero_bytes: "card (- {0 :: byte}) = 255"
  by (simp add: Compl_eq_Diff_UNIV card_Diff_singleton card_word)

lemma gexp_image: "gexp ` {..<255} = - {0}"
proof (rule card_subset_eq)
  show "card (gexp ` {..<255}) = card (- {0 :: byte})"
    by (simp add: card_image[OF inj_on_gexp] card_nonzero_bytes)
qed auto

lemma gexp_cases:
  assumes "b \<noteq> 0"
  obtains i where "i < 255" "b = gexp i"
proof -
  have "b \<in> gexp ` {..<255}" using assms by (simp add: gexp_image)
  then show ?thesis using that by auto
qed

lemma funpow_xtime_255 [simp]: "(xtime ^^ 255) b = b"
proof (cases "b = 0")
  case False
  then obtain i where "b = gexp i" by (rule gexp_cases)
  then have "(xtime ^^ 255) b = gexp (255 + i)" by (simp only: gexp_add)
  also have "\<dots> = (xtime ^^ i) (gexp 255)" by (simp only: gexp_add[symmetric] add.commute)
  also have "\<dots> = b" using \<open>b = gexp i\<close> by (simp only: gexp_255) (simp only: gexp_def)
  finally show ?thesis .
qed simp

lemma gexp_mod: "gexp (n mod 255) = gexp n"
proof -
  have "gexp (q * 255 + r) = gexp r" for q r
    by (induction q) (simp_all add: gexp_add add.assoc)
  from this[of "n div 255" "n mod 255"] show ?thesis by simp
qed

section \<open>What the tables hold\<close>

lemma unat_byte_less: "unat (b :: byte) < 256"
  by (rule unat_byte_lt)

lemma uint_shift_reduce:
  "(let x = push_bit 1 (uint b) in if x AND 0x100 \<noteq> 0 then x XOR 0x11D else x) = uint (xtime b)"
proof -
  have sh: "bit (push_bit 1 (uint b)) i \<longleftrightarrow> 0 < i \<and> bit b (i - 1)" for i
    by (simp only: bit_push_bit_iff) (auto simp: Suc_le_eq bit_uint_iff dest: bit_imp_le_length)
  have "push_bit 1 (uint b) AND 0x100 \<noteq> 0 \<longleftrightarrow> bit b 7"
    using sh[of 8] by (simp add: and_exp_eq_0_iff_not_bit[of _ 8, simplified])
  moreover have "bit (0x11D :: int) i \<longleftrightarrow> i = 8 \<or> bit (0x1D :: byte) i" for i
  proof -
    have "(0x11D :: int) = push_bit 8 1 XOR uint (0x1D :: byte)" by simp
    moreover have "bit (push_bit 8 (1 :: int)) i \<longleftrightarrow> i = 8"
      by (auto simp only: bit_push_bit_iff bit_1_iff possible_bit_int)
    moreover have "\<not> bit (0x1D :: byte) 8" by simp
    ultimately show ?thesis by (auto simp only: bit_xor_iff bit_uint_iff dest: bit_imp_le_length)
  qed
  ultimately have "bit (let x = push_bit 1 (uint b) in if x AND 0x100 \<noteq> 0 then x XOR 0x11D else x) i \<longleftrightarrow>
      (0 < i \<and> bit b (i - 1)) \<noteq> (bit b 7 \<and> (i = 8 \<or> bit (0x1D :: byte) i))" for i
    by (cases "bit b 7") (simp_all only: Let_def bit_xor_iff sh if_True if_False simp_thms)
  moreover have "\<not> bit (0x1D :: byte) i" "9 \<le> i \<Longrightarrow> \<not> bit b (i - 1)" if "8 \<le> i" for i
    using bit_imp_le_length[of "0x1D :: byte" i] bit_imp_le_length[of b "i - 1"] that by auto
  ultimately have "bit (let x = push_bit 1 (uint b) in if x AND 0x100 \<noteq> 0 then x XOR 0x11D else x) i \<longleftrightarrow>
      bit (uint (xtime b)) i" for i
    by (cases "i < 8"; cases "i = 8") (auto simp: bit_uint_iff bit_xtime)
  then show ?thesis by (rule bit_eqI)
qed

text \<open>
  The state of the loop after \<open>n\<close> rounds: the powers below \<open>n\<close> stand in both halves of the
  exponential table and their exponents in the logarithm table.
\<close>

definition tables_upto :: "nat \<Rightarrow> bytes \<times> bytes \<times> int \<Rightarrow> bool" where
  "tables_upto n st = (case st of (ex, lg, x) \<Rightarrow>
     length ex = 510 \<and> length lg = 256 \<and> x = uint (gexp n) \<and>
     (\<forall>j < n. ex ! j = gexp j \<and> ex ! (j + 255) = gexp j \<and> unat (lg ! unat (gexp j)) = j))"

lemma init_step_tables:
  assumes "tables_upto n st" "n < 255"
  shows "tables_upto (Suc n) (init_step n st)"
proof -
  obtain ex lg x where st: "st = (ex, lg, x)" by (rule prod_cases3)
  have x: "x = uint (gexp n)" using assms(1) by (simp add: tables_upto_def st)
  have ne: "unat (gexp j) \<noteq> unat (gexp n)" if "j < n" for j
    using that assms(2) inj_onD[OF inj_on_gexp, of j n] by (auto simp flip: word_unat_eq_iff)
  have lt: "unat (gexp n) < 256" by (rule unat_byte_less)
  have "snd (snd (init_step n st)) = uint (gexp (Suc n))"
    using uint_shift_reduce[of "gexp n"] by (simp add: init_step_def st x Let_def gexp_Suc)
  moreover have "unat (word_of_nat n :: byte) = n"
    using assms(2) by (simp add: unsigned_of_nat take_bit_nat_eq_self)
  ultimately show ?thesis
    using assms ne ne[symmetric] lt
    by (auto simp: tables_upto_def init_step_def st x Let_def less_Suc_eq nth_list_update)
qed

lemma tables_upto_255: "tables_upto 255 init_tables"
proof -
  have "n \<le> 255 \<Longrightarrow> tables_upto n (fold init_step [0..<n] (replicate 510 0, replicate 256 0, 1))" for n
  proof (induction n)
    case 0
    then show ?case by (simp add: tables_upto_def)
  next
    case (Suc n)
    then show ?case using init_step_tables by simp
  qed
  then show ?thesis by (simp only: init_tables_def)
qed

lemma expTable_nth: "i < 510 \<Longrightarrow> expTable ! i = gexp i"
proof -
  assume "i < 510"
  have t: "expTable ! j = gexp j \<and> expTable ! (j + 255) = gexp j" if "j < 255" for j
    using tables_upto_255 that by (simp add: tables_upto_def expTable_def case_prod_beta)
  show ?thesis
  proof (cases "i < 255")
    case False
    have "gexp (i - 255) = gexp i" using gexp_mod[of "i - 255"] gexp_mod[of i] False \<open>i < 510\<close>
      by (simp add: mod_if)
    then show ?thesis using t[of "i - 255"] False \<open>i < 510\<close> by simp
  qed (use t in simp)
qed

definition glog :: "byte \<Rightarrow> nat" where
  "glog b = unat (logTable ! unat b)"

lemma glog_gexp: "i < 255 \<Longrightarrow> glog (gexp i) = i"
  using tables_upto_255 by (simp add: tables_upto_def glog_def logTable_def case_prod_beta)

lemma gexp_glog [simp]: "b \<noteq> 0 \<Longrightarrow> gexp (glog b) = b"
  by (metis gexp_cases glog_gexp)

lemma glog_less [simp]: "b \<noteq> 0 \<Longrightarrow> glog b < 255"
  by (metis gexp_cases glog_gexp)

lemma gfMul_eq: "gfMul a b = (if a = 0 \<or> b = 0 then 0 else gexp (glog a + glog b))"
proof -
  have "unat a < 256" "unat b < 256" by (rule unat_byte_less)+
  moreover have "expTable ! (glog a + glog b) = gexp (glog a + glog b)" if "a \<noteq> 0" "b \<noteq> 0"
    using glog_less[OF that(1)] glog_less[OF that(2)] by (intro expTable_nth) simp
  ultimately show ?thesis by (simp add: gfMul_def mulTable_def glog_def[symmetric] unat_eq_zero)
qed

section \<open>The laws of the field\<close>

lemma gfMul_0 [simp]: "gfMul 0 b = 0" "gfMul a 0 = 0"
  by (simp_all add: gfMul_eq)

lemma gfMul_commute: "gfMul a b = gfMul b a"
  by (simp add: gfMul_eq add.commute)

text \<open>A product is a repeated multiplication by \<open>x\<close>, which is linear.\<close>

lemma gfMul_funpow: "a \<noteq> 0 \<Longrightarrow> gfMul a b = (xtime ^^ glog a) b"
  by (cases "b = 0") (simp_all add: gfMul_eq gexp_add)

lemma gfMul_xor: "gfMul a (b XOR c) = gfMul a b XOR gfMul a c"
  by (cases "a = 0") (simp_all add: gfMul_funpow funpow_xtime_xor)

lemma gfMul_xor_left: "gfMul (a XOR b) c = gfMul a c XOR gfMul b c"
  by (simp add: gfMul_commute[of _ c] gfMul_xor)

lemma gfMul_eq_0_iff [simp]: "gfMul a b = 0 \<longleftrightarrow> a = 0 \<or> b = 0"
  by (simp add: gfMul_eq)

lemma glog_gfMul: "a \<noteq> 0 \<Longrightarrow> b \<noteq> 0 \<Longrightarrow> glog (gfMul a b) = (glog a + glog b) mod 255"
  by (metis gfMul_eq gexp_mod glog_gexp mod_less_divisor zero_less_numeral)

lemma gfMul_assoc: "gfMul (gfMul a b) c = gfMul a (gfMul b c)"
proof (cases "a = 0 \<or> b = 0 \<or> c = 0")
  case False
  then have "gfMul (gfMul a b) c = gexp (((glog a + glog b) mod 255 + glog c) mod 255)"
    by (simp add: gfMul_eq[of "gfMul a b"] glog_gfMul gexp_mod)
  also have "\<dots> = gexp ((glog a + (glog b + glog c) mod 255) mod 255)"
    by (simp add: mod_simps add.assoc)
  also have "\<dots> = gfMul a (gfMul b c)"
    using False by (simp add: gfMul_eq[of a] glog_gfMul gexp_mod)
  finally show ?thesis .
qed auto

lemma gfMul_1 [simp]: "gfMul 1 b = b" "gfMul b 1 = b"
proof -
  have "glog 1 = 0" using glog_gexp[of 0] by simp
  then show "gfMul 1 b = b" by (simp add: gfMul_funpow)
  then show "gfMul b 1 = b" by (simp add: gfMul_commute)
qed

definition ginv :: "byte \<Rightarrow> byte" where
  "ginv a = (if a = 0 then 0 else gexp (255 - glog a))"

lemma gfInv_eq: "gfInv a = (if a = 0 then None else Some (ginv a))"
  by (simp add: gfInv_def ginv_def glog_def[symmetric] expTable_nth)

lemma ginv_0_iff [simp]: "ginv a = 0 \<longleftrightarrow> a = 0"
  by (simp add: ginv_def)

lemma gfMul_ginv: "a \<noteq> 0 \<Longrightarrow> gfMul (ginv a) a = 1"
proof -
  assume "a \<noteq> 0"
  then have "gfMul (ginv a) a = gexp (glog a + (255 - glog a))"
    by (subst gfMul_commute) (simp add: gfMul_funpow ginv_def gexp_add)
  then show ?thesis using glog_less[OF \<open>a \<noteq> 0\<close>] by simp
qed

section \<open>The field as a type\<close>

typedef gf = "UNIV :: byte set"
  morphisms byte_of GF ..

setup_lifting type_definition_gf

instantiation gf :: field
begin

lift_definition zero_gf :: gf is 0 .
lift_definition one_gf :: gf is 1 .
lift_definition plus_gf :: "gf \<Rightarrow> gf \<Rightarrow> gf" is "(XOR)" .
lift_definition minus_gf :: "gf \<Rightarrow> gf \<Rightarrow> gf" is "(XOR)" .
lift_definition uminus_gf :: "gf \<Rightarrow> gf" is "\<lambda>a. a" .
lift_definition times_gf :: "gf \<Rightarrow> gf \<Rightarrow> gf" is gfMul .
lift_definition inverse_gf :: "gf \<Rightarrow> gf" is ginv .
lift_definition divide_gf :: "gf \<Rightarrow> gf \<Rightarrow> gf" is "\<lambda>a b. gfMul a (ginv b)" .

instance
proof
  fix a b c :: gf
  show "a + b + c = a + (b + c)" by transfer (rule xor.assoc)
  show "a + b = b + a" by transfer (rule xor.commute)
  show "0 + a = a" by transfer simp
  show "- a + a = 0" by transfer simp
  show "a - b = a + - b" by transfer simp
  show "a * b * c = a * (b * c)" by transfer (rule gfMul_assoc)
  show "a * b = b * a" by transfer (rule gfMul_commute)
  show "1 * a = a" by transfer simp
  show "(a + b) * c = a * c + b * c" by transfer (rule gfMul_xor_left)
  show "(0 :: gf) \<noteq> 1" by transfer simp
  show "a \<noteq> 0 \<Longrightarrow> inverse a * a = 1" by transfer (rule gfMul_ginv)
  show "a div b = a * inverse b" by transfer simp
  show "inverse (0 :: gf) = 0" by transfer (simp add: ginv_def)
qed

end

lemma GF_simps:
  "GF 0 = 0" "GF 1 = 1" "GF (a XOR b) = GF a + GF b" "GF (gfMul a b) = GF a * GF b"
  by (simp_all add: zero_gf_def one_gf_def plus_gf_def times_gf_def GF_inverse)

lemma GF_eq_iff [simp]: "GF a = GF b \<longleftrightarrow> a = b"
  by (simp add: GF_inject)

lemma GF_eq_0 [simp]: "GF a = 0 \<longleftrightarrow> a = 0"
  by (metis GF_eq_iff GF_simps(1))

lemma gf_add_self [simp]: "(a :: gf) + a = 0"
  by transfer simp

lemma gf_two [simp]: "(2 :: gf) = 0"
  by (metis one_add_one gf_add_self)

lemma gf_add_eq_0: "(a :: gf) + b = 0 \<longleftrightarrow> a = b"
  by transfer (rule xor_eq_0)

lemma gf_minus [simp]: "(a :: gf) - b = a + b" "- a = a"
  by (transfer, simp)+

lemma GF_gfPow: "GF (gfPow a e) = GF a ^ e"
proof -
  have "GF (gfPow_loop r a e) = GF r * GF a ^ e" for r
    by (induction e arbitrary: r) (simp_all add: GF_simps mult.assoc)
  then show ?thesis by (simp add: gfPow_def GF_simps)
qed

section \<open>Properties\<close>

text \<open>
  The product of the polynomials with the bits of the two bytes as coefficients, reduced modulo
  \<open>x^8 + x^4 + x^3 + x^2 + 1\<close>: shift and add.
\<close>

definition poly_mul :: "byte \<Rightarrow> byte \<Rightarrow> byte" where
  "poly_mul a b = fold (\<lambda>i acc. if bit a i then acc XOR (xtime ^^ i) b else acc) [0..<8] 0"

lemma gexp_power: "i < 8 \<Longrightarrow> gexp i = 2 ^ i"
proof -
  assume "i < 8"
  then have "i \<in> set [0..<8]" by simp
  moreover have "list_all (\<lambda>i. gexp i = 2 ^ i) [0..<8]" by code_simp
  ultimately show ?thesis by (auto simp: list_all_iff)
qed

lemma gfMul_power:
  assumes "i < 8"
  shows "gfMul (2 ^ i) b = (xtime ^^ i) b"
proof -
  have "glog (2 ^ i) = i" "(2 ^ i :: byte) \<noteq> 0"
    using assms glog_gexp[of i] gexp_nonzero[of i] by (simp_all add: gexp_power)
  then show ?thesis by (simp add: gfMul_funpow)
qed

lemma take_bit_top: "take_bit (Suc n) (a :: byte) = (if bit a n then take_bit n a XOR 2 ^ n else take_bit n a)"
  by (rule bit_word_eqI) (auto simp: bit_take_bit_iff bit_xor_iff bit_exp_iff less_Suc_eq)

text \<open>C29: The multiplication table holds polynomial products: \<open>gfMul\<close> equals shift-and-add multiplication modulo
  the field polynomial for all pairs of bytes.\<close>

theorem gfMul_is_polynomial_product: "gfMul a b = poly_mul a b"
proof -
  have "n \<le> 8 \<Longrightarrow> fold (\<lambda>i acc. if bit a i then acc XOR (xtime ^^ i) b else acc) [0..<n] 0 = gfMul (take_bit n a) b" for n
    by (induction n) (simp_all add: take_bit_top gfMul_xor_left gfMul_power)
  from this[of 8] show ?thesis by (simp add: poly_mul_def take_bit_word_eq_self)
qed

end
