(* ===== verification/GF_Matrix.thy ===== *)
theory GF_Matrix
  imports GF256
begin

text \<open>
  The matrices of \<^verbatim>\<open>internal/parity/parity.go\<close>: \<open>invert\<close> (Gauss-Jordan on the matrix augmented by
  the identity) and \<open>matMul\<close>. A matrix is a list of rows of bytes, as in the source. The lemmas
  read a matrix as a system of linear equations over \<open>gf\<close>: every step of the elimination keeps the
  solutions of the augmented system, so a result solves every system with this matrix, and a
  missing pivot exhibits a non-trivial solution of the homogeneous one.
\<close>

section \<open>The routines\<close>

text \<open>The augmented matrix: row \<open>i\<close> is \<open>m[i]\<close> followed by the \<open>i\<close>th unit vector.\<close>

definition augment :: "bytes list \<Rightarrow> bytes list" where
  "augment m = (let n = length m in
     map (\<lambda>i. let row = take (2 * n) (m ! i) @ drop (length (m ! i)) (replicate (2 * n) 0)
              in row[n + i := 1]) [0..<n])"

text \<open>The innermost loop: \<open>a[r][c] ^= gfMul(f, a[col][c])\<close> for every \<open>c\<close>.\<close>

definition add_multiple :: "byte \<Rightarrow> bytes \<Rightarrow> bytes \<Rightarrow> bytes" where
  "add_multiple f p row = map2 (\<lambda>x y. x XOR gfMul f y) row p"

definition eliminate :: "nat \<Rightarrow> nat \<Rightarrow> bytes list \<Rightarrow> bytes list" where
  "eliminate col r a =
    (let f = a ! r ! col
     in if r \<noteq> col \<and> f \<noteq> 0 then a[r := add_multiple f (a ! col) (a ! r)] else a)"

text \<open>
  The body of the loop over the columns. The call of \<open>gfInv\<close> panics on 0; the panic is kept as a
  branch here and is shown not to happen.
\<close>

definition invert_col :: "nat \<Rightarrow> nat \<Rightarrow> bytes list \<Rightarrow> bytes list result" where
  "invert_col n col a =
    (case find (\<lambda>r. a ! r ! col \<noteq> 0) [col..<n] of
       None \<Rightarrow> errf ErrOther ''parity'' ''singular matrix''
     | Some piv \<Rightarrow>
         let a = a[col := a ! piv, piv := a ! col]
         in case gfInv (a ! col ! col) of
              None \<Rightarrow> errf ErrOther ''parity'' ''panic: inverse of 0''
            | Some iv \<Rightarrow>
                let a = a[col := map (\<lambda>x. gfMul x iv) (a ! col)]
                in Inr (fold (eliminate col) [0..<n] a))"

fun invert_cols :: "nat \<Rightarrow> nat list \<Rightarrow> bytes list \<Rightarrow> bytes list result" where
  "invert_cols n [] a = Inr a"
| "invert_cols n (col # cols) a =
    (case invert_col n col a of Inl e \<Rightarrow> Inl e | Inr a \<Rightarrow> invert_cols n cols a)"

definition invert :: "bytes list \<Rightarrow> bytes list result" where
  "invert m =
    (let n = length m
     in case invert_cols n [0..<n] (augment m) of
          Inl e \<Rightarrow> Inl e
        | Inr a \<Rightarrow> Inr (map (drop n) a))"

definition matMul :: "bytes list \<Rightarrow> bytes list \<Rightarrow> bytes list" where
  "matMul a b =
    map (\<lambda>row. map (\<lambda>c. fold (\<lambda>j s. s XOR gfMul (row ! j) (b ! j ! c)) [0..<length b] 0)
                   [0..<length (b ! 0)]) a"

section \<open>Rows as linear forms\<close>

definition shaped :: "nat \<Rightarrow> nat \<Rightarrow> bytes list \<Rightarrow> bool" where
  "shaped n w a \<longleftrightarrow> length a = n \<and> (\<forall>r < n. length (a ! r) = w)"

definition dot :: "bytes \<Rightarrow> (nat \<Rightarrow> gf) \<Rightarrow> gf" where
  "dot row z = (\<Sum>c<length row. GF (row ! c) * z c)"

definition sols :: "bytes list \<Rightarrow> (nat \<Rightarrow> gf) set" where
  "sols a = {z. \<forall>row \<in> set a. dot row z = 0}"

lemma dot_scale: "dot (map (\<lambda>x. gfMul x v) row) z = GF v * dot row z"
  by (simp add: dot_def sum_distrib_left GF_simps mult_ac)

lemma dot_add_multiple:
  "length p = length row \<Longrightarrow> dot (add_multiple f p row) z = dot row z + GF f * dot p z"
  by (simp add: dot_def add_multiple_def sum_distrib_left GF_simps algebra_simps sum.distrib)

lemma length_add_multiple [simp]: "length (add_multiple f p row) = min (length row) (length p)"
  by (simp add: add_multiple_def)

lemma add_multiple_0 [simp]: "length p = length row \<Longrightarrow> add_multiple 0 p row = row"
  by (rule nth_equalityI) (auto simp: add_multiple_def)

lemma shaped_update [intro]: "shaped n w a \<Longrightarrow> length row = w \<Longrightarrow> shaped n w (a[i := row])"
  unfolding shaped_def by (metis length_list_update nth_list_update_eq nth_list_update_neq)

lemma sols_iff: "z \<in> sols a \<longleftrightarrow> (\<forall>r < length a. dot (a ! r) z = 0)"
  by (auto simp: sols_def all_set_conv_all_nth)

lemma sols_swap: "i < length a \<Longrightarrow> j < length a \<Longrightarrow> sols (a[i := a ! j, j := a ! i]) = sols a"
  by (simp add: sols_def)

text \<open>Replacing a row by one that vanishes at the same points, given the others.\<close>

lemma sols_update:
  assumes "i < length a"
    and "\<And>z. (\<And>r. r < length a \<Longrightarrow> r \<noteq> i \<Longrightarrow> dot (a ! r) z = 0) \<Longrightarrow> dot row z = 0 \<longleftrightarrow> dot (a ! i) z = 0"
  shows "sols (a[i := row]) = sols a"
proof (rule set_eqI)
  fix z
  have split: "z \<in> sols b \<longleftrightarrow> (\<forall>r < length b. r \<noteq> i \<longrightarrow> dot (b ! r) z = 0) \<and> dot (b ! i) z = 0"
    if "i < length b" for b using that by (auto simp: sols_iff)
  show "z \<in> sols (a[i := row]) \<longleftrightarrow> z \<in> sols a"
    using assms by (auto simp: split)
qed

section \<open>One column of the elimination\<close>

lemma eliminate_uniform:
  assumes "shaped n w a" "r < n" "col < n"
  shows "eliminate col r a = (if r = col then a else a[r := add_multiple (a ! r ! col) (a ! col) (a ! r)])"
  using assms by (auto simp: eliminate_def shaped_def Let_def)

text \<open>The fold over the rows does to every row but \<open>col\<close> what one step does.\<close>

lemma fold_eliminate:
  assumes "shaped n w a" "col < n" "k \<le> n"
  shows "shaped n w (fold (eliminate col) [0..<k] a) \<and>
    sols (fold (eliminate col) [0..<k] a) = sols a \<and>
    (\<forall>r < n. fold (eliminate col) [0..<k] a ! r =
      (if r < k \<and> r \<noteq> col then add_multiple (a ! r ! col) (a ! col) (a ! r) else a ! r))"
  using assms(3)
proof (induction k)
  case 0
  then show ?case using assms by simp
next
  case (Suc k)
  define b where "b = fold (eliminate col) [0..<k] a"
  from Suc have k: "k < n" and b: "shaped n w b" "sols b = sols a"
    "\<And>r. r < n \<Longrightarrow> b ! r = (if r < k \<and> r \<noteq> col then add_multiple (a ! r ! col) (a ! col) (a ! r) else a ! r)"
    by (auto simp: b_def)
  define c where "c = eliminate col k b"
  have c: "c = (if k = col then b else b[k := add_multiple (a ! k ! col) (a ! col) (a ! k)])"
    using eliminate_uniform[OF b(1) k assms(2)] b(3)[OF k] b(3)[OF assms(2)] by (simp add: c_def)
  have len: "length (a ! k) = w" "length (a ! col) = w" "length b = n"
    using assms k b(1) by (auto simp: shaped_def)
  have "sols c = sols b"
    using b(3)[OF k] b(3)[OF assms(2)] k assms(2) len
    by (auto simp: c dot_add_multiple intro!: sols_update)
  moreover have "shaped n w c"
    using b(1) len by (auto simp: c)
  ultimately show ?case
    using b k len by (auto simp: c c_def[symmetric] b_def[symmetric] nth_list_update less_Suc_eq)
qed

text \<open>After the columns below \<open>col\<close> are done they are those of the identity.\<close>

definition units :: "nat \<Rightarrow> nat \<Rightarrow> bytes list \<Rightarrow> bool" where
  "units n col a \<longleftrightarrow> (\<forall>c < col. \<forall>r < n. a ! r ! c = (if r = c then 1 else 0))"

definition pivoted :: "nat \<Rightarrow> nat \<Rightarrow> bytes list \<Rightarrow> bytes list" where
  "pivoted col piv a = (let row = map (\<lambda>x. gfMul x (ginv (a ! piv ! col))) (a ! piv)
     in a[col := row, piv := (if piv = col then row else a ! col)])"

lemma invert_col_cases:
  assumes "shaped n w a" "col < n" "n \<le> w"
  obtains (singular) "invert_col n col a = errf ErrOther ''parity'' ''singular matrix''"
      "\<And>r. col \<le> r \<Longrightarrow> r < n \<Longrightarrow> a ! r ! col = 0"
  | (pivot) piv where "col \<le> piv" "piv < n" "a ! piv ! col \<noteq> 0"
      "invert_col n col a = Inr (fold (eliminate col) [0..<n] (pivoted col piv a))"
proof (cases "find (\<lambda>r. a ! r ! col \<noteq> 0) [col..<n]")
  case None
  then show ?thesis
    by (intro singular) (simp add: invert_col_def, auto simp: find_None_iff)
next
  case (Some piv)
  then have piv: "col \<le> piv" "piv < n" "a ! piv ! col \<noteq> 0"
    by (auto simp: find_Some_iff nth_append dest!: nth_mem)
  have "length a = n" using assms by (simp add: shaped_def)
  with piv assms(2) have "a[col := a ! piv, piv := a ! col] ! col = a ! piv"
    by (cases "piv = col") simp_all
  moreover have "a[col := a ! piv, piv := a ! col, col := row] =
      a[col := row, piv := (if piv = col then row else a ! col)]" for row
    using piv by (cases "piv = col") (simp_all add: list_update_swap)
  ultimately show ?thesis
    using Some piv by (intro pivot) (auto simp: invert_col_def gfInv_eq pivoted_def Let_def)
qed

lemma invert_col_step:
  assumes "shaped n w a" "units n col a" "col < n" "n \<le> w" "invert_col n col a = Inr b"
  shows "shaped n w b" "units n (Suc col) b" "sols b = sols a"
proof -
  obtain piv where pivot: "col \<le> piv" "piv < n" "a ! piv ! col \<noteq> 0"
    "invert_col n col a = Inr (fold (eliminate col) [0..<n] (pivoted col piv a))"
    using assms(5) by (cases rule: invert_col_cases[OF assms(1,3,4)]) simp_all
  define v where "v = ginv (a ! piv ! col)"
  define row where "row = map (\<lambda>x. gfMul x v) (a ! piv)"
  define s where "s = a[col := row, piv := (if piv = col then row else a ! col)]"
  have b: "b = fold (eliminate col) [0..<n] s"
    using pivot(4) assms(5) by (simp add: s_def row_def v_def pivoted_def Let_def)
  have len: "length a = n" "length (a ! piv) = w" "length (a ! col) = w"
    using assms pivot by (auto simp: shaped_def)
  have sh: "shaped n w s"
    using assms(1) len by (auto simp: s_def row_def intro!: shaped_update)
  note fe = fold_eliminate[OF sh assms(3) order_refl, folded b]
  show "shaped n w b" using fe by blast
  have v: "GF v \<noteq> 0" using pivot(3) by (simp add: v_def)
  have "s = (a[col := a ! piv, piv := a ! col])[col := row]"
    using pivot by (cases "piv = col") (simp_all add: s_def list_update_swap)
  moreover have "a[col := a ! piv, piv := a ! col] ! col = a ! piv"
    using pivot len assms(3) by (cases "piv = col") simp_all
  ultimately have "sols s = sols a"
    using len pivot assms(3) v sols_swap[of col a piv] sols_update[of col "a[col := a ! piv, piv := a ! col]" row]
    by (simp add: row_def dot_scale)
  then show "sols b = sols a" using fe by simp
  have srow: "s ! r ! c = (if r = col then gfMul (a ! piv ! c) v else if r = piv then a ! col ! c else a ! r ! c)"
    if "r < n" "c < n" for r c
    using that len pivot assms(3,4) by (auto simp: s_def row_def nth_list_update)
  have brow: "b ! r ! c = (if r = col then s ! col ! c else s ! r ! c XOR gfMul (s ! r ! col) (s ! col ! c))"
    if "r < n" "c < n" for r c
    using fe that sh assms(3,4) by (auto simp: shaped_def add_multiple_def)
  show "units n (Suc col) b"
    unfolding units_def
  proof (intro allI impI)
    fix c r assume c: "c < Suc col" and r: "r < n"
    have one: "s ! col ! col = 1"
      using srow[OF assms(3,3)] gfMul_ginv[OF pivot(3)] by (simp add: v_def gfMul_commute)
    show "b ! r ! c = (if r = c then 1 else 0)"
    proof (cases "c = col")
      case True
      then show ?thesis using brow[OF r assms(3)] one by simp
    next
      case False
      with c have c': "c < col" "c < n" using assms(3) by auto
      then have z: "a ! piv ! c = 0" "a ! col ! c = 0"
        using assms(2,3) pivot by (auto simp: units_def)
      then have "s ! col ! c = 0" using srow[OF assms(3) c'(2)] by simp
      moreover have "s ! r ! c = (if r = c then 1 else 0)" if "r \<noteq> col"
        using that z srow[OF r c'(2)] assms(2) r c' pivot by (auto simp: units_def)
      ultimately show ?thesis using brow[OF r c'(2)] c' by auto
    qed
  qed
qed

section \<open>The inverse\<close>

text \<open>Row \<open>i\<close> of a matrix applied to the first \<open>n\<close> components of a vector.\<close>

definition mrow :: "nat \<Rightarrow> bytes list \<Rightarrow> (nat \<Rightarrow> gf) \<Rightarrow> nat \<Rightarrow> gf" where
  "mrow n m x i = (\<Sum>c<n. GF (m ! i ! c) * x c)"

lemma mrow_cong: "(\<And>c. c < n \<Longrightarrow> x c = y c) \<Longrightarrow> mrow n m x i = mrow n m y i"
  by (simp add: mrow_def)

lemma sum_lessThan_add: "(\<Sum>c<n + k. f c) = (\<Sum>c<n. f c) + (\<Sum>c<k. f (n + c :: nat) :: gf)"
  by (induction k) (simp_all add: add.assoc)

lemma dot_halves:
  "length row = 2 * n \<Longrightarrow>
   dot row z = (\<Sum>c<n. GF (row ! c) * z c) + (\<Sum>c<n. GF (row ! (n + c)) * z (n + c))"
  by (simp add: dot_def mult_2 sum_lessThan_add)

lemma sum_unit: "i < n \<Longrightarrow> (\<Sum>c<(n :: nat). GF (if i = c then 1 else 0) * z c) = z i"
proof -
  assume "i < n"
  have "(\<Sum>c<n. GF (if i = c then 1 else 0) * z c) = (\<Sum>c<n. if i = c then z c else 0)"
    by (rule sum.cong) (simp_all add: GF_simps)
  also have "\<dots> = z i" using \<open>i < n\<close> sum.delta'[of "{..<n}" i z] by simp
  finally show ?thesis .
qed

lemma augment_row:
  assumes "shaped n n m" "i < n"
  shows "length (augment m ! i) = 2 * n"
    "c < n \<Longrightarrow> augment m ! i ! c = m ! i ! c"
    "c < n \<Longrightarrow> augment m ! i ! (n + c) = (if i = c then 1 else 0)"
  using assms by (auto simp: augment_def shaped_def Let_def nth_list_update nth_append)

lemma shaped_augment: "shaped n n m \<Longrightarrow> shaped n (2 * n) (augment m)"
  using augment_row(1) by (auto simp: shaped_def) (simp add: augment_def Let_def)

lemma sols_augment:
  assumes "shaped n n m"
  shows "z \<in> sols (augment m) \<longleftrightarrow> (\<forall>i < n. mrow n m z i = z (n + i))"
proof -
  have "length (augment m) = n" using shaped_augment[OF assms] by (simp add: shaped_def)
  moreover have "dot (augment m ! i) z = mrow n m z i + z (n + i)" if "i < n" for i
    using assms that by (simp add: dot_halves augment_row mrow_def sum_unit[of i n "\<lambda>c. z (n + c)"])
  ultimately show ?thesis by (simp add: sols_iff gf_add_eq_0)
qed

lemma invert_cols_step:
  assumes "shaped n w a" "units n col a" "col \<le> n" "n \<le> w"
  shows "case invert_cols n [col..<n] a of
      Inr b \<Rightarrow> shaped n w b \<and> units n n b \<and> sols b = sols a
    | Inl e \<Rightarrow> e = Err ErrOther ''parity'' ''singular matrix'' \<and>
        (\<exists>k < n. \<exists>b. shaped n w b \<and> units n k b \<and> sols b = sols a \<and> (\<forall>r < n. k \<le> r \<longrightarrow> b ! r ! k = 0))"
  using assms
proof (induction "n - col" arbitrary: col a)
  case 0
  then show ?case by simp
next
  case (Suc d)
  then have col: "col < n" and cols: "[col..<n] = col # [Suc col..<n]" by (simp_all add: upt_conv_Cons)
  show ?case
  proof (cases rule: invert_col_cases[OF Suc.prems(1) col Suc.prems(4)])
    case 1
    then show ?thesis using Suc.prems col by (auto simp: cols errf_def)
  next
    case (2 piv)
    let ?b = "fold (eliminate col) [0..<n] (pivoted col piv a)"
    note st = invert_col_step[OF Suc.prems(1,2) col Suc.prems(4) 2(4)]
    have "d = n - Suc col" using Suc.hyps(2) by simp
    then show ?thesis
      using st Suc.hyps(1)[of "Suc col" ?b] Suc.prems(4) col 2(4) by (simp add: cols split: sum.splits)
  qed
qed

text \<open>
  A result of \<open>invert\<close> solves every system with the matrix; the only failure is a singular matrix,
  with a non-trivial solution of the homogeneous system to show for it.
\<close>

definition solves :: "nat \<Rightarrow> bytes list \<Rightarrow> bytes list \<Rightarrow> bool" where
  "solves n m r \<longleftrightarrow> shaped n n r \<and>
     (\<forall>x y. (\<forall>i < n. mrow n m x i = y i) \<longleftrightarrow> (\<forall>i < n. mrow n r y i = x i))"

definition trivial_kernel :: "nat \<Rightarrow> bytes list \<Rightarrow> bool" where
  "trivial_kernel n m \<longleftrightarrow> (\<forall>x. (\<forall>i < n. mrow n m x i = 0) \<longrightarrow> (\<forall>c < n. x c = 0))"

lemma reduced_solves:
  assumes "shaped n n m" "shaped n (2 * n) b" "units n n b" "sols b = sols (augment m)"
  shows "solves n m (map (drop n) b)"
proof -
  let ?r = "map (drop n) b"
  have len: "length b = n" "\<And>i. i < n \<Longrightarrow> length (b ! i) = 2 * n" using assms(2) by (auto simp: shaped_def)
  have "dot (b ! i) z = z i + mrow n ?r (\<lambda>c. z (n + c)) i" if "i < n" for i z
  proof -
    have "(\<Sum>c<n. GF (b ! i ! c) * z c) = z i"
      using assms(3) that sum_unit[OF that, of z] by (simp add: units_def)
    then show ?thesis using that len by (simp add: dot_halves mrow_def add.commute)
  qed
  then have sb: "z \<in> sols b \<longleftrightarrow> (\<forall>i < n. mrow n ?r (\<lambda>c. z (n + c)) i = z i)" for z
    by (auto simp: sols_iff len gf_add_eq_0)
  have "(\<forall>i < n. mrow n m x i = y i) \<longleftrightarrow> (\<forall>i < n. mrow n ?r y i = x i)" for x y
  proof -
    let ?z = "\<lambda>c. if c < n then x c else y (c - n)"
    have "?z \<in> sols (augment m) \<longleftrightarrow> ?z \<in> sols b" by (simp add: assms(4))
    moreover have "mrow n m ?z i = mrow n m x i" for i by (rule mrow_cong) simp
    ultimately show ?thesis by (simp add: sb sols_augment[OF assms(1)])
  qed
  then show ?thesis using len by (simp add: solves_def shaped_def)
qed

text \<open>A column without a pivot is a combination of the columns before it.\<close>

lemma stuck_has_kernel:
  assumes "shaped n n m" "k < n" "shaped n (2 * n) b" "units n k b" "sols b = sols (augment m)"
    and stuck: "\<And>r. r < n \<Longrightarrow> k \<le> r \<Longrightarrow> b ! r ! k = 0"
  shows "\<not> trivial_kernel n m"
proof -
  have len: "length b = n" "\<And>i. i < n \<Longrightarrow> length (b ! i) = 2 * n" using assms(3) by (auto simp: shaped_def)
  define z where "z = (\<lambda>c. if c < k then GF (b ! c ! k) else if c = k then 1 else 0)"
  have "dot (b ! r) z = 0" if r: "r < n" for r
  proof -
    have "(\<Sum>c<n. GF (b ! r ! c) * z c) = (\<Sum>c<Suc k. GF (b ! r ! c) * z c)"
      using assms(2) by (intro sum.mono_neutral_right) (auto simp: z_def)
    also have "\<dots> = (\<Sum>c<k. GF (if r = c then 1 else 0) * GF (b ! c ! k)) + GF (b ! r ! k)"
      using assms(4) r by (simp add: z_def units_def)
    also have "\<dots> = 0"
    proof (cases "r < k")
      case True
      then show ?thesis using sum_unit[of r k "\<lambda>c. GF (b ! c ! k)"] by simp
    next
      case False
      then show ?thesis using stuck[OF r] by (auto simp: GF_simps intro!: sum.neutral)
    qed
    finally show ?thesis using r len assms(2) by (simp add: dot_halves z_def)
  qed
  then have "z \<in> sols (augment m)" by (simp add: sols_iff len flip: assms(5))
  then have "\<forall>i < n. mrow n m z i = 0" using assms(2) by (auto simp: sols_augment[OF assms(1)] z_def)
  moreover have "z k \<noteq> 0" by (simp add: z_def)
  ultimately show ?thesis using assms(2) by (auto simp: trivial_kernel_def)
qed

lemma invert_exact:
  assumes "shaped n n m"
  shows "case invert m of
      Inr r \<Rightarrow> solves n m r
    | Inl e \<Rightarrow> e = Err ErrOther ''parity'' ''singular matrix'' \<and> \<not> trivial_kernel n m"
proof -
  have "length m = n" using assms by (simp add: shaped_def)
  moreover note run = invert_cols_step[OF shaped_augment[OF assms], of 0]
  ultimately show ?thesis
    using reduced_solves[OF assms] stuck_has_kernel[OF assms]
    by (cases "invert_cols n [0..<n] (augment m)") (auto simp: invert_def Let_def units_def)
qed

lemma invert_succeeds:
  assumes "shaped n n m" "trivial_kernel n m"
  obtains r where "invert m = Inr r" "solves n m r"
  using invert_exact[OF assms(1)] assms(2) by (cases "invert m") auto

lemma solves_both_sides:
  assumes "solves n m r" "i < n"
  shows "mrow n r (mrow n m x) i = x i" "mrow n m (mrow n r x) i = x i"
  using assms unfolding solves_def by blast+

section \<open>Products\<close>

lemma fold_xor_sum:
  "GF (fold (\<lambda>j s. s XOR f j) [0..<n] s0) = GF s0 + (\<Sum>j<n. GF (f j))"
  by (induction n) (simp_all add: GF_simps add.assoc)

lemma matMul_nth:
  assumes "i < length a" "c < length (b ! 0)"
  shows "GF (matMul a b ! i ! c) = (\<Sum>j<length b. GF (a ! i ! j) * GF (b ! j ! c))"
  using assms fold_xor_sum[of "\<lambda>j. gfMul (a ! i ! j) (b ! j ! c)"] by (simp add: matMul_def GF_simps)

lemma mrow_matMul:
  assumes "shaped n w a" "shaped k k b" "0 < k" "i < n"
  shows "mrow k (matMul a b) x i = mrow k a (mrow k b x) i"
proof -
  have "mrow k (matMul a b) x i = (\<Sum>c<k. \<Sum>j<k. GF (a ! i ! j) * GF (b ! j ! c) * x c)"
    using assms by (simp add: mrow_def matMul_nth shaped_def sum_distrib_right)
  also have "\<dots> = (\<Sum>j<k. \<Sum>c<k. GF (a ! i ! j) * GF (b ! j ! c) * x c)"
    by (rule sum.swap)
  also have "\<dots> = mrow k a (mrow k b x) i"
    by (simp add: mrow_def sum_distrib_left mult.assoc)
  finally show ?thesis .
qed

lemma shaped_matMul: "shaped n w a \<Longrightarrow> shaped k k b \<Longrightarrow> 0 < k \<Longrightarrow> shaped n k (matMul a b)"
  by (simp add: shaped_def matMul_def)

end
