(* ===== verification/Parity_Code.thy ===== *)
theory Parity_Code
  imports GF_Matrix Wire_Base "HOL-Library.Multiset"
begin

text \<open>
  The parity codes of \<^verbatim>\<open>internal/parity/parity.go\<close>: \<open>EncodingMatrix\<close>, \<open>New\<close> with its cache of codes,
  \<open>Encode\<close>, \<open>Reconstruct\<close>, the cache of decode matrices, the kernels \<open>combine\<close> and \<open>xorInto\<close> and
  the splitting of the work into concurrent chunks. A shard is an optional byte list, \<open>None\<close> for
  a nil slice; distinct entries are distinct buffers. The goroutines of \<open>parallel\<close> write disjoint
  ranges; the order in which their chunks take effect is the parameter \<open>sched\<close>, the number of
  processors is \<open>procs\<close>. The numbers \<open>k\<close> and \<open>m\<close> are natural numbers: a negative one would take the
  branch of 0.
\<close>

section \<open>The encoding matrix\<close>

definition vandermonde :: "nat \<Rightarrow> nat \<Rightarrow> bytes list" where
  "vandermonde n k = map (\<lambda>r. map (\<lambda>c. gfPow (word_of_nat r) c) [0..<k]) [0..<n]"

definition EncodingMatrix :: "nat \<Rightarrow> nat \<Rightarrow> bytes list result" where
  "EncodingMatrix k m =
    (let n = k + m
     in if k < 1 \<or> m < 1 \<or> n > MaxParityShards then errf ErrOther ''parity'' ''invalid code''
        else let v = vandermonde n k
             in case invert (take k v) of
                  Inl e \<Rightarrow> Inl e
                | Inr ti \<Rightarrow> Inr (matMul v ti))"

section \<open>Codes and their cache\<close>

record Code =
  c_Scheme :: ParityScheme
  c_K :: nat
  c_M :: nat
  c_enc :: "bytes list"

type_synonym codeKey = "ParityScheme \<times> nat \<times> nat"
type_synonym codes = "(codeKey \<times> Code) list"

definition codes_LoadOrStore :: "codeKey \<Rightarrow> Code \<Rightarrow> codes \<Rightarrow> codes \<times> Code" where
  "codes_LoadOrStore key c codes =
    (case map_of codes key of Some c' \<Rightarrow> (codes, c') | None \<Rightarrow> ((key, c) # codes, c))"

definition New :: "codes \<Rightarrow> ParityScheme \<Rightarrow> nat \<Rightarrow> nat \<Rightarrow> codes \<times> Code result" where
  "New codes s k m =
    (case map_of codes (s, k, m) of
       Some c \<Rightarrow> (codes, Inr c)
     | None \<Rightarrow>
         let made =
           (if s = ParityXOR then
              if k < 1 \<or> m \<noteq> 1 \<or> k + m > MaxParityShards then errf ErrOther ''parity'' ''XOR''
              else Inr \<lparr>c_Scheme = s, c_K = k, c_M = m, c_enc = []\<rparr>
            else if s = ParityRS then
              case EncodingMatrix k m of
                Inl e \<Rightarrow> Inl e
              | Inr enc \<Rightarrow> Inr \<lparr>c_Scheme = s, c_K = k, c_M = m, c_enc = enc\<rparr>
            else errf ErrUnsupported ''parity'' ''scheme'')
         in case made of
              Inl e \<Rightarrow> (codes, Inl e)
            | Inr c \<Rightarrow> let r = codes_LoadOrStore (s, k, m) c codes in (fst r, Inr (snd r)))"

fun checkLens_loop :: "int \<Rightarrow> bytes option list \<Rightarrow> int result" where
  "checkLens_loop sz [] = Inr sz"
| "checkLens_loop sz (None # ss) = checkLens_loop sz ss"
| "checkLens_loop sz (Some s # ss) =
    (if sz \<ge> 0 \<and> int (length s) \<noteq> sz then errf ErrOther ''parity'' ''shard lengths differ''
     else checkLens_loop (int (length s)) ss)"

definition checkLens :: "bytes option list \<Rightarrow> nat \<Rightarrow> int result" where
  "checkLens shards n = checkLens_loop (- 1) (take n shards)"

section \<open>Kernels\<close>

text \<open>
  A loop over the source that sets the destination elements of the same indices; the rest of
  the destination keeps its value.
\<close>

definition over :: "(byte \<Rightarrow> byte \<Rightarrow> byte) \<Rightarrow> bytes \<Rightarrow> bytes \<Rightarrow> bytes" where
  "over f dst s = map2 f dst s @ drop (length s) dst"

fun combine_loop :: "bytes \<Rightarrow> nat \<Rightarrow> nat \<Rightarrow> nat \<Rightarrow> bool \<Rightarrow> bytes \<Rightarrow> bytes list \<Rightarrow> bytes" where
  "combine_loop coef lo hi j first dst [] = (if first then replicate (length dst) 0 else dst)"
| "combine_loop coef lo hi j first dst (s # src) =
    (let cf = coef ! j; s = seg s lo hi; t = mulTable ! unat cf
     in if cf = 0 then combine_loop coef lo hi (Suc j) first dst src
        else if first \<and> cf = 1 then combine_loop coef lo hi (Suc j) False (over (\<lambda>d v. v) dst s) src
        else if first then combine_loop coef lo hi (Suc j) False (over (\<lambda>d v. t ! unat v) dst s) src
        else if cf = 1 then combine_loop coef lo hi (Suc j) False (over (\<lambda>d v. d XOR v) dst s) src
        else combine_loop coef lo hi (Suc j) False (over (\<lambda>d v. d XOR t ! unat v) dst s) src)"

definition combine :: "bytes \<Rightarrow> bytes \<Rightarrow> bytes list \<Rightarrow> nat \<Rightarrow> nat \<Rightarrow> bytes" where
  "combine dst coef src lo hi = combine_loop coef lo hi 0 True dst src"

text \<open>\<open>src[0]\<close> panics when there is no source; every call passes at least one.\<close>

fun xorInto :: "bytes \<Rightarrow> bytes list \<Rightarrow> nat \<Rightarrow> nat \<Rightarrow> bytes" where
  "xorInto dst [] lo hi = dst"
| "xorInto dst (s # src) lo hi =
    fold (\<lambda>s dst. over (\<lambda>d v. d XOR v) dst (seg s lo hi)) src (over (\<lambda>d v. v) dst (seg s lo hi))"

section \<open>Splitting the work\<close>

function chunks :: "nat \<Rightarrow> nat \<Rightarrow> nat \<Rightarrow> (nat \<times> nat) list" where
  "chunks n chunk lo =
    (if lo < n \<and> 0 < chunk then (lo, min (lo + chunk) n) # chunks n chunk (lo + chunk) else [])"
  by pat_completeness auto
termination by (relation "measure (\<lambda>(n, chunk, lo). n - lo)") auto

declare chunks.simps [simp del]

definition parallel :: "nat \<Rightarrow> nat \<Rightarrow> (nat \<times> nat) list" where
  "parallel procs n =
    (let minChunk = 256 * 1024; w = min procs (n div minChunk)
     in if w \<le> 1 then [(0, n)]
        else let chunk = (n + w - 1) div w; chunk = (chunk + 63) div 64 * 64
             in chunks n chunk 0)"

text \<open>The chunks in the order in which they take effect.\<close>

type_synonym schedule = "(nat \<times> nat) list \<Rightarrow> (nat \<times> nat) list"

definition run_chunks :: "schedule \<Rightarrow> nat \<Rightarrow> nat \<Rightarrow> (nat \<Rightarrow> nat \<Rightarrow> 's \<Rightarrow> 's) \<Rightarrow> 's \<Rightarrow> 's" where
  "run_chunks sched procs n fn st = fold (\<lambda>(lo, hi). fn lo hi) (sched (parallel procs n)) st"

text \<open>\<open>combine(shards[i][lo:hi], mat[i], src, lo, hi)\<close> for each \<open>i\<close> of a list.\<close>

definition fill_shard :: "(bytes \<Rightarrow> bytes) \<Rightarrow> nat \<Rightarrow> nat \<Rightarrow> nat \<Rightarrow> bytes option list \<Rightarrow> bytes option list" where
  "fill_shard f lo hi i shards =
    (case shards ! i of None \<Rightarrow> shards | Some b \<Rightarrow> shards[i := Some (put_at b lo (f (seg b lo hi)))])"

definition combine_rows :: "nat list \<Rightarrow> (nat \<Rightarrow> bytes) \<Rightarrow> bytes list \<Rightarrow> nat \<Rightarrow> nat \<Rightarrow> bytes option list \<Rightarrow> bytes option list" where
  "combine_rows idxs row src lo hi shards =
    fold (\<lambda>i. fill_shard (\<lambda>dst. combine dst (row i) src lo hi) lo hi i) idxs shards"

section \<open>Encode and Reconstruct\<close>

definition Encode :: "schedule \<Rightarrow> nat \<Rightarrow> Code \<Rightarrow> bytes option list \<Rightarrow> bytes option list \<Rightarrow> bytes option list result" where
  "Encode sched procs c data parity =
    (if length data \<noteq> c_K c \<or> length parity \<noteq> c_M c then errf ErrOther ''parity'' ''Encode wants''
     else let whole = data @ parity
          in if None \<in> set whole then errf ErrOther ''parity'' ''nil shard''
             else case checkLens whole (length whole) of
                    Inl e \<Rightarrow> Inl e
                  | Inr _ \<Rightarrow>
                      let n = length (the (parity ! 0)); src = map the data
                      in if c_Scheme c = ParityXOR then
                           Inr (run_chunks sched procs n
                             (\<lambda>lo hi. fill_shard (\<lambda>dst. xorInto dst src lo hi) lo hi 0) parity)
                         else Inr (run_chunks sched procs n
                             (\<lambda>lo hi. combine_rows [0..<c_M c] (\<lambda>j. drop (c_K c) (c_enc c) ! j) src lo hi) parity))"

fun split_shards :: "nat \<Rightarrow> bytes option list \<Rightarrow> bool list \<Rightarrow> nat list \<Rightarrow> nat list \<Rightarrow> (nat list \<times> nat list) result" where
  "split_shards i (s # ss) (p # ps) got missing =
    (if p then
       if s = None then errf ErrOther ''parity'' ''present shard is nil''
       else split_shards (Suc i) ss ps (got @ [i]) missing
     else if s \<noteq> None then split_shards (Suc i) ss ps got (missing @ [i])
     else split_shards (Suc i) ss ps got missing)"
| "split_shards i _ _ got missing = Inr (got, missing)"

type_synonym inv_cache = "(bytes \<times> bytes list) list"

definition decodeMatrix :: "Code \<Rightarrow> inv_cache \<Rightarrow> nat list \<Rightarrow> inv_cache \<times> bytes list result" where
  "decodeMatrix c cache use =
    (let key = map word_of_nat use
     in case map_of cache key of
          Some m \<Rightarrow> (cache, Inr m)
        | None \<Rightarrow>
            case invert (map (\<lambda>r. c_enc c ! r) use) of
              Inl e \<Rightarrow> (cache, Inl e)
            | Inr m \<Rightarrow>
                let cache = (if length cache > 64 then [] else cache)
                in ((key, m) # cache, Inr m))"

text \<open>
  \<open>Reconstruct\<close> writes into the shards and may fail after a write: the result is the cache, the
  shards and the error, if any.
\<close>

definition Reconstruct ::
  "schedule \<Rightarrow> nat \<Rightarrow> Code \<Rightarrow> inv_cache \<Rightarrow> bytes option list \<Rightarrow> bool list \<Rightarrow>
   inv_cache \<times> bytes option list \<times> error option" where
  "Reconstruct sched procs c cache shards present =
    (let n = c_K c + c_M c; fail = (\<lambda>e. (cache, shards, Some e))
     in if length shards \<noteq> n \<or> length present \<noteq> n then fail (Err ErrOther ''parity'' ''Reconstruct wants'')
        else case split_shards 0 shards present [] [] of
          Inl e \<Rightarrow> fail e
        | Inr (got, missing) \<Rightarrow>
          if length got < c_K c then fail (Err ErrTooFewShards ''parity'' ''Reconstruct'')
          else if missing = [] then (cache, shards, None)
          else case checkLens shards n of
            Inl e \<Rightarrow> fail e
          | Inr sz \<Rightarrow>
            if c_Scheme c = ParityXOR then
              if length missing > 1 then fail (Err ErrTooFewShards ''parity'' ''XOR rebuilds one shard'')
              else let srcs = map (\<lambda>i. the (shards ! i)) got
                   in (cache, run_chunks sched procs (nat sz)
                        (\<lambda>lo hi. fill_shard (\<lambda>dst. xorInto dst srcs lo hi) lo hi (missing ! 0)) shards, None)
            else let use = take (c_K c) got
              in case decodeMatrix c cache use of
                (cache, Inl e) \<Rightarrow> (cache, shards, Some e)
              | (cache, Inr dec) \<Rightarrow>
                let srcs = map (\<lambda>r. the (shards ! r)) use;
                    dataMissing = filter (\<lambda>i. i < c_K c) missing;
                    parityMissing = filter (\<lambda>i. \<not> i < c_K c) missing;
                    shards = run_chunks sched procs (nat sz)
                      (\<lambda>lo hi. combine_rows dataMissing (\<lambda>i. dec ! i) srcs lo hi) shards
                in if parityMissing = [] then (cache, shards, None)
                   else let data = take (c_K c) shards
                     in if None \<in> set data then
                          (cache, shards, Some (Err ErrOther ''parity'' ''rebuilding parity needs every data shard buffer''))
                        else (cache, run_chunks sched procs (nat sz)
                          (\<lambda>lo hi. combine_rows parityMissing (\<lambda>i. c_enc c ! i) (map the data) lo hi) shards, None))"

section \<open>Vandermonde systems\<close>

text \<open>A polynomial by its coefficients, lowest first, and its synth by \<open>x - a\<close>.\<close>

primrec horner :: "gf list \<Rightarrow> gf \<Rightarrow> gf" where
  "horner [] x = 0"
| "horner (c # cs) x = c + x * horner cs x"

primrec synth :: "gf \<Rightarrow> gf list \<Rightarrow> gf list" where
  "synth a [] = []"
| "synth a (c # cs) = horner (c # cs) a # synth a cs"

lemma length_synth [simp]: "length (synth a cs) = length cs"
  by (induction cs) simp_all

lemma horner_divide: "horner (c # cs) x = horner (c # cs) a + (x - a) * horner (synth a cs) x"
  by (induction cs arbitrary: c) (simp_all add: algebra_simps)

lemma synth_zero: "set (synth a cs) \<subseteq> {0} \<Longrightarrow> set cs \<subseteq> {0}"
proof (induction cs)
  case (Cons c cs)
  then have "set cs \<subseteq> {0}" by simp
  moreover from this have "horner cs a = 0" by (induction cs) auto
  ultimately show ?case using Cons.prems by simp
qed simp

lemma horner_roots:
  "finite S \<Longrightarrow> (\<And>x. x \<in> S \<Longrightarrow> horner cs x = 0) \<Longrightarrow> length cs \<le> card S \<Longrightarrow> set cs \<subseteq> {0}"
proof (induction cs arbitrary: S rule: measure_induct_rule[of length])
  case (less cs)
  show ?case
  proof (cases cs)
    case (Cons c cs')
    with less.prems obtain a where a: "a \<in> S" by fastforce
    let ?q = "synth a cs'"
    have "set ?q \<subseteq> {0}"
    proof (rule less.IH)
      show "horner ?q x = 0" if "x \<in> S - {a}" for x
        using horner_divide[of c cs' x a] less.prems(2)[OF a] less.prems(2)[of x] that
        by (auto simp: Cons gf_add_eq_0)
    qed (use Cons less.prems a in auto)
    then have "set cs' \<subseteq> {0}" by (rule synth_zero)
    moreover from this have "horner cs' a = 0" by (induction cs') auto
    ultimately show ?thesis using less.prems(2)[OF a] Cons by simp
  qed simp
qed

lemma horner_sum: "horner (map f [0..<n]) x = (\<Sum>c<n. x ^ c * f c)"
proof -
  have "horner (map (\<lambda>i. f (i + k)) [0..<n]) x = (\<Sum>c<n. x ^ c * f (c + k))" for k
  proof (induction n arbitrary: k)
    case (Suc n)
    have "horner (map (\<lambda>i. f (i + k)) [0..<Suc n]) x = f k + x * horner (map (\<lambda>i. f (i + Suc k)) [0..<n]) x"
      by (simp add: upt_conv_Cons map_Suc_upt[symmetric] comp_def del: upt_Suc)
    also have "\<dots> = (\<Sum>c<Suc n. x ^ c * f (c + k))"
      using Suc[of "Suc k"]
      by (simp add: sum.lessThan_Suc_shift sum_distrib_left mult.assoc del: sum.lessThan_Suc)
    finally show ?case .
  qed simp
  from this[of 0] show ?thesis by simp
qed

lemma vandermonde_shape: "shaped n k (vandermonde n k)"
  by (simp add: shaped_def vandermonde_def)

lemma mrow_vandermonde:
  "i < n \<Longrightarrow> mrow k (vandermonde n k) x i = horner (map x [0..<k]) (GF (word_of_nat i))"
  by (simp add: mrow_def vandermonde_def GF_gfPow horner_sum)

text \<open>Any \<open>k\<close> rows of the Vandermonde matrix determine the vector.\<close>

lemma vandermonde_determines:
  assumes "S \<subseteq> {..<n}" "n \<le> 256" "card S = k" "\<And>i. i \<in> S \<Longrightarrow> mrow k (vandermonde n k) x i = 0" "c < k"
  shows "x c = 0"
proof -
  have "inj_on (\<lambda>i. GF (word_of_nat i)) {..<n}"
  proof (rule inj_onI)
    fix i j assume "i \<in> {..<n}" "j \<in> {..<n}" "GF (word_of_nat i) = GF (word_of_nat j)"
    then show "i = j" using assms(2) by (simp add: word_of_nat_eq_iff take_bit_nat_eq_self)
  qed
  then have "inj_on (\<lambda>i. GF (word_of_nat i)) S" using assms(1) inj_on_subset by blast
  then have "card ((\<lambda>i. GF (word_of_nat i)) ` S) = k" by (simp add: card_image assms(3))
  moreover have "finite S" using assms(1) finite_subset by blast
  moreover have "horner (map x [0..<k]) y = 0" if y: "y \<in> (\<lambda>i. GF (word_of_nat i)) ` S" for y
  proof -
    obtain i where i: "i \<in> S" "y = GF (word_of_nat i)" using y by auto
    moreover from i assms(1) have "i < n" by auto
    ultimately show ?thesis using assms(4)[of i] mrow_vandermonde[of i n k x] by simp
  qed
  ultimately have "set (map x [0..<k]) \<subseteq> {0}"
    by (intro horner_roots[of "(\<lambda>i. GF (word_of_nat i)) ` S"]) auto
  moreover have "x c \<in> set (map x [0..<k])" using assms(5) by simp
  ultimately show ?thesis by blast
qed

section \<open>The encoding matrix is systematic and of full rank\<close>

definition valid_code :: "nat \<Rightarrow> nat \<Rightarrow> bool" where
  "valid_code k m \<longleftrightarrow> 1 \<le> k \<and> 1 \<le> m \<and> k + m \<le> MaxParityShards"

lemma mrow_take: "i < k \<Longrightarrow> mrow n (take k m) x i = mrow n m x i"
  by (simp add: mrow_def)

text \<open>\<open>EncodingMatrix\<close> factors through the Vandermonde matrix by an invertible map of the data.\<close>

lemma EncodingMatrix_factors:
  assumes "valid_code k m"
  obtains E ti where "EncodingMatrix k m = Inr E" "shaped (k + m) k E"
    "\<And>x i. i < k + m \<Longrightarrow> mrow k E x i = mrow k (vandermonde (k + m) k) (mrow k ti x) i"
    "solves k (take k (vandermonde (k + m) k)) ti"
proof -
  let ?v = "vandermonde (k + m) k"
  have t: "shaped k k (take k ?v)" by (simp add: shaped_def vandermonde_def)
  have "trivial_kernel k (take k ?v)"
    unfolding trivial_kernel_def
  proof (intro allI impI)
    fix x c assume z: "\<forall>i<k. mrow k (take k ?v) x i = 0" and "c < k"
    moreover have "k + m \<le> 256" "{..<k} \<subseteq> {..<k + m}" using assms by (auto simp: valid_code_def)
    ultimately show "x c = 0"
      using vandermonde_determines[of "{..<k}" "k + m" k x c] by (simp add: mrow_take)
  qed
  with t obtain ti where ti: "invert (take k ?v) = Inr ti" "solves k (take k ?v) ti"
    by (rule invert_succeeds)
  have k: "0 < k" and sti: "shaped k k ti" using assms ti(2) by (auto simp: valid_code_def solves_def)
  show ?thesis
  proof (rule that[of "matMul ?v ti"])
    show "EncodingMatrix k m = Inr (matMul ?v ti)"
      using assms ti by (simp add: EncodingMatrix_def valid_code_def)
    show "shaped (k + m) k (matMul ?v ti)" by (rule shaped_matMul[OF vandermonde_shape sti k])
    show "mrow k (matMul ?v ti) x i = mrow k ?v (mrow k ti x) i" if "i < k + m" for x i
      by (rule mrow_matMul[OF vandermonde_shape sti k that])
  qed (rule ti(2))
qed

lemma EncodingMatrix_total: "valid_code k m \<Longrightarrow> \<exists>E. EncodingMatrix k m = Inr E"
  by (metis EncodingMatrix_factors)

lemma EncodingMatrix_valid: "EncodingMatrix k m = Inr E \<Longrightarrow> valid_code k m"
  by (auto simp: EncodingMatrix_def valid_code_def Let_def split: if_splits)

lemma EncodingMatrix_shape: "EncodingMatrix k m = Inr E \<Longrightarrow> shaped (k + m) k E"
  by (metis EncodingMatrix_factors EncodingMatrix_valid Inr_inject)

lemma EncodingMatrix_systematic:
  assumes "EncodingMatrix k m = Inr E" "i < k"
  shows "mrow k E x i = x i"
proof -
  obtain ti where f: "\<And>x i. i < k + m \<Longrightarrow> mrow k E x i = mrow k (vandermonde (k + m) k) (mrow k ti x) i"
    and ti: "solves k (take k (vandermonde (k + m) k)) ti"
    using EncodingMatrix_factors[OF EncodingMatrix_valid[OF assms(1)]] assms(1) by (metis Inr_inject)
  then show ?thesis using assms(2) solves_both_sides(2)[OF ti assms(2)] by (simp add: mrow_take)
qed

lemma EncodingMatrix_determines:
  assumes "EncodingMatrix k m = Inr E" "S \<subseteq> {..<k + m}" "card S = k"
    and "\<And>i. i \<in> S \<Longrightarrow> mrow k E x i = 0" "c < k"
  shows "x c = 0"
proof -
  have v: "valid_code k m" using assms(1) by (rule EncodingMatrix_valid)
  obtain ti where f: "\<And>x i. i < k + m \<Longrightarrow> mrow k E x i = mrow k (vandermonde (k + m) k) (mrow k ti x) i"
    and ti: "solves k (take k (vandermonde (k + m) k)) ti"
    using EncodingMatrix_factors[OF v] assms(1) by (metis Inr_inject)
  have "mrow k (vandermonde (k + m) k) (mrow k ti x) i = 0" if "i \<in> S" for i
    using assms(2,4) f[of i x] that by auto
  then have "mrow k ti x j = 0" if "j < k" for j
    using vandermonde_determines[OF assms(2) _ assms(3)] v that by (auto simp: valid_code_def)
  then have "mrow k (take k (vandermonde (k + m) k)) (mrow k ti x) c = 0"
    by (simp add: mrow_def[of k "take k _"])
  then show ?thesis using solves_both_sides(2)[OF ti assms(5)] by simp
qed

text \<open>So the matrix of any \<open>k\<close> distinct rows is invertible.\<close>

lemma EncodingMatrix_any_rows:
  assumes "EncodingMatrix k m = Inr E" "distinct use" "set use \<subseteq> {..<k + m}" "length use = k"
  obtains dec where "invert (map (\<lambda>r. E ! r) use) = Inr dec" "solves k (map (\<lambda>r. E ! r) use) dec"
proof -
  let ?s = "map (\<lambda>r. E ! r) use"
  have "use ! i < k + m" if "i < k" for i using assms(3,4) that by (metis lessThan_iff nth_mem subsetD)
  then have sh: "shaped k k ?s"
    using EncodingMatrix_shape[OF assms(1)] assms(4) by (simp add: shaped_def)
  have row: "mrow k ?s x i = mrow k E x (use ! i)" if "i < k" for x i
    using that assms(4) by (simp add: mrow_def)
  have "trivial_kernel k ?s"
    unfolding trivial_kernel_def
  proof (intro allI impI)
    fix x c assume z: "\<forall>i<k. mrow k ?s x i = 0" and c: "c < k"
    have "mrow k E x r = 0" if "r \<in> set use" for r
      using that z row assms(4) by (metis in_set_conv_nth)
    then show "x c = 0"
      using EncodingMatrix_determines[OF assms(1,3) _ _ c] assms(2,4) by (auto simp: distinct_card)
  qed
  with sh show ?thesis using that by (rule invert_succeeds)
qed

section \<open>What the kernels compute\<close>

lemma over_nth:
  assumes "length s = length dst"
  shows "length (over f dst s) = length dst" "p < length dst \<Longrightarrow> over f dst s ! p = f (dst ! p) (s ! p)"
  using assms by (simp_all add: over_def nth_append)

lemma combine_loop_sum:
  assumes "\<And>s. s \<in> set src \<Longrightarrow> hi \<le> length s" "length dst = hi - lo"
  shows "length (combine_loop coef lo hi j first dst src) = hi - lo \<and>
    (\<forall>p < hi - lo. GF (combine_loop coef lo hi j first dst src ! p) =
      (if first then 0 else GF (dst ! p)) + (\<Sum>i<length src. GF (coef ! (j + i)) * GF (src ! i ! (lo + p))))"
  using assms
proof (induction src arbitrary: j first dst)
  case Nil
  then show ?case by (simp add: GF_simps)
next
  case (Cons s src)
  let ?s = "seg s lo hi"
  have s: "length ?s = length dst" "\<And>p. p < length dst \<Longrightarrow> ?s ! p = s ! (lo + p)"
    using Cons.prems by (auto simp: nth_seg)
  have src: "\<And>s. s \<in> set src \<Longrightarrow> hi \<le> length s" using Cons.prems by simp
  have IH: "length (combine_loop coef lo hi (Suc j) fi d src) = hi - lo \<and>
    (\<forall>p < hi - lo. GF (combine_loop coef lo hi (Suc j) fi d src ! p) =
      (if fi then 0 else GF (d ! p)) + (\<Sum>i<length src. GF (coef ! (j + Suc i)) * GF (src ! i ! (lo + p))))"
    if "length d = hi - lo" for fi d using Cons.IH[OF src that, where j = "Suc j"] by simp
  have mul: "GF (mulTable ! unat c ! unat v) = GF c * GF v" for c v
    by (simp add: GF_simps flip: gfMul_def)
  show ?case
    using Cons.prems(2) s
    by (auto simp: Let_def IH over_nth mul sum.lessThan_Suc_shift GF_simps add.assoc
        simp del: length_seg sum.lessThan_Suc)
qed

lemma combine_nth:
  assumes "\<And>s. s \<in> set src \<Longrightarrow> hi \<le> length s" "length dst = hi - lo"
  shows "length (combine dst coef src lo hi) = hi - lo"
    "p < hi - lo \<Longrightarrow> GF (combine dst coef src lo hi ! p) = (\<Sum>j<length src. GF (coef ! j) * GF (src ! j ! (lo + p)))"
  using combine_loop_sum[OF assms, where j = 0 and first = True] by (simp_all add: combine_def)

lemma xorInto_nth:
  assumes "\<And>s. s \<in> set src \<Longrightarrow> hi \<le> length s" "length dst = hi - lo" "src \<noteq> []"
  shows "length (xorInto dst src lo hi) = hi - lo"
    "p < hi - lo \<Longrightarrow> GF (xorInto dst src lo hi ! p) = (\<Sum>j<length src. GF (src ! j ! (lo + p)))"
proof -
  have loop: "length (fold (\<lambda>s dst. over (XOR) dst (seg s lo hi)) ss d) = hi - lo \<and>
    (\<forall>p < hi - lo. GF (fold (\<lambda>s dst. over (XOR) dst (seg s lo hi)) ss d ! p) =
       GF (d ! p) + (\<Sum>j<length ss. GF (ss ! j ! (lo + p))))"
    if "\<And>s. s \<in> set ss \<Longrightarrow> hi \<le> length s" "length d = hi - lo" for ss d
    using that
  proof (induction ss arbitrary: d)
    case (Cons s ss)
    have "length (seg s lo hi) = length d" using Cons.prems by simp
    then show ?case using Cons
      by (simp add: over_nth nth_seg GF_simps sum.lessThan_Suc_shift add.assoc del: sum.lessThan_Suc length_seg)
  qed simp
  obtain s ss where src: "src = s # ss" using assms(3) by (cases src) auto
  have l: "length (seg s lo hi) = length dst" using assms src by simp
  show "length (xorInto dst src lo hi) = hi - lo"
    "p < hi - lo \<Longrightarrow> GF (xorInto dst src lo hi ! p) = (\<Sum>j<length src. GF (src ! j ! (lo + p)))"
    using loop[of ss "over (\<lambda>d v. v) dst (seg s lo hi)"] assms l
    by (simp_all add: src over_nth nth_seg sum.lessThan_Suc_shift del: sum.lessThan_Suc length_seg)
qed

section \<open>The chunks cover the range\<close>

definition covered :: "(nat \<times> nat) list \<Rightarrow> nat \<Rightarrow> bool" where
  "covered cs p \<longleftrightarrow> (\<exists>(lo, hi) \<in> set cs. lo \<le> p \<and> p < hi)"

lemma covered_chunks: "0 < chunk \<Longrightarrow> lo \<le> p \<Longrightarrow> p < n \<Longrightarrow> covered (chunks n chunk lo) p"
proof (induction n chunk lo rule: chunks.induct)
  case (1 n chunk lo)
  then show ?case
    by (cases "p < lo + chunk") (auto simp: covered_def chunks.simps[of n chunk lo])
qed

lemma chunks_bounds: "(a, b) \<in> set (chunks n chunk lo) \<Longrightarrow> lo \<le> a \<and> a \<le> b \<and> b \<le> n"
proof (induction n chunk lo rule: chunks.induct)
  case (1 n chunk lo)
  then show ?case by (auto simp: chunks.simps[of n chunk lo] split: if_splits)
qed

lemma disjoint_chunks:
  "sorted_wrt (\<lambda>(a, b) (c, d). b \<le> c) (chunks n chunk lo)"
proof (induction n chunk lo rule: chunks.induct)
  case (1 n chunk lo)
  have "min (lo + chunk) n \<le> c" if "(c, d) \<in> set (chunks n chunk (lo + chunk))" for c d
    using chunks_bounds[OF that] by simp
  with 1 show ?case by (auto simp: chunks.simps[of n chunk lo])
qed

lemma chunk_positive: "1 < w \<Longrightarrow> w \<le> n \<Longrightarrow> 0 < ((n + w - 1) div w + 63) div 64 * (64 :: nat)"
proof -
  assume "1 < w" "w \<le> n"
  then have "w div w \<le> (n + w - 1) div w" by (intro div_le_mono) simp
  then show ?thesis using \<open>1 < w\<close> by (simp add: div_greater_zero_iff)
qed

lemma parallel_covers: "p < n \<Longrightarrow> covered (parallel procs n) p"
  and parallel_bounds: "(a, b) \<in> set (parallel procs n) \<Longrightarrow> a \<le> b \<and> b \<le> n"
  and parallel_disjoint: "sorted_wrt (\<lambda>(a, b) (c, d). b \<le> c) (parallel procs n)"
proof -
  let ?w = "min procs (n div (256 * 1024))"
  have w: "?w \<le> n" by (rule order_trans[OF min.cobounded2 div_le_dividend])
  show "p < n \<Longrightarrow> covered (parallel procs n) p"
    using chunk_positive[OF _ w] covered_chunks[of _ 0 p n]
    by (auto simp: parallel_def Let_def covered_def[of "[_]"] simp del: min_less_iff_conj)
  show "(a, b) \<in> set (parallel procs n) \<Longrightarrow> a \<le> b \<and> b \<le> n"
    by (auto simp: parallel_def Let_def dest: chunks_bounds split: if_splits)
  show "sorted_wrt (\<lambda>(a, b) (c, d). b \<le> c) (parallel procs n)"
    by (simp add: parallel_def Let_def disjoint_chunks)
qed

lemma length_chunks: "n \<le> lo + k * chunk \<Longrightarrow> length (chunks n chunk lo) \<le> k"
proof (induction n chunk lo arbitrary: k rule: chunks.induct)
  case (1 n chunk lo)
  show ?case
  proof (cases "lo < n \<and> 0 < chunk")
    case True
    with "1.prems" obtain k' where "k = Suc k'" by (cases k) auto
    then show ?thesis using "1.IH"[OF True, of k'] "1.prems" True by (simp add: chunks.simps[of n chunk lo])
  next
    case False
    then have "chunks n chunk lo = []" by (subst chunks.simps) simp
    then show ?thesis by simp
  qed
qed

lemma chunk_enough:
  fixes n w :: nat
  assumes "0 < w"
  shows "n \<le> w * (((n + w - 1) div w + 63) div 64 * 64)"
proof -
  let ?c = "(n + w - 1) div w"
  have "n + w - 1 = w * ?c + (n + w - 1) mod w" by simp
  moreover have "(n + w - 1) mod w < w" using assms by simp
  ultimately have "n \<le> w * ?c" by linarith
  also have "x \<le> (x + 63) div 64 * 64" for x :: nat by presburger
  then have "w * ?c \<le> w * ((?c + 63) div 64 * 64)" by (rule mult_le_mono2)
  finally show ?thesis .
qed

lemma length_parallel:
  assumes "1 \<le> procs"
  shows "length (parallel procs n) \<le> procs"
proof -
  define w where "w = min procs (n div (256 * 1024))"
  have "w \<le> procs" by (simp add: w_def)
  show ?thesis
  proof (cases "w \<le> 1")
    case True
    then show ?thesis using assms unfolding parallel_def Let_def w_def[symmetric] by simp
  next
    case False
    then have "length (parallel procs n) \<le> w"
      unfolding parallel_def Let_def w_def[symmetric]
      using length_chunks[of n 0 w] chunk_enough[of w n] by simp
    then show ?thesis using \<open>w \<le> procs\<close> by simp
  qed
qed

section \<open>A stage of concurrent writes\<close>

text \<open>A buffer whose covered positions hold the target.\<close>

definition painted :: "bytes \<Rightarrow> (nat \<times> nat) list \<Rightarrow> bytes \<Rightarrow> bytes" where
  "painted g cs b = map (\<lambda>p. if covered cs p then g ! p else b ! p) [0..<length b]"

lemma painted_Nil [simp]: "painted g [] b = b"
  by (simp add: painted_def covered_def map_nth)

lemma painted_all: "length g = length b \<Longrightarrow> (\<And>p. p < length b \<Longrightarrow> covered cs p) \<Longrightarrow> painted g cs b = g"
  by (rule nth_equalityI) (simp_all add: painted_def)

lemma painted_snoc:
  assumes "lo \<le> hi" "hi \<le> length b" "length g = length b"
  shows "put_at (painted g cs b) lo (seg g lo hi) = painted g (cs @ [(lo, hi)]) b"
  using assms by (intro nth_equalityI) (auto simp: painted_def nth_put_at nth_seg covered_def)

text \<open>The kernels of a stage write the range of a target that does not depend on the buffer.\<close>

definition writes :: "(nat \<Rightarrow> nat \<Rightarrow> nat \<Rightarrow> bytes \<Rightarrow> bytes) \<Rightarrow> (nat \<Rightarrow> bytes) \<Rightarrow> nat \<Rightarrow> nat list \<Rightarrow> bool" where
  "writes f g n idxs \<longleftrightarrow> (\<forall>i \<in> set idxs. length (g i) = n \<and>
     (\<forall>lo hi dst. lo \<le> hi \<longrightarrow> hi \<le> n \<longrightarrow> length dst = hi - lo \<longrightarrow> f i lo hi dst = seg (g i) lo hi))"

definition filled :: "(nat \<Rightarrow> bytes) \<Rightarrow> nat list \<Rightarrow> (nat \<times> nat) list \<Rightarrow> bytes option list \<Rightarrow> bytes option list" where
  "filled g idxs cs shards =
     map (\<lambda>i. if i \<in> set idxs then map_option (painted (g i) cs) (shards ! i) else shards ! i) [0..<length shards]"

lemma fill_shard_nth:
  "length (fill_shard F lo hi i sh) = length sh"
  "i < length sh \<Longrightarrow> q < length sh \<Longrightarrow> fill_shard F lo hi i sh ! q =
     (if q = i then map_option (\<lambda>b. put_at b lo (F (seg b lo hi))) (sh ! q) else sh ! q)"
  by (auto simp: fill_shard_def nth_list_update split: option.splits)

lemma length_fold_fill [simp]: "length (fold (\<lambda>i. fill_shard (F i) lo hi i) idxs sh) = length sh"
  by (induction idxs arbitrary: sh) (simp_all add: fill_shard_nth)

lemma fold_fill_nth:
  assumes "distinct idxs" "set idxs \<subseteq> {..<length sh}" "q < length sh"
  shows "fold (\<lambda>i. fill_shard (F i) lo hi i) idxs sh ! q =
      (if q \<in> set idxs then map_option (\<lambda>b. put_at b lo (F q (seg b lo hi))) (sh ! q) else sh ! q)"
  using assms by (induction idxs arbitrary: sh) (simp_all add: fill_shard_nth)

definition sized :: "nat \<Rightarrow> bytes option list \<Rightarrow> bool" where
  "sized n shards \<longleftrightarrow> (\<forall>b. Some b \<in> set shards \<longrightarrow> length b = n)"

lemma sizedD: "sized n shards \<Longrightarrow> i < length shards \<Longrightarrow> shards ! i = Some b \<Longrightarrow> length b = n"
  by (auto simp: sized_def) (metis nth_mem)

lemma stage_chunk:
  assumes "distinct idxs" "set idxs \<subseteq> {..<length shards}" "sized n shards" "writes f g n idxs"
    and "lo \<le> hi" "hi \<le> n"
  shows "fold (\<lambda>i. fill_shard (f i lo hi) lo hi i) idxs (filled g idxs cs shards) =
    filled g idxs (cs @ [(lo, hi)]) shards"
proof (rule nth_equalityI)
  let ?s = "filled g idxs cs shards"
  have len: "length ?s = length shards" by (simp add: filled_def)
  with assms(2) have sub: "set idxs \<subseteq> {..<length ?s}" by simp
  note step = fold_fill_nth[OF assms(1) sub, where F = "\<lambda>i. f i lo hi"]
  show "length (fold (\<lambda>i. fill_shard (f i lo hi) lo hi i) idxs ?s) =
      length (filled g idxs (cs @ [(lo, hi)]) shards)"
    by (simp add: filled_def)
  fix q assume "q < length (fold (\<lambda>i. fill_shard (f i lo hi) lo hi i) idxs ?s)"
  then have q: "q < length shards" by (simp add: filled_def)
  have "put_at (painted (g q) cs b) lo (f q lo hi (seg (painted (g q) cs b) lo hi)) =
      painted (g q) (cs @ [(lo, hi)]) b" if "q \<in> set idxs" "shards ! q = Some b" for b
  proof -
    have b: "length b = n" using assms(3) q that(2) by (rule sizedD)
    then have "f q lo hi (seg (painted (g q) cs b) lo hi) = seg (g q) lo hi"
      using assms(4-6) that(1) by (simp add: writes_def painted_def)
    then show ?thesis using painted_snoc[of lo hi b "g q" cs] assms(4-6) b that(1) by (simp add: writes_def)
  qed
  then show "fold (\<lambda>i. fill_shard (f i lo hi) lo hi i) idxs ?s ! q =
      filled g idxs (cs @ [(lo, hi)]) shards ! q"
    using step[of q] q len by (cases "shards ! q") (auto simp: filled_def)
qed

text \<open>
  Whatever the order of the chunks, the stage writes the targets.
\<close>

lemma stage_result:
  assumes "\<And>xs. mset (sched xs) = mset xs"
    and "distinct idxs" "set idxs \<subseteq> {..<length shards}" "sized n shards" "writes f g n idxs"
  shows "run_chunks sched procs n (\<lambda>lo hi. fold (\<lambda>i. fill_shard (f i lo hi) lo hi i) idxs) shards =
    map (\<lambda>i. if i \<in> set idxs then map_option (\<lambda>_. g i) (shards ! i) else shards ! i) [0..<length shards]"
proof -
  let ?cs = "sched (parallel procs n)"
  have set: "set ?cs = set (parallel procs n)" using assms(1) by (metis set_mset_mset)
  have "fold (\<lambda>(lo, hi). fold (\<lambda>i. fill_shard (f i lo hi) lo hi i) idxs) cs (filled g idxs [] shards) =
      filled g idxs cs shards" if "set cs \<subseteq> set ?cs" for cs
    using that
  proof (induction cs rule: rev_induct)
    case (snoc x cs)
    then obtain lo hi where "x = (lo, hi)" "lo \<le> hi" "hi \<le> n"
      using parallel_bounds by (cases x) (auto simp: set)
    then show ?case using snoc stage_chunk[OF assms(2-5)] by simp
  qed simp
  moreover have "filled g idxs [] shards = shards"
  proof -
    have "painted (g i) [] = (\<lambda>b. b)" for i by (rule ext) simp
    then show ?thesis by (intro nth_equalityI) (auto simp: filled_def option.map_ident)
  qed
  ultimately have "run_chunks sched procs n (\<lambda>lo hi. fold (\<lambda>i. fill_shard (f i lo hi) lo hi i) idxs) shards =
      filled g idxs ?cs shards" by (simp add: run_chunks_def)
  moreover have "covered ?cs p" if "p < n" for p
    using parallel_covers[OF that, of procs] by (simp add: covered_def set)
  moreover have "map_option (painted (g i) ?cs) (shards ! i) = map_option (\<lambda>_. g i) (shards ! i)"
    if "i \<in> set idxs" "i < length shards" for i
  proof (cases "shards ! i")
    case (Some b)
    then have "length b = n" using assms(4) that(2) by (simp add: sizedD)
    then show ?thesis using Some assms(5) that(1) calculation(2) by (simp add: painted_all writes_def)
  qed simp
  ultimately show ?thesis by (simp add: filled_def)
qed

section \<open>Stripes\<close>

text \<open>A linear combination of shards, byte by byte.\<close>

definition linear :: "nat \<Rightarrow> bytes \<Rightarrow> bytes list \<Rightarrow> bytes" where
  "linear n coef src = map (\<lambda>p. byte_of (\<Sum>j<length src. GF (coef ! j) * GF (src ! j ! p))) [0..<n]"

lemma length_linear [simp]: "length (linear n coef src) = n"
  by (simp add: linear_def)

lemma GF_linear: "p < n \<Longrightarrow> GF (linear n coef src ! p) = (\<Sum>j<length src. GF (coef ! j) * GF (src ! j ! p))"
  by (simp add: linear_def byte_of_inverse)

lemma bytes_eqI:
  "length a = n \<Longrightarrow> length b = n \<Longrightarrow> (\<And>p. p < n \<Longrightarrow> GF (a ! p) = GF (b ! p)) \<Longrightarrow> a = b"
  by (rule nth_equalityI) auto

lemma writes_combine:
  assumes "\<And>s. s \<in> set src \<Longrightarrow> length s = n"
  shows "writes (\<lambda>i lo hi dst. combine dst (row i) src lo hi) (\<lambda>i. linear n (row i) src) n idxs"
  unfolding writes_def
proof (intro ballI conjI allI impI)
  fix i lo hi and dst :: bytes assume "lo \<le> hi" "hi \<le> n" "length dst = hi - lo"
  then show "combine dst (row i) src lo hi = seg (linear n (row i) src) lo hi"
    using assms by (intro bytes_eqI[where n = "hi - lo"]) (simp_all add: combine_nth nth_seg GF_linear)
qed simp

lemma writes_xor:
  assumes "\<And>s. s \<in> set src \<Longrightarrow> length s = n" "src \<noteq> []"
  shows "writes (\<lambda>i lo hi dst. xorInto dst src lo hi) (\<lambda>i. linear n (replicate (length src) 1) src) n idxs"
  unfolding writes_def
proof (intro ballI conjI allI impI)
  fix i lo hi and dst :: bytes assume "lo \<le> hi" "hi \<le> n" "length dst = hi - lo"
  then show "xorInto dst src lo hi = seg (linear n (replicate (length src) 1) src) lo hi"
    using assms by (intro bytes_eqI[where n = "hi - lo"]) (simp_all add: xorInto_nth nth_seg GF_linear GF_simps)
qed simp

text \<open>The coefficients of shard \<open>i\<close> of a stripe over the data shards, and the stripe.\<close>

definition coefs :: "Code \<Rightarrow> nat \<Rightarrow> bytes" where
  "coefs c i = (if c_Scheme c = ParityXOR
     then if i < c_K c then map (\<lambda>j. if i = j then 1 else 0) [0..<c_K c] else replicate (c_K c) 1
     else c_enc c ! i)"

definition stripe :: "Code \<Rightarrow> nat \<Rightarrow> bytes list \<Rightarrow> bytes list" where
  "stripe c n data = map (\<lambda>i. linear n (coefs c i) data) [0..<c_K c + c_M c]"

definition good_code :: "Code \<Rightarrow> bool" where
  "good_code c \<longleftrightarrow>
     c_Scheme c = ParityXOR \<and> 1 \<le> c_K c \<and> c_M c = 1 \<and> c_K c + c_M c \<le> MaxParityShards \<or>
     c_Scheme c = ParityRS \<and> EncodingMatrix (c_K c) (c_M c) = Inr (c_enc c)"

definition shards_of :: "Code \<Rightarrow> nat \<Rightarrow> bytes list \<Rightarrow> bool" where
  "shards_of c n data \<longleftrightarrow> length data = c_K c \<and> (\<forall>s \<in> set data. length s = n)"

lemma length_stripe [simp]: "length (stripe c n data) = c_K c + c_M c"
  by (simp add: stripe_def)

lemma stripe_nth: "i < c_K c + c_M c \<Longrightarrow> stripe c n data ! i = linear n (coefs c i) data"
  by (simp add: stripe_def)

lemma GF_stripe_RS:
  assumes "c_Scheme c = ParityRS" "shards_of c n data" "i < c_K c + c_M c" "p < n"
  shows "GF (stripe c n data ! i ! p) = mrow (c_K c) (c_enc c) (\<lambda>j. GF (data ! j ! p)) i"
  using assms by (simp add: stripe_nth GF_linear mrow_def coefs_def shards_of_def)

text \<open>The codes are systematic: the data shards are the first of the stripe.\<close>

lemma stripe_data:
  assumes "good_code c" "shards_of c n data" "i < c_K c"
  shows "stripe c n data ! i = data ! i"
proof (rule bytes_eqI)
  show "length (stripe c n data ! i) = n" "length (data ! i) = n"
    using assms by (simp_all add: stripe_nth shards_of_def)
  fix p assume p: "p < n"
  show "GF (stripe c n data ! i ! p) = GF (data ! i ! p)"
  proof (cases "c_Scheme c = ParityXOR")
    case True
    then have "GF (stripe c n data ! i ! p) = (\<Sum>j<c_K c. GF (if i = j then 1 else 0) * GF (data ! j ! p))"
      using assms p by (simp add: stripe_nth GF_linear coefs_def shards_of_def)
    then show ?thesis using sum_unit[OF assms(3), of "\<lambda>j. GF (data ! j ! p)"] by simp
  next
    case False
    then have "c_Scheme c = ParityRS" "EncodingMatrix (c_K c) (c_M c) = Inr (c_enc c)"
      using assms(1) by (auto simp: good_code_def)
    then show ?thesis
      using GF_stripe_RS[of c n data i p] EncodingMatrix_systematic assms(2,3) p by simp
  qed
qed

section \<open>Encode\<close>

lemma checkLens_loop_sized:
  "sized n ss \<Longrightarrow> sz = - 1 \<or> sz = int n \<Longrightarrow>
   checkLens_loop sz ss = Inr (if \<exists>b. Some b \<in> set ss then int n else sz)"
  by (induction sz ss rule: checkLens_loop.induct) (auto simp: sized_def)

lemma checkLens_sized:
  "sized n shards \<Longrightarrow> Some b \<in> set shards \<Longrightarrow> checkLens shards (length shards) = Inr (int n)"
  by (auto simp: checkLens_def checkLens_loop_sized)

lemma combine_rows_stage:
  assumes "\<And>xs. mset (sched xs) = mset xs" "distinct idxs" "set idxs \<subseteq> {..<length shards}"
    and "sized n shards" "\<And>s. s \<in> set src \<Longrightarrow> length s = n"
  shows "run_chunks sched procs n (combine_rows idxs row src) shards =
    map (\<lambda>i. if i \<in> set idxs then map_option (\<lambda>_. linear n (row i) src) (shards ! i) else shards ! i)
      [0..<length shards]"
  using stage_result[OF assms(1-4) writes_combine[OF assms(5)]]
  by (simp add: combine_rows_def[abs_def])

lemma xor_stage:
  assumes "\<And>xs. mset (sched xs) = mset xs" "i < length shards"
    and "sized n shards" "\<And>s. s \<in> set src \<Longrightarrow> length s = n" "src \<noteq> []"
  shows "run_chunks sched procs n (\<lambda>lo hi. fill_shard (\<lambda>dst. xorInto dst src lo hi) lo hi i) shards =
    map (\<lambda>q. if q = i then map_option (\<lambda>_. linear n (replicate (length src) 1) src) (shards ! q) else shards ! q)
      [0..<length shards]"
  using stage_result[OF assms(1) _ _ assms(3) writes_xor[OF assms(4,5)], of "[i]"] assms(2)
  by simp

lemma coefs_parity: "\<not> i < c_K c \<Longrightarrow> coefs c i = (if c_Scheme c = ParityXOR then replicate (c_K c) 1 else c_enc c ! i)"
  by (simp add: coefs_def)

lemma sized_map_Some [simp]: "sized n (map Some xs) \<longleftrightarrow> (\<forall>s \<in> set xs. length s = n)"
  by (auto simp: sized_def)

lemma sized_append [simp]: "sized n (xs @ ys) \<longleftrightarrow> sized n xs \<and> sized n ys"
  by (auto simp: sized_def)

text \<open>\<open>Encode\<close> computes the parity shards of the stripe, whatever the buffers held.\<close>

lemma Encode_stripe:
  assumes "good_code c" "shards_of c n data" "\<And>xs. mset (sched xs) = mset xs"
    and "length buf = c_M c" "\<forall>s \<in> set buf. length s = n"
  shows "Encode sched procs c (map Some data) (map Some buf) = Inr (map Some (drop (c_K c) (stripe c n data)))"
proof -
  let ?K = "c_K c" and ?M = "c_M c"
  have K: "1 \<le> ?K" and M: "1 \<le> ?M"
    using assms(1) EncodingMatrix_valid by (auto simp: good_code_def valid_code_def)
  have len: "length data = ?K" "\<And>s. s \<in> set data \<Longrightarrow> length s = n"
    using assms(2) by (auto simp: shards_of_def)
  have n: "length (buf ! 0) = n" using assms(4,5) M by simp
  have sz: "sized n (map Some buf)" using assms(5) by simp
  have ok: "checkLens (map Some data @ map Some buf) (?K + ?M) = Inr (int n)"
    using checkLens_sized[of n "map Some data @ map Some buf" "data ! 0"] assms(4,5) len K by simp
  have par: "map Some (drop ?K (stripe c n data)) = map (\<lambda>j. Some (linear n (coefs c (?K + j)) data)) [0..<?M]"
    by (rule nth_equalityI) (simp_all add: stripe_nth)
  have nn: "None \<notin> set (map Some data @ map Some buf)" by auto
  show ?thesis
  proof (cases "c_Scheme c = ParityXOR")
    case True
    then have "?M = 1" using assms(1) by (auto simp: good_code_def)
    then obtain b where b: "buf = [b]" using assms(4) by (cases buf) auto
    have "data \<noteq> []" using K len(1) by auto
    have "run_chunks sched procs n (\<lambda>lo hi. fill_shard (\<lambda>dst. xorInto dst data lo hi) lo hi 0) (map Some buf) =
        map Some (drop ?K (stripe c n data))"
      using xor_stage[of sched 0 "map Some buf" n data procs, OF assms(3) _ sz len(2)] True len(1) b
        \<open>?M = 1\<close> \<open>data \<noteq> []\<close>
      by (auto simp: par coefs_parity)
    then show ?thesis using True nn ok n len assms(4) K M
      by (simp add: Encode_def Let_def comp_def)
  next
    case False
    have "run_chunks sched procs n (combine_rows [0..<?M] (\<lambda>j. drop ?K (c_enc c) ! j) data) (map Some buf) =
        map Some (drop ?K (stripe c n data))"
    proof (subst combine_rows_stage[OF assms(3)])
      have "length (c_enc c) = ?K + ?M"
        using assms(1) False EncodingMatrix_shape by (auto simp: good_code_def shaped_def)
      then show "map (\<lambda>i. if i \<in> set [0..<?M] then map_option (\<lambda>_. linear n (drop ?K (c_enc c) ! i) data) (map Some buf ! i)
            else map Some buf ! i) [0..<length (map Some buf)] = map Some (drop ?K (stripe c n data))"
        using assms(4) False by (auto simp: par coefs_parity)
    qed (use assms(4) sz len in auto)
    then show ?thesis using False nn ok n len assms(4) K M
      by (simp add: Encode_def Let_def comp_def)
  qed
qed

section \<open>The cache of decode matrices\<close>

definition cache_ok :: "Code \<Rightarrow> inv_cache \<Rightarrow> bool" where
  "cache_ok c cache \<longleftrightarrow> (\<forall>(key, m) \<in> set cache. \<exists>use. set use \<subseteq> {..<256} \<and>
     key = map word_of_nat use \<and> invert (map (\<lambda>r. c_enc c ! r) use) = Inr m)"

lemma map_word_of_nat_inject:
  assumes "set xs \<subseteq> {..<256}" "set ys \<subseteq> {..<256}" "map word_of_nat xs = (map word_of_nat ys :: bytes)"
  shows "xs = ys"
proof -
  have "map unat (map word_of_nat xs :: bytes) = xs" if "set xs \<subseteq> {..<256}" for xs
    using that by (intro map_idI[THEN trans[OF map_map]]) (auto simp: unsigned_of_nat take_bit_nat_eq_self)
  then show ?thesis using assms by metis
qed

lemma decodeMatrix_exact:
  assumes "cache_ok c cache" "set use \<subseteq> {..<256}"
  shows "snd (decodeMatrix c cache use) = invert (map (\<lambda>r. c_enc c ! r) use)"
    "cache_ok c (fst (decodeMatrix c cache use))"
proof -
  let ?key = "map word_of_nat use :: bytes" and ?inv = "invert (map (\<lambda>r. c_enc c ! r) use)"
  have hit: "?inv = Inr m" if m: "map_of cache ?key = Some m" for m
  proof -
    have "(?key, m) \<in> set cache" using m by (rule map_of_SomeD)
    then obtain use' where "set use' \<subseteq> {..<256}" "?key = map word_of_nat use'"
      "invert (map (\<lambda>r. c_enc c ! r) use') = Inr m"
      using assms(1) by (auto simp: cache_ok_def)
    then show ?thesis using map_word_of_nat_inject[OF assms(2)] by metis
  qed
  show "snd (decodeMatrix c cache use) = ?inv"
    using hit by (auto simp: decodeMatrix_def Let_def split: option.splits sum.splits)
  show "cache_ok c (fst (decodeMatrix c cache use))"
    using assms by (auto simp: decodeMatrix_def Let_def cache_ok_def split: option.splits sum.splits)
qed

section \<open>Reconstruct\<close>

lemma split_shards_exact:
  assumes "length shards = length present" "\<And>i. i < length present \<Longrightarrow> present ! i \<Longrightarrow> shards ! i \<noteq> None"
  shows "split_shards 0 shards present [] [] =
    Inr (filter (\<lambda>i. present ! i) [0..<length present],
         filter (\<lambda>i. \<not> present ! i \<and> shards ! i \<noteq> None) [0..<length present])"
proof -
  let ?n = "length present"
  have "split_shards i (drop i shards) (drop i present) g m =
      Inr (g @ filter (\<lambda>i. present ! i) [i..<?n], m @ filter (\<lambda>i. \<not> present ! i \<and> shards ! i \<noteq> None) [i..<?n])"
    if "i \<le> ?n" for i g m
    using that
  proof (induction "?n - i" arbitrary: i g m)
    case 0
    then show ?case using assms(1) by simp
  next
    case (Suc d)
    then have i: "i < ?n" by simp
    have "drop i shards = shards ! i # drop (Suc i) shards" "drop i present = present ! i # drop (Suc i) present"
      using i assms(1) by (simp_all add: Cons_nth_drop_Suc)
    moreover have "[i..<?n] = i # [Suc i..<?n]" using i by (rule upt_conv_Cons)
    moreover have "d = ?n - Suc i" "Suc i \<le> ?n" using Suc.hyps(2) i by simp_all
    ultimately show ?case using Suc.hyps(1)[of "Suc i"] assms(2)[OF i] by simp
  qed
  from this[of 0 "[]" "[]"] show ?thesis by simp
qed

text \<open>
  What \<open>Reconstruct\<close> is given: a stripe some of whose shards are present; the entries that are
  not present are nil or buffers of the shard length with any contents.
\<close>

definition survives :: "Code \<Rightarrow> nat \<Rightarrow> bytes list \<Rightarrow> bytes option list \<Rightarrow> bool list \<Rightarrow> bool" where
  "survives c n data shards present \<longleftrightarrow>
     length shards = c_K c + c_M c \<and> length present = c_K c + c_M c \<and> sized n shards \<and>
     (\<forall>i < c_K c + c_M c. present ! i \<longrightarrow> shards ! i = Some (stripe c n data ! i))"

definition restored :: "Code \<Rightarrow> nat \<Rightarrow> bytes list \<Rightarrow> bytes option list \<Rightarrow> bytes option list" where
  "restored c n data shards = map (\<lambda>i. map_option (\<lambda>_. stripe c n data ! i) (shards ! i)) [0..<length shards]"

abbreviation present_count :: "bool list \<Rightarrow> nat" where
  "present_count present \<equiv> length (filter (\<lambda>i. present ! i) [0..<length present])"

text \<open>The data of a stripe from any \<open>k\<close> of its shards, for the Reed-Solomon code.\<close>

lemma decode_data:
  assumes "c_Scheme c = ParityRS" "good_code c" "shards_of c n data"
    and "distinct use" "set use \<subseteq> {..<c_K c + c_M c}" "length use = c_K c" "i < c_K c"
    and "invert (map (\<lambda>r. c_enc c ! r) use) = Inr dec"
  shows "linear n (dec ! i) (map (\<lambda>r. stripe c n data ! r) use) = data ! i"
proof (rule bytes_eqI)
  let ?sub = "map (\<lambda>r. c_enc c ! r) use"
  have E: "EncodingMatrix (c_K c) (c_M c) = Inr (c_enc c)" using assms(1,2) by (simp add: good_code_def)
  have dec: "solves (c_K c) ?sub dec"
    using EncodingMatrix_any_rows[OF E assms(4-6)] assms(8) by (metis Inr_inject)
  fix p assume p: "p < n"
  let ?d = "\<lambda>j. GF (data ! j ! p)"
  have "use ! j < c_K c + c_M c" if "j < c_K c" for j using assms(5,6) that by (metis lessThan_iff nth_mem subsetD)
  then have "GF (stripe c n data ! (use ! j) ! p) = mrow (c_K c) ?sub ?d j" if "j < c_K c" for j
    using GF_stripe_RS[OF assms(1,3) _ p] that assms(6) by (simp add: mrow_def)
  then have "GF (linear n (dec ! i) (map (\<lambda>r. stripe c n data ! r) use) ! p) = mrow (c_K c) dec (mrow (c_K c) ?sub ?d) i"
    using p assms(6) by (simp add: GF_linear mrow_def[of _ dec])
  then show "GF (linear n (dec ! i) (map (\<lambda>r. stripe c n data ! r) use) ! p) = GF (data ! i ! p)"
    using solves_both_sides(1)[OF dec assms(7)] by simp
qed (use assms(3,7) in \<open>auto simp: shards_of_def\<close>)

text \<open>In the XOR code each shard is the sum of all the others.\<close>

lemma xor_others:
  assumes "c_Scheme c = ParityXOR" "good_code c" "shards_of c n data" "i < c_K c + c_M c"
    and "distinct got" "set got = {..<c_K c + c_M c} - {i}"
  shows "linear n (replicate (length got) 1) (map (\<lambda>r. stripe c n data ! r) got) = stripe c n data ! i"
proof (rule bytes_eqI)
  have M: "c_M c = 1" and K: "1 \<le> c_K c" using assms(1,2) by (auto simp: good_code_def)
  fix p assume p: "p < n"
  let ?s = "\<lambda>r. GF (stripe c n data ! r ! p)"
  have "?s (c_K c) = (\<Sum>j<c_K c. GF (data ! j ! p))"
    using assms(1,3) M p by (simp add: stripe_nth GF_linear coefs_def shards_of_def GF_simps)
  also have "\<dots> = (\<Sum>j<c_K c. ?s j)"
    using stripe_data[OF assms(2,3)] by simp
  finally have "(\<Sum>r<c_K c + c_M c. ?s r) = 0" by (simp add: M)
  moreover have "(\<Sum>r<c_K c + c_M c. ?s r) = ?s i + (\<Sum>r\<in>set got. ?s r)"
    using assms(4,6) by (simp add: sum.remove)
  ultimately have "?s i = (\<Sum>r\<in>set got. ?s r)" by (simp add: gf_add_eq_0)
  also have "\<dots> = (\<Sum>j<length got. ?s (got ! j))"
    using assms(5) by (simp add: sum.distinct_set_conv_list sum_list_sum_nth atLeast0LessThan)
  finally show "GF (linear n (replicate (length got) 1) (map (\<lambda>r. stripe c n data ! r) got) ! p) = ?s i"
    using p by (simp add: GF_linear GF_simps)
qed (use assms(4) in \<open>simp_all add: stripe_nth\<close>)

text \<open>A common run up to the choice of the scheme.\<close>

lemma survives_simps:
  assumes "survives c n data shards present"
  shows "length shards = c_K c + c_M c" "length present = c_K c + c_M c" "sized n shards"
    "\<And>i. i < c_K c + c_M c \<Longrightarrow> present ! i \<Longrightarrow> shards ! i = Some (stripe c n data ! i)"
    "split_shards 0 shards present [] [] =
      Inr (filter (\<lambda>i. present ! i) [0..<c_K c + c_M c],
           filter (\<lambda>i. \<not> present ! i \<and> shards ! i \<noteq> None) [0..<c_K c + c_M c])"
  using assms split_shards_exact[of shards present] by (auto simp: survives_def)

lemma present_restored:
  "survives c n data shards present \<Longrightarrow> i < c_K c + c_M c \<Longrightarrow> present ! i \<Longrightarrow>
   map_option (\<lambda>_. stripe c n data ! i) (shards ! i) = shards ! i"
  by (simp add: survives_def)

lemma survives_checkLens:
  assumes "survives c n data shards present" "filter (\<lambda>i. \<not> present ! i \<and> shards ! i \<noteq> None) [0..<c_K c + c_M c] \<noteq> []"
  shows "checkLens shards (c_K c + c_M c) = Inr (int n)"
proof -
  obtain i b where "i < c_K c + c_M c" "shards ! i = Some b"
    using assms(2) by (auto simp: filter_empty_conv)
  then have "Some b \<in> set shards" using survives_simps(1)[OF assms(1)] by (metis nth_mem)
  then show ?thesis using checkLens_sized[of n shards b] survives_simps(1,3)[OF assms(1)] by simp
qed

lemma nothing_missing:
  assumes "survives c n data shards present" "filter (\<lambda>i. \<not> present ! i \<and> shards ! i \<noteq> None) [0..<c_K c + c_M c] = []"
  shows "restored c n data shards = shards"
proof (rule nth_equalityI)
  note sv = survives_simps[OF assms(1)]
  fix i assume "i < length (restored c n data shards)"
  then have "i < c_K c + c_M c" by (simp add: restored_def sv(1))
  then show "restored c n data shards ! i = shards ! i"
    using assms(2) sv(1) sv(4)[of i] by (cases "present ! i") (auto simp: restored_def filter_empty_conv)
qed (simp add: restored_def)

definition buffers_ok :: "Code \<Rightarrow> bytes option list \<Rightarrow> bool list \<Rightarrow> bool" where
  "buffers_ok c shards present \<longleftrightarrow> c_Scheme c = ParityXOR \<or> None \<notin> set (take (c_K c) shards) \<or>
     (\<forall>i < c_M c. present ! (c_K c + i) \<or> shards ! (c_K c + i) = None)"

lemma singleton_list: "length xs \<le> 1 \<Longrightarrow> x \<in> set xs \<Longrightarrow> xs = [x]"
  by (cases xs) auto

lemma Reconstruct_XOR:
  assumes "c_Scheme c = ParityXOR" "good_code c" "shards_of c n data" "survives c n data shards present"
    and "c_K c \<le> present_count present" "\<And>xs. mset (sched xs) = mset xs"
  shows "Reconstruct sched procs c cache shards present = (cache, restored c n data shards, None)"
proof -
  let ?N = "c_K c + c_M c"
  let ?got = "filter (\<lambda>i. present ! i) [0..<?N]" and ?missing = "filter (\<lambda>i. \<not> present ! i \<and> shards ! i \<noteq> None) [0..<?N]"
  note sv = survives_simps[OF assms(4)]
  have M: "c_M c = 1" and K: "1 \<le> c_K c" using assms(1,2) by (auto simp: good_code_def)
  have got: "c_K c \<le> length ?got" using assms(5) by (simp add: sv(2))
  have parts: "length ?got + length (filter (\<lambda>i. \<not> present ! i) [0..<?N]) = ?N"
    using sum_length_filter_compl[of "\<lambda>i. present ! i" "[0..<?N]"] by simp
  show ?thesis
  proof (cases "?missing = []")
    case True
    then show ?thesis using nothing_missing[OF assms(4) True] got sv by (simp add: Reconstruct_def Let_def)
  next
    case False
    then obtain i where i: "i < ?N" "\<not> present ! i" "shards ! i \<noteq> None" by (auto simp: filter_empty_conv)
    have "filter (\<lambda>i. \<not> present ! i) [0..<?N] = [i]"
    proof (rule singleton_list)
      show "length (filter (\<lambda>i. \<not> present ! i) [0..<?N]) \<le> 1" using parts got M by linarith
      show "i \<in> set (filter (\<lambda>i. \<not> present ! i) [0..<?N])" using i by simp
    qed
    then have only: "\<And>j. j < ?N \<Longrightarrow> \<not> present ! j \<Longrightarrow> j = i"
    proof -
      fix j assume "j < ?N" "\<not> present ! j"
      then have "j \<in> set (filter (\<lambda>i. \<not> present ! i) [0..<?N])" by simp
      with \<open>filter (\<lambda>i. \<not> present ! i) [0..<?N] = [i]\<close> show "j = i" by (simp only: list.set singleton_iff)
    qed
    have one: "?missing = [i]"
    proof (rule singleton_list)
      have "length ?missing \<le> length (filter (\<lambda>i. \<not> present ! i) [0..<?N])"
        by (simp only: filter_filter[symmetric] length_filter_le)
      then show "length ?missing \<le> 1" using \<open>filter (\<lambda>i. \<not> present ! i) [0..<?N] = [i]\<close> by simp
    qed (use i in simp)
    have set: "set ?got = {..<?N} - {i}" using only i(2) by auto
    let ?src = "map (\<lambda>i. the (shards ! i)) ?got"
    have src: "?src = map (\<lambda>r. stripe c n data ! r) ?got" using sv(4) by (auto intro!: map_cong)
    have "\<And>s. s \<in> set ?src \<Longrightarrow> length s = n" using sv(4) by (auto simp: stripe_nth)
    moreover have "?src \<noteq> []" using got K by (metis Nil_is_map_conv le_zero_eq list.size(3) not_one_le_zero)
    ultimately have run: "run_chunks sched procs n (\<lambda>lo hi. fill_shard (\<lambda>dst. xorInto dst ?src lo hi) lo hi i) shards =
        map (\<lambda>q. if q = i then map_option (\<lambda>_. linear n (replicate (length ?src) 1) ?src) (shards ! q) else shards ! q) [0..<?N]"
      using xor_stage[of sched i shards n ?src, OF assms(6) _ sv(3)] i(1) sv(1) by simp
    have "linear n (replicate (length ?src) 1) ?src = stripe c n data ! i"
      using xor_others[OF assms(1-3) i(1) _ set] by (simp add: src)
    then have "run_chunks sched procs n (\<lambda>lo hi. fill_shard (\<lambda>dst. xorInto dst ?src lo hi) lo hi i) shards = restored c n data shards"
      using sv(1) present_restored[OF assms(4)] only by (fastforce simp: run restored_def)
    then show ?thesis
      using survives_checkLens[OF assms(4) False] one got sv assms(1) by (simp add: Reconstruct_def Let_def)
  qed
qed

text \<open>The first \<open>k\<close> surviving rows, and the two stages of the Reed-Solomon code.\<close>

lemma first_survivors:
  assumes "survives c n data shards present" "c_K c \<le> present_count present"
  defines "use \<equiv> take (c_K c) (filter (\<lambda>i. present ! i) [0..<c_K c + c_M c])"
  shows "distinct use" "set use \<subseteq> {..<c_K c + c_M c}" "length use = c_K c"
    "map (\<lambda>r. the (shards ! r)) use = map (\<lambda>r. stripe c n data ! r) use"
proof -
  note sv = survives_simps[OF assms(1)]
  have mem: "r < c_K c + c_M c \<and> present ! r" if "r \<in> set use" for r
    using that by (auto simp: use_def dest!: in_set_takeD)
  show "distinct use" "length use = c_K c"
    using assms(2) by (simp_all add: use_def sv(2) distinct_take)
  show "set use \<subseteq> {..<c_K c + c_M c}" using mem by auto
  show "map (\<lambda>r. the (shards ! r)) use = map (\<lambda>r. stripe c n data ! r) use"
    using mem sv(4) by (auto intro!: map_cong)
qed

lemma data_stage:
  assumes "c_Scheme c = ParityRS" "good_code c" "shards_of c n data" "survives c n data shards present"
    and "\<And>xs. mset (sched xs) = mset xs"
    and use: "distinct use" "set use \<subseteq> {..<c_K c + c_M c}" "length use = c_K c"
    and dec: "invert (map (\<lambda>r. c_enc c ! r) use) = Inr dec"
  defines "missing \<equiv> filter (\<lambda>i. \<not> present ! i \<and> shards ! i \<noteq> None) [0..<c_K c + c_M c]"
  shows "run_chunks sched procs n
      (combine_rows (filter (\<lambda>i. i < c_K c) missing) (\<lambda>i. dec ! i) (map (\<lambda>r. stripe c n data ! r) use)) shards =
    map (\<lambda>i. if i < c_K c then map_option (\<lambda>_. stripe c n data ! i) (shards ! i) else shards ! i) [0..<c_K c + c_M c]"
proof (subst combine_rows_stage[OF assms(5)])
  note sv = survives_simps[OF assms(4)]
  let ?src = "map (\<lambda>r. stripe c n data ! r) use"
  show "map (\<lambda>i. if i \<in> set (filter (\<lambda>i. i < c_K c) missing) then map_option (\<lambda>_. linear n (dec ! i) ?src) (shards ! i)
      else shards ! i) [0..<length shards] =
    map (\<lambda>i. if i < c_K c then map_option (\<lambda>_. stripe c n data ! i) (shards ! i) else shards ! i) [0..<c_K c + c_M c]"
  proof (rule map_cong)
    fix i assume "i \<in> set [0..<c_K c + c_M c]"
    then have i: "i < c_K c + c_M c" by simp
    show "(if i \<in> set (filter (\<lambda>i. i < c_K c) missing) then map_option (\<lambda>_. linear n (dec ! i) ?src) (shards ! i)
        else shards ! i) = (if i < c_K c then map_option (\<lambda>_. stripe c n data ! i) (shards ! i) else shards ! i)"
      using i present_restored[OF assms(4) i] decode_data[OF assms(1-3) use _ dec, of i] stripe_data[OF assms(2,3), of i]
      by (cases "present ! i"; cases "shards ! i") (auto simp: missing_def)
  qed (simp add: sv(1))
  show "length s = n" if "s \<in> set ?src" for s
    using that use(2) by (auto simp: stripe_nth subset_iff)
qed (use survives_simps[OF assms(4)] in \<open>auto simp: missing_def\<close>)

lemma parity_stage:
  assumes "c_Scheme c = ParityRS" "good_code c" "shards_of c n data" "survives c n data shards present"
    and "\<And>xs. mset (sched xs) = mset xs"
  defines "missing \<equiv> filter (\<lambda>i. \<not> present ! i \<and> shards ! i \<noteq> None) [0..<c_K c + c_M c]"
    and "shards1 \<equiv> map (\<lambda>i. if i < c_K c then map_option (\<lambda>_. stripe c n data ! i) (shards ! i) else shards ! i) [0..<c_K c + c_M c]"
  shows "run_chunks sched procs n (combine_rows (filter (\<lambda>i. \<not> i < c_K c) missing) (\<lambda>i. c_enc c ! i) data) shards1 =
    restored c n data shards"
proof (subst combine_rows_stage[OF assms(5)])
  note sv = survives_simps[OF assms(4)]
  show "map (\<lambda>i. if i \<in> set (filter (\<lambda>i. \<not> i < c_K c) missing) then map_option (\<lambda>_. linear n (c_enc c ! i) data) (shards1 ! i)
      else shards1 ! i) [0..<length shards1] = restored c n data shards"
    unfolding restored_def
  proof (rule map_cong)
    fix i assume "i \<in> set [0..<length shards]"
    then have i: "i < c_K c + c_M c" by (simp add: sv(1))
    show "(if i \<in> set (filter (\<lambda>i. \<not> i < c_K c) missing) then map_option (\<lambda>_. linear n (c_enc c ! i) data) (shards1 ! i)
        else shards1 ! i) = map_option (\<lambda>_. stripe c n data ! i) (shards ! i)"
      using i present_restored[OF assms(4) i] assms(1)
      by (cases "present ! i"; cases "shards ! i") (auto simp: missing_def shards1_def stripe_nth coefs_def)
  qed (simp add: sv(1) shards1_def)
  show "sized n shards1"
    unfolding sized_def
  proof (intro allI impI)
    fix b assume "Some b \<in> set shards1"
    moreover have "length shards1 = c_K c + c_M c" by (simp add: shards1_def)
    ultimately obtain i where i: "i < c_K c + c_M c" "Some b = shards1 ! i"
      by (metis in_set_conv_nth)
    then show "length b = n"
      using sizedD[OF sv(3), of i] sv(1)
      by (cases "shards ! i") (auto simp: shards1_def stripe_nth split: if_splits)
  qed
qed (use assms(3) in \<open>auto simp: missing_def shards1_def shards_of_def\<close>)

lemma run_nothing: "run_chunks sched procs n (combine_rows [] row src) st = st"
proof -
  have "fold (\<lambda>(lo, hi). combine_rows [] row src lo hi) cs st = st" for cs
    by (induction cs) (auto simp: combine_rows_def)
  then show ?thesis by (simp add: run_chunks_def)
qed

lemma Reconstruct_RS:
  assumes "c_Scheme c = ParityRS" "good_code c" "shards_of c n data" "survives c n data shards present"
    and "c_K c \<le> present_count present" "\<And>xs. mset (sched xs) = mset xs"
    and "cache_ok c cache" "buffers_ok c shards present"
  shows "\<exists>cache'. Reconstruct sched procs c cache shards present = (cache', restored c n data shards, None) \<and>
    cache_ok c cache'"
proof -
  let ?N = "c_K c + c_M c"
  let ?got = "filter (\<lambda>i. present ! i) [0..<?N]"
  define missing where "missing = filter (\<lambda>i. \<not> present ! i \<and> shards ! i \<noteq> None) [0..<?N]"
  note sv = survives_simps[OF assms(4), folded missing_def]
  have N: "?N \<le> 256" using assms(1,2) EncodingMatrix_valid by (auto simp: good_code_def valid_code_def)
  have got: "c_K c \<le> length ?got" using assms(5) by (simp add: sv(2))
  show ?thesis
  proof (cases "missing = []")
    case True
    then show ?thesis using nothing_missing[OF assms(4)] got sv assms(7)
      by (simp add: Reconstruct_def Let_def missing_def)
  next
    case False
    define use where "use = take (c_K c) ?got"
    note use = first_survivors[OF assms(4,5), folded use_def]
    have E: "EncodingMatrix (c_K c) (c_M c) = Inr (c_enc c)" using assms(1,2) by (simp add: good_code_def)
    obtain dec where dec: "invert (map (\<lambda>r. c_enc c ! r) use) = Inr dec"
      using EncodingMatrix_any_rows[OF E use(1-3)] by blast
    have "set use \<subseteq> {..<256}" using use(2) N by auto
    note dm = decodeMatrix_exact[OF assms(7) this]
    obtain cache' where cache': "decodeMatrix c cache use = (cache', Inr dec)" "cache_ok c cache'"
      using dm dec by (cases "decodeMatrix c cache use") auto
    define s1 where "s1 = map (\<lambda>i. if i < c_K c then map_option (\<lambda>_. stripe c n data ! i) (shards ! i) else shards ! i) [0..<?N]"
    note ds = data_stage[OF assms(1-4,6) use(1-3) dec, folded missing_def s1_def, of procs]
    note ps = parity_stage[OF assms(1-4,6), folded missing_def s1_def, of procs]
    have none: "filter (\<lambda>i. \<not> i < c_K c) missing = [] \<Longrightarrow> s1 = restored c n data shards"
      using ps by (simp add: run_nothing)
    have take: "take (c_K c) s1 = map (\<lambda>i. map_option (\<lambda>_. data ! i) (shards ! i)) [0..<c_K c]"
      using stripe_data[OF assms(2,3)] by (simp add: s1_def take_map)
    have nil: "None \<notin> set (take (c_K c) s1) \<and> map the (take (c_K c) s1) = data"
      if par: "filter (\<lambda>i. \<not> i < c_K c) missing \<noteq> []"
    proof -
      obtain i where i: "i < ?N" "\<not> i < c_K c" "\<not> present ! i" "shards ! i \<noteq> None"
        using par by (auto simp: missing_def filter_empty_conv)
      then have "None \<notin> set (take (c_K c) shards)"
        using assms(1,8) by (auto simp: buffers_ok_def dest: spec[of _ "i - c_K c"])
      then have "shards ! j \<noteq> None" if "j < c_K c" for j
        using that sv(1) by (metis in_set_conv_nth length_take min_less_iff_conj nth_take trans_less_add1)
      then have "map_option (\<lambda>_. data ! j) (shards ! j) = Some (data ! j)" if "j < c_K c" for j
        using that by auto
      then have "take (c_K c) s1 = map Some data"
        unfolding take using assms(3) by (intro nth_equalityI) (simp_all add: shards_of_def)
      then show ?thesis by (simp add: comp_def)
    qed
    have "checkLens shards ?N = Inr (int n)"
      using survives_checkLens[OF assms(4)] False unfolding missing_def by blast
    then show ?thesis
      using False sv(1,2,5) got assms(1) cache' ds[folded use(4)] none nil ps
      by (simp add: Reconstruct_def use_def[symmetric] Let_def)
  qed
qed

section \<open>Codes from \<open>New\<close>\<close>

definition codes_ok :: "codes \<Rightarrow> bool" where
  "codes_ok codes \<longleftrightarrow> (\<forall>((s, k, m), c) \<in> set codes. c_Scheme c = s \<and> c_K c = k \<and> c_M c = m \<and> good_code c)"

text \<open>The parameters \<open>New\<close> accepts.\<close>

definition supported :: "ParityScheme \<Rightarrow> nat \<Rightarrow> nat \<Rightarrow> bool" where
  "supported s k m \<longleftrightarrow> valid_code k m \<and> (s = ParityXOR \<and> m = 1 \<or> s = ParityRS)"

lemma New_exact:
  assumes "codes_ok codes"
  shows "codes_ok (fst (New codes s k m))"
    "supported s k m \<Longrightarrow> \<exists>c. snd (New codes s k m) = Inr c \<and> c_Scheme c = s \<and> c_K c = k \<and> c_M c = m \<and> good_code c"
    "\<not> supported s k m \<Longrightarrow> \<exists>e. New codes s k m = (codes, Inl e)"
proof -
  have hit: "c_Scheme c = s \<and> c_K c = k \<and> c_M c = m \<and> good_code c" if c: "map_of codes (s, k, m) = Some c" for c
    using assms map_of_SomeD[OF c] by (auto simp: codes_ok_def)
  have ok: "supported s k m" if c: "map_of codes (s, k, m) = Some c" for c
    using hit[OF c] EncodingMatrix_valid by (auto simp: good_code_def supported_def valid_code_def)
  have enc: "valid_code k m \<longleftrightarrow> (\<exists>E. EncodingMatrix k m = Inr E)"
    using EncodingMatrix_total EncodingMatrix_valid by blast
  show "codes_ok (fst (New codes s k m))"
    using assms unfolding New_def codes_LoadOrStore_def codes_ok_def
    by (auto simp: Let_def good_code_def split: option.splits sum.splits)
  show "\<exists>c. snd (New codes s k m) = Inr c \<and> c_Scheme c = s \<and> c_K c = k \<and> c_M c = m \<and> good_code c"
    if s: "supported s k m"
  proof (cases "map_of codes (s, k, m)")
    case None
    then show ?thesis using s enc
      by (auto simp: New_def codes_LoadOrStore_def supported_def valid_code_def good_code_def Let_def)
  qed (use hit in \<open>auto simp: New_def\<close>)
  show "\<exists>e. New codes s k m = (codes, Inl e)" if s: "\<not> supported s k m"
  proof -
    have "map_of codes (s, k, m) = None" using ok s by (metis option.exhaust)
    moreover have "\<exists>e. EncodingMatrix k m = Inl e" if "s = ParityRS"
      using s that enc by (cases "EncodingMatrix k m") (auto simp: supported_def)
    ultimately show ?thesis using s
      by (auto simp: New_def supported_def valid_code_def Let_def errf_def)
  qed
qed

section \<open>Distance\<close>

text \<open>
  What both codes promise, symbol by symbol: the first symbols are the data, the symbols are linear
  in the data, and any \<open>k\<close> of them determine it.
\<close>

locale erasure_code =
  fixes ok :: "nat \<Rightarrow> nat \<Rightarrow> bool"
    and sym :: "nat \<Rightarrow> nat \<Rightarrow> (nat \<Rightarrow> gf) \<Rightarrow> nat \<Rightarrow> gf"
  assumes sym_data: "ok k m \<Longrightarrow> i < k \<Longrightarrow> sym k m x i = x i"
    and sym_add: "sym k m (\<lambda>j. x j + y j) i = sym k m x i + sym k m y i"
    and sym_determines: "ok k m \<Longrightarrow> S \<subseteq> {..<k + m} \<Longrightarrow> card S = k \<Longrightarrow>
      (\<And>i. i \<in> S \<Longrightarrow> sym k m x i = 0) \<Longrightarrow> c < k \<Longrightarrow> x c = 0"
begin

lemma distance:
  assumes "ok k m" "c < k" "x c \<noteq> y c"
  shows "m < card {i. i < k + m \<and> sym k m x i \<noteq> sym k m y i}"
proof (rule ccontr)
  let ?D = "{i. i < k + m \<and> sym k m x i \<noteq> sym k m y i}" and ?A = "{i. i < k + m \<and> sym k m x i = sym k m y i}"
  assume "\<not> m < card ?D"
  moreover have "card ?D + card ?A = card (?D \<union> ?A)" by (rule card_Un_disjoint[symmetric]) auto
  moreover have "?D \<union> ?A = {..<k + m}" by auto
  ultimately have "k \<le> card ?A" by simp
  then obtain S where S: "S \<subseteq> ?A" "card S = k" by (meson obtain_subset_with_card_n)
  have "sym k m (\<lambda>j. x j + y j) i = 0" if "i \<in> S" for i
    using S(1) that by (auto simp: sym_add)
  then have "x c + y c = 0" using sym_determines[OF assms(1) _ S(2), of "\<lambda>j. x j + y j" c] S(1) assms(2) by auto
  then show False using assms(3) by (simp add: gf_add_eq_0)
qed

end

definition rs_symbol :: "nat \<Rightarrow> nat \<Rightarrow> (nat \<Rightarrow> gf) \<Rightarrow> nat \<Rightarrow> gf" where
  "rs_symbol k m x i = mrow k (projr (EncodingMatrix k m)) x i"

definition xor_symbol :: "nat \<Rightarrow> nat \<Rightarrow> (nat \<Rightarrow> gf) \<Rightarrow> nat \<Rightarrow> gf" where
  "xor_symbol k m x i = (if i < k then x i else \<Sum>j<k. x j)"

interpretation rs: erasure_code "supported ParityRS" rs_symbol
proof unfold_locales
  fix k m i x y c and S :: "nat set"
  show "rs_symbol k m (\<lambda>j. x j + y j) i = rs_symbol k m x i + rs_symbol k m y i"
    by (simp add: rs_symbol_def mrow_def algebra_simps sum.distrib)
  assume "supported ParityRS k m"
  then obtain E where E: "EncodingMatrix k m = Inr E"
    using EncodingMatrix_total by (auto simp: supported_def)
  show "i < k \<Longrightarrow> rs_symbol k m x i = x i"
    using EncodingMatrix_systematic[OF E] by (simp add: rs_symbol_def E)
  show "S \<subseteq> {..<k + m} \<Longrightarrow> card S = k \<Longrightarrow> (\<And>i. i \<in> S \<Longrightarrow> rs_symbol k m x i = 0) \<Longrightarrow> c < k \<Longrightarrow> x c = 0"
    using EncodingMatrix_determines[OF E] by (simp add: rs_symbol_def E)
qed

interpretation xor: erasure_code "supported ParityXOR" xor_symbol
proof unfold_locales
  fix k m i x y c and S :: "nat set"
  show "xor_symbol k m (\<lambda>j. x j + y j) i = xor_symbol k m x i + xor_symbol k m y i"
    by (simp add: xor_symbol_def sum.distrib)
  assume "supported ParityXOR k m"
  then have m: "m = 1" by (simp add: supported_def)
  show "i < k \<Longrightarrow> xor_symbol k m x i = x i" by (simp add: xor_symbol_def)
  show "x c = 0" if S: "S \<subseteq> {..<k + m}" "card S = k" and z: "\<And>i. i \<in> S \<Longrightarrow> xor_symbol k m x i = 0" and c: "c < k"
  proof (cases "c \<in> S")
    case True
    then show ?thesis using z[of c] c by (simp add: xor_symbol_def)
  next
    case False
    then have "S \<subseteq> {..<k + m} - {c}" using S(1) by auto
    moreover have "card ({..<k + m} - {c}) = k" using c m by simp
    ultimately have SS: "S = {..<k + m} - {c}" using S(2) by (metis card_subset_eq finite_Diff finite_lessThan)
    then have "x j = 0" if "j < k" "j \<noteq> c" for j using z[of j] that by (simp add: xor_symbol_def)
    then have "(\<Sum>j<k. x j) = x c" using c by (subst sum.remove[of _ c]) (auto intro!: sum.neutral)
    moreover have "(\<Sum>j<k. x j) = 0" using z[of k] SS c m by (simp add: xor_symbol_def)
    ultimately show ?thesis by simp
  qed
qed

lemma GF_stripe_XOR:
  assumes "c_Scheme c = ParityXOR" "good_code c" "shards_of c n data" "i < c_K c + c_M c" "p < n"
  shows "GF (stripe c n data ! i ! p) = xor_symbol (c_K c) (c_M c) (\<lambda>j. GF (data ! j ! p)) i"
proof (cases "i < c_K c")
  case True
  then show ?thesis using stripe_data[OF assms(2,3)] by (simp add: xor_symbol_def)
next
  case False
  then show ?thesis
    using assms by (simp add: stripe_nth GF_linear coefs_def xor_symbol_def shards_of_def GF_simps)
qed

lemma stripe_distance:
  assumes "good_code c" "shards_of c n d" "shards_of c n d'" "d \<noteq> d'"
  shows "c_M c < card {i. i < c_K c + c_M c \<and> stripe c n d ! i \<noteq> stripe c n d' ! i}"
proof -
  obtain j p where jp: "j < c_K c" "p < n" "d ! j ! p \<noteq> d' ! j ! p"
  proof -
    obtain j where j: "j < c_K c" "d ! j \<noteq> d' ! j"
      using assms(2-4) by (metis nth_equalityI shards_of_def)
    then have "length (d ! j) = n" "length (d' ! j) = n" using assms(2,3) by (simp_all add: shards_of_def)
    then show ?thesis using that j by (metis nth_equalityI)
  qed
  let ?x = "\<lambda>j. GF (d ! j ! p)" and ?y = "\<lambda>j. GF (d' ! j ! p)"
  have ne: "?x j \<noteq> ?y j" using jp by simp
  obtain sym where sym: "c_M c < card {i. i < c_K c + c_M c \<and> sym ?x i \<noteq> sym ?y i}"
    "\<And>i. i < c_K c + c_M c \<Longrightarrow> GF (stripe c n d ! i ! p) = sym ?x i"
    "\<And>i. i < c_K c + c_M c \<Longrightarrow> GF (stripe c n d' ! i ! p) = sym ?y i"
  proof (cases "c_Scheme c = ParityXOR")
    case True
    then have "supported ParityXOR (c_K c) (c_M c)"
      using assms(1) by (auto simp: good_code_def supported_def valid_code_def)
    then show ?thesis
      using that[of "xor_symbol (c_K c) (c_M c)"] xor.distance[of "c_K c" "c_M c" j ?x ?y, OF _ jp(1) ne]
        GF_stripe_XOR[OF True assms(1) _ _ jp(2)] assms(2,3) by blast
  next
    case False
    then have rs: "c_Scheme c = ParityRS" and E: "EncodingMatrix (c_K c) (c_M c) = Inr (c_enc c)"
      using assms(1) by (auto simp: good_code_def)
    then have "supported ParityRS (c_K c) (c_M c)"
      using EncodingMatrix_valid by (simp add: supported_def)
    then show ?thesis
      using that[of "rs_symbol (c_K c) (c_M c)"] rs.distance[of "c_K c" "c_M c" j ?x ?y, OF _ jp(1) ne]
        GF_stripe_RS[OF rs _ _ jp(2)] assms(2,3) by (simp add: rs_symbol_def E)
  qed
  have "{i. i < c_K c + c_M c \<and> sym ?x i \<noteq> sym ?y i} \<subseteq> {i. i < c_K c + c_M c \<and> stripe c n d ! i \<noteq> stripe c n d' ! i}"
    by (simp add: Collect_mono_iff) (metis sym(2,3))
  moreover have "finite {i. i < c_K c + c_M c \<and> stripe c n d ! i \<noteq> stripe c n d' ! i}" by simp
  ultimately show ?thesis using sym(1) by (meson card_mono less_le_trans)
qed

section \<open>Properties\<close>

lemma New_good:
  assumes "codes_ok codes" "snd (New codes s k m) = Inr c"
  shows "supported s k m" "c_Scheme c = s" "c_K c = k" "c_M c = m" "good_code c"
proof -
  show sup: "supported s k m" using New_exact(3)[OF assms(1)] assms(2) by (metis Inl_Inr_False snd_conv)
  then show "c_Scheme c = s" "c_K c = k" "c_M c = m" "good_code c"
    using New_exact(2)[OF assms(1) sup] assms(2) by auto
qed

lemma encoded_stripe:
  assumes "good_code c" "shards_of c n data" "\<And>xs. mset (sched xs) = mset xs"
    and "length buf = c_M c" "\<forall>s \<in> set buf. length s = n"
    and "Encode sched procs c (map Some data) (map Some buf) = Inr parity"
  shows "map Some data @ parity = map Some (stripe c n data)"
proof -
  have "parity = map Some (drop (c_K c) (stripe c n data))"
    using Encode_stripe[OF assms(1-5), of procs] assms(6) by simp
  moreover have "data = take (c_K c) (stripe c n data)"
    using stripe_data[OF assms(1,2)] assms(2) by (intro nth_equalityI) (auto simp: shards_of_def)
  ultimately show ?thesis by (metis append_take_drop_id map_append)
qed

text \<open>C23: Any \<open>k\<close> shards of a stripe rebuild the rest: for every code \<open>New\<close> returns, after \<open>Encode\<close> filled the parity
  buffers, \<open>Reconstruct\<close> on the stripe with at least \<open>k\<close> shards present succeeds and every buffer it was
  given, data or parity, holds its shard again (nil entries stay nil), whatever the buffers held
  before, however the work is split and scheduled, and whatever decode matrices are cached. The
  only demand on the buffers is the documented one: a parity shard to rebuild needs a buffer for
  every data shard.\<close>

theorem any_k_shards_suffice:
  assumes "codes_ok codes" "snd (New codes s k m) = Inr c"
    and "\<And>xs. mset (sched xs) = mset xs" "\<And>xs. mset (sched' xs) = mset xs"
    and "length data = k" "length buf = m" "\<forall>b \<in> set (data @ buf). length b = n"
    and "Encode sched procs c (map Some data) (map Some buf) = Inr parity"
    and "length shards = k + m" "length present = k + m" "sized n shards" "k \<le> present_count present"
    and "\<forall>i < k + m. present ! i \<longrightarrow> shards ! i = (map Some data @ parity) ! i"
    and "cache_ok c cache" "buffers_ok c shards present"
  shows "\<exists>cache' shards'. Reconstruct sched' procs' c cache shards present = (cache', shards', None) \<and>
    cache_ok c cache' \<and> length shards' = k + m \<and>
    (\<forall>i < k + m. shards' ! i = (if shards ! i = None then None else (map Some data @ parity) ! i))"
proof -
  note sup = New_good(1)[OF assms(1,2)] and c = New_good(2-5)[OF assms(1,2)]
  have so: "shards_of c n data" using assms(5,7) c by (simp add: shards_of_def)
  have all: "map Some data @ parity = map Some (stripe c n data)"
    using encoded_stripe[OF c(4) so assms(3) _ _ assms(8)] assms(6,7) c by simp
  have sv: "survives c n data shards present"
    using assms(9-11,13) c by (simp add: survives_def all)
  have "\<exists>cache'. Reconstruct sched' procs' c cache shards present = (cache', restored c n data shards, None) \<and>
      cache_ok c cache'"
  proof (cases "s = ParityXOR")
    case True
    then show ?thesis using Reconstruct_XOR[OF _ c(4) so sv _ assms(4)] assms(12,14) c by simp
  next
    case False
    then have "c_Scheme c = ParityRS" using sup c by (simp add: supported_def)
    then show ?thesis using Reconstruct_RS[OF _ c(4) so sv _ assms(4,14,15)] assms(12) c by simp
  qed
  then show ?thesis using assms(9) c by (auto simp: restored_def all)
qed

lemma codes_ok_Nil [simp]: "codes_ok []"
  by (simp add: codes_ok_def)

lemma cache_ok_Nil [simp]: "cache_ok c []"
  by (simp add: cache_ok_def)

lemma sample_code:
  obtains c where "snd (New [] ParityRS 2 2) = Inr c" "c_Scheme c = ParityRS" "c_K c = 2" "c_M c = 2" "good_code c"
proof -
  have "supported ParityRS 2 2" by (simp add: supported_def valid_code_def)
  then show ?thesis using New_exact(2)[OF codes_ok_Nil] that by blast
qed

lemma sample_encode:
  assumes "c_K c = 2" "c_M c = 2" "good_code c" "shards_of c 3 d"
  shows "Encode rev 4 c (map Some d) (map Some [[0, 0, 0], [9, 9, 9]]) =
    Inr [Some (stripe c 3 d ! 2), Some (stripe c 3 d ! 3)]"
proof -
  have "length l = 4 \<Longrightarrow> drop 2 l = [l ! 2, l ! 3]" for l :: "bytes list"
    by (auto simp: numeral_eq_Suc length_Suc_conv)
  then have "drop 2 (stripe c 3 d) = [stripe c 3 d ! 2, stripe c 3 d ! 3]" using assms by simp
  then show ?thesis
    using Encode_stripe[OF assms(3,4), of rev "[[0, 0, 0], [9, 9, 9]]" 4] assms by simp
qed

text \<open>Both data shards of a stripe of two data and two parity shards are lost and rebuilt.\<close>

theorem any_k_shards_suffice_witness:
  "\<exists>c p q cache' shards'. snd (New [] ParityRS 2 2) = Inr c \<and>
     Encode rev 4 c [Some [1, 2, 3], Some [4, 5, 6]] [Some [0, 0, 0], Some [9, 9, 9]] = Inr [p, q] \<and>
     Reconstruct id 1 c [] [Some [0, 0, 0], Some [0, 0, 0], p, q] [False, False, True, True] = (cache', shards', None) \<and>
     shards' ! 0 = Some [1, 2, 3] \<and> shards' ! 1 = Some [4, 5, 6]"
proof -
  obtain c where c: "snd (New [] ParityRS 2 2) = Inr c" "c_Scheme c = ParityRS" "c_K c = 2" "c_M c = 2" "good_code c"
    by (rule sample_code)
  let ?d = "[[1, 2, 3], [4, 5, 6]] :: bytes list"
  have so: "shards_of c 3 ?d" using c by (simp add: shards_of_def)
  let ?p = "Some (stripe c 3 ?d ! 2)" and ?q = "Some (stripe c 3 ?d ! 3)"
  have enc: "Encode rev 4 c (map Some ?d) (map Some [[0, 0, 0], [9, 9, 9]]) = Inr [?p, ?q]"
    using sample_encode[OF c(3-5) so] .
  have len: "length (stripe c 3 ?d ! 2) = 3" "length (stripe c 3 ?d ! 3) = 3" using c by (simp_all add: stripe_nth)
  have "\<exists>cache' shards'. Reconstruct id 1 c [] [Some [0, 0, 0], Some [0, 0, 0], ?p, ?q] [False, False, True, True] =
      (cache', shards', None) \<and> cache_ok c cache' \<and> length shards' = 2 + 2 \<and>
      (\<forall>i < 2 + 2. shards' ! i = (if [Some [0, 0, 0], Some [0, 0, 0], ?p, ?q] ! i = None then None
         else (map Some ?d @ [?p, ?q]) ! i))"
    by (rule any_k_shards_suffice[where n = 3 and procs = 4, OF codes_ok_Nil c(1) _ _ _ _ _ enc])
      (use c len in \<open>auto simp: sized_def buffers_ok_def less_Suc_eq numeral_eq_Suc nth_Cons'\<close>)
  then obtain cache' shards' where r: "Reconstruct id 1 c [] [Some [0, 0, 0], Some [0, 0, 0], ?p, ?q] [False, False, True, True] =
      (cache', shards', None)"
    "\<forall>i < 2 + 2. shards' ! i = (if [Some [0, 0, 0], Some [0, 0, 0], ?p, ?q] ! i = None then None
         else (map Some ?d @ [?p, ?q]) ! i)" by blast
  have "shards' ! 0 = Some [1, 2, 3]" "shards' ! 1 = Some [4, 5, 6]" using r(2) by simp_all
  then show ?thesis using c(1) enc r(1) by auto
qed

text \<open>The encoding matrix of every valid code exists, has \<open>k + m\<close> rows of \<open>k\<close> columns, starts with the
  identity (the code is systematic), and any \<open>k\<close> distinct rows of it can be inverted by \<open>invert\<close>, the
  result recovering every data vector from the symbols of those rows; invalid parameters are
  refused.\<close>

lemma EncodingMatrix_MDS:
  "if 1 \<le> k \<and> 1 \<le> m \<and> k + m \<le> MaxParityShards
   then \<exists>E. EncodingMatrix k m = Inr E \<and> length E = k + m \<and> (\<forall>i < k + m. length (E ! i) = k) \<and>
      (\<forall>i < k. \<forall>x. (\<Sum>c<k. GF (E ! i ! c) * x c) = x i) \<and>
      (\<forall>use. distinct use \<and> set use \<subseteq> {..<k + m} \<and> length use = k \<longrightarrow>
        (\<exists>dec. invert (map (\<lambda>r. E ! r) use) = Inr dec \<and>
          (\<forall>x. \<forall>i < k. (\<Sum>j<k. GF (dec ! i ! j) * (\<Sum>c<k. GF (E ! (use ! j) ! c) * x c)) = x i)))
   else EncodingMatrix k m = Inl (Err ErrOther ''parity'' ''invalid code'')"
proof (cases "valid_code k m")
  case True
  then obtain E where E: "EncodingMatrix k m = Inr E" using EncodingMatrix_total by blast
  have dec: "\<exists>dec. invert (map (\<lambda>r. E ! r) use) = Inr dec \<and>
      (\<forall>x. \<forall>i < k. (\<Sum>j<k. GF (dec ! i ! j) * (\<Sum>c<k. GF (E ! (use ! j) ! c) * x c)) = x i)"
    if use: "distinct use" "set use \<subseteq> {..<k + m}" "length use = k" for use
  proof -
    obtain dec where "invert (map (\<lambda>r. E ! r) use) = Inr dec" and s: "solves k (map (\<lambda>r. E ! r) use) dec"
      using EncodingMatrix_any_rows[OF E use] by blast
    moreover have "(\<Sum>j<k. GF (dec ! i ! j) * (\<Sum>c<k. GF (E ! (use ! j) ! c) * x c)) = x i" if "i < k" for x i
      using solves_both_sides(1)[OF s that, of x] use(3) by (simp add: mrow_def)
    ultimately show ?thesis by blast
  qed
  show ?thesis
    using True E EncodingMatrix_shape[OF E] EncodingMatrix_systematic[OF E] dec
    by (auto simp: valid_code_def shaped_def mrow_def)
next
  case False
  then show ?thesis by (auto simp: EncodingMatrix_def valid_code_def Let_def errf_def)
qed

text \<open>The property at the largest code and at parameters that are refused.\<close>

lemma fill_shard_other: "q \<noteq> i \<or> sh ! q = None \<Longrightarrow> fill_shard F lo hi i sh ! q = sh ! q"
  by (cases "q = i") (auto simp: fill_shard_def split: option.splits)

lemma fold_fill_other: "q \<notin> set idxs \<or> sh ! q = None \<Longrightarrow> fold (\<lambda>i. fill_shard (F i) lo hi i) idxs sh ! q = sh ! q"
  by (induction idxs arbitrary: sh) (auto simp: fill_shard_other)

lemma run_fill_other:
  "q \<notin> set idxs \<or> sh ! q = None \<Longrightarrow>
   run_chunks sched procs n (\<lambda>lo hi. fold (\<lambda>i. fill_shard (f i lo hi) lo hi i) idxs) sh ! q = sh ! q"
proof -
  assume "q \<notin> set idxs \<or> sh ! q = None"
  then have "fold (\<lambda>(lo, hi). fold (\<lambda>i. fill_shard (f i lo hi) lo hi i) idxs) cs sh ! q = sh ! q" for cs
  proof (induction cs arbitrary: sh)
    case (Cons x cs)
    then show ?case by (cases x) (simp add: fold_fill_other)
  qed simp
  then show ?thesis by (simp add: run_chunks_def)
qed

lemma length_run_fill:
  "length (run_chunks sched procs n (\<lambda>lo hi. fold (\<lambda>i. fill_shard (f i lo hi) lo hi i) idxs) sh) = length sh"
proof -
  have "length (fold (\<lambda>(lo, hi). fold (\<lambda>i. fill_shard (f i lo hi) lo hi i) idxs) cs sh) = length sh" for cs
  proof (induction cs arbitrary: sh)
    case (Cons x cs)
    then show ?case by (cases x) simp
  qed simp
  then show ?thesis by (simp add: run_chunks_def)
qed

lemma xor_run_keeps:
  "length (run_chunks sched procs n (\<lambda>lo hi. fill_shard (f lo hi) lo hi i) sh) = length sh"
  "q \<noteq> i \<or> sh ! q = None \<Longrightarrow> run_chunks sched procs n (\<lambda>lo hi. fill_shard (f lo hi) lo hi i) sh ! q = sh ! q"
  using length_run_fill[where idxs = "[i]" and f = "\<lambda>_. f"] run_fill_other[where idxs = "[i]" and f = "\<lambda>_. f"]
  by simp_all

lemma combine_run_keeps:
  "length (run_chunks sched procs n (combine_rows idxs row src) sh) = length sh"
  "q \<notin> set idxs \<or> sh ! q = None \<Longrightarrow> run_chunks sched procs n (combine_rows idxs row src) sh ! q = sh ! q"
  using length_run_fill[where idxs = idxs] run_fill_other[where idxs = idxs]
  by (simp_all add: combine_rows_def[abs_def])

lemma split_shards_missing:
  "split_shards i ss ps g m = Inr (g', m') \<Longrightarrow> j \<in> set m' \<Longrightarrow> j \<notin> set m \<Longrightarrow>
   i \<le> j \<and> \<not> ps ! (j - i)"
proof (induction i ss ps g m rule: split_shards.induct)
  case (1 i s ss p ps got missing)
  then show ?case by (cases "j = i") (auto simp: nth_Cons' Suc_le_eq split: if_splits)
qed auto

text \<open>C28: With fewer than \<open>k\<close> shards present \<open>Reconstruct\<close> reports \<open>ErrTooFewShards\<close> and leaves every buffer and
  the cache as they were; and in no case, success or error, does it change a shard that is present
  or turn a nil entry into a shard.\<close>


theorem Reconstruct_touches_missing_only:
  assumes "Reconstruct sched procs c cache shards present = (cache', shards', e)"
  shows "length shards' = length shards \<and>
    (\<forall>i. present ! i \<or> shards ! i = None \<longrightarrow> shards' ! i = shards ! i) \<and>
    (length shards = c_K c + c_M c \<and> length present = c_K c + c_M c \<and>
      (\<forall>i < length present. present ! i \<longrightarrow> shards ! i \<noteq> None) \<and> present_count present < c_K c \<longrightarrow>
      cache' = cache \<and> shards' = shards \<and> e = Some (Err ErrTooFewShards ''parity'' ''Reconstruct''))"
proof (intro conjI)
  let ?r = "\<lambda>sh. length sh = length shards \<and> (\<forall>i. present ! i \<or> shards ! i = None \<longrightarrow> sh ! i = shards ! i)"
  have xor: "?r (run_chunks sched procs n (\<lambda>lo hi. fill_shard (\<lambda>dst. xorInto dst src lo hi) lo hi q) shards)"
    if q: "\<not> present ! q" for n src q
  proof -
    have "i \<noteq> q \<or> shards ! i = None" if "present ! i \<or> shards ! i = None" for i using that q by auto
    then show ?thesis by (auto simp: xor_run_keeps)
  qed
  have rs: "?r (run_chunks sched procs n (combine_rows idxs row src) sh)"
    if idxs: "\<forall>i \<in> set idxs. \<not> present ! i" and sh: "?r sh" for n idxs row src sh
  proof -
    have "q \<notin> set idxs \<or> sh ! q = None" if "present ! q \<or> shards ! q = None" for q
      using that sh idxs by auto
    then show ?thesis using sh by (auto simp: combine_run_keeps)
  qed
  have "?r shards'"
  proof (cases "split_shards 0 shards present [] []")
    case (Inl e)
    then show ?thesis using assms by (auto simp: Reconstruct_def Let_def split: if_splits)
  next
    case (Inr gm)
    obtain g m where gm: "gm = (g, m)" by (cases gm)
    have m: "\<forall>i \<in> set m. \<not> present ! i" using split_shards_missing[of 0 shards present "[]" "[]"] Inr gm by auto
    then have hd: "m \<noteq> [] \<Longrightarrow> \<not> present ! (m ! 0)" by simp
    have sub: "\<forall>i \<in> set (filter P m). \<not> present ! i" for P using m by auto
    show ?thesis
      using assms Inr gm xor[OF hd] rs[OF sub] rs[OF sub rs[OF sub]]
      by (auto simp: Reconstruct_def Let_def split: if_splits sum.splits prod.splits)
  qed
  then show "length shards' = length shards" "\<forall>i. present ! i \<or> shards ! i = None \<longrightarrow> shards' ! i = shards ! i"
    by blast+
  show "length shards = c_K c + c_M c \<and> length present = c_K c + c_M c \<and>
      (\<forall>i < length present. present ! i \<longrightarrow> shards ! i \<noteq> None) \<and> present_count present < c_K c \<longrightarrow>
      cache' = cache \<and> shards' = shards \<and> e = Some (Err ErrTooFewShards ''parity'' ''Reconstruct'')"
    using assms split_shards_exact[of shards present] by (auto simp: Reconstruct_def Let_def)
qed

text \<open>Three of five shards of a stripe with two data shards: one is not enough, and nothing is written.\<close>

theorem Reconstruct_touches_missing_only_witness:
  "Reconstruct id 1 \<lparr>c_Scheme = ParityXOR, c_K = 2, c_M = 1, c_enc = []\<rparr> []
     [Some [7, 7], Some [0, 0], None] [True, False, False] =
   ([], [Some [7, 7], Some [0, 0], None], Some (Err ErrTooFewShards ''parity'' ''Reconstruct'')) \<and>
   (case Reconstruct id 1 \<lparr>c_Scheme = ParityXOR, c_K = 2, c_M = 1, c_enc = []\<rparr> []
      [Some [7, 7], Some [0, 0], Some [1, 2]] [True, False, True] of
    (cache', shards', e) \<Rightarrow> shards' ! 0 = Some [7, 7] \<and> shards' ! 2 = Some [1, 2])"
proof -
  let ?c = "\<lparr>c_Scheme = ParityXOR, c_K = 2, c_M = 1, c_enc = []\<rparr> :: Code"
  obtain a b e where r: "Reconstruct id 1 ?c [] [Some [7, 7], Some [0, 0], None] [True, False, False] = (a, b, e)"
    by (rule prod_cases3)
  obtain a' b' e' where r': "Reconstruct id 1 ?c [] [Some [7, 7], Some [0, 0], Some [1, 2]] [True, False, True] = (a', b', e')"
    by (rule prod_cases3)
  show ?thesis
    using Reconstruct_touches_missing_only[OF r] Reconstruct_touches_missing_only[OF r'] r r'
    by (auto simp: less_Suc_eq upt_conv_Cons numeral_eq_Suc dest: spec[of _ 0] spec[of _ "Suc (Suc 0)"])
qed

text \<open>The chunks \<open>parallel\<close> hands to its goroutines partition the range: every position below \<open>n\<close> lies in
  exactly one of them, each stays within the range, a later chunk starts where an earlier one has
  ended, and there are never more of them than processors. The loop that cuts them ends.\<close>

lemma parallel_partitions:
  assumes "1 \<le> procs"
  shows "(\<forall>p < n. \<exists>!c. c \<in> set (parallel procs n) \<and> fst c \<le> p \<and> p < snd c) \<and>
    (\<forall>c \<in> set (parallel procs n). fst c \<le> snd c \<and> snd c \<le> n) \<and>
    length (parallel procs n) \<le> procs"
proof (intro conjI allI impI ballI)
  fix c assume "c \<in> set (parallel procs n)"
  then show "fst c \<le> snd c" "snd c \<le> n" using parallel_bounds[of "fst c" "snd c"] by simp_all
next
  fix p assume "p < n"
  then obtain c where c: "c \<in> set (parallel procs n)" "fst c \<le> p" "p < snd c"
    using parallel_covers[of p n procs] by (auto simp: covered_def)
  have "c' = c" if c': "c' \<in> set (parallel procs n)" "fst c' \<le> p" "p < snd c'" for c'
  proof -
    obtain i j where ij: "i < length (parallel procs n)" "j < length (parallel procs n)"
      "c = parallel procs n ! i" "c' = parallel procs n ! j"
      using c(1) c'(1) by (metis in_set_conv_nth)
    then show ?thesis
      using c c' sorted_wrt_nth_less[OF parallel_disjoint[of procs n]]
      by (cases i j rule: linorder_cases) fastforce+
  qed
  with c show "\<exists>!c. c \<in> set (parallel procs n) \<and> fst c \<le> p \<and> p < snd c" by blast
next
  show "length (parallel procs n) \<le> procs" using assms by (rule length_parallel)
qed

text \<open>A gibibyte on eight processors.\<close>

text \<open>Two stripes of a code that differ in their data differ in more than \<open>m\<close> shards, so no damage to \<open>m\<close> or
  fewer shards turns a stripe into another valid one.\<close>

lemma stripes_far_apart:
  assumes "codes_ok codes" "snd (New codes s k m) = Inr c"
    and "\<And>xs. mset (sched xs) = mset xs" "data \<noteq> data'"
    and "length data = k" "length data' = k" "length buf = m" "\<forall>b \<in> set (data @ data' @ buf). length b = n"
    and "Encode sched procs c (map Some data) (map Some buf) = Inr parity"
    and "Encode sched procs c (map Some data') (map Some buf) = Inr parity'"
  shows "m < card {i. i < k + m \<and> (map Some data @ parity) ! i \<noteq> (map Some data' @ parity') ! i}"
proof -
  note c' = New_good(3-5)[OF assms(1,2)]
  have all: "map Some d @ p = map Some (stripe c n d) \<and> shards_of c n d"
    if "d = data \<and> p = parity \<or> d = data' \<and> p = parity'" for d p
    using that encoded_stripe[OF c'(3), of n d sched buf procs p] assms(3-10) c' by (auto simp: shards_of_def)
  have "c_M c < card {i. i < c_K c + c_M c \<and> stripe c n data ! i \<noteq> stripe c n data' ! i}"
    using stripe_distance[OF c'(3) _ _ assms(4)] all by blast
  moreover have "{i. i < k + m \<and> (map Some data @ parity) ! i \<noteq> (map Some data' @ parity') ! i} =
      {i. i < c_K c + c_M c \<and> stripe c n data ! i \<noteq> stripe c n data' ! i}"
    using all[of data parity] all[of data' parity'] c' by auto
  ultimately show ?thesis using c' by simp
qed

text \<open>One changed byte of data changes at least three of the four shards of a stripe.\<close>

lemma New_cached:
  assumes "New codes s k m = (codes', Inr c)"
  shows "map_of codes' (s, k, m) = Some c"
proof (cases "map_of codes (s, k, m)")
  case None
  then have store: "codes_LoadOrStore (s, k, m) c codes = (((s, k, m), c) # codes, c)" for c
    by (simp add: codes_LoadOrStore_def)
  have "codes' = ((s, k, m), c) # codes"
    using assms None unfolding New_def by (simp add: Let_def store split: sum.splits)
  then show ?thesis by simp
qed (use assms in \<open>auto simp: New_def\<close>)

text \<open>\<open>New\<close> returns a code of the parameters asked for exactly when they are supported (XOR with one parity
  shard, Reed-Solomon, at most 256 shards), refuses every other scheme with \<open>ErrUnsupported\<close>, never caches
  a refused code, and a second call for the same parameters returns the cached code.\<close>

lemma New_supported_exactly:
  assumes "codes_ok codes" "New codes s k m = (codes', r)"
  shows "codes_ok codes' \<and>
    (if 1 \<le> k \<and> 1 \<le> m \<and> k + m \<le> MaxParityShards \<and> (s = ParityXOR \<and> m = 1 \<or> s = ParityRS)
     then \<exists>c. r = Inr c \<and> c_Scheme c = s \<and> c_K c = k \<and> c_M c = m \<and> good_code c \<and>
       New codes' s k m = (codes', Inr c)
     else codes' = codes \<and> isl r \<and>
       (s \<noteq> ParityXOR \<and> s \<noteq> ParityRS \<longrightarrow> r = Inl (Err ErrUnsupported ''parity'' ''scheme'')))"
proof -
  have sup: "supported s k m \<longleftrightarrow> 1 \<le> k \<and> 1 \<le> m \<and> k + m \<le> MaxParityShards \<and> (s = ParityXOR \<and> m = 1 \<or> s = ParityRS)"
    by (auto simp: supported_def valid_code_def)
  have again: "New codes' s k m = (codes', Inr c)" if "r = Inr c" for c
    using New_cached[of codes s k m codes' c] assms(2) that by (simp add: New_def[of codes'])
  have "r = Inl (Err ErrUnsupported ''parity'' ''scheme'')" if "s \<noteq> ParityXOR" "s \<noteq> ParityRS" "isl r"
    using assms(2) that by (cases "map_of codes (s, k, m)") (auto simp: New_def errf_def)
  then show ?thesis
    using New_exact[OF assms(1), of s k m] assms(2) again unfolding sup[symmetric]
    by (cases "supported s k m") auto
qed

text \<open>A code made, fetched again, and a scheme that does not exist.\<close>

end
