(* ===== verification/Manifest_Json.thy ===== *)
theory Manifest_Json
  imports Canonpath
begin

text \<open>
  Package \<^verbatim>\<open>internal/manifest\<close>, \<^verbatim>\<open>json.go\<close>: the strict JSON parser for one manifest line. The parser's
  position is kept as the bytes that remain, its scratch stacks as the accumulators of the loops.
  The depth bound ends the recursion over nested values; the loops over
  members and elements take fuel, running out of it is \<open>None\<close>, and \<open>parser_returns\<close> shows that it
  never happens. Every error of the
  parser has the class \<open>ErrCorrupt\<close>; its text is not kept. The second half gives a renderer in the
  writer's canonical form and shows that the parser inverts it.
\<close>

section \<open>Values\<close>

datatype jvalue =
    JString bytes
  | JNumber bytes
  | JArray "jvalue list"
  | JObject "(bytes \<times> jvalue) list"
  | JBool bytes
  | JNull

abbreviation (input) maxDepth :: nat where "maxDepth \<equiv> 8"

definition json_corrupt :: "'a result" where
  "json_corrupt = errf ErrCorrupt ''Manifest'' ''''"

section \<open>Scanning\<close>

definition is_ws :: "byte \<Rightarrow> bool" where
  "is_ws c \<longleftrightarrow> c = 0x20 \<or> c = 0x09 \<or> c = 0x0D \<or> c = 0x0A"

definition parser_ws :: "bytes \<Rightarrow> bytes" where
  "parser_ws inp = dropWhile is_ws inp"

definition parser_lit :: "bytes \<Rightarrow> bytes \<Rightarrow> bytes option" where
  "parser_lit s inp = (if length s \<le> length inp \<and> take (length s) inp = s then Some (drop (length s) inp) else None)"

definition is_digit :: "byte \<Rightarrow> bool" where
  "is_digit c \<longleftrightarrow> 0x30 \<le> c \<and> c \<le> 0x39"

text \<open>The closure \<open>digits\<close>: \<open>None\<close> when there is no digit.\<close>

definition parser_digits :: "bytes \<Rightarrow> bytes option" where
  "parser_digits inp = (if takeWhile is_digit inp = [] then None else Some (dropWhile is_digit inp))"

definition number_integer :: "bytes \<Rightarrow> bytes option" where
  "number_integer inp =
    (let r = (case inp of c # r \<Rightarrow> if c = 0x2D then r else inp | [] \<Rightarrow> inp)
     in case r of c # r' \<Rightarrow> if c = 0x30 then Some r' else parser_digits r | [] \<Rightarrow> None)"

definition number_fraction :: "bytes \<Rightarrow> bytes option" where
  "number_fraction r = (case r of c # r' \<Rightarrow> if c = 0x2E then parser_digits r' else Some r | [] \<Rightarrow> Some r)"

definition number_exponent :: "bytes \<Rightarrow> bytes option" where
  "number_exponent r =
    (case r of
       c # r' \<Rightarrow> if c = 0x65 \<or> c = 0x45 then
           parser_digits (case r' of s # r'' \<Rightarrow> if s = 0x2B \<or> s = 0x2D then r'' else r' | [] \<Rightarrow> r')
         else Some r
     | [] \<Rightarrow> Some r)"

definition parser_number :: "bytes \<Rightarrow> (jvalue \<times> bytes) result" where
  "parser_number inp =
    (case number_integer inp of None \<Rightarrow> json_corrupt | Some r \<Rightarrow>
       case number_fraction r of None \<Rightarrow> json_corrupt | Some r \<Rightarrow>
         case number_exponent r of None \<Rightarrow> json_corrupt | Some r \<Rightarrow>
           Inr (JNumber (take (length inp - length r) inp), r))"

section \<open>Strings\<close>

definition hexVal :: "byte \<Rightarrow> nat option" where
  "hexVal c =
    (if 0x30 \<le> c \<and> c \<le> 0x39 then Some (unat c - 0x30)
     else if 0x61 \<le> c \<and> c \<le> 0x66 then Some (unat c - 0x61 + 10)
     else if 0x41 \<le> c \<and> c \<le> 0x46 then Some (unat c - 0x41 + 10)
     else None)"

text \<open>\<open>u4\<close> on the next four bytes; the caller drops them.\<close>

definition parser_u4 :: "bytes \<Rightarrow> nat option" where
  "parser_u4 inp =
    (if length inp < 4 then None
     else fold (\<lambda>c r. case (r, hexVal c) of (Some r, Some h) \<Rightarrow> Some (r * 16 + h) | _ \<Rightarrow> None) (take 4 inp) (Some 0))"

definition utf16_IsSurrogate :: "nat \<Rightarrow> bool" where
  "utf16_IsSurrogate r \<longleftrightarrow> 0xD800 \<le> r \<and> r < 0xE000"

definition utf16_DecodeRune :: "nat \<Rightarrow> nat \<Rightarrow> nat" where
  "utf16_DecodeRune r1 r2 =
    (if 0xD800 \<le> r1 \<and> r1 < 0xDC00 \<and> 0xDC00 \<le> r2 \<and> r2 < 0xE000
     then (r1 - 0xD800) * 1024 + (r2 - 0xDC00) + 0x10000 else 0xFFFD)"

definition utf8_AppendRune :: "nat \<Rightarrow> bytes" where
  "utf8_AppendRune r =
    (if r < 0x80 then [word_of_nat r]
     else if r < 0x800 then [word_of_nat (0xC0 + r div 64), word_of_nat (0x80 + r mod 64)]
     else if r > 0x10FFFF \<or> utf16_IsSurrogate r then [0xEF, 0xBF, 0xBD]
     else if r < 0x10000 then
       [word_of_nat (0xE0 + r div 4096), word_of_nat (0x80 + r div 64 mod 64), word_of_nat (0x80 + r mod 64)]
     else [word_of_nat (0xF0 + r div 262144), word_of_nat (0x80 + r div 4096 mod 64),
           word_of_nat (0x80 + r div 64 mod 64), word_of_nat (0x80 + r mod 64)])"

definition simple_escape :: "byte \<Rightarrow> byte option" where
  "simple_escape e =
    (if e = 0x22 \<or> e = 0x5C \<or> e = 0x2F then Some e
     else if e = 0x62 then Some 0x08 else if e = 0x66 then Some 0x0C else if e = 0x6E then Some 0x0A
     else if e = 0x72 then Some 0x0D else if e = 0x74 then Some 0x09 else None)"

text \<open>The loop that handles escapes, with the bytes collected so far.\<close>

function str_slow :: "bytes \<Rightarrow> bytes \<Rightarrow> (bytes \<times> bytes) result" where
  "str_slow out [] = json_corrupt"
| "str_slow out (c # r) =
    (if c = 0x22 then Inr (out, r)
     else if c < 0x20 then json_corrupt
     else if c \<noteq> 0x5C then str_slow (out @ [c]) r
     else case r of
       [] \<Rightarrow> json_corrupt
     | e # r \<Rightarrow>
         (case simple_escape e of
            Some c \<Rightarrow> str_slow (out @ [c]) r
          | None \<Rightarrow>
              if e \<noteq> 0x75 then json_corrupt
              else case parser_u4 r of None \<Rightarrow> json_corrupt | Some u \<Rightarrow>
                let r = drop 4 r
                in if \<not> utf16_IsSurrogate u then str_slow (out @ utf8_AppendRune u) r
                   else if u \<ge> 0xDC00 \<or> length r < 6 \<or> r ! 0 \<noteq> 0x5C \<or> r ! 1 \<noteq> 0x75 then json_corrupt
                   else case parser_u4 (drop 2 r) of None \<Rightarrow> json_corrupt | Some lo \<Rightarrow>
                     let u = utf16_DecodeRune u lo
                     in if u = 0xFFFD then json_corrupt
                        else str_slow (out @ utf8_AppendRune u) (drop 4 (drop 2 r))))"
  by pat_completeness auto
termination
  by (relation "measure (\<lambda>(out, inp). length inp)") auto

text \<open>The loop before the first escape, then the opening quote.\<close>

fun str_fast :: "bytes \<Rightarrow> bytes \<Rightarrow> (bytes \<times> bytes) result" where
  "str_fast acc [] = str_slow acc []"
| "str_fast acc (c # r) =
    (if c = 0x22 then Inr (acc, r)
     else if c = 0x5C then str_slow acc (c # r)
     else if c < 0x20 then json_corrupt
     else str_fast (acc @ [c]) r)"

definition parser_str :: "bytes \<Rightarrow> (bytes \<times> bytes) result" where
  "parser_str inp = str_fast [] (drop 1 inp)"

section \<open>Values, objects, arrays\<close>

text \<open>
  The loops over members and elements take the parser of the nested value (\<open>p.value(depth + 1)\<close>)
  and as fuel the number of iterations the input can last.
\<close>

type_synonym nested = "bytes \<Rightarrow> (jvalue \<times> bytes) result option"

fun object_loop :: "nested \<Rightarrow> nat \<Rightarrow> (bytes \<times> jvalue) list \<Rightarrow> bytes \<Rightarrow> (jvalue \<times> bytes) result option" where
  "object_loop pv 0 mems inp = None"
| "object_loop pv (Suc fuel) mems inp =
    (let inp = parser_ws inp
     in if inp = [] \<or> hd inp \<noteq> 0x22 then Some json_corrupt
        else case parser_str inp of Inl e \<Rightarrow> Some (Inl e) | Inr (k, inp) \<Rightarrow>
          if k \<in> fst ` set mems then Some json_corrupt
          else let inp = parser_ws inp
            in if inp = [] \<or> hd inp \<noteq> 0x3A then Some json_corrupt
               else case pv (parser_ws (tl inp)) of
                 None \<Rightarrow> None
               | Some (Inl e) \<Rightarrow> Some (Inl e)
               | Some (Inr (val, inp)) \<Rightarrow>
                   let mems = mems @ [(k, val)]; inp = parser_ws inp
                   in case inp of
                        [] \<Rightarrow> Some json_corrupt
                      | c # r \<Rightarrow> if c = 0x2C then object_loop pv fuel mems r
                          else if c = 0x7D then Some (Inr (JObject mems, r))
                          else Some json_corrupt)"

definition parser_object :: "nested \<Rightarrow> bytes \<Rightarrow> (jvalue \<times> bytes) result option" where
  "parser_object pv inp =
    (let inp = parser_ws (drop 1 inp)
     in case inp of
          c # r \<Rightarrow> if c = 0x7D then Some (Inr (JObject [], r)) else object_loop pv (length inp + 1) [] inp
        | [] \<Rightarrow> object_loop pv (length inp + 1) [] inp)"

fun array_loop :: "nested \<Rightarrow> nat \<Rightarrow> jvalue list \<Rightarrow> bytes \<Rightarrow> (jvalue \<times> bytes) result option" where
  "array_loop pv 0 vals inp = None"
| "array_loop pv (Suc fuel) vals inp =
    (case pv (parser_ws inp) of
       None \<Rightarrow> None
     | Some (Inl e) \<Rightarrow> Some (Inl e)
     | Some (Inr (e, inp)) \<Rightarrow>
         let vals = vals @ [e]; inp = parser_ws inp
         in case inp of
              [] \<Rightarrow> Some json_corrupt
            | c # r \<Rightarrow> if c = 0x2C then array_loop pv fuel vals r
                else if c = 0x5D then Some (Inr (JArray vals, r))
                else Some json_corrupt)"

definition parser_array :: "nested \<Rightarrow> bytes \<Rightarrow> (jvalue \<times> bytes) result option" where
  "parser_array pv inp =
    (let inp = parser_ws (drop 1 inp)
     in case inp of
          c # r \<Rightarrow> if c = 0x5D then Some (Inr (JArray [], r)) else array_loop pv (length inp + 1) [] inp
        | [] \<Rightarrow> array_loop pv (length inp + 1) [] inp)"

text \<open>The values that do not nest.\<close>

definition parser_scalar :: "bytes \<Rightarrow> (jvalue \<times> bytes) result" where
  "parser_scalar inp =
    (case inp of
       [] \<Rightarrow> json_corrupt
     | c # _ \<Rightarrow>
         if c = 0x22 then (case parser_str inp of Inl e \<Rightarrow> Inl e | Inr (s, r) \<Rightarrow> Inr (JString s, r))
         else if c = 0x2D \<or> is_digit c then parser_number inp
         else case parser_lit (ascii ''true'') inp of
           Some r \<Rightarrow> Inr (JBool (ascii ''true''), r)
         | None \<Rightarrow> (case parser_lit (ascii ''false'') inp of
           Some r \<Rightarrow> Inr (JBool (ascii ''false''), r)
         | None \<Rightarrow> (case parser_lit (ascii ''null'') inp of
           Some r \<Rightarrow> Inr (JNull, r)
         | None \<Rightarrow> json_corrupt)))"

function parser_value :: "nat \<Rightarrow> nested" where
  "parser_value depth inp =
    (if depth > maxDepth then Some json_corrupt
     else case inp of
       [] \<Rightarrow> Some json_corrupt
     | c # _ \<Rightarrow>
         if c = 0x7B then parser_object (\<lambda>i. parser_value (depth + 1) i) inp
         else if c = 0x5B then parser_array (\<lambda>i. parser_value (depth + 1) i) inp
         else Some (parser_scalar inp))"
  by pat_completeness auto
termination
  by (relation "measure (\<lambda>(depth, inp). maxDepth + 1 - depth)") auto

declare parser_value.simps [simp del]

definition parseJSON :: "bytes \<Rightarrow> jvalue result" where
  "parseJSON b =
    (if \<not> ValidString b then json_corrupt
     else case parser_value 0 (parser_ws b) of
            None \<Rightarrow> errf ErrOther ''parser'' ''fuel''
          | Some (Inl e) \<Rightarrow> Inl e
          | Some (Inr (v, r)) \<Rightarrow> if parser_ws r \<noteq> [] then json_corrupt else Inr v)"

section \<open>The parser always returns\<close>

lemma json_corrupt_simps [simp]:
  "json_corrupt \<noteq> Inr x" "Inr x \<noteq> json_corrupt"
  by (simp_all add: json_corrupt_def)

lemma length_parser_ws: "length (parser_ws inp) \<le> length inp"
  by (simp add: parser_ws_def length_dropWhile_le)

lemma str_slow_shorter: "str_slow out inp = Inr (s, r) \<Longrightarrow> length r < length inp"
proof (induction "length inp" arbitrary: out inp rule: less_induct)
  case less
  have IH: "length r < length inp" if "str_slow out' i = Inr (s, r)" "length i < length inp" for out' i
    using less.hyps[OF that(2,1)] that(2) by simp
  show ?case
  proof (cases inp)
    case (Cons c r')
    then show ?thesis
      using less.prems IH by (auto simp: Let_def split: if_splits list.splits option.splits)
  qed (use less.prems in simp)
qed

lemma str_fast_shorter: "str_fast acc inp = Inr (s, r) \<Longrightarrow> length r < length inp"
proof (induction acc inp rule: str_fast.induct)
  case (2 acc c r)
  then show ?case using str_slow_shorter[of acc "c # r"] by (auto simp del: str_slow.simps split: if_splits)
qed simp

lemma parser_str_shorter: "parser_str inp = Inr (s, r) \<Longrightarrow> length r < length inp"
  using str_fast_shorter[of "[]" "drop 1 inp"] by (auto simp: parser_str_def)

lemma parser_digits_shorter: "parser_digits inp = Some r \<Longrightarrow> length r < length inp"
proof -
  assume "parser_digits inp = Some r"
  then have "takeWhile is_digit inp \<noteq> []" "r = dropWhile is_digit inp"
    by (auto simp: parser_digits_def split: if_splits)
  then show ?thesis using takeWhile_dropWhile_id[of is_digit inp] by (metis length_append length_greater_0_conv less_add_same_cancel2)
qed

lemma parser_number_shorter: "parser_number inp = Inr (v, r) \<Longrightarrow> length r < length inp"
proof -
  have i: "number_integer x = Some y \<Longrightarrow> length y < length x" for x y
    by (auto simp: number_integer_def split: list.splits if_splits dest!: parser_digits_shorter)
  have f: "number_fraction x = Some y \<Longrightarrow> length y \<le> length x" for x y
    by (auto simp: number_fraction_def split: list.splits if_splits dest!: parser_digits_shorter)
  have e: "number_exponent x = Some y \<Longrightarrow> length y \<le> length x" for x y
    by (auto simp: number_exponent_def split: list.splits if_splits dest!: parser_digits_shorter)
  assume "parser_number inp = Inr (v, r)"
  then show ?thesis
    by (auto simp: parser_number_def split: option.splits dest!: i f e)
qed

lemma parser_scalar_shorter: "parser_scalar inp = Inr (v, r) \<Longrightarrow> length r < length inp"
  using parser_number_shorter[of inp] parser_str_shorter[of inp]
  by (auto simp: parser_scalar_def parser_lit_def ascii_def split: list.splits if_splits option.splits sum.splits)

text \<open>Every error of the parser is \<open>ErrCorrupt\<close>.\<close>

definition only_corrupt :: "'a result \<Rightarrow> bool" where
  "only_corrupt x \<longleftrightarrow> (\<forall>e. x = Inl e \<longrightarrow> e = Err ErrCorrupt ''Manifest'' [])"

lemma only_corrupt_simps [simp]: "only_corrupt (Inr x)" "only_corrupt json_corrupt"
  by (simp_all add: only_corrupt_def json_corrupt_def)

lemma str_slow_corrupt: "only_corrupt (str_slow out inp)"
  by (induction out inp rule: str_slow.induct)
    (simp, subst str_slow.simps, auto simp: Let_def simp del: str_slow.simps split: list.splits option.splits)

lemma str_fast_corrupt: "only_corrupt (str_fast acc inp)"
  by (induction acc inp rule: str_fast.induct) (simp_all add: str_slow_corrupt del: str_slow.simps)

lemma parser_str_corrupt: "only_corrupt (parser_str inp)"
  by (simp add: parser_str_def str_fast_corrupt)

lemma parser_number_corrupt: "only_corrupt (parser_number inp)"
  by (simp add: parser_number_def split: option.splits)

lemma parser_scalar_corrupt: "only_corrupt (parser_scalar inp)"
  using parser_str_corrupt[of inp] parser_number_corrupt[of inp]
  by (auto simp: parser_scalar_def only_corrupt_def json_corrupt_def split: list.splits option.splits sum.splits if_splits)

text \<open>A nested parser returns, consumes input when it succeeds, and fails only with \<open>ErrCorrupt\<close>.\<close>

definition leaves_less :: "nat \<Rightarrow> (jvalue \<times> bytes) result option \<Rightarrow> bool" where
  "leaves_less n res \<longleftrightarrow> res \<noteq> None \<and> (\<forall>v r. res = Some (Inr (v, r)) \<longrightarrow> length r < n) \<and>
     (\<forall>x. res = Some x \<longrightarrow> only_corrupt x)"

definition consumes :: "nested \<Rightarrow> bool" where
  "consumes pv \<longleftrightarrow> (\<forall>i. leaves_less (length i) (pv i))"

lemma leaves_less_simps [simp]:
  "leaves_less n (Some (Inl e)) \<longleftrightarrow> e = Err ErrCorrupt ''Manifest'' []" "leaves_less n (Some json_corrupt)"
  "leaves_less n (Some (Inr (v, r))) \<longleftrightarrow> length r < n"
  by (auto simp: leaves_less_def only_corrupt_def json_corrupt_def)

lemma leaves_less_mono: "leaves_less n res \<Longrightarrow> n \<le> m \<Longrightarrow> leaves_less m res"
  by (auto simp: leaves_less_def)

lemma consumesD:
  "consumes pv \<Longrightarrow> pv i \<noteq> None" "consumes pv \<Longrightarrow> pv i = Some (Inr (v, r)) \<Longrightarrow> length r < length i"
  "consumes pv \<Longrightarrow> pv i = Some (Inl e) \<Longrightarrow> e = Err ErrCorrupt ''Manifest'' []"
  by (auto simp: consumes_def leaves_less_def only_corrupt_def)

lemma parser_ws_Cons_shorter: "parser_ws i = c # r \<Longrightarrow> length r < length i"
  using length_parser_ws[of i] by simp

lemma object_loop_returns:
  assumes "consumes pv"
  shows "length inp < fuel \<Longrightarrow> leaves_less (length inp) (object_loop pv fuel mems inp)"
proof (induction fuel arbitrary: mems inp)
  case (Suc fuel)
  show ?case
  proof (cases "parser_str (parser_ws inp)")
    case (Inl e)
    then show ?thesis using parser_str_corrupt[of "parser_ws inp"] by (simp add: Let_def only_corrupt_def)
  next
    case (Inr ki)
    then obtain k i where ki: "parser_str (parser_ws inp) = Inr (k, i)" by (cases ki) auto
    then have i: "length i < length inp" using parser_str_shorter length_parser_ws[of inp] by fastforce
    let ?j = "parser_ws (tl (parser_ws i))"
    have j: "length ?j \<le> length i"
      using length_parser_ws[of i] length_parser_ws[of "tl (parser_ws i)"] by simp
    obtain res where res: "pv ?j = Some res" using consumesD(1)[OF assms] by blast
    show ?thesis
    proof (cases res)
      case (Inl e)
      then show ?thesis using ki res consumesD(3)[OF assms, of ?j e] by (simp add: Let_def)
    next
      case (Inr vr)
      then obtain v r where vr: "pv ?j = Some (Inr (v, r))" using res by (cases vr) auto
      have r: "length r < length inp" using consumesD(2)[OF assms vr] i j by simp
      show ?thesis
      proof (cases "parser_ws r")
        case Nil
        then show ?thesis using ki vr by (simp add: Let_def)
      next
        case (Cons c r')
        then have "length r' < length inp" using parser_ws_Cons_shorter[of r c r'] r by simp
        then show ?thesis
          using leaves_less_mono[OF Suc.IH[of r']] Suc.prems ki vr Cons by (auto simp: Let_def)
      qed
    qed
  qed
qed simp

lemma array_loop_returns:
  assumes "consumes pv"
  shows "length inp < fuel \<Longrightarrow> leaves_less (length inp) (array_loop pv fuel vals inp)"
proof (induction fuel arbitrary: vals inp)
  case (Suc fuel)
  obtain res where res: "pv (parser_ws inp) = Some res" using consumesD(1)[OF assms] by blast
  show ?case
  proof (cases res)
    case (Inl e)
    then show ?thesis using res consumesD(3)[OF assms, of _ e] by simp
  next
    case (Inr vr)
    then obtain v r where vr: "pv (parser_ws inp) = Some (Inr (v, r))" using res by (cases vr) auto
    have r: "length r < length inp" using consumesD(2)[OF assms vr] length_parser_ws[of inp] by simp
    show ?thesis
    proof (cases "parser_ws r")
      case Nil
      then show ?thesis using vr by (simp add: Let_def)
    next
      case (Cons c r')
      then have "length r' < length inp" using parser_ws_Cons_shorter[of r c r'] r by simp
      then show ?thesis using leaves_less_mono[OF Suc.IH[of r']] Suc.prems vr Cons by (auto simp: Let_def)
    qed
  qed
qed simp

lemma parser_object_returns:
  assumes "consumes pv" "inp \<noteq> []"
  shows "leaves_less (length inp) (parser_object pv inp)"
proof -
  let ?i = "parser_ws (drop 1 inp)"
  have i: "length ?i < length inp" using length_parser_ws[of "drop 1 inp"] assms(2) by (cases inp) auto
  show ?thesis
    using leaves_less_mono[OF object_loop_returns[OF assms(1), of ?i "length ?i + 1" "[]"]] i
    by (cases ?i) (auto simp: parser_object_def Let_def simp del: object_loop.simps)
qed

lemma parser_array_returns:
  assumes "consumes pv" "inp \<noteq> []"
  shows "leaves_less (length inp) (parser_array pv inp)"
proof -
  let ?i = "parser_ws (drop 1 inp)"
  have i: "length ?i < length inp" using length_parser_ws[of "drop 1 inp"] assms(2) by (cases inp) auto
  show ?thesis
    using leaves_less_mono[OF array_loop_returns[OF assms(1), of ?i "length ?i + 1" "[]"]] i
    by (cases ?i) (auto simp: parser_array_def Let_def simp del: array_loop.simps)
qed

lemma parser_value_consumes: "consumes (parser_value depth)"
proof (induction "maxDepth + 1 - depth" arbitrary: depth)
  case 0
  then show ?case by (simp add: consumes_def parser_value.simps)
next
  case (Suc d)
  then have IH: "consumes (parser_value (depth + 1))" by simp
  show ?case
    unfolding consumes_def
  proof
    fix i
    show "leaves_less (length i) (parser_value depth i)"
    proof (cases i)
      case (Cons c r)
      have "leaves_less (length i) (Some (parser_scalar i))"
        using parser_scalar_shorter[of i] parser_scalar_corrupt[of i] by (auto simp: leaves_less_def)
      then show ?thesis
        using parser_object_returns[OF IH, of i] parser_array_returns[OF IH, of i]
        by (auto simp: parser_value.simps[of depth] Cons)
    qed (simp add: parser_value.simps)
  qed
qed

section \<open>The canonical form\<close>

definition hexd :: "nat \<Rightarrow> byte" where
  "hexd d = ascii ''0123456789abcdef'' ! d"

text \<open>\<open>appendString\<close> of \<^verbatim>\<open>encode.go\<close>: the bytes it appends.\<close>

definition escape_byte :: "byte \<Rightarrow> bytes" where
  "escape_byte c =
    (if c = 0x22 \<or> c = 0x5C then [0x5C, c]
     else if c < 0x20 then [0x5C, 0x75, 0x30, 0x30, hexd (unat (drop_bit 4 c)), hexd (unat (c AND 15))]
     else [c])"

definition appendString :: "bytes \<Rightarrow> bytes" where
  "appendString s = 0x22 # concat (map escape_byte s) @ [0x22]"

fun commas :: "bytes list \<Rightarrow> bytes" where
  "commas [] = []"
| "commas [x] = x"
| "commas (x # y # xs) = x @ 0x2C # commas (y # xs)"

fun render :: "jvalue \<Rightarrow> bytes" where
  "render (JString s) = appendString s"
| "render (JNumber l) = l"
| "render (JArray vs) = 0x5B # commas (map render vs) @ [0x5D]"
| "render (JObject ms) = 0x7B # commas (map (\<lambda>(k, v). appendString k @ 0x3A # render v) ms) @ [0x7D]"
| "render (JBool b) = b"
| "render JNull = ascii ''null''"

text \<open>The values the writer renders: digits without a leading zero, distinct keys, no deeper than the bound.\<close>

definition canonical_number :: "bytes \<Rightarrow> bool" where
  "canonical_number l \<longleftrightarrow> l \<noteq> [] \<and> list_all is_digit l \<and> (hd l = 0x30 \<longrightarrow> length l = 1)"

fun writable :: "nat \<Rightarrow> jvalue \<Rightarrow> bool" where
  "writable d (JString s) = (d \<le> maxDepth)"
| "writable d (JNumber l) = (d \<le> maxDepth \<and> canonical_number l)"
| "writable d (JArray vs) = (d \<le> maxDepth \<and> (\<forall>v \<in> set vs. writable (d + 1) v))"
| "writable d (JObject ms) = (d \<le> maxDepth \<and> distinct (map fst ms) \<and> (\<forall>m \<in> set ms. writable (d + 1) (snd m)))"
| "writable d (JBool b) = False"
| "writable d JNull = False"

subsection \<open>Strings\<close>

lemma small_byte_cases:
  assumes "(c :: byte) < 0x20"
  shows "\<exists>n < 32. c = word_of_nat n"
  using assms by (intro exI[of _ "unat c"]) (simp add: word_less_nat_alt)

lemma escape_control:
  assumes "c < 0x20"
  shows "parser_u4 ([0x30, 0x30, hexd (unat (drop_bit 4 c)), hexd (unat (c AND 15))] @ r) = Some (unat c)"
    "utf8_AppendRune (unat c) = [c]" "\<not> utf16_IsSurrogate (unat c)"
proof -
  obtain n where n: "n < 32" "c = word_of_nat n" using small_byte_cases[OF assms] by blast
  have all: "list_all (\<lambda>n. let c = word_of_nat n :: byte in
      fold (\<lambda>c r. case (r, hexVal c) of (Some r, Some h) \<Rightarrow> Some (r * 16 + h) | _ \<Rightarrow> None)
        [0x30, 0x30, hexd (unat (drop_bit 4 c)), hexd (unat (c AND 15))] (Some 0) = Some n \<and> unat c = n) [0..<32]"
    by code_simp
  then have "let c = word_of_nat n :: byte in
      fold (\<lambda>c r. case (r, hexVal c) of (Some r, Some h) \<Rightarrow> Some (r * 16 + h) | _ \<Rightarrow> None)
        [0x30, 0x30, hexd (unat (drop_bit 4 c)), hexd (unat (c AND 15))] (Some 0) = Some n \<and> unat c = n"
    using n(1) by (simp only: list_all_iff set_upt ball_simps) (metis atLeastLessThan_iff le0)
  then show "parser_u4 ([0x30, 0x30, hexd (unat (drop_bit 4 c)), hexd (unat (c AND 15))] @ r) = Some (unat c)"
    by (simp add: parser_u4_def n(2) Let_def numeral_eq_Suc)
  have "unat c < 32" using assms by (simp add: word_less_nat_alt)
  then show "utf8_AppendRune (unat c) = [c]" "\<not> utf16_IsSurrogate (unat c)"
    by (simp_all add: utf8_AppendRune_def utf16_IsSurrogate_def)
qed

lemma str_slow_escape:
  "str_slow out (concat (map escape_byte s) @ 0x22 # r) = Inr (out @ s, r)"
proof (induction s arbitrary: out)
  case (Cons c s)
  let ?rest = "concat (map escape_byte s) @ 0x22 # r"
  consider "c = 0x22 \<or> c = 0x5C" | "c < 0x20" | "c \<noteq> 0x22" "c \<noteq> 0x5C" "\<not> c < 0x20" by blast
  then show ?case
  proof cases
    case 1
    then have "simple_escape c = Some c" by (auto simp: simple_escape_def)
    then show ?thesis using 1 Cons by (simp add: escape_byte_def[of c])
  next
    case 2
    then have "c \<noteq> 0x22" "c \<noteq> 0x5C" by auto
    moreover have "simple_escape 0x75 = None" by (simp add: simple_escape_def)
    ultimately show ?thesis
      using 2 escape_control(1)[OF 2, of ?rest] escape_control(2,3)[OF 2] Cons[of "out @ [c]"]
      by (simp add: escape_byte_def[of c] Let_def)
  next
    case 3
    then show ?thesis using Cons by (simp add: escape_byte_def[of c])
  qed
qed simp

lemma str_fast_escape:
  "str_fast acc (concat (map escape_byte s) @ 0x22 # r) = Inr (acc @ s, r)"
proof (induction s arbitrary: acc)
  case (Cons c s)
  show ?case
  proof (cases "c = 0x22 \<or> c = 0x5C \<or> c < 0x20")
    case True
    then have "\<exists>t. escape_byte c = 0x5C # t" by (auto simp: escape_byte_def)
    then show ?thesis
      using str_slow_escape[of acc "c # s" r] by (auto simp del: str_slow.simps)
  next
    case False
    then show ?thesis using Cons by (simp add: escape_byte_def[of c])
  qed
qed simp

lemma parser_str_appendString: "parser_str (appendString s @ r) = Inr (s, r)"
  using str_fast_escape[of "[]" s r] by (simp add: parser_str_def appendString_def)

subsection \<open>Numbers\<close>

text \<open>What may follow a value in the canonical form.\<close>

definition delimited :: "bytes \<Rightarrow> bool" where
  "delimited r \<longleftrightarrow> (r = [] \<or> hd r = 0x2C \<or> hd r = 0x5D \<or> hd r = 0x7D)"

lemma parser_ws_delimited [simp]: "delimited r \<Longrightarrow> parser_ws r = r"
  by (cases r) (auto simp: delimited_def parser_ws_def is_ws_def)

lemma digits_then_delimiter:
  assumes "list_all is_digit l" "delimited r"
  shows "takeWhile is_digit (l @ r) = l" "dropWhile is_digit (l @ r) = r"
proof -
  have "takeWhile is_digit r = []" "dropWhile is_digit r = r"
    using assms(2) by (cases r; auto simp: delimited_def is_digit_def)+
  moreover have "\<And>x. x \<in> set l \<Longrightarrow> is_digit x" using assms(1) by (simp add: list_all_iff)
  ultimately show "takeWhile is_digit (l @ r) = l" "dropWhile is_digit (l @ r) = r"
    by (simp_all add: takeWhile_append2 dropWhile_append2)
qed

lemma parser_number_canonical:
  assumes "canonical_number l" "delimited r"
  shows "parser_number (l @ r) = Inr (JNumber l, r)"
proof -
  obtain c l' where l: "l = c # l'" "is_digit c" "list_all is_digit l'"
    using assms(1) by (cases l) (auto simp: canonical_number_def)
  then have c: "c \<noteq> 0x2D" by (auto simp: is_digit_def)
  have "number_integer (l @ r) = Some r"
    using assms digits_then_delimiter[OF _ assms(2), of l] l c
    by (auto simp: number_integer_def parser_digits_def canonical_number_def)
  moreover have "number_fraction r = Some r" "number_exponent r = Some r"
    using assms(2) by (cases r; auto simp: number_fraction_def number_exponent_def delimited_def)+
  ultimately show ?thesis by (simp add: parser_number_def)
qed

subsection \<open>Nested values\<close>

definition inverts :: "nested \<Rightarrow> jvalue \<Rightarrow> bool" where
  "inverts pv v \<longleftrightarrow> (\<forall>r. delimited r \<longrightarrow> pv (render v @ r) = Some (Inr (v, r)))"

lemma delimited_simps [simp]:
  "delimited []" "delimited (0x2C # r)" "delimited (0x5D # r)" "delimited (0x7D # r)"
  by (simp_all add: delimited_def)

text \<open>The first byte of a rendered value is no white space and no closing bracket.\<close>

lemma render_start:
  "writable d v \<Longrightarrow> \<exists>c t. render v = c # t \<and> \<not> is_ws c \<and> c \<noteq> 0x5D \<and> c \<noteq> 0x7D"
  by (cases v) (auto simp: appendString_def is_ws_def canonical_number_def is_digit_def neq_Nil_conv)

lemma parser_ws_Cons [simp]: "\<not> is_ws c \<Longrightarrow> parser_ws (c # r) = c # r"
  by (simp add: parser_ws_def)

lemma not_ws [simp]: "\<not> is_ws 0x22" "\<not> is_ws 0x3A" "\<not> is_ws 0x2C" "\<not> is_ws 0x5D" "\<not> is_ws 0x7D"
  by (simp_all add: is_ws_def)

lemma parser_ws_render: "writable d v \<Longrightarrow> parser_ws (render v @ r) = render v @ r"
  using render_start[of d v] by auto

lemma length_commas: "(\<And>x. x \<in> set xs \<Longrightarrow> x \<noteq> []) \<Longrightarrow> length xs \<le> length (commas xs)"
proof (induction xs rule: commas.induct)
  case (3 x y xs)
  then show ?case by (cases x) auto
qed (auto simp: Suc_le_eq)

lemma array_loop_commas:
  assumes "vs \<noteq> []" "length vs \<le> fuel" "\<And>v. v \<in> set vs \<Longrightarrow> writable d v \<and> inverts pv v"
  shows "array_loop pv fuel acc (commas (map render vs) @ 0x5D # r) = Some (Inr (JArray (acc @ vs), r))"
  using assms
proof (induction vs arbitrary: fuel acc)
  case (Cons v vs)
  then obtain fuel' where f: "fuel = Suc fuel'" by (cases fuel) auto
  have v: "writable d v" "inverts pv v" using Cons.prems(3) by auto
  show ?case
  proof (cases vs)
    case Nil
    then show ?thesis using v f by (simp add: parser_ws_render[OF v(1)] inverts_def Let_def)
  next
    case (Cons w ws)
    then have "array_loop pv fuel' (acc @ [v]) (commas (map render vs) @ 0x5D # r) = Some (Inr (JArray ((acc @ [v]) @ vs), r))"
      using Cons.IH[of fuel' "acc @ [v]"] Cons.prems f by simp
    then show ?thesis using v f Cons by (simp add: parser_ws_render[OF v(1)] inverts_def Let_def)
  qed
qed simp

lemma object_loop_commas:
  assumes "ms \<noteq> []" "length ms \<le> fuel" "distinct (map fst (acc @ ms))"
    and "\<And>m. m \<in> set ms \<Longrightarrow> writable d (snd m) \<and> inverts pv (snd m)"
  shows "object_loop pv fuel acc (commas (map (\<lambda>(k, v). appendString k @ 0x3A # render v) ms) @ 0x7D # r) =
    Some (Inr (JObject (acc @ ms), r))"
  using assms
proof (induction ms arbitrary: fuel acc)
  case (Cons m ms)
  then obtain fuel' where f: "fuel = Suc fuel'" by (cases fuel) auto
  obtain k v where m: "m = (k, v)" by (cases m)
  have v: "writable d v" "inverts pv v" using Cons.prems(4)[of m] by (simp_all add: m)
  have k: "k \<notin> fst ` set acc" using Cons.prems(3) by (auto simp: m)
  have start: "parser_ws (appendString k @ t) = appendString k @ t" "hd (appendString k @ t) = 0x22" "appendString k @ t \<noteq> []" for t
    by (simp_all add: appendString_def)
  show ?case
  proof (cases ms)
    case Nil
    then show ?thesis
      using v f k by (simp add: m start parser_str_appendString parser_ws_render[OF v(1)] inverts_def Let_def)
  next
    case (Cons w ws)
    then have "object_loop pv fuel' (acc @ [m]) (commas (map (\<lambda>(k, v). appendString k @ 0x3A # render v) ms) @ 0x7D # r) =
        Some (Inr (JObject ((acc @ [m]) @ ms), r))"
      using Cons.IH[of fuel' "acc @ [m]"] Cons.prems f by simp
    then show ?thesis
      using v f k Cons by (simp add: m start parser_str_appendString parser_ws_render[OF v(1)] inverts_def Let_def)
  qed
qed simp

lemma parser_value_render: "writable d v \<Longrightarrow> inverts (parser_value d) v"
proof (induction v arbitrary: d)
  case (JString s)
  then show ?case
    using parser_str_appendString[of s]
    by (auto simp: inverts_def parser_value.simps[of d] appendString_def parser_scalar_def is_digit_def)
next
  case (JNumber l)
  then obtain c l' where l: "l = c # l'" "is_digit c" by (cases l) (auto simp: canonical_number_def)
  then have "c \<noteq> 0x22" "c \<noteq> 0x7B" "c \<noteq> 0x5B" by (auto simp: is_digit_def)
  then show ?case
    using JNumber parser_number_canonical[of l] l
    by (auto simp: inverts_def parser_value.simps[of d] parser_scalar_def)
next
  case (JArray vs)
  show ?case
    unfolding inverts_def
  proof (intro allI impI)
    fix r assume "delimited r"
    have d: "\<not> d > maxDepth" using JArray.prems by simp
    have el: "writable (d + 1) v \<and> inverts (parser_value (d + 1)) v" if "v \<in> set vs" for v
      using JArray that by simp
    show "parser_value d (render (JArray vs) @ r) = Some (Inr (JArray vs, r))"
    proof (cases vs)
      case Nil
      then show ?thesis using d by (simp add: parser_value.simps[of d] parser_array_def Let_def)
    next
      case (Cons v vs')
      let ?in = "commas (map render vs) @ 0x5D # r"
      obtain c t where c: "render v = c # t" "\<not> is_ws c" "c \<noteq> 0x5D" using render_start[of "d + 1" v] el Cons by auto
      then obtain t' where i: "?in = c # t'" using Cons by (cases vs') auto
      have "render w \<noteq> []" if "w \<in> set vs" for w using render_start[of "d + 1" w] el[OF that] by auto
      then have "length vs \<le> length ?in + 1" using length_commas[of "map render vs"] by fastforce
      then have "array_loop (parser_value (d + 1)) (length ?in + 1) [] ?in = Some (Inr (JArray vs, r))"
        using array_loop_commas[of vs "length ?in + 1" "d + 1" "parser_value (d + 1)" "[]" r] el Cons by simp
      then show ?thesis
        using d c i by (simp add: parser_value.simps[of d] parser_array_def Let_def del: array_loop.simps)
    qed
  qed
next
  case (JObject ms)
  show ?case
    unfolding inverts_def
  proof (intro allI impI)
    fix r assume "delimited r"
    have d: "\<not> d > maxDepth" using JObject.prems by simp
    have el: "writable (d + 1) (snd m) \<and> inverts (parser_value (d + 1)) (snd m)" if m: "m \<in> set ms" for m
      using JObject.prems JObject.IH[of m "snd m" "d + 1"] m by (cases m) (auto simp: snds.simps)
    show "parser_value d (render (JObject ms) @ r) = Some (Inr (JObject ms, r))"
    proof (cases ms)
      case Nil
      then show ?thesis using d by (simp add: parser_value.simps[of d] parser_object_def Let_def)
    next
      case (Cons m ms')
      let ?f = "\<lambda>(k, v). appendString k @ 0x3A # render v"
      let ?in = "commas (map ?f ms) @ 0x7D # r"
      obtain t' where i: "?in = 0x22 # t'"
        using Cons by (cases ms'; cases m) (auto simp: appendString_def)
      have "length ms \<le> length ?in + 1" using length_commas[of "map ?f ms"] by fastforce
      then have "object_loop (parser_value (d + 1)) (length ?in + 1) [] ?in = Some (Inr (JObject ms, r))"
        using object_loop_commas[of ms "length ?in + 1" "[]" "d + 1" "parser_value (d + 1)" r] el Cons JObject.prems by simp
      then show ?thesis
        using d i by (simp add: parser_value.simps[of d] parser_object_def Let_def del: object_loop.simps)
    qed
  qed
qed simp_all

subsection \<open>UTF-8\<close>

text \<open>A rune is its own bytes, whatever follows; these are one byte below \<open>0x80\<close> or bytes from \<open>0x80\<close> on.\<close>

lemma decode_rune_split:
  assumes "decode_rune p = Some (u, rest)"
  obtains pre where "p = pre @ rest" "\<And>x. decode_rune (pre @ x) = Some (u, x)"
    "(\<exists>b. pre = [b] \<and> b < 0x80) \<or> (\<forall>b \<in> set pre. 0x80 \<le> b)"
proof (cases p)
  case (Cons b0 r)
  have lt: "b < 0x80 \<longleftrightarrow> unat b < 0x80" "0x80 \<le> b \<longleftrightarrow> 0x80 \<le> unat b" for b :: byte
    by (simp_all add: word_less_nat_alt word_le_nat_alt)
  consider "unat b0 < 0x80" | "0xC2 \<le> unat b0 \<and> unat b0 \<le> 0xDF" | "0xE0 \<le> unat b0 \<and> unat b0 \<le> 0xEF"
    | "0xF0 \<le> unat b0 \<and> unat b0 \<le> 0xF4"
    using assms Cons by (auto simp: Let_def split: if_splits)
  then show ?thesis
  proof cases
    case 1
    then show ?thesis using assms Cons that[of "[b0]"] by (auto simp: lt)
  next
    case 2
    then obtain b1 where r: "r = b1 # rest" using assms Cons by (auto simp: Let_def split: list.splits if_splits)
    with 2 assms Cons show ?thesis using that[of "[b0, b1]"] by (auto simp: Let_def lt cont_def split: if_splits)
  next
    case 3
    then obtain b1 b2 where r: "r = b1 # b2 # rest" using assms Cons by (auto simp: Let_def split: list.splits if_splits)
    with 3 assms Cons show ?thesis using that[of "[b0, b1, b2]"] by (auto simp: Let_def lt cont_def split: if_splits)
  next
    case 4
    then obtain b1 b2 b3 where r: "r = b1 # b2 # b3 # rest"
      using assms Cons by (auto simp: Let_def split: list.splits if_splits)
    with 4 assms Cons show ?thesis using that[of "[b0, b1, b2, b3]"] by (auto simp: Let_def lt cont_def split: if_splits)
  qed
qed (use assms in simp)

lemma ValidString_Nil [simp]: "ValidString []"
  by (simp add: ValidString_def utf8_decode.simps)

lemma ValidString_step: "decode_rune p = Some (u, rest) \<Longrightarrow> ValidString p \<longleftrightarrow> ValidString rest"
  by (cases "p = []") (auto simp: ValidString_def utf8_decode.simps[of p] split: option.splits)

lemma ValidString_ascii_Cons: "c < 0x80 \<Longrightarrow> ValidString (c # r) \<longleftrightarrow> ValidString r"
  by (rule ValidString_step[of _ "unat c"]) (simp add: word_less_nat_alt)

lemma ValidString_ascii_append: "list_all (\<lambda>c. c < 0x80) a \<Longrightarrow> ValidString (a @ r) \<longleftrightarrow> ValidString r"
  by (induction a) (simp_all add: ValidString_ascii_Cons)

lemma ValidString_decodes: "ValidString p \<Longrightarrow> p \<noteq> [] \<Longrightarrow> \<exists>u rest. decode_rune p = Some (u, rest) \<and> ValidString rest"
  by (auto simp: ValidString_def utf8_decode.simps[of p] split: option.splits)

lemma escape_byte_ascii:
  assumes "c < 0x80"
  shows "list_all (\<lambda>c. c < 0x80) (escape_byte c)"
proof -
  have "unat c \<in> set [0..<128]" using assms by (simp add: word_less_nat_alt)
  moreover have "list_all (\<lambda>n. list_all (\<lambda>c. c < 0x80) (escape_byte (word_of_nat n))) [0..<128]" by code_simp
  ultimately have "list_all (\<lambda>c. c < 0x80) (escape_byte (word_of_nat (unat c)))"
    unfolding list_all_iff[of _ "[0..<128]"] by (rule bspec[rotated])
  then show ?thesis by simp
qed

lemma escape_byte_high: "0x80 \<le> c \<Longrightarrow> escape_byte c = [c]"
proof -
  assume c: "0x80 \<le> c"
  then have "c \<noteq> 0x22" "c \<noteq> 0x5C" "\<not> c < 0x20" by (auto simp: word_le_nat_alt word_less_nat_alt)
  then show ?thesis by (simp add: escape_byte_def)
qed

lemma ValidString_escape:
  "ValidString s \<Longrightarrow> ValidString r \<Longrightarrow> ValidString (concat (map escape_byte s) @ r)"
proof (induction "length s" arbitrary: s rule: less_induct)
  case less
  show ?case
  proof (cases "s = []")
    case False
    then obtain u rest where d: "decode_rune s = Some (u, rest)" and v: "ValidString rest"
      using ValidString_decodes less.prems by blast
    obtain pre where pre: "s = pre @ rest" "\<And>x. decode_rune (pre @ x) = Some (u, x)"
      "(\<exists>b. pre = [b] \<and> b < 0x80) \<or> (\<forall>b \<in> set pre. 0x80 \<le> b)"
      using decode_rune_split[OF d] by metis
    have IH: "ValidString (concat (map escape_byte rest) @ r)"
      using less.hyps[of rest] decode_rune_shorter[OF d] v less.prems by simp
    from pre(3) show ?thesis
    proof
      assume "\<exists>b. pre = [b] \<and> b < 0x80"
      then show ?thesis using IH escape_byte_ascii by (auto simp: pre(1) ValidString_ascii_append)
    next
      assume h: "\<forall>b \<in> set pre. 0x80 \<le> b"
      then have "concat (map escape_byte pre) = pre" by (induction pre) (auto simp: escape_byte_high)
      then show ?thesis using IH ValidString_step[OF pre(2)] by (simp add: pre(1))
    qed
  qed (use less.prems in simp)
qed

lemma ValidString_append: "ValidString a \<Longrightarrow> ValidString b \<Longrightarrow> ValidString (a @ b)"
proof (induction "length a" arbitrary: a rule: less_induct)
  case less
  show ?case
  proof (cases "a = []")
    case False
    then obtain u rest where d: "decode_rune a = Some (u, rest)" and v: "ValidString rest"
      using ValidString_decodes less.prems by blast
    obtain pre where pre: "a = pre @ rest" "\<And>x. decode_rune (pre @ x) = Some (u, x)"
      using decode_rune_split[OF d] by metis
    then show ?thesis
      using less.hyps[of rest] decode_rune_shorter[OF d] v less.prems ValidString_step[OF pre(2)] by simp
  qed (use less.prems in simp)
qed

lemma ValidString_appendString: "ValidString s \<Longrightarrow> ValidString (appendString s)"
  using ValidString_escape[of s "[0x22]"] by (simp add: appendString_def ValidString_ascii_Cons)

fun utf8_strings :: "jvalue \<Rightarrow> bool" where
  "utf8_strings (JString s) = ValidString s"
| "utf8_strings (JArray vs) = (\<forall>v \<in> set vs. utf8_strings v)"
| "utf8_strings (JObject ms) = (\<forall>m \<in> set ms. ValidString (fst m) \<and> utf8_strings (snd m))"
| "utf8_strings _ = True"

lemma ValidString_commas: "(\<And>x. x \<in> set xs \<Longrightarrow> ValidString x) \<Longrightarrow> ValidString (commas xs)"
proof (induction xs rule: commas.induct)
  case (3 x y xs)
  then show ?case using ValidString_append[of x "0x2C # commas (y # xs)"] by (simp add: ValidString_ascii_Cons)
qed simp_all

lemma ValidString_render: "writable d v \<Longrightarrow> utf8_strings v \<Longrightarrow> ValidString (render v)"
proof (induction v arbitrary: d)
  case (JString s)
  then show ?case by (simp add: ValidString_appendString)
next
  case (JNumber l)
  have "x < 0x80" if "is_digit x" for x using that by (auto simp: is_digit_def word_le_nat_alt word_less_nat_alt)
  then have "list_all (\<lambda>c. c < 0x80) l" using JNumber by (auto simp: canonical_number_def list_all_iff)
  then show ?case using ValidString_ascii_append[of l "[]"] by simp
next
  case (JArray vs)
  then have "ValidString (commas (map render vs))" by (intro ValidString_commas) auto
  then show ?case using ValidString_append[of _ "[0x5D]"] by (simp add: ValidString_ascii_Cons)
next
  case (JObject ms)
  have "ValidString (appendString k @ 0x3A # render v)" if m: "(k, v) \<in> set ms" for k v
  proof (rule ValidString_append)
    have kv: "ValidString k" "utf8_strings v" "writable (d + 1) v" using JObject.prems m by force+
    then show "ValidString (appendString k)" by (simp add: ValidString_appendString)
    have "ValidString (render v)" using JObject.IH[OF m, of v "d + 1"] kv by (simp add: snds.simps)
    then show "ValidString (0x3A # render v)" by (simp add: ValidString_ascii_Cons)
  qed
  then have "ValidString (commas (map (\<lambda>(k, v). appendString k @ 0x3A # render v) ms))"
    by (intro ValidString_commas) auto
  then show ?case using ValidString_append[of _ "[0x7D]"] by (simp add: ValidString_ascii_Cons)
qed simp_all

text \<open>The parser inverts the canonical form.\<close>

lemma parseJSON_render:
  assumes "writable 0 v" "utf8_strings v"
  shows "parseJSON (render v) = Inr v"
proof -
  have "parser_value 0 (render v) = Some (Inr (v, []))"
    using parser_value_render[OF assms(1)] by (simp add: inverts_def) (metis append_Nil2 delimited_simps(1))
  moreover have "parser_ws (render v) = render v" using parser_ws_render[OF assms(1), of "[]"] by simp
  ultimately show ?thesis using ValidString_render[OF assms] by (simp add: parseJSON_def)
qed

section \<open>Properties\<close>

text \<open>C22: The parser ends on every input and its only failure is \<open>ErrCorrupt\<close>: the loops over members and
  elements never outlast the input and the nesting bound ends the recursion, whatever the
  bytes.\<close>

theorem parseJSON_total:
  "(\<exists>v. parseJSON b = Inr v) \<or> parseJSON b = Inl (Err ErrCorrupt ''Manifest'' [])"
proof (cases "ValidString b")
  case True
  obtain res where res: "parser_value 0 (parser_ws b) = Some res"
    using consumesD(1)[OF parser_value_consumes] by blast
  show ?thesis
  proof (cases res)
    case (Inl e)
    then show ?thesis using True res consumesD(3)[OF parser_value_consumes] by (simp add: parseJSON_def)
  next
    case (Inr vr)
    then show ?thesis using True res by (cases vr) (simp add: parseJSON_def json_corrupt_def errf_def)
  qed
qed (simp add: parseJSON_def json_corrupt_def errf_def)

end
