(* ===== verification/Manifest_State.thy ===== *)
theory Manifest_State
  imports Wire_Header "HOL-Library.AList" "HOL-Library.Multiset"
begin

text \<open>
  Package \<^verbatim>\<open>internal/manifest\<close>, \<^verbatim>\<open>state.go\<close> (and the record types of \<^verbatim>\<open>record.go\<close>): the
  live-state fold of the manifest journal. \<open>Apply\<close> returns the state at the point of return
  together with the error, so that a partial change on an error path would be visible. Go maps
  whose length the code asks for are association lists, the others are functions; the
  unstable sort of \<open>checkLocs\<close> is a stable one, which cannot be told apart on accepted input,
  where offsets are strictly increasing. The lemmas give the well-formedness invariant, that a
  rejected record changes nothing, that versions and sequence numbers only grow, and the
  refinement to the abstract path map in which a transaction takes effect as a whole.
\<close>

section \<open>Records\<close>

datatype Op = OpAdd | OpDel | OpAddBegin | OpAddExtent | OpAddCommit | OpAddAbort | OpLinkManifest | OpParityGroup | OpOther

fun Op_String :: "Op \<Rightarrow> string" where
  "Op_String OpAdd = ''ADD''"
| "Op_String OpDel = ''DEL''"
| "Op_String OpAddBegin = ''ADD_BEGIN''"
| "Op_String OpAddExtent = ''ADD_EXTENT''"
| "Op_String OpAddCommit = ''ADD_COMMIT''"
| "Op_String OpAddAbort = ''ADD_ABORT''"
| "Op_String OpLinkManifest = ''LINK_MANIFEST''"
| "Op_String OpParityGroup = ''PARITY_GROUP''"
| "Op_String OpOther = ''Op''"

record Loc =
  loc_Blob :: byte
  loc_Hash :: bytes
  loc_Offset :: u64
  loc_Length :: u64

record Member =
  mem_Blob :: byte
  mem_Hash :: bytes
  mem_GroupIndex :: byte

record Record =
  rec_Seq :: u64
  rec_Op :: Op
  rec_HasTS :: bool
  rec_TS :: u64
  rec_Path :: bytes
  rec_FileVer :: u64
  rec_Loc :: "Loc list"
  rec_TxID :: bytes
  rec_ExtentSequence :: u32
  rec_ExtentRecordCount :: u32
  rec_ExtentCount :: u32
  rec_HashID :: byte
  rec_Hash :: bytes
  rec_Lines :: u64
  rec_GroupID :: u32
  rec_Members :: "Member list"

section \<open>State\<close>

record Limits =
  lim_MaxOpenTransactions :: nat
  lim_MaxStagedExtents :: nat

definition DefaultLimits :: Limits where
  "DefaultLimits = \<lparr> lim_MaxOpenTransactions = 1024, lim_MaxStagedExtents = 16777216 \<rparr>"

abbreviation (input) MaxTransactionExtents :: u64 where "MaxTransactionExtents \<equiv> 4294967295"

record Version =
  v_FileVer :: u64
  v_Loc :: "Loc list"
  v_Length :: u64
  v_Seq :: u64

record tx =
  tx_id :: bytes
  tx_path :: bytes
  tx_fileVer :: u64
  tx_beginSeq :: u64
  tx_file :: nat
  tx_extents :: "(u32 \<times> Loc list) list"
  tx_nLocs :: u64
  tx_dupSeq :: bool

record FrameRef =
  fr_Blob :: byte
  fr_Hash :: bytes
  fr_Path :: bytes
  fr_FileVer :: u64
  fr_Offset :: u64

record State =
  st_h :: ArchiveHeader
  st_lim :: Limits
  st_live :: "bytes \<Rightarrow> Version option"
  st_appliedMax :: "bytes \<Rightarrow> u64 option"
  st_open :: "(bytes \<times> tx) list"
  st_closed :: "bytes \<Rightarrow> bool"
  st_refs :: "FrameRef set option"
  st_staged :: int
  st_maxFileVer :: u64
  st_lastSeq :: u64
  st_records :: u64
  st_Ignored :: "bytes list"
  st_Aborted :: nat

definition NewState :: "ArchiveHeader \<Rightarrow> Limits \<Rightarrow> State" where
  "NewState h lim =
    \<lparr> st_h = h, st_lim = (if lim_MaxOpenTransactions lim = 0 then DefaultLimits else lim),
      st_live = (\<lambda>_. None), st_appliedMax = (\<lambda>_. None), st_open = [], st_closed = (\<lambda>_. False), st_refs = None,
      st_staged = 0, st_maxFileVer = 0, st_lastSeq = 0, st_records = 0, st_Ignored = [], st_Aborted = 0 \<rparr>"

definition TrackRefs :: "State \<Rightarrow> State" where
  "TrackRefs s = s\<lparr> st_refs := Some {} \<rparr>"

definition corrupt :: "Record \<Rightarrow> error" where
  "corrupt r = Err ErrCorrupt ''Manifest'' (Op_String (rec_Op r))"

definition resource :: "Record \<Rightarrow> error" where
  "resource r = Err ErrResource ''Manifest'' (Op_String (rec_Op r))"

definition Lookup :: "State \<Rightarrow> bytes \<Rightarrow> Version option" where
  "Lookup s path = st_live s path"

definition AppliedMax :: "State \<Rightarrow> bytes \<Rightarrow> u64 option" where
  "AppliedMax s path = st_appliedMax s path"

definition TxPath :: "State \<Rightarrow> bytes \<Rightarrow> bytes option" where
  "TxPath s i = map_option tx_path (map_of (st_open s) i)"

definition Refs :: "State \<Rightarrow> byte \<Rightarrow> FrameRef set" where
  "Refs s blob = (case st_refs s of None \<Rightarrow> {} | Some rs \<Rightarrow> {r \<in> rs. fr_Blob r = blob})"

definition IsTxKnown :: "State \<Rightarrow> bytes \<Rightarrow> bool" where
  "IsTxKnown s t \<longleftrightarrow> map_of (st_open s) t \<noteq> None \<or> st_closed s t"

definition OpenTransactions :: "State \<Rightarrow> bytes list" where
  "OpenTransactions s = map tx_id (sort_key tx_beginSeq (map snd (st_open s)))"

section \<open>Checks\<close>

fun checkLocs_loop :: "u64 \<Rightarrow> u64 \<Rightarrow> Loc list \<Rightarrow> u64 option" where
  "checkLocs_loop maxLen end [] = Some end"
| "checkLocs_loop maxLen end (l # ls) =
    (if loc_Offset l \<noteq> end then None
     else if loc_Length l = 0 then None
     else if loc_Length l > maxLen then None
     else if loc_Offset l mod 4096 \<noteq> 0 then None
     else if ls \<noteq> [] \<and> loc_Length l mod 4096 \<noteq> 0 then None
     else if end + loc_Length l < end then None
     else checkLocs_loop maxLen (end + loc_Length l) ls)"

definition checkLocs :: "State \<Rightarrow> Record \<Rightarrow> Loc list \<Rightarrow> (Loc list \<times> u64) result" where
  "checkLocs s r locs =
    (let sorted = sort_key loc_Offset locs in
     if length sorted = 1 \<and> loc_Offset (sorted ! 0) = 0 \<and> loc_Length (sorted ! 0) = 0 then Inr (sorted, 0)
     else case checkLocs_loop (MaxFrameSize (st_h s)) 0 sorted of
       None \<Rightarrow> Inl (corrupt r) | Some end \<Rightarrow> Inr (sorted, end))"

definition checkBlobs :: "State \<Rightarrow> Record \<Rightarrow> Loc list \<Rightarrow> unit result" where
  "checkBlobs s r locs =
    (if list_ex (\<lambda>l. loc_Blob l \<ge> h_BlobCount (st_h s)) locs then Inl (corrupt r) else Inr ())"

definition checkVersion :: "State \<Rightarrow> Record \<Rightarrow> bytes \<Rightarrow> u64 \<Rightarrow> unit result" where
  "checkVersion s r path v =
    (case st_appliedMax s path of Some m \<Rightarrow> if v \<le> m then Inl (corrupt r) else Inr () | None \<Rightarrow> Inr ())"

definition addRefs :: "State \<Rightarrow> bytes \<Rightarrow> u64 \<Rightarrow> Loc list \<Rightarrow> State" where
  "addRefs s path ver locs =
    (case st_refs s of None \<Rightarrow> s
     | Some rs \<Rightarrow> s\<lparr> st_refs := Some (rs \<union> set (map (\<lambda>l. \<lparr> fr_Blob = loc_Blob l, fr_Hash = loc_Hash l, fr_Path = path,
         fr_FileVer = ver, fr_Offset = loc_Offset l \<rparr>) locs)) \<rparr>)"

definition setLive :: "State \<Rightarrow> bytes \<Rightarrow> u64 \<Rightarrow> Loc list \<Rightarrow> u64 \<Rightarrow> u64 \<Rightarrow> State" where
  "setLive s path ver locs len seq =
    s\<lparr> st_live := (st_live s)(path \<mapsto> \<lparr> v_FileVer = ver, v_Loc = locs, v_Length = len, v_Seq = seq \<rparr>),
       st_appliedMax := (st_appliedMax s)(path \<mapsto> ver) \<rparr>"

definition openTx :: "State \<Rightarrow> Record \<Rightarrow> nat \<Rightarrow> tx result" where
  "openTx s r file =
    (case map_of (st_open s) (rec_TxID r) of None \<Rightarrow> Inl (corrupt r)
     | Some t \<Rightarrow> if tx_file t \<noteq> file then Inl (corrupt r) else Inr t)"

definition closeTx :: "State \<Rightarrow> tx \<Rightarrow> State" where
  "closeTx s t =
    s\<lparr> st_staged := st_staged s - int (unat (tx_nLocs t)), st_open := AList.delete (tx_id t) (st_open s),
       st_closed := (st_closed s)(tx_id t := True) \<rparr>"

section \<open>Apply\<close>

definition apply_Add :: "State \<Rightarrow> Record \<Rightarrow> State \<times> error option" where
  "apply_Add s r =
    (case checkBlobs s r (rec_Loc r) of Inl e \<Rightarrow> (s, Some e) | Inr _ \<Rightarrow>
     (case checkLocs s r (rec_Loc r) of Inl e \<Rightarrow> (s, Some e) | Inr (locs, n) \<Rightarrow>
      (case checkVersion s r (rec_Path r) (rec_FileVer r) of Inl e \<Rightarrow> (s, Some e) | Inr _ \<Rightarrow>
        (setLive (addRefs s (rec_Path r) (rec_FileVer r) (rec_Loc r)) (rec_Path r) (rec_FileVer r) locs n (rec_Seq r), None))))"

definition apply_Del :: "State \<Rightarrow> Record \<Rightarrow> State \<times> error option" where
  "apply_Del s r =
    (case st_live s (rec_Path r) of None \<Rightarrow> (s, Some (corrupt r))
     | Some cur \<Rightarrow> if v_FileVer cur \<noteq> rec_FileVer r then (s, Some (corrupt r))
       else (s\<lparr> st_live := (st_live s)(rec_Path r := None) \<rparr>, None))"

definition apply_AddBegin :: "State \<Rightarrow> Record \<Rightarrow> nat \<Rightarrow> State \<times> error option" where
  "apply_AddBegin s r file =
    (if IsTxKnown s (rec_TxID r) then (s, Some (corrupt r))
     else case checkVersion s r (rec_Path r) (rec_FileVer r) of Inl e \<Rightarrow> (s, Some e) | Inr _ \<Rightarrow>
       if length (st_open s) \<ge> lim_MaxOpenTransactions (st_lim s) then (s, Some (resource r))
       else (s\<lparr> st_open := AList.update (rec_TxID r)
              \<lparr> tx_id = rec_TxID r, tx_path = rec_Path r, tx_fileVer = rec_FileVer r, tx_beginSeq = rec_Seq r,
                tx_file = file, tx_extents = [], tx_nLocs = 0, tx_dupSeq = False \<rparr> (st_open s) \<rparr>, None))"

definition apply_AddExtent :: "State \<Rightarrow> Record \<Rightarrow> nat \<Rightarrow> State \<times> error option" where
  "apply_AddExtent s r file =
    (case openTx s r file of Inl e \<Rightarrow> (s, Some e) | Inr t \<Rightarrow>
     (case checkBlobs s r (rec_Loc r) of Inl e \<Rightarrow> (s, Some e) | Inr _ \<Rightarrow>
      if tx_nLocs t + word_of_nat (length (rec_Loc r)) > MaxTransactionExtents then (s, Some (corrupt r))
      else if st_staged s + int (length (rec_Loc r)) > int (lim_MaxStagedExtents (st_lim s)) then (s, Some (resource r))
      else let s1 = addRefs s (tx_path t) (tx_fileVer t) (rec_Loc r) in
        if map_of (tx_extents t) (rec_ExtentSequence r) \<noteq> None
        then (s1\<lparr> st_open := AList.update (rec_TxID r) (t\<lparr> tx_dupSeq := True \<rparr>) (st_open s1) \<rparr>, None)
        else (s1\<lparr> st_open := AList.update (rec_TxID r)
                 (t\<lparr> tx_extents := AList.update (rec_ExtentSequence r) (rec_Loc r) (tx_extents t),
                     tx_nLocs := tx_nLocs t + word_of_nat (length (rec_Loc r)) \<rparr>) (st_open s1),
               st_staged := st_staged s1 + int (length (rec_Loc r)) \<rparr>, None)))"

text \<open>The extents of a commit in sequence order, \<open>None\<close> when one of the numbers is missing.\<close>

fun collectExtents :: "(u32 \<times> Loc list) list \<Rightarrow> nat \<Rightarrow> nat \<Rightarrow> Loc list option" where
  "collectExtents ex i 0 = Some []"
| "collectExtents ex i (Suc n) =
    (case map_of ex (word_of_nat i) of None \<Rightarrow> None
     | Some e \<Rightarrow> (case collectExtents ex (Suc i) n of None \<Rightarrow> None | Some rest \<Rightarrow> Some (e @ rest)))"

definition commitLocs :: "tx \<Rightarrow> Record \<Rightarrow> Loc list option" where
  "commitLocs t r =
    (if \<not> tx_dupSeq t \<and> (word_of_nat (length (tx_extents t)) :: u64) = ucast (rec_ExtentRecordCount r) \<and>
        tx_nLocs t = ucast (rec_ExtentCount r)
     then collectExtents (tx_extents t) 0 (unat (rec_ExtentRecordCount r)) else None)"

definition apply_AddCommit :: "State \<Rightarrow> Record \<Rightarrow> nat \<Rightarrow> State \<times> error option" where
  "apply_AddCommit s r file =
    (case openTx s r file of Inl e \<Rightarrow> (s, Some e) | Inr t \<Rightarrow>
     (case commitLocs t r of
        None \<Rightarrow> (let s1 = closeTx s t in (s1\<lparr> st_Ignored := st_Ignored s1 @ [tx_id t] \<rparr>, None))
      | Some all \<Rightarrow>
        (case checkLocs s r all of Inl e \<Rightarrow> (s, Some e) | Inr (locs, n) \<Rightarrow>
         (case checkVersion s r (tx_path t) (tx_fileVer t) of Inl e \<Rightarrow> (s, Some e) | Inr _ \<Rightarrow>
          (setLive (closeTx s t) (tx_path t) (tx_fileVer t) locs n (rec_Seq r), None)))))"

definition apply_AddAbort :: "State \<Rightarrow> Record \<Rightarrow> nat \<Rightarrow> State \<times> error option" where
  "apply_AddAbort s r file =
    (case openTx s r file of Inl e \<Rightarrow> (s, Some e)
     | Inr t \<Rightarrow> (let s1 = closeTx s t in (s1\<lparr> st_Aborted := st_Aborted s1 + 1 \<rparr>, None)))"

definition apply_LinkManifest :: "State \<Rightarrow> Record \<Rightarrow> nat \<Rightarrow> State \<times> error option" where
  "apply_LinkManifest s r file =
    (if rec_HashID r \<noteq> h_HashID (st_h s) then (s, Some (corrupt r))
     else if file \<noteq> 0 then (s, Some (corrupt r)) else (s, None))"

definition apply_ParityGroup :: "State \<Rightarrow> Record \<Rightarrow> State \<times> error option" where
  "apply_ParityGroup s r =
    (if list_ex (\<lambda>m. mem_Blob m \<ge> h_BlobCount (st_h s)) (rec_Members r) then (s, Some (corrupt r)) else (s, None))"

definition apply_op :: "State \<Rightarrow> Record \<Rightarrow> nat \<Rightarrow> State \<times> error option" where
  "apply_op s r file =
    (case rec_Op r of
       OpAdd \<Rightarrow> apply_Add s r
     | OpDel \<Rightarrow> apply_Del s r
     | OpAddBegin \<Rightarrow> apply_AddBegin s r file
     | OpAddExtent \<Rightarrow> apply_AddExtent s r file
     | OpAddCommit \<Rightarrow> apply_AddCommit s r file
     | OpAddAbort \<Rightarrow> apply_AddAbort s r file
     | OpLinkManifest \<Rightarrow> apply_LinkManifest s r file
     | OpParityGroup \<Rightarrow> apply_ParityGroup s r
     | OpOther \<Rightarrow> (s, Some (corrupt r)))"

definition Apply :: "State \<Rightarrow> Record \<Rightarrow> nat \<Rightarrow> State \<times> error option" where
  "Apply s r file =
    (if rec_Seq r = 0 then (s, Some (corrupt r))
     else if st_records s > 0 \<and> rec_Seq r \<le> st_lastSeq s then (s, Some (corrupt r))
     else case apply_op s r file of
       (s1, Some e) \<Rightarrow> (s1, Some e)
     | (s1, None) \<Rightarrow>
       (let s2 = (if rec_Op r = OpAdd \<or> rec_Op r = OpDel \<or> rec_Op r = OpAddBegin
                  then s1\<lparr> st_maxFileVer := max (st_maxFileVer s1) (rec_FileVer r) \<rparr> else s1)
        in (s2\<lparr> st_lastSeq := rec_Seq r, st_records := st_records s2 + 1 \<rparr>, None)))"

text \<open>Replaying a journal stops at the first rejected record.\<close>

fun replay :: "State \<Rightarrow> (Record \<times> nat) list \<Rightarrow> State \<times> error option" where
  "replay s [] = (s, None)"
| "replay s ((r, f) # rs) = (case Apply s r f of (s1, Some e) \<Rightarrow> (s1, Some e) | (s1, None) \<Rightarrow> replay s1 rs)"

section \<open>A rejected record changes nothing\<close>

lemmas apply_defs = apply_Add_def apply_Del_def apply_AddBegin_def apply_AddExtent_def apply_AddCommit_def
  apply_AddAbort_def apply_LinkManifest_def apply_ParityGroup_def

lemma apply_op_error: "apply_op s r file = (s', Some e) \<Longrightarrow> s' = s"
  by (cases "rec_Op r")
    (auto simp: apply_op_def apply_defs Let_def split: sum.splits option.splits if_splits prod.splits)

lemma Apply_error: "Apply s r file = (s', Some e) \<Longrightarrow> s' = s"
  by (auto simp: Apply_def Let_def dest: apply_op_error split: if_splits prod.splits option.splits)

lemma Apply_ok:
  assumes "Apply s r file = (s', None)"
  obtains s1 where "apply_op s r file = (s1, None)" "rec_Seq r \<noteq> 0" "st_records s > 0 \<Longrightarrow> st_lastSeq s < rec_Seq r"
    "s' = (if rec_Op r \<in> {OpAdd, OpDel, OpAddBegin} then s1\<lparr> st_maxFileVer := max (st_maxFileVer s1) (rec_FileVer r) \<rparr> else s1)
      \<lparr> st_lastSeq := rec_Seq r, st_records := st_records s1 + 1 \<rparr>"
  using assms by (auto simp: Apply_def Let_def not_le split: if_splits prod.splits option.splits)

section \<open>Coverage\<close>

text \<open>The extents start at \<open>a\<close> and each begins where the previous one ends.\<close>

fun contiguous :: "nat \<Rightarrow> Loc list \<Rightarrow> bool" where
  "contiguous a [] = True"
| "contiguous a (l # ls) = (unat (loc_Offset l) = a \<and> contiguous (a + unat (loc_Length l)) ls)"

definition total :: "Loc list \<Rightarrow> nat" where
  "total ls = sum_list (map (\<lambda>l. unat (loc_Length l)) ls)"

lemma checkLocs_loop_Some:
  "checkLocs_loop m e ls = Some n \<longleftrightarrow>
    contiguous (unat e) ls \<and> unat n = unat e + total ls \<and>
    list_all (\<lambda>l. 0 < loc_Length l \<and> loc_Length l \<le> m \<and> loc_Offset l mod 4096 = 0) ls \<and>
    list_all (\<lambda>l. loc_Length l mod 4096 = 0) (butlast ls)"
proof (induction ls arbitrary: e)
  case Nil
  then show ?case by (auto simp: total_def word_unat_eq_iff)
next
  case (Cons l ls)
  have wrap: "e + loc_Length l < e \<longleftrightarrow> 2 ^ 64 \<le> unat e + unat (loc_Length l)"
    using unat_u64_lt[of e] unat_u64_lt[of "loc_Length l"]
    by (cases "unat e + unat (loc_Length l) < 2 ^ 64") (auto simp: word_less_nat_alt unat_word_ariths mod_if)
  have big: "2 ^ 64 \<le> unat e + unat (loc_Length l) \<Longrightarrow> unat n \<noteq> unat e + total (l # ls)"
    using unat_u64_lt[of n] by (simp add: total_def)
  have un: "unat (loc_Offset l) = unat e \<longleftrightarrow> loc_Offset l = e" by (simp add: word_unat_eq_iff)
  show ?case
  proof (cases "e + loc_Length l < e")
    case True
    then show ?thesis using wrap big by auto
  next
    case False
    then have s: "unat (e + loc_Length l) = unat e + unat (loc_Length l)" using wrap by (simp add: unat_add_u64)
    show ?thesis
      using Cons[of "e + loc_Length l"] False un
      by (auto simp: s total_def add.assoc word_neq_0_conv not_less)
  qed
qed

lemma contiguous_lower: "contiguous a ls \<Longrightarrow> i < length ls \<Longrightarrow> a \<le> unat (loc_Offset (ls ! i))"
proof (induction ls arbitrary: a i)
  case (Cons y ys)
  then show ?case by (cases i) (auto dest: add_leD1)
qed simp

text \<open>Every position below the end lies in exactly one extent.\<close>

lemma contiguous_unique:
  "contiguous a ls \<Longrightarrow> a \<le> x \<Longrightarrow> x < a + total ls \<Longrightarrow> list_all (\<lambda>l. 0 < loc_Length l) ls \<Longrightarrow>
   \<exists>!i. i < length ls \<and> unat (loc_Offset (ls ! i)) \<le> x \<and> x < unat (loc_Offset (ls ! i)) + unat (loc_Length (ls ! i))"
proof (induction ls arbitrary: a)
  case Nil
  then show ?case by (simp add: total_def)
next
  case (Cons l ls)
  have lower: "a + unat (loc_Length l) \<le> unat (loc_Offset (ls ! i))" if "i < length ls" for i
    using contiguous_lower[of "a + unat (loc_Length l)" ls i] that Cons.prems(1) by simp
  show ?case
  proof (cases "x < a + unat (loc_Length l)")
    case True
    show ?thesis
    proof (rule ex1I[of _ 0])
      fix i assume "i < length (l # ls) \<and> unat (loc_Offset ((l # ls) ! i)) \<le> x \<and> x < unat (loc_Offset ((l # ls) ! i)) + unat (loc_Length ((l # ls) ! i))"
      then show "i = 0" using True lower[of "i - 1"] by (cases i) auto
    qed (use True Cons.prems in auto)
  next
    case False
    have "contiguous (a + unat (loc_Length l)) ls" "a + unat (loc_Length l) \<le> x" "x < a + unat (loc_Length l) + total ls"
      "list_all (\<lambda>l. 0 < loc_Length l) ls"
      using Cons.prems False by (simp_all add: total_def)
    from Cons.IH[OF this] obtain i
      where i: "i < length ls" "unat (loc_Offset (ls ! i)) \<le> x" "x < unat (loc_Offset (ls ! i)) + unat (loc_Length (ls ! i))"
        and u: "\<And>j. j < length ls \<Longrightarrow> unat (loc_Offset (ls ! j)) \<le> x \<Longrightarrow> x < unat (loc_Offset (ls ! j)) + unat (loc_Length (ls ! j)) \<Longrightarrow> j = i"
      by (elim ex1E) blast
    show ?thesis
    proof (rule ex1I[of _ "Suc i"])
      fix j assume "j < length (l # ls) \<and> unat (loc_Offset ((l # ls) ! j)) \<le> x \<and> x < unat (loc_Offset ((l # ls) ! j)) + unat (loc_Length ((l # ls) ! j))"
      then show "j = Suc i" using False Cons.prems(1) u[of "j - 1"] by (cases j) auto
    qed (use i in auto)
  qed
qed

lemma contiguous_inj:
  "contiguous a ls \<Longrightarrow> \<forall>l\<in>set ls. 0 < loc_Length l \<Longrightarrow> inj_on loc_Offset (set ls)"
proof (induction ls arbitrary: a)
  case (Cons l ls)
  have "loc_Offset l \<noteq> loc_Offset x" if x: "x \<in> set ls" for x
  proof -
    obtain i where "i < length ls" "x = ls ! i" using x by (metis in_set_conv_nth)
    then have "a + unat (loc_Length l) \<le> unat (loc_Offset x)" using Cons.prems(1) contiguous_lower by simp
    moreover have "0 < unat (loc_Length l)" using Cons.prems(2) by (simp add: word_less_nat_alt)
    ultimately show ?thesis using Cons.prems(1) by auto
  qed
  then show ?case using Cons by (auto simp: inj_on_insert image_iff)
qed simp

section \<open>Well-formed states\<close>

definition ok_version :: "ArchiveHeader \<Rightarrow> Version \<Rightarrow> bool" where
  "ok_version h v \<longleftrightarrow>
    list_all (\<lambda>l. loc_Blob l < h_BlobCount h) (v_Loc v) \<and>
    ((v_Length v = 0 \<and> (\<exists>l. v_Loc v = [l] \<and> loc_Offset l = 0 \<and> loc_Length l = 0)) \<or>
     checkLocs_loop (MaxFrameSize h) 0 (v_Loc v) = Some (v_Length v))"

definition ok_tx :: "State \<Rightarrow> bytes \<Rightarrow> tx \<Rightarrow> bool" where
  "ok_tx s k t \<longleftrightarrow> tx_id t = k \<and> \<not> st_closed s k \<and> distinct (map fst (tx_extents t)) \<and>
     unat (tx_nLocs t) = sum_list (map (\<lambda>(_, ls). length ls) (tx_extents t)) \<and> tx_nLocs t \<le> MaxTransactionExtents \<and>
     list_all (\<lambda>(_, ls). list_all (\<lambda>l. loc_Blob l < h_BlobCount (st_h s)) ls) (tx_extents t) \<and>
     tx_fileVer t \<le> st_maxFileVer s"

definition staged_sum :: "(bytes \<times> tx) list \<Rightarrow> nat" where
  "staged_sum al = sum_list (map (\<lambda>(_, t). unat (tx_nLocs t)) al)"

definition wf_state :: "State \<Rightarrow> bool" where
  "wf_state s \<longleftrightarrow>
    (\<forall>p v. st_live s p = Some v \<longrightarrow> ok_version (st_h s) v \<and> st_appliedMax s p = Some (v_FileVer v) \<and> v_Seq v \<le> st_lastSeq s) \<and>
    (\<forall>p m. st_appliedMax s p = Some m \<longrightarrow> m \<le> st_maxFileVer s) \<and>
    distinct (map fst (st_open s)) \<and> length (st_open s) \<le> lim_MaxOpenTransactions (st_lim s) \<and>
    (\<forall>k t. (k, t) \<in> set (st_open s) \<longrightarrow> ok_tx s k t) \<and>
    st_staged s = int (staged_sum (st_open s)) \<and> st_staged s \<le> int (lim_MaxStagedExtents (st_lim s)) \<and>
    lim_MaxStagedExtents (st_lim s) < 2 ^ 63 \<and>
    st_records s \<le> st_lastSeq s \<and> (st_records s = 0 \<longrightarrow> st_lastSeq s = 0)"

lemma checkLocs_Inr:
  assumes "checkLocs s r locs = Inr (ls, n)" "list_all (\<lambda>l. loc_Blob l < h_BlobCount (st_h s)) locs"
  shows "mset ls = mset locs" "ok_version (st_h s) \<lparr> v_FileVer = ver, v_Loc = ls, v_Length = n, v_Seq = q \<rparr>"
proof -
  let ?so = "sort_key loc_Offset locs"
  have ls: "ls = ?so" and c: "(length ?so = 1 \<and> loc_Offset (?so ! 0) = 0 \<and> loc_Length (?so ! 0) = 0 \<and> n = 0) \<or>
      checkLocs_loop (MaxFrameSize (st_h s)) 0 ?so = Some n"
    using assms(1) by (auto simp: checkLocs_def Let_def split: if_splits option.splits)
  show m: "mset ls = mset locs" unfolding ls by simp
  have "list_all (\<lambda>l. loc_Blob l < h_BlobCount (st_h s)) ls"
    using assms(2) by (simp add: ls list_all_iff)
  then show "ok_version (st_h s) \<lparr> v_FileVer = ver, v_Loc = ls, v_Length = n, v_Seq = q \<rparr>"
    using c unfolding ok_version_def by (auto simp: ls length_Suc_conv)
qed

subsection \<open>Sums over association lists\<close>

lemma staged_sum_update_new:
  "map_of al k = None \<Longrightarrow> staged_sum (AList.update k t al) = staged_sum al + unat (tx_nLocs t)"
  by (induction al) (auto simp: staged_sum_def split: if_splits)

lemma staged_sum_update:
  "distinct (map fst al) \<Longrightarrow> map_of al k = Some t \<Longrightarrow>
   staged_sum (AList.update k t' al) + unat (tx_nLocs t) = staged_sum al + unat (tx_nLocs t')"
  by (induction al) (auto simp: staged_sum_def split: if_splits)

lemma staged_sum_delete:
  "distinct (map fst al) \<Longrightarrow> map_of al k = Some t \<Longrightarrow> staged_sum (AList.delete k al) + unat (tx_nLocs t) = staged_sum al"
proof (induction al)
  case (Cons a al)
  then show ?case
    by (cases "fst a = k") (auto simp: staged_sum_def AList.delete_eq case_prod_unfold filter_id_conv image_iff intro: arg_cong)
qed simp

lemma extents_sum_update_new:
  "map_of ex k = None \<Longrightarrow>
   sum_list (map (\<lambda>(_, ls). length ls) (AList.update k x ex)) = sum_list (map (\<lambda>(_, ls). length ls) ex) + length x"
  by (induction ex) (auto split: if_splits)

lemma set_update_new: "map_of al k = None \<Longrightarrow> set (AList.update k v al) = insert (k, v) (set al)"
  by (induction al) (auto split: if_splits)

lemma set_update_sub: "set (AList.update k v al) \<subseteq> insert (k, v) (set al)"
  by (induction al) auto

lemma length_update: "length (AList.update k v al) = (if map_of al k = None then Suc (length al) else length al)"
  by (induction al) auto

lemma set_update_distinct:
  "distinct (map fst al) \<Longrightarrow> (k', v') \<in> set (AList.update k v al) \<Longrightarrow> (k' = k \<and> v' = v) \<or> (k' \<noteq> k \<and> (k', v') \<in> set al)"
proof (induction al)
  case (Cons a al)
  then show ?case by (cases "fst a = k") (auto simp: image_iff split: if_splits)
qed simp


subsection \<open>Every operation preserves well-formedness\<close>

lemma wf_state_NewState: "lim_MaxStagedExtents lim < 2 ^ 63 \<Longrightarrow> wf_state (NewState h lim)"
  by (simp add: wf_state_def NewState_def DefaultLimits_def staged_sum_def)

lemma wf_state_refs [simp]: "wf_state (s\<lparr> st_refs := x \<rparr>) = wf_state s"
  by (simp add: wf_state_def ok_tx_def)

lemma wf_state_counters [simp]:
  "wf_state (s\<lparr> st_Ignored := x \<rparr>) = wf_state s" "wf_state (s\<lparr> st_Aborted := y \<rparr>) = wf_state s"
  by (simp_all add: wf_state_def ok_tx_def)

lemma addRefs_cases: "\<exists>x. addRefs s p v ls = s\<lparr> st_refs := x \<rparr>"
proof (cases "st_refs s")
  case None
  then have "addRefs s p v ls = s\<lparr> st_refs := None \<rparr>" by (simp add: addRefs_def)
  then show ?thesis by blast
qed (auto simp: addRefs_def)

lemma wf_state_addRefs [simp]: "wf_state (addRefs s p v ls) = wf_state s"
  using addRefs_cases[of s p v ls] by auto

lemma addRefs_simps [simp]:
  "st_h (addRefs s p v ls) = st_h s" "st_lim (addRefs s p v ls) = st_lim s" "st_live (addRefs s p v ls) = st_live s"
  "st_appliedMax (addRefs s p v ls) = st_appliedMax s" "st_open (addRefs s p v ls) = st_open s"
  "st_closed (addRefs s p v ls) = st_closed s" "st_staged (addRefs s p v ls) = st_staged s"
  "st_maxFileVer (addRefs s p v ls) = st_maxFileVer s" "st_lastSeq (addRefs s p v ls) = st_lastSeq s"
  "st_records (addRefs s p v ls) = st_records s"
  by (simp_all add: addRefs_def split: option.split)

lemma wf_state_setLive:
  assumes "wf_state s" "ok_version (st_h s) \<lparr> v_FileVer = ver, v_Loc = ls, v_Length = n, v_Seq = q \<rparr>"
    "ver \<le> st_maxFileVer s" "q \<le> st_lastSeq s"
  shows "wf_state (setLive s p ver ls n q)"
  using assms unfolding wf_state_def setLive_def by (simp add: ok_tx_def)

lemma wf_state_Del: "wf_state s \<Longrightarrow> wf_state (s\<lparr> st_live := (st_live s)(p := None) \<rparr>)"
  by (simp add: wf_state_def ok_tx_def)

lemma openTx_Inr:
  assumes "wf_state s" "openTx s r file = Inr t"
  shows "map_of (st_open s) (rec_TxID r) = Some t" "ok_tx s (rec_TxID r) t" "tx_id t = rec_TxID r" "tx_file t = file"
proof -
  show m: "map_of (st_open s) (rec_TxID r) = Some t" and "tx_file t = file"
    using assms(2) by (auto simp: openTx_def split: option.splits if_splits)
  then show "ok_tx s (rec_TxID r) t" using assms(1) map_of_SomeD[OF m] unfolding wf_state_def by blast
  then show "tx_id t = rec_TxID r" by (simp add: ok_tx_def)
qed

lemma wf_state_closeTx:
  assumes "wf_state s" "map_of (st_open s) (tx_id t) = Some t"
  shows "wf_state (closeTx s t)"
proof -
  have d: "distinct (map fst (st_open s))" using assms(1) by (simp add: wf_state_def)
  have sum: "st_staged s - int (unat (tx_nLocs t)) = int (staged_sum (AList.delete (tx_id t) (st_open s)))"
    and bound: "int (staged_sum (AList.delete (tx_id t) (st_open s))) \<le> int (lim_MaxStagedExtents (st_lim s))"
    using staged_sum_delete[OF d assms(2)] assms(1) unfolding wf_state_def by linarith+
  have "length (AList.delete (tx_id t) (st_open s)) \<le> length (st_open s)" by (rule length_delete_le)
  moreover have "ok_tx (closeTx s t) k u" if "(k, u) \<in> set (AList.delete (tx_id t) (st_open s))" for k u
    using that assms(1) unfolding wf_state_def by (force simp: ok_tx_def closeTx_def AList.delete_eq)
  ultimately show ?thesis
    using assms(1) bound distinct_delete[OF d, of "tx_id t"]
    unfolding wf_state_def closeTx_def sum by simp
qed

lemma wf_state_open_update:
  assumes "wf_state s" "ok_tx s k t" "staged_sum (AList.update k t (st_open s)) = nat st'"
    "0 \<le> st'" "st' \<le> int (lim_MaxStagedExtents (st_lim s))"
    "map_of (st_open s) k = None \<Longrightarrow> length (st_open s) < lim_MaxOpenTransactions (st_lim s)"
  shows "wf_state (s\<lparr> st_open := AList.update k t (st_open s), st_staged := st' \<rparr>)"
proof -
  have d: "distinct (map fst (st_open s))" using assms(1) by (simp add: wf_state_def)
  have "ok_tx (s\<lparr> st_open := AList.update k t (st_open s), st_staged := st' \<rparr>) k' u"
    if "(k', u) \<in> set (AList.update k t (st_open s))" for k' u
    using set_update_distinct[OF d that] assms(1,2) unfolding wf_state_def by (auto simp: ok_tx_def)
  moreover have "length (AList.update k t (st_open s)) \<le> lim_MaxOpenTransactions (st_lim s)"
    using assms(1,6) by (auto simp: length_update wf_state_def)
  ultimately show ?thesis
    using assms distinct_update[OF d, of k t] unfolding wf_state_def by auto
qed


lemma checkBlobs_Inr: "checkBlobs s r ls = Inr u \<longleftrightarrow> list_all (\<lambda>l. loc_Blob l < h_BlobCount (st_h s)) ls"
  by (auto simp: checkBlobs_def list_ex_iff list_all_iff linorder_not_le[symmetric] simp del: linorder_not_le)

lemma collectExtents_blobs:
  "collectExtents ex i n = Some ls \<Longrightarrow> list_all (\<lambda>(_, ls). list_all P ls) ex \<Longrightarrow> list_all P ls"
proof (induction ex i n arbitrary: ls rule: collectExtents.induct)
  case (2 ex i n)
  then obtain e rest where e: "map_of ex (word_of_nat i) = Some e" and rest: "collectExtents ex (Suc i) n = Some rest" "ls = e @ rest"
    by (auto split: option.splits)
  have "list_all P e" using map_of_SomeD[OF e] 2(3) by (auto simp: list_all_iff)
  then show ?case using 2(1)[OF e rest(1) 2(3)] rest(2) by simp
qed simp

lemma wf_apply_Add:
  assumes "wf_state s" "apply_Add s r = (s', None)" "rec_FileVer r \<le> st_maxFileVer s" "rec_Seq r \<le> st_lastSeq s"
  shows "wf_state s'"
proof -
  obtain locs n where c: "checkBlobs s r (rec_Loc r) = Inr ()" "checkLocs s r (rec_Loc r) = Inr (locs, n)"
    and s': "s' = setLive (addRefs s (rec_Path r) (rec_FileVer r) (rec_Loc r)) (rec_Path r) (rec_FileVer r) locs n (rec_Seq r)"
    using assms(2) by (auto simp: apply_Add_def split: sum.splits prod.splits)
  show ?thesis unfolding s' using assms(1,3,4) checkLocs_Inr(2)[OF c(2)] c(1)
    by (intro wf_state_setLive) (simp_all add: checkBlobs_Inr)
qed

lemma wf_apply_AddBegin:
  assumes "wf_state s" "apply_AddBegin s r file = (s', None)" "rec_FileVer r \<le> st_maxFileVer s"
  shows "wf_state s'"
proof -
  let ?t = "\<lparr> tx_id = rec_TxID r, tx_path = rec_Path r, tx_fileVer = rec_FileVer r, tx_beginSeq = rec_Seq r,
                tx_file = file, tx_extents = [], tx_nLocs = 0, tx_dupSeq = False \<rparr>"
  have k: "map_of (st_open s) (rec_TxID r) = None" "\<not> st_closed s (rec_TxID r)"
    and lim: "length (st_open s) < lim_MaxOpenTransactions (st_lim s)"
    and s': "s' = s\<lparr> st_open := AList.update (rec_TxID r) ?t (st_open s) \<rparr>"
    using assms(2) by (auto simp: apply_AddBegin_def IsTxKnown_def split: sum.splits if_splits)
  have t: "ok_tx s (rec_TxID r) ?t" using assms(3) k(2) by (simp add: ok_tx_def)
  have "wf_state (s\<lparr> st_open := AList.update (rec_TxID r) ?t (st_open s), st_staged := st_staged s \<rparr>)"
    by (rule wf_state_open_update[OF assms(1) t])
      (use assms(1) k lim in \<open>simp_all add: wf_state_def staged_sum_update_new\<close>)
  then show ?thesis unfolding s' by simp
qed

lemma wf_apply_AddExtent:
  assumes "wf_state s" "apply_AddExtent s r file = (s', None)"
  shows "wf_state s'"
proof -
  obtain t where t: "openTx s r file = Inr t" and b: "checkBlobs s r (rec_Loc r) = Inr ()"
    and m: "\<not> MaxTransactionExtents < tx_nLocs t + word_of_nat (length (rec_Loc r))"
    and l: "st_staged s + int (length (rec_Loc r)) \<le> int (lim_MaxStagedExtents (st_lim s))"
    using assms(2) by (auto simp: apply_AddExtent_def Let_def split: sum.splits if_splits)
  let ?s1 = "addRefs s (tx_path t) (tx_fileVer t) (rec_Loc r)" and ?k = "rec_TxID r"
  note tx = openTx_Inr[OF assms(1) t]
  have d: "distinct (map fst (st_open s))" and st: "st_staged s = int (staged_sum (st_open s))"
    and sm: "lim_MaxStagedExtents (st_lim s) < 2 ^ 63"
    using assms(1) by (simp_all add: wf_state_def)
  have ok1: "ok_tx ?s1 k u = ok_tx s k u" for k u by (simp add: ok_tx_def)
  show ?thesis
  proof (cases "map_of (tx_extents t) (rec_ExtentSequence r)")
    case (Some e)
    let ?t' = "t\<lparr> tx_dupSeq := True \<rparr>"
    have s': "s' = ?s1\<lparr> st_open := AList.update ?k ?t' (st_open s) \<rparr>"
      using assms(2) t b m l Some by (simp add: apply_AddExtent_def Let_def del: linorder_not_less)
    have "wf_state (?s1\<lparr> st_open := AList.update ?k ?t' (st_open ?s1), st_staged := st_staged ?s1 \<rparr>)"
      using assms(1) tx staged_sum_update[OF d tx(1), of ?t'] st
      by (intro wf_state_open_update) (simp_all add: ok1 ok_tx_def wf_state_def)
    moreover have "?s1\<lparr> st_open := x, st_staged := st_staged ?s1 \<rparr> = ?s1\<lparr> st_open := x \<rparr>" for x
      by (cases ?s1) simp
    ultimately show ?thesis unfolding s' by (simp del: addRefs_simps(7) add: addRefs_simps(5))
  next
    case None
    let ?t' = "t\<lparr> tx_extents := AList.update (rec_ExtentSequence r) (rec_Loc r) (tx_extents t),
                  tx_nLocs := tx_nLocs t + word_of_nat (length (rec_Loc r)) \<rparr>"
    have s': "s' = ?s1\<lparr> st_open := AList.update ?k ?t' (st_open s), st_staged := st_staged s + int (length (rec_Loc r)) \<rparr>"
      using assms(2) t b m l None by (simp add: apply_AddExtent_def Let_def del: linorder_not_less)
    have "unat (tx_nLocs t) + length (rec_Loc r) < 2 ^ 64"
      using tx(2) sm l st unfolding ok_tx_def by (simp add: word_le_nat_alt)
    then have un: "unat (tx_nLocs t + word_of_nat (length (rec_Loc r))) = unat (tx_nLocs t) + length (rec_Loc r)"
      by (simp add: unat_word_ariths unat_of_nat)
    have ok: "ok_tx s ?k ?t'"
      using tx(2) b m[unfolded not_less] un extents_sum_update_new[OF None] set_update_new[OF None]
        distinct_update[of "tx_extents t" "rec_ExtentSequence r" "rec_Loc r"]
      by (simp add: ok_tx_def list_all_iff checkBlobs_Inr)
    show ?thesis
      unfolding s' using assms(1) ok tx(1) staged_sum_update[OF d tx(1), of ?t'] st l un
        wf_state_open_update[of ?s1 ?k ?t' "st_staged s + int (length (rec_Loc r))"]
      by (simp add: ok1)
  qed
qed


lemma wf_apply_AddCommit:
  assumes "wf_state s" "apply_AddCommit s r file = (s', None)" "rec_Seq r \<le> st_lastSeq s"
  shows "wf_state s'"
proof -
  obtain t where t: "openTx s r file = Inr t"
    using assms(2) by (auto simp: apply_AddCommit_def split: sum.splits)
  note tx = openTx_Inr[OF assms(1) t]
  have cl: "wf_state (closeTx s t)" using wf_state_closeTx assms(1) tx(1,3) by simp
  show ?thesis
  proof (cases "commitLocs t r")
    case None
    then show ?thesis using assms(2) t cl by (auto simp: apply_AddCommit_def Let_def)
  next
    case (Some all)
    then obtain locs n where c: "checkLocs s r all = Inr (locs, n)"
      and s': "s' = setLive (closeTx s t) (tx_path t) (tx_fileVer t) locs n (rec_Seq r)"
      using assms(2) t by (auto simp: apply_AddCommit_def split: sum.splits prod.splits)
    have "list_all (\<lambda>l. loc_Blob l < h_BlobCount (st_h s)) all"
      using Some tx(2) by (auto simp: commitLocs_def ok_tx_def dest: collectExtents_blobs split: if_splits)
    then have v: "ok_version (st_h (closeTx s t)) \<lparr> v_FileVer = tx_fileVer t, v_Loc = locs, v_Length = n, v_Seq = rec_Seq r \<rparr>"
      using checkLocs_Inr(2)[OF c] by (simp add: closeTx_def)
    have "tx_fileVer t \<le> st_maxFileVer (closeTx s t)" "rec_Seq r \<le> st_lastSeq (closeTx s t)"
      using tx(2) assms(3) by (simp_all add: closeTx_def ok_tx_def)
    then show ?thesis unfolding s' by (rule wf_state_setLive[OF cl v])
  qed
qed

lemma wf_apply_op:
  assumes "wf_state s" "apply_op s r file = (s', None)" "rec_Seq r \<le> st_lastSeq s"
    "rec_Op r \<in> {OpAdd, OpDel, OpAddBegin} \<Longrightarrow> rec_FileVer r \<le> st_maxFileVer s"
  shows "wf_state s'"
proof (cases "rec_Op r")
  case OpAddAbort
  then obtain t where t: "openTx s r file = Inr t" "s' = (closeTx s t)\<lparr> st_Aborted := st_Aborted (closeTx s t) + 1 \<rparr>"
    using assms(2) by (auto simp: apply_op_def apply_AddAbort_def Let_def split: sum.splits)
  then show ?thesis using wf_state_closeTx assms(1) openTx_Inr[OF assms(1) t(1)] by simp
next
  case OpDel
  then show ?thesis
    using assms wf_state_Del by (auto simp: apply_op_def apply_Del_def split: option.splits if_splits)
next
  case OpAdd
  then show ?thesis using wf_apply_Add[OF assms(1) _ _ assms(3)] assms(2,4) by (simp add: apply_op_def)
next
  case OpAddBegin
  then show ?thesis using wf_apply_AddBegin[OF assms(1)] assms(2,4) by (simp add: apply_op_def)
next
  case OpAddExtent
  then show ?thesis using wf_apply_AddExtent[OF assms(1)] assms(2) by (simp add: apply_op_def)
next
  case OpAddCommit
  then show ?thesis using wf_apply_AddCommit[OF assms(1) _ assms(3)] assms(2) by (simp add: apply_op_def)
qed (use assms(1,2) in \<open>simp_all add: apply_op_def apply_LinkManifest_def apply_ParityGroup_def split: if_splits\<close>)

text \<open>No operation reads the counters that \<open>Apply\<close> moves after it.\<close>

definition stamp :: "u64 \<Rightarrow> u64 \<Rightarrow> u64 \<Rightarrow> State \<Rightarrow> State" where
  "stamp m q n s = s\<lparr> st_maxFileVer := m, st_lastSeq := q, st_records := n \<rparr>"

lemma stamp_simps [simp]:
  "st_h (stamp m q n s) = st_h s" "st_lim (stamp m q n s) = st_lim s" "st_live (stamp m q n s) = st_live s"
  "st_appliedMax (stamp m q n s) = st_appliedMax s" "st_open (stamp m q n s) = st_open s"
  "st_closed (stamp m q n s) = st_closed s" "st_staged (stamp m q n s) = st_staged s" "st_refs (stamp m q n s) = st_refs s"
  "st_Ignored (stamp m q n s) = st_Ignored s" "st_Aborted (stamp m q n s) = st_Aborted s"
  "st_maxFileVer (stamp m q n s) = m" "st_lastSeq (stamp m q n s) = q" "st_records (stamp m q n s) = n"
  by (simp_all add: stamp_def)

lemma stamp_checks [simp]:
  "checkBlobs (stamp m q n s) r ls = checkBlobs s r ls" "checkLocs (stamp m q n s) r ls = checkLocs s r ls"
  "checkVersion (stamp m q n s) r p v = checkVersion s r p v" "openTx (stamp m q n s) r file = openTx s r file"
  "IsTxKnown (stamp m q n s) i = IsTxKnown s i"
  by (simp_all add: checkBlobs_def checkLocs_def checkVersion_def openTx_def IsTxKnown_def Let_def)

lemma stamp_ops [simp]:
  "addRefs (stamp m q n s) p v ls = stamp m q n (addRefs s p v ls)"
  "setLive (stamp m q n s) p v ls k i = stamp m q n (setLive s p v ls k i)"
  "closeTx (stamp m q n s) t = stamp m q n (closeTx s t)"
  by (simp_all add: addRefs_def setLive_def closeTx_def stamp_def split: option.split)

lemma stamp_updates [simp]:
  "(stamp m q n s)\<lparr> st_open := a \<rparr> = stamp m q n (s\<lparr> st_open := a \<rparr>)"
  "(stamp m q n s)\<lparr> st_staged := b \<rparr> = stamp m q n (s\<lparr> st_staged := b \<rparr>)"
  "(stamp m q n s)\<lparr> st_live := c \<rparr> = stamp m q n (s\<lparr> st_live := c \<rparr>)"
  "(stamp m q n s)\<lparr> st_Ignored := d \<rparr> = stamp m q n (s\<lparr> st_Ignored := d \<rparr>)"
  "(stamp m q n s)\<lparr> st_Aborted := e \<rparr> = stamp m q n (s\<lparr> st_Aborted := e \<rparr>)"
  by (simp_all add: stamp_def)

lemma apply_op_stamp:
  assumes "apply_op s r file = (s', None)"
  shows "apply_op (stamp m q n s) r file = (stamp m q n s', None)"
  using assms by (cases "rec_Op r")
    (auto simp: apply_op_def apply_defs Let_def split: sum.splits option.splits if_splits prod.splits)

lemma apply_op_keeps:
  assumes "apply_op s r file = (s', None)"
  shows "st_maxFileVer s' = st_maxFileVer s" "st_lastSeq s' = st_lastSeq s" "st_records s' = st_records s"
    "st_h s' = st_h s" "st_lim s' = st_lim s"
  using assms by (cases "rec_Op r";
    auto simp: apply_op_def apply_defs setLive_def closeTx_def Let_def split: sum.splits option.splits if_splits prod.splits)+

lemma wf_state_stamp:
  assumes "wf_state s" "st_maxFileVer s \<le> m" "st_lastSeq s \<le> q" "n \<le> q" "n = 0 \<Longrightarrow> q = 0"
  shows "wf_state (stamp m q n s)"
proof -
  have "ok_tx (stamp m q n s) k t" if "ok_tx s k t" for k t
    using that order_trans[OF _ assms(2)] by (simp add: ok_tx_def)
  then show ?thesis
    using assms order_trans[OF _ assms(2)] order_trans[OF _ assms(3)] unfolding wf_state_def by (simp add: max_def)
qed

lemma wf_Apply:
  assumes "wf_state s" "Apply s r file = (s', e)"
  shows "wf_state s'"
proof (cases e)
  case (Some x)
  then show ?thesis using Apply_error assms by blast
next
  case None
  let ?m = "if rec_Op r \<in> {OpAdd, OpDel, OpAddBegin} then max (st_maxFileVer s) (rec_FileVer r) else st_maxFileVer s"
  obtain s1 where s1: "apply_op s r file = (s1, None)" "rec_Seq r \<noteq> 0" "st_records s > 0 \<Longrightarrow> st_lastSeq s < rec_Seq r"
    and s': "s' = (if rec_Op r \<in> {OpAdd, OpDel, OpAddBegin} then s1\<lparr> st_maxFileVer := max (st_maxFileVer s1) (rec_FileVer r) \<rparr> else s1)
      \<lparr> st_lastSeq := rec_Seq r, st_records := st_records s1 + 1 \<rparr>"
    using Apply_ok assms(2) None by blast
  have s'2: "s' = stamp ?m (rec_Seq r) (st_records s + 1) s1"
    unfolding s' using apply_op_keeps[OF s1(1)] by (simp add: stamp_def)
  have seq: "st_lastSeq s < rec_Seq r" using assms(1) s1(2,3) unfolding wf_state_def by (cases "st_records s = 0") (auto simp: word_neq_0_conv)
  have "st_records s < rec_Seq r" using assms(1) seq unfolding wf_state_def by (auto intro: le_less_trans)
  then have n: "st_records s + 1 \<le> rec_Seq r" "st_records s + 1 \<noteq> 0"
    by (rule inc_le) (use \<open>st_records s < rec_Seq r\<close> in \<open>metis add.commute add_eq_0_iff max_word_max linorder_not_less\<close>)
  have "wf_state (stamp ?m (rec_Seq r) (st_records s + 1) s)"
    using wf_state_stamp[OF assms(1)] seq n by (simp add: max_def)
  then show ?thesis
    unfolding s'2 using wf_apply_op[OF _ apply_op_stamp[OF s1(1)]] by (auto simp: max_def)
qed

lemma wf_replay: "wf_state s \<Longrightarrow> wf_state (fst (replay s rs))"
  by (induction s rs rule: replay.induct) (auto split: prod.split option.split dest: wf_Apply)


section \<open>What a commit collects\<close>

lemma collectExtents_eq:
  "collectExtents ex i n =
    (if \<forall>j \<in> set [i..<i + n]. map_of ex (word_of_nat j) \<noteq> None
     then Some (concat (map (\<lambda>j. the (map_of ex (word_of_nat j))) [i..<i + n])) else None)"
proof (induction ex i n rule: collectExtents.induct)
  case (2 ex i n)
  have "[i..<i + Suc n] = i # [Suc i..<Suc i + n]" by (simp add: upt_rec)
  then show ?case using 2 by (cases "map_of ex (word_of_nat i)") (simp_all del: upt_Suc)
qed simp

lemma mset_concat_map: "mset xs = mset ys \<Longrightarrow> mset (concat (map f xs)) = mset (concat (map f ys))"
  by (simp add: mset_concat flip: sum_mset_sum_list mset_map) (metis mset_map)

lemma map_of_fst: "distinct (map fst ex) \<Longrightarrow> map (\<lambda>k. the (map_of ex k)) (map fst ex) = map snd ex"
  by (induction ex) (force cong: map_cong)+

lemma distinct_of_nat_upt: "n \<le> 2 ^ 32 \<Longrightarrow> distinct (map (word_of_nat :: nat \<Rightarrow> u32) [0..<n])"
  by (auto simp: distinct_map inj_on_def word_of_nat_eq_iff take_bit_nat_eq_self)

text \<open>All numbers below \<open>n\<close> are present in \<open>n\<close> differently numbered records exactly when the numbers are a
  permutation of them; the collected extents are then those of all records.\<close>

lemma collectExtents_perm:
  assumes "distinct (map fst ex)" "n \<le> 2 ^ 32"
  shows "length ex = n \<and> collectExtents ex 0 n \<noteq> None \<longleftrightarrow> mset (map fst ex) = mset (map word_of_nat [0..<n])"
    and "length ex = n \<Longrightarrow> collectExtents ex 0 n = Some ls \<Longrightarrow> mset ls = mset (concat (map snd ex))"
proof -
  let ?ks = "map word_of_nat [0..<n] :: u32 list"
  note d = distinct_of_nat_upt[OF assms(2)]
  have c: "collectExtents ex 0 n \<noteq> None \<longleftrightarrow> set ?ks \<subseteq> set (map fst ex)"
    by (auto simp: collectExtents_eq map_of_eq_None_iff)
  show iff: "length ex = n \<and> collectExtents ex 0 n \<noteq> None \<longleftrightarrow> mset (map fst ex) = mset ?ks"
  proof
    assume l: "length ex = n \<and> collectExtents ex 0 n \<noteq> None"
    have "card (set ?ks) = n" "card (set (map fst ex)) = n"
      using distinct_card[OF d] distinct_card[OF assms(1)] l by simp_all
    then have "set ?ks = set (map fst ex)" using l c card_subset_eq by (metis List.finite_set)
    then show "mset (map fst ex) = mset ?ks" using set_eq_iff_mset_eq_distinct[OF assms(1) d] by simp
  next
    assume m: "mset (map fst ex) = mset ?ks"
    have "length ex = n" using mset_eq_length[OF m] by simp
    then show "length ex = n \<and> collectExtents ex 0 n \<noteq> None" using mset_eq_setD[OF m] c by blast
  qed
  assume n: "length ex = n" and ls: "collectExtents ex 0 n = Some ls"
  have "ls = concat (map (\<lambda>k. the (map_of ex k)) ?ks)"
    using ls by (auto simp: collectExtents_eq comp_def split: if_splits)
  moreover have "mset ?ks = mset (map fst ex)" using iff n ls by simp
  ultimately have "mset ls = mset (concat (map (\<lambda>k. the (map_of ex k)) (map fst ex)))"
    using mset_concat_map by blast
  then show "mset ls = mset (concat (map snd ex))" by (simp only: map_of_fst[OF assms(1)])
qed

lemma checkLocs_sorted:
  assumes "checkLocs s r all = Inr (locs, n)" "mset all = mset ys"
  shows "locs = sort_key loc_Offset ys" and "checkLocs s r ys = Inr (locs, n)"
proof -
  have l: "locs = sort_key loc_Offset all"
    using assms(1) by (auto simp: checkLocs_def Let_def split: if_splits option.splits)
  have "inj_on loc_Offset (set locs)"
  proof (cases "length locs = 1")
    case True
    then show ?thesis by (auto simp: length_Suc_conv)
  next
    case False
    then have "checkLocs_loop (MaxFrameSize (st_h s)) 0 locs = Some n"
      using assms(1) l by (auto simp: checkLocs_def Let_def split: if_splits option.splits)
    then show ?thesis using contiguous_inj by (auto simp: checkLocs_loop_Some list_all_iff)
  qed
  then show eq: "locs = sort_key loc_Offset ys"
    using assms(2) mset_eq_setD[OF assms(2)] by (intro sym[OF sort_key_inj_key_eq]) (simp_all add: l)
  have "length ys = length all" using mset_eq_length[OF assms(2)] by simp
  then show "checkLocs s r ys = Inr (locs, n)"
    using assms(1) l eq by (simp add: checkLocs_def Let_def)
qed

end
