(* ===== verification/Manifest_Line.thy ===== *)
theory Manifest_Line
  imports Manifest_Json Manifest_State
begin

text \<open>
  Package \<^verbatim>\<open>internal/manifest\<close>, one journal line: \<^verbatim>\<open>record.go\<close> (\<open>DecodeLine\<close>, \<open>decodeGeneric\<close> and the field
  decoders), \<^verbatim>\<open>encode.go\<close> (\<open>AppendLine\<close>, \<open>validate\<close>) and \<^verbatim>\<open>fast.go\<close> (\<open>decodeCanonical\<close>). The appending
  functions are given by the bytes they append. The decoder's sticky error is the first error of a
  chain of results, since nothing else of a failed decoder is used. \<open>isNormal\<close> is the normal-form
  test of paths. The properties: writing a record and reading the line gives the record
  back, the fast path agrees with the strict one on every line, and what is read can be
  written.
\<close>

section \<open>Names\<close>

abbreviation (input) MaxLineBytes :: nat where "MaxLineBytes \<equiv> 1048576"

definition all_ops :: "Op list" where
  "all_ops = [OpAdd, OpDel, OpAddBegin, OpAddExtent, OpAddCommit, OpAddAbort, OpLinkManifest, OpParityGroup]"

definition opByName :: "bytes \<Rightarrow> Op option" where
  "opByName s = find (\<lambda>op. ascii (Op_String op) = s) all_ops"

definition encOps :: "bytes list" where
  "encOps = map ascii [''ADD_ENC'', ''DEL_ENC'', ''ADD_BEGIN_ENC'', ''ADD_EXTENT_ENC'', ''ADD_COMMIT_ENC'',
     ''ADD_ABORT_ENC'', ''LINK_MANIFEST_ENC'']"

fun fieldOrder :: "Op \<Rightarrow> string list" where
  "fieldOrder OpAdd = [''seq'', ''op'', ''path'', ''file_ver'', ''loc'']"
| "fieldOrder OpDel = [''seq'', ''op'', ''path'', ''file_ver'']"
| "fieldOrder OpAddBegin = [''seq'', ''op'', ''tx_id'', ''path'', ''file_ver'']"
| "fieldOrder OpAddExtent = [''seq'', ''op'', ''tx_id'', ''extent_sequence'', ''loc'']"
| "fieldOrder OpAddCommit = [''seq'', ''op'', ''tx_id'', ''extent_record_count'', ''extent_count'']"
| "fieldOrder OpAddAbort = [''seq'', ''op'', ''tx_id'']"
| "fieldOrder OpLinkManifest = [''seq'', ''op'', ''path'', ''hash_id'', ''hash'', ''lines'']"
| "fieldOrder OpParityGroup = [''seq'', ''op'', ''group_id'', ''members'']"
| "fieldOrder OpOther = []"

definition SubmanifestDir :: bytes where
  "SubmanifestDir = ascii ''submanifests/''"

text \<open>\<open>strings.HasPrefix(path, SubmanifestDir)\<close> and something behind it.\<close>

definition beneathSubmanifests :: "bytes \<Rightarrow> bool" where
  "beneathSubmanifests p \<longleftrightarrow> take (length SubmanifestDir) p = SubmanifestDir \<and> length p \<noteq> length SubmanifestDir"

section \<open>Numbers and hexadecimal strings\<close>

text \<open>\<^verbatim>\<open>strconv.AppendUint(b, n, 10)\<close> and \<^verbatim>\<open>strconv.ParseUint(s, 10, 64)\<close>.\<close>

fun AppendUint :: "nat \<Rightarrow> bytes" where
  "AppendUint n = (if n < 10 then [word_of_nat (0x30 + n)] else AppendUint (n div 10) @ [word_of_nat (0x30 + n mod 10)])"

declare AppendUint.simps [simp del]

definition digits_value :: "bytes \<Rightarrow> nat" where
  "digits_value s = fold (\<lambda>c n. n * 10 + (unat c - 0x30)) s 0"

definition parseDecimal :: "bytes \<Rightarrow> u64 option" where
  "parseDecimal s =
    (if s = [] \<or> length s > 20 \<or> (length s > 1 \<and> s ! 0 = 0x30) then None
     else if \<not> list_all is_digit s then None
     else let n = digits_value s in if n < 2 ^ 64 then Some (word_of_nat n) else None)"

text \<open>\<^verbatim>\<open>hex.EncodeToString\<close> and \<^verbatim>\<open>hex.DecodeString\<close>.\<close>

definition EncodeToString :: "bytes \<Rightarrow> bytes" where
  "EncodeToString b = concat (map (\<lambda>c. [hexd (unat c div 16), hexd (unat c mod 16)]) b)"

fun DecodeString :: "bytes \<Rightarrow> bytes option" where
  "DecodeString [] = Some []"
| "DecodeString [_] = None"
| "DecodeString (a # b # s) =
    (case (hexVal a, hexVal b, DecodeString s) of
       (Some x, Some y, Some r) \<Rightarrow> Some (word_of_nat (x * 16 + y) # r)
     | _ \<Rightarrow> None)"

definition is_lower_hex :: "byte \<Rightarrow> bool" where
  "is_lower_hex c \<longleftrightarrow> 0x30 \<le> c \<and> c \<le> 0x39 \<or> 0x61 \<le> c \<and> c \<le> 0x66"

definition lowerHex :: "bytes \<Rightarrow> nat \<Rightarrow> bytes option" where
  "lowerHex s n = (if length s \<noteq> 2 * n then None else if \<not> list_all is_lower_hex s then None else DecodeString s)"

section \<open>Decoding fields\<close>

definition andThen :: "'a result \<Rightarrow> ('a \<Rightarrow> 'b result) \<Rightarrow> 'b result" where
  "andThen x f = (case x of Inl e \<Rightarrow> Inl e | Inr y \<Rightarrow> f y)"

lemma andThen_simps [simp]: "andThen (Inr x) f = f x" "andThen (Inl e) f = Inl e"
  by (simp_all add: andThen_def)

definition decoder_fail :: "string \<Rightarrow> 'a result" where
  "decoder_fail field = errf ErrCorrupt ''Manifest'' field"

definition decV :: "jvalue \<Rightarrow> string \<Rightarrow> u64 result" where
  "decV v field =
    (case v of
       JString s \<Rightarrow> (case parseDecimal s of Some n \<Rightarrow> Inr n | None \<Rightarrow> decoder_fail field)
     | _ \<Rightarrow> decoder_fail field)"

definition intV :: "jvalue \<Rightarrow> string \<Rightarrow> u64 \<Rightarrow> u64 result" where
  "intV v field mx =
    (case v of
       JNumber s \<Rightarrow> (case parseDecimal s of
           Some n \<Rightarrow> if n > mx then decoder_fail field else Inr n
         | None \<Rightarrow> decoder_fail field)
     | _ \<Rightarrow> decoder_fail field)"

definition pathV :: "(bytes \<Rightarrow> bool) \<Rightarrow> jvalue \<Rightarrow> string \<Rightarrow> bytes result" where
  "pathV isNormal v field =
    (case v of
       JString s \<Rightarrow> (case Validate isNormal s of Inl _ \<Rightarrow> decoder_fail field | Inr _ \<Rightarrow> Inr s)
     | _ \<Rightarrow> decoder_fail field)"

text \<open>\<open>hash\<close> with 32 bytes and \<open>tx\<close> with 16.\<close>

definition hexV :: "nat \<Rightarrow> jvalue \<Rightarrow> string \<Rightarrow> bytes result" where
  "hexV n v field =
    (case v of
       JString s \<Rightarrow> (case lowerHex s n of Some b \<Rightarrow> Inr b | None \<Rightarrow> decoder_fail field)
     | _ \<Rightarrow> decoder_fail field)"

fun locs_loop :: "string \<Rightarrow> Loc list \<Rightarrow> jvalue list \<Rightarrow> Loc list result" where
  "locs_loop field out [] = Inr out"
| "locs_loop field out (e # es) =
    (case e of
       JArray [a, b, c, d] \<Rightarrow>
         andThen (intV a field 0xFE) (\<lambda>blob.
         andThen (hexV 32 b field) (\<lambda>h.
         andThen (decV c field) (\<lambda>off.
         andThen (decV d field) (\<lambda>len.
         locs_loop field (out @ [\<lparr> loc_Blob = ucast blob, loc_Hash = h, loc_Offset = off, loc_Length = len \<rparr>]) es))))
     | _ \<Rightarrow> decoder_fail field)"

definition locsV :: "jvalue \<Rightarrow> string \<Rightarrow> Loc list result" where
  "locsV v field = (case v of JArray (e # es) \<Rightarrow> locs_loop field [] (e # es) | _ \<Rightarrow> decoder_fail field)"

fun members_loop :: "string \<Rightarrow> Member list \<Rightarrow> jvalue list \<Rightarrow> Member list result" where
  "members_loop field out [] = Inr out"
| "members_loop field out (e # es) =
    (case e of
       JArray [a, b, c] \<Rightarrow>
         andThen (intV a field 0xFE) (\<lambda>blob.
         andThen (hexV 32 b field) (\<lambda>h.
         andThen (intV c field 255) (\<lambda>gi.
         members_loop field (out @ [\<lparr> mem_Blob = ucast blob, mem_Hash = h, mem_GroupIndex = ucast gi \<rparr>]) es)))
     | _ \<Rightarrow> decoder_fail field)"

definition membersV :: "jvalue \<Rightarrow> string \<Rightarrow> Member list result" where
  "membersV v field = (case v of JArray (e # es) \<Rightarrow> members_loop field [] (e # es) | _ \<Rightarrow> decoder_fail field)"

section \<open>Decoding a line\<close>

definition emptyRecord :: "Op \<Rightarrow> u64 \<Rightarrow> Record" where
  "emptyRecord op s = \<lparr> rec_Seq = s, rec_Op = op, rec_HasTS = False, rec_TS = 0, rec_Path = [], rec_FileVer = 0,
     rec_Loc = [], rec_TxID = replicate 16 0, rec_ExtentSequence = 0, rec_ExtentRecordCount = 0, rec_ExtentCount = 0,
     rec_HashID = 0, rec_Hash = replicate 32 0, rec_Lines = 0, rec_GroupID = 0, rec_Members = [] \<rparr>"

fun findOp :: "(bytes \<times> jvalue) list \<Rightarrow> bytes \<Rightarrow> bytes result" where
  "findOp [] opName = Inr opName"
| "findOp ((k, v) # ms) opName =
    (if k = ascii ''op'' then (case v of JString s \<Rightarrow> findOp ms s | _ \<Rightarrow> json_corrupt) else findOp ms opName)"

text \<open>A field of the decoder; an absent one is the zero value, which no decoder accepts.\<close>

definition field_of :: "(bytes \<times> jvalue) list \<Rightarrow> string \<Rightarrow> jvalue" where
  "field_of obj f = (case map_of (rev obj) (ascii f) of Some v \<Rightarrow> v | None \<Rightarrow> JNull)"

definition decode_fields :: "(bytes \<Rightarrow> bool) \<Rightarrow> Op \<Rightarrow> (string \<Rightarrow> jvalue) \<Rightarrow> Record \<Rightarrow> Record result" where
  "decode_fields isNormal op f r =
    (case op of
       OpAdd \<Rightarrow>
         andThen (pathV isNormal (f ''path'') ''path'') (\<lambda>p.
         andThen (decV (f ''file_ver'') ''file_ver'') (\<lambda>fv.
         andThen (locsV (f ''loc'') ''loc'') (\<lambda>ls.
         Inr (r\<lparr> rec_Path := p, rec_FileVer := fv, rec_Loc := ls \<rparr>))))
     | OpDel \<Rightarrow>
         andThen (pathV isNormal (f ''path'') ''path'') (\<lambda>p.
         andThen (decV (f ''file_ver'') ''file_ver'') (\<lambda>fv.
         Inr (r\<lparr> rec_Path := p, rec_FileVer := fv \<rparr>)))
     | OpAddBegin \<Rightarrow>
         andThen (hexV 16 (f ''tx_id'') ''tx_id'') (\<lambda>t.
         andThen (pathV isNormal (f ''path'') ''path'') (\<lambda>p.
         andThen (decV (f ''file_ver'') ''file_ver'') (\<lambda>fv.
         Inr (r\<lparr> rec_TxID := t, rec_Path := p, rec_FileVer := fv \<rparr>))))
     | OpAddExtent \<Rightarrow>
         andThen (hexV 16 (f ''tx_id'') ''tx_id'') (\<lambda>t.
         andThen (intV (f ''extent_sequence'') ''extent_sequence'' 0xFFFFFFFF) (\<lambda>es.
         andThen (locsV (f ''loc'') ''loc'') (\<lambda>ls.
         Inr (r\<lparr> rec_TxID := t, rec_ExtentSequence := ucast es, rec_Loc := ls \<rparr>))))
     | OpAddCommit \<Rightarrow>
         andThen (hexV 16 (f ''tx_id'') ''tx_id'') (\<lambda>t.
         andThen (intV (f ''extent_record_count'') ''extent_record_count'' 0xFFFFFFFF) (\<lambda>rc.
         andThen (intV (f ''extent_count'') ''extent_count'' 0xFFFFFFFF) (\<lambda>ec.
         Inr (r\<lparr> rec_TxID := t, rec_ExtentRecordCount := ucast rc, rec_ExtentCount := ucast ec \<rparr>))))
     | OpAddAbort \<Rightarrow>
         andThen (hexV 16 (f ''tx_id'') ''tx_id'') (\<lambda>t. Inr (r\<lparr> rec_TxID := t \<rparr>))
     | OpLinkManifest \<Rightarrow>
         andThen (pathV isNormal (f ''path'') ''path'') (\<lambda>p.
         andThen (intV (f ''hash_id'') ''hash_id'' 255) (\<lambda>hid.
         andThen (hexV 32 (f ''hash'') ''hash'') (\<lambda>h.
         andThen (decV (f ''lines'') ''lines'') (\<lambda>ln.
         if \<not> beneathSubmanifests p then decoder_fail ''path''
         else Inr (r\<lparr> rec_Path := p, rec_HashID := ucast hid, rec_Hash := h, rec_Lines := ln \<rparr>)))))
     | OpParityGroup \<Rightarrow>
         andThen (intV (f ''group_id'') ''group_id'' 0xFFFFFFFF) (\<lambda>g.
         andThen (membersV (f ''members'') ''members'') (\<lambda>ms.
         Inr (r\<lparr> rec_GroupID := ucast g, rec_Members := ms \<rparr>)))
     | OpOther \<Rightarrow> Inr r)"

definition decode_object :: "(bytes \<Rightarrow> bool) \<Rightarrow> Op \<Rightarrow> (bytes \<times> jvalue) list \<Rightarrow> Record result" where
  "decode_object isNormal op obj =
    (let allowed = ascii ''ts'' # map ascii (fieldOrder op)
     in if list_ex (\<lambda>m. fst m \<notin> set allowed) obj then json_corrupt
        else if list_ex (\<lambda>f. ascii f \<notin> fst ` set obj) (fieldOrder op) then json_corrupt
        else let f = field_of obj
          in andThen (decV (f ''seq'') ''seq'') (\<lambda>s.
             andThen (if ascii ''ts'' \<in> fst ` set obj
                      then andThen (decV (f ''ts'') ''ts'') (\<lambda>t. Inr ((emptyRecord op s)\<lparr> rec_HasTS := True, rec_TS := t \<rparr>))
                      else Inr (emptyRecord op s)) (\<lambda>r.
             decode_fields isNormal op f r)))"

definition decodeGeneric :: "(bytes \<Rightarrow> bool) \<Rightarrow> bytes \<Rightarrow> bool \<Rightarrow> Record result" where
  "decodeGeneric isNormal line encrypted =
    andThen (parseJSON line) (\<lambda>v.
      case v of
        JObject obj \<Rightarrow>
          andThen (findOp obj []) (\<lambda>opName.
            if opName = [] then json_corrupt
            else if opName \<in> set encOps \<and> \<not> encrypted then json_corrupt
            else if opName \<in> set encOps then errf ErrUnsupported ''Manifest'' ''op''
            else case opByName opName of
              None \<Rightarrow> errf ErrUnsupported ''Manifest'' ''op''
            | Some op \<Rightarrow> if encrypted then json_corrupt else decode_object isNormal op obj)
      | _ \<Rightarrow> json_corrupt)"

section \<open>Writing a line\<close>

definition appendDec :: "u64 \<Rightarrow> bytes" where
  "appendDec v = 0x22 # AppendUint (unat v) @ [0x22]"

definition appendKey :: "string \<Rightarrow> bytes" where
  "appendKey k = [0x2C, 0x22] @ ascii k @ [0x22, 0x3A]"

definition appendDecField :: "string \<Rightarrow> u64 \<Rightarrow> bytes" where
  "appendDecField k v = appendKey k @ appendDec v"

definition appendIntField :: "string \<Rightarrow> nat \<Rightarrow> bytes" where
  "appendIntField k v = appendKey k @ AppendUint v"

definition appendStrField :: "string \<Rightarrow> bytes \<Rightarrow> bytes" where
  "appendStrField k v = appendKey k @ appendString v"

definition appendLoc :: "Loc \<Rightarrow> bytes" where
  "appendLoc l = [0x5B] @ AppendUint (unat (loc_Blob l)) @ [0x2C, 0x22] @ EncodeToString (loc_Hash l) @ [0x22, 0x2C] @
     appendDec (loc_Offset l) @ [0x2C] @ appendDec (loc_Length l) @ [0x5D]"

definition appendLocs :: "Loc list \<Rightarrow> bytes" where
  "appendLocs ls = ascii '',\"loc\":['' @ commas (map appendLoc ls) @ [0x5D]"

definition appendMember :: "Member \<Rightarrow> bytes" where
  "appendMember m = [0x5B] @ AppendUint (unat (mem_Blob m)) @ [0x2C, 0x22] @ EncodeToString (mem_Hash m) @ [0x22, 0x2C] @
     AppendUint (unat (mem_GroupIndex m)) @ [0x5D]"

definition line_invalid :: "unit result" where
  "line_invalid = errf ErrInvalid ''Manifest'' []"

definition validate :: "(bytes \<Rightarrow> bool) \<Rightarrow> Record \<Rightarrow> unit result" where
  "validate isNormal r =
    (if rec_Op r \<notin> set all_ops then line_invalid
     else if rec_Op r \<in> {OpAdd, OpDel, OpAddBegin, OpLinkManifest} \<and> isl (Validate isNormal (rec_Path r)) then line_invalid
     else case rec_Op r of
       OpAdd \<Rightarrow> if rec_Loc r = [] \<or> list_ex (\<lambda>l. loc_Blob l > MaxBlobOrdinal) (rec_Loc r) then line_invalid else Inr ()
     | OpAddExtent \<Rightarrow> if rec_Loc r = [] \<or> list_ex (\<lambda>l. loc_Blob l > MaxBlobOrdinal) (rec_Loc r) then line_invalid else Inr ()
     | OpLinkManifest \<Rightarrow> if \<not> beneathSubmanifests (rec_Path r) then line_invalid else Inr ()
     | OpParityGroup \<Rightarrow>
         if rec_Members r = [] \<or> list_ex (\<lambda>m. mem_Blob m > MaxBlobOrdinal) (rec_Members r) then line_invalid else Inr ()
     | _ \<Rightarrow> Inr ())"

definition appendFields :: "Record \<Rightarrow> bytes" where
  "appendFields r =
    (case rec_Op r of
       OpAdd \<Rightarrow> appendStrField ''path'' (rec_Path r) @ appendDecField ''file_ver'' (rec_FileVer r) @ appendLocs (rec_Loc r)
     | OpDel \<Rightarrow> appendStrField ''path'' (rec_Path r) @ appendDecField ''file_ver'' (rec_FileVer r)
     | OpAddBegin \<Rightarrow> appendStrField ''tx_id'' (EncodeToString (rec_TxID r)) @ appendStrField ''path'' (rec_Path r) @
         appendDecField ''file_ver'' (rec_FileVer r)
     | OpAddExtent \<Rightarrow> appendStrField ''tx_id'' (EncodeToString (rec_TxID r)) @
         appendIntField ''extent_sequence'' (unat (rec_ExtentSequence r)) @ appendLocs (rec_Loc r)
     | OpAddCommit \<Rightarrow> appendStrField ''tx_id'' (EncodeToString (rec_TxID r)) @
         appendIntField ''extent_record_count'' (unat (rec_ExtentRecordCount r)) @
         appendIntField ''extent_count'' (unat (rec_ExtentCount r))
     | OpAddAbort \<Rightarrow> appendStrField ''tx_id'' (EncodeToString (rec_TxID r))
     | OpLinkManifest \<Rightarrow> appendStrField ''path'' (rec_Path r) @ appendIntField ''hash_id'' (unat (rec_HashID r)) @
         appendStrField ''hash'' (EncodeToString (rec_Hash r)) @ appendDecField ''lines'' (rec_Lines r)
     | OpParityGroup \<Rightarrow> appendIntField ''group_id'' (unat (rec_GroupID r)) @
         ascii '',\"members\":['' @ commas (map appendMember (rec_Members r)) @ [0x5D]
     | OpOther \<Rightarrow> [])"

definition line_of :: "Record \<Rightarrow> bytes" where
  "line_of r = ascii ''{\"seq\":'' @ appendDec (rec_Seq r) @ ascii '',\"op\":\"'' @ ascii (Op_String (rec_Op r)) @ [0x22] @
     appendFields r @ (if rec_HasTS r then appendDecField ''ts'' (rec_TS r) else []) @ [0x7D]"

definition AppendLine :: "(bytes \<Rightarrow> bool) \<Rightarrow> bytes \<Rightarrow> Record \<Rightarrow> bytes result" where
  "AppendLine isNormal dst r =
    andThen (validate isNormal r) (\<lambda>_.
      if length (line_of r) > MaxLineBytes then errf ErrInvalid ''Manifest'' []
      else Inr (dst @ line_of r @ [0x0A]))"

section \<open>The fast path\<close>

text \<open>The scanner: the bytes that remain and the mark of a deviation.\<close>

record cscan =
  cs_b :: bytes
  cs_bad :: bool

definition cs_try :: "string \<Rightarrow> cscan \<Rightarrow> bool \<times> cscan" where
  "cs_try s c =
    (if \<not> cs_bad c \<and> length s \<le> length (cs_b c) \<and> take (length s) (cs_b c) = ascii s
     then (True, c\<lparr> cs_b := drop (length s) (cs_b c) \<rparr>) else (False, c))"

definition cs_lit :: "string \<Rightarrow> cscan \<Rightarrow> cscan" where
  "cs_lit s c = (case cs_try s c of (True, c) \<Rightarrow> c | (False, c) \<Rightarrow> c\<lparr> cs_bad := True \<rparr>)"

text \<open>At most \<open>k\<close> more digits; the value wraps around.\<close>

fun digits_loop :: "nat \<Rightarrow> u64 \<Rightarrow> bytes \<Rightarrow> u64 \<times> bytes" where
  "digits_loop (Suc k) n (d # r) =
    (if is_digit d then digits_loop k (n * 10 + (ucast d - 0x30)) r else (n, d # r))"
| "digits_loop _ n r = (n, r)"

definition cs_digits :: "cscan \<Rightarrow> u64 \<times> cscan" where
  "cs_digits c = (case digits_loop 20 0 (cs_b c) of (n, r) \<Rightarrow>
     (n, c\<lparr> cs_b := r, cs_bad := (cs_bad c \<or> length r = length (cs_b c)) \<rparr>))"

definition cs_dec :: "cscan \<Rightarrow> u64 \<times> cscan" where
  "cs_dec c = (case cs_digits (cs_lit ''\"'' c) of (n, c) \<Rightarrow> (n, cs_lit ''\"'' c))"

definition cs_int :: "u64 \<Rightarrow> cscan \<Rightarrow> u64 \<times> cscan" where
  "cs_int mx c = (case cs_digits c of (n, c) \<Rightarrow> (n, if n > mx then c\<lparr> cs_bad := True \<rparr> else c))"

fun str_scan :: "bytes \<Rightarrow> bytes \<Rightarrow> bytes \<times> bytes \<times> bool" where
  "str_scan acc [] = ([], [], True)"
| "str_scan acc (b # r) =
    (if b = 0x22 then (acc, r, False)
     else if b = 0x5C \<or> b < 0x20 then ([], b # r, True)
     else str_scan (acc @ [b]) r)"

definition cs_str :: "cscan \<Rightarrow> bytes \<times> cscan" where
  "cs_str c =
    (let c = cs_lit ''\"'' c
     in if cs_bad c then ([], c)
        else case str_scan [] (cs_b c) of (s, r, bad) \<Rightarrow> (s, c\<lparr> cs_b := r, cs_bad := bad \<rparr>))"

definition unhexLower :: "byte \<Rightarrow> byte option" where
  "unhexLower b = (if 0x30 \<le> b \<and> b \<le> 0x39 then Some (b - 0x30) else if 0x61 \<le> b \<and> b \<le> 0x66 then Some (b - 0x61 + 10) else None)"

text \<open>The destination array: the bytes written, the zero bytes from the first bad digit on.\<close>

fun hex_loop :: "nat \<Rightarrow> bytes \<Rightarrow> bytes \<times> bytes \<times> bool" where
  "hex_loop 0 r = ([], r, False)"
| "hex_loop (Suc k) (a # b # r) =
    (case (unhexLower a, unhexLower b) of
       (Some hi, Some lo) \<Rightarrow> (case hex_loop k r of (out, r', bad) \<Rightarrow> (((push_bit 4 hi) OR lo) # out, r', bad))
     | _ \<Rightarrow> (replicate (Suc k) 0, a # b # r, True))"
| "hex_loop (Suc k) r = (replicate (Suc k) 0, r, True)"

definition cs_hexInto :: "nat \<Rightarrow> cscan \<Rightarrow> bytes \<times> cscan" where
  "cs_hexInto n c =
    (if cs_bad c \<or> length (cs_b c) < 2 * n then (replicate n 0, c\<lparr> cs_bad := True \<rparr>)
     else case hex_loop n (cs_b c) of (out, r, bad) \<Rightarrow> (out, c\<lparr> cs_b := r, cs_bad := bad \<rparr>))"

definition cs_tx :: "cscan \<Rightarrow> bytes \<times> cscan" where
  "cs_tx c = (case cs_hexInto 16 (cs_lit ''\"'' c) of (t, c) \<Rightarrow> (t, cs_lit ''\"'' c))"

definition cs_loc :: "cscan \<Rightarrow> Loc \<times> cscan" where
  "cs_loc c =
    (case cs_int 0xFF (cs_lit ''['' c) of (blob, c) \<Rightarrow>
     case cs_hexInto 32 (cs_lit '',\"'' c) of (h, c) \<Rightarrow>
     case cs_dec (cs_lit ''\",'' c) of (off, c) \<Rightarrow>
     case cs_dec (cs_lit '','' c) of (len, c) \<Rightarrow>
       (\<lparr> loc_Blob = ucast blob, loc_Hash = h, loc_Offset = off, loc_Length = len \<rparr>, cs_lit '']'' c))"

subsection \<open>Nothing is put back\<close>

lemma cs_try_le: "length (cs_b (snd (cs_try s c))) \<le> length (cs_b c)"
  by (simp add: cs_try_def)

lemma cs_try_less: "cs_try s c = (True, c') \<Longrightarrow> s \<noteq> [] \<Longrightarrow> length (cs_b c') < length (cs_b c)"
  by (cases s) (auto simp: cs_try_def split: if_splits)

lemma cs_lit_le: "length (cs_b (cs_lit s c)) \<le> length (cs_b c)"
  using cs_try_le[of s c] by (auto simp: cs_lit_def split: prod.splits bool.splits)

lemma digits_loop_le: "length (snd (digits_loop k n r)) \<le> length r"
  by (induction k n r rule: digits_loop.induct) auto

lemma cs_digits_le: "length (cs_b (snd (cs_digits c))) \<le> length (cs_b c)"
  using digits_loop_le[of 20 0 "cs_b c"] by (cases "digits_loop 20 0 (cs_b c)") (simp add: cs_digits_def)

lemma cs_int_le: "length (cs_b (snd (cs_int mx c))) \<le> length (cs_b c)"
  using cs_digits_le[of c] by (auto simp: cs_int_def split: prod.splits)

lemma cs_dec_le: "length (cs_b (snd (cs_dec c))) \<le> length (cs_b c)"
proof -
  obtain n c1 where c1: "cs_digits (cs_lit ''\"'' c) = (n, c1)" by (rule prod.exhaust)
  then show ?thesis
    using cs_lit_le[of "''\"''" c] cs_digits_le[of "cs_lit ''\"'' c"] cs_lit_le[of "''\"''" c1]
    by (simp add: cs_dec_def)
qed

lemma hex_loop_le: "length (fst (snd (hex_loop k r))) \<le> length r"
proof (induction k r rule: hex_loop.induct)
  case (2 k a b r)
  show ?case
  proof (cases "unhexLower a = None \<or> unhexLower b = None")
    case False
    then obtain hi lo where "unhexLower a = Some hi" "unhexLower b = Some lo" by auto
    then show ?thesis using "2.IH" by (cases "hex_loop k r") (simp add: le_SucI)
  qed (auto split: option.splits)
qed auto

lemma cs_hexInto_le: "length (cs_b (snd (cs_hexInto n c))) \<le> length (cs_b c)"
  using hex_loop_le[of n "cs_b c"] by (auto simp: cs_hexInto_def split: prod.splits)

lemma cs_loc_le: "length (cs_b (snd (cs_loc c))) \<le> length (cs_b c)"
proof -
  obtain x1 c1 where 1: "cs_int 0xFF (cs_lit ''['' c) = (x1, c1)" by (rule prod.exhaust)
  obtain x2 c2 where 2: "cs_hexInto 32 (cs_lit '',\"'' c1) = (x2, c2)" by (rule prod.exhaust)
  obtain x3 c3 where 3: "cs_dec (cs_lit ''\",'' c2) = (x3, c3)" by (rule prod.exhaust)
  obtain x4 c4 where 4: "cs_dec (cs_lit '','' c3) = (x4, c4)" by (rule prod.exhaust)
  show ?thesis
    using cs_lit_le[of "''[''" c] cs_int_le[of "0xFF" "cs_lit ''['' c"] cs_lit_le[of "'',\"''" c1]
      cs_hexInto_le[of 32 "cs_lit '',\"'' c1"] cs_lit_le[of "''\",''" c2] cs_dec_le[of "cs_lit ''\",'' c2"]
      cs_lit_le[of "'',''" c3] cs_dec_le[of "cs_lit '','' c3"] cs_lit_le[of "'']''" c4]
    by (simp add: cs_loc_def 1 2 3 4)
qed

function cs_locs_loop :: "Loc list \<Rightarrow> cscan \<Rightarrow> Loc list \<times> cscan" where
  "cs_locs_loop out c =
    (if cs_bad c then (out, c)
     else case cs_loc c of (l, c) \<Rightarrow>
       let out = out @ [l]
       in case cs_try '','' c of (True, c) \<Rightarrow> cs_locs_loop out c | (False, c) \<Rightarrow> (out, c))"
  by pat_completeness auto
termination
proof (relation "measure (\<lambda>(out, c). length (cs_b c))")
  fix out :: "Loc list" and c l c1 outa b c2
  assume "(l, c1) = cs_loc c" and "(b, c2) = cs_try '','' c1" and "b = True"
  then have "length (cs_b c2) < length (cs_b c1)" using cs_try_less[of "'',''" c1 c2] by simp
  moreover have "length (cs_b c1) \<le> length (cs_b c)" using cs_loc_le[of c] \<open>(l, c1) = cs_loc c\<close> by (metis snd_conv)
  ultimately show "((outa, c2), (out, c)) \<in> measure (\<lambda>(out, c). length (cs_b c))" by simp
qed auto

declare cs_locs_loop.simps [simp del]

definition cs_locs :: "cscan \<Rightarrow> Loc list \<times> cscan" where
  "cs_locs c = (case cs_locs_loop [] (cs_lit ''['' c) of (ls, c) \<Rightarrow> (ls, cs_lit '']'' c))"

subsection \<open>Lines in canonical form\<close>

text \<open>The \<open>switch\<close> over the literals that introduce the operations.\<close>

fun cs_switch :: "(string \<times> (cscan \<Rightarrow> Record \<times> cscan)) list \<Rightarrow> cscan \<Rightarrow> (Record \<times> cscan) option" where
  "cs_switch [] c = None"
| "cs_switch ((s, f) # cs) c = (case cs_try s c of (True, c) \<Rightarrow> Some (f c) | (False, c) \<Rightarrow> cs_switch cs c)"

definition cs_add :: "u64 \<Rightarrow> cscan \<Rightarrow> Record \<times> cscan" where
  "cs_add s c =
    (case cs_str c of (p, c) \<Rightarrow>
     case cs_dec (cs_lit '',\"file_ver\":'' c) of (fv, c) \<Rightarrow>
     case cs_locs (cs_lit '',\"loc\":'' c) of (ls, c) \<Rightarrow>
       ((emptyRecord OpAdd s)\<lparr> rec_Path := p, rec_FileVer := fv, rec_Loc := ls \<rparr>, c))"

definition cs_del :: "u64 \<Rightarrow> cscan \<Rightarrow> Record \<times> cscan" where
  "cs_del s c =
    (case cs_str c of (p, c) \<Rightarrow>
     case cs_dec (cs_lit '',\"file_ver\":'' c) of (fv, c) \<Rightarrow>
       ((emptyRecord OpDel s)\<lparr> rec_Path := p, rec_FileVer := fv \<rparr>, c))"

definition cs_extent :: "u64 \<Rightarrow> cscan \<Rightarrow> Record \<times> cscan" where
  "cs_extent s c =
    (case cs_tx c of (t, c) \<Rightarrow>
     case cs_int 0xFFFFFFFF (cs_lit '',\"extent_sequence\":'' c) of (es, c) \<Rightarrow>
     case cs_locs (cs_lit '',\"loc\":'' c) of (ls, c) \<Rightarrow>
       ((emptyRecord OpAddExtent s)\<lparr> rec_TxID := t, rec_ExtentSequence := ucast es, rec_Loc := ls \<rparr>, c))"

definition cs_begin :: "u64 \<Rightarrow> cscan \<Rightarrow> Record \<times> cscan" where
  "cs_begin s c =
    (case cs_tx c of (t, c) \<Rightarrow>
     case cs_str (cs_lit '',\"path\":'' c) of (p, c) \<Rightarrow>
     case cs_dec (cs_lit '',\"file_ver\":'' c) of (fv, c) \<Rightarrow>
       ((emptyRecord OpAddBegin s)\<lparr> rec_TxID := t, rec_Path := p, rec_FileVer := fv \<rparr>, c))"

definition cs_commit :: "u64 \<Rightarrow> cscan \<Rightarrow> Record \<times> cscan" where
  "cs_commit s c =
    (case cs_tx c of (t, c) \<Rightarrow>
     case cs_int 0xFFFFFFFF (cs_lit '',\"extent_record_count\":'' c) of (rc, c) \<Rightarrow>
     case cs_int 0xFFFFFFFF (cs_lit '',\"extent_count\":'' c) of (ec, c) \<Rightarrow>
       ((emptyRecord OpAddCommit s)\<lparr> rec_TxID := t, rec_ExtentRecordCount := ucast rc, rec_ExtentCount := ucast ec \<rparr>, c))"

definition cs_abort :: "u64 \<Rightarrow> cscan \<Rightarrow> Record \<times> cscan" where
  "cs_abort s c = (case cs_tx c of (t, c) \<Rightarrow> ((emptyRecord OpAddAbort s)\<lparr> rec_TxID := t \<rparr>, c))"

definition cs_record :: "bytes \<Rightarrow> (Record \<times> cscan) option" where
  "cs_record line =
    (let c = cs_lit ''{\"seq\":'' \<lparr> cs_b = line, cs_bad = False \<rparr>
     in case cs_dec c of (s, c) \<Rightarrow>
        let c = cs_lit '',\"op\":\"'' c
        in cs_switch
             [(''ADD\",\"path\":'', cs_add s), (''DEL\",\"path\":'', cs_del s), (''ADD_EXTENT\",\"tx_id\":'', cs_extent s),
              (''ADD_BEGIN\",\"tx_id\":'', cs_begin s), (''ADD_COMMIT\",\"tx_id\":'', cs_commit s),
              (''ADD_ABORT\",\"tx_id\":'', cs_abort s)] c)"

definition decodeCanonical :: "(bytes \<Rightarrow> bool) \<Rightarrow> bytes \<Rightarrow> Record option" where
  "decodeCanonical isNormal line =
    (case cs_record line of
       None \<Rightarrow> None
     | Some (r, c) \<Rightarrow>
         case (case cs_try '',\"ts\":'' c of
                 (True, c) \<Rightarrow> (case cs_dec c of (t, c) \<Rightarrow> (r\<lparr> rec_HasTS := True, rec_TS := t \<rparr>, c))
               | (False, c) \<Rightarrow> (r, c)) of (r, c) \<Rightarrow>
         let c = cs_lit ''}'' c
         in if cs_bad c \<or> cs_b c \<noteq> [] then None
            else case AppendLine isNormal [] r of
              Inl _ \<Rightarrow> None
            | Inr enc \<Rightarrow> if length enc = length line + 1 \<and> take (length line) enc = line then Some r else None)"

definition DecodeLine :: "(bytes \<Rightarrow> bool) \<Rightarrow> bytes \<Rightarrow> bool \<Rightarrow> Record result" where
  "DecodeLine isNormal line encrypted =
    (if length line > MaxLineBytes then json_corrupt
     else if encrypted then decodeGeneric isNormal line encrypted
     else case decodeCanonical isNormal line of
       Some r \<Rightarrow> Inr r
     | None \<Rightarrow> decodeGeneric isNormal line encrypted)"

section \<open>Number and hexadecimal round trips\<close>

lemma is_digit_of_nat: "d < 10 \<Longrightarrow> is_digit (word_of_nat (0x30 + d)) \<and> unat (word_of_nat (0x30 + d) :: byte) = 0x30 + d"
proof -
  assume "d < 10"
  then have "d \<in> set [0..<10]" by simp
  moreover have "list_all (\<lambda>d. is_digit (word_of_nat (0x30 + d)) \<and> unat (word_of_nat (0x30 + d) :: byte) = 0x30 + d) [0..<10]"
    by code_simp
  ultimately show ?thesis unfolding list_all_iff by (rule bspec[rotated])
qed

lemma AppendUint_digits: "list_all is_digit (AppendUint n) \<and> AppendUint n \<noteq> [] \<and> digits_value (AppendUint n) = n"
proof (induction n rule: AppendUint.induct)
  case (1 n)
  show ?case
  proof (cases "n < 10")
    case True
    then show ?thesis
      using is_digit_of_nat[of n] by (subst (1 2 3) AppendUint.simps) (simp add: digits_value_def)
  next
    case False
    then show ?thesis
      using 1[OF False] is_digit_of_nat[of "n mod 10"] by (subst (1 2 3) AppendUint.simps) (simp add: digits_value_def)
  qed
qed

lemma AppendUint_head: "hd (AppendUint n) = 0x30 \<longleftrightarrow> n = 0"
proof (induction n rule: AppendUint.induct)
  case (1 n)
  show ?case
  proof (cases "n < 10")
    case True
    have "(word_of_nat (0x30 + n) :: byte) = 0x30 \<longleftrightarrow> unat (word_of_nat (0x30 + n) :: byte) = 0x30"
      by (simp add: word_unat_eq_iff)
    then show ?thesis using is_digit_of_nat[of n] True by (subst AppendUint.simps) simp
  next
    case False
    have "hd (AppendUint n) = hd (AppendUint (n div 10))"
      using False AppendUint_digits[of "n div 10"] by (subst AppendUint.simps) simp
    then show ?thesis using 1[OF False] False by auto
  qed
qed

lemma AppendUint_canonical: "canonical_number (AppendUint n)"
proof -
  have "n = 0 \<Longrightarrow> length (AppendUint n) = 1" by (simp add: AppendUint.simps)
  then show ?thesis using AppendUint_digits[of n] AppendUint_head[of n] by (simp add: canonical_number_def)
qed

lemma length_AppendUint: "0 < k \<Longrightarrow> n < 10 ^ k \<Longrightarrow> length (AppendUint n) \<le> k"
proof (induction k arbitrary: n)
  case (Suc k)
  show ?case
  proof (cases "n < 10")
    case True
    then show ?thesis by (simp add: AppendUint.simps)
  next
    case False
    moreover have "n div 10 < 10 ^ k" using Suc.prems(2) by (simp add: less_mult_imp_div_less mult.commute)
    moreover have "0 < k" using False Suc.prems(2) by (cases k) auto
    ultimately show ?thesis using Suc.IH[of "n div 10"] by (subst AppendUint.simps) simp
  qed
qed simp

lemma parseDecimal_AppendUint:
  assumes "n < 2 ^ 64"
  shows "parseDecimal (AppendUint n) = Some (word_of_nat n)"
proof -
  have "n < 10 ^ 20" using assms by simp
  then have "length (AppendUint n) \<le> 20" by (rule length_AppendUint[rotated]) simp
  moreover have "AppendUint n ! 0 = hd (AppendUint n)" using AppendUint_digits[of n] by (simp add: hd_conv_nth)
  ultimately show ?thesis
    using AppendUint_digits[of n] AppendUint_canonical[of n] assms
    by (auto simp: parseDecimal_def canonical_number_def Let_def)
qed

lemma decV_appendDec [simp]: "decV (JString (AppendUint (unat (v :: u64)))) f = Inr v"
  using parseDecimal_AppendUint[of "unat v"] unsigned_less[of v, where ?'a = nat] by (simp add: decV_def)

lemma intV_AppendUint:
  assumes "n \<le> unat (mx :: u64)"
  shows "intV (JNumber (AppendUint n)) f mx = Inr (word_of_nat n)"
proof -
  have "n < 2 ^ 64" using assms unsigned_less[of mx, where ?'a = nat] by simp
  then have "unat (word_of_nat n :: u64) = n" by (rule unat_of_nat_u64)
  then show ?thesis
    using parseDecimal_AppendUint[OF \<open>n < 2 ^ 64\<close>] assms by (simp add: intV_def word_less_nat_alt)
qed

lemma hexd_lower: "d < 16 \<Longrightarrow> is_lower_hex (hexd d) \<and> hexVal (hexd d) = Some d"
proof -
  assume "d < 16"
  then have "d \<in> set [0..<16]" by simp
  moreover have "list_all (\<lambda>d. is_lower_hex (hexd d) \<and> hexVal (hexd d) = Some d) [0..<16]" by code_simp
  ultimately show ?thesis unfolding list_all_iff by (rule bspec[rotated])
qed

lemma hexd_byte:
  "is_lower_hex (hexd (unat (c :: byte) div 16))" "is_lower_hex (hexd (unat c mod 16))"
  "hexVal (hexd (unat c div 16)) = Some (unat c div 16)" "hexVal (hexd (unat c mod 16)) = Some (unat c mod 16)"
  using hexd_lower[of "unat c div 16"] hexd_lower[of "unat c mod 16"] unat_byte_lt[of c] by auto

lemma EncodeToString_lower: "list_all is_lower_hex (EncodeToString b) \<and> length (EncodeToString b) = 2 * length b"
  by (induction b) (simp_all add: EncodeToString_def hexd_byte)

lemma DecodeString_EncodeToString: "DecodeString (EncodeToString b) = Some b"
  by (induction b) (simp_all add: EncodeToString_def hexd_byte)

lemma lowerHex_EncodeToString: "length b = n \<Longrightarrow> lowerHex (EncodeToString b) n = Some b"
  using EncodeToString_lower[of b] by (simp add: lowerHex_def DecodeString_EncodeToString)

lemma hexV_EncodeToString: "length b = n \<Longrightarrow> hexV n (JString (EncodeToString b)) f = Inr b"
  by (simp add: hexV_def lowerHex_EncodeToString)

section \<open>A record as a JSON value\<close>

lemma ascii_eq_iff [simp]: "ascii s = ascii t \<longleftrightarrow> s = t"
proof -
  have "inj (\<lambda>c :: char. word_of_nat (of_char c) :: byte)"
  proof (rule injI)
    fix c d :: char assume "(word_of_nat (of_char c) :: byte) = word_of_nat (of_char d)"
    then have "of_char c = (of_char d :: nat)"
      by (simp add: word_of_nat_eq_iff take_bit_nat_eq_self)
    then show "c = d" by simp
  qed
  then show ?thesis by (simp add: ascii_def inj_map_eq_map)
qed

definition locTree :: "Loc \<Rightarrow> jvalue" where
  "locTree l = JArray [JNumber (AppendUint (unat (loc_Blob l))), JString (EncodeToString (loc_Hash l)),
     JString (AppendUint (unat (loc_Offset l))), JString (AppendUint (unat (loc_Length l)))]"

definition memberTree :: "Member \<Rightarrow> jvalue" where
  "memberTree m = JArray [JNumber (AppendUint (unat (mem_Blob m))), JString (EncodeToString (mem_Hash m)),
     JNumber (AppendUint (unat (mem_GroupIndex m)))]"

definition fieldTrees :: "Record \<Rightarrow> (string \<times> jvalue) list" where
  "fieldTrees r =
    (case rec_Op r of
       OpAdd \<Rightarrow> [(''path'', JString (rec_Path r)), (''file_ver'', JString (AppendUint (unat (rec_FileVer r)))),
         (''loc'', JArray (map locTree (rec_Loc r)))]
     | OpDel \<Rightarrow> [(''path'', JString (rec_Path r)), (''file_ver'', JString (AppendUint (unat (rec_FileVer r))))]
     | OpAddBegin \<Rightarrow> [(''tx_id'', JString (EncodeToString (rec_TxID r))), (''path'', JString (rec_Path r)),
         (''file_ver'', JString (AppendUint (unat (rec_FileVer r))))]
     | OpAddExtent \<Rightarrow> [(''tx_id'', JString (EncodeToString (rec_TxID r))),
         (''extent_sequence'', JNumber (AppendUint (unat (rec_ExtentSequence r)))), (''loc'', JArray (map locTree (rec_Loc r)))]
     | OpAddCommit \<Rightarrow> [(''tx_id'', JString (EncodeToString (rec_TxID r))),
         (''extent_record_count'', JNumber (AppendUint (unat (rec_ExtentRecordCount r)))),
         (''extent_count'', JNumber (AppendUint (unat (rec_ExtentCount r))))]
     | OpAddAbort \<Rightarrow> [(''tx_id'', JString (EncodeToString (rec_TxID r)))]
     | OpLinkManifest \<Rightarrow> [(''path'', JString (rec_Path r)), (''hash_id'', JNumber (AppendUint (unat (rec_HashID r)))),
         (''hash'', JString (EncodeToString (rec_Hash r))), (''lines'', JString (AppendUint (unat (rec_Lines r))))]
     | OpParityGroup \<Rightarrow> [(''group_id'', JNumber (AppendUint (unat (rec_GroupID r)))),
         (''members'', JArray (map memberTree (rec_Members r)))]
     | OpOther \<Rightarrow> [])"

definition trees :: "Record \<Rightarrow> (string \<times> jvalue) list" where
  "trees r = [(''seq'', JString (AppendUint (unat (rec_Seq r)))), (''op'', JString (ascii (Op_String (rec_Op r))))] @
     fieldTrees r @ (if rec_HasTS r then [(''ts'', JString (AppendUint (unat (rec_TS r))))] else [])"

definition tree :: "Record \<Rightarrow> jvalue" where
  "tree r = JObject (map (\<lambda>(k, v). (ascii k, v)) (trees r))"

text \<open>Bytes that need no escape.\<close>

definition plain_byte :: "byte \<Rightarrow> bool" where
  "plain_byte c \<longleftrightarrow> c \<noteq> 0x22 \<and> c \<noteq> 0x5C \<and> \<not> c < 0x20 \<and> c < 0x80"

lemma appendString_plain: "list_all plain_byte s \<Longrightarrow> appendString s = 0x22 # s @ [0x22]"
proof -
  have "list_all plain_byte s \<Longrightarrow> concat (map escape_byte s) = s"
    by (induction s) (auto simp: escape_byte_def plain_byte_def)
  then show "list_all plain_byte s \<Longrightarrow> ?thesis" by (simp add: appendString_def)
qed

lemma ValidString_plain: "list_all plain_byte s \<Longrightarrow> ValidString s"
  using ValidString_ascii_append[of s "[]"] by (simp add: list_all_iff plain_byte_def)

lemma plain_digits: "list_all is_digit s \<Longrightarrow> list_all plain_byte s"
  by (auto simp: list_all_iff is_digit_def plain_byte_def word_le_nat_alt word_less_nat_alt)

lemma plain_hex: "list_all is_lower_hex s \<Longrightarrow> list_all plain_byte s"
  by (auto simp: list_all_iff is_lower_hex_def plain_byte_def word_le_nat_alt word_less_nat_alt)

lemmas plain_AppendUint = plain_digits[OF AppendUint_digits[THEN conjunct1]]
lemmas plain_EncodeToString = plain_hex[OF EncodeToString_lower[THEN conjunct1]]

lemma plain_op: "list_all plain_byte (ascii (Op_String op))"
proof -
  have "list_all (\<lambda>op. list_all plain_byte (ascii (Op_String op))) (OpOther # all_ops)" by code_simp
  then show ?thesis by (cases op) (simp_all add: all_ops_def)
qed

lemma commas_Cons: "commas (x # xs) = x @ concat (map (\<lambda>y. 0x2C # y) xs)"
  by (induction xs arbitrary: x) simp_all

definition line_keys :: "string list" where
  "line_keys = [''seq'', ''op'', ''path'', ''file_ver'', ''loc'', ''tx_id'', ''extent_sequence'', ''extent_record_count'',
     ''extent_count'', ''hash_id'', ''hash'', ''lines'', ''group_id'', ''members'', ''ts'']"

lemma plain_keys: "k \<in> set line_keys \<Longrightarrow> list_all plain_byte (ascii k)"
proof -
  have "list_all (\<lambda>k. list_all plain_byte (ascii k)) line_keys" by code_simp
  then show "k \<in> set line_keys \<Longrightarrow> ?thesis" by (simp add: list_all_iff)
qed

lemma trees_keys: "fst ` set (trees r) \<subseteq> set line_keys"
  by (cases "rec_Op r"; cases "rec_HasTS r") (simp_all add: trees_def fieldTrees_def line_keys_def)

lemma render_strings:
  "render (JString (AppendUint n)) = 0x22 # AppendUint n @ [0x22]"
  "render (JString (EncodeToString b)) = 0x22 # EncodeToString b @ [0x22]"
  "appendString (EncodeToString b) = 0x22 # EncodeToString b @ [0x22]"
  "render (JString (ascii (Op_String op))) = 0x22 # ascii (Op_String op) @ [0x22]"
  by (simp_all add: appendString_plain plain_AppendUint plain_EncodeToString plain_op)

lemma render_locTree: "render (locTree l) = appendLoc l"
  by (simp add: locTree_def appendLoc_def appendDec_def render_strings del: render.simps(1) add: render.simps(2))

lemma render_memberTree: "render (memberTree m) = appendMember m"
  by (simp add: memberTree_def appendMember_def render_strings del: render.simps(1))

definition render_member :: "string \<times> jvalue \<Rightarrow> bytes" where
  "render_member m = 0x2C # appendString (ascii (fst m)) @ 0x3A # render (snd m)"

lemma render_member_key:
  "k \<in> set line_keys \<Longrightarrow> render_member (k, v) = appendKey k @ render v"
  using plain_keys[of k] by (simp add: render_member_def appendKey_def appendString_plain)

lemma ascii_literals:
  "ascii '',\"loc\":['' = appendKey ''loc'' @ [0x5B]" "ascii '',\"members\":['' = appendKey ''members'' @ [0x5B]"
  "ascii ''{\"seq\":'' = 0x7B # tl (appendKey ''seq'')" "ascii '',\"op\":\"'' = appendKey ''op'' @ [0x22]"
  by (simp_all add: ascii_def appendKey_def)

lemma render_fieldTrees: "concat (map render_member (fieldTrees r)) = appendFields r"
proof (cases "rec_Op r")
qed (simp_all add: fieldTrees_def appendFields_def render_member_key line_keys_def appendStrField_def appendDecField_def
    appendIntField_def appendLocs_def ascii_literals render_locTree render_memberTree appendDec_def
    render_strings comp_def del: render.simps(1) add: render.simps(1)[of "rec_Path r"])

lemma render_tree: "render (tree r) = line_of r"
proof -
  let ?m = "\<lambda>(k, v). appendString k @ 0x3A # render v"
  have body: "commas (map ?m (map (\<lambda>(k, v). (ascii k, v)) (t # ts))) = tl (concat (map render_member (t # ts)))" for t ts
    by (simp add: commas_Cons render_member_def[abs_def] comp_def case_prod_beta)
  have "render (tree r) = 0x7B # tl (concat (map render_member (trees r))) @ [0x7D]"
    by (simp add: tree_def trees_def body del: map_map list.map)
  also have "\<dots> = line_of r"
    by (simp add: trees_def render_fieldTrees line_of_def render_member_key line_keys_def ascii_literals appendKey_def
        appendDec_def render_strings appendDecField_def del: render.simps)
  finally show ?thesis .
qed

section \<open>Reading a written record\<close>

text \<open>The arrays of a record have their length; a record whose unused fields are zero is its own image.\<close>

definition arrays_ok :: "Record \<Rightarrow> bool" where
  "arrays_ok r \<longleftrightarrow> length (rec_TxID r) = 16 \<and> length (rec_Hash r) = 32 \<and>
     (\<forall>l \<in> set (rec_Loc r). length (loc_Hash l) = 32) \<and> (\<forall>m \<in> set (rec_Members r). length (mem_Hash m) = 32)"

definition meaningful :: "Record \<Rightarrow> Record" where
  "meaningful r =
    (let e = (emptyRecord (rec_Op r) (rec_Seq r))\<lparr> rec_HasTS := rec_HasTS r, rec_TS := (if rec_HasTS r then rec_TS r else 0) \<rparr>
     in case rec_Op r of
       OpAdd \<Rightarrow> e\<lparr> rec_Path := rec_Path r, rec_FileVer := rec_FileVer r, rec_Loc := rec_Loc r \<rparr>
     | OpDel \<Rightarrow> e\<lparr> rec_Path := rec_Path r, rec_FileVer := rec_FileVer r \<rparr>
     | OpAddBegin \<Rightarrow> e\<lparr> rec_TxID := rec_TxID r, rec_Path := rec_Path r, rec_FileVer := rec_FileVer r \<rparr>
     | OpAddExtent \<Rightarrow> e\<lparr> rec_TxID := rec_TxID r, rec_ExtentSequence := rec_ExtentSequence r, rec_Loc := rec_Loc r \<rparr>
     | OpAddCommit \<Rightarrow> e\<lparr> rec_TxID := rec_TxID r, rec_ExtentRecordCount := rec_ExtentRecordCount r,
         rec_ExtentCount := rec_ExtentCount r \<rparr>
     | OpAddAbort \<Rightarrow> e\<lparr> rec_TxID := rec_TxID r \<rparr>
     | OpLinkManifest \<Rightarrow> e\<lparr> rec_Path := rec_Path r, rec_HashID := rec_HashID r, rec_Hash := rec_Hash r, rec_Lines := rec_Lines r \<rparr>
     | OpParityGroup \<Rightarrow> e\<lparr> rec_GroupID := rec_GroupID r, rec_Members := rec_Members r \<rparr>
     | OpOther \<Rightarrow> e)"

lemma writable_leaf: "d \<le> maxDepth \<Longrightarrow> writable d (JNumber (AppendUint n))"
  by (simp add: AppendUint_canonical)

lemma writable_tree: "writable 0 (tree r)"
proof -
  have d: "distinct (map fst (trees r))"
    by (cases "rec_Op r"; cases "rec_HasTS r") (simp_all add: trees_def fieldTrees_def)
  have "writable 2 (locTree l)" "writable 2 (memberTree m)" for l m
    by (simp_all add: locTree_def memberTree_def AppendUint_canonical)
  then have "writable 1 v" if "(k, v) \<in> set (trees r)" for k v
    using that by (cases "rec_Op r") (auto simp: trees_def fieldTrees_def AppendUint_canonical numeral_2_eq_2 split: if_splits)
  moreover have "distinct (map ascii (map fst (trees r)))" using d by (simp add: distinct_map inj_on_def)
  ultimately show ?thesis
    by (auto simp: tree_def comp_def case_prod_beta)
qed

lemma Validate_ValidString: "Validate isNormal p = Inr () \<Longrightarrow> ValidString p"
  by (auto simp: Validate_def invalid_def ValidString_def split: if_splits option.splits)

lemma isl_unit: "\<not> isl x \<longleftrightarrow> x = Inr ()" for x :: "unit result"
  by (cases x) simp_all

lemma validate_iff:
  "validate isNormal r = Inr () \<longleftrightarrow> rec_Op r \<in> set all_ops \<and>
     (rec_Op r \<in> {OpAdd, OpDel, OpAddBegin, OpLinkManifest} \<longrightarrow> Validate isNormal (rec_Path r) = Inr ()) \<and>
     (rec_Op r \<in> {OpAdd, OpAddExtent} \<longrightarrow> rec_Loc r \<noteq> [] \<and> (\<forall>l \<in> set (rec_Loc r). loc_Blob l \<le> MaxBlobOrdinal)) \<and>
     (rec_Op r = OpLinkManifest \<longrightarrow> beneathSubmanifests (rec_Path r)) \<and>
     (rec_Op r = OpParityGroup \<longrightarrow> rec_Members r \<noteq> [] \<and> (\<forall>m \<in> set (rec_Members r). mem_Blob m \<le> MaxBlobOrdinal))"
  by (cases "rec_Op r")
    (auto simp: validate_def line_invalid_def all_ops_def list_ex_iff linorder_not_less[symmetric] simp flip: isl_unit)

lemma validate_op: "validate isNormal r = Inr () \<Longrightarrow> rec_Op r \<noteq> OpOther"
  by (cases "rec_Op r = OpOther") (simp_all add: validate_def all_ops_def line_invalid_def)

lemma validate_path: "validate isNormal r = Inr () \<Longrightarrow> rec_Op r \<in> {OpAdd, OpDel, OpAddBegin, OpLinkManifest} \<Longrightarrow>
    Validate isNormal (rec_Path r) = Inr ()"
  by (auto simp: validate_iff)

lemma utf8_tree: "validate isNormal r = Inr () \<Longrightarrow> utf8_strings (tree r)"
proof -
  assume v: "validate isNormal r = Inr ()"
  have p: "ValidString (rec_Path r)" if "rec_Op r \<in> {OpAdd, OpDel, OpAddBegin, OpLinkManifest}"
    using validate_path[OF v that] by (rule Validate_ValidString)
  have "utf8_strings (locTree l)" "utf8_strings (memberTree m)" for l m
    by (simp_all add: locTree_def memberTree_def ValidString_plain plain_AppendUint plain_EncodeToString)
  then have "utf8_strings w" if "(k, w) \<in> set (trees r)" for k w
    using that p by (cases "rec_Op r")
      (auto simp: trees_def fieldTrees_def ValidString_plain plain_AppendUint plain_EncodeToString plain_op
        simp del: Op_String.simps split: if_splits)
  moreover have "ValidString (ascii k)" if "(k, w) \<in> set (trees r)" for k w
    using that trees_keys[of r] by (intro ValidString_plain plain_keys) force
  ultimately show ?thesis by (auto simp: tree_def)
qed

lemma ucast_back [simp]: "ucast (ucast (x :: byte) :: u64) = x" "ucast (ucast (y :: u32) :: u64) = y"
  by (rule bit_word_eqI, simp add: bit_ucast_iff)+

lemma locs_loop_trees:
  assumes "\<forall>l \<in> set ls. length (loc_Hash l) = 32 \<and> loc_Blob l \<le> MaxBlobOrdinal"
  shows "locs_loop f out (map locTree ls) = Inr (out @ ls)"
  using assms
proof (induction ls arbitrary: out)
  case (Cons l ls)
  then have "unat (loc_Blob l) \<le> unat (0xFE :: u64)" by (simp add: word_le_nat_alt)
  then show ?case
    using Cons by (simp add: locTree_def intV_AppendUint hexV_EncodeToString)
qed simp

lemma members_loop_trees:
  assumes "\<forall>m \<in> set ms. length (mem_Hash m) = 32 \<and> mem_Blob m \<le> MaxBlobOrdinal"
  shows "members_loop f out (map memberTree ms) = Inr (out @ ms)"
  using assms
proof (induction ms arbitrary: out)
  case (Cons m ms)
  then have "unat (mem_Blob m) \<le> unat (0xFE :: u64)" by (simp add: word_le_nat_alt)
  moreover have "unat (mem_GroupIndex m) \<le> unat (255 :: u64)" using unat_byte_lt[of "mem_GroupIndex m"] by simp
  ultimately show ?case
    using Cons by (simp add: memberTree_def intV_AppendUint hexV_EncodeToString)
qed simp

lemma locsV_trees:
  "ls \<noteq> [] \<Longrightarrow> \<forall>l \<in> set ls. length (loc_Hash l) = 32 \<and> loc_Blob l \<le> MaxBlobOrdinal \<Longrightarrow>
   locsV (JArray (map locTree ls)) f = Inr ls"
  using locs_loop_trees[of ls f "[]"] by (cases ls) (simp_all add: locsV_def)

lemma membersV_trees:
  "ms \<noteq> [] \<Longrightarrow> \<forall>m \<in> set ms. length (mem_Hash m) = 32 \<and> mem_Blob m \<le> MaxBlobOrdinal \<Longrightarrow>
   membersV (JArray (map memberTree ms)) f = Inr ms"
  using members_loop_trees[of ms f "[]"] by (cases ms) (simp_all add: membersV_def)

lemma pathV_valid: "Validate isNormal p = Inr () \<Longrightarrow> pathV isNormal (JString p) f = Inr p"
  by (simp add: pathV_def)

lemma intV_u32 [simp]: "intV (JNumber (AppendUint (unat (v :: u32)))) f 0xFFFFFFFF = Inr (ucast v)"
  using intV_AppendUint[of "unat v" "0xFFFFFFFF" f] unsigned_less[of v, where ?'a = nat] by simp

lemma intV_u8 [simp]: "intV (JNumber (AppendUint (unat (v :: byte)))) f 255 = Inr (ucast v)"
  using intV_AppendUint[of "unat v" "255" f] unat_byte_lt[of v] by simp

lemma map_of_ascii: "map_of (map (\<lambda>(k, v). (ascii k, v)) ts) (ascii k) = map_of ts k"
  by (induction ts) auto

lemma map_of_ascii_rev: "map_of (rev (map (\<lambda>(k, v). (ascii k, v)) ts)) (ascii k) = map_of (rev ts) k"
  using map_of_ascii[of "rev ts" k] by (simp add: rev_map)

lemma findOp_trees:
  "findOp (map (\<lambda>(k, v). (ascii k, v)) (trees r)) [] = Inr (ascii (Op_String (rec_Op r)))"
  by (cases "rec_Op r"; cases "rec_HasTS r") (simp_all add: trees_def fieldTrees_def)

lemma opByName_op: "op \<noteq> OpOther \<Longrightarrow> opByName (ascii (Op_String op)) = Some op \<and> ascii (Op_String op) \<noteq> [] \<and>
    ascii (Op_String op) \<notin> set encOps"
  by (cases op) (simp_all add: opByName_def all_ops_def encOps_def, simp_all add: ascii_def)

lemma decode_fields_trees:
  assumes "validate isNormal r = Inr ()" "arrays_ok r"
  shows "decode_fields isNormal (rec_Op r) (\<lambda>k. case map_of (rev (trees r)) k of Some v \<Rightarrow> v | None \<Rightarrow> JNull)
    ((emptyRecord (rec_Op r) (rec_Seq r))\<lparr> rec_HasTS := rec_HasTS r, rec_TS := (if rec_HasTS r then rec_TS r else 0) \<rparr>) =
    Inr (meaningful r)"
proof -
  note p = pathV_valid[OF validate_path[OF assms(1)]]
  have l: "locsV (JArray (map locTree (rec_Loc r))) f = Inr (rec_Loc r)" if "rec_Op r = OpAdd \<or> rec_Op r = OpAddExtent" for f
    using assms that by (intro locsV_trees) (auto simp: validate_iff arrays_ok_def)
  have m: "membersV (JArray (map memberTree (rec_Members r))) f = Inr (rec_Members r)" if "rec_Op r = OpParityGroup" for f
    using assms that by (intro membersV_trees) (auto simp: validate_iff arrays_ok_def)
  have b: "beneathSubmanifests (rec_Path r)" if "rec_Op r = OpLinkManifest"
    using assms that by (simp add: validate_iff)
  have t: "length (rec_TxID r) = 16" "length (rec_Hash r) = 32" using assms(2) by (simp_all add: arrays_ok_def)
  show ?thesis
    by (cases "rec_Op r"; cases "rec_HasTS r")
      (simp_all add: decode_fields_def trees_def fieldTrees_def meaningful_def Let_def p l m b t hexV_EncodeToString)
qed

lemma trees_required: "k \<in> set (fieldOrder (rec_Op r)) \<Longrightarrow> k \<in> fst ` set (trees r)"
  by (cases "rec_Op r") (auto simp: trees_def fieldTrees_def)

lemma trees_allowed: "rec_Op r \<noteq> OpOther \<Longrightarrow> m \<in> set (trees r) \<Longrightarrow> fst m = ''ts'' \<or> fst m \<in> set (fieldOrder (rec_Op r))"
  by (cases "rec_Op r") (auto simp: trees_def fieldTrees_def split: if_splits)

lemma trees_ts: "''ts'' \<in> fst ` set (trees r) \<longleftrightarrow> rec_HasTS r"
  by (cases "rec_Op r") (auto simp: trees_def fieldTrees_def)

lemma trees_seq_ts:
  "map_of (rev (trees r)) ''seq'' = Some (JString (AppendUint (unat (rec_Seq r))))"
  "rec_HasTS r \<Longrightarrow> map_of (rev (trees r)) ''ts'' = Some (JString (AppendUint (unat (rec_TS r))))"
  by (cases "rec_Op r"; cases "rec_HasTS r"; simp add: trees_def fieldTrees_def)+

lemma decode_object_tree:
  assumes "validate isNormal r = Inr ()" "arrays_ok r"
  shows "decode_object isNormal (rec_Op r) (map (\<lambda>(k, v). (ascii k, v)) (trees r)) = Inr (meaningful r)"
proof -
  let ?obj = "map (\<lambda>(k, v). (ascii k, v)) (trees r)"
  have op: "rec_Op r \<noteq> OpOther" using validate_op[OF assms(1)] .
  have f: "field_of ?obj = (\<lambda>k. case map_of (rev (trees r)) k of Some v \<Rightarrow> v | None \<Rightarrow> JNull)"
    by (simp add: field_of_def[abs_def] map_of_ascii_rev)
  have keys: "fst ` set ?obj = ascii ` fst ` set (trees r)" by force
  have mem: "ascii k \<in> fst ` set ?obj \<longleftrightarrow> k \<in> fst ` set (trees r)" for k
    unfolding keys by (simp only: inj_image_mem_iff inj_def ascii_eq_iff simp_thms)
  have allowed: "\<not> list_ex (\<lambda>m. fst m \<notin> set (ascii ''ts'' # map ascii (fieldOrder (rec_Op r)))) ?obj"
    using trees_allowed[OF op] by (fastforce simp: list_ex_iff)
  have required: "\<not> list_ex (\<lambda>k. ascii k \<notin> fst ` set ?obj) (fieldOrder (rec_Op r))"
    unfolding mem using trees_required by (auto simp: list_ex_iff)
  have "(if ascii ''ts'' \<in> fst ` set ?obj
      then andThen (decV (field_of ?obj ''ts'') ''ts'') (\<lambda>t. Inr ((emptyRecord (rec_Op r) (rec_Seq r))\<lparr> rec_HasTS := True, rec_TS := t \<rparr>))
      else Inr (emptyRecord (rec_Op r) (rec_Seq r))) =
    Inr ((emptyRecord (rec_Op r) (rec_Seq r))\<lparr> rec_HasTS := rec_HasTS r, rec_TS := (if rec_HasTS r then rec_TS r else 0) \<rparr>)"
    unfolding mem by (simp add: trees_ts f trees_seq_ts) (simp add: emptyRecord_def)
  moreover have "decV (field_of ?obj ''seq'') ''seq'' = Inr (rec_Seq r)" by (simp add: f trees_seq_ts)
  ultimately show ?thesis
    using decode_fields_trees[OF assms] allowed required unfolding decode_object_def Let_def f by simp
qed

lemma decodeGeneric_line:
  assumes "validate isNormal r = Inr ()" "arrays_ok r"
  shows "decodeGeneric isNormal (line_of r) False = Inr (meaningful r)"
proof -
  have "parseJSON (line_of r) = Inr (tree r)"
    using parseJSON_render[OF writable_tree utf8_tree[OF assms(1)]] by (simp add: render_tree)
  moreover have "rec_Op r \<noteq> OpOther" using validate_op[OF assms(1)] .
  ultimately show ?thesis
    using opByName_op[of "rec_Op r"] decode_object_tree[OF assms]
    by (simp add: decodeGeneric_def tree_def findOp_trees)
qed

section \<open>The fast path agrees with the strict one\<close>

lemma length_hex_loop: "length (fst (hex_loop k r)) = k"
proof (induction k r rule: hex_loop.induct)
  case (2 k a b r)
  show ?case
  proof (cases "unhexLower a = None \<or> unhexLower b = None")
    case False
    then obtain hi lo where "unhexLower a = Some hi" "unhexLower b = Some lo" by auto
    then show ?thesis using "2.IH" by (cases "hex_loop k r") simp
  qed (auto split: option.splits)
qed simp_all

lemma length_cs_hexInto: "cs_hexInto n c = (h, c') \<Longrightarrow> length h = n"
  using length_hex_loop[of n "cs_b c"] by (auto simp: cs_hexInto_def split: if_splits prod.splits)

lemma length_cs_tx: "cs_tx c = (t, c') \<Longrightarrow> length t = 16"
  by (auto simp: cs_tx_def split: prod.splits dest: length_cs_hexInto)

lemma length_cs_loc: "cs_loc c = (l, c') \<Longrightarrow> length (loc_Hash l) = 32"
  by (auto simp: cs_loc_def split: prod.splits dest: length_cs_hexInto)

lemma length_cs_locs_loop:
  "cs_locs_loop out c = (ls, c') \<Longrightarrow> \<forall>l \<in> set out. length (loc_Hash l) = 32 \<Longrightarrow> \<forall>l \<in> set ls. length (loc_Hash l) = 32"
proof (induction out c rule: cs_locs_loop.induct)
  case (1 out c)
  show ?case
  proof (cases "cs_bad c")
    case True
    then show ?thesis using "1.prems" by (simp add: cs_locs_loop.simps[of out c])
  next
    case False
    obtain l c1 where l: "cs_loc c = (l, c1)" by (rule prod.exhaust)
    obtain b c2 where b: "cs_try '','' c1 = (b, c2)" by (rule prod.exhaust)
    have out: "\<forall>l \<in> set (out @ [l]). length (loc_Hash l) = 32" using "1.prems"(2) length_cs_loc[OF l] by simp
    show ?thesis
      using "1.prems"(1) "1.IH"[OF False l[symmetric] refl b[symmetric]] out False l b
      by (cases b) (simp_all add: cs_locs_loop.simps[of out c])
  qed
qed

lemma length_cs_locs: "cs_locs c = (ls, c') \<Longrightarrow> \<forall>l \<in> set ls. length (loc_Hash l) = 32"
  by (auto simp: cs_locs_def split: prod.splits dest: length_cs_locs_loop)

text \<open>What the scanner builds has zero in the fields its operation does not use.\<close>

definition shaped_record :: "Record \<Rightarrow> bool" where
  "shaped_record r \<longleftrightarrow> meaningful r = r \<and> arrays_ok r"

lemma cs_shapes:
  "shaped_record (fst (cs_add s c))" "shaped_record (fst (cs_del s c))" "shaped_record (fst (cs_extent s c))"
  "shaped_record (fst (cs_begin s c))" "shaped_record (fst (cs_commit s c))" "shaped_record (fst (cs_abort s c))"
  using length_cs_locs length_cs_tx
  by (auto simp: shaped_record_def arrays_ok_def meaningful_def emptyRecord_def Let_def cs_add_def cs_del_def cs_extent_def
      cs_begin_def cs_commit_def cs_abort_def split: prod.splits)

lemma cs_switch_shape:
  "cs_switch cs c = Some (r, c') \<Longrightarrow> (\<And>s f c. (s, f) \<in> set cs \<Longrightarrow> shaped_record (fst (f c))) \<Longrightarrow> shaped_record r"
proof (induction cs c rule: cs_switch.induct)
  case (2 s f cs c)
  obtain b c1 where b: "cs_try s c = (b, c1)" by (rule prod.exhaust)
  show ?case
  proof (cases b)
    case True
    then show ?thesis using "2.prems"(1) "2.prems"(2)[of s f c1] b by simp
  next
    case False
    then show ?thesis using 2 b by auto
  qed
qed simp

lemma cs_record_shape: "cs_record line = Some (r, c) \<Longrightarrow> shaped_record r"
proof -
  assume "cs_record line = Some (r, c)"
  then obtain cs c1 where "cs_switch cs c1 = Some (r, c)" "\<And>s f c. (s, f) \<in> set cs \<Longrightarrow> shaped_record (fst (f c))"
  proof -
    obtain s c0 where s: "cs_dec (cs_lit ''{\"seq\":'' \<lparr> cs_b = line, cs_bad = False \<rparr>) = (s, c0)" by (rule prod.exhaust)
    show ?thesis
      using \<open>cs_record line = Some (r, c)\<close> unfolding cs_record_def Let_def s prod.case
      by (rule that) (auto simp: cs_shapes)
  qed
  then show ?thesis by (rule cs_switch_shape)
qed

lemma shaped_record_ts:
  assumes "shaped_record r"
  shows "shaped_record (r\<lparr> rec_HasTS := True, rec_TS := t \<rparr>)"
  using assms
  by (cases r; cases "rec_Op r") (auto simp: shaped_record_def arrays_ok_def meaningful_def emptyRecord_def Let_def)

lemma decodeCanonical_line:
  assumes "decodeCanonical isNormal line = Some r"
  shows "line = line_of r" "validate isNormal r = Inr ()" "shaped_record r"
proof -
  obtain r0 c where c: "cs_record line = Some (r0, c)"
    using assms by (auto simp: decodeCanonical_def split: option.splits)
  obtain b c1 where b: "cs_try '',\"ts\":'' c = (b, c1)" by (rule prod.exhaust)
  obtain t c2 where t: "cs_dec c1 = (t, c2)" by (rule prod.exhaust)
  have r: "r = (if b then r0\<lparr> rec_HasTS := True, rec_TS := t \<rparr> else r0)"
    and enc: "\<exists>enc. AppendLine isNormal [] r = Inr enc \<and> length enc = length line + 1 \<and> take (length line) enc = line"
    using assms by (auto simp: decodeCanonical_def c b t Let_def split: bool.splits if_splits sum.splits)
  show "shaped_record r" using r cs_record_shape[OF c] shaped_record_ts by simp
  show v: "validate isNormal r = Inr ()"
    using enc by (cases "validate isNormal r") (auto simp: AppendLine_def)
  then have "AppendLine isNormal [] r = Inr (line_of r @ [0x0A])"
    using enc by (auto simp: AppendLine_def split: if_splits)
  then show "line = line_of r" using enc by auto
qed

text \<open>No byte of a line is a control character, so the line feed behind it is the only one.\<close>

definition printable :: "bytes \<Rightarrow> bool" where
  "printable s \<longleftrightarrow> list_all (\<lambda>c. 0x20 \<le> c) s"

lemma printable_simps [simp]:
  "printable []" "printable (c # s) \<longleftrightarrow> 0x20 \<le> c \<and> printable s" "printable (s @ t) \<longleftrightarrow> printable s \<and> printable t"
  by (simp_all add: printable_def)

lemma printable_plain: "list_all plain_byte s \<Longrightarrow> printable s"
  by (auto simp: printable_def list_all_iff plain_byte_def)

lemma printable_commas: "(\<And>x. x \<in> set xs \<Longrightarrow> printable x) \<Longrightarrow> printable (commas xs)"
  by (induction xs rule: commas.induct) simp_all

lemma printable_appendString: "printable (appendString s)"
proof -
  have "list_all (\<lambda>n. printable (escape_byte (word_of_nat n))) [0..<32]" by code_simp
  then have "printable (escape_byte c)" if "c < 0x20" for c
    using small_byte_cases[OF that] by (auto simp: list_all_iff)
  moreover have "printable (escape_byte c)" if "\<not> c < 0x20" for c
    using that by (auto simp: escape_byte_def not_less)
  ultimately have "printable (escape_byte c)" for c by blast
  then have "printable (concat (map escape_byte s))" by (induction s) simp_all
  then show ?thesis by (simp add: appendString_def)
qed

lemma printable_literals:
  "k \<in> set line_keys \<Longrightarrow> printable (ascii k)" "printable (ascii (Op_String op))"
  "printable (ascii ''{\"seq\":'')" "printable (ascii '',\"op\":\"'')" "printable (ascii '',\"loc\":['')"
  "printable (ascii '',\"members\":['')"
  using plain_keys plain_op by (auto intro: printable_plain) (code_simp)+

lemmas printable_numbers [simp] = printable_plain[OF plain_AppendUint] printable_plain[OF plain_EncodeToString]

lemma printable_appends:
  "printable (appendDec v)" "printable (appendLoc l)" "printable (appendMember m)" "printable (appendLocs ls)"
  "k \<in> set line_keys \<Longrightarrow> printable (appendKey k)"
  using printable_literals by (auto simp: appendDec_def appendLoc_def appendMember_def appendLocs_def appendKey_def intro!: printable_commas)

lemma printable_fields: "printable (appendFields r)"
  by (cases "rec_Op r")
    (auto simp: appendFields_def appendDecField_def appendIntField_def appendStrField_def line_keys_def
      printable_appends printable_literals printable_appendString intro!: printable_commas)

lemma printable_line: "printable (line_of r)"
  by (simp add: line_of_def printable_fields printable_literals printable_appends appendDecField_def line_keys_def)

lemma line_without_LF: "0x0A \<notin> set (line_of r)"
  using printable_line[of r] by (auto simp: printable_def list_all_iff)

section \<open>What is read can be written\<close>

lemma andThen_Inr: "andThen x f = Inr y \<longleftrightarrow> (\<exists>z. x = Inr z \<and> f z = Inr y)"
  by (cases x) auto

lemma fail_Inr [simp]: "decoder_fail f \<noteq> Inr x" "json_corrupt \<noteq> Inr y"
  by (simp_all add: decoder_fail_def json_corrupt_def errf_def)

lemma pathV_Inr: "pathV isNormal v f = Inr p \<Longrightarrow> Validate isNormal p = Inr ()"
  by (auto simp: pathV_def split: jvalue.splits sum.splits)

lemma intV_Inr: "intV v f mx = Inr n \<Longrightarrow> n \<le> mx"
  by (auto simp: intV_def not_less split: jvalue.splits option.splits if_splits)

lemma length_DecodeString: "DecodeString s = Some b \<Longrightarrow> length s = 2 * length b"
  by (induction s arbitrary: b rule: DecodeString.induct) (auto split: option.splits)

lemma hexV_Inr: "hexV n v f = Inr b \<Longrightarrow> length b = n"
  using length_DecodeString by (fastforce simp: hexV_def lowerHex_def split: jvalue.splits option.splits if_splits)

lemma ucast_blob_le: "(n :: u64) \<le> 0xFE \<Longrightarrow> (ucast n :: byte) \<le> MaxBlobOrdinal"
  by (simp add: word_le_nat_alt unsigned_ucast_eq take_bit_nat_eq_self)

definition good_loc :: "Loc \<Rightarrow> bool" where
  "good_loc l \<longleftrightarrow> loc_Blob l \<le> MaxBlobOrdinal \<and> length (loc_Hash l) = 32"

definition good_member :: "Member \<Rightarrow> bool" where
  "good_member m \<longleftrightarrow> mem_Blob m \<le> MaxBlobOrdinal \<and> length (mem_Hash m) = 32"

lemma locs_loop_Inr: "locs_loop f out vs = Inr ls \<Longrightarrow> \<forall>l \<in> set out. good_loc l \<Longrightarrow> \<forall>l \<in> set ls. good_loc l"
  by (induction f out vs rule: locs_loop.induct)
    (auto simp: andThen_Inr good_loc_def split: jvalue.splits list.splits dest!: intV_Inr hexV_Inr ucast_blob_le)

lemma locs_loop_grows: "locs_loop f out vs = Inr ls \<Longrightarrow> length ls = length out + length vs"
  by (induction f out vs rule: locs_loop.induct) (auto simp: andThen_Inr split: jvalue.splits list.splits)

lemma members_loop_Inr:
  "members_loop f out vs = Inr ms \<Longrightarrow> \<forall>m \<in> set out. good_member m \<Longrightarrow> \<forall>m \<in> set ms. good_member m"
  by (induction f out vs rule: members_loop.induct)
    (auto simp: andThen_Inr good_member_def split: jvalue.splits list.splits dest!: intV_Inr hexV_Inr ucast_blob_le)

lemma members_loop_grows: "members_loop f out vs = Inr ms \<Longrightarrow> length ms = length out + length vs"
  by (induction f out vs rule: members_loop.induct) (auto simp: andThen_Inr split: jvalue.splits list.splits)

lemma locsV_Inr: "locsV v f = Inr ls \<Longrightarrow> ls \<noteq> [] \<and> (\<forall>l \<in> set ls. good_loc l)"
proof -
  assume "locsV v f = Inr ls"
  then obtain e es where "locs_loop f [] (e # es) = Inr ls"
    unfolding locsV_def by (simp split: jvalue.splits list.splits del: locs_loop.simps)
  then show ?thesis using locs_loop_Inr[of f "[]" "e # es" ls] locs_loop_grows[of f "[]" "e # es" ls] by fastforce
qed

lemma membersV_Inr: "membersV v f = Inr ms \<Longrightarrow> ms \<noteq> [] \<and> (\<forall>m \<in> set ms. good_member m)"
proof -
  assume "membersV v f = Inr ms"
  then obtain e es where "members_loop f [] (e # es) = Inr ms"
    unfolding membersV_def by (simp split: jvalue.splits list.splits del: members_loop.simps)
  then show ?thesis using members_loop_Inr[of f "[]" "e # es" ms] members_loop_grows[of f "[]" "e # es" ms] by fastforce
qed

lemma decode_fields_Inr:
  assumes "decode_fields isNormal op f r0 = Inr r" "op \<in> set all_ops"
    "r0 = (emptyRecord op s)\<lparr> rec_HasTS := b, rec_TS := (if b then t else 0) \<rparr>"
  shows "validate isNormal r = Inr ()" "shaped_record r"
proof -
  have fields: "rec_Op r = op"
    using assms by (cases op) (auto simp: decode_fields_def andThen_Inr emptyRecord_def split: if_splits)
  show "validate isNormal r = Inr ()"
    using assms fields unfolding validate_iff
    by (cases op) (auto simp: decode_fields_def andThen_Inr good_loc_def good_member_def all_ops_def
        dest!: pathV_Inr locsV_Inr membersV_Inr split: if_splits)
  show "shaped_record r"
    using assms fields
    by (cases op) (auto simp: decode_fields_def andThen_Inr good_loc_def good_member_def shaped_record_def meaningful_def
        arrays_ok_def emptyRecord_def Let_def dest!: hexV_Inr locsV_Inr membersV_Inr split: if_splits)
qed

lemma opByName_Some: "opByName n = Some op \<Longrightarrow> op \<in> set all_ops"
  by (auto simp: opByName_def find_Some_iff)

lemma decodeGeneric_Inr:
  assumes "decodeGeneric isNormal line enc = Inr r"
  shows "\<not> enc" "validate isNormal r = Inr ()" "shaped_record r"
proof -
  obtain v where v: "parseJSON line = Inr v" using assms by (auto simp: decodeGeneric_def andThen_Inr)
  then obtain obj where obj: "v = JObject obj" using assms by (cases v) (auto simp: decodeGeneric_def)
  then obtain n where n: "findOp obj [] = Inr n" using assms v by (auto simp: decodeGeneric_def andThen_Inr)
  then obtain op where "opByName n = Some op" "\<not> enc" "decode_object isNormal op obj = Inr r"
    using assms v obj by (cases "opByName n") (auto simp: decodeGeneric_def errf_def split: if_splits)
  then have o: "\<not> enc" "op \<in> set all_ops" "decode_object isNormal op obj = Inr r"
    using opByName_Some by blast+
  then obtain s b t where "decode_fields isNormal op (field_of obj)
      ((emptyRecord op s)\<lparr> rec_HasTS := b, rec_TS := (if b then t else 0) \<rparr>) = Inr r"
  proof -
    assume a: "decode_object isNormal op obj = Inr r"
    have "(emptyRecord op s)\<lparr> rec_HasTS := False, rec_TS := 0 \<rparr> = emptyRecord op s" for s by (simp add: emptyRecord_def)
    then show ?thesis
      using a that[where b = True] that[where b = False]
      by (auto simp: decode_object_def andThen_Inr Let_def split: if_splits)
  qed
  then show "\<not> enc" "validate isNormal r = Inr ()" "shaped_record r"
    using o decode_fields_Inr[OF _ o(2) refl] by blast+
qed

lemma DecodeLine_Inr:
  assumes "DecodeLine isNormal line enc = Inr r"
  shows "\<not> enc" "validate isNormal r = Inr ()" "shaped_record r"
  using assms decodeGeneric_Inr decodeCanonical_line
  by (auto simp: DecodeLine_def split: if_splits option.splits)

section \<open>Properties\<close>

text \<open>C19: the fast path is only a shortcut: for every line, whatever its bytes, DecodeLine returns exactly what the
  strict JSON decoder alone returns (behind the length limit), the same record or the same error.\<close>

theorem fast_path_agrees:
  "DecodeLine isNormal line encrypted = (if length line > MaxLineBytes then json_corrupt else decodeGeneric isNormal line encrypted)"
proof (cases "decodeCanonical isNormal line")
  case (Some r)
  then have "decodeGeneric isNormal line False = Inr r"
    using decodeGeneric_line[of isNormal r] decodeCanonical_line[OF Some] by (simp add: shaped_record_def)
  then show ?thesis using Some by (simp add: DecodeLine_def)
qed (simp add: DecodeLine_def)

lemma DecodeLine_line_of:
  assumes "validate isNormal r = Inr ()" "arrays_ok r" "length (line_of r) \<le> MaxLineBytes"
  shows "DecodeLine isNormal (line_of r) False = Inr (meaningful r)"
proof (cases "decodeCanonical isNormal (line_of r)")
  case (Some r')
  then have "decodeGeneric isNormal (line_of r) False = Inr r'"
    using decodeGeneric_line[of isNormal r'] decodeCanonical_line[OF Some] by (simp add: shaped_record_def)
  then show ?thesis using decodeGeneric_line[OF assms(1,2)] Some assms(3) by (simp add: DecodeLine_def)
qed (use decodeGeneric_line[OF assms(1,2)] assms(3) in \<open>simp add: DecodeLine_def\<close>)

text \<open>C20: writing a record and reading it back: AppendLine extends the buffer by one line of at most MaxLineBytes
  bytes, without a control character and so without a line feed of its own, and DecodeLine of that line gives the
  record back, with every field its op does not use at zero.\<close>

theorem line_round_trip:
  assumes "AppendLine isNormal dst r = Inr out" "arrays_ok r"
  shows "\<exists>line. out = dst @ line @ [0x0A] \<and> length line \<le> MaxLineBytes \<and> printable line \<and>
    DecodeLine isNormal line False = Inr (meaningful r)"
proof -
  have v: "validate isNormal r = Inr ()" "length (line_of r) \<le> MaxLineBytes" "out = dst @ line_of r @ [0x0A]"
    using assms(1) by (auto simp: AppendLine_def andThen_Inr errf_def not_less split: if_splits)
  then show ?thesis using DecodeLine_line_of[OF v(1) assms(2) v(2)] printable_line by blast
qed

text \<open>The record of the witnesses: an extent of a transaction.\<close>

definition sample_extent :: Record where
  "sample_extent = (emptyRecord OpAddExtent 7)\<lparr> rec_TxID := replicate 16 0xAB,
     rec_Loc := [\<lparr> loc_Blob = 2, loc_Hash = replicate 32 0x5C, loc_Offset = 0, loc_Length = 5 \<rparr>] \<rparr>"

lemma sample_extent_ok:
  "validate (\<lambda>_. True) sample_extent = Inr ()" "arrays_ok sample_extent" "meaningful sample_extent = sample_extent"
  by (simp_all add: sample_extent_def emptyRecord_def validate_def all_ops_def arrays_ok_def meaningful_def)

lemma sample_extent_short: "length (line_of sample_extent) \<le> MaxLineBytes"
proof -
  have "length (line_of sample_extent) \<le> 300" by code_simp
  then show ?thesis by simp
qed

lemma sample_extent_line: "AppendLine (\<lambda>_. True) [] sample_extent = Inr (line_of sample_extent @ [0x0A])"
  using sample_extent_ok sample_extent_short by (simp add: AppendLine_def)

theorem line_round_trip_witness:
  "\<exists>line. line_of sample_extent @ [0x0A] = [] @ line @ [0x0A] \<and> length line \<le> MaxLineBytes \<and> printable line \<and>
     DecodeLine (\<lambda>_. True) line False = Inr sample_extent"
  using line_round_trip[OF sample_extent_line(1) sample_extent_ok(2)] unfolding sample_extent_ok(3) .

text \<open>C21: only well-formed records come out of a journal line: a decoded record belongs to a plain archive, passes
  the writer's own validation, carries arrays of their length and zeros in every field its op does not use; and
  writing it again, in canonical form, is a line that decodes to the same record.\<close>

theorem decoded_is_writable:
  assumes "DecodeLine isNormal line encrypted = Inr r"
  shows "\<not> encrypted \<and> validate isNormal r = Inr () \<and> arrays_ok r \<and> meaningful r = r \<and>
    decodeGeneric isNormal (line_of r) False = Inr r"
  using DecodeLine_Inr[OF assms] decodeGeneric_line[of isNormal r] by (simp add: shaped_record_def)

lemma sample_line_decodes: "DecodeLine (\<lambda>_. True) (line_of sample_extent) False = Inr sample_extent"
  using DecodeLine_line_of[OF sample_extent_ok(1,2) sample_extent_short] by (simp add: sample_extent_ok(3))

theorem decoded_is_writable_witness:
  "validate (\<lambda>_. True) sample_extent = Inr () \<and> decodeGeneric (\<lambda>_. True) (line_of sample_extent) False = Inr sample_extent"
  using decoded_is_writable[OF sample_line_decodes] by blast

end
