(* ===== verification/Manifest_Spec.thy ===== *)
theory Manifest_Spec
  imports Manifest_State
begin

text \<open>
  What the manifest promises, as an abstract store: a map from paths to their current version and,
  for each open transaction, the extent records received so far. A transaction changes the map at
  its commit and nowhere else, all extents at once, in whatever order they arrived. The detailed
  \<open>Apply\<close> refines it; file versions and sequence numbers only grow.
\<close>

section \<open>Runs of a fallible step\<close>

fun run_steps :: "('s \<Rightarrow> 'i \<Rightarrow> 's \<times> 'e option) \<Rightarrow> 's \<Rightarrow> 'i list \<Rightarrow> 's \<times> 'e option" where
  "run_steps step s [] = (s, None)"
| "run_steps step s (i # is) = (case step s i of (s1, Some e) \<Rightarrow> (s1, Some e) | (s1, None) \<Rightarrow> run_steps step s1 is)"

locale refinement =
  fixes inv :: "'s \<Rightarrow> bool" and rel :: "'s \<Rightarrow> 'a \<Rightarrow> bool" and step :: "'s \<Rightarrow> 'i \<Rightarrow> 's \<times> 'e option" and spec :: "'a \<Rightarrow> 'i \<Rightarrow> 'a"
  assumes inv_step: "inv s \<Longrightarrow> step s i = (s', None) \<Longrightarrow> inv s'"
    and rel_step: "inv s \<Longrightarrow> rel s a \<Longrightarrow> step s i = (s', None) \<Longrightarrow> rel s' (spec a i)"
    and error_step: "step s i = (s', Some e) \<Longrightarrow> s' = s"
begin

text \<open>A run that stops early has done exactly the items before the refused one.\<close>

lemma run_refines:
  "inv s \<Longrightarrow> rel s a \<Longrightarrow> run_steps step s is = (s', e) \<Longrightarrow>
   \<exists>n \<le> length is. inv s' \<and> rel s' (foldl spec a (take n is)) \<and> (e = None \<longrightarrow> n = length is)"
proof (induction "is" arbitrary: s a)
  case (Cons i "is")
  obtain s1 x where st: "step s i = (s1, x)" by (cases "step s i")
  show ?case
  proof (cases x)
    case None
    then have "step s i = (s1, None)" "run_steps step s1 is = (s', e)" using st Cons.prems(3) by simp_all
    from Cons.IH[OF inv_step[OF Cons.prems(1) this(1)] rel_step[OF Cons.prems(1,2) this(1)] this(2)]
    obtain n where "n \<le> length is" "inv s'" "rel s' (foldl spec (spec a i) (take n is))" "e = None \<longrightarrow> n = length is"
      by blast
    then show ?thesis by (intro exI[of _ "Suc n"]) simp
  next
    case (Some y)
    then have "s' = s" "e = Some y" using Cons.prems(3) st error_step by auto
    then show ?thesis using Cons.prems by (intro exI[of _ 0]) simp
  qed
qed simp

end

section \<open>The abstract store\<close>

record Store =
  sp_live :: "bytes \<Rightarrow> (u64 \<times> Loc list) option"
  sp_pending :: "bytes \<Rightarrow> (bytes \<times> u64 \<times> (u32 \<times> Loc list) list) option"

definition empty_store :: Store where
  "empty_store = \<lparr> sp_live = (\<lambda>_. None), sp_pending = (\<lambda>_. None) \<rparr>"

definition complete :: "(u32 \<times> Loc list) list \<Rightarrow> Record \<Rightarrow> bool" where
  "complete recv r \<longleftrightarrow> mset (map fst recv) = mset (map word_of_nat [0..<unat (rec_ExtentRecordCount r)]) \<and>
     length (concat (map snd recv)) = unat (rec_ExtentCount r)"

definition by_offset :: "Loc list \<Rightarrow> Loc list" where
  "by_offset ls = sort_key loc_Offset ls"

definition spec_step :: "Store \<Rightarrow> Record \<Rightarrow> Store" where
  "spec_step a r =
    (case rec_Op r of
       OpAdd \<Rightarrow> a\<lparr> sp_live := (sp_live a)(rec_Path r \<mapsto> (rec_FileVer r, by_offset (rec_Loc r))) \<rparr>
     | OpDel \<Rightarrow> a\<lparr> sp_live := (sp_live a)(rec_Path r := None) \<rparr>
     | OpAddBegin \<Rightarrow> a\<lparr> sp_pending := (sp_pending a)(rec_TxID r \<mapsto> (rec_Path r, rec_FileVer r, [])) \<rparr>
     | OpAddExtent \<Rightarrow> (case sp_pending a (rec_TxID r) of None \<Rightarrow> a
         | Some (p, v, recv) \<Rightarrow> a\<lparr> sp_pending := (sp_pending a)(rec_TxID r \<mapsto> (p, v, recv @ [(rec_ExtentSequence r, rec_Loc r)])) \<rparr>)
     | OpAddCommit \<Rightarrow> (case sp_pending a (rec_TxID r) of None \<Rightarrow> a
         | Some (p, v, recv) \<Rightarrow> a\<lparr> sp_pending := (sp_pending a)(rec_TxID r := None),
             sp_live := (if complete recv r then (sp_live a)(p \<mapsto> (v, by_offset (concat (map snd recv)))) else sp_live a) \<rparr>)
     | OpAddAbort \<Rightarrow> a\<lparr> sp_pending := (sp_pending a)(rec_TxID r := None) \<rparr>
     | OpLinkManifest \<Rightarrow> a | OpParityGroup \<Rightarrow> a | OpOther \<Rightarrow> a)"

definition pending_of :: "tx \<Rightarrow> bytes \<times> u64 \<times> (u32 \<times> Loc list) list \<Rightarrow> bool" where
  "pending_of t x \<longleftrightarrow> (case x of (p, v, recv) \<Rightarrow> p = tx_path t \<and> v = tx_fileVer t \<and>
     tx_dupSeq t = (\<not> distinct (map fst recv)) \<and> (distinct (map fst recv) \<longrightarrow> tx_extents t = recv))"

definition refines :: "State \<Rightarrow> Store \<Rightarrow> bool" where
  "refines s a \<longleftrightarrow> sp_live a = (\<lambda>p. map_option (\<lambda>v. (v_FileVer v, v_Loc v)) (st_live s p)) \<and>
     (\<forall>k. rel_option pending_of (map_of (st_open s) k) (sp_pending a k))"

section \<open>Refinement\<close>

lemma refines_NewState: "refines (NewState h lim) empty_store"
  by (simp add: refines_def NewState_def empty_store_def)

lemma refines_stamp [simp]: "refines (stamp m q n s) a = refines s a"
  by (simp add: refines_def)

lemma update_new: "map_of al k = None \<Longrightarrow> AList.update k v al = al @ [(k, v)]"
  by (induction al) (auto split: if_splits)

lemma map_of_update_conv [simp]: "map_of (AList.update k v al) = (map_of al)(k \<mapsto> v)"
  by (rule update_conv')

lemma map_of_delete_conv [simp]: "map_of (AList.delete k al) = (map_of al)(k := None)"
  by (rule delete_conv')

lemma length_extents:
  assumes "distinct (map fst (ex :: (u32 \<times> 'a) list))"
  shows "length ex \<le> 2 ^ 32"
proof -
  have "length ex = card (set (map fst ex))" using distinct_card[OF assms] by simp
  also have "\<dots> \<le> card (UNIV :: u32 set)" by (rule card_mono) auto
  finally show ?thesis by (simp add: card_word)
qed

lemma length_concat_snd: "length (concat (map snd ex)) = sum_list (map (\<lambda>(_, ls). length ls) ex)"
  by (induction ex) auto

lemma unat_u32_le: "unat (w :: u32) \<le> 2 ^ 32"
  using unsigned_less[of w, where 'a = nat] by simp

lemma commitLocs_complete:
  assumes "ok_tx s k t"
  shows "commitLocs t r \<noteq> None \<longleftrightarrow> \<not> tx_dupSeq t \<and> complete (tx_extents t) r"
    and "commitLocs t r = Some all \<Longrightarrow> mset all = mset (concat (map snd (tx_extents t)))"
proof -
  let ?ex = "tx_extents t" and ?n = "unat (rec_ExtentRecordCount r)"
  have d: "distinct (map fst ?ex)" and nl: "unat (tx_nLocs t) = length (concat (map snd ?ex))"
    using assms by (simp_all add: ok_tx_def length_concat_snd)
  have n: "?n \<le> 2 ^ 32" by (rule unat_u32_le)
  have c1: "(word_of_nat (length ?ex) :: u64) = ucast (rec_ExtentRecordCount r) \<longleftrightarrow> length ?ex = ?n"
    using length_extents[OF d] n by (simp add: word_unat_eq_iff unat_of_nat unsigned_ucast_eq take_bit_nat_eq_self)
  have c2: "tx_nLocs t = ucast (rec_ExtentCount r) \<longleftrightarrow> length (concat (map snd ?ex)) = unat (rec_ExtentCount r)"
    using nl unsigned_less[of "rec_ExtentCount r", where 'a = nat]
    by (auto simp: word_unat_eq_iff unsigned_ucast_eq take_bit_nat_eq_self)
  show "commitLocs t r \<noteq> None \<longleftrightarrow> \<not> tx_dupSeq t \<and> complete ?ex r"
    using collectExtents_perm(1)[OF d n] c1 c2 unfolding commitLocs_def complete_def by auto
  show "commitLocs t r = Some all \<Longrightarrow> mset all = mset (concat (map snd ?ex))"
    using collectExtents_perm(2)[OF d n] c1 by (auto simp: commitLocs_def split: if_splits)
qed

lemma refinesD:
  assumes "refines s a"
  shows "sp_live a = (\<lambda>p. map_option (\<lambda>v. (v_FileVer v, v_Loc v)) (st_live s p))"
    and "map_of (st_open s) k = Some t \<Longrightarrow> \<exists>recv. sp_pending a k = Some (tx_path t, tx_fileVer t, recv) \<and>
      pending_of t (tx_path t, tx_fileVer t, recv)"
proof -
  show "sp_live a = (\<lambda>p. map_option (\<lambda>v. (v_FileVer v, v_Loc v)) (st_live s p))"
    using assms by (simp add: refines_def)
  assume m: "map_of (st_open s) k = Some t"
  have "rel_option pending_of (map_of (st_open s) k) (sp_pending a k)" using assms by (simp add: refines_def)
  then obtain x where x: "sp_pending a k = Some x" "pending_of t x" by (auto simp: m option_rel_Some1)
  moreover obtain recv where "x = (tx_path t, tx_fileVer t, recv)"
    using x(2) by (cases x) (auto simp: pending_of_def)
  ultimately show "\<exists>recv. sp_pending a k = Some (tx_path t, tx_fileVer t, recv) \<and> pending_of t (tx_path t, tx_fileVer t, recv)"
    by blast
qed

lemma checkLocs_by_offset: "checkLocs s r ls = Inr (locs, n) \<Longrightarrow> locs = by_offset ls"
  by (auto simp: checkLocs_def by_offset_def Let_def split: if_splits option.splits)

lemma refines_Add:
  assumes "refines s a" "apply_Add s r = (s', None)" "rec_Op r = OpAdd"
  shows "refines s' (spec_step a r)"
  using assms by (auto simp: apply_Add_def spec_step_def refines_def setLive_def fun_eq_iff
      dest: checkLocs_by_offset split: sum.splits prod.splits)

lemma refines_Del:
  assumes "refines s a" "apply_Del s r = (s', None)" "rec_Op r = OpDel"
  shows "refines s' (spec_step a r)"
  using assms by (auto simp: apply_Del_def spec_step_def refines_def fun_eq_iff split: option.splits if_splits)

lemma refines_AddBegin:
  assumes "refines s a" "apply_AddBegin s r file = (s', None)" "rec_Op r = OpAddBegin"
  shows "refines s' (spec_step a r)"
  using assms by (auto simp: apply_AddBegin_def spec_step_def refines_def pending_of_def split: sum.splits if_splits)

lemma refines_AddAbort:
  assumes "wf_state s" "refines s a" "apply_AddAbort s r file = (s', None)" "rec_Op r = OpAddAbort"
  shows "refines s' (spec_step a r)"
proof -
  obtain t where t: "openTx s r file = Inr t" and s': "s' = (closeTx s t)\<lparr> st_Aborted := st_Aborted (closeTx s t) + 1 \<rparr>"
    using assms(3) by (auto simp: apply_AddAbort_def Let_def split: sum.splits)
  then show ?thesis
    using assms(2,4) openTx_Inr(3)[OF assms(1) t] by (simp add: spec_step_def refines_def closeTx_def)
qed

lemma refines_AddExtent:
  assumes "wf_state s" "refines s a" "apply_AddExtent s r file = (s', None)" "rec_Op r = OpAddExtent"
  shows "refines s' (spec_step a r)"
proof -
  let ?k = "rec_TxID r" and ?n = "rec_ExtentSequence r"
  obtain t where t: "openTx s r file = Inr t"
    using assms(3) by (auto simp: apply_AddExtent_def split: sum.splits)
  note tx = openTx_Inr[OF assms(1) t]
  obtain recv where p: "sp_pending a ?k = Some (tx_path t, tx_fileVer t, recv)" "pending_of t (tx_path t, tx_fileVer t, recv)"
    using refinesD(2)[OF assms(2) tx(1)] by blast
  let ?recv' = "recv @ [(?n, rec_Loc r)]"
  obtain t' where op: "st_open s' = AList.update ?k t' (st_open s)" and live: "st_live s' = st_live s"
    and t': "t' = (if map_of (tx_extents t) ?n \<noteq> None then t\<lparr> tx_dupSeq := True \<rparr>
      else t\<lparr> tx_extents := AList.update ?n (rec_Loc r) (tx_extents t), tx_nLocs := tx_nLocs t + word_of_nat (length (rec_Loc r)) \<rparr>)"
    using assms(3) t by (auto simp: apply_AddExtent_def Let_def split: sum.splits if_splits)
  have "pending_of t' (tx_path t, tx_fileVer t, ?recv')"
  proof (cases "distinct (map fst recv)")
    case True
    then have "tx_extents t = recv" "\<not> tx_dupSeq t" using p(2) by (simp_all add: pending_of_def)
    then show ?thesis
      using True by (auto simp: t' pending_of_def update_new map_of_eq_None_iff)
  next
    case False
    then have "tx_dupSeq t" using p(2) by (simp add: pending_of_def)
    then show ?thesis using False by (auto simp: t' pending_of_def)
  qed
  then show ?thesis
    using assms(2,4) by (simp add: refines_def spec_step_def op live p(1))
qed

lemma refines_AddCommit:
  assumes "wf_state s" "refines s a" "apply_AddCommit s r file = (s', None)" "rec_Op r = OpAddCommit"
  shows "refines s' (spec_step a r)"
proof -
  let ?k = "rec_TxID r"
  obtain t where t: "openTx s r file = Inr t"
    using assms(3) by (auto simp: apply_AddCommit_def split: sum.splits)
  note tx = openTx_Inr[OF assms(1) t]
  obtain recv where p: "sp_pending a ?k = Some (tx_path t, tx_fileVer t, recv)" "pending_of t (tx_path t, tx_fileVer t, recv)"
    using refinesD(2)[OF assms(2) tx(1)] by blast
  have com: "commitLocs t r \<noteq> None \<longleftrightarrow> complete recv r"
  proof (cases "distinct (map fst recv)")
    case True
    then show ?thesis using p(2) commitLocs_complete(1)[OF tx(2)] by (simp add: pending_of_def)
  next
    case False
    then have "\<not> complete recv r"
      using mset_eq_imp_distinct_iff[of "map fst recv"] distinct_of_nat_upt[OF unat_u32_le] unfolding complete_def by blast
    then show ?thesis using False p(2) by (auto simp: pending_of_def commitLocs_def)
  qed
  show ?thesis
  proof (cases "commitLocs t r")
    case None
    then have "s' = (closeTx s t)\<lparr> st_Ignored := st_Ignored (closeTx s t) @ [tx_id t] \<rparr>"
      using assms(3) t by (simp add: apply_AddCommit_def Let_def)
    then show ?thesis
      using assms(2,4) None com tx(3) by (simp add: refines_def spec_step_def p(1) closeTx_def)
  next
    case (Some all)
    then obtain locs n where c: "checkLocs s r all = Inr (locs, n)"
      and s': "s' = setLive (closeTx s t) (tx_path t) (tx_fileVer t) locs n (rec_Seq r)"
      using assms(3) t by (auto simp: apply_AddCommit_def split: sum.splits prod.splits)
    have "tx_extents t = recv"
      using p(2) Some com by (auto simp: pending_of_def commitLocs_def split: if_splits)
    then have "locs = by_offset (concat (map snd recv))"
      using checkLocs_sorted(1)[OF c] commitLocs_complete(2)[OF tx(2) Some] by (simp add: by_offset_def)
    then show ?thesis
      using assms(2,4) Some com tx(3)
      by (simp add: refines_def spec_step_def p(1) s' setLive_def closeTx_def fun_eq_iff)
  qed
qed

lemma refines_apply_op:
  assumes "wf_state s" "refines s a" "apply_op s r file = (s', None)"
  shows "refines s' (spec_step a r)"
proof (cases "rec_Op r")
  case OpAdd
  then show ?thesis using refines_Add assms by (simp add: apply_op_def)
next
  case OpDel
  then show ?thesis using refines_Del assms by (simp add: apply_op_def)
next
  case OpAddBegin
  then show ?thesis using refines_AddBegin assms by (simp add: apply_op_def)
next
  case OpAddExtent
  then show ?thesis using refines_AddExtent assms by (simp add: apply_op_def)
next
  case OpAddCommit
  then show ?thesis using refines_AddCommit assms by (simp add: apply_op_def)
next
  case OpAddAbort
  then show ?thesis using refines_AddAbort assms by (simp add: apply_op_def)
qed (use assms in \<open>simp_all add: apply_op_def apply_LinkManifest_def apply_ParityGroup_def spec_step_def split: if_splits\<close>)


lemma Apply_stamp:
  assumes "Apply s r file = (s', None)"
  obtains s1 where "apply_op s r file = (s1, None)"
    "s' = stamp (if rec_Op r \<in> {OpAdd, OpDel, OpAddBegin} then max (st_maxFileVer s) (rec_FileVer r) else st_maxFileVer s)
      (rec_Seq r) (st_records s + 1) s1"
  using assms by (elim Apply_ok) (auto simp: stamp_def apply_op_keeps)

lemma refines_Apply:
  assumes "wf_state s" "refines s a" "Apply s r file = (s', None)"
  shows "refines s' (spec_step a r)"
  using assms(3) by (rule Apply_stamp) (simp add: refines_apply_op[OF assms(1,2)])

lemma replay_run: "replay s rs = run_steps (\<lambda>s (r, f). Apply s r f) s rs"
  by (induction s rs rule: replay.induct) (auto split: prod.split option.split)

interpretation manifest: refinement wf_state refines "\<lambda>s (r, f). Apply s r f" "\<lambda>a (r, f). spec_step a r"
proof
  show "wf_state s'" if "wf_state s" "(case i of (r, f) \<Rightarrow> Apply s r f) = (s', None)" for s i s'
    using that wf_Apply by (cases i) simp
  show "refines s' (case i of (r, f) \<Rightarrow> spec_step a r)"
    if "wf_state s" "refines s a" "(case i of (r, f) \<Rightarrow> Apply s r f) = (s', None)" for s a i s'
    using that refines_Apply by (cases i) simp
  show "s' = s" if "(case i of (r, f) \<Rightarrow> Apply s r f) = (s', Some e)" for s i s' e
    using that Apply_error by (cases i) simp
qed

lemmas replay_refines = manifest.run_refines[folded replay_run]

section \<open>Versions\<close>

text \<open>The version order of one path between an earlier and a later state.\<close>

definition grows :: "State \<Rightarrow> State \<Rightarrow> bool" where
  "grows s s' \<longleftrightarrow> st_lastSeq s \<le> st_lastSeq s' \<and> st_maxFileVer s \<le> st_maxFileVer s' \<and>
    (\<forall>p m. st_appliedMax s p = Some m \<longrightarrow> (\<exists>m'. st_appliedMax s' p = Some m' \<and> m \<le> m')) \<and>
    (\<forall>p v' m. st_live s' p = Some v' \<longrightarrow> st_appliedMax s p = Some m \<longrightarrow> m < v_FileVer v' \<or> st_live s p = Some v')"

lemma grows_refl [simp]: "wf_state s \<Longrightarrow> grows s s"
  by (auto simp: grows_def)

lemma grows_trans:
  assumes "grows s1 s2" "grows s2 s3"
  shows "grows s1 s3"
  unfolding grows_def
proof (intro conjI allI impI)
  show "st_lastSeq s1 \<le> st_lastSeq s3" "st_maxFileVer s1 \<le> st_maxFileVer s3"
    using assms unfolding grows_def by auto
  show "\<exists>m'. st_appliedMax s3 p = Some m' \<and> m \<le> m'" if "st_appliedMax s1 p = Some m" for p m
    using assms that unfolding grows_def by (meson order_trans)
  show "m < v_FileVer v' \<or> st_live s1 p = Some v'" if l: "st_live s3 p = Some v'" and m: "st_appliedMax s1 p = Some m" for p v' m
  proof -
    obtain m2 where m2: "st_appliedMax s2 p = Some m2" "m \<le> m2" using assms(1) m unfolding grows_def by blast
    then have "m2 < v_FileVer v' \<or> st_live s2 p = Some v'" using assms(2) l unfolding grows_def by blast
    moreover have "m < v_FileVer v' \<or> st_live s1 p = Some v'" if "st_live s2 p = Some v'"
      using assms(1) m that unfolding grows_def by blast
    ultimately show ?thesis using m2(2) by (auto intro: le_less_trans)
  qed
qed

lemma checkVersion_Inr: "checkVersion s r p v = Inr u \<longleftrightarrow> (\<forall>m. st_appliedMax s p = Some m \<longrightarrow> m < v)"
  by (auto simp: checkVersion_def not_le[symmetric] simp del: not_le split: option.splits)

lemma grows_setLive:
  assumes "checkVersion s r p ver = Inr u" "st_live s' = (st_live s)(p \<mapsto> \<lparr> v_FileVer = ver, v_Loc = ls, v_Length = n, v_Seq = q \<rparr>)"
    "st_appliedMax s' = (st_appliedMax s)(p \<mapsto> ver)" "st_lastSeq s' = st_lastSeq s" "st_maxFileVer s' = st_maxFileVer s"
  shows "grows s s'"
  using assms by (auto simp: grows_def checkVersion_Inr intro: less_imp_le)

lemma grows_apply_op:
  assumes "wf_state s" "apply_op s r file = (s', None)"
  shows "grows s s'"
proof (cases "rec_Op r")
  case OpAdd
  then show ?thesis using assms(2)
    by (auto simp: apply_op_def apply_Add_def split: sum.splits prod.splits intro!: grows_setLive simp: setLive_def)
next
  case OpAddCommit
  then show ?thesis using assms(2)
    by (cases "openTx s r file"; cases "commitLocs (projr (openTx s r file)) r")
      (auto simp: apply_op_def apply_AddCommit_def Let_def setLive_def closeTx_def grows_def checkVersion_Inr
        split: sum.splits prod.splits if_splits intro: less_imp_le)
qed (use assms in \<open>auto simp: grows_def apply_op_def apply_defs closeTx_def Let_def
      split: sum.splits prod.splits option.splits if_splits\<close>)

lemma grows_Apply:
  assumes "wf_state s" "Apply s r file = (s', e)"
  shows "grows s s'"
proof (cases e)
  case (Some x)
  then show ?thesis using Apply_error[of s r "file" s' x] assms by simp
next
  case None
  then obtain s1 where s1: "apply_op s r file = (s1, None)" "rec_Seq r \<noteq> 0" "st_records s > 0 \<Longrightarrow> st_lastSeq s < rec_Seq r"
    and s': "s' = (if rec_Op r \<in> {OpAdd, OpDel, OpAddBegin} then s1\<lparr> st_maxFileVer := max (st_maxFileVer s1) (rec_FileVer r) \<rparr> else s1)
      \<lparr> st_lastSeq := rec_Seq r, st_records := st_records s1 + 1 \<rparr>"
    using Apply_ok assms(2) by blast
  have "st_lastSeq s \<le> rec_Seq r" using assms(1) s1(2,3) unfolding wf_state_def
    by (cases "st_records s = 0") (auto simp: word_neq_0_conv less_imp_le)
  then show ?thesis using grows_apply_op[OF assms(1) s1(1)] apply_op_keeps[OF s1(1)] s' by (auto simp: grows_def)
qed

lemma grows_replay: "wf_state s \<Longrightarrow> replay s rs = (s', e) \<Longrightarrow> grows s s'"
proof (induction s rs rule: replay.induct)
  case (2 s r f rs)
  obtain s1 x where a: "Apply s r f = (s1, x)" by (cases "Apply s r f")
  note g = grows_Apply[OF 2(2) a] and w = wf_Apply[OF 2(2) a]
  show ?case
  proof (cases x)
    case None
    then show ?thesis using 2(1)[OF a[symmetric] None w] 2(3) a grows_trans[OF g] by simp
  qed (use 2(3) a g in auto)
qed simp


section \<open>Properties\<close>

lemma live_covered:
  assumes "wf_state s" "Lookup s p = Some v" "x < unat (v_Length v)"
  shows "\<exists>!i. i < length (v_Loc v) \<and> unat (loc_Offset (v_Loc v ! i)) \<le> x \<and>
    x < unat (loc_Offset (v_Loc v ! i)) + unat (loc_Length (v_Loc v ! i))"
proof -
  have "checkLocs_loop (MaxFrameSize (st_h s)) 0 (v_Loc v) = Some (v_Length v)"
    using assms unfolding wf_state_def Lookup_def ok_version_def by fastforce
  then have c: "contiguous 0 (v_Loc v)" "unat (v_Length v) = total (v_Loc v)" "list_all (\<lambda>l. 0 < loc_Length l) (v_Loc v)"
    by (auto simp: checkLocs_loop_Some list_all_iff)
  show ?thesis using contiguous_unique[OF c(1) _ _ c(3), of x] assms(3) c(2) by simp
qed

definition sample_record :: Record where
  "sample_record = \<lparr> rec_Seq = 1, rec_Op = OpAdd, rec_HasTS = False, rec_TS = 0, rec_Path = [0x61], rec_FileVer = 1,
     rec_Loc = [\<lparr> loc_Blob = 0, loc_Hash = replicate 32 1, loc_Offset = 0, loc_Length = 5 \<rparr>], rec_TxID = replicate 16 0,
     rec_ExtentSequence = 0, rec_ExtentRecordCount = 0, rec_ExtentCount = 0, rec_HashID = 1,
     rec_Hash = [], rec_Lines = 0, rec_GroupID = 0, rec_Members = [] \<rparr>"

lemma sample_applied:
  "\<exists>s v. Apply (NewState sample_header DefaultLimits) sample_record 0 = (s, None) \<and> Lookup s [0x61] = Some v \<and> v_Length v = 5 \<and>
     v_FileVer v = 1"
  by (simp add: Apply_def apply_op_def apply_Add_def sample_record_def checkBlobs_def checkLocs_def checkVersion_def NewState_def
      setLive_def addRefs_def sample_header_def DefaultLimits_def MaxFrameSize_def Lookup_def Let_def)

lemma wf_sample_state: "wf_state (NewState sample_header DefaultLimits)"
  by (rule wf_state_NewState) (simp add: DefaultLimits_def)

text \<open>A record the journal rejects, for whatever reason, leaves the live state exactly as it was.\<close>

lemma rejected_record_changes_nothing:
  assumes "Apply s r file = (s', Some e)"
  shows "s' = s"
  using Apply_error[OF assms] .

text \<open>C10: Replaying any journal, accepted to the end or stopped at a rejected record, keeps the state well-formed: every live
  version covers its length without gap or overlap in blobs of the archive, versions and counters are consistent, the open
  transactions are distinct, not closed and within the limits, and the count of staged extents is their exact number.\<close>

theorem replay_keeps_state_wf:
  assumes "lim_MaxStagedExtents lim < 2 ^ 63"
  shows "wf_state (fst (replay (NewState h lim) rs))"
  using wf_replay[OF wf_state_NewState[OF assms]] .

theorem replay_keeps_state_wf_witness: "wf_state (fst (replay (NewState sample_header DefaultLimits) [(sample_record, 0)]))"
  by (rule replay_keeps_state_wf) (simp add: DefaultLimits_def)

text \<open>C9: The journal fold refines the abstract store: after a replay the live versions and the pending transactions are those
  the abstract store reaches on the accepted records; a transaction changes the map of paths at its commit only, with all its
  extents at once and in any order of arrival, or not at all.\<close>

theorem replay_refines_store:
  assumes "lim_MaxStagedExtents lim < 2 ^ 63" "replay (NewState h lim) rs = (s, e)"
  shows "\<exists>n \<le> length rs. refines s (foldl (\<lambda>a (r, f). spec_step a r) empty_store (take n rs)) \<and> (e = None \<longrightarrow> n = length rs)"
  using replay_refines[OF wf_state_NewState[OF assms(1)] refines_NewState assms(2)] by blast

theorem replay_refines_store_witness:
  "\<exists>s. replay (NewState sample_header DefaultLimits) [(sample_record, 0)] = (s, None) \<and>
     refines s (spec_step empty_store sample_record)"
proof -
  obtain s where s: "replay (NewState sample_header DefaultLimits) [(sample_record, 0)] = (s, None)" using sample_applied by auto
  show ?thesis using s replay_refines_store[OF _ s] by (auto simp: DefaultLimits_def)
qed

text \<open>Records of an open transaction, and records that only link manifests or describe parity groups, never change what
  is live.\<close>

lemma uncommitted_invisible:
  assumes "rec_Op r \<notin> {OpAdd, OpDel, OpAddCommit}"
  shows "Lookup (fst (Apply s r file)) = Lookup s"
  using assms by (cases "rec_Op r") (auto simp: fun_eq_iff Lookup_def Apply_def apply_op_def apply_defs closeTx_def Let_def
      split: sum.splits option.splits prod.splits)

text \<open>C31: Versions of a path only move forward: between any two points of a replay, a later live version of a path is either
  the very same version or has a strictly greater file version, also when the path was deleted in between.\<close>

theorem versions_move_forward:
  assumes "wf_state s" "replay s rs = (s', e)" "Lookup s p = Some v" "Lookup s' p = Some v'"
  shows "v' = v \<or> v_FileVer v < v_FileVer v'"
proof -
  have "st_appliedMax s p = Some (v_FileVer v)" using assms(1,3) unfolding wf_state_def Lookup_def by blast
  then have "v_FileVer v < v_FileVer v' \<or> st_live s p = Some v'"
    using grows_replay[OF assms(1,2)] assms(4) unfolding grows_def Lookup_def by blast
  then show ?thesis using assms(3) by (auto simp: Lookup_def)
qed

lemma sample_updated:
  "\<exists>s v s' v'. Apply (NewState sample_header DefaultLimits) sample_record 0 = (s, None) \<and>
     Lookup s [0x61] = Some v \<and> v_Seq v = 1 \<and>
     Apply s (sample_record\<lparr> rec_Seq := 2, rec_FileVer := 4 \<rparr>) 0 = (s', None) \<and> Lookup s' [0x61] = Some v' \<and> v_Seq v' = 2"
  by (simp add: Apply_def apply_op_def apply_Add_def sample_record_def checkBlobs_def checkLocs_def checkVersion_def NewState_def
      setLive_def addRefs_def sample_header_def DefaultLimits_def MaxFrameSize_def Lookup_def Let_def word_le_nat_alt word_less_nat_alt)

theorem versions_move_forward_witness:
  "\<exists>s v s' v'. Lookup s [0x61] = Some v \<and> replay s [(sample_record\<lparr> rec_Seq := 2, rec_FileVer := 4 \<rparr>, 0)] = (s', None) \<and>
     Lookup s' [0x61] = Some v' \<and> v_FileVer v < v_FileVer v'"
proof -
  obtain s v s' v' where s: "Apply (NewState sample_header DefaultLimits) sample_record 0 = (s, None)" "Lookup s [0x61] = Some v"
    "v_Seq v = 1" "Apply s (sample_record\<lparr> rec_Seq := 2, rec_FileVer := 4 \<rparr>) 0 = (s', None)" "Lookup s' [0x61] = Some v'" "v_Seq v' = 2"
    using sample_updated by blast
  have w: "wf_state s" using wf_Apply[OF wf_sample_state s(1)] .
  have r: "replay s [(sample_record\<lparr> rec_Seq := 2, rec_FileVer := 4 \<rparr>, 0)] = (s', None)" using s(4) by simp
  have "v' \<noteq> v" using s(3,6) by auto
  then have "v_FileVer v < v_FileVer v'" using versions_move_forward[OF w r s(2,5)] by blast
  then show ?thesis using s r by blast
qed

text \<open>C11: Every byte of a live file lies in exactly one of its extents.\<close>

theorem live_bytes_located:
  assumes "wf_state s" "Lookup s p = Some v" "x < unat (v_Length v)"
  shows "\<exists>!i. i < length (v_Loc v) \<and> unat (loc_Offset (v_Loc v ! i)) \<le> x \<and>
    x < unat (loc_Offset (v_Loc v ! i)) + unat (loc_Length (v_Loc v ! i))"
  using live_covered[OF assms] .

theorem live_bytes_located_witness:
  "\<exists>s v. wf_state s \<and> Lookup s [0x61] = Some v \<and> (\<exists>!i. i < length (v_Loc v) \<and> unat (loc_Offset (v_Loc v ! i)) \<le> 4 \<and>
    4 < unat (loc_Offset (v_Loc v ! i)) + unat (loc_Length (v_Loc v ! i)))"
proof -
  obtain s v where s: "Apply (NewState sample_header DefaultLimits) sample_record 0 = (s, None)" "Lookup s [0x61] = Some v" "v_Length v = 5"
    using sample_applied by blast
  have w: "wf_state s" using wf_Apply[OF wf_sample_state s(1)] .
  show ?thesis using w s(2) live_bytes_located[OF w s(2), of 4] s(3) by auto
qed

end
