(* ===== verification/Min_Heap.thy ===== *)
theory Min_Heap
  imports Prelude "HOL-Library.Multiset"
begin

text \<open>
  The part of Go's \<^verbatim>\<open>container/heap\<close> that \<^verbatim>\<open>internal/manifest/journal.go\<close> uses for its cursors: a slice in heap
  order by a key (\<open>cursorHeap.Less\<close> compares sequence numbers), with \<open>Push\<close>, \<open>Pop\<close> and \<open>Fix\<close> of the
  first element. The interface \<open>min_queue\<close> states what the merge of the journal relies on; its
  interpretation shows it for the sifting loops.
\<close>

section \<open>The operations\<close>

definition swap :: "nat \<Rightarrow> nat \<Rightarrow> 'a list \<Rightarrow> 'a list" where
  "swap i j h = h[i := h ! j, j := h ! i]"

function heap_up :: "('a \<Rightarrow> 'k::linorder) \<Rightarrow> nat \<Rightarrow> 'a list \<Rightarrow> 'a list" where
  "heap_up key j h =
    (let i = (j - 1) div 2 in
     if i = j \<or> \<not> key (h ! j) < key (h ! i) then h else heap_up key i (swap i j h))"
  by pat_completeness auto
termination by (relation "measure (\<lambda>(_, j, _). j)") auto

function heap_down :: "('a \<Rightarrow> 'k::linorder) \<Rightarrow> nat \<Rightarrow> nat \<Rightarrow> 'a list \<Rightarrow> 'a list" where
  "heap_down key n i h =
    (let j1 = 2 * i + 1 in
     if j1 \<ge> n then h
     else let j = (if j1 + 1 < n \<and> key (h ! (j1 + 1)) < key (h ! j1) then j1 + 1 else j1) in
       if \<not> key (h ! j) < key (h ! i) then h else heap_down key n j (swap i j h))"
  by pat_completeness auto
termination by (relation "measure (\<lambda>(_, n, i, _). n - i)") (auto split: if_splits)

declare heap_up.simps [simp del] heap_down.simps [simp del]

definition heap_Push :: "('a \<Rightarrow> 'k::linorder) \<Rightarrow> 'a \<Rightarrow> 'a list \<Rightarrow> 'a list" where
  "heap_Push key x h = heap_up key (length h) (h @ [x])"

definition heap_Pop :: "('a \<Rightarrow> 'k::linorder) \<Rightarrow> 'a list \<Rightarrow> 'a list" where
  "heap_Pop key h = (let n = length h - 1 in take n (heap_down key n 0 (swap 0 n h)))"

text \<open>\<open>heap.Fix(h, 0)\<close>; moving the first element up does nothing.\<close>

definition heap_Fix :: "('a \<Rightarrow> 'k::linorder) \<Rightarrow> 'a list \<Rightarrow> 'a list" where
  "heap_Fix key h = heap_down key (length h) 0 h"

section \<open>Sifting\<close>

lemma length_swap [simp]: "length (swap i j h) = length h"
  by (simp add: swap_def)

lemma swap_nth: "i < length h \<Longrightarrow> j < length h \<Longrightarrow> swap i j h ! k = (if k = i then h ! j else if k = j then h ! i else h ! k)"
  by (cases "k < length h") (auto simp: swap_def nth_list_update)

lemma mset_swap [simp]: "i < length h \<Longrightarrow> j < length h \<Longrightarrow> mset (swap i j h) = mset h"
  unfolding swap_def by (rule mset_swap)

text \<open>Heap order of the first \<open>n\<close> elements, except between the elements below \<open>e\<close> and their parents.\<close>

definition heap_above :: "('a \<Rightarrow> 'k::linorder) \<Rightarrow> nat \<Rightarrow> nat set \<Rightarrow> 'a list \<Rightarrow> bool" where
  "heap_above key n E h \<longleftrightarrow> n \<le> length h \<and> (\<forall>k. 0 < k \<and> k < n \<and> (k - 1) div 2 \<notin> E \<longrightarrow> key (h ! ((k - 1) div 2)) \<le> key (h ! k))"

definition is_heap :: "('a \<Rightarrow> 'k::linorder) \<Rightarrow> 'a list \<Rightarrow> bool" where
  "is_heap key h \<longleftrightarrow> heap_above key (length h) {} h"

lemma is_heap_first:
  assumes "is_heap key h" "k < length h"
  shows "key (h ! 0) \<le> key (h ! k)"
  using assms(2)
proof (induction k rule: less_induct)
  case (less k)
  show ?case
  proof (cases "k = 0")
    case False
    then have "key (h ! ((k - 1) div 2)) \<le> key (h ! k)" using assms(1) less.prems by (simp add: is_heap_def heap_above_def)
    moreover have "(k - 1) div 2 < k" using False by simp
    ultimately show ?thesis using less by force
  qed simp
qed

lemma length_heap_down [simp]: "length (heap_down key n i h) = length h"
  by (induction key n i h rule: heap_down.induct) (subst heap_down.simps, simp add: Let_def)

lemma mset_heap_down: "n \<le> length h \<Longrightarrow> i < n \<or> n \<le> 2 * i + 1 \<Longrightarrow> mset (heap_down key n i h) = mset h"
proof (induction key n i h rule: heap_down.induct)
  case (1 key n i h)
  then show ?case by (subst heap_down.simps) (auto simp: Let_def)
qed

lemma heap_down_beyond: "n \<le> k \<Longrightarrow> i < n \<Longrightarrow> n \<le> length h \<Longrightarrow> heap_down key n i h ! k = h ! k"
proof (induction key n i h rule: heap_down.induct)
  case (1 key n i h)
  then show ?case by (subst heap_down.simps) (auto simp: Let_def swap_nth)
qed

lemma heap_aboveD: "heap_above key n E h \<Longrightarrow> 0 < k \<Longrightarrow> k < n \<Longrightarrow> (k - 1) div 2 \<notin> E \<Longrightarrow> key (h ! ((k - 1) div 2)) \<le> key (h ! k)"
  by (simp add: heap_above_def)

text \<open>Sifting down repairs the order below \<open>i\<close> when everything below \<open>i\<close> is at least its parent.\<close>

lemma heap_down_heap:
  "heap_above key n {i} h \<Longrightarrow> (\<And>k. 0 < i \<Longrightarrow> k < n \<Longrightarrow> 0 < k \<Longrightarrow> (k - 1) div 2 = i \<Longrightarrow> key (h ! ((i - 1) div 2)) \<le> key (h ! k)) \<Longrightarrow>
   heap_above key n {} (heap_down key n i h)"
proof (induction key n i h rule: heap_down.induct)
  case (1 key n i h)
  define j where "j = (if 2 * i + 1 + 1 < n \<and> key (h ! (2 * i + 1 + 1)) < key (h ! (2 * i + 1)) then 2 * i + 1 + 1 else 2 * i + 1)"
  have unf: "heap_down key n i h =
      (if 2 * i + 1 \<ge> n then h else if \<not> key (h ! j) < key (h ! i) then h else heap_down key n j (swap i j h))"
    by (subst heap_down.simps) (simp only: Let_def j_def)
  have n: "n \<le> length h" using "1.prems"(1) by (simp add: heap_above_def)
  consider "2 * i + 1 \<ge> n" | "2 * i + 1 < n" "\<not> key (h ! j) < key (h ! i)" | "2 * i + 1 < n" "key (h ! j) < key (h ! i)" by linarith
  then show ?case
  proof cases
    case 1
    then have "heap_above key n {} h"
      using "1.prems"(1) by (fastforce simp: heap_above_def)
    then show ?thesis using 1 by (simp add: unf)
  next
    case 2
    have child: "k = 2 * i + 1 \<or> k = 2 * i + 2" if "0 < k" "(k - 1) div 2 = i" for k using that by linarith
    have "key (h ! i) \<le> key (h ! k)" if "k < n" "0 < k" "(k - 1) div 2 = i" for k
      using 2 child[OF that(2,3)] that(1) by (auto simp: j_def split: if_splits)
    then have "heap_above key n {} h"
      using "1.prems"(1) n unfolding heap_above_def by auto
    then show ?thesis using 2 by (simp add: unf)
  next
    case 3
    have j: "j < n" "i < n" "i < length h" "j < length h" "(j - 1) div 2 = i" "0 < j" "i < j" "i \<noteq> j"
      using 3(1) n by (auto simp: j_def)
    have child: "k = 2 * i + 1 \<or> k = 2 * i + 2" if "0 < k" "(k - 1) div 2 = i" for k using that by linarith
    have least: "key (h ! j) \<le> key (h ! k)" if "k < n" "0 < k" "(k - 1) div 2 = i" for k
      using child[OF that(2,3)] that(1) by (auto simp: j_def)
    have par: "key (h ! ((i - 1) div 2)) \<le> key (h ! i)" if "0 < i"
      using heap_aboveD[OF "1.prems"(1), of i] that j by simp
    have up: "(i - 1) div 2 \<noteq> i \<and> (i - 1) div 2 \<noteq> j" if "0 < i" using that j(7) by linarith
    have "heap_above key n {j} (swap i j h)"
      unfolding heap_above_def
    proof (intro conjI allI impI)
      fix k assume k: "0 < k \<and> k < n \<and> (k - 1) div 2 \<notin> {j}"
      show "key (swap i j h ! ((k - 1) div 2)) \<le> key (swap i j h ! k)"
      proof (cases "(k - 1) div 2 = i")
        case True
        then show ?thesis using k j least[of k] 3(2) by (auto simp: swap_nth)
      next
        case False
        then show ?thesis
          using k j heap_aboveD[OF "1.prems"(1), of k] "1.prems"(2)[of j] par up by (auto simp: swap_nth)
      qed
    qed (use n in simp)
    moreover have "key (swap i j h ! ((j - 1) div 2)) \<le> key (swap i j h ! k)" if "k < n" "0 < k" "(k - 1) div 2 = j" for k
      using that j heap_aboveD[OF "1.prems"(1), of k] by (auto simp: swap_nth)
    ultimately have "heap_above key n {} (heap_down key n j (swap i j h))"
      using "1.IH"[OF refl _ j_def] 3 by simp
    then show ?thesis using 3 by (simp add: unf)
  qed
qed

lemma length_heap_up [simp]: "length (heap_up key j h) = length h"
  by (induction key j h rule: heap_up.induct) (subst heap_up.simps, simp add: Let_def)

lemma mset_heap_up: "j < length h \<Longrightarrow> mset (heap_up key j h) = mset h"
proof (induction key j h rule: heap_up.induct)
  case (1 key j h)
  then show ?case by (subst heap_up.simps) (auto simp: Let_def)
qed

text \<open>Sifting up repairs the order between \<open>j\<close> and its ancestors.\<close>

lemma heap_up_heap:
  "j < length h \<Longrightarrow>
   (\<And>k. 0 < k \<Longrightarrow> k < length h \<Longrightarrow> k \<noteq> j \<Longrightarrow> key (h ! ((k - 1) div 2)) \<le> key (h ! k)) \<Longrightarrow>
   (\<And>k. 0 < j \<Longrightarrow> 0 < k \<Longrightarrow> k < length h \<Longrightarrow> (k - 1) div 2 = j \<Longrightarrow> key (h ! ((j - 1) div 2)) \<le> key (h ! k)) \<Longrightarrow>
   is_heap key (heap_up key j h)"
proof (induction key j h rule: heap_up.induct)
  case (1 key j h)
  let ?i = "(j - 1) div 2"
  show ?case
  proof (cases "?i = j \<or> \<not> key (h ! j) < key (h ! ?i)")
    case True
    then have "key (h ! ((k - 1) div 2)) \<le> key (h ! k)" if "0 < k" "k < length h" for k
      using "1.prems"(2)[OF that] that by (cases "k = j") auto
    then have "is_heap key h" by (simp add: is_heap_def heap_above_def)
    moreover have "heap_up key j h = h" using True by (subst heap_up.simps) (simp only: Let_def if_True)
    ultimately show ?thesis by simp
  next
    case False
    then have j: "0 < j" "?i < j" "?i < length h" "key (h ! j) < key (h ! ?i)" using "1.prems"(1) by auto
    have par: "key (h ! ((?i - 1) div 2)) \<le> key (h ! ?i)" if "0 < ?i"
      using "1.prems"(2)[OF that] j by auto
    have up: "(?i - 1) div 2 \<noteq> j" using j(1,2) by linarith
    have "heap_up key j h = heap_up key ?i (swap ?i j h)" using False by (subst heap_up.simps) (simp only: Let_def if_False)
    moreover have "is_heap key (heap_up key ?i (swap ?i j h))"
    proof (rule "1.IH"[OF refl False])
      fix k assume k: "0 < k" "k < length (swap ?i j h)" "k \<noteq> ?i"
      show "key (swap ?i j h ! ((k - 1) div 2)) \<le> key (swap ?i j h ! k)"
      proof (cases "k = j")
        case True
        then show ?thesis using j "1.prems"(1) by (auto simp: swap_nth)
      next
        case kj: False
        then show ?thesis
          using "1.prems"(2)[OF k(1) _ kj] "1.prems"(3)[OF j(1) k(1)] j k "1.prems"(1) by (auto simp: swap_nth)
      qed
    next
      fix k assume k: "0 < ?i" "0 < k" "k < length (swap ?i j h)" "(k - 1) div 2 = ?i"
      show "key (swap ?i j h ! ((?i - 1) div 2)) \<le> key (swap ?i j h ! k)"
        using par[OF k(1)] "1.prems"(2)[OF k(2)] k j up "1.prems"(1)
        by (cases "k = j") (auto simp: swap_nth intro: order_trans)
    qed (use j in simp)
    ultimately show ?thesis by simp
  qed
qed

lemma heap_Push_ok:
  assumes "is_heap key h"
  shows "is_heap key (heap_Push key x h)" "mset (heap_Push key x h) = add_mset x (mset h)"
proof -
  have "key ((h @ [x]) ! ((k - 1) div 2)) \<le> key ((h @ [x]) ! k)" if "0 < k" "k < length (h @ [x])" "k \<noteq> length h" for k
    using assms that by (auto simp: is_heap_def heap_above_def nth_append)
  moreover have "(k - 1) div 2 \<noteq> length h" if "0 < k" "k < length (h @ [x])" for k using that by auto
  ultimately show "is_heap key (heap_Push key x h)" unfolding heap_Push_def by (intro heap_up_heap) auto
  show "mset (heap_Push key x h) = add_mset x (mset h)" by (simp add: heap_Push_def mset_heap_up)
qed

lemma heap_Fix_ok:
  assumes "is_heap key (x # h)"
  shows "is_heap key (heap_Fix key (y # h))" "mset (heap_Fix key (y # h)) = add_mset y (mset h)"
proof -
  have "heap_above key (length (y # h)) {0} (y # h)"
    unfolding heap_above_def
  proof (intro conjI allI impI)
    fix k assume k: "0 < k \<and> k < length (y # h) \<and> (k - 1) div 2 \<notin> {0}"
    then show "key ((y # h) ! ((k - 1) div 2)) \<le> key ((y # h) ! k)"
      using assms by (auto simp: is_heap_def heap_above_def nth_Cons' dest!: spec[of _ k])
  qed simp
  then show "is_heap key (heap_Fix key (y # h))"
    using heap_down_heap[of key "length (y # h)" 0 "y # h"] by (simp add: is_heap_def heap_Fix_def)
  show "mset (heap_Fix key (y # h)) = add_mset y (mset h)" by (simp add: heap_Fix_def mset_heap_down)
qed

lemma heap_up_first: "0 < j \<Longrightarrow> j < length h \<Longrightarrow> \<not> key (h ! j) < key (h ! 0) \<Longrightarrow> heap_up key j h ! 0 = h ! 0"
proof (induction key j h rule: heap_up.induct)
  case (1 key j h)
  let ?i = "(j - 1) div 2"
  show ?case
  proof (cases "?i = j \<or> \<not> key (h ! j) < key (h ! ?i)")
    case True
    then show ?thesis by (subst heap_up.simps) (simp only: Let_def if_True)
  next
    case False
    then have i: "0 < ?i" "?i < length h" "?i < j" using "1.prems" by (cases "?i = 0"; auto)+
    have "heap_up key j h = heap_up key ?i (swap ?i j h)" using False by (subst heap_up.simps) (simp only: Let_def if_False)
    moreover have "heap_up key ?i (swap ?i j h) ! 0 = swap ?i j h ! 0"
      using "1.IH"[OF refl False i(1)] i "1.prems" by (simp add: swap_nth)
    ultimately show ?thesis using i "1.prems" by (simp add: swap_nth)
  qed
qed

lemma heap_Push_first:
  assumes "key x \<le> key y"
  shows "heap_Push key y (x # h) \<noteq> [] \<and> hd (heap_Push key y (x # h)) = x"
proof -
  have "heap_up key (length (x # h)) ((x # h) @ [y]) ! 0 = ((x # h) @ [y]) ! 0"
    using assms by (intro heap_up_first) (simp_all add: nth_append not_less)
  moreover have ne: "heap_Push key y (x # h) \<noteq> []" by (simp add: heap_Push_def flip: length_greater_0_conv)
  ultimately show ?thesis by (simp add: heap_Push_def hd_conv_nth)
qed

text \<open>The removed element may have changed: it is never compared.\<close>

lemma heap_Pop_ok:
  assumes "is_heap key (x # h)"
  shows "is_heap key (heap_Pop key (y # h))" "mset (heap_Pop key (y # h)) = mset h"
proof -
  define n where "n = length h"
  define s where "s = swap 0 n (y # h)"
  have s: "length s = Suc n" "mset s = mset (y # h)" by (simp_all add: s_def n_def del: mset.simps)
  have pop: "heap_Pop key (y # h) = take n (heap_down key n 0 s)" by (simp add: heap_Pop_def n_def s_def Let_def)
  have nth: "s ! k = (x # h) ! k" if "0 < k" "k < n" for k using that by (simp add: s_def n_def swap_nth nth_Cons')
  have "heap_above key n {0} s"
    unfolding heap_above_def
  proof (intro conjI allI impI)
    fix k assume k: "0 < k \<and> k < n \<and> (k - 1) div 2 \<notin> {0}"
    then have "key ((x # h) ! ((k - 1) div 2)) \<le> key ((x # h) ! k)"
      using assms unfolding is_heap_def heap_above_def n_def by (metis length_Cons less_SucI empty_iff)
    then show "key (s ! ((k - 1) div 2)) \<le> key (s ! k)" using nth[of k] nth[of "(k - 1) div 2"] k by auto
  qed (simp add: s)
  then have "heap_above key n {} (heap_down key n 0 s)" by (rule heap_down_heap) simp
  then show "is_heap key (heap_Pop key (y # h))"
    unfolding pop is_heap_def heap_above_def by (auto simp: s)
  have last: "heap_down key n 0 s ! n = y"
  proof (cases "n = 0")
    case True
    then show ?thesis by (subst heap_down.simps) (simp add: s_def swap_def)
  next
    case False
    then show ?thesis using heap_down_beyond[of n n 0 s key] s(1) by (simp add: s_def swap_nth n_def)
  qed
  have "mset (heap_down key n 0 s) = mset (y # h)"
    using mset_heap_down[of n s 0 key] s by (cases "n = 0") auto
  moreover have "heap_down key n 0 s = take n (heap_down key n 0 s) @ [heap_down key n 0 s ! n]"
    using take_Suc_conv_app_nth[of n "heap_down key n 0 s"] s(1) by simp
  ultimately have "mset (take n (heap_down key n 0 s)) + {#y#} = mset (y # h)"
    unfolding last by (metis mset_append mset.simps(1) mset.simps(2))
  then show "mset (heap_Pop key (y # h)) = mset h" unfolding pop by simp
qed

section \<open>The interface\<close>

text \<open>A queue with its least element in front: what the merge of journal files relies on.\<close>

locale min_queue =
  fixes key :: "'a \<Rightarrow> 'k::linorder" and inv :: "'a list \<Rightarrow> bool"
    and push :: "'a \<Rightarrow> 'a list \<Rightarrow> 'a list" and pop :: "'a list \<Rightarrow> 'a list" and fix_first :: "'a list \<Rightarrow> 'a list"
  assumes inv_Nil: "inv []"
    and push_inv: "inv h \<Longrightarrow> inv (push x h)" and push_mset: "inv h \<Longrightarrow> mset (push x h) = add_mset x (mset h)"
    and push_first: "inv (x # h) \<Longrightarrow> key x \<le> key y \<Longrightarrow> push y (x # h) \<noteq> [] \<and> hd (push y (x # h)) = x"
    and pop_inv: "inv (x # h) \<Longrightarrow> inv (pop (y # h))" and pop_mset: "inv (x # h) \<Longrightarrow> mset (pop (y # h)) = mset h"
    and fix_inv: "inv (x # h) \<Longrightarrow> inv (fix_first (y # h))" and fix_mset: "inv (x # h) \<Longrightarrow> mset (fix_first (y # h)) = add_mset y (mset h)"
    and first_least: "inv (x # h) \<Longrightarrow> y \<in> set h \<Longrightarrow> key x \<le> key y"
begin

lemma push_set: "inv h \<Longrightarrow> set (push x h) = insert x (set h)"
  using push_mset[of h x] by (metis set_mset_mset set_mset_add_mset_insert)

lemma pop_set: "inv (x # h) \<Longrightarrow> set (pop (y # h)) = set h"
  using pop_mset[of x h y] by (metis set_mset_mset)

lemma fix_set: "inv (x # h) \<Longrightarrow> set (fix_first (y # h)) = insert y (set h)"
  using fix_mset[of x h y] by (metis set_mset_mset set_mset_add_mset_insert)

text \<open>An element pushed behind the first one leaves the first one and the others where they are, as a queue.\<close>

lemma push_behind:
  assumes "inv (x # h)" "key x \<le> key y"
  obtains t where "push y (x # h) = x # t" "mset t = add_mset y (mset h)" "set t = insert y (set h)"
proof -
  obtain t where t: "push y (x # h) = x # t" using push_first[OF assms] by (metis list.exhaust_sel)
  then have "add_mset x (mset t) = add_mset y (add_mset x (mset h))" using push_mset[OF assms(1), of y] by simp
  then have m: "mset t = add_mset y (mset h)" by (simp add: add_mset_commute)
  then have "set t = insert y (set h)" by (metis set_mset_mset set_mset_add_mset_insert)
  then show ?thesis using that t m by blast
qed

end

interpretation heap: min_queue key "is_heap key" "heap_Push key" "heap_Pop key" "heap_Fix key"
proof unfold_locales
  fix x h y
  assume a: "is_heap key (x # h)" "y \<in> set h"
  then obtain k where "k < length h" "h ! k = y" by (auto simp: in_set_conv_nth)
  then show "key x \<le> key y" using is_heap_first[OF a(1), of "Suc k"] by simp
qed (simp_all add: heap_Push_ok heap_Pop_ok heap_Fix_ok heap_Push_first, simp add: is_heap_def heap_above_def)

end
