(* ===== verification/Manifest_Journal.thy ===== *)
theory Manifest_Journal
  imports Manifest_Line Manifest_Spec Min_Heap Blob_Read Ident
begin

text \<open>
  Package \<^verbatim>\<open>internal/manifest\<close>, \<^verbatim>\<open>journal.go\<close>: reading the journal of a generation. A bounded-memory line reader,
  a cursor per file with read-ahead, and the merge of the main journal with its linked
  submanifests by sequence number into the live state. Files are those of the crash file system, with device
  faults as a parameter (per file name). The reader's buffer is modelled by its bytes between \<open>start\<close>
  and \<open>n\<close> and its capacity: the code moves them to the front before it looks at the room behind them.
\<close>

section \<open>Lines of a file\<close>

abbreviation (input) LF :: byte where "LF \<equiv> 0x0A"

record lineReader =
  lr_limit :: nat
  lr_off :: nat
  lr_buf :: bytes
  lr_cap :: nat
  lr_eof :: bool

definition newLineReader :: "nat \<Rightarrow> lineReader" where
  "newLineReader limit = \<lparr> lr_limit = limit, lr_off = 0, lr_buf = [], lr_cap = 65536, lr_eof = False \<rparr>"

text \<open>What \<open>next\<close> returns: a line and its offset, \<open>errTooLong\<close>, \<open>io.EOF\<close> with the offset and length of an unterminated tail,
  or the error of a read.\<close>

datatype line_event = Line bytes nat | TooLong nat | AtEnd nat nat | ReadErr error

fun index_byte :: "byte \<Rightarrow> bytes \<Rightarrow> nat option" where
  "index_byte c [] = None"
| "index_byte c (b # bs) = (if b = c then Some 0 else map_option Suc (index_byte c bs))"

text \<open>The room behind the buffered bytes: grow the buffer, or drop what is longer than any line.\<close>

definition make_room :: "bool \<Rightarrow> nat \<Rightarrow> lineReader \<Rightarrow> bool \<times> nat \<times> lineReader" where
  "make_room discarding discarded lr =
    (if length (lr_buf lr) = lr_cap lr then
       (if lr_cap lr \<le> MaxLineBytes then (discarding, discarded, lr\<lparr> lr_cap := 2 * lr_cap lr \<rparr>)
        else (True, discarded + length (lr_buf lr), lr\<lparr> lr_off := lr_off lr + length (lr_buf lr), lr_buf := [] \<rparr>))
     else (discarding, discarded, lr))"

function next_loop :: "reader \<Rightarrow> nat \<Rightarrow> bool \<Rightarrow> nat \<Rightarrow> lineReader \<Rightarrow> line_event \<times> lineReader" where
  "next_loop rd scanned discarding discarded lr =
    (case index_byte LF (drop scanned (lr_buf lr)) of
       Some i \<Rightarrow>
         (let n = scanned + i; line = take n (lr_buf lr); at = lr_off lr;
              lr' = lr\<lparr> lr_off := lr_off lr + n + 1, lr_buf := drop (n + 1) (lr_buf lr) \<rparr>
          in if discarding then (TooLong (at - discarded), lr')
             else if length line > MaxLineBytes then (TooLong at, lr')
             else (Line line at, lr'))
     | None \<Rightarrow>
         (if lr_eof lr then (AtEnd (lr_off lr - discarded) (discarded + length (lr_buf lr)), lr)
          else case make_room discarding discarded lr of (discarding, discarded, lr) \<Rightarrow>
            (let pos = lr_off lr + length (lr_buf lr);
                 scanned = length (lr_buf lr);
                 want = min (lr_cap lr - length (lr_buf lr)) (lr_limit lr - pos)
             in if want = 0 then next_loop rd scanned discarding discarded (lr\<lparr> lr_eof := True \<rparr>)
                else case rd pos want of (got, err) \<Rightarrow>
                  (let lr = lr\<lparr> lr_buf := lr_buf lr @ take want got \<rparr>
                   in case err of
                        None \<Rightarrow> next_loop rd scanned discarding discarded (if got = [] then lr\<lparr> lr_eof := True \<rparr> else lr)
                      | Some e \<Rightarrow> if err_class_of e = ErrEOF then next_loop rd scanned discarding discarded (lr\<lparr> lr_eof := True \<rparr>)
                                else (ReadErr e, lr)))))"
  by pat_completeness auto
termination
  by (relation "measure (\<lambda>(rd, scanned, discarding, discarded, lr).
        if lr_eof lr then 0 else Suc (lr_limit lr - (lr_off lr + length (lr_buf lr))))")
    (auto simp: make_room_def intro!: diff_less_mono2 split: if_splits)

declare next_loop.simps [simp del]

definition lr_next :: "reader \<Rightarrow> lineReader \<Rightarrow> line_event \<times> lineReader" where
  "lr_next rd lr = next_loop rd 0 False 0 lr"

section \<open>Cursors\<close>

abbreviation (input) ManifestName :: string where "ManifestName \<equiv> ''manifest.jsonl''"
abbreviation (input) MaxLinkedManifests :: nat where "MaxLinkedManifests \<equiv> 65535"

record LoadOptions =
  lo_Limit :: nat
  lo_Limits :: Limits
  lo_TrackRefs :: bool

record LoadInfo =
  li_ValidEnd :: nat
  li_Torn :: nat
  li_TornReason :: string
  li_Linked :: nat

definition noLoadInfo :: LoadInfo where
  "noLoadInfo = \<lparr> li_ValidEnd = 0, li_Torn = 0, li_TornReason = [], li_Linked = 0 \<rparr>"

text \<open>A read-ahead item: the event, whether the line has a NUL byte, and the decoded line (only for lines
  without one).\<close>

record lineItem =
  it_event :: line_event
  it_nul :: bool
  it_rec :: "Record result option"

text \<open>\<open>c_ahead\<close> are the items not yet consumed (\<open>ahead[next:]\<close>).\<close>

record cursor =
  c_file :: nat
  c_f :: crashFile
  c_lr :: lineReader
  c_rec :: "Record option"
  c_last :: u64
  c_main :: bool
  c_minSeq :: u64
  c_ahead :: "lineItem list"
  c_batch :: nat

definition newCursor :: "nat \<Rightarrow> crashFile \<Rightarrow> nat \<Rightarrow> bool \<Rightarrow> u64 \<Rightarrow> cursor" where
  "newCursor file f limit main minSeq = \<lparr> c_file = file, c_f = f, c_lr = newLineReader limit, c_rec = None, c_last = 0,
     c_main = main, c_minSeq = minSeq, c_ahead = [], c_batch = 0 \<rparr>"

text \<open>The reading loop of \<open>fill\<close>; \<open>arena\<close> is the number of bytes of the lines read.\<close>

function fill_loop :: "reader \<Rightarrow> bool \<Rightarrow> nat \<Rightarrow> (line_event \<times> bool) list \<Rightarrow> nat \<Rightarrow> lineReader \<Rightarrow> (line_event \<times> bool) list \<times> lineReader" where
  "fill_loop rd main batch ahead arena lr =
    (if length ahead < batch \<and> arena < 8388608 then
       (case lr_next rd lr of (ev, lr1) \<Rightarrow>
          (case ev of
             Line line at \<Rightarrow>
               (let nul = (main \<and> index_byte 0 line \<noteq> None) in
                if nul then (ahead @ [(ev, True)], lr1)
                else fill_loop rd main batch (ahead @ [(ev, False)]) (arena + length line) lr1)
           | _ \<Rightarrow> (ahead @ [(ev, False)], lr1)))
     else (ahead, lr))"
  by pat_completeness auto
termination by (relation "measure (\<lambda>(rd, main, batch, ahead, arena, lr). batch - length ahead)") auto

declare fill_loop.simps [simp del]

text \<open>The decoding of a line is a function of the line alone; the goroutines of \<open>fill\<close> write different items.\<close>

definition decode_item :: "(bytes \<Rightarrow> bool) \<Rightarrow> bool \<Rightarrow> line_event \<times> bool \<Rightarrow> lineItem" where
  "decode_item isNormal encrypted x =
    (case x of (ev, nul) \<Rightarrow> \<lparr> it_event = ev, it_nul = nul,
       it_rec = (case ev of Line line at \<Rightarrow> if nul then None else Some (DecodeLine isNormal line encrypted) | _ \<Rightarrow> None) \<rparr>)"

definition cursor_fill :: "(bytes \<Rightarrow> bool) \<Rightarrow> reader \<Rightarrow> bool \<Rightarrow> cursor \<Rightarrow> cursor" where
  "cursor_fill isNormal rd encrypted c =
    (let batch = (if c_batch c = 0 then 64 else if c_batch c < 4096 then c_batch c * 2 else c_batch c);
         (ahead, lr) = fill_loop rd (c_main c) batch [] 0 (c_lr c)
     in c\<lparr> c_batch := batch, c_ahead := map (decode_item isNormal encrypted) ahead, c_lr := lr \<rparr>)"

text \<open>\<open>advance\<close>: the next record, \<open>None\<close> at the end. \<open>info\<close> is what \<open>torn\<close> points to; only the main
  journal's cursor has it. \<open>fsize\<close> is what \<open>Size\<close> of the file returns.\<close>

definition consume :: "nat \<Rightarrow> LoadInfo \<Rightarrow> cursor \<Rightarrow> lineItem \<Rightarrow> LoadInfo \<times> cursor result" where
  "consume fsize info c it =
    (case it_event it of
       AtEnd at tail \<Rightarrow>
         if tail > 0 then
           (if \<not> c_main c then (info, json_corrupt)
            else (info\<lparr> li_ValidEnd := at, li_Torn := tail, li_TornReason := ''unterminated'' \<rparr>, Inr c))
         else (if c_main c then info\<lparr> li_ValidEnd := at \<rparr> else info, Inr c)
     | TooLong at \<Rightarrow> (info, json_corrupt)
     | ReadErr e \<Rightarrow> (info, Inl e)
     | Line line at \<Rightarrow>
         if it_nul it then
           (info\<lparr> li_ValidEnd := at, li_Torn := min fsize (lr_limit (c_lr c)) - at, li_TornReason := ''NUL'' \<rparr>, Inr c)
         else case it_rec it of
             Some (Inr r) \<Rightarrow>
               if rec_Seq r \<le> c_last c \<or> rec_Seq r \<le> c_minSeq c then (info, json_corrupt)
               else (info, Inr (c\<lparr> c_last := rec_Seq r, c_rec := Some r \<rparr>))
           | Some (Inl e) \<Rightarrow> (info, Inl e)
           | None \<Rightarrow> (info, Inr c))"

definition advance :: "(bytes \<Rightarrow> bool) \<Rightarrow> reader \<Rightarrow> nat \<Rightarrow> bool \<Rightarrow> LoadInfo \<Rightarrow> cursor \<Rightarrow> LoadInfo \<times> cursor result" where
  "advance isNormal rd fsize encrypted info c0 =
    (let c1 = c0\<lparr> c_rec := None \<rparr>;
         c2 = (if c_ahead c1 = [] then cursor_fill isNormal rd encrypted c1 else c1)
     in case c_ahead c2 of
          [] \<Rightarrow> (info, Inr c2)
        | it # items \<Rightarrow> consume fsize info (c2\<lparr> c_ahead := items \<rparr>) it)"

section \<open>Linked manifests\<close>

text \<open>\<^verbatim>\<open>path.Join\<close> of two non-empty elements; a path of a record is the bytes of a Go string.\<close>

definition path_Join :: "string \<Rightarrow> string \<Rightarrow> string" where
  "path_Join a b = path_Clean (a @ ''/'' @ b)"

definition string_of :: "bytes \<Rightarrow> string" where
  "string_of b = map (\<lambda>c. char_of (unat c)) b"

definition rdonly_flags :: open_flags where
  "rdonly_flags = \<lparr> O_CREATE = False, O_EXCL = False, O_TRUNC = False, O_WRITE = False \<rparr>"

definition newHash :: "hashes \<Rightarrow> HashID \<Rightarrow> bytes \<Rightarrow> bytes" where
  "newHash H hid = (if hid = HashBLAKE3 then blake3 H else sha256 H)"

text \<open>A read of at least one byte that returns none returns an error.\<close>

lemma file_reader_progress: "file_reader fault fs f off n = ([], None) \<Longrightarrow> n = 0"
  by (auto simp: file_reader_def ReadAt_def Let_def split: if_splits)

text \<open>The reading loop of \<open>openLinked\<close>: the bytes written to the hash and the number of line feeds.\<close>

function linked_loop :: "(nat \<Rightarrow> nat \<Rightarrow> bool) \<Rightarrow> CrashFS \<Rightarrow> crashFile \<Rightarrow> nat \<Rightarrow> nat \<Rightarrow> bytes \<Rightarrow> u64 \<Rightarrow> (bytes \<times> u64) result" where
  "linked_loop fault fs f sz off hashed lines =
    (if off < sz then
       (case file_reader fault fs f off (min 65536 (sz - off)) of (got, err) \<Rightarrow>
          (if got = [] \<and> err \<noteq> None then Inl (the err)
           else linked_loop fault fs f sz (off + length got) (hashed @ got) (lines + word_of_nat (count_list got LF))))
     else Inr (hashed, lines))"
  by pat_completeness auto
termination
proof (relation "measure (\<lambda>(fault, fs, f, sz, off, hashed, lines). sz - off)", goal_cases)
  case (2 fault fs f sz off hashed lines got err)
  then have "got \<noteq> []" using file_reader_progress[of fault fs f off "min 65536 (sz - off)"] by (cases err) auto
  then show ?case using 2 by (simp add: diff_less_mono2)
qed simp

declare linked_loop.simps [simp del]

definition openLinked :: "hashes \<Rightarrow> (string \<Rightarrow> nat \<Rightarrow> nat \<Rightarrow> bool) \<Rightarrow> CrashFS \<Rightarrow> string \<Rightarrow> ArchiveHeader \<Rightarrow> Record \<Rightarrow> nat \<Rightarrow> cursor result" where
  "openLinked H fault fs genDir h link n =
    (case OpenFile fs (path_Join genDir (string_of (rec_Path link))) rdonly_flags of
       Inl e \<Rightarrow> Inl e
     | Inr (_, f) \<Rightarrow>
       (case linked_loop (fault (cf_name f)) fs f (file_Size fs f) 0 [] 0 of
          Inl e \<Rightarrow> Inl e
        | Inr (hashed, lines) \<Rightarrow>
          if newHash H (h_HashID h) hashed \<noteq> rec_Hash link then errf ErrCorrupt ''Manifest'' ''LINK_MANIFEST''
          else if lines \<noteq> rec_Lines link then errf ErrCorrupt ''Manifest'' ''LINK_MANIFEST''
          else Inr (newCursor n f (file_Size fs f) False (rec_Seq link))))"

section \<open>Merging the journal files\<close>

definition cursor_key :: "cursor \<Rightarrow> u64" where
  "cursor_key c = (case c_rec c of Some r \<Rightarrow> rec_Seq r | None \<Rightarrow> 0)"

text \<open>The reader and the size of a cursor's file.\<close>

definition advance_in :: "(bytes \<Rightarrow> bool) \<Rightarrow> (string \<Rightarrow> nat \<Rightarrow> nat \<Rightarrow> bool) \<Rightarrow> CrashFS \<Rightarrow> bool \<Rightarrow> LoadInfo \<Rightarrow> cursor \<Rightarrow> LoadInfo \<times> cursor result" where
  "advance_in isNormal fault fs enc info c =
    advance isNormal (file_reader (fault (cf_name (c_f c))) fs (c_f c)) (file_Size fs (c_f c)) enc info c"

text \<open>A \<^verbatim>\<open>LINK_MANIFEST\<close> record: the linked file becomes a cursor of the queue.\<close>

definition load_link :: "hashes \<Rightarrow> (bytes \<Rightarrow> bool) \<Rightarrow> (string \<Rightarrow> nat \<Rightarrow> nat \<Rightarrow> bool) \<Rightarrow> CrashFS \<Rightarrow> string \<Rightarrow> ArchiveHeader \<Rightarrow>
    Record \<Rightarrow> LoadInfo \<Rightarrow> cursor list \<Rightarrow> bytes list \<Rightarrow> LoadInfo \<times> (cursor list \<times> bytes list) result" where
  "load_link H isNormal fault fs genDir h r info hp linked =
    (if rec_Path r \<in> set linked then (info, json_corrupt)
     else if length linked \<ge> MaxLinkedManifests then (info, errf ErrResource ''Manifest'' [])
     else case openLinked H fault fs genDir h r (length linked + 1) of
       Inl e \<Rightarrow> (info, Inl e)
     | Inr lc \<Rightarrow>
       (case advance_in isNormal fault fs (Encrypted h) info lc of
          (info, Inl e) \<Rightarrow> (info, Inl e)
        | (info, Inr lc) \<Rightarrow>
          (info\<lparr> li_Linked := li_Linked info + 1 \<rparr>,
           Inr (if c_rec lc \<noteq> None then heap_Push cursor_key lc hp else hp, rec_Path r # linked))))"

text \<open>
  The loop of \<open>LoadWith\<close>. \<open>trace\<close> are the calls of \<open>each\<close>, last first. The cursor in front is taken before a linked
  one is pushed; the pushed one's record has a greater sequence number, so the cursor is still
  in front when it is advanced (\<open>heap.push_behind\<close>).
\<close>

partial_function (option) merge_loop :: "hashes \<Rightarrow> (bytes \<Rightarrow> bool) \<Rightarrow> (string \<Rightarrow> nat \<Rightarrow> nat \<Rightarrow> bool) \<Rightarrow> CrashFS \<Rightarrow> string \<Rightarrow> ArchiveHeader \<Rightarrow>
    State \<Rightarrow> LoadInfo \<Rightarrow> cursor list \<Rightarrow> bytes list \<Rightarrow> (Record \<times> nat) list \<Rightarrow> (LoadInfo \<times> (State \<times> (Record \<times> nat) list) result) option" where
  "merge_loop H isNormal fault fs genDir h st info hp linked trace =
    (case hp of
       [] \<Rightarrow> Some (info, Inr (st, rev trace))
     | c # _ \<Rightarrow>
       (case c_rec c of
          None \<Rightarrow> Some (info, errf ErrOther ''Manifest'' ''nil'')
        | Some r \<Rightarrow>
          (case Apply st r (c_file c) of
             (st, Some e) \<Rightarrow> Some (info, Inl e)
           | (st, None) \<Rightarrow>
             (case (if rec_Op r = OpLinkManifest then load_link H isNormal fault fs genDir h r info hp linked
                    else (info, Inr (hp, linked))) of
                (info, Inl e) \<Rightarrow> Some (info, Inl e)
              | (info, Inr (hp, linked)) \<Rightarrow>
                (case advance_in isNormal fault fs (Encrypted h) info c of
                   (info, Inl e) \<Rightarrow> Some (info, Inl e)
                 | (info, Inr c1) \<Rightarrow>
                   merge_loop H isNormal fault fs genDir h st info
                     (if c_rec c1 = None then heap_Pop cursor_key (hp[0 := c1]) else heap_Fix cursor_key (hp[0 := c1]))
                     linked ((r, c_file c) # trace))))))"

definition LoadWith :: "hashes \<Rightarrow> (bytes \<Rightarrow> bool) \<Rightarrow> (string \<Rightarrow> nat \<Rightarrow> nat \<Rightarrow> bool) \<Rightarrow> CrashFS \<Rightarrow> string \<Rightarrow> ArchiveHeader \<Rightarrow> LoadOptions \<Rightarrow>
    (LoadInfo \<times> (State \<times> (Record \<times> nat) list) result) option" where
  "LoadWith H isNormal fault fs genDir h opt =
    (let info = noLoadInfo;
         st = (if lo_TrackRefs opt then TrackRefs (NewState h (lo_Limits opt)) else NewState h (lo_Limits opt))
     in case OpenFile fs (path_Join genDir ManifestName) rdonly_flags of
          Inl e \<Rightarrow> Some (info, Inl e)
        | Inr (_, mf) \<Rightarrow>
          (let sz = file_Size fs mf in
           if lo_Limit opt > 0 \<and> lo_Limit opt > sz then Some (info, errf ErrCorrupt ''Manifest'' [])
           else let limit = (if lo_Limit opt > 0 then lo_Limit opt else sz) in
             case advance_in isNormal fault fs (Encrypted h) info (newCursor 0 mf limit True 0) of
               (info, Inl e) \<Rightarrow> Some (info, Inl e)
             | (info, Inr c) \<Rightarrow>
               merge_loop H isNormal fault fs genDir h st info
                 (if c_rec c \<noteq> None then heap_Push cursor_key c [] else []) [] []))"

definition Load :: "hashes \<Rightarrow> (bytes \<Rightarrow> bool) \<Rightarrow> (string \<Rightarrow> nat \<Rightarrow> nat \<Rightarrow> bool) \<Rightarrow> CrashFS \<Rightarrow> string \<Rightarrow> ArchiveHeader \<Rightarrow> LoadOptions \<Rightarrow>
    (LoadInfo \<times> State result) option" where
  "Load H isNormal fault fs genDir h opt =
    map_option (\<lambda>(info, res). (info, case res of Inl e \<Rightarrow> Inl e | Inr (st, _) \<Rightarrow> Inr st))
      (LoadWith H isNormal fault fs genDir h opt)"

section \<open>The line reader reads lines\<close>

text \<open>The line that starts at an offset, and what is there instead when none does.\<close>

definition line_at :: "bytes \<Rightarrow> nat \<Rightarrow> line_event" where
  "line_at data off =
    (case index_byte LF (drop off data) of
       Some i \<Rightarrow> if i > MaxLineBytes then TooLong off else Line (take i (drop off data)) off
     | None \<Rightarrow> AtEnd off (length data - off))"

lemma index_byte_None: "index_byte c bs = None \<longleftrightarrow> (\<forall>k < length bs. bs ! k \<noteq> c)"
  by (induction bs) (auto simp: less_Suc_eq_0_disj)

lemma index_byte_Some: "index_byte c bs = Some i \<longleftrightarrow> i < length bs \<and> bs ! i = c \<and> (\<forall>k < i. bs ! k \<noteq> c)"
proof (induction bs arbitrary: i)
  case (Cons b bs)
  then show ?case by (cases i) (auto simp: less_Suc_eq_0_disj)
qed simp

lemma line_at_found:
  assumes "start \<le> p" "p < lim" "lim \<le> length bs" "bs ! p = LF" "\<And>k. start \<le> k \<Longrightarrow> k < p \<Longrightarrow> bs ! k \<noteq> LF"
  shows "line_at (take lim bs) start = (if p - start > MaxLineBytes then TooLong start else Line (seg bs start p) start)"
proof -
  have "index_byte LF (drop start (take lim bs)) = Some (p - start)"
    unfolding index_byte_Some using assms by (auto simp: nth_append less_diff_conv)
  moreover have "take (p - start) (drop start (take lim bs)) = seg bs start p"
    using assms(1,2) by (simp add: seg_def drop_take min_def)
  ultimately show ?thesis by (simp add: line_at_def)
qed

lemma line_at_none:
  assumes "start \<le> lim" "lim \<le> length bs" "\<And>k. start \<le> k \<Longrightarrow> k < lim \<Longrightarrow> bs ! k \<noteq> LF"
  shows "line_at (take lim bs) start = AtEnd start (lim - start)"
proof -
  have "index_byte LF (drop start (take lim bs)) = None"
    unfolding index_byte_None using assms by auto
  then show ?thesis using assms by (simp add: line_at_def min_def)
qed

context random_reader
begin

definition wf_lr :: "lineReader \<Rightarrow> bool" where
  "wf_lr lr \<longleftrightarrow> lr_limit lr \<le> length bs \<and> lr_off lr + length (lr_buf lr) \<le> lr_limit lr \<and>
     lr_buf lr = seg bs (lr_off lr) (lr_off lr + length (lr_buf lr)) \<and>
     (lr_eof lr \<longrightarrow> lr_off lr + length (lr_buf lr) = lr_limit lr) \<and> length (lr_buf lr) \<le> lr_cap lr \<and> 0 < lr_cap lr"

text \<open>The state of the search for the end of the line that starts at \<open>start\<close>.\<close>

definition searching :: "nat \<Rightarrow> nat \<Rightarrow> bool \<Rightarrow> nat \<Rightarrow> lineReader \<Rightarrow> bool" where
  "searching start scanned discarding discarded lr \<longleftrightarrow> wf_lr lr \<and> scanned \<le> length (lr_buf lr) \<and>
     lr_off lr = start + discarded \<and> (if discarding then MaxLineBytes < discarded else discarded = 0) \<and>
     (\<forall>k. start \<le> k \<and> k < lr_off lr + scanned \<longrightarrow> bs ! k \<noteq> LF)"

lemma wf_new: "limit \<le> length bs \<Longrightarrow> wf_lr (newLineReader limit)"
  by (simp add: wf_lr_def newLineReader_def)

lemma buf_nth: "wf_lr lr \<Longrightarrow> k < length (lr_buf lr) \<Longrightarrow> lr_buf lr ! k = bs ! (lr_off lr + k)"
  unfolding wf_lr_def by (metis nth_seg nat_add_left_cancel_less order_trans)

lemma searching_room:
  assumes "searching start scanned d n lr" "index_byte LF (drop scanned (lr_buf lr)) = None" "make_room d n lr = (d', n', lr')"
  shows "searching start (length (lr_buf lr')) d' n' lr'" "length (lr_buf lr') < lr_cap lr'" "lr_limit lr' = lr_limit lr" "lr_eof lr' = lr_eof lr"
proof -
  have no: "bs ! k \<noteq> LF" if "start \<le> k" "k < lr_off lr + length (lr_buf lr)" for k
  proof (cases "k < lr_off lr + scanned")
    case False
    then have k: "k - lr_off lr < length (lr_buf lr)" "scanned \<le> k - lr_off lr" "lr_off lr \<le> k" using that by auto
    then have "drop scanned (lr_buf lr) ! (k - lr_off lr - scanned) = bs ! k"
      using buf_nth[of lr "k - lr_off lr"] assms(1) by (simp add: searching_def)
    then show ?thesis using assms(2) k unfolding index_byte_None by (metis diff_less_mono length_drop)
  qed (use assms(1) that in \<open>simp add: searching_def\<close>)
  show "searching start (length (lr_buf lr')) d' n' lr'" "length (lr_buf lr') < lr_cap lr'" "lr_limit lr' = lr_limit lr" "lr_eof lr' = lr_eof lr"
    using assms(1,3) no by (auto simp: make_room_def searching_def wf_lr_def split: if_splits)
qed

end

context random_reader
begin

text \<open>The outcome of a search: the line of the reference, or a device failure.\<close>

definition found_line :: "nat \<Rightarrow> nat \<Rightarrow> line_event \<times> lineReader \<Rightarrow> bool" where
  "found_line start limit res \<longleftrightarrow>
    (case res of (ev, lr') \<Rightarrow>
      (\<exists>e. ev = ReadErr e \<and> bad \<and> io_failure e) \<or>
      (ev = line_at (take limit bs) start \<and>
       (\<forall>line at. ev = Line line at \<longrightarrow> wf_lr lr' \<and> lr_limit lr' = limit \<and> lr_off lr' = at + length line + 1)))"

lemma searching_hit:
  assumes "searching start scanned d n lr" "index_byte LF (drop scanned (lr_buf lr)) = Some i"
  shows "found_line start (lr_limit lr) (next_loop rd scanned d n lr)"
proof -
  have w: "wf_lr lr" and s: "scanned + i < length (lr_buf lr)" "lr_buf lr ! (scanned + i) = LF"
    and no: "\<And>k. k < i \<Longrightarrow> lr_buf lr ! (scanned + k) \<noteq> LF"
    using assms by (auto simp: searching_def index_byte_Some)
  let ?p = "lr_off lr + scanned + i"
  have "bs ! k \<noteq> LF" if "start \<le> k" "k < ?p" for k
  proof (cases "k < lr_off lr + scanned")
    case False
    then show ?thesis
      using no[of "k - lr_off lr - scanned"] buf_nth[OF w, of "k - lr_off lr"] that s by (auto simp: algebra_simps)
  qed (use assms(1) that in \<open>simp add: searching_def\<close>)
  moreover have p: "bs ! ?p = LF" "?p < lr_limit lr" "lr_limit lr \<le> length bs" "start \<le> ?p"
    using s buf_nth[OF w s(1)] w assms(1) by (auto simp: wf_lr_def searching_def add.assoc)
  ultimately have ref: "line_at (take (lr_limit lr) bs) start =
      (if ?p - start > MaxLineBytes then TooLong start else Line (seg bs start ?p) start)"
    by (intro line_at_found) auto
  let ?lr = "lr\<lparr> lr_off := lr_off lr + (scanned + i) + 1, lr_buf := drop (scanned + i + 1) (lr_buf lr) \<rparr>"
  have "drop (scanned + i + 1) (lr_buf lr) = seg bs (?p + 1) (lr_off lr + length (lr_buf lr))"
  proof -
    have "drop (scanned + i + 1) (seg bs (lr_off lr) (lr_off lr + length (lr_buf lr))) = seg bs (?p + 1) (lr_off lr + length (lr_buf lr))"
      by (simp add: seg_def drop_take algebra_simps)
    then show ?thesis using w unfolding wf_lr_def by (metis (no_types))
  qed
  moreover have "0 < length (lr_buf lr)" using s by linarith
  ultimately have w': "wf_lr ?lr" using w s by (auto simp: wf_lr_def algebra_simps)
  have "take (scanned + i) (lr_buf lr) = seg bs (lr_off lr) ?p"
  proof -
    have "take (scanned + i) (seg bs (lr_off lr) (lr_off lr + length (lr_buf lr))) = seg bs (lr_off lr) ?p"
      using s by (simp add: seg_def min_def algebra_simps)
    then show ?thesis using w unfolding wf_lr_def by (metis (no_types))
  qed
  then show ?thesis
    using assms ref w' p s unfolding found_line_def
    by (subst next_loop.simps) (auto simp: searching_def Let_def split: if_splits)
qed

end

context random_reader
begin

lemma searching_eof:
  assumes "searching start scanned d n lr" "index_byte LF (drop scanned (lr_buf lr)) = None" "lr_eof lr"
  shows "found_line start (lr_limit lr) (next_loop rd scanned d n lr)"
proof -
  obtain d' n' lr' where r: "make_room d n lr = (d', n', lr')" by (cases "make_room d n lr")
  have "bs ! k \<noteq> LF" if "start \<le> k" "k < lr_limit lr" for k
  proof -
    have "lr_limit lr' = lr_off lr' + length (lr_buf lr')"
      using searching_room[OF assms(1,2) r] assms(3) by (simp add: searching_def wf_lr_def)
    then show ?thesis using searching_room[OF assms(1,2) r] that by (simp add: searching_def)
  qed
  then have "line_at (take (lr_limit lr) bs) start = AtEnd start (lr_limit lr - start)"
    using assms(1) by (intro line_at_none) (auto simp: searching_def wf_lr_def)
  then show ?thesis
    using assms unfolding found_line_def
    by (subst next_loop.simps) (auto simp: searching_def wf_lr_def split: if_splits)
qed

lemma wf_lr_read:
  assumes "wf_lr lr" "0 < want" "want \<le> lr_cap lr - length (lr_buf lr)" "lr_off lr + length (lr_buf lr) + want \<le> lr_limit lr" "\<not> lr_eof lr"
  shows "wf_lr (lr\<lparr> lr_buf := lr_buf lr @ seg bs (lr_off lr + length (lr_buf lr)) (lr_off lr + length (lr_buf lr) + want) \<rparr>)"
proof -
  let ?p = "lr_off lr + length (lr_buf lr)"
  have "seg bs (lr_off lr) (?p + want) = seg bs (lr_off lr) ?p @ seg bs ?p (?p + want)" by (rule seg_split) simp_all
  then have "lr_buf lr @ seg bs ?p (?p + want) = seg bs (lr_off lr) (?p + want)" using assms(1) by (simp add: wf_lr_def)
  then show ?thesis using assms by (auto simp: wf_lr_def algebra_simps)
qed

lemma next_loop_ok:
  "searching start scanned d n lr \<Longrightarrow> found_line start (lr_limit lr) (next_loop rd scanned d n lr)"
proof (induction "if lr_eof lr then 0 else Suc (lr_limit lr - (lr_off lr + length (lr_buf lr)))" arbitrary: scanned d n lr rule: less_induct)
  case less
  show ?case
  proof (cases "index_byte LF (drop scanned (lr_buf lr)) = None \<and> \<not> lr_eof lr")
    case False
    then show ?thesis using searching_hit[OF less.prems] searching_eof[OF less.prems] by (cases "index_byte LF (drop scanned (lr_buf lr))") auto
  next
    case True
    obtain d' n' lr' where r: "make_room d n lr = (d', n', lr')" by (cases "make_room d n lr")
    note room = searching_room[OF less.prems conjunct1[OF True] r]
    define pos where "pos = lr_off lr' + length (lr_buf lr')"
    define want where "want = min (lr_cap lr' - length (lr_buf lr')) (lr_limit lr' - pos)"
    have w: "wf_lr lr'" using room(1) by (simp add: searching_def)
    have pos: "pos = lr_off lr + length (lr_buf lr)" using r by (auto simp: make_room_def pos_def split: if_splits)
    have unf: "next_loop rd scanned d n lr =
      (if want = 0 then next_loop rd (length (lr_buf lr')) d' n' (lr'\<lparr> lr_eof := True \<rparr>)
       else case rd pos want of (got, err) \<Rightarrow>
         (let lr = lr'\<lparr> lr_buf := lr_buf lr' @ take want got \<rparr>
          in case err of
               None \<Rightarrow> next_loop rd (length (lr_buf lr')) d' n' (if got = [] then lr\<lparr> lr_eof := True \<rparr> else lr)
             | Some e \<Rightarrow> if err_class_of e = ErrEOF then next_loop rd (length (lr_buf lr')) d' n' (lr\<lparr> lr_eof := True \<rparr>)
                       else (ReadErr e, lr)))"
      using True by (subst next_loop.simps) (simp only: r Let_def pos_def[symmetric] want_def[symmetric] option.case prod.case if_False)
    show ?thesis
    proof (cases "want = 0")
      case want: True
      have "searching start (length (lr_buf lr')) d' n' (lr'\<lparr> lr_eof := True \<rparr>)"
        using room(1,2) want by (auto simp: searching_def wf_lr_def min_def want_def pos_def split: if_splits)
      then show ?thesis using less.hyps[of "lr'\<lparr> lr_eof := True \<rparr>"] True room(3) want unf by simp
    next
      case False
      have in_file: "0 < want" "pos + want \<le> length bs" "pos < lr_limit lr" using False w room(3) by (auto simp: wf_lr_def want_def pos_def)
      show ?thesis
      proof (cases "rd pos want = (seg bs pos (pos + want), None)")
        case got: True
        define lr2 where "lr2 = lr'\<lparr> lr_buf := lr_buf lr' @ seg bs pos (pos + want) \<rparr>"
        have len: "length (seg bs pos (pos + want)) = want" using in_file(2) by simp
        have "wf_lr lr2" unfolding lr2_def pos_def
          by (rule wf_lr_read[OF w in_file(1)]) (use False room(4) True in \<open>auto simp: want_def pos_def\<close>)
        then have "searching start (length (lr_buf lr')) d' n' lr2" using room(1) by (auto simp: searching_def lr2_def)
        moreover have "lr_limit lr - (lr_off lr2 + length (lr_buf lr2)) < lr_limit lr - (lr_off lr + length (lr_buf lr))"
        proof -
          have e: "lr_off lr2 + length (lr_buf lr2) = lr_off lr + length (lr_buf lr) + want" using len pos by (simp add: lr2_def pos_def)
          show ?thesis unfolding e using in_file pos by (intro diff_less_mono2) simp_all
        qed
        moreover have "lr_limit lr2 = lr_limit lr" "lr_eof lr2 = lr_eof lr" using room(3,4) by (simp_all add: lr2_def)
        ultimately have "found_line start (lr_limit lr) (next_loop rd (length (lr_buf lr')) d' n' lr2)"
          using less.hyps[of lr2 "length (lr_buf lr')" d' n'] True by simp
        moreover have "next_loop rd scanned d n lr = next_loop rd (length (lr_buf lr')) d' n' lr2"
          using unf False got len by (auto simp: lr2_def Let_def)
        ultimately show ?thesis by simp
      next
        case bad_read: False
        then obtain b e where "rd pos want = (b, Some e)" "bad" "io_failure e" using read_at[OF in_file(1,2)] by blast
        then show ?thesis using False unfolding found_line_def unf by (auto simp: io_failure_def Let_def)
      qed
    qed
  qed
qed

lemma lr_next_ok: "wf_lr lr \<Longrightarrow> found_line (lr_off lr) (lr_limit lr) (lr_next rd lr)"
  unfolding lr_next_def by (rule next_loop_ok) (auto simp: searching_def)

end

end
