(* ===== verification/Manifest_Load.thy ===== *)
theory Manifest_Load
  imports Manifest_Journal
begin

text \<open>
  What \<open>Load\<close> of \<^verbatim>\<open>internal/manifest/journal.go\<close> returns: the records of a journal file as a function of its bytes,
  the cursor with its read-ahead as a reader of that list, and the merge of the files by sequence
  number as a replay of all their records. The merge always ends, since every record that
  is applied raises the last sequence number.
\<close>

section \<open>The records of a file\<close>

lemma line_at_Line: "line_at data off = Line l at \<Longrightarrow> at = off \<and> off + length l < length data \<and> length l \<le> MaxLineBytes"
  by (auto simp: line_at_def index_byte_Some split: option.splits if_splits)

text \<open>The events of a file from an offset on; a NUL byte in a line of the main journal ends them.\<close>

function events :: "bytes \<Rightarrow> bool \<Rightarrow> nat \<Rightarrow> (line_event \<times> bool) list" where
  "events data main off =
    (case line_at data off of
       Line l at \<Rightarrow> if main \<and> index_byte 0 l \<noteq> None then [(Line l at, True)]
         else (Line l at, False) # events data main (off + length l + 1)
     | ev \<Rightarrow> [(ev, False)])"
  by pat_completeness auto
termination by (relation "measure (\<lambda>(data, main, off). length data - off)") (auto dest: line_at_Line)

declare events.simps [simp del]

lemma events_not_Nil [simp]: "events data main off \<noteq> []"
  by (subst events.simps) (simp split: line_event.splits)

text \<open>The records a cursor takes from such a list, \<open>None\<close> where it reports an error.\<close>

fun file_records :: "(bytes \<Rightarrow> bool) \<Rightarrow> bool \<Rightarrow> bool \<Rightarrow> (line_event \<times> bool) list \<Rightarrow> Record list option" where
  "file_records isNormal enc main [] = None"
| "file_records isNormal enc main ((ev, nul) # R) =
    (case ev of
       Line l at \<Rightarrow>
         if nul then Some []
         else (case DecodeLine isNormal l enc of Inl _ \<Rightarrow> None | Inr r \<Rightarrow> map_option (Cons r) (file_records isNormal enc main R))
     | AtEnd at tail \<Rightarrow> if tail > 0 \<and> \<not> main then None else Some []
     | _ \<Rightarrow> None)"

section \<open>Read-ahead\<close>

lemma make_room_limit: "make_room d n lr = (d', n', lr') \<Longrightarrow> lr_limit lr' = lr_limit lr"
  by (auto simp: make_room_def split: if_splits)

lemma next_loop_limit: "lr_limit (snd (next_loop rd scanned d n lr)) = lr_limit lr"
proof (induction rd scanned d n lr rule: next_loop.induct)
  case (1 rd scanned d n lr)
  obtain d' n' lr' where r: "make_room d n lr = (d', n', lr')" by (cases "make_room d n lr")
  note IH = "1.IH"[OF _ _ r[symmetric] refl refl refl refl]
  show ?case
    using IH make_room_limit[OF r]
    by (subst next_loop.simps) (auto simp: r Let_def split: option.splits prod.splits)
qed

lemma fill_loop_limit: "lr_limit (snd (fill_loop rd main batch ahead arena lr)) = lr_limit lr"
proof (induction rd main batch ahead arena lr rule: fill_loop.induct)
  case (1 rd main batch ahead arena lr)
  obtain ev lr1 where ev: "lr_next rd lr = (ev, lr1)" by (cases "lr_next rd lr")
  then have "lr_limit lr1 = lr_limit lr" using next_loop_limit[of rd 0 False 0 lr] by (simp add: lr_next_def)
  then show ?case
    using "1.IH"[OF _ ev[symmetric] _ refl]
    by (subst fill_loop.simps) (auto simp: ev Let_def split: line_event.splits)
qed

lemma cursor_fill_limit [simp]: "lr_limit (c_lr (cursor_fill isNormal rd enc c)) = lr_limit (c_lr c)"
proof -
  obtain pre lr where f: "fill_loop rd (c_main c) (if c_batch c = 0 then 64 else if c_batch c < 4096 then c_batch c * 2 else c_batch c) [] 0 (c_lr c) = (pre, lr)"
    by (rule prod.exhaust)
  then show ?thesis using fill_loop_limit[of rd "c_main c" _ "[]" 0 "c_lr c"] by (simp add: cursor_fill_def Let_def) (metis snd_conv)
qed

context random_reader
begin

text \<open>\<open>pre\<close> are the items read ahead, \<open>R\<close> all events still to come.\<close>

definition tracks :: "nat \<Rightarrow> bool \<Rightarrow> lineReader \<Rightarrow> (line_event \<times> bool) list \<Rightarrow> (line_event \<times> bool) list \<Rightarrow> bool" where
  "tracks limit main lr pre R \<longleftrightarrow> pre = R \<or>
     (wf_lr lr \<and> lr_limit lr = limit \<and> R = pre @ events (take limit bs) main (lr_off lr)) \<or>
     (\<exists>p e S. pre = p @ [(ReadErr e, False)] \<and> R = p @ S \<and> bad \<and> io_failure e)"

lemma fill_loop_tracks:
  "wf_lr lr \<Longrightarrow> lr_limit lr = limit \<Longrightarrow> R = ahead @ events (take limit bs) main (lr_off lr) \<Longrightarrow>
   fill_loop rd main batch ahead arena lr = (pre, lr') \<Longrightarrow>
   tracks limit main lr' pre R \<and> (ahead \<noteq> [] \<or> 0 < batch \<and> arena < 8388608 \<longrightarrow> pre \<noteq> [])"
proof (induction "batch - length ahead" arbitrary: ahead arena lr rule: less_induct)
  case less
  obtain ev lr1 where ev: "lr_next rd lr = (ev, lr1)" by (cases "lr_next rd lr")
  have unf: "fill_loop rd main batch ahead arena lr =
      (if length ahead < batch \<and> arena < 8388608 then
         (case ev of Line line at \<Rightarrow>
            if main \<and> index_byte 0 line \<noteq> None then (ahead @ [(ev, True)], lr1)
            else fill_loop rd main batch (ahead @ [(ev, False)]) (arena + length line) lr1
          | _ \<Rightarrow> (ahead @ [(ev, False)], lr1))
       else (ahead, lr))"
    by (subst fill_loop.simps) (simp only: ev Let_def prod.case)
  have f: "(\<exists>e. ev = ReadErr e \<and> bad \<and> io_failure e) \<or>
      (ev = line_at (take limit bs) (lr_off lr) \<and>
       (\<forall>line at. ev = Line line at \<longrightarrow> wf_lr lr1 \<and> lr_limit lr1 = limit \<and> lr_off lr1 = at + length line + 1))"
    using lr_next_ok[OF less.prems(1)] less.prems(2) by (simp add: found_line_def ev)
  consider "\<not> (length ahead < batch \<and> arena < 8388608)"
    | e where "length ahead < batch" "arena < 8388608" "ev = ReadErr e" "bad" "io_failure e"
    | "length ahead < batch" "arena < 8388608" "ev = line_at (take limit bs) (lr_off lr)" "\<And>e. ev \<noteq> ReadErr e"
    using f by (cases ev) (auto simp: line_at_def split: option.splits if_splits)
  then show ?case
  proof cases
    case 1
    then show ?thesis using less.prems unf by (auto simp: tracks_def)
  next
    case 2
    then have "pre = ahead @ [(ReadErr e, False)]" using less.prems(4) unf by simp
    then show ?thesis unfolding tracks_def less.prems(3) using 2 by blast
  next
    case 3
    note es = events.simps[of "take limit bs" main "lr_off lr", folded 3(3)]
    show ?thesis
    proof (cases "\<exists>line at. ev = Line line at \<and> \<not> (main \<and> index_byte 0 line \<noteq> None)")
      case True
      then obtain line at where l: "ev = Line line at" "\<not> (main \<and> index_byte 0 line \<noteq> None)" by blast
      then have "at = lr_off lr" using line_at_Line[of "take limit bs" "lr_off lr" line at] 3(3) by simp
      then have "R = (ahead @ [(ev, False)]) @ events (take limit bs) main (lr_off lr1)" "wf_lr lr1" "lr_limit lr1 = limit"
        using less.prems(3) es f l by auto
      moreover have "fill_loop rd main batch (ahead @ [(ev, False)]) (arena + length line) lr1 = (pre, lr')"
        using less.prems(4) unf 3(1,2) l by (simp split: if_splits)
      ultimately show ?thesis using less.hyps[of "ahead @ [(ev, False)]" lr1] 3(1) by simp
    next
      case False
      then show ?thesis using less.prems(3,4) unf es 3 by (auto simp: tracks_def split: line_event.splits if_splits)
    qed
  qed
qed

text \<open>The next item of a cursor is the next event, unless the device failed.\<close>

lemma advance_ok:
  assumes "tracks (lr_limit (c_lr c)) (c_main c) (c_lr c) pre R" "c_ahead c = map (decode_item isNormal enc) pre" "R \<noteq> []"
  obtains c' it where "advance isNormal rd fsize enc info c = consume fsize info c' it"
    "c' = c\<lparr> c_rec := None, c_lr := c_lr c', c_ahead := c_ahead c', c_batch := c_batch c' \<rparr>" "lr_limit (c_lr c') = lr_limit (c_lr c)"
    "(\<exists>e. it_event it = ReadErr e \<and> bad \<and> io_failure e) \<or>
     (it = decode_item isNormal enc (hd R) \<and>
      (\<exists>pre'. tracks (lr_limit (c_lr c)) (c_main c) (c_lr c') pre' (tl R) \<and> c_ahead c' = map (decode_item isNormal enc) pre'))"
proof -
  define c2 where "c2 = (if pre = [] then cursor_fill isNormal rd enc (c\<lparr> c_rec := None \<rparr>) else c\<lparr> c_rec := None \<rparr>)"
  have "\<exists>pre2. tracks (lr_limit (c_lr c)) (c_main c) (c_lr c2) pre2 R \<and> c_ahead c2 = map (decode_item isNormal enc) pre2 \<and> pre2 \<noteq> []"
  proof (cases "pre = []")
    case True
    then have w: "wf_lr (c_lr c)" "R = [] @ events (take (lr_limit (c_lr c)) bs) (c_main c) (lr_off (c_lr c))"
      using assms(1,3) by (auto simp: tracks_def)
    obtain pre2 lr2 where fl: "fill_loop rd (c_main c) (if c_batch c = 0 then 64 else if c_batch c < 4096 then c_batch c * 2 else c_batch c) [] 0 (c_lr c) = (pre2, lr2)"
      by (rule prod.exhaust)
    then have "tracks (lr_limit (c_lr c)) (c_main c) lr2 pre2 R" "pre2 \<noteq> []"
      using fill_loop_tracks[OF w(1) refl w(2) fl] by auto
    then show ?thesis using True fl by (auto simp: c2_def cursor_fill_def Let_def)
  next
    case False
    then show ?thesis using assms by (auto simp: c2_def)
  qed
  then obtain x xs where x: "tracks (lr_limit (c_lr c)) (c_main c) (c_lr c2) (x # xs) R" "c_ahead c2 = map (decode_item isNormal enc) (x # xs)"
    by (metis list.exhaust)
  have lim: "lr_limit (c_lr c2) = lr_limit (c_lr c)" by (simp add: c2_def)
  let ?c' = "c2\<lparr> c_ahead := map (decode_item isNormal enc) xs \<rparr>"
  have same: "c2 = c\<lparr> c_rec := None, c_lr := c_lr c2, c_ahead := c_ahead c2, c_batch := c_batch c2 \<rparr>"
    by (simp add: c2_def cursor_fill_def Let_def split: prod.splits)
  have "advance isNormal rd fsize enc info c = consume fsize info ?c' (decode_item isNormal enc x)"
    using assms(2) x(2) by (simp add: advance_def c2_def Let_def)
  moreover have "?c' = c\<lparr> c_rec := None, c_lr := c_lr ?c', c_ahead := c_ahead ?c', c_batch := c_batch ?c' \<rparr>"
    by (subst same) simp
  moreover have "(\<exists>e. it_event (decode_item isNormal enc x) = ReadErr e \<and> bad \<and> io_failure e) \<or>
      (x = hd R \<and> tracks (lr_limit (c_lr c)) (c_main c) (c_lr c2) xs (tl R))"
    using x(1) unfolding tracks_def by (auto simp: decode_item_def Cons_eq_append_conv split: line_event.splits)
  ultimately show ?thesis using that[of ?c' "decode_item isNormal enc x"] lim by auto
qed

end

section \<open>Cursors over files\<close>

text \<open>A list of events is complete when it has lines and then one event that ends the file.\<close>

fun complete_events :: "(line_event \<times> bool) list \<Rightarrow> bool" where
  "complete_events [] = False"
| "complete_events ((ev, nul) # R) = (case ev of Line l at \<Rightarrow> if nul then R = [] else complete_events R | _ \<Rightarrow> R = [])"

lemma complete_events_events: "complete_events (events data main off)"
  by (induction data main off rule: events.induct) (subst events.simps, auto split: line_event.splits)

text \<open>\<open>R\<close> are the events the cursor has not consumed yet.\<close>

definition reading :: "(bytes \<Rightarrow> bool) \<Rightarrow> (string \<Rightarrow> nat \<Rightarrow> nat \<Rightarrow> bool) \<Rightarrow> CrashFS \<Rightarrow> bool \<Rightarrow> cursor \<Rightarrow> (line_event \<times> bool) list \<Rightarrow> bool" where
  "reading isNormal fault fs enc c R \<longleftrightarrow> complete_events R \<and>
    (\<exists>pre. random_reader.tracks (file_bytes fs (c_f c)) (unreliable (fault (cf_name (c_f c))) (c_f c))
       (lr_limit (c_lr c)) (c_main c) (c_lr c) pre R \<and> c_ahead c = map (decode_item isNormal enc) pre)"

lemma reading_new:
  assumes "limit \<le> length (file_bytes fs f)"
  shows "reading isNormal fault fs enc (newCursor n f limit main s) (events (take limit (file_bytes fs f)) main 0)"
  using blob_file.wf_new[OF assms]
  by (auto simp: reading_def newCursor_def newLineReader_def blob_file.tracks_def complete_events_events)

text \<open>The fields that stay the same.\<close>

definition same_cursor :: "cursor \<Rightarrow> cursor \<Rightarrow> bool" where
  "same_cursor c c' \<longleftrightarrow> c_file c' = c_file c \<and> c_f c' = c_f c \<and> c_main c' = c_main c \<and> c_minSeq c' = c_minSeq c \<and>
     lr_limit (c_lr c') = lr_limit (c_lr c)"

lemma advance_in_step:
  assumes "reading isNormal fault fs enc c R"
  obtains (failed) e where "advance_in isNormal fault fs enc info c = (info, Inl e)" "unreliable (fault (cf_name (c_f c))) (c_f c)" "io_failure e"
  | (next_item) c' where "advance_in isNormal fault fs enc info c =
        consume (file_Size fs (c_f c)) info c' (decode_item isNormal enc (hd R))"
      "same_cursor c c'" "c_rec c' = None" "c_last c' = c_last c" "tl R \<noteq> [] \<Longrightarrow> reading isNormal fault fs enc c' (tl R)"
proof -
  obtain pre where pre: "random_reader.tracks (file_bytes fs (c_f c)) (unreliable (fault (cf_name (c_f c))) (c_f c))
       (lr_limit (c_lr c)) (c_main c) (c_lr c) pre R" "c_ahead c = map (decode_item isNormal enc) pre"
    using assms unfolding reading_def by blast
  have R: "R \<noteq> []" "complete_events R" using assms by (auto simp: reading_def)
  have ct: "complete_events (tl R)" if "tl R \<noteq> []" using R(2) that by (cases R rule: complete_events.cases) (auto split: line_event.splits if_splits)
  show ?thesis
  proof (rule blob_file.advance_ok[OF pre R(1), of "file_Size fs (c_f c)" info])
    fix c' it
    assume a: "advance isNormal (file_reader (fault (cf_name (c_f c))) fs (c_f c)) (file_Size fs (c_f c)) enc info c =
        consume (file_Size fs (c_f c)) info c' it"
      and c': "c' = c\<lparr>c_rec := None, c_lr := c_lr c', c_ahead := c_ahead c', c_batch := c_batch c'\<rparr>" "lr_limit (c_lr c') = lr_limit (c_lr c)"
      and it: "(\<exists>e. it_event it = ReadErr e \<and> unreliable (fault (cf_name (c_f c))) (c_f c) \<and> io_failure e) \<or>
        it = decode_item isNormal enc (hd R) \<and>
        (\<exists>pre'. random_reader.tracks (file_bytes fs (c_f c)) (unreliable (fault (cf_name (c_f c))) (c_f c)) (lr_limit (c_lr c))
          (c_main c) (c_lr c') pre' (tl R) \<and> c_ahead c' = map (decode_item isNormal enc) pre')"
    have f: "c_f c' = c_f c" "c_main c' = c_main c" "c_file c' = c_file c" "c_minSeq c' = c_minSeq c" "c_last c' = c_last c" "c_rec c' = None"
      by (subst c'(1), simp)+
    from it show ?thesis
    proof (elim disjE exE conjE, goal_cases)
      case (1 e)
      then show ?thesis using failed[of e] a by (simp add: advance_in_def consume_def)
    next
      case (2 pre')
      then show ?thesis
        using a f c'(2) ct by (intro next_item[of c']) (auto simp: advance_in_def same_cursor_def reading_def)
    qed
  qed
qed

text \<open>What the end of the main journal says about its tail.\<close>

definition tail_info :: "nat \<Rightarrow> LoadInfo \<Rightarrow> line_event \<times> bool \<Rightarrow> LoadInfo" where
  "tail_info lim info x =
    (case fst x of
       AtEnd at tail \<Rightarrow> if tail > 0 then info\<lparr> li_ValidEnd := at, li_Torn := tail, li_TornReason := ''unterminated'' \<rparr>
         else info\<lparr> li_ValidEnd := at \<rparr>
     | Line l at \<Rightarrow> info\<lparr> li_ValidEnd := at, li_Torn := lim - at, li_TornReason := ''NUL'' \<rparr>
     | _ \<Rightarrow> info)"

lemma consume_decoded:
  "consume fsize info c (decode_item isNormal enc (ev, nul)) =
    (case ev of
       AtEnd at tail \<Rightarrow> if tail > 0 \<and> \<not> c_main c then (info, json_corrupt)
         else (if c_main c then tail_info (min fsize (lr_limit (c_lr c))) info (ev, nul) else info, Inr c)
     | TooLong at \<Rightarrow> (info, json_corrupt)
     | ReadErr e \<Rightarrow> (info, Inl e)
     | Line line at \<Rightarrow>
         if nul then (tail_info (min fsize (lr_limit (c_lr c))) info (ev, nul), Inr c)
         else case DecodeLine isNormal line enc of
             Inl e \<Rightarrow> (info, Inl e)
           | Inr r \<Rightarrow> if rec_Seq r \<le> c_last c \<or> rec_Seq r \<le> c_minSeq c then (info, json_corrupt)
               else (info, Inr (c\<lparr> c_last := rec_Seq r, c_rec := Some r \<rparr>)))"
  by (simp add: consume_def decode_item_def tail_info_def split: line_event.splits sum.splits)

lemma advance_in_Inr:
  assumes "reading isNormal fault fs enc c R" "advance_in isNormal fault fs enc info c = (info', Inr c1)"
  shows "same_cursor c c1"
    "c_rec c1 = None \<Longrightarrow> file_records isNormal enc (c_main c) R = Some []"
    "c_rec c1 = Some r \<Longrightarrow> info' = info \<and> reading isNormal fault fs enc c1 (tl R) \<and>
       file_records isNormal enc (c_main c) R = map_option (Cons r) (file_records isNormal enc (c_main c) (tl R)) \<and>
       c_last c < rec_Seq r \<and> c_minSeq c < rec_Seq r \<and> c_last c1 = rec_Seq r"
proof -
  obtain ev nul R' where R: "R = (ev, nul) # R'" using assms(1) by (cases R rule: complete_events.cases) (auto simp: reading_def)
  obtain c' where c': "consume (file_Size fs (c_f c)) info c' (decode_item isNormal enc (ev, nul)) = (info', Inr c1)"
    "same_cursor c c'" "c_rec c' = None" "c_last c' = c_last c" "R' \<noteq> [] \<Longrightarrow> reading isNormal fault fs enc c' R'"
    using assms by (rule_tac advance_in_step[of isNormal fault fs enc c R info]) (auto simp: R)
  have comp: "complete_events R" using assms(1) by (simp add: reading_def)
  have rest: "complete_events R' \<Longrightarrow> reading isNormal fault fs enc c' R'" by (rule c'(5)) auto
  have upd: "reading isNormal fault fs enc (c'\<lparr> c_last := a, c_rec := b \<rparr>) S = reading isNormal fault fs enc c' S" for a b S
    by (simp add: reading_def)
  show "same_cursor c c1" "c_rec c1 = None \<Longrightarrow> file_records isNormal enc (c_main c) R = Some []"
    "c_rec c1 = Some r \<Longrightarrow> info' = info \<and> reading isNormal fault fs enc c1 (tl R) \<and>
       file_records isNormal enc (c_main c) R = map_option (Cons r) (file_records isNormal enc (c_main c) (tl R)) \<and>
       c_last c < rec_Seq r \<and> c_minSeq c < rec_Seq r \<and> c_last c1 = rec_Seq r"
    using c'(1-4) comp rest
    by (auto simp: consume_decoded R upd same_cursor_def not_le split: line_event.splits if_splits sum.splits)
qed

section \<open>Sequence numbers\<close>

definition seq_ok :: "State \<Rightarrow> bool" where
  "seq_ok st \<longleftrightarrow> unat (st_records st) \<le> unat (st_lastSeq st) \<and> (st_records st = 0 \<longrightarrow> st_lastSeq st = 0)"

lemma seq_ok_start [simp]: "seq_ok (NewState h lim)" "seq_ok (TrackRefs st) = seq_ok st"
  by (simp_all add: seq_ok_def NewState_def TrackRefs_def)

lemma Apply_seq:
  assumes "Apply st r f = (st', None)" "seq_ok st"
  shows "st_lastSeq st < rec_Seq r" "st_lastSeq st' = rec_Seq r" "seq_ok st'"
proof -
  obtain s1 where s1: "apply_op st r f = (s1, None)" "st_lastSeq st' = rec_Seq r" "st_records st' = st_records s1 + 1"
    using assms(1) by (auto simp: Apply_def Let_def split: if_splits prod.splits option.splits)
  have keep: "st_records s1 = st_records st" using apply_op_keeps[OF s1(1)] by simp
  have pos: "rec_Seq r \<noteq> 0" "st_records st = 0 \<or> \<not> rec_Seq r \<le> st_lastSeq st"
    using assms(1) by (auto simp: Apply_def word_gt_0 split: if_splits)
  then show lt: "st_lastSeq st < rec_Seq r" using assms(2) by (auto simp: seq_ok_def word_gt_0)
  show "st_lastSeq st' = rec_Seq r" by (rule s1(2))
  have "unat (st_records st) + 1 \<le> unat (rec_Seq r)" using lt assms(2) by (simp add: seq_ok_def word_less_nat_alt)
  then have "unat (st_records st + 1) = unat (st_records st) + 1"
    using unsigned_less[of "rec_Seq r", where ?'a = nat] by (simp add: unat_word_ariths)
  then show "seq_ok st'" using s1 keep lt assms(2) pos by (auto simp: seq_ok_def word_less_nat_alt)
qed

lemma replay_snoc: "replay s rs = (s1, None) \<Longrightarrow> replay s (rs @ [x]) = (case x of (r, f) \<Rightarrow> case Apply s1 r f of (s2, e) \<Rightarrow> (s2, e))"
  by (induction s rs rule: replay.induct) (auto split: prod.splits option.splits)

lemma replay_seqs:
  "seq_ok s \<Longrightarrow> replay s rs = (s', None) \<Longrightarrow>
   seq_ok s' \<and> sorted_wrt (<) (map (rec_Seq \<circ> fst) rs) \<and> (\<forall>x \<in> set rs. st_lastSeq s < rec_Seq (fst x)) \<and> st_lastSeq s \<le> st_lastSeq s'"
proof (induction s rs rule: replay.induct)
  case (2 s r f rs)
  obtain s1 where a: "Apply s r f = (s1, None)" "replay s1 rs = (s', None)"
    using "2.prems"(2) by (auto split: prod.splits option.splits)
  note q = Apply_seq[OF a(1) "2.prems"(1)]
  show ?case using "2.IH"[OF a(1)[symmetric] refl q(3) a(2)] q by fastforce
qed simp

section \<open>The merge\<close>

definition linked_bytes :: "CrashFS \<Rightarrow> string \<Rightarrow> bytes \<Rightarrow> bytes" where
  "linked_bytes fs genDir p =
    (case OpenFile fs (path_Join genDir (string_of p)) rdonly_flags of Inr (_, f) \<Rightarrow> file_bytes fs f | Inl _ \<Rightarrow> [])"

text \<open>File 0 is the main journal, file \<open>n\<close> the \<open>n\<close>th linked one; \<open>linked\<close> has the last one first.\<close>

definition journal_bytes :: "CrashFS \<Rightarrow> string \<Rightarrow> bytes \<Rightarrow> bytes list \<Rightarrow> nat \<Rightarrow> bytes" where
  "journal_bytes fs genDir data linked n = (if n = 0 then data else linked_bytes fs genDir (rev linked ! (n - 1)))"

definition all_records :: "(bytes \<Rightarrow> bool) \<Rightarrow> bool \<Rightarrow> bool \<Rightarrow> bytes \<Rightarrow> Record list option" where
  "all_records isNormal enc main data = file_records isNormal enc main (events data main 0)"

definition of_file :: "nat \<Rightarrow> (Record \<times> nat) list \<Rightarrow> Record list" where
  "of_file n tr = map fst (filter (\<lambda>x. snd x = n) tr)"

definition links_of :: "(Record \<times> nat) list \<Rightarrow> Record list" where
  "links_of tr = filter (\<lambda>r. rec_Op r = OpLinkManifest) (map fst tr)"

lemma of_file_snoc [simp]: "of_file n (tr @ [(r, f)]) = of_file n tr @ (if f = n then [r] else [])"
  by (simp add: of_file_def)

lemma links_of_snoc [simp]: "links_of (tr @ [(r, f)]) = links_of tr @ (if rec_Op r = OpLinkManifest then [r] else [])"
  by (simp add: links_of_def)

text \<open>A cursor in the queue: its record is the next one of its file after those applied.\<close>

definition cursor_ok :: "(bytes \<Rightarrow> bool) \<Rightarrow> (string \<Rightarrow> nat \<Rightarrow> nat \<Rightarrow> bool) \<Rightarrow> CrashFS \<Rightarrow> bool \<Rightarrow> (nat \<Rightarrow> bytes) \<Rightarrow> (Record \<times> nat) list \<Rightarrow> cursor \<Rightarrow> bool" where
  "cursor_ok isNormal fault fs enc F tr c \<longleftrightarrow> c_main c = (c_file c = 0) \<and>
    (\<exists>r R. c_rec c = Some r \<and> reading isNormal fault fs enc c R \<and>
       all_records isNormal enc (c_main c) (F (c_file c)) =
         map_option (\<lambda>rs. of_file (c_file c) tr @ r # rs) (file_records isNormal enc (c_main c) R))"

definition links_ok :: "hashes \<Rightarrow> CrashFS \<Rightarrow> string \<Rightarrow> ArchiveHeader \<Rightarrow> bytes list \<Rightarrow> (Record \<times> nat) list \<Rightarrow> bool" where
  "links_ok H fs genDir h linked tr \<longleftrightarrow> map rec_Path (links_of tr) = rev linked \<and> distinct linked \<and>
     (\<forall>r \<in> set (links_of tr). newHash H (h_HashID h) (linked_bytes fs genDir (rec_Path r)) = rec_Hash r)"

text \<open>Every file is finished, with all its records applied, or has its cursor in the queue.\<close>

definition merge_inv :: "(bytes \<Rightarrow> bool) \<Rightarrow> (string \<Rightarrow> nat \<Rightarrow> nat \<Rightarrow> bool) \<Rightarrow> CrashFS \<Rightarrow> string \<Rightarrow> ArchiveHeader \<Rightarrow> bytes \<Rightarrow>
    cursor list \<Rightarrow> bytes list \<Rightarrow> (Record \<times> nat) list \<Rightarrow> bool" where
  "merge_inv isNormal fault fs genDir h data hp linked tr \<longleftrightarrow>
    is_heap cursor_key hp \<and> distinct (map c_file hp) \<and> c_file ` set hp \<subseteq> {..length linked} \<and> snd ` set tr \<subseteq> {..length linked} \<and>
    (\<forall>c \<in> set hp. cursor_ok isNormal fault fs (Encrypted h) (journal_bytes fs genDir data linked) tr c) \<and>
    (\<forall>n \<le> length linked. n \<notin> c_file ` set hp \<longrightarrow>
       all_records isNormal (Encrypted h) (n = 0) (journal_bytes fs genDir data linked n) = Some (of_file n tr))"

lemma distinct_map_mset: "mset xs = mset ys \<Longrightarrow> distinct (map f xs) = distinct (map f ys)"
  by (metis mset_map mset_eq_imp_distinct_iff)

lemma journal_bytes_Cons: "n \<le> length linked \<Longrightarrow> journal_bytes fs genDir data (p # linked) n = journal_bytes fs genDir data linked n"
  by (auto simp: journal_bytes_def nth_append)

text \<open>Advancing the cursor in front, after its record was applied.\<close>

lemma cursor_ok_advance:
  assumes "cursor_ok isNormal fault fs enc F tr c" "c_rec c = Some r"
    "advance_in isNormal fault fs enc info c = (info', Inr c1)"
  shows "c_file c1 = c_file c" "c_main c1 = c_main c"
    "c_rec c1 = None \<Longrightarrow> all_records isNormal enc (c_main c) (F (c_file c)) = Some (of_file (c_file c) (tr @ [(r, c_file c)]))"
    "c_rec c1 \<noteq> None \<Longrightarrow> cursor_ok isNormal fault fs enc F (tr @ [(r, c_file c)]) c1"
proof -
  obtain R where R: "reading isNormal fault fs enc c R"
    "all_records isNormal enc (c_main c) (F (c_file c)) =
       map_option (\<lambda>rs. of_file (c_file c) tr @ r # rs) (file_records isNormal enc (c_main c) R)" "c_main c = (c_file c = 0)"
    using assms(1,2) by (auto simp: cursor_ok_def)
  note a = advance_in_Inr[OF R(1) assms(3)]
  show f: "c_file c1 = c_file c" "c_main c1 = c_main c" using a(1) by (simp_all add: same_cursor_def)
  show "all_records isNormal enc (c_main c) (F (c_file c)) = Some (of_file (c_file c) (tr @ [(r, c_file c)]))" if "c_rec c1 = None"
    using a(2)[OF that] R(2) by simp
  show "cursor_ok isNormal fault fs enc F (tr @ [(r, c_file c)]) c1" if some: "c_rec c1 \<noteq> None"
  proof -
    obtain r1 where r1: "c_rec c1 = Some r1" using some by blast
    show ?thesis
      using a(3)[OF r1] R(2,3) f r1
      by (auto simp: cursor_ok_def option.map_comp comp_def intro!: exI[of _ "tl R"] arg_cong[where f = "\<lambda>f. map_option f _"])
  qed
qed

lemma cursor_ok_other: "c_file c \<noteq> f \<Longrightarrow> cursor_ok isNormal fault fs enc F (tr @ [(r, f)]) c = cursor_ok isNormal fault fs enc F tr c"
  by (simp add: cursor_ok_def)

lemma cursor_ok_cong: "F (c_file c) = G (c_file c) \<Longrightarrow> cursor_ok isNormal fault fs enc F tr c = cursor_ok isNormal fault fs enc G tr c"
  by (simp add: cursor_ok_def)

text \<open>The queue after a step, without a linked file.\<close>

lemma merge_inv_step:
  assumes inv: "merge_inv isNormal fault fs genDir h data (c # hp) linked tr" and r: "c_rec c = Some r"
    and adv: "advance_in isNormal fault fs (Encrypted h) info c = (info', Inr c1)"
  shows "merge_inv isNormal fault fs genDir h data
    (if c_rec c1 = None then heap_Pop cursor_key (c1 # hp) else heap_Fix cursor_key (c1 # hp)) linked (tr @ [(r, c_file c)])"
    (is "merge_inv _ _ _ _ _ _ ?hp _ ?tr")
proof -
  let ?F = "journal_bytes fs genDir data linked"
  have heap: "is_heap cursor_key (c # hp)" and ok: "\<And>x. x \<in> set (c # hp) \<Longrightarrow> cursor_ok isNormal fault fs (Encrypted h) ?F tr x"
    and dist: "distinct (map c_file (c # hp))" and main: "c_main c = (c_file c = 0)"
    using inv by (auto simp: merge_inv_def cursor_ok_def)
  note c1 = cursor_ok_advance[OF ok[of c] r adv, simplified]
  have m: "mset ?hp = (if c_rec c1 = None then mset hp else mset (c1 # hp))" using heap.pop_mset[OF heap] heap.fix_mset[OF heap] by simp
  have s: "set ?hp = (if c_rec c1 = None then set hp else set (c1 # hp))" using heap.pop_set[OF heap] heap.fix_set[OF heap] by simp
  have "distinct (map c_file ?hp)"
    using dist c1(1) m distinct_map_mset[of ?hp "if c_rec c1 = None then hp else c1 # hp" c_file] by (auto split: if_splits)
  moreover have "is_heap cursor_key ?hp" using heap.pop_inv[OF heap] heap.fix_inv[OF heap] by simp
  moreover have "cursor_ok isNormal fault fs (Encrypted h) ?F ?tr x" if "x \<in> set ?hp" for x
  proof (cases "x \<in> set hp")
    case True
    then have "c_file x \<in> c_file ` set hp" by (rule imageI)
    then have "c_file x \<noteq> c_file c" using dist by auto
    then show ?thesis using ok[of x] True by (simp add: cursor_ok_other)
  next
    case False
    then show ?thesis using that s c1(4) by (auto split: if_splits)
  qed
  moreover have "all_records isNormal (Encrypted h) (n = 0) (?F n) = Some (of_file n ?tr)" if n: "n \<le> length linked" "n \<notin> c_file ` set ?hp" for n
  proof (cases "n = c_file c")
    case True
    then have "c_rec c1 = None" using n(2) s c1(1) by (auto split: if_splits)
    then show ?thesis using c1(3) True main by simp
  next
    case False
    then have "n \<notin> c_file ` set (c # hp)" using n(2) s c1(1) by (auto split: if_splits)
    then show ?thesis using inv n(1) False unfolding merge_inv_def by auto
  qed
  ultimately show ?thesis using inv s c1(1) unfolding merge_inv_def by auto
qed

section \<open>Linking a file\<close>

lemma file_reader_got: "file_reader fault fs f off n = (got, err) \<Longrightarrow> got \<noteq> [] \<or> err = None \<Longrightarrow> got = take n (drop off (file_bytes fs f))"
  by (auto simp: file_reader_def ReadAt_def file_bytes_def Let_def split: if_splits)

lemma linked_loop_bytes:
  "linked_loop fault fs f sz off hashed lines = Inr (res, n) \<Longrightarrow> sz = length (file_bytes fs f) \<Longrightarrow> off \<le> sz \<Longrightarrow>
   hashed = take off (file_bytes fs f) \<Longrightarrow> res = file_bytes fs f"
proof (induction fault fs f sz off hashed lines rule: linked_loop.induct)
  case (1 fault fs f sz off hashed lines)
  obtain got err where g: "file_reader fault fs f off (min 65536 (sz - off)) = (got, err)" by (rule prod.exhaust)
  show ?case
  proof (cases "off < sz")
    case True
    then have ok: "\<not> (got = [] \<and> err \<noteq> None)" and rec: "linked_loop fault fs f sz (off + length got) (hashed @ got) (lines + word_of_nat (count_list got LF)) = Inr (res, n)"
      using "1.prems"(1) g by (auto simp: linked_loop.simps[of fault fs f sz off] split: if_splits)
    have got: "got = take (min 65536 (sz - off)) (drop off (file_bytes fs f))" using file_reader_got[OF g] ok by auto
    then have "hashed @ got = take (off + length got) (file_bytes fs f)" "off + length got \<le> sz"
      using "1.prems"(2-4) by (auto simp: take_add)
    then show ?thesis using "1.IH"[OF True g[symmetric] ok rec "1.prems"(2)] by simp
  next
    case False
    then have "res = hashed" using "1.prems"(1) by (subst (asm) linked_loop.simps) simp
    then show ?thesis using False "1.prems" by simp
  qed
qed

lemma openLinked_Inr:
  assumes "openLinked H fault fs genDir h r n = Inr lc"
  obtains f where "lc = newCursor n f (length (file_bytes fs f)) False (rec_Seq r)" "linked_bytes fs genDir (rec_Path r) = file_bytes fs f"
    "newHash H (h_HashID h) (linked_bytes fs genDir (rec_Path r)) = rec_Hash r"
proof -
  obtain x f hashed lines where o: "OpenFile fs (path_Join genDir (string_of (rec_Path r))) rdonly_flags = Inr (x, f)"
    "linked_loop (fault (cf_name f)) fs f (file_Size fs f) 0 [] 0 = Inr (hashed, lines)"
    "newHash H (h_HashID h) hashed = rec_Hash r" "lc = newCursor n f (file_Size fs f) False (rec_Seq r)"
    using assms by (auto simp: openLinked_def split: sum.splits if_splits)
  have "hashed = file_bytes fs f" using linked_loop_bytes[OF o(2)] by (simp add: file_Size_bytes)
  then show ?thesis using that[of f] o by (simp add: linked_bytes_def file_Size_bytes)
qed

lemma load_link_ok:
  assumes inv: "merge_inv isNormal fault fs genDir h data (c # hp) linked tr" and r: "c_rec c = Some r"
    and l: "load_link H isNormal fault fs genDir h r info (c # hp) linked = (info', Inr (hp', linked'))"
  obtains t where "hp' = c # t" "linked' = rec_Path r # linked" "rec_Path r \<notin> set linked"
    "merge_inv isNormal fault fs genDir h data (c # t) linked' tr"
    "newHash H (h_HashID h) (linked_bytes fs genDir (rec_Path r)) = rec_Hash r"
proof -
  let ?n = "Suc (length linked)" and ?enc = "Encrypted h" and ?linked = "rec_Path r # linked"
  obtain lc0 lc where o: "openLinked H fault fs genDir h r ?n = Inr lc0" "\<exists>i. advance_in isNormal fault fs ?enc info lc0 = (i, Inr lc)"
    and res: "hp' = (if c_rec lc \<noteq> None then heap_Push cursor_key lc (c # hp) else c # hp)" "linked' = ?linked" "rec_Path r \<notin> set linked"
    using l by (auto simp: load_link_def json_corrupt_def errf_def split: if_splits sum.splits prod.splits)
  then obtain i where adv: "advance_in isNormal fault fs ?enc info lc0 = (i, Inr lc)" by blast
  obtain f where f: "lc0 = newCursor ?n f (length (file_bytes fs f)) False (rec_Seq r)" "linked_bytes fs genDir (rec_Path r) = file_bytes fs f"
    "newHash H (h_HashID h) (linked_bytes fs genDir (rec_Path r)) = rec_Hash r"
    by (rule openLinked_Inr[OF o(1)])
  define R where "R = events (file_bytes fs f) False 0"
  have rd: "reading isNormal fault fs ?enc lc0 R"
    using reading_new[of "length (file_bytes fs f)" fs f isNormal fault ?enc ?n False "rec_Seq r"] f(1) by (simp add: R_def)
  note a = advance_in_Inr[OF rd adv]
  have lc: "c_file lc = ?n" "c_main lc = False" using a(1) f(1) by (simp_all add: same_cursor_def newCursor_def)
  have Fn: "journal_bytes fs genDir data ?linked ?n = file_bytes fs f" by (simp add: journal_bytes_def nth_append f(2))
  have none: "of_file ?n tr = []" using inv by (fastforce simp: merge_inv_def of_file_def filter_empty_conv)
  have old: "cursor_ok isNormal fault fs ?enc (journal_bytes fs genDir data ?linked) tr x" if "x \<in> set (c # hp)" for x
  proof -
    have "c_file x \<le> length linked" "cursor_ok isNormal fault fs ?enc (journal_bytes fs genDir data linked) tr x"
      using inv that unfolding merge_inv_def by blast+
    then show ?thesis
      using cursor_ok_cong[of "journal_bytes fs genDir data ?linked" x "journal_bytes fs genDir data linked"] journal_bytes_Cons by simp
  qed
  have fin: "all_records isNormal ?enc (n = 0) (journal_bytes fs genDir data ?linked n) = Some (of_file n tr)"
    if "n \<le> length linked" "n \<notin> c_file ` set (c # hp)" for n
    using inv that by (simp add: merge_inv_def journal_bytes_Cons)
  show ?thesis
  proof (cases "c_rec lc")
    case None
    have "all_records isNormal ?enc False (file_bytes fs f) = Some []"
      using a(2)[OF None] lc f(1) by (simp add: all_records_def R_def newCursor_def)
    then have "merge_inv isNormal fault fs genDir h data (c # hp) ?linked tr"
      using inv old fin Fn none unfolding merge_inv_def by (auto simp: le_Suc_eq)
    then show ?thesis using that[of hp] res None f(3) by simp
  next
    case (Some r')
    have seq: "rec_Seq r < rec_Seq r'" using a(3)[OF Some] f(1) by (simp add: newCursor_def)
    have heap: "is_heap cursor_key (c # hp)" using inv by (simp add: merge_inv_def)
    obtain t where t: "heap_Push cursor_key lc (c # hp) = c # t" "mset t = add_mset lc (mset hp)" "set t = insert lc (set hp)"
      by (rule heap.push_behind[OF heap, of lc]) (use seq r Some in \<open>auto simp: cursor_key_def\<close>)
    have "cursor_ok isNormal fault fs ?enc (journal_bytes fs genDir data ?linked) tr lc"
      using a(3)[OF Some] lc f(1) Some none Fn
      by (auto simp: cursor_ok_def all_records_def R_def newCursor_def intro!: exI[of _ "tl R"])
    moreover have "is_heap cursor_key (c # t)" using heap.push_inv[OF heap, of lc] t(1) by simp
    moreover have "distinct (map c_file (c # t))"
    proof -
      have "distinct (map c_file (lc # c # hp))" using inv lc by (fastforce simp: merge_inv_def)
      then show ?thesis using distinct_map_mset[of "c # t" "lc # c # hp" c_file] t(2) by simp
    qed
    ultimately have "merge_inv isNormal fault fs genDir h data (c # t) ?linked tr"
      using inv old fin lc t(3) unfolding merge_inv_def by (auto simp: le_Suc_eq)
    then show ?thesis using that[of t] res Some f(3) t(1) by simp
  qed
qed

section \<open>The result of the merge\<close>

text \<open>\<open>tr\<close> has all the records of the main journal and of every file it links, each file's in their order; the linked files
  are those of the \<^verbatim>\<open>LINK_MANIFEST\<close> records, with the digests they give.\<close>

definition merged :: "hashes \<Rightarrow> (bytes \<Rightarrow> bool) \<Rightarrow> CrashFS \<Rightarrow> string \<Rightarrow> ArchiveHeader \<Rightarrow> bytes \<Rightarrow> (Record \<times> nat) list \<Rightarrow> bool" where
  "merged H isNormal fs genDir h data tr \<longleftrightarrow>
    (\<exists>linked. links_ok H fs genDir h linked tr \<and> snd ` set tr \<subseteq> {..length linked} \<and>
      (\<forall>n \<le> length linked. all_records isNormal (Encrypted h) (n = 0) (journal_bytes fs genDir data linked n) = Some (of_file n tr)))"

lemma merge_loop_ok:
  "merge_inv isNormal fault fs genDir h data hp linked (rev trace) \<Longrightarrow> links_ok H fs genDir h linked (rev trace) \<Longrightarrow>
   replay st0 (rev trace) = (st, None) \<Longrightarrow> seq_ok st \<Longrightarrow>
   \<exists>info' res. merge_loop H isNormal fault fs genDir h st info hp linked trace = Some (info', res) \<and>
     (\<forall>st' tr. res = Inr (st', tr) \<longrightarrow> replay st0 tr = (st', None) \<and> merged H isNormal fs genDir h data tr)"
proof (induction "2 ^ 64 - unat (st_lastSeq st)" arbitrary: st info hp linked trace rule: less_induct)
  case less
  note unf = merge_loop.simps[of H isNormal fault fs genDir h st info hp linked trace]
  show ?case
  proof (cases hp)
    case Nil
    then have "merged H isNormal fs genDir h data (rev trace)"
      using less.prems(1,2) unfolding merged_def merge_inv_def by auto
    then show ?thesis using unf Nil less.prems(3) by auto
  next
    case (Cons c t0)
    then obtain r where r: "c_rec c = Some r" using less.prems(1) by (auto simp: merge_inv_def cursor_ok_def)
    obtain st1 e where ap: "Apply st r (c_file c) = (st1, e)" by (rule prod.exhaust)
    show ?thesis
    proof (cases e)
      case (Some x)
      then show ?thesis using unf Cons r ap by auto
    next
      case None
      note q = Apply_seq[OF ap[unfolded None] less.prems(4)]
      define lnk where "lnk = (if rec_Op r = OpLinkManifest then load_link H isNormal fault fs genDir h r info hp linked else (info, Inr (hp, linked)))"
      obtain i1 lres where lnk: "lnk = (i1, lres)" by (rule prod.exhaust)
      have unf1: "merge_loop H isNormal fault fs genDir h st info hp linked trace =
        (case lnk of (info, Inl e) \<Rightarrow> Some (info, Inl e)
         | (info, Inr (hp, linked)) \<Rightarrow>
           (case advance_in isNormal fault fs (Encrypted h) info c of
              (info, Inl e) \<Rightarrow> Some (info, Inl e)
            | (info, Inr c1) \<Rightarrow> merge_loop H isNormal fault fs genDir h st1 info
                (if c_rec c1 = None then heap_Pop cursor_key (hp[0 := c1]) else heap_Fix cursor_key (hp[0 := c1]))
                linked ((r, c_file c) # trace)))"
        unfolding unf lnk_def by (simp add: Cons r ap None)
      show ?thesis
      proof (cases lres)
        case (Inl x)
        then show ?thesis using unf1 lnk by simp
      next
        case (Inr hl)
        obtain hp1 linked1 where hl: "hl = (hp1, linked1)" by (rule prod.exhaust)
        have step: "\<exists>t. hp1 = c # t \<and> merge_inv isNormal fault fs genDir h data (c # t) linked1 (rev trace) \<and>
            links_ok H fs genDir h linked1 (rev trace @ [(r, c_file c)])"
        proof (cases "rec_Op r = OpLinkManifest")
          case True
          then have "load_link H isNormal fault fs genDir h r info (c # t0) linked = (i1, Inr (hp1, linked1))"
            using lnk Inr hl Cons by (simp add: lnk_def)
          then show ?thesis
            by (rule load_link_ok[OF less.prems(1)[unfolded Cons] r]) (use less.prems(2) True in \<open>auto simp: links_ok_def\<close>)
        next
          case False
          then show ?thesis using lnk Inr hl Cons less.prems(1,2) by (auto simp: lnk_def links_ok_def)
        qed
        then obtain t where t: "hp1 = c # t" "merge_inv isNormal fault fs genDir h data (c # t) linked1 (rev trace)"
          "links_ok H fs genDir h linked1 (rev trace @ [(r, c_file c)])" by blast
        obtain i2 ares where adv: "advance_in isNormal fault fs (Encrypted h) i1 c = (i2, ares)" by (rule prod.exhaust)
        have unf2: "merge_loop H isNormal fault fs genDir h st info hp linked trace =
          (case ares of Inl e \<Rightarrow> Some (i2, Inl e)
           | Inr c1 \<Rightarrow> merge_loop H isNormal fault fs genDir h st1 i2
               (if c_rec c1 = None then heap_Pop cursor_key (c1 # t) else heap_Fix cursor_key (c1 # t)) linked1 ((r, c_file c) # trace))"
          using unf1 lnk Inr hl adv t(1) by (simp split: sum.split)
        show ?thesis
        proof (cases ares)
          case (Inl x)
          then show ?thesis using unf2 by simp
        next
          case (Inr c1)
          have "2 ^ 64 - unat (st_lastSeq st1) < 2 ^ 64 - unat (st_lastSeq st)"
            using q(1,2) unsigned_less[of "rec_Seq r", where ?'a = nat] by (simp add: word_less_nat_alt)
          moreover have "replay st0 (rev ((r, c_file c) # trace)) = (st1, None)"
            using replay_snoc[OF less.prems(3)] ap None by simp
          ultimately show ?thesis
            using less.hyps[of st1 _ linked1 "(r, c_file c) # trace" i2] merge_inv_step[OF t(2) r adv[unfolded Inr]] t(3) q(3) unf2 Inr by simp
        qed
      qed
    qed
  qed
qed

section \<open>A journal without links\<close>

lemma advance_in_end:
  assumes "reading isNormal fault fs enc c R" "\<not> unreliable (fault (cf_name (c_f c))) (c_f c)" "file_records isNormal enc (c_main c) R = Some []"
    "c_main c"
  obtains c1 where "c_rec c1 = None" "advance_in isNormal fault fs enc info c =
      (tail_info (min (file_Size fs (c_f c)) (lr_limit (c_lr c))) info (last R), Inr c1)"
proof -
  obtain ev nul R' where R: "R = (ev, nul) # R'" using assms(1) by (cases R rule: complete_events.cases) (auto simp: reading_def)
  have comp: "complete_events R" using assms(1) by (simp add: reading_def)
  have last: "R' = []" "\<And>l at. ev = Line l at \<Longrightarrow> nul" "\<And>e. ev \<noteq> ReadErr e" "\<And>a. ev \<noteq> TooLong a"
    using comp assms(3) by (auto simp: R split: line_event.splits if_splits sum.splits)
  show ?thesis
  proof (rule advance_in_step[OF assms(1), of info])
    fix c' assume c': "advance_in isNormal fault fs enc info c = consume (file_Size fs (c_f c)) info c' (decode_item isNormal enc (hd R))"
      "same_cursor c c'" "c_rec c' = None"
    then show ?thesis
      using that[of c'] last assms(4) by (cases ev) (auto simp: R consume_decoded same_cursor_def tail_info_def)
  qed (use assms(2) in blast)
qed

lemma advance_in_next:
  assumes "reading isNormal fault fs enc c R" "\<not> unreliable (fault (cf_name (c_f c))) (c_f c)"
    "file_records isNormal enc (c_main c) R = Some (r # rs)" "c_last c < rec_Seq r" "c_minSeq c < rec_Seq r"
  obtains c1 where "advance_in isNormal fault fs enc info c = (info, Inr c1)" "c_rec c1 = Some r" "same_cursor c c1"
    "reading isNormal fault fs enc c1 (tl R)" "file_records isNormal enc (c_main c) (tl R) = Some rs" "c_last c1 = rec_Seq r" "tl R \<noteq> []"
proof -
  obtain ev nul R' where R: "R = (ev, nul) # R'" using assms(1) by (cases R rule: complete_events.cases) (auto simp: reading_def)
  obtain l at where ev: "ev = Line l at" "\<not> nul" "DecodeLine isNormal l enc = Inr r" "file_records isNormal enc (c_main c) R' = Some rs"
    using assms(3) by (auto simp: R split: line_event.splits if_splits sum.splits)
  show ?thesis
  proof (rule advance_in_step[OF assms(1), of info])
    fix c' assume c': "advance_in isNormal fault fs enc info c = consume (file_Size fs (c_f c)) info c' (decode_item isNormal enc (hd R))"
      "same_cursor c c'" "c_last c' = c_last c"
    have "advance_in isNormal fault fs enc info c = (info, Inr (c'\<lparr> c_last := rec_Seq r, c_rec := Some r \<rparr>))"
      using c' ev assms(4,5) by (simp add: R consume_decoded same_cursor_def not_le[symmetric])
    moreover from this have "reading isNormal fault fs enc (c'\<lparr> c_last := rec_Seq r, c_rec := Some r \<rparr>) (tl R)"
      using advance_in_Inr(3)[OF assms(1)] by simp
    moreover have "R' \<noteq> []" using ev(4) by auto
    ultimately show ?thesis
      using that[of "c'\<lparr> c_last := rec_Seq r, c_rec := Some r \<rparr>"] c'(2) ev(4) by (auto simp: R same_cursor_def)
  qed (use assms(2) in blast)
qed

lemma heap_single [simp]: "heap_Pop key [x] = []" "heap_Fix key [x] = [x]" "heap_Push key x [] = [x]"
  by (simp add: heap_Pop_def Let_def,
      simp add: heap_Fix_def heap_down.simps[of key 1 0 "[x]"] heap_down.simps[of key "Suc 0" 0 "[x]"],
      simp add: heap_Push_def heap_up.simps[of key 0 "[x]"])

lemma merge_single:
  "c_rec c = Some r \<Longrightarrow> reading isNormal fault fs (Encrypted h) c R \<Longrightarrow> c_main c \<Longrightarrow> c_file c = 0 \<Longrightarrow> c_last c = rec_Seq r \<Longrightarrow> c_minSeq c = 0 \<Longrightarrow>
   \<not> unreliable (fault (cf_name (c_f c))) (c_f c) \<Longrightarrow> file_records isNormal (Encrypted h) True R = Some rs \<Longrightarrow>
   \<forall>x \<in> set (r # rs). rec_Op x \<noteq> OpLinkManifest \<Longrightarrow> seq_ok st \<Longrightarrow> replay st (map (\<lambda>r. (r, 0)) (r # rs)) = (st', None) \<Longrightarrow>
   merge_loop H isNormal fault fs genDir h st info [c] linked trace =
     Some (tail_info (min (file_Size fs (c_f c)) (lr_limit (c_lr c))) info (last R), Inr (st', rev trace @ map (\<lambda>r. (r, 0)) (r # rs)))"
proof (induction rs arbitrary: c r R st trace)
  case Nil
  have ap: "Apply st r 0 = (st', None)" using Nil.prems(11) by (auto split: prod.splits option.splits)
  show ?case
    by (rule advance_in_end[OF Nil.prems(2,7), of info])
      (use Nil.prems ap in \<open>auto simp: merge_loop.simps[of H isNormal fault fs genDir h st info "[c]"] merge_loop.simps[of _ _ _ _ _ _ _ _ "[]"]\<close>)
next
  case (Cons r1 rs)
  obtain st1 where ap: "Apply st r 0 = (st1, None)" "replay st1 (map (\<lambda>r. (r, 0)) (r1 # rs)) = (st', None)"
    using Cons.prems(11) by (auto split: prod.splits option.splits)
  note q = Apply_seq[OF ap(1) Cons.prems(10)]
  have "rec_Seq r < rec_Seq r1" using replay_seqs[OF q(3) ap(2)] q(2) by simp
  then have seq: "c_last c < rec_Seq r1" "c_minSeq c < rec_Seq r1" using Cons.prems(5,6) by (auto simp: word_gt_0)
  have fr: "file_records isNormal (Encrypted h) (c_main c) R = Some (r1 # rs)" using Cons.prems(3,8) by simp
  show ?case
  proof (rule advance_in_next[OF Cons.prems(2,7) fr seq, of info])
    fix c1 assume c1: "advance_in isNormal fault fs (Encrypted h) info c = (info, Inr c1)" "c_rec c1 = Some r1" "same_cursor c c1"
      "reading isNormal fault fs (Encrypted h) c1 (tl R)" "file_records isNormal (Encrypted h) (c_main c) (tl R) = Some rs" "c_last c1 = rec_Seq r1" "tl R \<noteq> []"
    have "merge_loop H isNormal fault fs genDir h st info [c] linked trace =
        merge_loop H isNormal fault fs genDir h st1 info [c1] linked ((r, 0) # trace)"
      using Cons.prems ap(1) c1(1,2) by (simp add: merge_loop.simps[of H isNormal fault fs genDir h st info "[c]"])
    moreover have "last R = last (tl R)" using c1(7) by (metis last_tl)
    ultimately show ?thesis
      using Cons.IH[of c1 r1 "tl R" st1 "(r, 0) # trace"] c1 Cons.prems ap(2) q(3) by (simp add: same_cursor_def)
  qed
qed

section \<open>Journals as they are written\<close>

definition written :: "Record list \<Rightarrow> bytes" where
  "written rs = concat (map (\<lambda>r. line_of r @ [LF]) rs)"

text \<open>A record that \<open>AppendLine\<close> writes and a reader gets back unchanged.\<close>

definition written_ok :: "(bytes \<Rightarrow> bool) \<Rightarrow> Record \<Rightarrow> bool" where
  "written_ok isNormal r \<longleftrightarrow> validate isNormal r = Inr () \<and> shaped_record r \<and> length (line_of r) \<le> MaxLineBytes"

lemma written_simps [simp]: "written [] = []" "written (r # rs) = line_of r @ LF # written rs" "written (rs @ ss) = written rs @ written ss"
  by (simp_all add: written_def)

lemma line_no_LF: "k < length (line_of r) \<Longrightarrow> line_of r ! k \<noteq> LF"
  using line_without_LF[of r] by (metis nth_mem)

lemma line_no_NUL: "index_byte 0 (line_of r) = None"
  using printable_line[of r] by (auto simp: index_byte_None printable_def list_all_length)

lemma line_at_written:
  assumes "length (line_of r) \<le> MaxLineBytes"
  shows "line_at (pre @ line_of r @ LF # rest) (length pre) = Line (line_of r) (length pre)"
proof -
  have "index_byte LF (line_of r @ LF # rest) = Some (length (line_of r))"
    using line_no_LF by (auto simp: index_byte_Some nth_append)
  then show ?thesis using assms by (simp add: line_at_def)
qed

lemma events_written:
  assumes "\<forall>r \<in> set rs. written_ok isNormal r" "LF \<notin> set torn"
  shows "file_records isNormal False True (events (pre @ written rs @ torn) True (length pre)) = Some rs"
    "last (events (pre @ written rs @ torn) True (length pre)) = (AtEnd (length pre + length (written rs)) (length torn), False)"
proof -
  have "file_records isNormal False True (events (pre @ written rs @ torn) True (length pre)) = Some rs \<and>
    last (events (pre @ written rs @ torn) True (length pre)) = (AtEnd (length pre + length (written rs)) (length torn), False)"
    using assms(1)
  proof (induction rs arbitrary: pre)
    case Nil
    have "index_byte LF torn = None" using assms(2) by (metis index_byte_None nth_mem)
    then show ?case by (subst (1 2) events.simps) (simp add: line_at_def)
  next
    case (Cons r rs)
    let ?data = "pre @ written (r # rs) @ torn" and ?pre = "pre @ line_of r @ [LF]"
    have ok: "written_ok isNormal r" using Cons.prems by simp
    have "events ?data True (length pre) = (Line (line_of r) (length pre), False) # events ?data True (length ?pre)"
      using line_at_written[of r pre "written rs @ torn"] ok line_no_NUL[of r] by (subst events.simps) (simp add: written_ok_def)
    moreover have "?data = ?pre @ written rs @ torn" by simp
    moreover have "DecodeLine isNormal (line_of r) False = Inr r"
      using DecodeLine_line_of[of isNormal r] ok by (simp add: written_ok_def shaped_record_def)
    ultimately show ?case using Cons.IH[of ?pre] Cons.prems by (simp del: append_assoc append.simps written_simps) simp
  qed
  then show "file_records isNormal False True (events (pre @ written rs @ torn) True (length pre)) = Some rs"
    "last (events (pre @ written rs @ torn) True (length pre)) = (AtEnd (length pre + length (written rs)) (length torn), False)" by blast+
qed

definition start_state :: "ArchiveHeader \<Rightarrow> LoadOptions \<Rightarrow> State" where
  "start_state h opt = (if lo_TrackRefs opt then TrackRefs (NewState h (lo_Limits opt)) else NewState h (lo_Limits opt))"

lemma seq_ok_start_state [simp]: "seq_ok (start_state h opt)" "st_lastSeq (start_state h opt) = 0"
  by (simp_all add: start_state_def) (simp_all add: TrackRefs_def NewState_def)

lemma OpenFile_rdonly: "OpenFile fs name rdonly_flags = Inr (x, f) \<Longrightarrow> x = fs \<and> \<not> cf_closed f"
  by (auto simp: OpenFile_def rdonly_flags_def Let_def split: if_splits option.splits)

lemma LoadWith_open:
  assumes "OpenFile fs (path_Join genDir ManifestName) rdonly_flags = Inr (fs, mf)" "\<not> (lo_Limit opt > 0 \<and> lo_Limit opt > file_Size fs mf)"
    "advance_in isNormal fault fs (Encrypted h) noLoadInfo
       (newCursor 0 mf (if lo_Limit opt > 0 then lo_Limit opt else file_Size fs mf) True 0) = (i, cres)"
  shows "LoadWith H isNormal fault fs genDir h opt =
      (case cres of Inl e \<Rightarrow> Some (i, Inl e)
       | Inr c \<Rightarrow> merge_loop H isNormal fault fs genDir h (start_state h opt) i (if c_rec c \<noteq> None then [c] else []) [] [])"
  unfolding LoadWith_def Let_def assms(1) sum.case prod.case if_not_P[OF assms(2)] assms(3) start_state_def
  by (simp split: sum.split)

lemma LoadWith_total:
  "\<exists>info res. LoadWith H isNormal fault fs genDir h opt = Some (info, res) \<and>
    (\<forall>st tr. res = Inr (st, tr) \<longrightarrow> replay (start_state h opt) tr = (st, None) \<and>
      (\<exists>mf limit. OpenFile fs (path_Join genDir ManifestName) rdonly_flags = Inr (fs, mf) \<and>
         limit = (if lo_Limit opt > 0 then lo_Limit opt else file_Size fs mf) \<and> limit \<le> file_Size fs mf \<and>
         merged H isNormal fs genDir h (take limit (file_bytes fs mf)) tr))"
proof (cases "OpenFile fs (path_Join genDir ManifestName) rdonly_flags")
  case (Inl e)
  then show ?thesis by (simp add: LoadWith_def Let_def)
next
  case (Inr xm)
  then obtain mf where o: "OpenFile fs (path_Join genDir ManifestName) rdonly_flags = Inr (fs, mf)"
    using OpenFile_rdonly by (metis prod.exhaust)
  define limit where "limit = (if lo_Limit opt > 0 then lo_Limit opt else file_Size fs mf)"
  show ?thesis
  proof (cases "lo_Limit opt > 0 \<and> lo_Limit opt > file_Size fs mf")
    case True
    then show ?thesis using o by (simp add: LoadWith_def Let_def errf_def)
  next
    case False
    then have lim: "limit \<le> length (file_bytes fs mf)" by (auto simp: limit_def file_Size_bytes)
    obtain i cres where adv: "advance_in isNormal fault fs (Encrypted h) noLoadInfo (newCursor 0 mf limit True 0) = (i, cres)" by (rule prod.exhaust)
    note unf = LoadWith_open[OF o False, folded limit_def, OF adv]
    show ?thesis
    proof (cases cres)
      case (Inl e)
      then show ?thesis using unf by simp
    next
      case (Inr c)
      let ?R = "events (take limit (file_bytes fs mf)) True 0"
      have rd: "reading isNormal fault fs (Encrypted h) (newCursor 0 mf limit True 0) ?R" by (rule reading_new[OF lim])
      note a = advance_in_Inr[OF rd adv[unfolded Inr]]
      have c: "c_file c = 0" "c_main c" using a(1) by (simp_all add: same_cursor_def newCursor_def)
      have "merge_inv isNormal fault fs genDir h (take limit (file_bytes fs mf)) (if c_rec c \<noteq> None then [c] else []) [] (rev [])"
        using a(2,3) c
        by (auto simp: merge_inv_def cursor_ok_def all_records_def journal_bytes_def of_file_def newCursor_def is_heap_def heap_above_def
            intro!: exI[of _ "tl ?R"])
      then show ?thesis
        using merge_loop_ok[of isNormal fault fs genDir h "take limit (file_bytes fs mf)" _ "[]" "[]" H "start_state h opt" "start_state h opt" i]
          unf Inr o lim by (auto simp: links_ok_def links_of_def limit_def file_Size_bytes)
    qed
  qed
qed

lemma LoadWith_written:
  assumes o: "OpenFile fs (path_Join genDir ManifestName) rdonly_flags = Inr (fs, mf)" and b: "file_bytes fs mf = written rs @ torn"
    and t: "LF \<notin> set torn" and enc: "\<not> Encrypted h" and lim: "lo_Limit opt = 0" and nf: "\<forall>off n. \<not> fault (cf_name mf) off n"
    and ok: "\<forall>r \<in> set rs. written_ok isNormal r \<and> rec_Op r \<noteq> OpLinkManifest"
    and rep: "replay (start_state h opt) (map (\<lambda>r. (r, 0)) rs) = (st, None)"
  shows "LoadWith H isNormal fault fs genDir h opt =
    Some (\<lparr> li_ValidEnd = length (written rs), li_Torn = length torn, li_TornReason = (if torn = [] then [] else ''unterminated''), li_Linked = 0 \<rparr>,
      Inr (st, map (\<lambda>r. (r, 0)) rs))" (is "_ = Some (?info, _)")
proof -
  let ?c = "newCursor 0 mf (file_Size fs mf) True 0" and ?R = "events (written rs @ torn) True 0"
  have rel: "\<not> unreliable (fault (cf_name (c_f ?c))) (c_f ?c)"
    using nf OpenFile_rdonly[OF o] by (auto simp: unreliable_def newCursor_def)
  have rd: "reading isNormal fault fs (Encrypted h) ?c ?R"
    using reading_new[of "file_Size fs mf" fs mf isNormal fault "Encrypted h" 0 True 0] b by (simp add: file_Size_bytes)
  note ev = events_written[of rs isNormal torn "[]", simplified]
  have fr: "file_records isNormal (Encrypted h) (c_main ?c) ?R = Some rs" using ev(1) ok t enc by (simp add: newCursor_def)
  have info: "tail_info m noLoadInfo (last ?R) = ?info" for m using ev(2) ok t by (auto simp: tail_info_def noLoadInfo_def)
  note load = LoadWith_open[OF o, of opt isNormal fault h, unfolded lim, simplified]
  show ?thesis
  proof (cases rs)
    case Nil
    show ?thesis
    proof (rule advance_in_end[OF rd rel, of noLoadInfo])
      fix c1 assume "c_rec c1 = None" "advance_in isNormal fault fs (Encrypted h) noLoadInfo ?c =
          (tail_info (min (file_Size fs (c_f ?c)) (lr_limit (c_lr ?c))) noLoadInfo (last ?R), Inr c1)"
      then show ?thesis
        using load info rep Nil by (simp add: merge_loop.simps[of H isNormal fault fs genDir h _ _ "[]"])
    qed (use fr Nil in \<open>auto simp: newCursor_def\<close>)
  next
    case (Cons r rs1)
    have seq: "0 < rec_Seq r" using replay_seqs[of "start_state h opt", OF _ rep] Cons by simp
    have fr': "file_records isNormal (Encrypted h) (c_main ?c) ?R = Some (r # rs1)" using fr Cons by simp
    show ?thesis
    proof (rule advance_in_next[OF rd rel fr', of noLoadInfo])
      fix c1 assume c1: "advance_in isNormal fault fs (Encrypted h) noLoadInfo ?c = (noLoadInfo, Inr c1)" "c_rec c1 = Some r" "same_cursor ?c c1"
        "reading isNormal fault fs (Encrypted h) c1 (tl ?R)" "file_records isNormal (Encrypted h) (c_main ?c) (tl ?R) = Some rs1" "c_last c1 = rec_Seq r" "tl ?R \<noteq> []"
      have "last (tl ?R) = last ?R" using c1(7) by (metis last_tl)
      moreover have "merge_loop H isNormal fault fs genDir h (start_state h opt) noLoadInfo [c1] [] [] =
          Some (tail_info (min (file_Size fs (c_f c1)) (lr_limit (c_lr c1))) noLoadInfo (last (tl ?R)), Inr (st, rev [] @ map (\<lambda>r. (r, 0)) (r # rs1)))"
        by (rule merge_single[OF c1(2,4)]) (use c1 rel ok Cons rep in \<open>auto simp: same_cursor_def newCursor_def\<close>)
      ultimately show ?thesis using load[OF c1(1)] c1(2) info Cons by simp
    qed (use seq in \<open>auto simp: newCursor_def\<close>)
  qed
qed

section \<open>Properties\<close>

text \<open>C18: Loading a journal always returns: whatever the bytes of the main journal and of the files it links, whatever the
  device faults, the merge loop ends, with a state or an error. Every record applied raises the last sequence number, also
  when the count of records would wrap around.\<close>

theorem Load_terminates:
  "\<exists>info res. LoadWith H isNormal fault fs genDir h opt = Some (info, res)"
  using LoadWith_total by blast

text \<open>C17: What Load returns is the whole journal in order: the records applied, by strictly increasing sequence number, are
  exactly the records of the main journal (up to the snapshot limit and a torn tail) and of every submanifest a record links,
  each file's in its own order, each linked file with the digest its LINK_MANIFEST record names and linked once; and the
  state is their replay. The read-ahead, the bounded line buffer and the priority queue of cursors are invisible.\<close>

theorem Load_merges_all_files:
  assumes "LoadWith H isNormal fault fs genDir h opt = Some (info, Inr (st, tr))"
  shows "\<exists>mf. OpenFile fs (path_Join genDir ManifestName) rdonly_flags = Inr (fs, mf) \<and>
    merged H isNormal fs genDir h (take (if lo_Limit opt > 0 then lo_Limit opt else file_Size fs mf) (file_bytes fs mf)) tr \<and>
    sorted_wrt (<) (map (rec_Seq \<circ> fst) tr) \<and> replay (start_state h opt) tr = (st, None)"
proof -
  have r: "replay (start_state h opt) tr = (st, None)" using LoadWith_total[of H isNormal fault fs genDir h opt] assms by auto
  then have "sorted_wrt (<) (map (rec_Seq \<circ> fst) tr)" using replay_seqs[of "start_state h opt"] by simp
  then show ?thesis using r LoadWith_total[of H isNormal fault fs genDir h opt] assms by auto
qed

text \<open>C16: A journal as a writer leaves it, whole lines and then any unterminated bytes of an interrupted append, is read back
  completely: Load returns the replay of exactly the records whose lines are complete, reports their end as the valid end and
  the rest as the torn tail.\<close>

theorem torn_journal_loads:
  assumes "OpenFile fs (path_Join genDir ManifestName) rdonly_flags = Inr (fs, mf)" "file_bytes fs mf = written rs @ torn"
    "LF \<notin> set torn" "\<not> Encrypted h" "lo_Limit opt = 0" "\<forall>off n. \<not> fault (cf_name mf) off n"
    "\<forall>r \<in> set rs. written_ok isNormal r \<and> rec_Op r \<noteq> OpLinkManifest"
    "replay (start_state h opt) (map (\<lambda>r. (r, 0)) rs) = (st, None)"
  shows "\<exists>info. LoadWith H isNormal fault fs genDir h opt = Some (info, Inr (st, map (\<lambda>r. (r, 0)) rs)) \<and>
    li_ValidEnd info = length (written rs) \<and> li_Torn info = length torn \<and> li_Linked info = 0"
  using LoadWith_written[where fault = fault, OF assms] by auto


text \<open>A journal of one record and a torn tail, in a file system whose only file it is.\<close>

definition sample_add :: Record where
  "sample_add = (emptyRecord OpAdd 1)\<lparr> rec_Path := [0x61, 0x2F, 0x62], rec_FileVer := 1,
     rec_Loc := [\<lparr> loc_Blob = 0, loc_Hash = replicate 32 1, loc_Offset = 0, loc_Length = 5 \<rparr>] \<rparr>"

definition journal_fs :: "bytes \<Rightarrow> CrashFS" where
  "journal_fs b = NewCrashFS\<lparr> inodes := [\<lparr> cur = b, dur = b \<rparr>], ns := [''gen/manifest.jsonl'' \<mapsto> 0],
     dirs := (\<lambda>d. d = ''.'' \<or> d = ''gen'') \<rparr>"

definition sample_options :: LoadOptions where
  "sample_options = \<lparr> lo_Limit = 0, lo_Limits = DefaultLimits, lo_TrackRefs = False \<rparr>"

lemma sample_names: "path_Join ''gen'' ManifestName = ''gen/manifest.jsonl''" "clean ''gen/manifest.jsonl'' = ''gen/manifest.jsonl''"
  "dirOf ''gen/manifest.jsonl'' = ''gen''"
  by code_simp+

lemma journal_fs_open:
  "OpenFile (journal_fs b) (path_Join ''gen'' ManifestName) rdonly_flags =
    Inr (journal_fs b, \<lparr> cf_in = 0, cf_name = ''gen/manifest.jsonl'', cf_writable = False, cf_closed = False \<rparr>)"
  by (simp add: sample_names OpenFile_def journal_fs_def rdonly_flags_def Let_def)

lemma sample_add_written: "written_ok (\<lambda>_. True) sample_add"
proof -
  have "Validate (\<lambda>_. True) [0x61, 0x2F, 0x62] = Inr ()" unfolding Validate_iff by (rule canonical_sample_path)
  then have "validate (\<lambda>_. True) sample_add = Inr ()" by (simp add: validate_def all_ops_def sample_add_def emptyRecord_def)
  moreover have "shaped_record sample_add" by (simp add: shaped_record_def meaningful_def arrays_ok_def sample_add_def emptyRecord_def)
  moreover have "length (line_of sample_add) \<le> 300" by code_simp
  ultimately show ?thesis by (simp add: written_ok_def)
qed

lemma sample_add_replayed: "\<exists>st. replay (start_state sample_header sample_options) [(sample_add, 0)] = (st, None) \<and> Lookup st [0x61, 0x2F, 0x62] \<noteq> None"
  by (simp add: Apply_def apply_op_def apply_Add_def sample_add_def emptyRecord_def checkBlobs_def checkLocs_def checkVersion_def NewState_def
      start_state_def sample_options_def setLive_def addRefs_def sample_header_def DefaultLimits_def MaxFrameSize_def Lookup_def Let_def)

theorem torn_journal_loads_witness:
  "\<exists>st info. LoadWith sample_hashes (\<lambda>_. True) (\<lambda>_ _ _. False) (journal_fs (written [sample_add] @ [0x7B])) ''gen'' sample_header sample_options =
     Some (info, Inr (st, [(sample_add, 0)])) \<and> Lookup st [0x61, 0x2F, 0x62] \<noteq> None \<and> li_Torn info = 1"
proof -
  obtain st where st: "replay (start_state sample_header sample_options) [(sample_add, 0)] = (st, None)" "Lookup st [0x61, 0x2F, 0x62] \<noteq> None"
    using sample_add_replayed by blast
  have "\<exists>info. LoadWith sample_hashes (\<lambda>_. True) (\<lambda>_ _ _. False) (journal_fs (written [sample_add] @ [0x7B])) ''gen'' sample_header sample_options =
      Some (info, Inr (st, map (\<lambda>r. (r, 0)) [sample_add])) \<and>
      li_ValidEnd info = length (written [sample_add]) \<and> li_Torn info = length [0x7B :: byte] \<and> li_Linked info = 0"
    by (rule torn_journal_loads[OF journal_fs_open])
      (use st(1) sample_add_written in \<open>auto simp: journal_fs_def file_bytes_def NewCrashFS_def sample_header_def Encrypted_def sample_options_def
        sample_add_def emptyRecord_def\<close>)
  then show ?thesis using st by auto
qed

lemma sample_load:
  "\<exists>st info. LoadWith sample_hashes (\<lambda>_. True) (\<lambda>_ _ _. False) (journal_fs (written [sample_add])) ''gen'' sample_header sample_options =
     Some (info, Inr (st, [(sample_add, 0)]))"
proof -
  obtain st where st: "replay (start_state sample_header sample_options) [(sample_add, 0)] = (st, None)" using sample_add_replayed by blast
  have "LoadWith sample_hashes (\<lambda>_. True) (\<lambda>_ _ _. False) (journal_fs (written [sample_add] @ [])) ''gen'' sample_header sample_options =
      Some (\<lparr> li_ValidEnd = length (written [sample_add]), li_Torn = length ([] :: bytes),
        li_TornReason = (if ([] :: bytes) = [] then [] else ''unterminated''), li_Linked = 0 \<rparr>, Inr (st, map (\<lambda>r. (r, 0)) [sample_add]))"
    by (rule LoadWith_written[OF journal_fs_open])
      (use st sample_add_written in \<open>auto simp: journal_fs_def file_bytes_def NewCrashFS_def sample_header_def Encrypted_def sample_options_def
        sample_add_def emptyRecord_def\<close>)
  then show ?thesis by auto
qed

theorem Load_merges_all_files_witness:
  "\<exists>mf. merged sample_hashes (\<lambda>_. True) (journal_fs (written [sample_add])) ''gen'' sample_header
     (take (file_Size (journal_fs (written [sample_add])) mf) (file_bytes (journal_fs (written [sample_add])) mf)) [(sample_add, 0)]"
proof -
  obtain st info where l: "LoadWith sample_hashes (\<lambda>_. True) (\<lambda>_ _ _. False) (journal_fs (written [sample_add])) ''gen'' sample_header sample_options =
     Some (info, Inr (st, [(sample_add, 0)]))" using sample_load by blast
  show ?thesis using Load_merges_all_files[OF l] by (auto simp: sample_options_def)
qed

end
