(* ===== verification/Manifest_Writer.thy ===== *)
theory Manifest_Writer
  imports Manifest_Load
begin

text \<open>
  Package \<^verbatim>\<open>internal/manifest\<close>, \<^verbatim>\<open>writer.go\<close>: the journal open for appending. The world of an operation is the file
  system, the journal value and what the environment supplies: the state of the sequence source, the
  random transaction identifiers still to be drawn (\<open>rand.Read\<close> fails when there are none) and
  the faults of the device still to come, each saying whether the next write or sync fails and how many bytes
  a failing write has written. A transaction handle is returned updated. The sequence source of the archive, an allocator, keeps
  its own file; its state is apart from the file system of the journal.
\<close>

section \<open>The journal\<close>

record Journal =
  j_f :: crashFile
  j_h :: ArchiveHeader
  j_st :: State
  j_end :: nat
  j_busy :: "bytes \<Rightarrow> bytes option"
  j_poisoned :: "error option"

record 'a world =
  w_fs :: CrashFS
  w_src :: 'a
  w_draws :: "bytes list"
  w_faults :: "nat option list"

type_synonym 'a seq_source = "('a \<Rightarrow> u64 result \<times> 'a) option"

definition errPoisoned :: error where "errPoisoned = Err ErrOther ''Manifest'' ''poisoned''"
definition errPathBusy :: error where "errPathBusy = Err ErrOther ''Manifest'' ''busy''"

definition next_fault :: "'a world \<Rightarrow> nat option \<times> 'a world" where
  "next_fault w = (case w_faults w of [] \<Rightarrow> (None, w) | x # xs \<Rightarrow> (x, w\<lparr> w_faults := xs \<rparr>))"

text \<open>\<open>f.WriteAt(b, off)\<close>; a failing write has written some first bytes of \<open>b\<close>.\<close>

definition world_WriteAt :: "'a world \<Rightarrow> crashFile \<Rightarrow> bytes \<Rightarrow> nat \<Rightarrow> 'a world \<times> error option" where
  "world_WriteAt w f b off =
    (case next_fault w of (flt, w) \<Rightarrow>
      (case WriteAt (w_fs w) f (case flt of None \<Rightarrow> b | Some n \<Rightarrow> take n b) off of
         Inl e \<Rightarrow> (w, Some e)
       | Inr fs \<Rightarrow> (w\<lparr> w_fs := fs \<rparr>, if flt = None then None else Some io_error)))"

definition world_Sync :: "'a world \<Rightarrow> crashFile \<Rightarrow> 'a world \<times> error option" where
  "world_Sync w f =
    (case next_fault w of (flt, w) \<Rightarrow>
      (if flt \<noteq> None then (w, Some io_error)
       else case file_Sync (w_fs w) f of Inl e \<Rightarrow> (w, Some e) | Inr fs \<Rightarrow> (w\<lparr> w_fs := fs \<rparr>, None)))"

definition nextSeq :: "'a seq_source \<Rightarrow> 'a world \<Rightarrow> State \<Rightarrow> u64 result \<times> 'a world" where
  "nextSeq src w st =
    (case src of
       Some f \<Rightarrow> (case f (w_src w) of (res, s) \<Rightarrow> (res, w\<lparr> w_src := s \<rparr>))
     | None \<Rightarrow> (Inr (st_lastSeq st + 1), w))"

definition appendLocked :: "(bytes \<Rightarrow> bool) \<Rightarrow> 'a seq_source \<Rightarrow> 'a world \<Rightarrow> Journal \<Rightarrow> Record \<Rightarrow> 'a world \<times> Journal \<times> error option" where
  "appendLocked isNormal src w j r0 =
    (case j_poisoned j of
       Some e \<Rightarrow> (w, j, Some e)
     | None \<Rightarrow>
       (case nextSeq src w (j_st j) of
          (Inl e, w) \<Rightarrow> (w, j, Some e)
        | (Inr v, w) \<Rightarrow>
          (let r = r0\<lparr> rec_Seq := v \<rparr> in
           case AppendLine isNormal [] r of
             Inl e \<Rightarrow> (w, j, Some e)
           | Inr b \<Rightarrow>
             (case Apply (j_st j) r 0 of
                (st, Some e) \<Rightarrow> (w, j\<lparr> j_st := st \<rparr>, Some e)
              | (st, None) \<Rightarrow>
                (case world_WriteAt w (j_f j) b (j_end j) of
                   (w, Some e) \<Rightarrow> (w, j\<lparr> j_st := st, j_poisoned := Some errPoisoned \<rparr>, Some e)
                 | (w, None) \<Rightarrow> (w, j\<lparr> j_st := st, j_end := j_end j + length b \<rparr>, None))))))"

definition journal_Sync :: "'a world \<Rightarrow> Journal \<Rightarrow> 'a world \<times> Journal \<times> error option" where
  "journal_Sync w j =
    (case j_poisoned j of
       Some e \<Rightarrow> (w, j, Some e)
     | None \<Rightarrow>
       (case world_Sync w (j_f j) of
          (w, Some e) \<Rightarrow> (w, j\<lparr> j_poisoned := Some errPoisoned \<rparr>, Some e)
        | (w, None) \<Rightarrow> (w, j, None)))"

definition journal_End :: "Journal \<Rightarrow> nat" where
  "journal_End j = j_end j"

section \<open>Transactions\<close>

record Tx =
  t_id :: bytes
  t_path :: bytes
  t_seq :: u32
  t_count :: u64
  t_done :: bool

definition zeroRecord :: "Op \<Rightarrow> Record" where
  "zeroRecord op = emptyRecord op 0"

text \<open>The loop that draws an identifier no transaction of the journal has used.\<close>

fun drawTx :: "State \<Rightarrow> bytes list \<Rightarrow> bytes result \<times> bytes list" where
  "drawTx st [] = (Inl io_error, [])"
| "drawTx st (t # ts) = (if \<not> IsTxKnown st t then (Inr t, ts) else drawTx st ts)"

definition beginLocked :: "(bytes \<Rightarrow> bool) \<Rightarrow> 'a seq_source \<Rightarrow> 'a world \<Rightarrow> Journal \<Rightarrow> bytes \<Rightarrow> u64 \<Rightarrow> 'a world \<times> Journal \<times> Tx result" where
  "beginLocked isNormal src w j p fileVer =
    (if j_busy j p \<noteq> None then (w, j, Inl errPathBusy)
     else case drawTx (j_st j) (w_draws w) of
       (Inl e, ts) \<Rightarrow> (w\<lparr> w_draws := ts \<rparr>, j, Inl e)
     | (Inr t, ts) \<Rightarrow>
       (case appendLocked isNormal src (w\<lparr> w_draws := ts \<rparr>) j ((zeroRecord OpAddBegin)\<lparr> rec_TxID := t, rec_Path := p, rec_FileVer := fileVer \<rparr>) of
          (w, j, Some e) \<Rightarrow> (w, j, Inl e)
        | (w, j, None) \<Rightarrow> (w, j\<lparr> j_busy := (j_busy j)(p \<mapsto> t) \<rparr>,
            Inr \<lparr> t_id = t, t_path = p, t_seq = 0, t_count = 0, t_done = False \<rparr>)))"

definition journal_Begin :: "(bytes \<Rightarrow> bool) \<Rightarrow> 'a seq_source \<Rightarrow> 'a world \<Rightarrow> Journal \<Rightarrow> bytes \<Rightarrow> u64 \<Rightarrow> 'a world \<times> Journal \<times> Tx result" where
  "journal_Begin = beginLocked"

definition errTxClosed :: error where "errTxClosed = Err ErrInvalid ''Manifest'' ''transaction''"

definition extentLocked :: "(bytes \<Rightarrow> bool) \<Rightarrow> 'a seq_source \<Rightarrow> 'a world \<Rightarrow> Journal \<Rightarrow> Tx \<Rightarrow> Loc list \<Rightarrow> 'a world \<times> Journal \<times> Tx \<times> error option" where
  "extentLocked isNormal src w j t locs =
    (if t_done t then (w, j, t, Some errTxClosed)
     else case appendLocked isNormal src w j ((zeroRecord OpAddExtent)\<lparr> rec_TxID := t_id t, rec_ExtentSequence := t_seq t, rec_Loc := locs \<rparr>) of
       (w, j, Some e) \<Rightarrow> (w, j, t, Some e)
     | (w, j, None) \<Rightarrow> (w, j, t\<lparr> t_seq := t_seq t + 1, t_count := t_count t + word_of_nat (length locs) \<rparr>, None))"

definition maxLocBytes :: nat where
  "maxLocBytes = length ''[254,\"'' + 64 + length ''\",\"18446744073709551615\",\"18446744073709551615\"],''"

definition extentHeaderBytes :: nat where
  "extentHeaderBytes = length ''{\"seq\":\"18446744073709551615\",\"op\":\"ADD_EXTENT\",\"tx_id\":\"00000000000000000000000000000000\",\"extent_sequence\":4294967295,\"loc\":[]}''"

definition maxExtentsPerLine :: nat where
  "maxExtentsPerLine = (MaxLineBytes - extentHeaderBytes) div maxLocBytes"

definition extentsPerLine :: "Loc list \<Rightarrow> nat" where
  "extentsPerLine rest = min (length rest) maxExtentsPerLine"

lemma maxExtentsPerLine_value: "maxExtentsPerLine = 8810"
  by (simp add: maxExtentsPerLine_def extentHeaderBytes_def maxLocBytes_def)

text \<open>The loop of \<open>Extent\<close> and of \<open>Add\<close>.\<close>

function extent_loop :: "(bytes \<Rightarrow> bool) \<Rightarrow> 'a seq_source \<Rightarrow> 'a world \<Rightarrow> Journal \<Rightarrow> Tx \<Rightarrow> Loc list \<Rightarrow> 'a world \<times> Journal \<times> Tx \<times> error option" where
  "extent_loop isNormal src w j t rest =
    (if rest = [] then (w, j, t, None)
     else let n = extentsPerLine rest in
       case extentLocked isNormal src w j t (take n rest) of
         (w, j, t, Some e) \<Rightarrow> (w, j, t, Some e)
       | (w, j, t, None) \<Rightarrow> extent_loop isNormal src w j t (drop n rest))"
  by pat_completeness auto
termination by (relation "measure (\<lambda>(_, _, _, _, _, rest). length rest)") (auto simp: extentsPerLine_def maxExtentsPerLine_value)

declare extent_loop.simps [simp del]

definition tx_Extent :: "(bytes \<Rightarrow> bool) \<Rightarrow> 'a seq_source \<Rightarrow> 'a world \<Rightarrow> Journal \<Rightarrow> Tx \<Rightarrow> Loc list \<Rightarrow> 'a world \<times> Journal \<times> Tx \<times> error option" where
  "tx_Extent = extent_loop"

definition abortLocked :: "(bytes \<Rightarrow> bool) \<Rightarrow> 'a seq_source \<Rightarrow> 'a world \<Rightarrow> Journal \<Rightarrow> Tx \<Rightarrow> 'a world \<times> Journal \<times> Tx \<times> error option" where
  "abortLocked isNormal src w j t =
    (if t_done t then (w, j, t, None)
     else case appendLocked isNormal src w j ((zeroRecord OpAddAbort)\<lparr> rec_TxID := t_id t \<rparr>) of
       (w, j, Some e) \<Rightarrow> (w, j, t, Some e)
     | (w, j, None) \<Rightarrow> (w, j\<lparr> j_busy := (j_busy j)(t_path t := None) \<rparr>, t\<lparr> t_done := True \<rparr>, None))"

definition commitLocked :: "(bytes \<Rightarrow> bool) \<Rightarrow> 'a seq_source \<Rightarrow> 'a world \<Rightarrow> Journal \<Rightarrow> Tx \<Rightarrow> 'a world \<times> Journal \<times> Tx \<times> error option" where
  "commitLocked isNormal src w j t =
    (if t_done t then (w, j, t, Some errTxClosed)
     else if t_count t > MaxTransactionExtents then (w, j, t, Some errTxClosed)
     else case appendLocked isNormal src w j ((zeroRecord OpAddCommit)\<lparr> rec_TxID := t_id t, rec_ExtentRecordCount := t_seq t,
            rec_ExtentCount := ucast (t_count t) \<rparr>) of
       (w, j, Some e) \<Rightarrow>
         (if j_poisoned j = None then (case abortLocked isNormal src w j t of (w, j, t, _) \<Rightarrow> (w, j, t, Some e)) else (w, j, t, Some e))
     | (w, j, None) \<Rightarrow> (w, j\<lparr> j_busy := (j_busy j)(t_path t := None) \<rparr>, t\<lparr> t_done := True \<rparr>, None))"

definition journal_Add :: "(bytes \<Rightarrow> bool) \<Rightarrow> 'a seq_source \<Rightarrow> 'a world \<Rightarrow> Journal \<Rightarrow> bytes \<Rightarrow> u64 \<Rightarrow> Loc list \<Rightarrow> 'a world \<times> Journal \<times> error option" where
  "journal_Add isNormal src w j p fileVer locs =
    (if j_busy j p \<noteq> None then (w, j, Some errPathBusy)
     else let r = (zeroRecord OpAdd)\<lparr> rec_Path := p, rec_FileVer := fileVer, rec_Loc := locs \<rparr> in
       case AppendLine isNormal [] (r\<lparr> rec_Seq := -1 \<rparr>) of
         Inr _ \<Rightarrow> appendLocked isNormal src w j r
       | Inl _ \<Rightarrow>
         (case beginLocked isNormal src w j p fileVer of
            (w, j, Inl e) \<Rightarrow> (w, j, Some e)
          | (w, j, Inr t) \<Rightarrow>
            (case extent_loop isNormal src w j t locs of
               (w, j, t, Some e) \<Rightarrow> (case abortLocked isNormal src w j t of (w, j, _, _) \<Rightarrow> (w, j, Some e))
             | (w, j, t, None) \<Rightarrow> (case commitLocked isNormal src w j t of (w, j, _, err) \<Rightarrow> (w, j, err)))))"

definition journal_Del :: "(bytes \<Rightarrow> bool) \<Rightarrow> 'a seq_source \<Rightarrow> 'a world \<Rightarrow> Journal \<Rightarrow> bytes \<Rightarrow> u64 \<Rightarrow> 'a world \<times> Journal \<times> error option" where
  "journal_Del isNormal src w j p fileVer =
    (if j_busy j p \<noteq> None then (w, j, Some errPathBusy)
     else appendLocked isNormal src w j ((zeroRecord OpDel)\<lparr> rec_Path := p, rec_FileVer := fileVer \<rparr>))"

section \<open>Opening\<close>

record OpenResult =
  or_Load :: LoadInfo
  or_Aborted :: "bytes list"

definition create_flags :: open_flags where
  "create_flags = \<lparr> O_CREATE = True, O_EXCL = True, O_TRUNC = False, O_WRITE = True \<rparr>"

definition rdwr_flags :: open_flags where
  "rdwr_flags = \<lparr> O_CREATE = False, O_EXCL = False, O_TRUNC = False, O_WRITE = True \<rparr>"

definition world_Truncate :: "'a world \<Rightarrow> crashFile \<Rightarrow> nat \<Rightarrow> 'a world \<times> error option" where
  "world_Truncate w f sz =
    (case next_fault w of (flt, w) \<Rightarrow>
      (if flt \<noteq> None then (w, Some io_error)
       else case Truncate (w_fs w) f sz of Inl e \<Rightarrow> (w, Some e) | Inr fs \<Rightarrow> (w\<lparr> w_fs := fs \<rparr>, None)))"

definition world_SyncDir :: "'a world \<Rightarrow> string \<Rightarrow> 'a world \<times> error option" where
  "world_SyncDir w dir =
    (case next_fault w of (flt, w) \<Rightarrow>
      (if flt \<noteq> None then (w, Some io_error)
       else case SyncDir (w_fs w) dir of Inl e \<Rightarrow> (w, Some e) | Inr fs \<Rightarrow> (w\<lparr> w_fs := fs \<rparr>, None)))"

text \<open>The empty journal of a generation without one.\<close>

definition create_journal :: "'a world \<Rightarrow> string \<Rightarrow> 'a world \<times> error option" where
  "create_journal w genDir =
    (let name = path_Join genDir ManifestName in
     case fs_Stat (w_fs w) name of
       Inr _ \<Rightarrow> (w, None)
     | Inl e \<Rightarrow>
       if err_class_of e \<noteq> ErrNotExist then (w, None)
       else case OpenFile (w_fs w) name create_flags of
         Inl e \<Rightarrow> (w, Some e)
       | Inr (fs, f) \<Rightarrow>
         (case world_Sync (w\<lparr> w_fs := fs \<rparr>) f of
            (w, Some e) \<Rightarrow> (w, Some e)
          | (w, None) \<Rightarrow> world_SyncDir w genDir))"

text \<open>The torn tail is cut off and the cut flushed.\<close>

definition cut_torn :: "'a world \<Rightarrow> crashFile \<Rightarrow> LoadInfo \<Rightarrow> 'a world \<times> error option" where
  "cut_torn w f info =
    (if li_Torn info > 0 then
       (case world_Truncate w f (li_ValidEnd info) of
          (w, Some e) \<Rightarrow> (w, Some e)
        | (w, None) \<Rightarrow> world_Sync w f)
     else (w, None))"

text \<open>Cold start: one ADD_ABORT for every transaction found open.\<close>

fun abort_open :: "(bytes \<Rightarrow> bool) \<Rightarrow> 'a seq_source \<Rightarrow> 'a world \<Rightarrow> Journal \<Rightarrow> bytes list \<Rightarrow> 'a world \<times> Journal \<times> error option" where
  "abort_open isNormal src w j [] = (w, j, None)"
| "abort_open isNormal src w j (t # ts) =
    (case appendLocked isNormal src w j ((zeroRecord OpAddAbort)\<lparr> rec_TxID := t \<rparr>) of
       (w, j, Some e) \<Rightarrow> (w, j, Some e)
     | (w, j, None) \<Rightarrow> abort_open isNormal src w j ts)"

definition cold_start :: "(bytes \<Rightarrow> bool) \<Rightarrow> 'a seq_source \<Rightarrow> 'a world \<Rightarrow> Journal \<Rightarrow> 'a world \<times> Journal \<times> bytes list result" where
  "cold_start isNormal src w j =
    (let open = OpenTransactions (j_st j) in
     if open = [] then (w, j, Inr [])
     else case abort_open isNormal src w j open of
       (w, j, Some e) \<Rightarrow> (w, j, Inl e)
     | (w, j, None) \<Rightarrow>
       (case journal_Sync w j of (w, j, Some e) \<Rightarrow> (w, j, Inl e) | (w, j, None) \<Rightarrow> (w, j, Inr open)))"

text \<open>\<open>beforeAppend\<close> is the callback of the options; the read faults of \<open>Load\<close> are \<open>fault\<close>. \<open>None\<close> is a load that does not return.\<close>

definition OpenJournal :: "hashes \<Rightarrow> (bytes \<Rightarrow> bool) \<Rightarrow> (string \<Rightarrow> nat \<Rightarrow> nat \<Rightarrow> bool) \<Rightarrow> 'a seq_source \<Rightarrow> (State \<Rightarrow> 'a world \<Rightarrow> 'a world \<times> error option) \<Rightarrow>
    'a world \<Rightarrow> string \<Rightarrow> ArchiveHeader \<Rightarrow> LoadOptions \<Rightarrow> ('a world \<times> OpenResult \<times> Journal result) option" where
  "OpenJournal H isNormal fault src beforeAppend w genDir h opt =
    (let res = \<lparr> or_Load = noLoadInfo, or_Aborted = [] \<rparr> in
     if Encrypted h then Some (w, res, errf ErrUnsupported ''Manifest'' [])
     else case create_journal w genDir of
       (w, Some e) \<Rightarrow> Some (w, res, Inl e)
     | (w, None) \<Rightarrow>
       (case Load H isNormal fault (w_fs w) genDir h (opt\<lparr> lo_TrackRefs := True \<rparr>) of
          None \<Rightarrow> None
        | Some (info, Inl e) \<Rightarrow> Some (w, res\<lparr> or_Load := info \<rparr>, Inl e)
        | Some (info, Inr st) \<Rightarrow>
          (let res = res\<lparr> or_Load := info \<rparr> in
           case OpenFile (w_fs w) (path_Join genDir ManifestName) rdwr_flags of
             Inl e \<Rightarrow> Some (w, res, Inl e)
           | Inr (fs, f) \<Rightarrow>
             (case cut_torn (w\<lparr> w_fs := fs \<rparr>) f info of
                (w, Some e) \<Rightarrow> Some (w, res, Inl e)
              | (w, None) \<Rightarrow>
                (case beforeAppend st w of
                   (w, Some e) \<Rightarrow> Some (w, res, Inl e)
                 | (w, None) \<Rightarrow>
                   (case cold_start isNormal src w \<lparr> j_f = f, j_h = h, j_st = st, j_end = li_ValidEnd info, j_busy = (\<lambda>_. None), j_poisoned = None \<rparr> of
                      (w, _, Inl e) \<Rightarrow> Some (w, res, Inl e)
                    | (w, j, Inr open) \<Rightarrow> Some (w, res\<lparr> or_Aborted := open \<rparr>, Inr j)))))))"

section \<open>Clients\<close>

text \<open>A client of the journal: the operations it calls, one after the other (the mutex serialises concurrent callers), and the
  transaction handles it holds, which it names by their position.\<close>

datatype journal_op = JAdd bytes u64 "Loc list" | JDel bytes u64 | JBegin bytes u64 | JExtent nat "Loc list" | JCommit nat | JAbort nat | JSync

record 'a client =
  cl_w :: "'a world"
  cl_j :: Journal
  cl_txs :: "Tx list"

definition with_tx :: "('a world \<Rightarrow> Journal \<Rightarrow> Tx \<Rightarrow> 'a world \<times> Journal \<times> Tx \<times> error option) \<Rightarrow> 'a client \<Rightarrow> nat \<Rightarrow> 'a client \<times> error option" where
  "with_tx f c i =
    (if i < length (cl_txs c) then
       (case f (cl_w c) (cl_j c) (cl_txs c ! i) of (w, j, t, err) \<Rightarrow> (\<lparr> cl_w = w, cl_j = j, cl_txs = (cl_txs c)[i := t] \<rparr>, err))
     else (c, None))"

definition run_op :: "(bytes \<Rightarrow> bool) \<Rightarrow> 'a seq_source \<Rightarrow> 'a client \<Rightarrow> journal_op \<Rightarrow> 'a client \<times> error option" where
  "run_op isNormal src c op =
    (case op of
       JAdd p v locs \<Rightarrow> (case journal_Add isNormal src (cl_w c) (cl_j c) p v locs of (w, j, err) \<Rightarrow> (c\<lparr> cl_w := w, cl_j := j \<rparr>, err))
     | JDel p v \<Rightarrow> (case journal_Del isNormal src (cl_w c) (cl_j c) p v of (w, j, err) \<Rightarrow> (c\<lparr> cl_w := w, cl_j := j \<rparr>, err))
     | JBegin p v \<Rightarrow>
         (case journal_Begin isNormal src (cl_w c) (cl_j c) p v of
            (w, j, Inl e) \<Rightarrow> (c\<lparr> cl_w := w, cl_j := j \<rparr>, Some e)
          | (w, j, Inr t) \<Rightarrow> (\<lparr> cl_w = w, cl_j = j, cl_txs = cl_txs c @ [t] \<rparr>, None))
     | JExtent i locs \<Rightarrow> with_tx (\<lambda>w j t. tx_Extent isNormal src w j t locs) c i
     | JCommit i \<Rightarrow> with_tx (commitLocked isNormal src) c i
     | JAbort i \<Rightarrow> with_tx (abortLocked isNormal src) c i
     | JSync \<Rightarrow> (case journal_Sync (cl_w c) (cl_j c) of (w, j, err) \<Rightarrow> (c\<lparr> cl_w := w, cl_j := j \<rparr>, err)))"

fun run_ops :: "(bytes \<Rightarrow> bool) \<Rightarrow> 'a seq_source \<Rightarrow> 'a client \<Rightarrow> journal_op list \<Rightarrow> 'a client" where
  "run_ops isNormal src c [] = c"
| "run_ops isNormal src c (op # ops) = run_ops isNormal src (fst (run_op isNormal src c op)) ops"

section \<open>The journal and its file\<close>

text \<open>The handle is open for writing on the file that \<open>name\<close> denotes, durably so.\<close>

definition handle_ok :: "string \<Rightarrow> CrashFS \<Rightarrow> crashFile \<Rightarrow> bool" where
  "handle_ok name fs f \<longleftrightarrow> \<not> cf_closed f \<and> cf_writable f \<and> cf_in f < length (inodes fs) \<and> dirs fs (dirOf (clean name)) \<and>
     cf_name f = clean name \<and> ns fs (clean name) = Some (cf_in f) \<and> durNS fs (clean name) = Some (cf_in f)"

lemma handle_ok_open: "handle_ok name fs f \<Longrightarrow> OpenFile fs name rdonly_flags = Inr (fs, f\<lparr> cf_writable := False \<rparr>)"
  by (cases f) (auto simp: handle_ok_def OpenFile_def rdonly_flags_def Let_def)

lemma file_bytes_flags [simp]: "file_bytes fs (f\<lparr> cf_writable := b \<rparr>) = file_bytes fs f"
  by (simp add: file_bytes_def)

lemma next_fault_keeps: "next_fault w = (flt, w') \<Longrightarrow> w_fs w' = w_fs w \<and> w_draws w' = w_draws w"
  by (auto simp: next_fault_def split: list.splits)

lemma handle_WriteAt:
  assumes "handle_ok name fs f"
  obtains fs' where "WriteAt fs f p (length (file_bytes fs f)) = Inr fs'" "handle_ok name fs' f" "file_bytes fs' f = file_bytes fs f @ p"
  using assms by (auto simp: handle_ok_def WriteAt_def file_bytes_def Let_def put_at_append put_at_exact[of _ _ "[]", simplified])

lemma world_WriteAt_end:
  assumes "handle_ok name (w_fs w) f" "world_WriteAt w f b (length (file_bytes (w_fs w) f)) = (w', e)"
  obtains n where "handle_ok name (w_fs w') f" "w_draws w' = w_draws w" "file_bytes (w_fs w') f = file_bytes (w_fs w) f @ take n b"
    "e = None \<Longrightarrow> length b \<le> n" "n \<le> length b"
proof -
  obtain flt w1 where nf: "next_fault w = (flt, w1)" by (rule prod.exhaust)
  note k = next_fault_keeps[OF nf]
  let ?b = "case flt of None \<Rightarrow> b | Some n \<Rightarrow> take n b"
  from assms(1) obtain fs' where fs': "WriteAt (w_fs w) f ?b (length (file_bytes (w_fs w) f)) = Inr fs'" "handle_ok name fs' f"
    "file_bytes fs' f = file_bytes (w_fs w) f @ ?b" by (rule handle_WriteAt)
  have "w' = w1\<lparr> w_fs := fs' \<rparr>" "e = None \<longleftrightarrow> flt = None"
    using assms(2) nf k fs'(1) by (auto simp: world_WriteAt_def split: if_splits)
  then show thesis using that[of "case flt of None \<Rightarrow> length b | Some n \<Rightarrow> min n (length b)"] fs' k by (auto simp: min_def split: option.splits)
qed

lemma world_Sync_handle:
  assumes "handle_ok name (w_fs w) f" "world_Sync w f = (w', e)"
  shows "handle_ok name (w_fs w') f" "w_draws w' = w_draws w" "file_bytes (w_fs w') f = file_bytes (w_fs w) f"
    "e = None \<Longrightarrow> dur (inodes (w_fs w') ! cf_in f) = file_bytes (w_fs w) f"
proof -
  obtain flt w1 where nf: "next_fault w = (flt, w1)" by (rule prod.exhaust)
  note k = next_fault_keeps[OF nf]
  show "handle_ok name (w_fs w') f" "w_draws w' = w_draws w" "file_bytes (w_fs w') f = file_bytes (w_fs w) f"
    "e = None \<Longrightarrow> dur (inodes (w_fs w') ! cf_in f) = file_bytes (w_fs w) f"
    using assms nf k by (auto simp: world_Sync_def handle_ok_def file_Sync_def file_bytes_def Let_def split: if_splits)
qed

text \<open>
  The journal reflects its file: \<open>rs\<close> are the records appended to the content \<open>data\<close> with state \<open>st0\<close>. The file is exactly
  \<open>data\<close> and the lines of \<open>rs\<close>, and the live state is their replay; only after a failed write, when the journal is
  poisoned, may an unterminated rest of one more line follow, and the live state may be one record ahead.
\<close>

definition reflects :: "(bytes \<Rightarrow> bool) \<Rightarrow> string \<Rightarrow> State \<Rightarrow> bytes \<Rightarrow> Record list \<Rightarrow> 'a world \<Rightarrow> Journal \<Rightarrow> bool" where
  "reflects isNormal name st0 data rs w j \<longleftrightarrow>
     handle_ok name (w_fs w) (j_f j) \<and> (\<forall>t \<in> set (w_draws w). length t = 16) \<and>
     (\<forall>r \<in> set rs. written_ok isNormal r \<and> rec_Op r \<noteq> OpLinkManifest) \<and>
     (\<exists>st torn. replay st0 (map (\<lambda>r. (r, 0)) rs) = (st, None) \<and> file_bytes (w_fs w) (j_f j) = data @ written rs @ torn \<and> LF \<notin> set torn \<and>
        (if j_poisoned j = None then torn = [] \<and> j_st j = st \<and> j_end j = length data + length (written rs)
         else j_st j = st \<or> (\<exists>r. Apply st r 0 = (j_st j, None))))"

text \<open>What an operation does to a journal: it appends some records, if it succeeds and unless an earlier one failed.\<close>

definition extends :: "(bytes \<Rightarrow> bool) \<Rightarrow> string \<Rightarrow> 'a world \<Rightarrow> Journal \<Rightarrow> 'a world \<Rightarrow> Journal \<Rightarrow> bool" where
  "extends isNormal name w j w' j' \<longleftrightarrow>
    (\<forall>st0 data rs. reflects isNormal name st0 data rs w j \<longrightarrow> (\<exists>new. reflects isNormal name st0 data (rs @ new) w' j')) \<and>
    (j_poisoned j \<noteq> None \<longrightarrow> w_fs w' = w_fs w \<and> j_poisoned j' \<noteq> None \<and> j_st j' = j_st j)"

lemma extends_reflects: "extends isNormal name w j w' j' \<Longrightarrow> reflects isNormal name st0 data rs w j \<Longrightarrow> \<exists>new. reflects isNormal name st0 data (rs @ new) w' j'"
  by (simp add: extends_def)

lemma extends_refl [simp]: "extends isNormal name w j w j"
  by (auto simp: extends_def intro: exI[of _ "[]"])

lemma extends_trans: "extends isNormal name w j w1 j1 \<Longrightarrow> extends isNormal name w1 j1 w2 j2 \<Longrightarrow> extends isNormal name w j w2 j2"
  by (simp add: extends_def) (metis append.assoc)

lemma extends_busy [simp]: "extends isNormal name w j w' (j'\<lparr> j_busy := b \<rparr>) = extends isNormal name w j w' j'"
  by (simp add: extends_def reflects_def)

text \<open>The records the operations write.\<close>

definition appendable :: "Record \<Rightarrow> bool" where
  "appendable r \<longleftrightarrow> rec_Op r \<noteq> OpLinkManifest \<and> (\<forall>v. shaped_record (r\<lparr> rec_Seq := v \<rparr>))"

lemma nextSeq_keeps: "nextSeq src w st = (res, w') \<Longrightarrow> w_fs w' = w_fs w \<and> w_draws w' = w_draws w"
  by (auto simp: nextSeq_def split: option.splits prod.splits)

lemma AppendLine_Inr: "AppendLine isNormal [] r = Inr b \<Longrightarrow> validate isNormal r = Inr () \<and> length (line_of r) \<le> MaxLineBytes \<and> b = line_of r @ [LF]"
  by (auto simp: AppendLine_def andThen_def split: sum.splits if_splits)

lemma take_line: "n \<le> length (line_of r) \<Longrightarrow> LF \<notin> set (take n (line_of r @ [LF]))"
  using line_without_LF[of r] by (auto dest: in_set_takeD)

lemma reflects_cong:
  "reflects isNormal name st0 data rs w j \<Longrightarrow> w_fs w' = w_fs w \<Longrightarrow> set (w_draws w') \<subseteq> set (w_draws w) \<Longrightarrow> j_f j' = j_f j \<Longrightarrow>
   j_poisoned j' = j_poisoned j \<Longrightarrow> j_st j' = j_st j \<Longrightarrow> j_end j' = j_end j \<Longrightarrow> reflects isNormal name st0 data rs w' j'"
  by (cases "j_poisoned j") (auto simp: reflects_def)

lemma reflects_write:
  assumes j: "reflects isNormal name st0 data rs w j" "j_poisoned j = None" and k: "w_fs w1 = w_fs w" "w_draws w1 = w_draws w"
    and r: "written_ok isNormal r" "rec_Op r \<noteq> OpLinkManifest" "Apply (j_st j) r 0 = (st, None)"
    and wr: "world_WriteAt w1 (j_f j) (line_of r @ [LF]) (j_end j) = (w', e)"
  shows "\<exists>new. reflects isNormal name st0 data (rs @ new) w'
    (if e = None then j\<lparr> j_st := st, j_end := j_end j + length (line_of r @ [LF]) \<rparr> else j\<lparr> j_st := st, j_poisoned := Some errPoisoned \<rparr>)"
    (is "\<exists>new. reflects _ _ _ _ _ _ ?j'")
proof -
  have c: "handle_ok name (w_fs w) (j_f j)" "\<forall>t \<in> set (w_draws w). length t = 16" "\<forall>r \<in> set rs. written_ok isNormal r \<and> rec_Op r \<noteq> OpLinkManifest"
    "replay st0 (map (\<lambda>r. (r, 0)) rs) = (j_st j, None)" "file_bytes (w_fs w) (j_f j) = data @ written rs" "j_end j = length data + length (written rs)"
    using j by (auto simp: reflects_def)
  have wr': "world_WriteAt w1 (j_f j) (line_of r @ [LF]) (length (file_bytes (w_fs w1) (j_f j))) = (w', e)" using wr c k by simp
  obtain n where n: "handle_ok name (w_fs w') (j_f j)" "w_draws w' = w_draws w1"
    "file_bytes (w_fs w') (j_f j) = data @ written rs @ take n (line_of r @ [LF])" "e = None \<Longrightarrow> length (line_of r @ [LF]) \<le> n" "n \<le> length (line_of r @ [LF])"
    using world_WriteAt_end[OF _ wr', of name] c k by (metis append.assoc)
  note rp = replay_snoc[OF c(4), of "(r, 0)"]
  show ?thesis
  proof (cases "n = length (line_of r @ [LF])")
    case True
    then have "reflects isNormal name st0 data (rs @ [r]) w' ?j'" using n c k r rp by (auto simp: reflects_def)
    then show ?thesis by blast
  next
    case False
    then have "e \<noteq> None" "LF \<notin> set (take n (line_of r @ [LF]))" using n take_line[of n r] by auto
    then have "reflects isNormal name st0 data (rs @ []) w' ?j'" using n c k r by (auto simp: reflects_def)
    then show ?thesis by blast
  qed
qed

lemma appendLocked_extends:
  assumes "appendLocked isNormal src w j r0 = (w', j', e)" "appendable r0"
  shows "extends isNormal name w j w' j'"
proof (cases "j_poisoned j")
  case (Some x)
  then show ?thesis using assms(1) by (simp add: appendLocked_def)
next
  case None
  have "\<exists>new. reflects isNormal name st0 data (rs @ new) w' j'" if j: "reflects isNormal name st0 data rs w j" for st0 data rs
  proof -
    obtain res w1 where ns: "nextSeq src w (j_st j) = (res, w1)" by (rule prod.exhaust)
    note k = nextSeq_keeps[OF ns]
    have same: ?thesis if "w' = w1" "j' = j"
      using reflects_cong[OF j, of w1 j] k that by (auto intro: exI[of _ "[]"])
    show ?thesis
    proof (cases res)
      case (Inl x)
      then show ?thesis using assms(1) None ns same by (simp add: appendLocked_def)
    next
      case (Inr v)
      define r where "r = r0\<lparr> rec_Seq := v \<rparr>"
      obtain st f where ap: "Apply (j_st j) r 0 = (st, f)" by (rule prod.exhaust)
      show ?thesis
      proof (cases "AppendLine isNormal [] r")
        case (Inl x)
        then show ?thesis using assms(1) None ns same Inr by (simp add: appendLocked_def r_def)
      next
        case (Inr b)
        note b = AppendLine_Inr[OF Inr]
        show ?thesis
        proof (cases f)
          case (Some x)
          then have "st = j_st j" using ap Apply_error by blast
          then have "w' = w1" "j' = j" using assms(1) None ns Inr Some ap \<open>res = Inr v\<close> by (simp_all add: appendLocked_def r_def Let_def)
          then show ?thesis by (rule same)
        next
          case f: None
          obtain w2 x where wr: "world_WriteAt w1 (j_f j) b (j_end j) = (w2, x)" by (rule prod.exhaust)
          have ok: "written_ok isNormal r" "rec_Op r \<noteq> OpLinkManifest" using b assms(2) by (auto simp: written_ok_def appendable_def r_def)
          have "w' = w2" "j' = (if x = None then j\<lparr> j_st := st, j_end := j_end j + length b \<rparr> else j\<lparr> j_st := st, j_poisoned := Some errPoisoned \<rparr>)"
            using assms(1) None ns Inr f ap wr \<open>res = Inr v\<close> by (auto simp: appendLocked_def r_def Let_def split: option.splits)
          then show ?thesis using reflects_write[OF j None _ _ ok ap[unfolded f], of w1 w2 x] k wr b by auto
        qed
      qed
    qed
  qed
  then show ?thesis using None by (simp add: extends_def)
qed

section \<open>What the operations write\<close>

abbreviation (input) hashes_ok :: "Loc list \<Rightarrow> bool" where
  "hashes_ok locs \<equiv> \<forall>l \<in> set locs. length (loc_Hash l) = 32"

lemma appendable_records:
  "hashes_ok locs \<Longrightarrow> appendable ((zeroRecord OpAdd)\<lparr> rec_Path := p, rec_FileVer := v, rec_Loc := locs \<rparr>)"
  "appendable ((zeroRecord OpDel)\<lparr> rec_Path := p, rec_FileVer := v \<rparr>)"
  "length t = 16 \<Longrightarrow> appendable ((zeroRecord OpAddBegin)\<lparr> rec_TxID := t, rec_Path := p, rec_FileVer := v \<rparr>)"
  "length t = 16 \<Longrightarrow> hashes_ok locs \<Longrightarrow> appendable ((zeroRecord OpAddExtent)\<lparr> rec_TxID := t, rec_ExtentSequence := i, rec_Loc := locs \<rparr>)"
  "length t = 16 \<Longrightarrow> appendable ((zeroRecord OpAddCommit)\<lparr> rec_TxID := t, rec_ExtentRecordCount := i, rec_ExtentCount := n \<rparr>)"
  "length t = 16 \<Longrightarrow> appendable ((zeroRecord OpAddAbort)\<lparr> rec_TxID := t \<rparr>)"
  by (auto simp: appendable_def shaped_record_def meaningful_def arrays_ok_def zeroRecord_def emptyRecord_def Let_def)

lemma journal_Sync_extends:
  assumes "journal_Sync w j = (w', j', e)"
  shows "extends isNormal name w j w' j'"
proof (cases "j_poisoned j")
  case None
  have "reflects isNormal name st0 data rs w' j'" if j: "reflects isNormal name st0 data rs w j" for st0 data rs
  proof -
    obtain w1 x where s: "world_Sync w (j_f j) = (w1, x)" by (rule prod.exhaust)
    have "w' = w1" "j' = (if x = None then j else j\<lparr> j_poisoned := Some errPoisoned \<rparr>)"
      using assms s None by (auto simp: journal_Sync_def split: option.splits)
    then show ?thesis using world_Sync_handle[OF _ s, of name] j None by (auto simp: reflects_def)
  qed
  then show ?thesis using None by (auto simp: extends_def intro: exI[of _ "[]"])
qed (use assms in \<open>simp add: journal_Sync_def\<close>)

lemma drawTx_Inr: "drawTx st ds = (res, ts) \<Longrightarrow> set ts \<subseteq> set ds \<and> (\<forall>t. res = Inr t \<longrightarrow> t \<in> set ds \<and> \<not> IsTxKnown st t)"
  by (induction ds) (auto split: if_splits)

lemma extends_draws:
  assumes "set ts \<subseteq> set (w_draws w)"
  shows "extends isNormal name w j (w\<lparr> w_draws := ts \<rparr>) j"
proof -
  have "reflects isNormal name st0 data (rs @ []) (w\<lparr> w_draws := ts \<rparr>) j" if "reflects isNormal name st0 data rs w j" for st0 data rs
    using reflects_cong[OF that, of "w\<lparr> w_draws := ts \<rparr>" j] assms by simp
  then show ?thesis unfolding extends_def by (metis world.select_convs(1) world.surjective world.update_convs(3))
qed

text \<open>Random identifiers, and with them the handles, have 16 bytes.\<close>

abbreviation (input) draws_ok :: "'a world \<Rightarrow> bool" where
  "draws_ok w \<equiv> \<forall>t \<in> set (w_draws w). length t = 16"

lemma world_WriteAt_draws: "world_WriteAt w f b off = (w', e) \<Longrightarrow> w_draws w' = w_draws w"
  using next_fault_keeps[of w] by (auto simp: world_WriteAt_def split: prod.splits sum.splits)

lemma appendLocked_draws: "appendLocked isNormal src w j r = (w', j', e) \<Longrightarrow> w_draws w' = w_draws w"
  using nextSeq_keeps[of src w] by (auto simp: appendLocked_def Let_def split: option.splits prod.splits sum.splits dest!: world_WriteAt_draws)

lemma beginLocked_extends:
  assumes "beginLocked isNormal src w j p v = (w', j', res)" "draws_ok w"
  shows "extends isNormal name w j w' j'" "draws_ok w'" "res = Inr t \<Longrightarrow> length (t_id t) = 16"
proof -
  obtain dr ts where d: "drawTx (j_st j) (w_draws w) = (dr, ts)" by (rule prod.exhaust)
  note dd = drawTx_Inr[OF d] and ex = extends_draws[OF conjunct1[OF drawTx_Inr[OF d]], of isNormal name j]
  have "extends isNormal name w j w' j' \<and> draws_ok w' \<and> (res = Inr t \<longrightarrow> length (t_id t) = 16)"
  proof (cases "j_busy j p \<noteq> None \<or> isl dr")
    case True
    have "draws_ok (w\<lparr> w_draws := ts \<rparr>)" using dd assms(2) by auto
    then show ?thesis using True assms d ex by (auto simp: beginLocked_def isl_def split: if_splits)
  next
    case False
    then obtain id where id: "dr = Inr id" "j_busy j p = None" by (cases dr) auto
    then have len: "length id = 16" using dd assms(2) by auto
    obtain w1 j1 e where a: "appendLocked isNormal src (w\<lparr> w_draws := ts \<rparr>) j ((zeroRecord OpAddBegin)\<lparr> rec_TxID := id, rec_Path := p, rec_FileVer := v \<rparr>) = (w1, j1, e)"
      by (metis prod.exhaust)
    note a1 = extends_trans[OF ex appendLocked_extends[OF a appendable_records(3)[OF len]]] and a2 = appendLocked_draws[OF a]
    show ?thesis using assms d id a a1 a2 dd len by (cases e) (auto simp: beginLocked_def)
  qed
  then show "extends isNormal name w j w' j'" "draws_ok w'" "res = Inr t \<Longrightarrow> length (t_id t) = 16" by blast+
qed

lemma extentLocked_extends:
  assumes "extentLocked isNormal src w j t locs = (w', j', t', e)" "length (t_id t) = 16" "hashes_ok locs"
  shows "extends isNormal name w j w' j'" "w_draws w' = w_draws w" "t_id t' = t_id t"
proof -
  obtain w1 j1 x where a: "appendLocked isNormal src w j ((zeroRecord OpAddExtent)\<lparr> rec_TxID := t_id t, rec_ExtentSequence := t_seq t, rec_Loc := locs \<rparr>) = (w1, j1, x)"
    by (metis prod.exhaust)
  note a1 = appendLocked_extends[OF a appendable_records(4)[OF assms(2,3)], of name] and a2 = appendLocked_draws[OF a]
  show "extends isNormal name w j w' j'" "w_draws w' = w_draws w" "t_id t' = t_id t"
    using assms(1) a a1 a2 by (cases x; auto simp: extentLocked_def split: if_splits)+
qed

lemma abortLocked_extends:
  assumes "abortLocked isNormal src w j t = (w', j', t', e)" "length (t_id t) = 16"
  shows "extends isNormal name w j w' j'" "w_draws w' = w_draws w" "t_id t' = t_id t"
proof -
  obtain w1 j1 x where a: "appendLocked isNormal src w j ((zeroRecord OpAddAbort)\<lparr> rec_TxID := t_id t \<rparr>) = (w1, j1, x)" by (metis prod.exhaust)
  note a1 = appendLocked_extends[OF a appendable_records(6)[OF assms(2)], of name] and a2 = appendLocked_draws[OF a]
  show "extends isNormal name w j w' j'" "w_draws w' = w_draws w" "t_id t' = t_id t"
    using assms(1) a a1 a2 by (cases x; auto simp: abortLocked_def split: if_splits)+
qed

lemma commitLocked_extends:
  assumes "commitLocked isNormal src w j t = (w', j', t', e)" "length (t_id t) = 16"
  shows "extends isNormal name w j w' j'" "w_draws w' = w_draws w" "t_id t' = t_id t"
proof -
  obtain w1 j1 x where a: "appendLocked isNormal src w j ((zeroRecord OpAddCommit)\<lparr> rec_TxID := t_id t, rec_ExtentRecordCount := t_seq t,
      rec_ExtentCount := ucast (t_count t) \<rparr>) = (w1, j1, x)" by (metis prod.exhaust)
  note a1 = appendLocked_extends[OF a appendable_records(5)[OF assms(2)], of name] and a2 = appendLocked_draws[OF a]
  obtain w2 j2 t2 y where b: "abortLocked isNormal src w1 j1 t = (w2, j2, t2, y)" by (metis prod.exhaust)
  note b1 = abortLocked_extends[OF b assms(2)]
  show "extends isNormal name w j w' j'" "w_draws w' = w_draws w" "t_id t' = t_id t"
    using assms(1) a a1 a2 b b1 extends_trans[OF a1 b1(1)] by (cases x; auto simp: commitLocked_def split: if_splits)+
qed

lemma extent_loop_extends:
  "extent_loop isNormal src w j t locs = (w', j', t', e) \<Longrightarrow> length (t_id t) = 16 \<Longrightarrow> hashes_ok locs \<Longrightarrow>
   extends isNormal name w j w' j' \<and> w_draws w' = w_draws w \<and> t_id t' = t_id t"
proof (induction isNormal src w j t locs rule: extent_loop.induct)
  case (1 isNormal src w j t rest)
  show ?case
  proof (cases "rest = []")
    case True
    then show ?thesis using "1.prems"(1) by (simp add: extent_loop.simps)
  next
    case False
    define n where "n = extentsPerLine rest"
    obtain w1 j1 t1 x where a: "extentLocked isNormal src w j t (take n rest) = (w1, j1, t1, x)" by (metis prod.exhaust)
    have h: "hashes_ok (take n rest)" "hashes_ok (drop n rest)" using "1.prems"(3) by (auto dest: in_set_takeD in_set_dropD)
    note a1 = extentLocked_extends[OF a "1.prems"(2) h(1)]
    show ?thesis
    proof (cases x)
      case (Some y)
      then show ?thesis using "1.prems"(1) False a a1 by (subst (asm) extent_loop.simps) (simp add: n_def[symmetric])
    next
      case None
      have eq: "extent_loop isNormal src w1 j1 t1 (drop n rest) = (w', j', t', e)"
        using "1.prems"(1) False a None by (subst (asm) extent_loop.simps) (simp add: n_def[symmetric])
      have "extends isNormal name w1 j1 w' j' \<and> w_draws w' = w_draws w1 \<and> t_id t' = t_id t1"
        by (rule "1.IH"[OF False n_def a[symmetric] refl refl None eq]) (use a1 "1.prems"(2) h in auto)
      then show ?thesis using a1 extends_trans by metis
    qed
  qed
qed

lemma journal_Add_extends:
  assumes "journal_Add isNormal src w j p v locs = (w', j', e)" "draws_ok w" "hashes_ok locs"
  shows "extends isNormal name w j w' j' \<and> draws_ok w'"
proof (cases "j_busy j p")
  case (Some x)
  then show ?thesis using assms by (simp add: journal_Add_def)
next
  case busy: None
  let ?r = "(zeroRecord OpAdd)\<lparr> rec_Path := p, rec_FileVer := v, rec_Loc := locs \<rparr>"
  show ?thesis
  proof (cases "AppendLine isNormal [] (?r\<lparr> rec_Seq := -1 \<rparr>)")
    case (Inr b)
    then have "appendLocked isNormal src w j ?r = (w', j', e)" using assms(1) busy by (simp add: journal_Add_def Let_def)
    then show ?thesis using appendLocked_extends appendLocked_draws appendable_records(1)[OF assms(3)] assms(2) by metis
  next
    case (Inl x)
    obtain w1 j1 res where b: "beginLocked isNormal src w j p v = (w1, j1, res)" by (metis prod.exhaust)
    note b1 = beginLocked_extends[OF b assms(2)]
    show ?thesis
    proof (cases res)
      case (Inl y)
      then show ?thesis using assms(1) busy \<open>AppendLine _ _ _ = Inl x\<close> b b1(1,2) by (simp add: journal_Add_def Let_def)
    next
      case (Inr t)
      obtain w2 j2 t2 y where l: "extent_loop isNormal src w1 j1 t locs = (w2, j2, t2, y)" by (metis prod.exhaust)
      note l1 = extent_loop_extends[OF l b1(3)[OF Inr] assms(3), of name]
      have len: "length (t_id t2) = 16" using l1 b1(3)[OF Inr] by simp
      obtain w3 j3 t3 z where c: "commitLocked isNormal src w2 j2 t2 = (w3, j3, t3, z)" by (metis prod.exhaust)
      obtain w4 j4 t4 u where d: "abortLocked isNormal src w2 j2 t2 = (w4, j4, t4, u)" by (metis prod.exhaust)
      note c1 = commitLocked_extends[OF c len] and d1 = abortLocked_extends[OF d len]
      note ex = extends_trans[OF b1(1) conjunct1[OF l1]]
      show ?thesis
        using assms(1) busy \<open>AppendLine _ _ _ = Inl x\<close> b Inr l c d l1 c1 d1 b1(2) extends_trans[OF ex c1(1)] extends_trans[OF ex d1(1)]
        by (cases y) (auto simp: journal_Add_def Let_def)
    qed
  qed
qed

section \<open>Any sequence of operations\<close>

fun op_ok :: "journal_op \<Rightarrow> bool" where
  "op_ok (JAdd p v locs) = hashes_ok locs"
| "op_ok (JExtent i locs) = hashes_ok locs"
| "op_ok _ = True"

definition client_ok :: "'a client \<Rightarrow> bool" where
  "client_ok c \<longleftrightarrow> draws_ok (cl_w c) \<and> (\<forall>t \<in> set (cl_txs c). length (t_id t) = 16)"

lemma with_tx_extends:
  assumes f: "\<And>w j t w' j' t' e. f w j t = (w', j', t', e) \<Longrightarrow> length (t_id t) = 16 \<Longrightarrow>
      extends isNormal name w j w' j' \<and> w_draws w' = w_draws w \<and> t_id t' = t_id t"
    and c: "with_tx f c i = (c', e)" "client_ok c"
  shows "extends isNormal name (cl_w c) (cl_j c) (cl_w c') (cl_j c') \<and> client_ok c'"
proof (cases "i < length (cl_txs c)")
  case True
  obtain w j t x where a: "f (cl_w c) (cl_j c) (cl_txs c ! i) = (w, j, t, x)" by (metis prod.exhaust)
  have "length (t_id (cl_txs c ! i)) = 16" using c(2) True by (simp add: client_ok_def)
  note a1 = f[OF a this]
  have "c' = \<lparr> cl_w = w, cl_j = j, cl_txs = (cl_txs c)[i := t] \<rparr>" using c(1) True a by (simp add: with_tx_def)
  then show ?thesis using a1 c(2) True \<open>length _ = 16\<close> by (auto simp: client_ok_def dest!: subsetD[OF set_update_subset_insert])
qed (use c in \<open>simp add: with_tx_def\<close>)

lemma run_op_extends:
  assumes "run_op isNormal src c op = (c', e)" "client_ok c" "op_ok op"
  shows "extends isNormal name (cl_w c) (cl_j c) (cl_w c') (cl_j c') \<and> client_ok c'"
proof (cases op)
  case (JAdd p v locs)
  obtain w j x where a: "journal_Add isNormal src (cl_w c) (cl_j c) p v locs = (w, j, x)" by (metis prod.exhaust)
  show ?thesis using assms JAdd a journal_Add_extends[OF a, of name] by (auto simp: run_op_def client_ok_def)
next
  case (JDel p v)
  obtain w j x where a: "appendLocked isNormal src (cl_w c) (cl_j c) ((zeroRecord OpDel)\<lparr> rec_Path := p, rec_FileVer := v \<rparr>) = (w, j, x)" by (metis prod.exhaust)
  show ?thesis using assms JDel a appendLocked_extends[OF a appendable_records(2)] appendLocked_draws[OF a]
    by (auto simp: run_op_def client_ok_def journal_Del_def split: if_splits)
next
  case (JBegin p v)
  obtain w j x where a: "beginLocked isNormal src (cl_w c) (cl_j c) p v = (w, j, x)" by (metis prod.exhaust)
  have d: "draws_ok (cl_w c)" using assms(2) by (simp add: client_ok_def)
  show ?thesis using assms JBegin a beginLocked_extends[OF a d] by (cases x) (auto simp: run_op_def client_ok_def journal_Begin_def)
next
  case (JExtent i locs)
  then have h: "hashes_ok locs" using assms(3) by simp
  have "with_tx (\<lambda>w j t. tx_Extent isNormal src w j t locs) c i = (c', e)" using assms(1) JExtent by (simp add: run_op_def)
  from with_tx_extends[OF _ this assms(2)] show ?thesis using extent_loop_extends[OF _ _ h] unfolding tx_Extent_def by blast
next
  case (JCommit i)
  show ?thesis
    by (rule with_tx_extends[of "commitLocked isNormal src" isNormal name c i]) (use assms JCommit commitLocked_extends in \<open>auto simp: run_op_def\<close>)
next
  case (JAbort i)
  show ?thesis
    by (rule with_tx_extends[of "abortLocked isNormal src" isNormal name c i]) (use assms JAbort abortLocked_extends in \<open>auto simp: run_op_def\<close>)
next
  case JSync
  obtain w j x where a: "journal_Sync (cl_w c) (cl_j c) = (w, j, x)" by (metis prod.exhaust)
  have "w_draws w = w_draws (cl_w c)"
    using a next_fault_keeps[of "cl_w c"] by (auto simp: journal_Sync_def world_Sync_def split: option.splits prod.splits if_splits sum.splits)
  then show ?thesis using assms JSync a journal_Sync_extends[OF a] by (auto simp: run_op_def client_ok_def)
qed

lemma run_ops_extends:
  "client_ok c \<Longrightarrow> list_all op_ok ops \<Longrightarrow>
   extends isNormal name (cl_w c) (cl_j c) (cl_w (run_ops isNormal src c ops)) (cl_j (run_ops isNormal src c ops)) \<and> client_ok (run_ops isNormal src c ops)"
proof (induction ops arbitrary: c)
  case (Cons op ops)
  obtain c' e where a: "run_op isNormal src c op = (c', e)" by (rule prod.exhaust)
  have "extends isNormal name (cl_w c) (cl_j c) (cl_w c') (cl_j c') \<and> client_ok c'" using run_op_extends[OF a] Cons.prems by simp
  then show ?case using Cons.IH[of c'] Cons.prems a by (auto intro: extends_trans)
qed simp

text \<open>A journal that reflects its file is read back from it.\<close>

lemma replay_append: "replay s xs = (s1, None) \<Longrightarrow> replay s (xs @ ys) = replay s1 ys"
  by (induction s xs rule: replay.induct) (auto split: prod.splits option.splits)

lemma reflects_reload:
  assumes j: "reflects isNormal (path_Join genDir ManifestName) st0 (written rs0) rs w j"
    and rs0: "replay (start_state h opt) (map (\<lambda>r. (r, 0)) rs0) = (st0, None)" "\<forall>r \<in> set rs0. written_ok isNormal r \<and> rec_Op r \<noteq> OpLinkManifest"
    and "\<not> Encrypted h" "lo_Limit opt = 0" "\<forall>off n. \<not> fault (cf_name (j_f j)) off n"
  shows "\<exists>info st. Load H isNormal fault (w_fs w) genDir h opt = Some (info, Inr st) \<and> li_ValidEnd info = length (written (rs0 @ rs)) \<and>
    (if j_poisoned j = None then st = j_st j \<and> li_Torn info = 0 \<and> li_ValidEnd info = j_end j
     else j_st j = st \<or> (\<exists>r. Apply st r 0 = (j_st j, None)))"
proof -
  let ?n = "path_Join genDir ManifestName"
  obtain st torn where st: "replay st0 (map (\<lambda>r. (r, 0)) rs) = (st, None)" "file_bytes (w_fs w) (j_f j) = written rs0 @ written rs @ torn" "LF \<notin> set torn"
    "if j_poisoned j = None then torn = [] \<and> j_st j = st \<and> j_end j = length (written rs0) + length (written rs)
     else j_st j = st \<or> (\<exists>r. Apply st r 0 = (j_st j, None))" and ok: "handle_ok ?n (w_fs w) (j_f j)"
    "\<forall>r \<in> set rs. written_ok isNormal r \<and> rec_Op r \<noteq> OpLinkManifest"
    using j unfolding reflects_def by blast
  have all: "\<forall>r \<in> set (rs0 @ rs). written_ok isNormal r \<and> rec_Op r \<noteq> OpLinkManifest" using ok(2) rs0(2) by auto
  have "replay (start_state h opt) (map (\<lambda>r. (r, 0)) (rs0 @ rs)) = (st, None)" using rs0(1) st(1) by (simp add: replay_append)
  from LoadWith_written[where fault = fault and H = H and torn = torn and isNormal = isNormal, OF handle_ok_open[OF ok(1)] _ _ assms(4,5) _ all this] st(2,3) assms(6)
  have "LoadWith H isNormal fault (w_fs w) genDir h opt = Some (\<lparr> li_ValidEnd = length (written (rs0 @ rs)), li_Torn = length torn,
    li_TornReason = (if torn = [] then [] else ''unterminated''), li_Linked = 0 \<rparr>, Inr (st, map (\<lambda>r. (r, 0)) (rs0 @ rs)))" by auto
  then show ?thesis using st(4) by (auto simp: Load_def)
qed

section \<open>Cold start\<close>

text \<open>The open transactions are filed under their identifiers.\<close>

definition open_ok :: "State \<Rightarrow> bool" where
  "open_ok s \<longleftrightarrow> (\<forall>k t. (k, t) \<in> set (st_open s) \<longrightarrow> tx_id t = k \<and> length k = 16)"

lemma open_ok_update:
  assumes "open_ok s" "length k = 16" "tx_id t = k" "st_open s' = AList.update k t (st_open s)"
  shows "open_ok s'"
  using assms set_update_sub[of k t "st_open s"] by (auto simp: open_ok_def)

lemma open_ok_delete: "open_ok s \<Longrightarrow> st_open s' = AList.delete k (st_open s) \<Longrightarrow> open_ok s'"
  by (auto simp: open_ok_def AList.delete_eq)

lemma openTx_id: "openTx s r f = Inr t \<Longrightarrow> open_ok s \<Longrightarrow> tx_id t = rec_TxID r"
  by (auto simp: openTx_def open_ok_def split: option.splits if_splits dest: map_of_SomeD)

lemma open_ok_setLive [simp]: "open_ok (setLive s p v ls n q) = open_ok s" "st_open (addRefs s p v ls) = st_open s"
  by (auto simp: open_ok_def setLive_def addRefs_def split: option.splits)

lemma open_ok_apply_op:
  assumes "apply_op s r f = (s', None)" "open_ok s" "length (rec_TxID r) = 16"
  shows "open_ok s'"
proof (cases "rec_Op r")
  case OpAddBegin
  then have "\<exists>t. tx_id t = rec_TxID r \<and> st_open s' = AList.update (rec_TxID r) t (st_open s)"
    using assms(1) by (auto simp: apply_op_def apply_AddBegin_def split: if_splits sum.splits) (metis tx.select_convs(1))
  then show ?thesis using open_ok_update[OF assms(2,3)] by blast
next
  case OpAddExtent
  then obtain t where t: "openTx s r f = Inr t" using assms(1) by (auto simp: apply_op_def apply_AddExtent_def split: sum.splits)
  have "\<exists>t. tx_id t = rec_TxID r \<and> st_open s' = AList.update (rec_TxID r) t (st_open s)"
    using assms(1) OpAddExtent t openTx_id[OF t assms(2)]
    by (auto simp: apply_op_def apply_AddExtent_def Let_def split: if_splits sum.splits
        intro: exI[of _ "t\<lparr> tx_dupSeq := True \<rparr>"] exI[of _ "t\<lparr> tx_extents := AList.update (rec_ExtentSequence r) (rec_Loc r) (tx_extents t),
          tx_nLocs := tx_nLocs t + word_of_nat (length (rec_Loc r)) \<rparr>"])
  then show ?thesis using open_ok_update[OF assms(2,3)] by blast
next
  case OpAddCommit
  then obtain t where t: "openTx s r f = Inr t" using assms(1) by (auto simp: apply_op_def apply_AddCommit_def split: sum.splits)
  then have "st_open s' = AList.delete (tx_id t) (st_open s)"
    using assms(1) OpAddCommit by (auto simp: apply_op_def apply_AddCommit_def closeTx_def Let_def setLive_def split: if_splits sum.splits option.splits)
  then show ?thesis using open_ok_delete[OF assms(2)] by blast
next
  case OpAddAbort
  then have "\<exists>k. st_open s' = AList.delete k (st_open s)"
    using assms(1) by (auto simp: apply_op_def apply_AddAbort_def closeTx_def Let_def split: sum.splits)
  then show ?thesis using open_ok_delete[OF assms(2)] by blast
qed (use assms in \<open>auto simp: apply_op_def apply_defs Let_def open_ok_def setLive_def split: if_splits sum.splits option.splits\<close>)

lemma open_ok_Apply: "Apply s r f = (s', None) \<Longrightarrow> open_ok s \<Longrightarrow> length (rec_TxID r) = 16 \<Longrightarrow> open_ok s'"
  by (erule Apply_ok) (auto dest!: open_ok_apply_op simp: open_ok_def)

lemma open_ok_replay: "replay s rs = (s', None) \<Longrightarrow> open_ok s \<Longrightarrow> \<forall>x \<in> set rs. length (rec_TxID (fst x)) = 16 \<Longrightarrow> open_ok s'"
  by (induction s rs rule: replay.induct) (auto split: prod.splits option.splits dest: open_ok_Apply)

lemma appendLocked_ok:
  assumes "appendLocked isNormal src w j r = (w', j', None)"
  obtains v where "Apply (j_st j) (r\<lparr> rec_Seq := v \<rparr>) 0 = (j_st j', None)" "j_poisoned j' = None" "j_busy j' = j_busy j"
  using assms by (auto simp: appendLocked_def Let_def split: option.splits prod.splits sum.splits)

lemma abort_deletes:
  assumes "Apply s r 0 = (s', None)" "rec_Op r = OpAddAbort" "open_ok s"
  shows "st_open s' = AList.delete (rec_TxID r) (st_open s) \<and> st_live s' = st_live s"
  using assms(1)
proof (rule Apply_ok)
  fix s1 assume s1: "apply_op s r 0 = (s1, None)"
    and s': "s' = (if rec_Op r \<in> {OpAdd, OpDel, OpAddBegin} then s1\<lparr> st_maxFileVer := max (st_maxFileVer s1) (rec_FileVer r) \<rparr> else s1)
      \<lparr> st_lastSeq := rec_Seq r, st_records := st_records s1 + 1 \<rparr>"
  obtain t where t: "openTx s r 0 = Inr t" using s1 assms(2) by (auto simp: apply_op_def apply_AddAbort_def split: sum.splits)
  show ?thesis using s1 s' t openTx_id[OF t assms(3)] assms(2) by (auto simp: apply_op_def apply_AddAbort_def closeTx_def Let_def)
qed

lemma abort_open_extends:
  "abort_open isNormal src w j ts = (w', j', e) \<Longrightarrow> \<forall>t \<in> set ts. length t = 16 \<Longrightarrow> extends isNormal name w j w' j'"
proof (induction ts arbitrary: w j)
  case (Cons t ts)
  obtain w1 j1 x where a: "appendLocked isNormal src w j ((zeroRecord OpAddAbort)\<lparr> rec_TxID := t \<rparr>) = (w1, j1, x)" by (metis prod.exhaust)
  note a1 = appendLocked_extends[OF a appendable_records(6), of name]
  show ?case using Cons.prems Cons.IH[of w1 j1] a a1 by (cases x) (auto intro: extends_trans)
qed simp

lemma abort_open_closes:
  "abort_open isNormal src w j ts = (w', j', None) \<Longrightarrow> open_ok (j_st j) \<Longrightarrow> j_poisoned j = None \<Longrightarrow> \<forall>t \<in> set ts. length t = 16 \<Longrightarrow>
   st_open (j_st j') = filter (\<lambda>(k, t). k \<notin> set ts) (st_open (j_st j)) \<and> j_poisoned j' = None \<and> j_busy j' = j_busy j \<and>
     st_live (j_st j') = st_live (j_st j)"
proof (induction ts arbitrary: w j)
  case (Cons t ts)
  let ?r = "(zeroRecord OpAddAbort)\<lparr> rec_TxID := t \<rparr>"
  obtain w1 j1 x where a: "appendLocked isNormal src w j ?r = (w1, j1, x)" by (metis prod.exhaust)
  have x: "x = None" "abort_open isNormal src w1 j1 ts = (w', j', None)" using Cons.prems(1) a by (auto split: option.splits)
  obtain v where v: "Apply (j_st j) (?r\<lparr> rec_Seq := v \<rparr>) 0 = (j_st j1, None)" "j_poisoned j1 = None" "j_busy j1 = j_busy j"
    using appendLocked_ok a x(1) by metis
  have "open_ok (j_st j1)" using open_ok_Apply[OF v(1) Cons.prems(2)] Cons.prems(4) by (simp add: zeroRecord_def emptyRecord_def)
  moreover have "st_open (j_st j1) = AList.delete t (st_open (j_st j))" "st_live (j_st j1) = st_live (j_st j)"
    using abort_deletes[OF v(1) _ Cons.prems(2)] by (simp_all add: zeroRecord_def emptyRecord_def)
  ultimately show ?case using Cons.IH[OF x(2) _ v(2)] Cons.prems(4) v(3) by (auto simp: AList.delete_eq case_prod_beta intro!: filter_cong)
qed (simp add: filter_True)

text \<open>A journal on disk: \<open>name\<close> durably denotes a file with the lines of \<open>rs\<close> and an unterminated rest.\<close>

definition on_disk :: "(bytes \<Rightarrow> bool) \<Rightarrow> string \<Rightarrow> CrashFS \<Rightarrow> Record list \<Rightarrow> bytes \<Rightarrow> bool" where
  "on_disk isNormal name fs rs torn \<longleftrightarrow>
    (\<exists>i. ns fs (clean name) = Some i \<and> durNS fs (clean name) = Some i \<and> i < length (inodes fs) \<and> cur (inodes fs ! i) = written rs @ torn) \<and>
    clean name \<noteq> [] \<and> dirs fs (dirOf (clean name)) \<and> LF \<notin> set torn \<and> (\<forall>r \<in> set rs. written_ok isNormal r \<and> rec_Op r \<noteq> OpLinkManifest)"

lemma on_disk_opened:
  assumes "on_disk isNormal name fs rs torn"
  obtains f where "OpenFile fs name rdwr_flags = Inr (fs, f)" "handle_ok name fs f" "file_bytes fs f = written rs @ torn" "cf_name f = clean name"
proof -
  obtain i where i: "ns fs (clean name) = Some i" "durNS fs (clean name) = Some i" "i < length (inodes fs)" "cur (inodes fs ! i) = written rs @ torn"
    using assms by (auto simp: on_disk_def)
  show thesis
    by (rule that[of "\<lparr> cf_in = i, cf_name = clean name, cf_writable = True, cf_closed = False \<rparr>"])
      (use i assms in \<open>auto simp: on_disk_def OpenFile_def rdwr_flags_def handle_ok_def file_bytes_def Let_def\<close>)
qed

lemma on_disk_loads:
  assumes d: "on_disk isNormal (path_Join genDir ManifestName) fs rs torn"
    and h: "\<not> Encrypted h" "lo_Limit opt = 0" "\<forall>off n. \<not> fault (clean (path_Join genDir ManifestName)) off n"
    and r: "replay (start_state h opt) (map (\<lambda>r. (r, 0)) rs) = (st, None)"
  shows "\<exists>info. Load H isNormal fault fs genDir h opt = Some (info, Inr st) \<and> li_ValidEnd info = length (written rs) \<and> li_Torn info = length torn"
proof -
  from d obtain f where f: "OpenFile fs (path_Join genDir ManifestName) rdwr_flags = Inr (fs, f)" "handle_ok (path_Join genDir ManifestName) fs f"
    "file_bytes fs f = written rs @ torn" "cf_name f = clean (path_Join genDir ManifestName)" by (rule on_disk_opened)
  have "LoadWith H isNormal fault fs genDir h opt = Some (\<lparr> li_ValidEnd = length (written rs), li_Torn = length torn,
      li_TornReason = (if torn = [] then [] else ''unterminated''), li_Linked = 0 \<rparr>, Inr (st, map (\<lambda>r. (r, 0)) rs))"
    by (rule LoadWith_written[OF handle_ok_open[OF f(2)]]) (use d h r f in \<open>auto simp: on_disk_def\<close>)
  then show ?thesis by (simp add: Load_def)
qed

text \<open>What \<open>OpenJournal\<close> finds: a journal on disk, or a generation that has none yet.\<close>

definition journal_start :: "(bytes \<Rightarrow> bool) \<Rightarrow> string \<Rightarrow> CrashFS \<Rightarrow> Record list \<Rightarrow> bytes \<Rightarrow> bool" where
  "journal_start isNormal genDir fs rs torn \<longleftrightarrow>
    (let name = path_Join genDir ManifestName in
     on_disk isNormal name fs rs torn \<or>
     rs = [] \<and> torn = [] \<and> ns fs (clean name) = None \<and> \<not> dirs fs (clean name) \<and> clean name \<noteq> [] \<and> dirs fs (dirOf (clean name)) \<and>
     dirOf (clean name) = (let d = clean genDir in if d = '''' then ''.'' else d))"

lemma journal_start_records: "journal_start isNormal genDir fs rs torn \<Longrightarrow> \<forall>r \<in> set rs. written_ok isNormal r \<and> rec_Op r \<noteq> OpLinkManifest"
  by (auto simp: journal_start_def on_disk_def Let_def)

lemma create_journal_present:
  assumes "on_disk isNormal (path_Join genDir ManifestName) (w_fs w) rs torn"
  shows "create_journal w genDir = (w, None)"
proof -
  let ?name = "path_Join genDir ManifestName"
  have "\<not> isl (fs_Stat (w_fs w) ?name)" using assms by (auto simp: on_disk_def fs_Stat_def Let_def)
  then show ?thesis by (cases "fs_Stat (w_fs w) ?name") (auto simp: create_journal_def Let_def)
qed

text \<open>A created journal is empty, and its name is durable.\<close>

lemma create_journal_absent:
  assumes a: "\<not> on_disk isNormal (path_Join genDir ManifestName) (w_fs w) rs torn" "journal_start isNormal genDir (w_fs w) rs torn"
    and c: "create_journal w genDir = (w', e)"
  shows "e = None \<Longrightarrow> on_disk isNormal (path_Join genDir ManifestName) (w_fs w') rs torn" "w_draws w' = w_draws w"
    "w_faults w = [] \<Longrightarrow> e = None \<and> w_faults w' = []"
proof -
  let ?name = "path_Join genDir ManifestName" and ?d = "let d = clean genDir in if d = '''' then ''.'' else d"
  let ?fs = "w_fs w" and ?i = "length (inodes (w_fs w))"
  let ?fs1 = "?fs\<lparr> inodes := inodes ?fs @ [\<lparr> cur = [], dur = [] \<rparr>], ns := (ns ?fs)(clean ?name := Some ?i) \<rparr>"
  let ?f = "\<lparr> cf_in = ?i, cf_name = clean ?name, cf_writable = True, cf_closed = False \<rparr>"
  have n: "rs = []" "torn = []" "ns ?fs (clean ?name) = None" "\<not> dirs ?fs (clean ?name)" "clean ?name \<noteq> []" "dirs ?fs (dirOf (clean ?name))" "dirOf (clean ?name) = ?d"
    using a by (auto simp: journal_start_def Let_def)
  have st: "fs_Stat ?fs ?name = errf ErrNotExist ''vfs'' ''stat''" using n by (simp add: fs_Stat_def Let_def)
  have op: "OpenFile ?fs ?name create_flags = Inr (?fs1, ?f)" using n by (simp add: OpenFile_def create_flags_def Let_def)
  obtain w1 e1 where s: "world_Sync (w\<lparr> w_fs := ?fs1 \<rparr>) ?f = (w1, e1)" by (rule prod.exhaust)
  obtain flt w0 where nf: "next_fault (w\<lparr> w_fs := ?fs1 \<rparr>) = (flt, w0)" by (rule prod.exhaust)
  note k = next_fault_keeps[OF nf]
  have s1: "w_draws w1 = w_draws w" "w_faults w = [] \<Longrightarrow> e1 = None \<and> w_faults w1 = []"
    "ns (w_fs w1) = ns ?fs1" "dirs (w_fs w1) = dirs ?fs" "length (inodes (w_fs w1)) = Suc ?i" "cur (inodes (w_fs w1) ! ?i) = []"
    using s nf k by (auto simp: world_Sync_def file_Sync_def next_fault_def Let_def nth_append split: if_splits list.splits)
  have cj: "create_journal w genDir = (if e1 = None then world_SyncDir w1 genDir else (w1, e1))"
    using st op s by (auto simp: create_journal_def Let_def errf_def split: option.splits)
  obtain flt2 w2 where nf2: "next_fault w1 = (flt2, w2)" by (rule prod.exhaust)
  note k2 = next_fault_keeps[OF nf2]
  have sd: "SyncDir (w_fs w2) genDir = Inr ((w_fs w1)\<lparr> SyncCount := SyncCount (w_fs w1) + 1,
      durNS := (\<lambda>x. if dirOf x = ?d then ns (w_fs w1) x else durNS (w_fs w1) x) \<rparr>)"
    using k2 s1(4) n(6,7) by (simp add: SyncDir_def Let_def)
  let ?fs2 = "(w_fs w1)\<lparr> SyncCount := SyncCount (w_fs w1) + 1, durNS := (\<lambda>x. if dirOf x = ?d then ns (w_fs w1) x else durNS (w_fs w1) x) \<rparr>"
  have sd2: "world_SyncDir w1 genDir = (if flt2 \<noteq> None then (w2, Some io_error) else (w2\<lparr> w_fs := ?fs2 \<rparr>, None))"
    using nf2 sd by (simp add: world_SyncDir_def)
  have f2: "flt2 = None \<and> w_faults w2 = []" if "w_faults w1 = []" using nf2 that by (simp add: next_fault_def)
  show "w_draws w' = w_draws w" using c cj sd2 k2 s1(1) by (cases "e1 = None"; cases "flt2 = None") auto
  show "e = None \<and> w_faults w' = []" if "w_faults w = []" using c cj sd2 f2 s1(2)[OF that] by auto
  show "on_disk isNormal ?name (w_fs w') rs torn" if "e = None"
  proof -
    have w': "w_fs w' = ?fs2" using c cj that sd2 by (cases "e1 = None"; cases "flt2 = None") auto
    show ?thesis unfolding on_disk_def w' using s1 n by (simp add: written_def)
  qed
qed

lemma create_journal_ok:
  assumes "journal_start isNormal genDir (w_fs w) rs torn" "create_journal w genDir = (w', None)"
  shows "on_disk isNormal (path_Join genDir ManifestName) (w_fs w') rs torn" "w_draws w' = w_draws w"
proof -
  have "on_disk isNormal (path_Join genDir ManifestName) (w_fs w') rs torn \<and> w_draws w' = w_draws w"
  proof (cases "on_disk isNormal (path_Join genDir ManifestName) (w_fs w) rs torn")
    case True
    then show ?thesis using create_journal_present[OF True] assms(2) by simp
  next
    case False
    then show ?thesis using create_journal_absent(1,2)[OF False assms] by simp
  qed
  then show "on_disk isNormal (path_Join genDir ManifestName) (w_fs w') rs torn" "w_draws w' = w_draws w" by blast+
qed

lemma cut_torn_ok:
  assumes "cut_torn w f info = (w', None)" "handle_ok name (w_fs w) f" "file_bytes (w_fs w) f = x @ torn" "li_ValidEnd info = length x" "li_Torn info = length torn"
  shows "handle_ok name (w_fs w') f" "file_bytes (w_fs w') f = x" "w_draws w' = w_draws w"
proof -
  have "handle_ok name (w_fs w') f \<and> file_bytes (w_fs w') f = x \<and> w_draws w' = w_draws w"
  proof (cases "torn = []")
    case True
    then show ?thesis using assms by (simp add: cut_torn_def)
  next
    case False
    obtain w1 e where t: "world_Truncate w f (length x) = (w1, e)" by (rule prod.exhaust)
    have e: "e = None" "world_Sync w1 f = (w', None)" using assms(1,4,5) False t by (auto simp: cut_torn_def split: option.splits if_splits)
    obtain flt w0 where nf: "next_fault w = (flt, w0)" by (rule prod.exhaust)
    note k = next_fault_keeps[OF nf]
    have "handle_ok name (w_fs w1) f" "file_bytes (w_fs w1) f = x" "w_draws w1 = w_draws w"
      using t e(1) nf k assms(2,3) by (auto simp: world_Truncate_def Truncate_def handle_ok_def file_bytes_def Let_def split: if_splits)
    then show ?thesis using world_Sync_handle[OF _ e(2), of name] by simp
  qed
  then show "handle_ok name (w_fs w') f" "file_bytes (w_fs w') f = x" "w_draws w' = w_draws w" by blast+
qed

lemma cold_start_ok:
  assumes c: "cold_start isNormal src w j = (w', j', Inr open)" and o: "open_ok (j_st j)" and p: "j_poisoned j = None"
  shows "extends isNormal name w j w' j'" "j_poisoned j' = None" "OpenTransactions (j_st j') = []" "j_busy j' = j_busy j" "open = OpenTransactions (j_st j)" "st_live (j_st j') = st_live (j_st j)"
proof -
  have ids: "set (OpenTransactions (j_st j)) = fst ` set (st_open (j_st j))" "\<forall>t \<in> set (OpenTransactions (j_st j)). length t = 16"
    using o by (force simp: OpenTransactions_def open_ok_def image_iff)+
  have "extends isNormal name w j w' j' \<and> j_poisoned j' = None \<and> OpenTransactions (j_st j') = [] \<and> j_busy j' = j_busy j \<and> open = OpenTransactions (j_st j) \<and>
    st_live (j_st j') = st_live (j_st j)"
  proof (cases "OpenTransactions (j_st j) = []")
    case True
    then show ?thesis using c p by (simp add: cold_start_def)
  next
    case False
    obtain w1 j1 e where a: "abort_open isNormal src w j (OpenTransactions (j_st j)) = (w1, j1, e)" by (metis prod.exhaust)
    obtain w2 j2 f where s: "journal_Sync w1 j1 = (w2, j2, f)" by (metis prod.exhaust)
    have e: "e = None" "f = None" "w' = w2" "j' = j2" "open = OpenTransactions (j_st j)"
      using c False a s by (auto simp: cold_start_def Let_def split: option.splits)
    note cl = abort_open_closes[OF a[unfolded e(1)] o p ids(2)]
    have "st_open (j_st j1) = []" using cl ids(1) by (force simp: filter_empty_conv)
    moreover have "j2 = j1" using s e(2) cl by (auto simp: journal_Sync_def split: prod.splits option.splits)
    ultimately show ?thesis
      using extends_trans[OF abort_open_extends[OF a ids(2)] journal_Sync_extends[OF s]] e cl by (simp add: OpenTransactions_def)
  qed
  then show "extends isNormal name w j w' j'" "j_poisoned j' = None" "OpenTransactions (j_st j') = []" "j_busy j' = j_busy j" "open = OpenTransactions (j_st j)" "st_live (j_st j') = st_live (j_st j)"
    by blast+
qed

lemma start_state_open [simp]: "open_ok (start_state h opt)"
  by (simp add: open_ok_def start_state_def TrackRefs_def NewState_def)

text \<open>The callback before the first append checks allocators and leaves the file system and the random source alone.\<close>

definition keeps_files :: "(State \<Rightarrow> 'a world \<Rightarrow> 'a world \<times> error option) \<Rightarrow> bool" where
  "keeps_files before \<longleftrightarrow> (\<forall>st w. w_fs (fst (before st w)) = w_fs w \<and> w_draws (fst (before st w)) = w_draws w)"

lemma OpenJournal_reflects:
  assumes o: "OpenJournal H isNormal fault src before w0 genDir h opt = Some (w', res, Inr j)"
    and d0: "journal_start isNormal genDir (w_fs w0) rs torn" and dr0: "draws_ok w0" and b: "keeps_files before"
    and h: "lo_Limit opt = 0" "\<forall>off n. \<not> fault (clean (path_Join genDir ManifestName)) off n"
    and r: "replay (start_state h (opt\<lparr> lo_TrackRefs := True \<rparr>)) (map (\<lambda>r. (r, 0)) rs) = (st, None)"
  shows "\<exists>new. reflects isNormal (path_Join genDir ManifestName) st (written rs) new w' j" "j_poisoned j = None" "OpenTransactions (j_st j) = []"
    "or_Aborted res = OpenTransactions st" "draws_ok w'" "st_live (j_st j) = st_live st"
proof -
  let ?name = "path_Join genDir ManifestName" and ?opt = "opt\<lparr> lo_TrackRefs := True \<rparr>"
  have enc: "\<not> Encrypted h" using o by (auto simp: OpenJournal_def errf_def split: if_splits)
  obtain w where cj: "create_journal w0 genDir = (w, None)"
    using o enc by (auto simp: OpenJournal_def Let_def split: prod.splits option.splits)
  note d = create_journal_ok(1)[OF d0 cj]
  have dr: "draws_ok w" using create_journal_ok(2)[OF d0 cj] dr0 by simp
  obtain info where ld: "Load H isNormal fault (w_fs w) genDir h ?opt = Some (info, Inr st)" "li_ValidEnd info = length (written rs)" "li_Torn info = length torn"
    using on_disk_loads[where fault = fault and H = H, OF d enc _ h(2) r] h(1) by auto
  from d obtain f where f: "OpenFile (w_fs w) ?name rdwr_flags = Inr (w_fs w, f)" "handle_ok ?name (w_fs w) f" "file_bytes (w_fs w) f = written rs @ torn" by (rule on_disk_opened)
  let ?j = "\<lparr> j_f = f, j_h = h, j_st = st, j_end = li_ValidEnd info, j_busy = (\<lambda>_. None), j_poisoned = None \<rparr>"
  obtain w1 c where ct: "cut_torn w f info = (w1, c)" by (rule prod.exhaust)
  obtain w2 c2 where bf: "before st w1 = (w2, c2)" by (rule prod.exhaust)
  obtain w3 j3 c3 where cs: "cold_start isNormal src w2 ?j = (w3, j3, c3)" by (metis prod.exhaust)
  have eqs: "c = None" "c2 = None" "\<exists>open. c3 = Inr open \<and> or_Aborted res = open" "w' = w3" "j = j3"
    using o enc cj ld f(1) ct bf cs by (auto simp: OpenJournal_def Let_def split: option.splits sum.splits)
  then obtain ids where op: "c3 = Inr ids" "or_Aborted res = ids" by blast
  note cut = cut_torn_ok[OF ct[unfolded eqs(1)] f(2,3) ld(2,3)]
  have keep: "w_fs w2 = w_fs w1" "w_draws w2 = w_draws w1" using b bf by (metis keeps_files_def fst_conv)+
  have "length (rec_TxID r) = 16" if "r \<in> set rs" for r using d that by (auto simp: on_disk_def written_ok_def shaped_record_def arrays_ok_def)
  then have "open_ok st" using open_ok_replay[OF r] by auto
  then have cold: "extends isNormal ?name w2 ?j w' j" "j_poisoned j = None" "OpenTransactions (j_st j) = []" "ids = OpenTransactions st" "st_live (j_st j) = st_live st"
    using cold_start_ok[OF cs[unfolded op(1)]] eqs by auto
  have "reflects isNormal ?name st (written rs) [] w2 ?j" using cut keep dr ld by (auto simp: reflects_def)
  then obtain new where new: "reflects isNormal ?name st (written rs) new w' j" using cold(1) unfolding extends_def by (metis append_Nil)
  then show "\<exists>new. reflects isNormal ?name st (written rs) new w' j" by blast
  show "j_poisoned j = None" "OpenTransactions (j_st j) = []" "or_Aborted res = OpenTransactions st" "st_live (j_st j) = st_live st" using cold op by simp_all
  show "draws_ok w'" using new by (simp add: reflects_def)
qed

section \<open>A name that is not durable\<close>

text \<open>Only the creation of the journal makes its name durable; when the directory sync there fails, a later \<open>OpenJournal\<close>
  finds the file and does not repeat it, and no operation of the journal does.\<close>

lemma device_keeps_names:
  "world_WriteAt w f b off = (w', e) \<Longrightarrow> durNS (w_fs w') = durNS (w_fs w)"
  "world_Sync w f = (w', e) \<Longrightarrow> durNS (w_fs w') = durNS (w_fs w)"
  "world_Truncate w f n = (w', e) \<Longrightarrow> durNS (w_fs w') = durNS (w_fs w)"
  "nextSeq src w st = (x, w') \<Longrightarrow> durNS (w_fs w') = durNS (w_fs w)"
proof -
  obtain flt w0 where nf: "next_fault w = (flt, w0)" by (rule prod.exhaust)
  note k = next_fault_keeps[OF nf]
  show "world_WriteAt w f b off = (w', e) \<Longrightarrow> durNS (w_fs w') = durNS (w_fs w)"
    using k by (auto simp: world_WriteAt_def nf WriteAt_def errf_def Let_def split: if_splits)
  show "world_Sync w f = (w', e) \<Longrightarrow> durNS (w_fs w') = durNS (w_fs w)"
    using k by (auto simp: world_Sync_def nf file_Sync_def errf_def Let_def split: if_splits)
  show "world_Truncate w f n = (w', e) \<Longrightarrow> durNS (w_fs w') = durNS (w_fs w)"
    using k by (auto simp: world_Truncate_def nf Truncate_def errf_def Let_def split: if_splits)
  show "nextSeq src w st = (x, w') \<Longrightarrow> durNS (w_fs w') = durNS (w_fs w)"
    by (auto simp: nextSeq_def split: option.splits prod.splits)
qed

lemma appendLocked_keeps_names: "appendLocked isNormal src w j r = (w', j', e) \<Longrightarrow> durNS (w_fs w') = durNS (w_fs w)"
  by (auto simp: appendLocked_def Let_def split: option.splits prod.splits sum.splits dest!: device_keeps_names)

lemma journal_Sync_keeps_names: "journal_Sync w j = (w', j', e) \<Longrightarrow> durNS (w_fs w') = durNS (w_fs w)"
  by (auto simp: journal_Sync_def split: option.splits prod.splits dest!: device_keeps_names)

lemma beginLocked_keeps_names: "beginLocked isNormal src w j p v = (w', j', e) \<Longrightarrow> durNS (w_fs w') = durNS (w_fs w)"
  by (auto simp: beginLocked_def split: if_splits option.splits prod.splits sum.splits dest!: appendLocked_keeps_names)

lemma extent_loop_keeps_names: "extent_loop isNormal src w j t rest = (w', j', t', e) \<Longrightarrow> durNS (w_fs w') = durNS (w_fs w)"
proof (induction isNormal src w j t rest rule: extent_loop.induct)
  case (1 isNormal src w j t rest)
  show ?case
  proof (cases "rest = []")
    case False
    obtain w1 j1 t1 e1 where a: "extentLocked isNormal src w j t (take (extentsPerLine rest) rest) = (w1, j1, t1, e1)" by (metis prod.exhaust)
    then have k: "durNS (w_fs w1) = durNS (w_fs w)"
      by (auto simp: extentLocked_def split: if_splits option.splits prod.splits dest!: appendLocked_keeps_names)
    show ?thesis
    proof (cases e1)
      case None
      then have "extent_loop isNormal src w1 j1 t1 (drop (extentsPerLine rest) rest) = (w', j', t', e)"
        using 1(2) False a by (subst (asm) extent_loop.simps) (simp add: Let_def)
      then show ?thesis using 1(1)[OF False refl] a None k by auto
    qed (use 1(2) False a k in \<open>subst (asm) extent_loop.simps, simp add: Let_def\<close>)
  qed (use 1(2) in \<open>simp add: extent_loop.simps\<close>)
qed

lemma abortLocked_keeps_names: "abortLocked isNormal src w j t = (w', j', t', e) \<Longrightarrow> durNS (w_fs w') = durNS (w_fs w)"
  by (auto simp: abortLocked_def split: if_splits option.splits prod.splits dest!: appendLocked_keeps_names)

lemma commitLocked_keeps_names: "commitLocked isNormal src w j t = (w', j', t', e) \<Longrightarrow> durNS (w_fs w') = durNS (w_fs w)"
  by (auto simp: commitLocked_def split: if_splits option.splits prod.splits dest!: appendLocked_keeps_names abortLocked_keeps_names)

lemma journal_Add_keeps_names: "journal_Add isNormal src w j p v locs = (w', j', e) \<Longrightarrow> durNS (w_fs w') = durNS (w_fs w)"
  by (auto simp: journal_Add_def Let_def split: if_splits option.splits prod.splits sum.splits
      dest!: appendLocked_keeps_names abortLocked_keeps_names commitLocked_keeps_names extent_loop_keeps_names beginLocked_keeps_names)

lemmas operations_keep_names = appendLocked_keeps_names journal_Sync_keeps_names beginLocked_keeps_names extent_loop_keeps_names
  abortLocked_keeps_names commitLocked_keeps_names journal_Add_keeps_names

lemma run_op_keeps_names: "run_op isNormal src c op = (c', e) \<Longrightarrow> durNS (w_fs (cl_w c')) = durNS (w_fs (cl_w c))"
  by (cases op) (auto simp: run_op_def with_tx_def journal_Del_def journal_Begin_def tx_Extent_def split: if_splits prod.splits sum.splits dest!: operations_keep_names)

lemma run_ops_keep_names: "durNS (w_fs (cl_w (run_ops isNormal src c ops))) = durNS (w_fs (cl_w c))"
proof (induction ops arbitrary: c)
  case (Cons op ops)
  obtain c' e where "run_op isNormal src c op = (c', e)" by (rule prod.exhaust)
  then show ?case using Cons.IH[of c'] run_op_keeps_names by simp
qed simp

lemma abort_open_keeps_names: "abort_open isNormal src w j ts = (w', j', e) \<Longrightarrow> durNS (w_fs w') = durNS (w_fs w)"
  by (induction ts arbitrary: w j) (auto split: option.splits prod.splits dest!: appendLocked_keeps_names)

lemma cold_start_keeps_names: "cold_start isNormal src w j = (w', j', r) \<Longrightarrow> durNS (w_fs w') = durNS (w_fs w)"
  by (auto simp: cold_start_def Let_def split: if_splits option.splits prod.splits dest!: abort_open_keeps_names journal_Sync_keeps_names)

lemma cut_torn_keeps_names: "cut_torn w f info = (w', e) \<Longrightarrow> durNS (w_fs w') = durNS (w_fs w)"
  by (auto simp: cut_torn_def split: if_splits option.splits prod.splits dest!: device_keeps_names)

lemma OpenJournal_keeps_names:
  assumes o: "OpenJournal H isNormal fault src before w genDir h opt = Some (w', res, Inr j)" and b: "keeps_files before"
    and n: "ns (w_fs w) (clean (path_Join genDir ManifestName)) \<noteq> None" "clean (path_Join genDir ManifestName) \<noteq> []"
  shows "durNS (w_fs w') = durNS (w_fs w)"
proof -
  let ?name = "path_Join genDir ManifestName"
  have "\<not> isl (fs_Stat (w_fs w) ?name)" using n by (auto simp: fs_Stat_def Let_def)
  then have cj: "create_journal w genDir = (w, None)" by (cases "fs_Stat (w_fs w) ?name") (auto simp: create_journal_def Let_def)
  have enc: "\<not> Encrypted h" using o by (auto simp: OpenJournal_def errf_def split: if_splits)
  obtain info st where ld: "Load H isNormal fault (w_fs w) genDir h (opt\<lparr> lo_TrackRefs := True \<rparr>) = Some (info, Inr st)"
    using o enc cj by (auto simp: OpenJournal_def Let_def split: option.splits sum.splits)
  obtain fs f where op: "OpenFile (w_fs w) ?name rdwr_flags = Inr (fs, f)"
    using o enc cj ld by (auto simp: OpenJournal_def Let_def split: sum.splits)
  have fs: "fs = w_fs w" using op n by (auto simp: OpenFile_def rdwr_flags_def errf_def Let_def split: if_splits option.splits)
  obtain w1 c where ct: "cut_torn w f info = (w1, c)" by (rule prod.exhaust)
  obtain w2 c2 where bf: "before st w1 = (w2, c2)" by (rule prod.exhaust)
  let ?j = "\<lparr> j_f = f, j_h = h, j_st = st, j_end = li_ValidEnd info, j_busy = (\<lambda>_. None), j_poisoned = None \<rparr>"
  obtain w3 j3 c3 where cs: "cold_start isNormal src w2 ?j = (w3, j3, c3)" by (metis prod.exhaust)
  have "w' = w3" using o enc cj ld op fs ct bf cs by (auto simp: OpenJournal_def Let_def split: option.splits sum.splits)
  moreover have "w_fs w2 = w_fs w1" using b bf by (metis keeps_files_def fst_conv)
  ultimately show ?thesis using cut_torn_keeps_names[OF ct] cold_start_keeps_names[OF cs] by simp
qed

text \<open>The creation fails in its directory sync; the next \<open>OpenJournal\<close> succeeds, and whatever is then written and synced, a power
  loss removes the journal.\<close>

lemma failed_create_leaves_name:
  assumes "ns (w_fs w) (clean (path_Join genDir ManifestName)) = None" "\<not> dirs (w_fs w) (clean (path_Join genDir ManifestName))"
    "clean (path_Join genDir ManifestName) \<noteq> []" "dirs (w_fs w) (dirOf (clean (path_Join genDir ManifestName)))" "w_faults w = [None, Some k]"
  shows "\<exists>w'. create_journal w genDir = (w', Some io_error) \<and> ns (w_fs w') (clean (path_Join genDir ManifestName)) \<noteq> None \<and>
    durNS (w_fs w') = durNS (w_fs w)"
  using assms by (simp add: create_journal_def Let_def fs_Stat_def OpenFile_def create_flags_def world_Sync_def world_SyncDir_def next_fault_def
      file_Sync_def errf_def)

lemma retried_open_loses_journal:
  assumes "ns (w_fs w) (clean (path_Join genDir ManifestName)) \<noteq> None" "durNS (w_fs w) (clean (path_Join genDir ManifestName)) = None"
    "clean (path_Join genDir ManifestName) \<noteq> []" "keeps_files before"
    and "OpenJournal H isNormal fault src before w genDir h opt = Some (w1, res, Inr j)"
  shows "ns (Crash (w_fs (cl_w (run_ops isNormal src \<lparr> cl_w = w1, cl_j = j, cl_txs = [] \<rparr> ops))) model rngs) (clean (path_Join genDir ManifestName)) = None"
  using OpenJournal_keeps_names[OF assms(5,4,1,3)] assms(2) by (simp add: Crash_def run_ops_keep_names)

section \<open>Line sizes\<close>

lemma length_appendDec: "length (appendDec v) \<le> 22"
  using length_AppendUint[of 20 "unat v"] unat_u64_lt[of v] by (simp add: appendDec_def)

lemma length_appendLoc:
  assumes "length (loc_Hash l) = 32"
  shows "length (appendLoc l) < maxLocBytes"
proof -
  have "length (AppendUint (unat (loc_Blob l))) \<le> 3"
    using length_AppendUint[of 3 "unat (loc_Blob l)"] unat_byte_lt[of "loc_Blob l"] by simp
  then show ?thesis
    using assms length_appendDec[of "loc_Offset l"] length_appendDec[of "loc_Length l"]
    by (simp add: appendLoc_def EncodeToString_lower maxLocBytes_def)
qed

lemma length_commas_le: "\<forall>x \<in> set xs. length x < k \<Longrightarrow> length (commas xs) \<le> k * length xs"
  by (induction xs rule: commas.induct) auto

lemma length_extent_line:
  assumes "rec_Op r = OpAddExtent" "\<not> rec_HasTS r" "length (rec_TxID r) = 16" "hashes_ok (rec_Loc r)"
  shows "length (line_of r) \<le> extentHeaderBytes + maxLocBytes * length (rec_Loc r)"
proof -
  have c: "length (commas (map appendLoc (rec_Loc r))) \<le> maxLocBytes * length (rec_Loc r)"
    using length_commas_le[of "map appendLoc (rec_Loc r)" maxLocBytes] length_appendLoc assms(4) by auto
  have s: "length (AppendUint (unat (rec_ExtentSequence r))) \<le> 10"
    using length_AppendUint[of 10 "unat (rec_ExtentSequence r)"] unat_u32_lt[of "rec_ExtentSequence r"] by simp
  have t: "length (appendString (EncodeToString (rec_TxID r))) = 34"
    using appendString_plain[OF plain_hex[OF conjunct1[OF EncodeToString_lower[of "rec_TxID r"]]]] assms(3) by (simp add: EncodeToString_lower)
  show ?thesis
    using assms(1,2) c s t length_appendDec[of "rec_Seq r"]
    by (simp add: line_of_def appendFields_def appendStrField_def appendIntField_def appendLocs_def appendKey_def extentHeaderBytes_def)
qed

lemma client_start: "draws_ok w \<Longrightarrow> client_ok \<lparr> cl_w = w, cl_j = j, cl_txs = [] \<rparr>"
  by (simp add: client_ok_def)

text \<open>A synced file reads the same after a power loss.\<close>

lemma handle_Crash:
  assumes "handle_ok name fs f" "dur (inodes fs ! cf_in f) = file_bytes fs f"
  shows "handle_ok name (Crash fs model rngs) f" "file_bytes (Crash fs model rngs) f = file_bytes fs f"
  using assms by (auto simp: handle_ok_def Crash_def file_bytes_def crash_inode_synced)

lemma reflects_Crash:
  assumes "reflects isNormal name st0 data rs w j" "dur (inodes (w_fs w) ! cf_in (j_f j)) = file_bytes (w_fs w) (j_f j)"
  shows "reflects isNormal name st0 data rs (w\<lparr> w_fs := Crash (w_fs w) model rngs \<rparr>) j"
  using assms handle_Crash[OF _ assms(2), of name model rngs] by (auto simp: reflects_def)

lemma journal_Sync_durable:
  assumes "reflects isNormal name st0 data rs w j" "journal_Sync w j = (w', j', None)"
  shows "reflects isNormal name st0 data rs w' j'" "dur (inodes (w_fs w') ! cf_in (j_f j')) = file_bytes (w_fs w') (j_f j')" "j_poisoned j' = None"
proof -
  obtain w1 x where s: "world_Sync w (j_f j) = (w1, x)" by (rule prod.exhaust)
  have e: "x = None" "w' = w1" "j' = j" "j_poisoned j = None" using assms(2) s by (auto simp: journal_Sync_def split: option.splits)
  have "handle_ok name (w_fs w) (j_f j)" using assms(1) by (simp add: reflects_def)
  note k = world_Sync_handle[OF this s]
  show "reflects isNormal name st0 data rs w' j'" using assms(1) k e by (simp add: reflects_def)
  show "dur (inodes (w_fs w') ! cf_in (j_f j')) = file_bytes (w_fs w') (j_f j')" "j_poisoned j' = None" using k e by simp_all
qed

section \<open>Properties\<close>

text \<open>C12: The live state and the file agree: open a journal that an earlier writer left (canonical lines without links, perhaps a torn
  one, under a durable name) or create the first one of a generation, and run any operations, with any device faults, sequence
  source and random identifiers. If the journal is not poisoned, loading the file gives exactly the live state, with no torn tail
  and the journal's end as valid end. If a write or sync failed, loading gives the live state or the one before the record that
  failed.\<close>

theorem journal_reloads:
  assumes "OpenJournal H isNormal fault src before w genDir h opt = Some (w1, res, Inr j)"
    and "journal_start isNormal genDir (w_fs w) rs torn" "\<forall>t \<in> set (w_draws w). length t = 16" "keeps_files before"
    and "lo_Limit opt = 0" "\<forall>off n. \<not> fault (clean (path_Join genDir ManifestName)) off n"
    and "replay (start_state h (opt\<lparr> lo_TrackRefs := True \<rparr>)) (map (\<lambda>r. (r, 0)) rs) = (st, None)"
    and "list_all op_ok ops" "c = run_ops isNormal src \<lparr> cl_w = w1, cl_j = j, cl_txs = [] \<rparr> ops"
  shows "\<exists>info st'. Load H isNormal fault (w_fs (cl_w c)) genDir h (opt\<lparr> lo_TrackRefs := True \<rparr>) = Some (info, Inr st') \<and>
    (if j_poisoned (cl_j c) = None then st' = j_st (cl_j c) \<and> li_Torn info = 0 \<and> li_ValidEnd info = journal_End (cl_j c)
     else st' = j_st (cl_j c) \<or> (\<exists>r. Apply st' r 0 = (j_st (cl_j c), None)))"
proof -
  let ?name = "path_Join genDir ManifestName"
  note op = OpenJournal_reflects[OF assms(1-7)]
  obtain new where new: "reflects isNormal ?name st (written rs) new w1 j" using op(1) by blast
  have "extends isNormal ?name w1 j (cl_w c) (cl_j c)"
    using run_ops_extends[OF client_start[OF op(5)] assms(8)] assms(9) by simp
  then obtain new2 where r: "reflects isNormal ?name st (written rs) (new @ new2) (cl_w c) (cl_j c)" using extends_reflects[OF _ new] by blast
  then have nm: "cf_name (j_f (cl_j c)) = clean ?name" by (simp add: reflects_def handle_ok_def)
  have enc: "\<not> Encrypted h" using assms(1) by (auto simp: OpenJournal_def errf_def split: if_splits)
  show ?thesis
    using reflects_reload[where fault = fault and H = H, OF r assms(7) _ enc] journal_start_records[OF assms(2)] assms(5,6) nm by (fastforce simp: journal_End_def)
qed

text \<open>C13: What a successful sync acknowledged survives: open a journal whose name is durable, or create the first one of a
  generation, run any operations with any device faults and sync successfully; then a power loss of any kind leaves a journal that
  loads as exactly the live state.\<close>

theorem synced_journal_survives_crash:
  assumes "OpenJournal H isNormal fault src before w genDir h opt = Some (w1, res, Inr j)"
    and "journal_start isNormal genDir (w_fs w) rs torn" "\<forall>t \<in> set (w_draws w). length t = 16" "keeps_files before"
    and "lo_Limit opt = 0" "\<forall>off n. \<not> fault (clean (path_Join genDir ManifestName)) off n"
    and "replay (start_state h (opt\<lparr> lo_TrackRefs := True \<rparr>)) (map (\<lambda>r. (r, 0)) rs) = (st, None)"
    and "list_all op_ok ops" "run_op isNormal src (run_ops isNormal src \<lparr> cl_w = w1, cl_j = j, cl_txs = [] \<rparr> ops) JSync = (c, None)"
  shows "\<exists>info. Load H isNormal fault (Crash (w_fs (cl_w c)) model rngs) genDir h (opt\<lparr> lo_TrackRefs := True \<rparr>) =
    Some (info, Inr (j_st (cl_j c))) \<and> li_Torn info = 0"
proof -
  let ?name = "path_Join genDir ManifestName" and ?c = "run_ops isNormal src \<lparr> cl_w = w1, cl_j = j, cl_txs = [] \<rparr> ops"
  note op = OpenJournal_reflects[OF assms(1-7)]
  obtain new where new: "reflects isNormal ?name st (written rs) new w1 j" using op(1) by blast
  have "extends isNormal ?name w1 j (cl_w ?c) (cl_j ?c)" using run_ops_extends[OF client_start[OF op(5)] assms(8)] by simp
  then obtain new2 where r: "reflects isNormal ?name st (written rs) (new @ new2) (cl_w ?c) (cl_j ?c)" using extends_reflects[OF _ new] by blast
  have s: "journal_Sync (cl_w ?c) (cl_j ?c) = (cl_w c, cl_j c, None)" using assms(9) by (auto simp: run_op_def split: prod.splits)
  note d = journal_Sync_durable[OF r s]
  let ?w = "(cl_w c)\<lparr> w_fs := Crash (w_fs (cl_w c)) model rngs \<rparr>"
  have r2: "reflects isNormal ?name st (written rs) (new @ new2) ?w (cl_j c)" using reflects_Crash[OF d(1,2)] .
  then have nm: "cf_name (j_f (cl_j c)) = clean ?name" by (simp add: reflects_def handle_ok_def)
  have enc: "\<not> Encrypted h" using assms(1) by (auto simp: OpenJournal_def errf_def split: if_splits)
  show ?thesis
    using reflects_reload[where fault = fault and H = H, OF r2 assms(7) _ enc] journal_start_records[OF assms(2)] assms(5,6) nm d(3) by fastforce
qed

text \<open>C14: Cold start: opening a journal closes every transaction it finds open and reports exactly these, changes no live
  file, and leaves no path busy.\<close>

theorem OpenJournal_closes_transactions:
  assumes "OpenJournal H isNormal fault src before w genDir h opt = Some (w1, res, Inr j)"
    and "journal_start isNormal genDir (w_fs w) rs torn" "\<forall>t \<in> set (w_draws w). length t = 16" "keeps_files before"
    and "lo_Limit opt = 0" "\<forall>off n. \<not> fault (clean (path_Join genDir ManifestName)) off n"
    and "replay (start_state h (opt\<lparr> lo_TrackRefs := True \<rparr>)) (map (\<lambda>r. (r, 0)) rs) = (st, None)"
  shows "OpenTransactions (j_st j) = [] \<and> or_Aborted res = OpenTransactions st \<and> Lookup (j_st j) = Lookup st \<and> j_poisoned j = None"
  using OpenJournal_reflects[OF assms] by (simp add: Lookup_def fun_eq_iff)

text \<open>C15: Batching never produces a line that is too long: an ADD_EXTENT record with at most \<open>maxExtentsPerLine\<close> extents,
  whatever their values, is encoded, and the batches of \<open>extentsPerLine\<close> are never empty.\<close>

theorem extent_batches_fit:
  assumes "rec_Op r = OpAddExtent" "\<not> rec_HasTS r" "length (rec_TxID r) = 16" "\<forall>l \<in> set (rec_Loc r). length (loc_Hash l) = 32 \<and> loc_Blob l \<le> MaxBlobOrdinal"
    "rec_Loc r = take (extentsPerLine rest) rest" "rest \<noteq> []"
  shows "AppendLine isNormal dst r = Inr (dst @ line_of r @ [LF]) \<and> rec_Loc r \<noteq> []"
proof -
  have n: "length (rec_Loc r) \<le> 8810" "rec_Loc r \<noteq> []" using assms(5,6) by (auto simp: extentsPerLine_def maxExtentsPerLine_value)
  have "length (line_of r) \<le> extentHeaderBytes + maxLocBytes * length (rec_Loc r)" using length_extent_line[OF assms(1-3)] assms(4) by auto
  also have "\<dots> \<le> extentHeaderBytes + maxLocBytes * 8810" using n(1) by simp
  also have "\<dots> \<le> MaxLineBytes" by (simp add: extentHeaderBytes_def maxLocBytes_def)
  finally have "length (line_of r) \<le> MaxLineBytes" .
  moreover have "validate isNormal r = Inr ()" using assms(1,4) n(2) by (auto simp: validate_def all_ops_def list_ex_iff not_less)
  ultimately show ?thesis using n(2) by (simp add: AppendLine_def andThen_def)
qed

section \<open>An example\<close>

text \<open>Opening a journal without open transactions, on a device without faults.\<close>

lemma OpenJournal_clean:
  assumes d0: "journal_start isNormal genDir (w_fs w0) rs torn"
    and h: "\<not> Encrypted h" "lo_Limit opt = 0" "\<forall>off n. \<not> fault (clean (path_Join genDir ManifestName)) off n"
    and r: "replay (start_state h (opt\<lparr> lo_TrackRefs := True \<rparr>)) (map (\<lambda>r. (r, 0)) rs) = (st, None)" "OpenTransactions st = []"
    and w0: "w_faults w0 = []"
  shows "\<exists>w1 res j. OpenJournal H isNormal fault src (\<lambda>st w. (w, None)) w0 genDir h opt = Some (w1, res, Inr j) \<and>
    j_st j = st \<and> j_busy j = (\<lambda>_. None) \<and> j_poisoned j = None \<and> w_faults w1 = [] \<and> handle_ok (path_Join genDir ManifestName) (w_fs w1) (j_f j) \<and>
    j_end j = length (file_bytes (w_fs w1) (j_f j))"
proof -
  let ?name = "path_Join genDir ManifestName" and ?opt = "opt\<lparr> lo_TrackRefs := True \<rparr>"
  obtain w e where c0: "create_journal w0 genDir = (w, e)" by (rule prod.exhaust)
  have "e = None \<and> w_faults w = []"
    using create_journal_present[of isNormal genDir w0 rs torn] create_journal_absent(3)[OF _ d0 c0 w0] c0 w0
    by (cases "on_disk isNormal ?name (w_fs w0) rs torn") auto
  then have cj: "create_journal w0 genDir = (w, None)" and w: "w_faults w = []" using c0 by auto
  note d = create_journal_ok(1)[OF d0 cj]
  obtain info where ld: "Load H isNormal fault (w_fs w) genDir h ?opt = Some (info, Inr st)" "li_ValidEnd info = length (written rs)" "li_Torn info = length torn"
    using on_disk_loads[where fault = fault and H = H, OF d h(1) _ h(3) r(1)] h(2) by auto
  from d obtain f where f: "OpenFile (w_fs w) ?name rdwr_flags = Inr (w_fs w, f)" "handle_ok ?name (w_fs w) f" "file_bytes (w_fs w) f = written rs @ torn" by (rule on_disk_opened)
  obtain w1 c where ct: "cut_torn w f info = (w1, c)" by (rule prod.exhaust)
  have c: "c = None" "w_faults w1 = []"
    using ct w f(2) by (auto simp: cut_torn_def world_Truncate_def world_Sync_def next_fault_def Truncate_def file_Sync_def handle_ok_def Let_def split: if_splits)
  note cut = cut_torn_ok[OF ct[unfolded c(1)] f(2,3) ld(2,3)]
  show ?thesis using h(1) cj ld f(1) ct c cut r(2) by (simp add: OpenJournal_def cold_start_def Let_def)
qed

definition sample_world :: "unit world" where
  "sample_world = \<lparr> w_fs = (journal_fs (written [sample_add] @ [0x7B]))\<lparr> durNS := [''gen/manifest.jsonl'' \<mapsto> 0] \<rparr>, w_src = (),
     w_draws = [replicate 16 7], w_faults = [] \<rparr>"

lemma sample_on_disk: "on_disk (\<lambda>_. True) (path_Join ''gen'' ManifestName) (w_fs sample_world) [sample_add] [0x7B]"
  using sample_add_written
  by (simp add: on_disk_def sample_names sample_world_def journal_fs_def NewCrashFS_def) (simp add: sample_add_def emptyRecord_def)

lemma sample_start: "journal_start (\<lambda>_. True) ''gen'' (w_fs sample_world) [sample_add] [0x7B]"
  using sample_on_disk by (simp add: journal_start_def)

text \<open>A generation without a journal.\<close>

definition fresh_world :: "unit world" where
  "fresh_world = \<lparr> w_fs = NewCrashFS\<lparr> dirs := (\<lambda>d. d = ''.'' \<or> d = ''gen'') \<rparr>, w_src = (), w_draws = [replicate 16 7], w_faults = [] \<rparr>"

lemma fresh_start: "journal_start (\<lambda>_. True) ''gen'' (w_fs fresh_world) [] []"
proof -
  have "clean ''gen'' = ''gen''" "dirOf ''gen/manifest.jsonl'' = ''gen''" by code_simp+
  then show ?thesis by (simp add: journal_start_def sample_names fresh_world_def NewCrashFS_def)
qed

lemma sample_open_state:
  "\<exists>st. replay (start_state sample_header (sample_options\<lparr> lo_TrackRefs := True \<rparr>)) [(sample_add, 0)] = (st, None) \<and> OpenTransactions st = []"
  by (simp add: Apply_def apply_op_def apply_Add_def sample_add_def emptyRecord_def checkBlobs_def checkLocs_def checkVersion_def NewState_def
      start_state_def sample_options_def setLive_def addRefs_def sample_header_def DefaultLimits_def MaxFrameSize_def TrackRefs_def OpenTransactions_def Let_def)

lemma sample_opens:
  "\<exists>st w1 res j. replay (start_state sample_header (sample_options\<lparr> lo_TrackRefs := True \<rparr>)) (map (\<lambda>r. (r, 0)) [sample_add]) = (st, None) \<and>
    OpenJournal sample_hashes (\<lambda>_. True) (\<lambda>_ _ _. False) None (\<lambda>st w. (w, None)) sample_world ''gen'' sample_header sample_options = Some (w1, res, Inr j) \<and>
    w_faults w1 = [] \<and> j_poisoned j = None \<and> \<not> cf_closed (j_f j) \<and> cf_writable (j_f j)"
proof -
  obtain st where st: "replay (start_state sample_header (sample_options\<lparr> lo_TrackRefs := True \<rparr>)) (map (\<lambda>r. (r, 0)) [sample_add]) = (st, None)" "OpenTransactions st = []"
    using sample_open_state by auto
  have h: "\<not> Encrypted sample_header" "lo_Limit sample_options = 0" "w_faults sample_world = []"
    by (simp_all add: sample_header_def Encrypted_def sample_options_def sample_world_def)
  have "\<exists>w1 res j. OpenJournal sample_hashes (\<lambda>_. True) (\<lambda>_ _ _. False) None (\<lambda>st w. (w, None)) sample_world ''gen'' sample_header sample_options = Some (w1, res, Inr j) \<and>
    j_st j = st \<and> j_busy j = (\<lambda>_. None) \<and> j_poisoned j = None \<and> w_faults w1 = [] \<and> handle_ok (path_Join ''gen'' ManifestName) (w_fs w1) (j_f j) \<and>
    j_end j = length (file_bytes (w_fs w1) (j_f j))"
    by (rule OpenJournal_clean[OF sample_start h(1,2) _ st h(3)]) simp
  then show ?thesis using st by (auto simp: handle_ok_def)
qed

lemma sample_world_ok: "\<forall>t \<in> set (w_draws sample_world). length t = 16" "keeps_files (\<lambda>st w. (w, None))"
  by (simp_all add: sample_world_def keeps_files_def)

text \<open>The example's client deletes the file and adds it again in a transaction, before the first sync.\<close>

definition sample_ops :: "journal_op list" where
  "sample_ops = [JDel [0x61, 0x2F, 0x62] 1, JBegin [0x61, 0x2F, 0x62] 2, JExtent 0 (rec_Loc sample_add), JCommit 0]"

lemma sample_ops_ok: "list_all op_ok sample_ops"
  by (simp add: sample_ops_def sample_add_def emptyRecord_def)

theorem journal_reloads_witness:
  "\<exists>w1 res j info st. OpenJournal sample_hashes (\<lambda>_. True) (\<lambda>_ _ _. False) None (\<lambda>st w. (w, None)) sample_world ''gen'' sample_header sample_options = Some (w1, res, Inr j) \<and>
    Load sample_hashes (\<lambda>_. True) (\<lambda>_ _ _. False) (w_fs (cl_w (run_ops (\<lambda>_. True) None \<lparr> cl_w = w1, cl_j = j, cl_txs = [] \<rparr> sample_ops))) ''gen''
      sample_header (sample_options\<lparr> lo_TrackRefs := True \<rparr>) = Some (info, Inr st)"
proof -
  obtain st w1 res j where s: "replay (start_state sample_header (sample_options\<lparr> lo_TrackRefs := True \<rparr>)) (map (\<lambda>r. (r, 0)) [sample_add]) = (st, None)"
    "OpenJournal sample_hashes (\<lambda>_. True) (\<lambda>_ _ _. False) None (\<lambda>st w. (w, None)) sample_world ''gen'' sample_header sample_options = Some (w1, res, Inr j)"
    using sample_opens by blast
  show ?thesis using journal_reloads[OF s(2) sample_start sample_world_ok _ _ s(1) sample_ops_ok refl] s(2) by (auto simp: sample_options_def)
qed

text \<open>Without device faults a journal is never poisoned.\<close>

definition fault_free :: "'a world \<Rightarrow> Journal \<Rightarrow> bool" where
  "fault_free w j \<longleftrightarrow> w_faults w = [] \<and> j_poisoned j = None \<and> \<not> cf_closed (j_f j) \<and> cf_writable (j_f j)"

lemma appendLocked_fault_free: "appendLocked isNormal None w j r = (w', j', e) \<Longrightarrow> fault_free w j \<Longrightarrow> fault_free w' j'"
  by (auto simp: fault_free_def appendLocked_def nextSeq_def world_WriteAt_def next_fault_def WriteAt_def Let_def split: sum.splits prod.splits option.splits)

lemma fresh_opens:
  "\<exists>st w1 res j. replay (start_state sample_header (sample_options\<lparr> lo_TrackRefs := True \<rparr>)) (map (\<lambda>r. (r, 0)) []) = (st, None) \<and>
    OpenJournal sample_hashes (\<lambda>_. True) (\<lambda>_ _ _. False) None (\<lambda>st w. (w, None)) fresh_world ''gen'' sample_header sample_options = Some (w1, res, Inr j) \<and>
    fault_free w1 j"
proof -
  let ?st = "start_state sample_header (sample_options\<lparr> lo_TrackRefs := True \<rparr>)"
  have st: "replay ?st (map (\<lambda>r. (r, 0)) []) = (?st, None)" "OpenTransactions ?st = []"
    by (simp_all add: start_state_def TrackRefs_def NewState_def OpenTransactions_def)
  have h: "\<not> Encrypted sample_header" "lo_Limit sample_options = 0" "w_faults fresh_world = []"
    by (simp_all add: sample_header_def Encrypted_def sample_options_def fresh_world_def)
  have "\<exists>w1 res j. OpenJournal sample_hashes (\<lambda>_. True) (\<lambda>_ _ _. False) None (\<lambda>st w. (w, None)) fresh_world ''gen'' sample_header sample_options = Some (w1, res, Inr j) \<and>
    j_st j = ?st \<and> j_busy j = (\<lambda>_. None) \<and> j_poisoned j = None \<and> w_faults w1 = [] \<and> handle_ok (path_Join ''gen'' ManifestName) (w_fs w1) (j_f j) \<and>
    j_end j = length (file_bytes (w_fs w1) (j_f j))"
    by (rule OpenJournal_clean[OF fresh_start h(1,2) _ st h(3)]) simp
  then show ?thesis using st by (auto simp: handle_ok_def fault_free_def)
qed

theorem synced_journal_survives_crash_witness:
  "\<exists>w1 res j c info. OpenJournal sample_hashes (\<lambda>_. True) (\<lambda>_ _ _. False) None (\<lambda>st w. (w, None)) fresh_world ''gen'' sample_header sample_options = Some (w1, res, Inr j) \<and>
    run_op (\<lambda>_. True) None (run_ops (\<lambda>_. True) None \<lparr> cl_w = w1, cl_j = j, cl_txs = [] \<rparr> [JBegin [0x61, 0x2F, 0x62] 1]) JSync = (c, None) \<and>
    Load sample_hashes (\<lambda>_. True) (\<lambda>_ _ _. False) (Crash (w_fs (cl_w c)) CrashTear (\<lambda>_. (\<lambda>_. 0, 0))) ''gen''
      sample_header (sample_options\<lparr> lo_TrackRefs := True \<rparr>) = Some (info, Inr (j_st (cl_j c)))"
proof -
  obtain st w1 res j where s: "replay (start_state sample_header (sample_options\<lparr> lo_TrackRefs := True \<rparr>)) (map (\<lambda>r. (r, 0)) []) = (st, None)"
    "OpenJournal sample_hashes (\<lambda>_. True) (\<lambda>_ _ _. False) None (\<lambda>st w. (w, None)) fresh_world ''gen'' sample_header sample_options = Some (w1, res, Inr j)"
    "fault_free w1 j" using fresh_opens by blast
  let ?c = "run_ops (\<lambda>_. True) None \<lparr> cl_w = w1, cl_j = j, cl_txs = [] \<rparr> [JBegin [0x61, 0x2F, 0x62] 1]"
  have d: "fault_free (w1\<lparr> w_draws := ts \<rparr>) j" for ts using s(3) by (simp add: fault_free_def)
  have "fault_free (cl_w ?c) (cl_j ?c)"
    using s(3) d by (auto simp: run_op_def journal_Begin_def beginLocked_def split: prod.splits sum.splits option.splits dest!: appendLocked_fault_free)
      (auto simp: fault_free_def)
  then obtain c where c: "run_op (\<lambda>_. True) None ?c JSync = (c, None)"
    by (auto simp: fault_free_def run_op_def journal_Sync_def world_Sync_def next_fault_def file_Sync_def Let_def)
  have w: "\<forall>t \<in> set (w_draws fresh_world). length t = 16" by (simp add: fresh_world_def)
  from synced_journal_survives_crash[OF s(2) fresh_start w sample_world_ok(2) _ _ s(1) _ c, of CrashTear "\<lambda>_. (\<lambda>_. 0, 0)"]
  show ?thesis using s(2) c by (auto simp: sample_options_def)
qed

theorem OpenJournal_closes_transactions_witness:
  "\<exists>w1 res j. OpenJournal sample_hashes (\<lambda>_. True) (\<lambda>_ _ _. False) None (\<lambda>st w. (w, None)) sample_world ''gen'' sample_header sample_options = Some (w1, res, Inr j) \<and>
    OpenTransactions (j_st j) = []"
proof -
  obtain st w1 res j where s: "replay (start_state sample_header (sample_options\<lparr> lo_TrackRefs := True \<rparr>)) (map (\<lambda>r. (r, 0)) [sample_add]) = (st, None)"
    "OpenJournal sample_hashes (\<lambda>_. True) (\<lambda>_ _ _. False) None (\<lambda>st w. (w, None)) sample_world ''gen'' sample_header sample_options = Some (w1, res, Inr j)"
    using sample_opens by blast
  show ?thesis using OpenJournal_closes_transactions[OF s(2) sample_start sample_world_ok _ _ s(1)] s(2) by (auto simp: sample_options_def)
qed

theorem extent_batches_fit_witness:
  "AppendLine (\<lambda>_. True) [] ((zeroRecord OpAddExtent)\<lparr> rec_Loc := rec_Loc sample_add \<rparr>) =
    Inr (line_of ((zeroRecord OpAddExtent)\<lparr> rec_Loc := rec_Loc sample_add \<rparr>) @ [LF])"
  using extent_batches_fit[of "(zeroRecord OpAddExtent)\<lparr> rec_Loc := rec_Loc sample_add \<rparr>" "rec_Loc sample_add" "\<lambda>_. True" "[]"]
  by (simp add: zeroRecord_def emptyRecord_def sample_add_def extentsPerLine_def maxExtentsPerLine_value)

end
