(* ===== verification/Archive_View.thy ===== *)
theory Archive_View
  imports Index Shard Parity_Code Manifest_State
begin

text \<open>
  Package \<^verbatim>\<open>internal/archive\<close>, \<^verbatim>\<open>view.go\<close> and \<^verbatim>\<open>repair.go\<close>: the read path. A view holds, for every available blob, its
  reader and index, and the directory of frames that hop-and-read has found. \<open>fetch\<close> finds the frame of one extent
  through the index, by hop-and-read or by parity; \<open>read\<close> assembles a version; an object reads it lazily. The locks
  serialise the operations on a view, which return it updated.

  What the environment decides is in the record \<open>env\<close>: the hash functions, the normal-form test, the old content of pooled
  buffers, the number of processors, the order of concurrent work and the iteration order of a Go map.
\<close>

section \<open>State\<close>

record env =
  e_H :: hashes
  e_isNormal :: "bytes \<Rightarrow> bool"
  e_stale :: "nat \<Rightarrow> byte"
  e_sched :: schedule
  e_procs :: nat
  e_range :: "u32 list \<Rightarrow> u32 list"
  e_order :: "Loc list \<Rightarrow> Loc list"

record blobView =
  bv_rd :: reader
  bv_size :: nat
  bv_idx :: Index
  bv_defective :: bool

record RepairStats =
  rs_Hopped :: u64
  rs_Rebuilt :: u64
  rs_Failed :: u64

record hopMember =
  hm_blob :: nat
  hm_off :: nat
  hm_quanta :: u32
  hm_t :: MasterTrailer
  hm_entries :: "Entry list option"

record frameDir =
  fd_end :: "nat list"
  fd_seen :: "(nat \<times> nat) set"
  fd_byHash :: "bytes \<Rightarrow> hopMember list"
  fd_groups :: "u32 \<Rightarrow> hopMember list"
  fd_ids :: "u32 list"
  fd_rebuiltAs :: "FrameKey \<Rightarrow> u32"
  fd_stats :: RepairStats

text \<open>\<open>fd_ids\<close> are the keys of the map \<open>groups\<close>; a missing key of \<open>rebuiltAs\<close> reads as group 0, which is no group.\<close>

record view =
  v_h :: ArchiveHeader
  v_blobs :: "blobView option list"
  v_dir :: frameDir
  v_codes :: codes
  v_caches :: "codeKey \<Rightarrow> inv_cache"

definition emptyDir :: "nat \<Rightarrow> frameDir" where
  "emptyDir n = \<lparr> fd_end = replicate n FrameAreaStart, fd_seen = {}, fd_byHash = (\<lambda>_. []), fd_groups = (\<lambda>_. []), fd_ids = [],
     fd_rebuiltAs = (\<lambda>_. 0), fd_stats = \<lparr> rs_Hopped = 0, rs_Rebuilt = 0, rs_Failed = 0 \<rparr> \<rparr>"

definition errMissingData :: error where "errMissingData = Err ErrOther ''archive'' ''missing data''"

section \<open>Objects in frames\<close>

text \<open>\<open>slices.BinarySearchFunc\<close> by path.\<close>

function path_search :: "Entry list \<Rightarrow> bytes \<Rightarrow> nat \<Rightarrow> nat \<Rightarrow> nat" where
  "path_search es p i j =
    (if i < j then let h = (i + j) div 2 in
       if Compare (e_Path (es ! h)) p < 0 then path_search es p (h + 1) j else path_search es p i h
     else i)"
  by pat_completeness auto
termination by (relation "measure (\<lambda>(_, _, i, j). j - i)") auto

declare path_search.simps [simp del]

definition packedEntry :: "Ref \<Rightarrow> bytes \<Rightarrow> u64 \<Rightarrow> Loc \<Rightarrow> (Entry \<times> bool) option" where
  "packedEntry ref p fileVer l =
    (let t = f_Trailer (ref_Frame ref); es = entries_of (f_Entries (ref_Frame ref)) in
     if m_BlockType t = BlockData then
       (if length es = 1 then
          let e = es ! 0 in Some (e, e_Path e = p \<and> e_FileVer e = fileVer \<and> e_Offset e = loc_Offset l \<and> e_Length e = loc_Length l)
        else None)
     else if m_BlockType t = BlockPacked then
       (if loc_Offset l \<noteq> 0 then None
        else let i = path_search es p 0 (length es) in
          if i < length es \<and> e_Path (es ! i) = p
          then let e = es ! i in Some (e, e_FileVer e = fileVer \<and> e_Length e = loc_Length l)
          else None)
     else None)"

definition slicePacked :: "Ref \<Rightarrow> bytes \<Rightarrow> u64 \<Rightarrow> Loc \<Rightarrow> Ref" where
  "slicePacked ref p fileVer l =
    (if m_BlockType (f_Trailer (ref_Frame ref)) = BlockPacked then
       (case packedEntry ref p fileVer l of
          None \<Rightarrow> ref\<lparr> ref_Frame := (ref_Frame ref)\<lparr> f_Payload := [] \<rparr> \<rparr>
        | Some (e, _) \<Rightarrow> ref\<lparr> ref_Frame := (ref_Frame ref)\<lparr> f_Payload :=
            seg (f_Payload (ref_Frame ref)) (unat (e_Offset e)) (unat (e_Offset e + e_Length e)) \<rparr> \<rparr>)
     else ref)"

definition accepts :: "bytes \<Rightarrow> Version \<Rightarrow> Loc \<Rightarrow> Ref \<Rightarrow> bool" where
  "accepts p ver l ref \<longleftrightarrow>
    m_HashPayload (f_Trailer (ref_Frame ref)) = loc_Hash l \<and> m_CodecID (f_Trailer (ref_Frame ref)) = CodecStore \<and>
    (case packedEntry ref p (v_FileVer ver) l of None \<Rightarrow> False | Some (_, ok) \<Rightarrow> ok)"

section \<open>Repair\<close>

definition member_holds :: "hopMember \<Rightarrow> bytes \<Rightarrow> u64 \<Rightarrow> bool" where
  "member_holds m p ver \<longleftrightarrow> list_ex (\<lambda>e. e_Path e = p \<and> e_FileVer e = ver) (entries_of (hm_entries m))"

definition member_matches :: "hopMember \<Rightarrow> bytes \<Rightarrow> u64 \<Rightarrow> Loc \<Rightarrow> bool" where
  "member_matches m p ver l \<longleftrightarrow>
    (let es = entries_of (hm_entries m) in
     m_HashPayload (hm_t m) = loc_Hash l \<and>
     (if m_BlockType (hm_t m) = BlockData
      then length es = 1 \<and> e_Path (es ! 0) = p \<and> e_FileVer (es ! 0) = ver \<and> e_Offset (es ! 0) = loc_Offset l
      else if m_BlockType (hm_t m) = BlockPacked then loc_Offset l = 0 \<and> member_holds m p ver
      else False))"

text \<open>The callback of \<open>refresh\<close>.\<close>

definition note_frame :: "nat \<Rightarrow> frameDir \<Rightarrow> HopFrame \<Rightarrow> frameDir \<times> error option" where
  "note_frame b d f =
    (let k = (b, hf_Offset f) in
     if k \<in> fd_seen d then (d, None)
     else let t = hf_Trailer f;
            m = \<lparr> hm_blob = b, hm_off = hf_Offset f, hm_quanta = hf_Quanta f, hm_t = t, hm_entries = hf_Entries f \<rparr>;
            d1 = d\<lparr> fd_seen := insert k (fd_seen d) \<rparr>;
            d2 = (if m_BlockType t \<noteq> BlockParity
                  then d1\<lparr> fd_byHash := (fd_byHash d1)(m_HashPayload t := fd_byHash d1 (m_HashPayload t) @ [m]) \<rparr> else d1);
            g = m_GroupID t
       in (if g \<noteq> 0
           then d2\<lparr> fd_groups := (fd_groups d2)(g := fd_groups d2 g @ [m]), fd_ids := (if g \<in> set (fd_ids d2) then fd_ids d2 else fd_ids d2 @ [g]) \<rparr>
           else d2, None))"

fun refresh_loop :: "env \<Rightarrow> ArchiveHeader \<Rightarrow> nat \<Rightarrow> blobView option list \<Rightarrow> frameDir \<Rightarrow> frameDir \<times> error option" where
  "refresh_loop env h b [] d = (d, None)"
| "refresh_loop env h b (None # bvs) d = refresh_loop env h (Suc b) bvs d"
| "refresh_loop env h b (Some bv # bvs) d =
    (case HopFrom (e_isNormal env) (bv_rd bv) h (fd_end d ! b) (bv_size bv) (note_frame b) d of
       (_, d1, Some e) \<Rightarrow> (d1, Some e)
     | (end, d1, None) \<Rightarrow> refresh_loop env h (Suc b) bvs (d1\<lparr> fd_end := (fd_end d1)[b := end] \<rparr>))"

definition refresh :: "env \<Rightarrow> view \<Rightarrow> view \<times> error option" where
  "refresh env v = (case refresh_loop env (v_h v) 0 (v_blobs v) (v_dir v) of (d, err) \<Rightarrow> (v\<lparr> v_dir := d \<rparr>, err))"

fun usable_loop :: "hopMember \<Rightarrow> byte set \<Rightarrow> hopMember list \<Rightarrow> bool" where
  "usable_loop m0 seen [] = True"
| "usable_loop m0 seen (m # ms) =
    (if m_GroupK (hm_t m) \<noteq> m_GroupK (hm_t m0) \<or> m_GroupM (hm_t m) \<noteq> m_GroupM (hm_t m0) \<or> hm_quanta m \<noteq> hm_quanta m0 \<or>
        m_GroupIndex (hm_t m) \<in> seen then False
     else usable_loop m0 (insert (m_GroupIndex (hm_t m)) seen) ms)"

definition groupUsable :: "hopMember list \<Rightarrow> bool" where
  "groupUsable ms = (case ms of [] \<Rightarrow> False | m0 # _ \<Rightarrow> usable_loop m0 {} ms)"

definition readMember :: "env \<Rightarrow> view \<Rightarrow> nat \<Rightarrow> nat \<Rightarrow> Ref option" where
  "readMember env v b off =
    (if b < length (v_blobs v) then
       (case v_blobs v ! b of None \<Rightarrow> None
        | Some bv \<Rightarrow> (case ReadFrame (e_H env) (e_isNormal env) (bv_rd bv) (bv_size bv) (v_h v) off of Inl _ \<Rightarrow> None | Inr ref \<Rightarrow> Some ref))
     else None)"

text \<open>The shard of a member, \<open>None\<close> when it does not validate.\<close>

definition member_shard :: "env \<Rightarrow> view \<Rightarrow> u32 \<Rightarrow> hopMember \<Rightarrow> bytes option" where
  "member_shard env v g mem =
    (case readMember env v (hm_blob mem) (hm_off mem) of
       None \<Rightarrow> None
     | Some ref \<Rightarrow>
       (let t = f_Trailer (ref_Frame ref) in
        if m_GroupID t \<noteq> g \<or> m_GroupIndex t \<noteq> m_GroupIndex (hm_t mem) then None
        else if m_BlockType t = BlockParity then Some (f_Payload (ref_Frame ref))
        else case AppendRecoveryShard (e_stale env) [] (ref_Bytes ref) of Inl _ \<Rightarrow> None | Inr s \<Rightarrow> Some s))"

fun load_shards :: "env \<Rightarrow> view \<Rightarrow> u32 \<Rightarrow> hopMember list \<Rightarrow> bytes option list \<Rightarrow> bytes option list" where
  "load_shards env v g [] shards = shards"
| "load_shards env v g (mem # ms) shards =
    load_shards env v g ms
      (case member_shard env v g mem of None \<Rightarrow> shards | Some s \<Rightarrow> shards[unat (m_GroupIndex (hm_t mem)) := Some s])"

text \<open>The loop over the rebuilt members.\<close>

definition rebuilt_keys :: "Ref \<Rightarrow> FrameKey list" where
  "rebuilt_keys ref =
    (let t = f_Trailer (ref_Frame ref) in
     map (\<lambda>e. \<lparr> fk_Hash = m_HashPayload t, fk_Path = e_Path e, fk_FileVer = e_FileVer e,
                fk_Offset = (if m_BlockType t = BlockPacked then 0 else e_Offset e) \<rparr>) (entries_of (f_Entries (ref_Frame ref))))"

definition rebuilt_member :: "env \<Rightarrow> ArchiveHeader \<Rightarrow> u32 \<Rightarrow> nat \<Rightarrow> nat \<Rightarrow> u32 \<Rightarrow> bytes option list \<Rightarrow> nat \<Rightarrow> Ref option" where
  "rebuilt_member env h g k m q shards i =
    (case AppendFromRecoveryShard (e_stale env) [] (case shards ! i of None \<Rightarrow> [] | Some s \<Rightarrow> s) q of
       Inl _ \<Rightarrow> None
     | Inr fr \<Rightarrow>
       (case NewRef (e_H env) (e_isNormal env) fr h of
          Inl _ \<Rightarrow> None
        | Inr ref \<Rightarrow>
          (let t = f_Trailer (ref_Frame ref) in
           if m_GroupID t \<noteq> g \<or> unat (m_GroupIndex t) \<noteq> i \<or> m_GroupK t \<noteq> word_of_nat k \<or> m_GroupM t \<noteq> word_of_nat m then None
           else Some ref)))"

fun rebuild_loop :: "env \<Rightarrow> ArchiveHeader \<Rightarrow> u32 \<Rightarrow> nat \<Rightarrow> nat \<Rightarrow> u32 \<Rightarrow> bytes option list \<Rightarrow> FrameKey \<Rightarrow> (Ref \<Rightarrow> bool) \<Rightarrow> nat list \<Rightarrow>
    frameDir \<Rightarrow> Ref option \<Rightarrow> frameDir \<times> Ref option" where
  "rebuild_loop env h g k m q shards key accept [] d found = (d, found)"
| "rebuild_loop env h g k m q shards key accept (i # is) d found =
    (case rebuilt_member env h g k m q shards i of
       None \<Rightarrow> rebuild_loop env h g k m q shards key accept is d found
     | Some ref \<Rightarrow>
       rebuild_loop env h g k m q shards key accept is
         (d\<lparr> fd_rebuiltAs := (\<lambda>rk. if rk \<in> set (rebuilt_keys ref) then g else fd_rebuiltAs d rk) \<rparr>)
         (if found = None \<and> key \<in> set (rebuilt_keys ref) \<and> accept ref then Some ref else found))"

definition missing_data :: "nat \<Rightarrow> bytes option list \<Rightarrow> nat list" where
  "missing_data k shards = filter (\<lambda>i. shards ! i = None) [0..<k]"

text \<open>Buffers for the data shards that are missing.\<close>

definition with_buffers :: "env \<Rightarrow> u32 \<Rightarrow> nat \<Rightarrow> bytes option list \<Rightarrow> bytes option list" where
  "with_buffers env q k shards =
    map (\<lambda>i. if i < k \<and> shards ! i = None then Some (map (e_stale env) [0..<unat (ParityShardLen q)]) else shards ! i) [0..<length shards]"

definition rebuild_with :: "env \<Rightarrow> view \<Rightarrow> u32 \<Rightarrow> FrameKey \<Rightarrow> (Ref \<Rightarrow> bool) \<Rightarrow> Code \<Rightarrow> nat \<Rightarrow> nat \<Rightarrow> u32 \<Rightarrow> bytes option list \<Rightarrow> view \<times> Ref option" where
  "rebuild_with env v g key accept code k m q shards =
    (let ck = (h_ParityScheme (v_h v), k, m) in
     if missing_data k shards = [] \<or> length (filter (\<lambda>s. s \<noteq> None) shards) < k then (v, None)
     else case Reconstruct (e_sched env) (e_procs env) code (v_caches v ck) (with_buffers env q k shards) (map (\<lambda>s. s \<noteq> None) shards) of
       (cache, rebuilt, Some e) \<Rightarrow> (v\<lparr> v_caches := (v_caches v)(ck := cache) \<rparr>, None)
     | (cache, rebuilt, None) \<Rightarrow>
       (case rebuild_loop env (v_h v) g k m q rebuilt key accept (missing_data k shards) (v_dir v) None of
          (d, found) \<Rightarrow> (v\<lparr> v_caches := (v_caches v)(ck := cache), v_dir := d \<rparr>, found)))"

definition rebuildFrom :: "env \<Rightarrow> view \<Rightarrow> u32 \<Rightarrow> FrameKey \<Rightarrow> (Ref \<Rightarrow> bool) \<Rightarrow> view \<times> Ref option" where
  "rebuildFrom env v g key accept =
    (let ms = fd_groups (v_dir v) g in
     if \<not> groupUsable ms then (v, None)
     else let k = unat (m_GroupK (hm_t (ms ! 0))); m = unat (m_GroupM (hm_t (ms ! 0))); q = hm_quanta (ms ! 0) in
     case New (v_codes v) (h_ParityScheme (v_h v)) k m of
       (codes, Inl _) \<Rightarrow> (v\<lparr> v_codes := codes \<rparr>, None)
     | (codes, Inr code) \<Rightarrow>
       rebuild_with env (v\<lparr> v_codes := codes \<rparr>) g key accept code k m q
         (load_shards env (v\<lparr> v_codes := codes \<rparr>) g ms (replicate (k + m) None)))"

text \<open>\<open>recover\<close>: first an intact frame that hop-and-read found, then parity, group by group.\<close>

fun try_hopped :: "env \<Rightarrow> view \<Rightarrow> bytes \<Rightarrow> Version \<Rightarrow> Loc \<Rightarrow> (Ref \<Rightarrow> bool) \<Rightarrow> hopMember list \<Rightarrow> Ref option" where
  "try_hopped env v p ver l accept [] = None"
| "try_hopped env v p ver l accept (m # ms) =
    (if hm_blob m \<noteq> unat (loc_Blob l) \<or> \<not> member_matches m p (v_FileVer ver) l then try_hopped env v p ver l accept ms
     else case readMember env v (hm_blob m) (hm_off m) of
       None \<Rightarrow> try_hopped env v p ver l accept ms
     | Some ref \<Rightarrow> if accept ref then Some ref else try_hopped env v p ver l accept ms)"

definition add_group :: "u32 list \<Rightarrow> u32 \<Rightarrow> u32 list" where
  "add_group order g = (if g \<noteq> 0 \<and> g \<notin> set order then order @ [g] else order)"

definition group_order :: "env \<Rightarrow> frameDir \<Rightarrow> bytes \<Rightarrow> Version \<Rightarrow> Loc \<Rightarrow> FrameKey \<Rightarrow> u32 list" where
  "group_order env d p ver l key =
    (let tails = map (\<lambda>m. m_GroupID (hm_t m)) (filter (\<lambda>m. member_matches m p (v_FileVer ver) l) (fd_byHash d (loc_Hash l)));
         siblings = concat (map (\<lambda>x. map (\<lambda>m. m_GroupID (hm_t m)) (filter (\<lambda>m. member_holds m p (v_FileVer ver)) (fd_byHash d (loc_Hash x)))) (v_Loc ver));
         lacking = filter (\<lambda>g. let ms = fd_groups d g in length ms < unat (m_GroupK (hm_t (ms ! 0))) + unat (m_GroupM (hm_t (ms ! 0))))
           (e_range env (fd_ids d))
     in foldl add_group [] (tails @ [fd_rebuiltAs d key] @ siblings @ lacking))"

fun try_groups :: "env \<Rightarrow> view \<Rightarrow> FrameKey \<Rightarrow> (Ref \<Rightarrow> bool) \<Rightarrow> u32 list \<Rightarrow> view \<times> Ref option" where
  "try_groups env v key accept [] = (v, None)"
| "try_groups env v key accept (g # gs) =
    (case rebuildFrom env v g key accept of
       (v, Some ref) \<Rightarrow> (v, Some ref)
     | (v, None) \<Rightarrow> try_groups env v key accept gs)"

definition count_repair :: "(RepairStats \<Rightarrow> RepairStats) \<Rightarrow> view \<Rightarrow> view" where
  "count_repair f v = v\<lparr> v_dir := (v_dir v)\<lparr> fd_stats := f (fd_stats (v_dir v)) \<rparr> \<rparr>"

definition recover :: "env \<Rightarrow> view \<Rightarrow> bytes \<Rightarrow> Version \<Rightarrow> Loc \<Rightarrow> (Ref \<Rightarrow> bool) \<Rightarrow> view \<times> Ref option result" where
  "recover env v p ver l accept =
    (case refresh env v of
       (v, Some e) \<Rightarrow> (v, Inl e)
     | (v, None) \<Rightarrow>
       (case try_hopped env v p ver l accept (fd_byHash (v_dir v) (loc_Hash l)) of
          Some ref \<Rightarrow> (count_repair (\<lambda>s. s\<lparr> rs_Hopped := rs_Hopped s + 1 \<rparr>) v, Inr (Some ref))
        | None \<Rightarrow>
          if h_ParityScheme (v_h v) = ParityNone then (count_repair (\<lambda>s. s\<lparr> rs_Failed := rs_Failed s + 1 \<rparr>) v, Inr None)
          else let key = \<lparr> fk_Hash = loc_Hash l, fk_Path = p, fk_FileVer = v_FileVer ver, fk_Offset = loc_Offset l \<rparr> in
            (case try_groups env v key accept (group_order env (v_dir v) p ver l key) of
               (v, Some ref) \<Rightarrow> (count_repair (\<lambda>s. s\<lparr> rs_Rebuilt := rs_Rebuilt s + 1 \<rparr>) v, Inr (Some ref))
             | (v, None) \<Rightarrow> (count_repair (\<lambda>s. s\<lparr> rs_Failed := rs_Failed s + 1 \<rparr>) v, Inr None))))"

section \<open>Reading\<close>

definition mark_defective :: "view \<Rightarrow> nat \<Rightarrow> view" where
  "mark_defective v b = v\<lparr> v_blobs := (v_blobs v)[b := map_option (\<lambda>bv. bv\<lparr> bv_defective := True \<rparr>) (v_blobs v ! b)] \<rparr>"

definition fetch_repair :: "env \<Rightarrow> view \<Rightarrow> bytes \<Rightarrow> Version \<Rightarrow> Loc \<Rightarrow> view \<times> Ref result" where
  "fetch_repair env v p ver l =
    (case recover env v p ver l (accepts p ver l) of
       (v, Inl e) \<Rightarrow> (v, Inl e)
     | (v, Inr None) \<Rightarrow> (v, Inl errMissingData)
     | (v, Inr (Some ref)) \<Rightarrow> (v, Inr (slicePacked ref p (v_FileVer ver) l)))"

definition fetch :: "env \<Rightarrow> view \<Rightarrow> bytes \<Rightarrow> Version \<Rightarrow> Loc \<Rightarrow> view \<times> Ref result" where
  "fetch env v p ver l =
    (let b = unat (loc_Blob l) in
     if b \<ge> length (v_blobs v) then (v, Inl errMissingData)
     else case v_blobs v ! b of
       None \<Rightarrow> fetch_repair env v p ver l
     | Some bv \<Rightarrow>
       (case index_Find (e_H env) (e_isNormal env) (bv_rd bv) (bv_size bv) (v_h v) (bv_idx bv) (loc_Hash l) (Some (accepts p ver l)) of
          Inl e \<Rightarrow> (v, Inl e)
        | Inr (Some ref, how) \<Rightarrow> (if how = ViaScan then mark_defective v b else v, Inr (slicePacked ref p (v_FileVer ver) l))
        | Inr (None, _) \<Rightarrow> fetch_repair env (mark_defective v b) p ver l))"

text \<open>\<open>read\<close>: the extents in the order in which the workers take them; the first error ends it.\<close>

fun read_extents :: "env \<Rightarrow> view \<Rightarrow> bytes \<Rightarrow> Version \<Rightarrow> Loc list \<Rightarrow> bytes \<Rightarrow> view \<times> bytes result" where
  "read_extents env v p ver [] out = (v, Inr out)"
| "read_extents env v p ver (l # ls) out =
    (case fetch env v p ver l of
       (v, Inl e) \<Rightarrow> (v, Inl e)
     | (v, Inr ref) \<Rightarrow> read_extents env v p ver ls (copy_into out (unat (loc_Offset l)) (f_Payload (ref_Frame ref))))"

definition view_read :: "env \<Rightarrow> view \<Rightarrow> bytes \<Rightarrow> Version \<Rightarrow> view \<times> bytes result" where
  "view_read env v p ver = read_extents env v p ver (e_order env (v_Loc ver)) (replicate (unat (v_Length ver)) 0)"

subsection \<open>Objects\<close>

text \<open>The frame read last with its extent, and the prefetched next extent with what its fetch returned. The background fetch
  has the effect on the view that it has when it runs at once.\<close>

record Object =
  o_path :: bytes
  o_ver :: Version
  o_cur :: "(nat \<times> Ref) option"
  o_ahead :: "(nat \<times> Ref result) option"

definition new_object :: "bytes \<Rightarrow> Version \<Rightarrow> Object" where
  "new_object p ver = \<lparr> o_path = p, o_ver = ver, o_cur = None, o_ahead = None \<rparr>"

definition object_load :: "env \<Rightarrow> view \<Rightarrow> Object \<Rightarrow> nat \<Rightarrow> view \<times> Object \<times> Ref result" where
  "object_load env v obj i =
    (case (case o_ahead obj of
             Some (j, r) \<Rightarrow> if j = i then (v, r) else fetch env v (o_path obj) (o_ver obj) (v_Loc (o_ver obj) ! i)
           | None \<Rightarrow> fetch env v (o_path obj) (o_ver obj) (v_Loc (o_ver obj) ! i)) of
       (v, r) \<Rightarrow>
         (let obj = obj\<lparr> o_ahead := None \<rparr> in
          if \<not> isl r \<and> i + 1 < length (v_Loc (o_ver obj)) then
            (case fetch env v (o_path obj) (o_ver obj) (v_Loc (o_ver obj) ! (i + 1)) of
               (v, r1) \<Rightarrow> (v, obj\<lparr> o_ahead := Some (i + 1, r1) \<rparr>, r))
          else (v, obj, r)))"

text \<open>\<open>sort.Search\<close> for the first extent behind the position.\<close>

function extent_search :: "Loc list \<Rightarrow> u64 \<Rightarrow> nat \<Rightarrow> nat \<Rightarrow> nat" where
  "extent_search ls pos i j =
    (if i < j then let h = (i + j) div 2 in
       if \<not> loc_Offset (ls ! h) > pos then extent_search ls pos (h + 1) j else extent_search ls pos i h
     else i)"
  by pat_completeness auto
termination by (relation "measure (\<lambda>(_, _, i, j). j - i)") auto

declare extent_search.simps [simp del]

abbreviation (input) objEOF :: error where "objEOF \<equiv> Err ErrEOF ''archive'' ''read''"

text \<open>The loop of \<open>ReadAt\<close>; \<open>got\<close> are the bytes copied so far. It ends only if every pass copies something.\<close>

partial_function (option) read_at_loop :: "env \<Rightarrow> view \<Rightarrow> Object \<Rightarrow> nat \<Rightarrow> nat \<Rightarrow> bytes \<Rightarrow> (view \<times> Object \<times> bytes \<times> error option) option" where
  "read_at_loop env v obj len off got =
    (if length got < len then
       (let pos = word_of_nat off + word_of_nat (length got) :: u64 in
        if pos \<ge> v_Length (o_ver obj) then Some (v, obj, got, Some objEOF)
        else let i = extent_search (v_Loc (o_ver obj)) pos 0 (length (v_Loc (o_ver obj))) - 1; l = v_Loc (o_ver obj) ! i in
          (case (case o_cur obj of
                   Some (at, ref) \<Rightarrow> if at = i then (v, obj, Inr ref) else object_load env v (obj\<lparr> o_cur := None \<rparr>) i
                 | None \<Rightarrow> object_load env v obj i) of
             (v, obj, Inl e) \<Rightarrow> Some (v, obj, got, Some e)
           | (v, obj, Inr ref) \<Rightarrow>
               read_at_loop env v (obj\<lparr> o_cur := Some (i, ref) \<rparr>) len off
                 (got @ take (len - length got) (drop (unat (pos - loc_Offset l)) (f_Payload (ref_Frame ref))))))
     else Some (v, obj, got, None))"

definition object_ReadAt :: "env \<Rightarrow> view \<Rightarrow> Object \<Rightarrow> nat \<Rightarrow> int \<Rightarrow> (view \<times> Object \<times> bytes \<times> error option) option" where
  "object_ReadAt env v obj len off =
    (if off < 0 then Some (v, obj, [], Some (Err ErrInvalid ''archive'' ''offset''))
     else read_at_loop env v obj len (nat off) [])"

definition object_Close :: "Object \<Rightarrow> Object" where
  "object_Close obj = obj\<lparr> o_cur := None, o_ahead := None \<rparr>"

subsection \<open>Readers\<close>

record Reader =
  r_view :: view
  r_st :: State

definition errNotFound :: error where "errNotFound = Err ErrOther ''archive'' ''not found''"

definition reader_Stat :: "Reader \<Rightarrow> bytes \<Rightarrow> Version result" where
  "reader_Stat r p = (case Lookup (r_st r) p of None \<Rightarrow> Inl errNotFound | Some ver \<Rightarrow> Inr ver)"

definition reader_Get :: "env \<Rightarrow> Reader \<Rightarrow> bytes \<Rightarrow> Reader \<times> bytes result" where
  "reader_Get env r p =
    (case reader_Stat r p of
       Inl e \<Rightarrow> (r, Inl e)
     | Inr ver \<Rightarrow> (case view_read env (r_view r) p ver of (v, res) \<Rightarrow> (r\<lparr> r_view := v \<rparr>, res)))"

definition reader_Open :: "Reader \<Rightarrow> bytes \<Rightarrow> Object result" where
  "reader_Open r p = (case reader_Stat r p of Inl e \<Rightarrow> Inl e | Inr ver \<Rightarrow> Inr (new_object p ver))"

section \<open>What a reference holds\<close>

definition valid_ref :: "env \<Rightarrow> ArchiveHeader \<Rightarrow> Ref \<Rightarrow> bool" where
  "valid_ref env h ref \<longleftrightarrow> Parse (e_H env) (e_isNormal env) (ref_Bytes ref) h = Inr (ref_Frame ref)"

lemma ReadFrame_valid: "ReadFrame (e_H env) (e_isNormal env) rd sz h off = Inr ref \<Longrightarrow> valid_ref env h ref"
  by (auto simp: ReadFrame_def valid_ref_def split: sum.splits prod.splits option.splits)

lemma try_candidates_valid:
  "try_candidates (e_H env) (e_isNormal env) rd sz h hash (Some a) cs = Inr (Some ref) \<Longrightarrow> valid_ref env h ref \<and> a ref"
  by (induction cs) (auto simp: Let_def split: sum.splits if_splits dest: ReadFrame_valid)

lemma try_offsets_valid:
  "try_offsets (e_H env) (e_isNormal env) rd sz h (Some a) offs = Inr (Some ref) \<Longrightarrow> valid_ref env h ref \<and> a ref"
  by (induction offs) (auto split: sum.splits if_splits dest: ReadFrame_valid)

lemma index_Find_valid:
  "index_Find (e_H env) (e_isNormal env) rd sz h x hash (Some a) = Inr (Some ref, how) \<Longrightarrow> valid_ref env h ref \<and> a ref"
  by (auto simp: index_Find_def split: sum.splits option.splits prod.splits dest: try_candidates_valid try_offsets_valid)

lemma readMember_valid: "readMember env v b off = Some ref \<Longrightarrow> valid_ref env (v_h v) ref"
  by (auto simp: readMember_def split: if_splits option.splits sum.splits dest: ReadFrame_valid)

lemma try_hopped_valid: "try_hopped env v p ver l accept ms = Some ref \<Longrightarrow> valid_ref env (v_h v) ref \<and> accept ref"
  by (induction ms) (auto split: if_splits option.splits dest: readMember_valid)

lemma rebuilt_member_valid: "rebuilt_member env h g k m q shards i = Some ref \<Longrightarrow> valid_ref env h ref"
  by (auto simp: rebuilt_member_def NewRef_def valid_ref_def Let_def split: sum.splits if_splits)

lemma rebuild_loop_valid:
  "rebuild_loop env h g k m q shards key accept is d found = (d', Some ref) \<Longrightarrow>
   (\<And>r. found = Some r \<Longrightarrow> valid_ref env h r \<and> accept r) \<Longrightarrow> valid_ref env h ref \<and> accept ref"
proof (induction "is" arbitrary: d found)
  case (Cons i "is")
  show ?case
  proof (cases "rebuilt_member env h g k m q shards i")
    case None
    then show ?thesis using Cons by simp
  next
    case (Some r)
    then show ?thesis using Cons.prems Cons.IH[OF _ ] rebuilt_member_valid[OF Some] by (auto split: if_splits)
  qed
qed simp

text \<open>The operations keep the header and the blobs of a view.\<close>

definition same_files :: "view \<Rightarrow> view \<Rightarrow> bool" where
  "same_files v v' \<longleftrightarrow> v_h v' = v_h v \<and> map (map_option (\<lambda>bv. (bv_rd bv, bv_size bv, bv_idx bv))) (v_blobs v') =
     map (map_option (\<lambda>bv. (bv_rd bv, bv_size bv, bv_idx bv))) (v_blobs v)"

lemma same_files_refl [simp]: "same_files v v"
  by (simp add: same_files_def)

lemma same_files_trans: "same_files a b \<Longrightarrow> same_files b c \<Longrightarrow> same_files a c"
  by (simp add: same_files_def)

lemma same_files_updates [simp]:
  "same_files v (w\<lparr> v_dir := d \<rparr>) = same_files v w" "same_files v (w\<lparr> v_codes := cs \<rparr>) = same_files v w"
  "same_files v (w\<lparr> v_caches := ic \<rparr>) = same_files v w" "same_files v (count_repair f w) = same_files v w"
  by (simp_all add: same_files_def count_repair_def)

lemma same_files_mark [simp]: "same_files v (mark_defective v b)"
proof -
  let ?f = "map_option (\<lambda>bv. (bv_rd bv, bv_size bv, bv_idx bv))"
  have eq: "?f (map_option (\<lambda>bv. bv\<lparr> bv_defective := True \<rparr>) x) = ?f x" for x by (cases x) simp_all
  have "map ?f ((v_blobs v)[b := map_option (\<lambda>bv. bv\<lparr> bv_defective := True \<rparr>) (v_blobs v ! b)]) = map ?f (v_blobs v)"
    unfolding map_update eq by (metis list_update_beyond list_update_id map_update not_less)
  then show ?thesis by (simp only: same_files_def mark_defective_def view.simps) simp
qed

lemma rebuild_with_valid:
  assumes "rebuild_with env v g key accept code k m q shards = (v', found)"
  shows "same_files v v'" "found = Some ref \<Longrightarrow> valid_ref env (v_h v) ref \<and> accept ref"
proof -
  let ?ck = "(h_ParityScheme (v_h v), k, m)"
  obtain cache sh err where r: "Reconstruct (e_sched env) (e_procs env) code (v_caches v ?ck) (with_buffers env q k shards) (map (\<lambda>s. s \<noteq> None) shards) =
    (cache, sh, err)" by (rule prod_cases3)
  obtain d f where l: "rebuild_loop env (v_h v) g k m q sh key accept (missing_data k shards) (v_dir v) None = (d, f)" by (rule prod.exhaust)
  have "(v', found) = (if missing_data k shards = [] \<or> length (filter (\<lambda>s. s \<noteq> None) shards) < k then (v, None)
      else case err of Some e \<Rightarrow> (v\<lparr> v_caches := (v_caches v)(?ck := cache) \<rparr>, None)
        | None \<Rightarrow> (v\<lparr> v_caches := (v_caches v)(?ck := cache), v_dir := d \<rparr>, f))"
    unfolding assms[symmetric] rebuild_with_def Let_def r prod.case l by (cases err) simp_all
  then show "same_files v v'" "found = Some ref \<Longrightarrow> valid_ref env (v_h v) ref \<and> accept ref"
    using l by (auto split: if_splits option.splits dest: rebuild_loop_valid)
qed

lemma rebuildFrom_valid:
  assumes "rebuildFrom env v g key accept = (v', found)"
  shows "same_files v v'" "found = Some ref \<Longrightarrow> valid_ref env (v_h v) ref \<and> accept ref"
proof -
  let ?ms = "fd_groups (v_dir v) g"
  let ?k = "unat (m_GroupK (hm_t (?ms ! 0)))" and ?m = "unat (m_GroupM (hm_t (?ms ! 0)))"
  obtain codes cr where n: "New (v_codes v) (h_ParityScheme (v_h v)) ?k ?m = (codes, cr)" by (rule prod.exhaust)
  have "same_files v v' \<and> (found = Some ref \<longrightarrow> valid_ref env (v_h v) ref \<and> accept ref)"
  proof (cases "groupUsable ?ms \<and> \<not> isl cr")
    case False
    then show ?thesis using assms n by (cases cr) (auto simp: rebuildFrom_def Let_def split: if_splits)
  next
    case True
    then obtain code where c: "cr = Inr code" by (cases cr) auto
    have "rebuild_with env (v\<lparr> v_codes := codes \<rparr>) g key accept code ?k ?m (hm_quanta (?ms ! 0))
       (load_shards env (v\<lparr> v_codes := codes \<rparr>) g ?ms (replicate (?k + ?m) None)) = (v', found)"
      using assms True n c by (simp add: rebuildFrom_def Let_def)
    from rebuild_with_valid[OF this] show ?thesis by (simp add: same_files_def)
  qed
  then show "same_files v v'" "found = Some ref \<Longrightarrow> valid_ref env (v_h v) ref \<and> accept ref" by blast+
qed

lemma try_groups_valid:
  "try_groups env v key accept gs = (v', found) \<Longrightarrow>
   same_files v v' \<and> (\<forall>ref. found = Some ref \<longrightarrow> valid_ref env (v_h v) ref \<and> accept ref)"
proof (induction gs arbitrary: v)
  case (Cons g gs)
  obtain v1 r where a: "rebuildFrom env v g key accept = (v1, r)" by (rule prod.exhaust)
  note b = rebuildFrom_valid[OF a]
  show ?case
  proof (cases r)
    case None
    then have c: "try_groups env v1 key accept gs = (v', found)" using Cons.prems a by simp
    show ?thesis using Cons.IH[OF c] b(1) same_files_trans by (auto simp: same_files_def)
  qed (use Cons.prems a b in auto)
qed simp

lemma refresh_same: "refresh env v = (v', e) \<Longrightarrow> same_files v v'"
  by (auto simp: refresh_def split: prod.splits)

lemma recover_valid:
  assumes "recover env v p ver l accept = (v', res)"
  shows "same_files v v'" "res = Inr (Some ref) \<Longrightarrow> valid_ref env (v_h v) ref \<and> accept ref"
proof -
  obtain v1 e where r: "refresh env v = (v1, e)" by (rule prod.exhaust)
  note s = refresh_same[OF r]
  then have h: "v_h v1 = v_h v" by (simp add: same_files_def)
  let ?key = "\<lparr> fk_Hash = loc_Hash l, fk_Path = p, fk_FileVer = v_FileVer ver, fk_Offset = loc_Offset l \<rparr>"
  obtain v2 f where g: "try_groups env v1 ?key accept (group_order env (v_dir v1) p ver l ?key) = (v2, f)" by (rule prod.exhaust)
  note gv = try_groups_valid[OF g]
  have st: "same_files v v2" using gv s same_files_trans by blast
  show "same_files v v'"
    using assms r g s st by (auto simp: recover_def Let_def split: option.splits if_splits)
  show "valid_ref env (v_h v) ref \<and> accept ref" if "res = Inr (Some ref)"
    using assms r g gv h that try_hopped_valid[of env v1 p ver l accept]
    by (auto simp: recover_def Let_def split: option.splits if_splits)
qed

lemma fetch_valid:
  assumes "fetch env v p ver l = (v', res)"
  shows "same_files v v'"
    "res = Inr ref \<Longrightarrow> \<exists>r. valid_ref env (v_h v) r \<and> accepts p ver l r \<and> ref = slicePacked r p (v_FileVer ver) l"
proof -
  have rep: "same_files w v' \<and> (res = Inr ref \<longrightarrow> (\<exists>r. valid_ref env (v_h w) r \<and> accepts p ver l r \<and> ref = slicePacked r p (v_FileVer ver) l))"
    if f: "fetch_repair env w p ver l = (v', res)" for w
  proof -
    obtain v1 r where r: "recover env w p ver l (accepts p ver l) = (v1, r)" by (rule prod.exhaust)
    show ?thesis using f r recover_valid[OF r] by (auto simp: fetch_repair_def split: sum.splits option.splits)
  qed
  have mh: "v_h (mark_defective v b) = v_h v" for b by (simp add: mark_defective_def)
  have "same_files v v' \<and> (res = Inr ref \<longrightarrow> (\<exists>r. valid_ref env (v_h v) r \<and> accepts p ver l r \<and> ref = slicePacked r p (v_FileVer ver) l))"
  proof (cases "unat (loc_Blob l) < length (v_blobs v)")
    case False
    then show ?thesis using assms by (auto simp: fetch_def Let_def)
  next
    case True
    show ?thesis
    proof (cases "v_blobs v ! unat (loc_Blob l)")
      case None
      then show ?thesis using assms True rep by (auto simp: fetch_def Let_def)
    next
      case (Some bv)
      let ?f = "index_Find (e_H env) (e_isNormal env) (bv_rd bv) (bv_size bv) (v_h v) (bv_idx bv) (loc_Hash l) (Some (accepts p ver l))"
      show ?thesis
      proof (cases ?f)
        case (Inl e)
        then show ?thesis using assms True Some by (auto simp: fetch_def Let_def)
      next
        case (Inr fh)
        obtain r how where fh: "fh = (r, how)" by (rule prod.exhaust)
        show ?thesis
        proof (cases r)
          case None
          then have "fetch_repair env (mark_defective v (unat (loc_Blob l))) p ver l = (v', res)" using assms True Some Inr fh by (simp add: fetch_def Let_def)
          from rep[OF this] show ?thesis using same_files_mark same_files_trans mh by metis
        next
          case (Some ref1)
          then show ?thesis
            using assms True \<open>v_blobs v ! _ = Some bv\<close> Inr fh index_Find_valid[of env "bv_rd bv" "bv_size bv" "v_h v" "bv_idx bv" "loc_Hash l" "accepts p ver l" ref1 how]
            by (auto simp: fetch_def Let_def)
        qed
      qed
    qed
  qed
  then show "same_files v v'"
    "res = Inr ref \<Longrightarrow> \<exists>r. valid_ref env (v_h v) r \<and> accepts p ver l r \<and> ref = slicePacked r p (v_FileVer ver) l" by blast+
qed

section \<open>The bytes of an extent\<close>

text \<open>
  \<open>bs\<close> are the bytes of extent \<open>l\<close> of version \<open>fileVer\<close> of \<open>p\<close>: they lie in the payload of a completely valid frame, whose
  digest is the one the manifest records, under an entry of this path, version and length.
\<close>

definition extent_bytes :: "env \<Rightarrow> ArchiveHeader \<Rightarrow> bytes \<Rightarrow> u64 \<Rightarrow> Loc \<Rightarrow> bytes \<Rightarrow> bool" where
  "extent_bytes env h p fileVer l bs \<longleftrightarrow>
    (\<exists>frame f e. Parse (e_H env) (e_isNormal env) frame h = Inr f \<and> Hash (e_H env) (h_HashID h) (f_Payload f) = Inr (loc_Hash l) \<and>
       e \<in> set (entries_of (f_Entries f)) \<and> e_Path e = p \<and> e_FileVer e = fileVer \<and> e_Length e = loc_Length l \<and> length bs = unat (loc_Length l) \<and>
       (m_BlockType (f_Trailer f) = BlockData \<and> e_Offset e = loc_Offset l \<and> bs = f_Payload f \<or>
        m_BlockType (f_Trailer f) = BlockPacked \<and> loc_Offset l = 0 \<and>
          bs = seg (f_Payload f) (unat (e_Offset e)) (unat (e_Offset e) + unat (e_Length e))))"

lemma Parse_payload_length:
  assumes "Parse H isNormal frame h = Inr f"
  shows "length (f_Payload f) = unat (m_DataLen (f_Trailer f))"
proof -
  obtain lay where l: "word_of_nat (length frame) = FrameSize (p_FrameQuanta (f_Prefix f))"
    "ComputeLayout (p_FrameQuanta (f_Prefix f)) (ucast (m_DataLen (f_Trailer f))) (word_of_nat (length (f_PreTrailer f))) = Inr lay"
    "f_Payload f = seg frame (unat (l_PayloadStart lay)) (unat (l_PayloadEnd lay))" using Parse_facts[OF assms] by metis
  note P = ComputeLayout_partition[OF l(2)]
  have "unat (FrameSize (p_FrameQuanta (f_Prefix f))) \<le> length frame"
    unfolding l(1)[symmetric] by (simp add: unat_of_nat)
  then have "unat (l_PayloadEnd lay) \<le> length frame" using P by simp
  then show ?thesis using l(3) P by simp
qed

lemma checkPacked_loop_entries:
  "checkPacked_loop prev a es = Inr n \<Longrightarrow> unat a \<le> unat n \<and> (\<forall>e \<in> set es. unat (e_Offset e) + unat (e_Length e) \<le> unat n)"
proof (induction es arbitrary: prev a)
  case (Cons x xs)
  obtain b where b: "Add64 a (e_Length x) = Inr b" "checkPacked_loop (Some (e_Path x)) b xs = Inr n" "e_Offset x = a"
    using Cons.prems(1) by (auto split: if_splits sum.splits)
  have "unat b = unat a + unat (e_Length x)" using b(1) by (simp add: Add64_Inr)
  then show ?case using Cons.IH[OF b(2)] b(3) by auto
qed simp

lemma parsed_entries:
  assumes "Parse H isNormal frame h = Inr f" "e \<in> set (entries_of (f_Entries f))" "m_CodecID (f_Trailer f) = CodecStore"
  shows "m_BlockType (f_Trailer f) = BlockData \<Longrightarrow> length (f_Payload f) = unat (e_Length e)"
    "m_BlockType (f_Trailer f) = BlockPacked \<Longrightarrow> unat (e_Offset e) + unat (e_Length e) \<le> length (f_Payload f)"
proof -
  obtain es where es: "f_Entries f = Some es" "e \<in> set es" using assms(2) by (cases "f_Entries f") (auto simp: entries_of_def)
  from Parse_facts[OF assms(1)] have P: "ValidateTrailer (f_Trailer f) h (f_Prefix f) = Inr ()"
    "Encrypted h \<and> m_BlockType (f_Trailer f) \<noteq> BlockParity \<longleftrightarrow> f_Entries f = None"
    "checkEntriesParsed (H) h (f_Trailer f) es = Inr (f_PackedLength f)" using es by metis+
  note len = Parse_payload_length[OF assms(1)]
  show "length (f_Payload f) = unat (e_Length e)" if b: "m_BlockType (f_Trailer f) = BlockData"
  proof -
    have "validateBlock (f_Trailer f) h = Inr ()" using P(1) by (auto simp: ValidateTrailer_def Let_def split: if_splits sum.splits)
    then have "ucast (m_DataLen (f_Trailer f)) = m_LogicalLength (f_Trailer f)"
      using b assms(3) P(2) es(1) by (auto simp: validateBlock_def split: if_splits)
    moreover have "length es = 1" "e_Length (hd es) = m_LogicalLength (f_Trailer f)"
      using P(3) b by (auto simp: checkEntriesParsed_def Let_def split: if_splits)
    moreover have "es = [e]" using \<open>length es = 1\<close> es(2) by (cases es) auto
    ultimately show ?thesis using len by (metis list.sel(1) unat_ucast_u32_u64)
  qed
  show "unat (e_Offset e) + unat (e_Length e) \<le> length (f_Payload f)" if b: "m_BlockType (f_Trailer f) = BlockPacked"
  proof -
    obtain n where n: "checkPacked es (MaxFrameSize h) = Inr n" "ucast (m_DataLen (f_Trailer f)) = n"
      using P(3) b assms(3) by (auto simp: checkEntriesParsed_def split: if_splits sum.splits)
    have "checkPacked_loop None 0 es = Inr n" using n(1) by (auto simp: checkPacked_def split: if_splits sum.splits)
    then show ?thesis using checkPacked_loop_entries es(2) len n(2) unat_ucast_u32_u64[of "m_DataLen (f_Trailer f)"] by metis
  qed
qed

lemma accepted_extent:
  assumes "valid_ref env h r" "accepts p ver l r"
  shows "extent_bytes env h p (v_FileVer ver) l (f_Payload (ref_Frame (slicePacked r p (v_FileVer ver) l)))"
proof -
  let ?f = "ref_Frame r" and ?es = "entries_of (f_Entries (ref_Frame r))"
  have P: "Parse (e_H env) (e_isNormal env) (ref_Bytes r) h = Inr ?f" using assms(1) by (simp add: valid_ref_def)
  have hash: "Hash (e_H env) (h_HashID h) (f_Payload ?f) = Inr (loc_Hash l)" and st: "m_CodecID (f_Trailer ?f) = CodecStore"
    using Parse_facts[OF P] assms(2) by (metis accepts_def)+
  obtain e where e: "packedEntry r p (v_FileVer ver) l = Some (e, True)"
    using assms(2) by (auto simp: accepts_def split: option.splits)
  show ?thesis
  proof (cases "m_BlockType (f_Trailer ?f) = BlockData")
    case True
    then have "length ?es = 1" "e = ?es ! 0" "e_Path e = p" "e_FileVer e = v_FileVer ver" "e_Offset e = loc_Offset l" "e_Length e = loc_Length l"
      using e by (auto simp: packedEntry_def Let_def split: if_splits)
    moreover have m: "e \<in> set ?es" using calculation by (metis One_nat_def lessI nth_mem)
    moreover have "slicePacked r p (v_FileVer ver) l = r" using True by (simp add: slicePacked_def)
    ultimately show ?thesis unfolding extent_bytes_def
      using P hash True parsed_entries(1)[OF P m st True] by (intro exI[of _ "ref_Bytes r"] exI[of _ ?f] exI[of _ e]) simp
  next
    case False
    then have B: "m_BlockType (f_Trailer ?f) = BlockPacked" and o: "loc_Offset l = 0" and
      x: "e_Path e = p" "e_FileVer e = v_FileVer ver" "e_Length e = loc_Length l" and m: "e \<in> set ?es"
      using e by (auto simp: packedEntry_def Let_def split: if_splits) (metis nth_mem)
    note le = parsed_entries(2)[OF P m st B]
    have "length (f_Payload ?f) < 2 ^ 64" using Parse_payload_length[OF P] unat_u32_lt[of "m_DataLen (f_Trailer ?f)"] by simp
    then have "unat (e_Offset e + e_Length e) = unat (e_Offset e) + unat (e_Length e)" using le by (simp add: unat_add_u64)
    then have "f_Payload (ref_Frame (slicePacked r p (v_FileVer ver) l)) = seg (f_Payload ?f) (unat (e_Offset e)) (unat (e_Offset e) + unat (e_Length e))"
      using B e by (simp add: slicePacked_def)
    then show ?thesis unfolding extent_bytes_def
      using P hash B o x m le by (intro exI[of _ "ref_Bytes r"] exI[of _ ?f] exI[of _ e]) simp
  qed
qed

lemma fetch_extent:
  assumes "fetch env v p ver l = (v', Inr ref)"
  shows "extent_bytes env (v_h v) p (v_FileVer ver) l (f_Payload (ref_Frame ref))"
  using fetch_valid(2)[OF assms refl] accepted_extent by metis

section \<open>Reading a version\<close>

abbreviation loc_lo :: "Loc \<Rightarrow> nat" where "loc_lo l \<equiv> unat (loc_Offset l)"
abbreviation loc_hi :: "Loc \<Rightarrow> nat" where "loc_hi l \<equiv> unat (loc_Offset l) + unat (loc_Length l)"

lemma contiguous_bounds: "contiguous a ls \<Longrightarrow> l \<in> set ls \<Longrightarrow> a \<le> loc_lo l \<and> loc_hi l \<le> a + total ls"
proof (induction ls arbitrary: a)
  case (Cons x xs)
  show ?case using Cons.prems Cons.IH[of "a + unat (loc_Length x)"] by (auto simp: total_def)
qed simp

lemma contiguous_disjoint: "contiguous a ls \<Longrightarrow> l \<in> set ls \<Longrightarrow> l' \<in> set ls \<Longrightarrow> l \<noteq> l' \<Longrightarrow> loc_hi l \<le> loc_lo l' \<or> loc_hi l' \<le> loc_lo l"
proof (induction ls arbitrary: a)
  case (Cons x xs)
  show ?case
    using Cons.prems Cons.IH[of "a + unat (loc_Length x)"] contiguous_bounds[of "a + unat (loc_Length x)" xs l]
      contiguous_bounds[of "a + unat (loc_Length x)" xs l'] by auto
qed simp

lemma ok_version_extents:
  assumes "ok_version h ver"
  shows "contiguous 0 (v_Loc ver)" "total (v_Loc ver) = unat (v_Length ver)"
  using assms by (auto simp: ok_version_def checkLocs_loop_Some total_def)

lemma copy_into_range:
  assumes "off + length src \<le> length s"
  shows "length (copy_into s off src) = length s" "seg (copy_into s off src) off (off + length src) = src"
    "hi \<le> off \<or> off + length src \<le> lo \<Longrightarrow> seg (copy_into s off src) lo hi = seg s lo hi"
  using assms by (auto simp: copy_into_def seg_put_same seg_put_before seg_put_after)

lemma read_extents_ok:
  "read_extents env v p ver ls out = (v', Inr out') \<Longrightarrow> \<forall>l \<in> set ls. loc_hi l \<le> length out \<Longrightarrow>
   \<forall>l \<in> set ls. \<forall>l' \<in> set ls. l \<noteq> l' \<longrightarrow> loc_hi l \<le> loc_lo l' \<or> loc_hi l' \<le> loc_lo l \<Longrightarrow>
   same_files v v' \<and> length out' = length out \<and>
   (\<forall>l \<in> set ls. extent_bytes env (v_h v) p (v_FileVer ver) l (seg out' (loc_lo l) (loc_hi l))) \<and>
   (\<forall>lo hi. (\<forall>l \<in> set ls. hi \<le> loc_lo l \<or> loc_hi l \<le> lo) \<longrightarrow> seg out' lo hi = seg out lo hi)"
proof (induction ls arbitrary: v out)
  case (Cons l ls)
  obtain v1 r where f: "fetch env v p ver l = (v1, r)" by (rule prod.exhaust)
  obtain ref where r: "r = Inr ref" using Cons.prems(1) f by (cases r) auto
  let ?src = "f_Payload (ref_Frame ref)" and ?o = "copy_into out (loc_lo l) (f_Payload (ref_Frame ref))"
  have e: "extent_bytes env (v_h v) p (v_FileVer ver) l ?src" using fetch_extent f r by blast
  have len: "length ?src = unat (loc_Length l)" using e by (auto simp: extent_bytes_def)
  have sf: "same_files v v1" using fetch_valid(1)[OF f] .
  have fits: "loc_lo l + length ?src \<le> length out" using Cons.prems(2) len by simp
  note c = copy_into_range[OF fits]
  have rec: "read_extents env v1 p ver ls ?o = (v', Inr out')" using Cons.prems(1) f r by simp
  have ih: "same_files v1 v'" "length out' = length out"
    "\<forall>l \<in> set ls. extent_bytes env (v_h v) p (v_FileVer ver) l (seg out' (loc_lo l) (loc_hi l))"
    "\<And>lo hi. \<forall>l \<in> set ls. hi \<le> loc_lo l \<or> loc_hi l \<le> lo \<Longrightarrow> seg out' lo hi = seg ?o lo hi"
    using Cons.IH[OF rec] Cons.prems(2,3) c(1) sf by (auto simp: same_files_def)
  have "extent_bytes env (v_h v) p (v_FileVer ver) l (seg out' (loc_lo l) (loc_hi l))"
  proof (cases "l \<in> set ls")
    case False
    then have "\<forall>l' \<in> set ls. loc_hi l \<le> loc_lo l' \<or> loc_hi l' \<le> loc_lo l" using Cons.prems(3) by (metis list.set_intros(1) list.set_intros(2))
    then have "seg out' (loc_lo l) (loc_hi l) = ?src" using ih(4)[of "loc_hi l" "loc_lo l"] c(2) len by simp
    then show ?thesis using e by simp
  qed (use ih(3) in blast)
  moreover have "seg out' lo hi = seg out lo hi" if "\<forall>l \<in> set (l # ls). hi \<le> loc_lo l \<or> loc_hi l \<le> lo" for lo hi
    using ih(4)[of hi lo] c(3)[of hi lo] that len by auto
  ultimately show ?case using ih(2,3) same_files_trans[OF sf ih(1)] by auto
qed simp

lemma view_read_ok:
  assumes "view_read env v p ver = (v', Inr out)" "ok_version h ver" "\<And>ls. set (e_order env ls) = set ls"
  shows "length out = unat (v_Length ver)"
    "\<And>l. l \<in> set (v_Loc ver) \<Longrightarrow> extent_bytes env (v_h v) p (v_FileVer ver) l (seg out (loc_lo l) (loc_hi l))"
proof -
  note x = ok_version_extents[OF assms(2)]
  have "\<forall>l \<in> set (e_order env (v_Loc ver)). loc_hi l \<le> length (replicate (unat (v_Length ver)) (0 :: byte))"
    using contiguous_bounds[OF x(1)] x(2) assms(3) by auto
  moreover have "\<forall>l \<in> set (e_order env (v_Loc ver)). \<forall>l' \<in> set (e_order env (v_Loc ver)). l \<noteq> l' \<longrightarrow> loc_hi l \<le> loc_lo l' \<or> loc_hi l' \<le> loc_lo l"
    using contiguous_disjoint[OF x(1)] assms(3) by auto
  ultimately have "same_files v v' \<and> length out = length (replicate (unat (v_Length ver)) (0 :: byte)) \<and>
      (\<forall>l \<in> set (e_order env (v_Loc ver)). extent_bytes env (v_h v) p (v_FileVer ver) l (seg out (loc_lo l) (loc_hi l)))"
    using read_extents_ok assms(1) unfolding view_read_def by blast
  then show "length out = unat (v_Length ver)"
    "\<And>l. l \<in> set (v_Loc ver) \<Longrightarrow> extent_bytes env (v_h v) p (v_FileVer ver) l (seg out (loc_lo l) (loc_hi l))" using assms(3) by auto
qed

section \<open>Lazy reading\<close>

definition obj_ok :: "env \<Rightarrow> ArchiveHeader \<Rightarrow> Object \<Rightarrow> bool" where
  "obj_ok env h obj \<longleftrightarrow>
    (\<forall>i ref. o_cur obj = Some (i, ref) \<or> o_ahead obj = Some (i, Inr ref) \<longrightarrow> i < length (v_Loc (o_ver obj)) \<and>
       extent_bytes env h (o_path obj) (v_FileVer (o_ver obj)) (v_Loc (o_ver obj) ! i) (f_Payload (ref_Frame ref)))"

lemma obj_ok_new [simp]: "obj_ok env h (new_object p ver)"
  by (simp add: obj_ok_def new_object_def)

lemma object_load_ok:
  assumes l: "object_load env v obj i = (v', obj', r)" and o: "obj_ok env (v_h v) obj" and i: "i < length (v_Loc (o_ver obj))"
  shows "same_files v v' \<and> obj_ok env (v_h v) obj' \<and> o_path obj' = o_path obj \<and> o_ver obj' = o_ver obj \<and> o_cur obj' = o_cur obj \<and>
    (\<forall>ref. r = Inr ref \<longrightarrow> extent_bytes env (v_h v) (o_path obj) (v_FileVer (o_ver obj)) (v_Loc (o_ver obj) ! i) (f_Payload (ref_Frame ref)))"
proof -
  let ?fetch = "\<lambda>v i. fetch env v (o_path obj) (o_ver obj) (v_Loc (o_ver obj) ! i)"
  let ?ext = "\<lambda>i ref. extent_bytes env (v_h v) (o_path obj) (v_FileVer (o_ver obj)) (v_Loc (o_ver obj) ! i) (f_Payload (ref_Frame ref))"
  obtain v1 r1 where c: "(case o_ahead obj of Some (j, r) \<Rightarrow> if j = i then (v, r) else ?fetch v i | None \<Rightarrow> ?fetch v i) = (v1, r1)"
    by (rule prod.exhaust)
  have v1: "same_files v v1 \<and> (\<forall>ref. r1 = Inr ref \<longrightarrow> ?ext i ref)"
  proof (cases "\<exists>r. o_ahead obj = Some (i, r)")
    case True
    then have "v1 = v" "o_ahead obj = Some (i, r1)" using c by auto
    then show ?thesis using o by (auto simp: obj_ok_def)
  next
    case False
    then have "?fetch v i = (v1, r1)" using c by (auto split: option.splits prod.splits if_splits)
    then show ?thesis using fetch_valid(1) fetch_extent by metis
  qed
  obtain v2 r2 where d: "?fetch v1 (i + 1) = (v2, r2)" by (rule prod.exhaust)
  have v2: "same_files v v2" "\<And>ref. r2 = Inr ref \<Longrightarrow> ?ext (i + 1) ref"
    using fetch_valid(1)[OF d] fetch_extent[of env v1 _ _ _ v2] d v1 same_files_trans by (auto simp: same_files_def)
  have "(v', obj', r) = (if \<not> isl r1 \<and> i + 1 < length (v_Loc (o_ver obj)) then (v2, obj\<lparr> o_ahead := Some (i + 1, r2) \<rparr>, r1)
      else (v1, obj\<lparr> o_ahead := None \<rparr>, r1))"
    using l c d by (auto simp: object_load_def Let_def split: if_splits)
  then show ?thesis using v1 v2 o i by (auto simp: obj_ok_def split: if_splits)
qed

lemma extent_search_ok:
  assumes "i \<le> j" "j \<le> length ls" "\<forall>a < i. loc_Offset (ls ! a) \<le> pos" "\<forall>a < length ls. j \<le> a \<longrightarrow> loc_Offset (ls ! a) > pos"
    "\<forall>a b. a < b \<longrightarrow> b < length ls \<longrightarrow> loc_Offset (ls ! a) \<le> loc_Offset (ls ! b)"
  shows "extent_search ls pos i j \<le> length ls \<and> (\<forall>a < extent_search ls pos i j. loc_Offset (ls ! a) \<le> pos) \<and>
    (\<forall>a < length ls. extent_search ls pos i j \<le> a \<longrightarrow> loc_Offset (ls ! a) > pos)"
  using assms
proof (induction ls pos i j rule: extent_search.induct)
  case (1 ls pos i j)
  show ?case
  proof (cases "i < j")
    case False
    then show ?thesis using "1.prems" by (simp add: extent_search.simps)
  next
    case True
    let ?h = "(i + j) div 2"
    have h: "?h < j" "i \<le> ?h" using True by auto
    show ?thesis
    proof (cases "loc_Offset (ls ! ?h) > pos")
      case gt: True
      have eq: "extent_search ls pos i j = extent_search ls pos i ?h" using True gt by (subst extent_search.simps) (simp add: Let_def)
      have up: "loc_Offset (ls ! a) > pos" if "a < length ls" "?h \<le> a" for a
      proof -
        have "loc_Offset (ls ! ?h) \<le> loc_Offset (ls ! a)"
          using that "1.prems"(5)[rule_format, of ?h a] by (cases "a = ?h") simp_all
        then show ?thesis using gt by (rule less_le_trans[rotated])
      qed
      show ?thesis unfolding eq
        by (rule "1.IH"(2)[OF True refl _ _ _ _ _ "1.prems"(5)]) (use gt "1.prems"(2,3) h up in auto)
    next
      case le: False
      have eq: "extent_search ls pos i j = extent_search ls pos (?h + 1) j" using True le by (subst extent_search.simps) (simp add: Let_def)
      have down: "loc_Offset (ls ! a) \<le> pos" if "a < ?h + 1" for a
      proof -
        have "loc_Offset (ls ! a) \<le> loc_Offset (ls ! ?h)"
          using that "1.prems"(5)[rule_format, of a ?h] "1.prems"(2) h(1) by (cases "a = ?h") simp_all
        then show ?thesis using le by (meson not_less order.trans)
      qed
      show ?thesis unfolding eq
        by (rule "1.IH"(1)[OF True refl _ _ _ _ _ "1.prems"(5)]) (use le "1.prems"(2,4) h down in auto)
    qed
  qed
qed

lemma contiguous_mono: "contiguous a ls \<Longrightarrow> i < j \<Longrightarrow> j < length ls \<Longrightarrow> loc_hi (ls ! i) \<le> loc_lo (ls ! j)"
proof (induction ls arbitrary: a i j)
  case (Cons x xs)
  obtain j' where j: "j = Suc j'" using Cons.prems(2) by (cases j) auto
  show ?case
  proof (cases i)
    case 0
    then show ?thesis using Cons.prems j contiguous_lower[of "a + unat (loc_Length x)" xs j'] by auto
  next
    case (Suc i')
    then show ?thesis using Cons.prems j Cons.IH[of "a + unat (loc_Length x)" i' j'] by auto
  qed
qed simp

lemma contiguous_last: "contiguous a ls \<Longrightarrow> ls \<noteq> [] \<Longrightarrow> loc_hi (last ls) = a + total ls"
proof (induction ls arbitrary: a)
  case (Cons x xs)
  then show ?case by (cases "xs = []") (auto simp: total_def)
qed simp

lemma contiguous_next: "contiguous a ls \<Longrightarrow> Suc i < length ls \<Longrightarrow> loc_hi (ls ! i) = loc_lo (ls ! Suc i)"
proof (induction ls arbitrary: a i)
  case (Cons x xs)
  show ?case
  proof (cases i)
    case 0
    then show ?thesis using Cons.prems by (cases xs) auto
  next
    case (Suc i')
    then show ?thesis using Cons.prems Cons.IH[of "a + unat (loc_Length x)" i'] by auto
  qed
qed simp

text \<open>The extent of a position of the version.\<close>

lemma extent_found:
  assumes ok: "ok_version h ver" and pos: "pos < v_Length ver"
  shows "extent_search (v_Loc ver) pos 0 (length (v_Loc ver)) - 1 < length (v_Loc ver) \<and>
    loc_lo (v_Loc ver ! (extent_search (v_Loc ver) pos 0 (length (v_Loc ver)) - 1)) \<le> unat pos \<and>
    unat pos < loc_hi (v_Loc ver ! (extent_search (v_Loc ver) pos 0 (length (v_Loc ver)) - 1))"
proof -
  let ?ls = "v_Loc ver" and ?n = "extent_search (v_Loc ver) pos 0 (length (v_Loc ver))"
  note x = ok_version_extents[OF ok]
  have ne: "?ls \<noteq> []" using x(2) pos by (auto simp: total_def word_less_nat_alt)
  have mono: "\<forall>a b. a < b \<longrightarrow> b < length ?ls \<longrightarrow> loc_Offset (?ls ! a) \<le> loc_Offset (?ls ! b)"
    using contiguous_mono[OF x(1)] by (fastforce simp: word_le_nat_alt)
  have n: "?n \<le> length ?ls" "\<forall>a < ?n. loc_Offset (?ls ! a) \<le> pos" "\<forall>a < length ?ls. ?n \<le> a \<longrightarrow> loc_Offset (?ls ! a) > pos"
    using extent_search_ok[of 0 "length ?ls" ?ls pos, OF _ _ _ _ mono] by auto
  have "loc_lo (?ls ! 0) = 0" using x(1) ne by (cases ?ls) auto
  then have "\<not> loc_Offset (?ls ! 0) > pos" by (simp add: word_less_nat_alt)
  then have n0: "0 < ?n" using n(3) ne by (metis gr0I le0 length_greater_0_conv)
  have "unat pos < loc_hi (?ls ! (?n - 1))"
  proof (cases "?n = length ?ls")
    case True
    then have "loc_hi (?ls ! (?n - 1)) = unat (v_Length ver)" using contiguous_last[OF x(1) ne] x(2) ne by (simp add: last_conv_nth)
    then show ?thesis using pos by (simp add: word_less_nat_alt)
  next
    case False
    then have "loc_Offset (?ls ! ?n) > pos" "?n < length ?ls" using n(1,3) by auto
    then show ?thesis using contiguous_next[OF x(1), of "?n - 1"] n0 by (simp add: word_less_nat_alt)
  qed
  then show ?thesis using n n0 by (auto simp: word_le_nat_alt)
qed

definition object_frame :: "env \<Rightarrow> view \<Rightarrow> Object \<Rightarrow> nat \<Rightarrow> view \<times> Object \<times> Ref result" where
  "object_frame env v obj i =
    (case o_cur obj of
       Some (at, ref) \<Rightarrow> if at = i then (v, obj, Inr ref) else object_load env v (obj\<lparr> o_cur := None \<rparr>) i
     | None \<Rightarrow> object_load env v obj i)"

lemma object_frame_ok:
  assumes "object_frame env v obj i = (v', obj', r)" "obj_ok env (v_h v) obj" "i < length (v_Loc (o_ver obj))"
  shows "same_files v v' \<and> obj_ok env (v_h v) obj' \<and> o_path obj' = o_path obj \<and> o_ver obj' = o_ver obj \<and>
    (\<forall>ref. r = Inr ref \<longrightarrow> extent_bytes env (v_h v) (o_path obj) (v_FileVer (o_ver obj)) (v_Loc (o_ver obj) ! i) (f_Payload (ref_Frame ref)) \<and>
       obj_ok env (v_h v) (obj'\<lparr> o_cur := Some (i, ref) \<rparr>))"
proof -
  have set_cur: "obj_ok env h (x\<lparr> o_cur := Some (i, ref) \<rparr>)"
    if "obj_ok env h x" "i < length (v_Loc (o_ver x))" "extent_bytes env h (o_path x) (v_FileVer (o_ver x)) (v_Loc (o_ver x) ! i) (f_Payload (ref_Frame ref))"
    for h x ref using that by (auto simp: obj_ok_def)
  show ?thesis
  proof (cases "\<exists>ref. o_cur obj = Some (i, ref)")
    case True
    then obtain ref where c: "o_cur obj = Some (i, ref)" by blast
    then have e: "v' = v" "obj' = obj" "r = Inr ref" using assms(1) by (auto simp: object_frame_def)
    have "extent_bytes env (v_h v) (o_path obj) (v_FileVer (o_ver obj)) (v_Loc (o_ver obj) ! i) (f_Payload (ref_Frame ref))"
      using assms(2) c by (simp add: obj_ok_def)
    then show ?thesis using e assms(2,3) set_cur by auto
  next
    case False
    let ?o = "obj\<lparr> o_cur := None \<rparr>"
    have o: "obj_ok env (v_h v) ?o" using assms(2) by (auto simp: obj_ok_def)
    have l: "object_load env v ?o i = (v', obj', r)"
    proof (cases "o_cur obj")
      case None
      then have eq: "?o = obj" by (cases obj) simp
      show ?thesis unfolding eq using assms(1) None by (simp add: object_frame_def)
    next
      case (Some x)
      then show ?thesis using assms(1) False by (cases x) (auto simp: object_frame_def)
    qed
    from object_load_ok[OF l o] assms(3) set_cur[of "v_h v" obj'] show ?thesis by auto
  qed
qed

text \<open>What a read of the object returns: \<open>out\<close> are the bytes from \<open>lo\<close> of some content of the version's length in which every
  extent that the range meets has its bytes.\<close>

definition part_of_version :: "env \<Rightarrow> ArchiveHeader \<Rightarrow> bytes \<Rightarrow> Version \<Rightarrow> nat \<Rightarrow> bytes \<Rightarrow> bool" where
  "part_of_version env h p ver lo out \<longleftrightarrow>
    (\<exists>content. length content = unat (v_Length ver) \<and> out = seg content lo (lo + length out) \<and>
       (\<forall>l \<in> set (v_Loc ver). \<forall>x. lo \<le> x \<and> x < lo + length out \<and> loc_lo l \<le> x \<and> x < loc_hi l \<longrightarrow>
          extent_bytes env h p (v_FileVer ver) l (seg content (loc_lo l) (loc_hi l))))"

lemma part_of_version_Nil [simp]: "part_of_version env h p ver lo []"
  unfolding part_of_version_def by (rule exI[of _ "replicate (unat (v_Length ver)) 0"]) auto

lemma part_of_version_step:
  assumes ok: "ok_version h0 ver" and l: "l \<in> set (v_Loc ver)" "loc_lo l \<le> lo" "lo < loc_hi l"
    and P: "extent_bytes env h p (v_FileVer ver) l P" and piece: "piece = take n (drop (lo - loc_lo l) P)"
    and rest: "part_of_version env h p ver (lo + length piece) rest" "rest = [] \<or> lo + length piece = loc_hi l"
  shows "part_of_version env h p ver lo (piece @ rest)"
proof -
  note x = ok_version_extents[OF ok]
  obtain content where c: "length content = unat (v_Length ver)" "rest = seg content (lo + length piece) (lo + length piece + length rest)"
    "\<And>l y. l \<in> set (v_Loc ver) \<Longrightarrow> lo + length piece \<le> y \<Longrightarrow> y < lo + length piece + length rest \<Longrightarrow> loc_lo l \<le> y \<Longrightarrow> y < loc_hi l \<Longrightarrow>
       extent_bytes env h p (v_FileVer ver) l (seg content (loc_lo l) (loc_hi l))"
    using rest(1) unfolding part_of_version_def by blast
  have len: "length P = unat (loc_Length l)" using P by (auto simp: extent_bytes_def)
  have fits: "loc_lo l + length P \<le> length content" using contiguous_bounds[OF x(1) l(1)] x(2) c(1) len by simp
  let ?c = "copy_into content (loc_lo l) P"
  note cp = copy_into_range[OF fits]
  have whole: "seg ?c (loc_lo l) (loc_hi l) = P" using cp(2) len by simp
  have pl: "length piece \<le> loc_hi l - lo" using piece len by simp
  have "seg ?c lo (lo + length piece) = seg (seg ?c (loc_lo l) (loc_hi l)) (lo - loc_lo l) (lo - loc_lo l + length piece)"
    using l(2,3) pl seg_seg[of "loc_lo l" "lo - loc_lo l + length piece" "loc_hi l" ?c "lo - loc_lo l"] by simp
  also have "\<dots> = take (length piece) (drop (lo - loc_lo l) P)" unfolding whole by (simp add: seg_def)
  finally have s1: "seg ?c lo (lo + length piece) = piece" using piece by (simp add: min_def)
  have s2: "seg ?c (lo + length piece) (lo + length piece + length rest) = rest"
  proof (cases "rest = []")
    case False
    then have "lo + length piece = loc_hi l" using rest(2) by simp
    then show ?thesis using cp(3)[of "lo + length piece + length rest" "lo + length piece"] c(2) len by simp
  qed simp
  have "seg ?c lo (lo + length (piece @ rest)) = piece @ rest"
    using seg_split[of lo "lo + length piece" "lo + length piece + length rest" ?c] s1 s2 by (simp add: add.assoc)
  moreover have "extent_bytes env h p (v_FileVer ver) l' (seg ?c (loc_lo l') (loc_hi l'))"
    if l': "l' \<in> set (v_Loc ver)" "lo \<le> y" "y < lo + length (piece @ rest)" "loc_lo l' \<le> y" "y < loc_hi l'" for l' y
  proof (cases "l' = l")
    case True
    then show ?thesis using whole P by simp
  next
    case False
    then have d: "loc_hi l \<le> loc_lo l' \<or> loc_hi l' \<le> loc_lo l" using contiguous_disjoint[OF x(1) l(1) l'(1)] by blast
    then have "lo + length piece \<le> y" using l' l pl by linarith
    then have "extent_bytes env h p (v_FileVer ver) l' (seg content (loc_lo l') (loc_hi l'))" using c(3)[of l' y] l' by simp
    moreover have "seg ?c (loc_lo l') (loc_hi l') = seg content (loc_lo l') (loc_hi l')" using cp(3) d len by auto
    ultimately show ?thesis by simp
  qed
  ultimately show ?thesis unfolding part_of_version_def using cp(1) c(1) by (intro exI[of _ ?c]) auto
qed

lemma read_at_loop_ok:
  assumes "ok_version h0 ver" "off < 2 ^ 63" "len < 2 ^ 63" "o_ver obj = ver" "o_path obj = p" "obj_ok env (v_h v) obj" "length got \<le> len"
  shows "\<exists>v' obj' out err. read_at_loop env v obj len off got = Some (v', obj', got @ out, err) \<and> same_files v v' \<and>
    obj_ok env (v_h v) obj' \<and> o_ver obj' = ver \<and> o_path obj' = p \<and> length got + length out \<le> len \<and>
    (err = None \<longrightarrow> length got + length out = len) \<and> part_of_version env (v_h v) p ver (off + length got) out"
  using assms(4-7)
proof (induction "len - length got" arbitrary: got v obj rule: less_induct)
  case less
  show ?case
  proof (cases "length got < len")
    case False
    then show ?thesis using less.prems by (subst read_at_loop.simps) simp
  next
    case True
    let ?pos = "word_of_nat off + word_of_nat (length got) :: u64"
    have pos: "unat ?pos = off + length got" using assms(2,3) True by (simp add: unat_of_nat_u64 unat_add_u64)
    show ?thesis
    proof (cases "?pos \<ge> v_Length ver")
      case eof: True
      then show ?thesis using True less.prems by (subst read_at_loop.simps) (simp add: Let_def)
    next
      case False
      define i where "i = extent_search (v_Loc ver) ?pos 0 (length (v_Loc ver)) - 1"
      let ?l = "v_Loc ver ! i"
      have i: "i < length (v_Loc ver)" "loc_lo ?l \<le> off + length got" "off + length got < loc_hi ?l"
        using extent_found[OF assms(1), of ?pos] False pos unfolding i_def by auto
      obtain v1 obj1 r where f: "object_frame env v obj i = (v1, obj1, r)" by (rule prod_cases3)
      note fr = object_frame_ok[OF f less.prems(3)]
      have unf: "read_at_loop env v obj len off got = (case r of Inl e \<Rightarrow> Some (v1, obj1, got, Some e)
          | Inr ref \<Rightarrow> read_at_loop env v1 (obj1\<lparr> o_cur := Some (i, ref) \<rparr>) len off
              (got @ take (len - length got) (drop (unat (?pos - loc_Offset ?l)) (f_Payload (ref_Frame ref)))))"
        using True False less.prems(1) f unfolding i_def by (subst read_at_loop.simps) (simp add: Let_def object_frame_def[symmetric] split: sum.split)
      show ?thesis
      proof (cases r)
        case (Inl e)
        then show ?thesis using unf fr i(1) less.prems by auto
      next
        case (Inr ref)
        let ?P = "f_Payload (ref_Frame ref)" and ?d = "off + length got - loc_lo ?l"
        let ?piece = "take (len - length got) (drop ?d (f_Payload (ref_Frame ref)))"
        have sub: "unat (?pos - loc_Offset ?l) = ?d" using i(2) pos by (simp add: unat_sub_u64)
        have e: "extent_bytes env (v_h v) p (v_FileVer ver) ?l ?P" "obj_ok env (v_h v) (obj1\<lparr> o_cur := Some (i, ref) \<rparr>)" "same_files v v1"
          "o_ver obj1 = ver" "o_path obj1 = p" using fr i(1) less.prems Inr by auto
        have len: "length ?P = unat (loc_Length ?l)" using e(1) by (auto simp: extent_bytes_def)
        have pl: "length ?piece = min (len - length got) (loc_hi ?l - (off + length got))" using len i(2) by simp
        have dec: "len - length (got @ ?piece) < len - length got" "length (got @ ?piece) \<le> len"
          unfolding length_append pl using True i(3) by linarith+
        have h: "v_h v1 = v_h v" using e(3) by (simp add: same_files_def)
        have "\<exists>v' obj' out err. read_at_loop env v1 (obj1\<lparr> o_cur := Some (i, ref) \<rparr>) len off (got @ ?piece) = Some (v', obj', (got @ ?piece) @ out, err) \<and>
            same_files v1 v' \<and> obj_ok env (v_h v1) obj' \<and> o_ver obj' = ver \<and> o_path obj' = p \<and> length (got @ ?piece) + length out \<le> len \<and>
            (err = None \<longrightarrow> length (got @ ?piece) + length out = len) \<and> part_of_version env (v_h v1) p ver (off + length (got @ ?piece)) out"
          by (rule less.hyps) (use dec e h in auto)
        then obtain v' obj' out err where ih: "read_at_loop env v1 (obj1\<lparr> o_cur := Some (i, ref) \<rparr>) len off (got @ ?piece) = Some (v', obj', (got @ ?piece) @ out, err)"
          "same_files v1 v'" "obj_ok env (v_h v) obj'" "o_ver obj' = ver" "o_path obj' = p" "length (got @ ?piece) + length out \<le> len"
          "err = None \<longrightarrow> length (got @ ?piece) + length out = len" "part_of_version env (v_h v) p ver (off + length (got @ ?piece)) out" unfolding h by blast
        have "out = [] \<or> off + length got + length ?piece = loc_hi ?l"
        proof (cases "out = []")
          case False
          then have "0 < length out" by simp
          then show ?thesis using ih(6) i(3) unfolding length_append pl by linarith
        qed simp
        then have "part_of_version env (v_h v) p ver (off + length got) (?piece @ out)"
          using part_of_version_step[OF assms(1) nth_mem[OF i(1)] i(2,3) e(1) refl] ih(8) by (simp add: add.assoc)
        then show ?thesis using unf Inr ih sub same_files_trans[OF e(3)]
          by (intro exI[of _ v'] exI[of _ obj'] exI[of _ "?piece @ out"] exI[of _ err]) (simp add: add.assoc)
      qed
    qed
  qed
qed

section \<open>Rebuilding lost frames\<close>

text \<open>The recovery shard does not depend on the buffer it is written to.\<close>

lemma recovery_shard_stale:
  assumes ok: "Parse H isNormal frame h = Inr f" and h: "wf_header h" and len: "length frame < 2 ^ 64"
    and bt: "m_BlockType (f_Trailer f) \<noteq> BlockParity"
    and pad: "228 + length (f_Payload f) + length (f_PreTrailer f) \<le> length frame"
  shows "AppendRecoveryShard stale [] frame = AppendRecoveryShard stale' [] frame"
proof -
  note C = Parse_canonical[OF ok h len]
  have q: "0 < unat (p_FrameQuanta (f_Prefix f))" "unat (p_FrameQuanta (f_Prefix f)) \<le> 2 ^ 20"
    using C(8) wf_header_bounds(2)[OF h] by (simp_all add: CheckFrameQuanta_Inr)
  have p: "232 + length (f_Payload f) + length (take (length (f_PreTrailer f) - 4) (f_PreTrailer f)) \<le> unat (p_FrameQuanta (f_Prefix f)) * 4096"
    using pad C(6,7) by simp
  show ?thesis using AppendRecoveryShard_image[OF q C(3,5) p C(2)[symmetric] bt, of stale "[]"]
      AppendRecoveryShard_image[OF q C(3,5) p C(2)[symmetric] bt, of stale' "[]"] C(1) by simp
qed

text \<open>A data member of a parity group as the writer builds it, with the padding that its recovery shard needs.\<close>

definition group_member :: "env \<Rightarrow> ArchiveHeader \<Rightarrow> u32 \<Rightarrow> nat \<Rightarrow> nat \<Rightarrow> u32 \<Rightarrow> nat \<Rightarrow> bytes \<Rightarrow> bool" where
  "group_member env h g k m q i frame \<longleftrightarrow>
    (\<exists>f. Parse (e_H env) (e_isNormal env) frame h = Inr f \<and> m_GroupID (f_Trailer f) = g \<and> unat (m_GroupIndex (f_Trailer f)) = i \<and>
       unat (m_GroupK (f_Trailer f)) = k \<and> unat (m_GroupM (f_Trailer f)) = m \<and> p_FrameQuanta (f_Prefix f) = q \<and>
       m_BlockType (f_Trailer f) \<noteq> BlockParity \<and> 228 + length (f_Payload f) + length (f_PreTrailer f) \<le> length frame \<and> length frame < 2 ^ 64)"

lemma group_member_shard:
  assumes "group_member env h g k m q i frame" "wf_header h" "AppendRecoveryShard stale [] frame = Inr s"
  shows "AppendRecoveryShard (e_stale env) [] frame = Inr s" "length s = unat (ParityShardLen q)"
    "AppendFromRecoveryShard (e_stale env) [] s q = Inr frame"
proof -
  obtain f where f: "Parse (e_H env) (e_isNormal env) frame h = Inr f" "p_FrameQuanta (f_Prefix f) = q" "m_BlockType (f_Trailer f) \<noteq> BlockParity"
    "228 + length (f_Payload f) + length (f_PreTrailer f) \<le> length frame" "length frame < 2 ^ 64" using assms(1) by (auto simp: group_member_def)
  obtain s' where s': "AppendRecoveryShard stale [] frame = Inr s'" "length s' = unat (ParityShardLen q)"
    "AppendFromRecoveryShard (e_stale env) [] s' q = Inr ([] @ frame)"
    using recovery_shard_round_trip[OF f(1) assms(2) f(5,3,4)] f(2) by metis
  show "AppendRecoveryShard (e_stale env) [] frame = Inr s" "length s = unat (ParityShardLen q)"
    "AppendFromRecoveryShard (e_stale env) [] s q = Inr frame"
    using s' assms(3) recovery_shard_stale[OF f(1) assms(2) f(5,3,4), of stale "e_stale env"] by auto
qed

text \<open>What can be read of a group's members is what was written: a data member is its frame, a parity member carries its shard.\<close>

definition members_true :: "env \<Rightarrow> view \<Rightarrow> u32 \<Rightarrow> nat \<Rightarrow> nat \<Rightarrow> u32 \<Rightarrow> bytes list \<Rightarrow> bytes list \<Rightarrow> bool" where
  "members_true env v g k m q frames parity \<longleftrightarrow>
    (\<forall>mem \<in> set (fd_groups (v_dir v) g).
       unat (m_GroupK (hm_t mem)) = k \<and> unat (m_GroupM (hm_t mem)) = m \<and> hm_quanta mem = q \<and> unat (m_GroupIndex (hm_t mem)) < k + m \<and>
       (\<forall>ref. readMember env v (hm_blob mem) (hm_off mem) = Some ref \<longrightarrow>
          (let t = f_Trailer (ref_Frame ref); i = unat (m_GroupIndex (hm_t mem)) in
           m_GroupID t = g \<and> m_GroupIndex t = m_GroupIndex (hm_t mem) \<and>
           (if i < k then m_BlockType t \<noteq> BlockParity \<and> ref_Bytes ref = frames ! i
            else m_BlockType t = BlockParity \<and> f_Payload (ref_Frame ref) = parity ! (i - k)))))"

definition readable :: "env \<Rightarrow> view \<Rightarrow> u32 \<Rightarrow> nat set" where
  "readable env v g = {unat (m_GroupIndex (hm_t mem)) | mem. mem \<in> set (fd_groups (v_dir v) g) \<and> readMember env v (hm_blob mem) (hm_off mem) \<noteq> None}"

lemma member_shard_true:
  assumes "members_true env v g k m q frames parity" "mem \<in> set (fd_groups (v_dir v) g)"
    and "\<And>i. i < k \<Longrightarrow> AppendRecoveryShard (e_stale env) [] (frames ! i) = Inr (data ! i)" "length data = k"
  shows "member_shard env v g mem = (if readMember env v (hm_blob mem) (hm_off mem) = None then None
    else Some ((data @ parity) ! unat (m_GroupIndex (hm_t mem))))"
proof (cases "readMember env v (hm_blob mem) (hm_off mem)")
  case None
  then show ?thesis by (simp add: member_shard_def)
next
  case (Some ref)
  let ?i = "unat (m_GroupIndex (hm_t mem))" and ?t = "f_Trailer (ref_Frame ref)"
  have r: "m_GroupID ?t = g" "m_GroupIndex ?t = m_GroupIndex (hm_t mem)"
    "if ?i < k then m_BlockType ?t \<noteq> BlockParity \<and> ref_Bytes ref = frames ! ?i
     else m_BlockType ?t = BlockParity \<and> f_Payload (ref_Frame ref) = parity ! (?i - k)"
    using assms(1,2) Some unfolding members_true_def Let_def by blast+
  show ?thesis
  proof (cases "?i < k")
    case True
    then show ?thesis using r Some assms(3)[OF True] assms(4) by (simp add: member_shard_def Let_def nth_append)
  next
    case False
    then show ?thesis using r Some assms(4) by (simp add: member_shard_def Let_def nth_append)
  qed
qed

lemma length_load_shards [simp]: "length (load_shards env v g ms shards) = length shards"
  by (induction ms arbitrary: shards) (auto split: option.splits)

lemma load_shards_true:
  "(\<And>mem. mem \<in> set ms \<Longrightarrow> member_shard env v g mem = (if R mem then Some (full ! unat (m_GroupIndex (hm_t mem))) else None)) \<Longrightarrow>
   \<forall>i < length shards. shards ! i = None \<or> shards ! i = Some (full ! i) \<Longrightarrow> i < length shards \<Longrightarrow>
   load_shards env v g ms shards ! i = (if shards ! i \<noteq> None \<or> (\<exists>mem \<in> set ms. R mem \<and> unat (m_GroupIndex (hm_t mem)) = i) then Some (full ! i) else None)"
proof (induction ms arbitrary: shards)
  case Nil
  then show ?case by auto
next
  case (Cons mem ms)
  let ?i = "unat (m_GroupIndex (hm_t mem))"
  let ?s = "if R mem then shards[?i := Some (full ! ?i)] else shards"
  have l: "load_shards env v g (mem # ms) shards = load_shards env v g ms ?s" using Cons.prems(1)[of mem] by simp
  have ok: "\<forall>i < length ?s. ?s ! i = None \<or> ?s ! i = Some (full ! i)" using Cons.prems(2)
    by (cases "?i < length shards") (auto simp: nth_list_update list_update_beyond)
  have "load_shards env v g ms ?s ! i = (if ?s ! i \<noteq> None \<or> (\<exists>mem \<in> set ms. R mem \<and> unat (m_GroupIndex (hm_t mem)) = i) then Some (full ! i) else None)"
    using Cons.IH[OF Cons.prems(1) ok] Cons.prems(3) by simp
  then show ?case unfolding l using Cons.prems(3) by (cases "?i < length shards") (auto simp: nth_list_update list_update_beyond)
qed

lemma rebuild_loop_keeps: "found \<noteq> None \<Longrightarrow> snd (rebuild_loop env h g k m q shards key accept is d found) = found"
  by (induction "is" arbitrary: d) (auto split: option.split)

lemma rebuild_loop_finds:
  assumes "a \<in> set is" "rebuilt_member env h g k m q shards a = Some r" "key \<in> set (rebuilt_keys r)" "accept r"
  shows "\<exists>d' b ref. rebuild_loop env h g k m q shards key accept is d None = (d', Some ref) \<and> b \<in> set is \<and>
    rebuilt_member env h g k m q shards b = Some ref \<and> key \<in> set (rebuilt_keys ref) \<and> accept ref"
  using assms(1)
proof (induction "is" arbitrary: d)
  case (Cons i "is")
  show ?case
  proof (cases "rebuilt_member env h g k m q shards i")
    case None
    then have "a \<in> set is" using Cons.prems assms(2) by auto
    from Cons.IH[OF this, of d] show ?thesis using None by auto
  next
    case (Some x)
    let ?d = "d\<lparr> fd_rebuiltAs := (\<lambda>rk. if rk \<in> set (rebuilt_keys x) then g else fd_rebuiltAs d rk) \<rparr>"
    show ?thesis
    proof (cases "key \<in> set (rebuilt_keys x) \<and> accept x")
      case True
      obtain d' f where l: "rebuild_loop env h g k m q shards key accept is ?d (Some x) = (d', f)" by (rule prod.exhaust)
      then have "f = Some x" using rebuild_loop_keeps[of "Some x" env h g k m q shards key accept "is" ?d] by simp
      then show ?thesis using Some True l by auto
    next
      case False
      then have "a \<in> set is" using Cons.prems assms(2-4) Some by auto
      from Cons.IH[OF this, of ?d] show ?thesis using Some False by auto
    qed
  qed
qed simp

lemma rebuilt_member_true:
  assumes g: "group_member env h g k m q i frame" "wf_header h" "AppendRecoveryShard stale [] frame = Inr s" and sh: "shards ! i = Some s"
  shows "\<exists>f. Parse (e_H env) (e_isNormal env) frame h = Inr f \<and>
    rebuilt_member env h g k m q shards i = Some \<lparr> ref_Frame = f, ref_Offset = -1, ref_Bytes = frame \<rparr>"
proof -
  obtain f where f: "Parse (e_H env) (e_isNormal env) frame h = Inr f" "m_GroupID (f_Trailer f) = g" "unat (m_GroupIndex (f_Trailer f)) = i"
    "unat (m_GroupK (f_Trailer f)) = k" "unat (m_GroupM (f_Trailer f)) = m" using g(1) by (auto simp: group_member_def)
  have "word_of_nat k = m_GroupK (f_Trailer f)" "word_of_nat m = m_GroupM (f_Trailer f)" using f(4,5) by (metis of_nat_unat ucast_id)+
  then show ?thesis using f group_member_shard[OF g] sh by (simp add: rebuilt_member_def NewRef_def Let_def)
qed

text \<open>Reconstruction from any \<open>k\<close> readable members.\<close>

lemma Reconstruct_stripe:
  assumes "codes_ok codes" "snd (New codes s k m) = Inr c" "\<And>xs. mset (sched xs) = mset xs" "shards_of c n data"
    and "survives c n data shards present" "k \<le> present_count present" "cache_ok c cache" "buffers_ok c shards present"
  shows "\<exists>cache'. Reconstruct sched procs c cache shards present = (cache', restored c n data shards, None)"
proof (cases "s = ParityXOR")
  case True
  then show ?thesis using Reconstruct_XOR[OF _ _ assms(4,5) _ assms(3)] assms(6) New_good[OF assms(1,2)] by simp
next
  case False
  then have "c_Scheme c = ParityRS" using New_good[OF assms(1,2)] by (simp add: supported_def)
  then show ?thesis using Reconstruct_RS[OF _ _ assms(4,5) _ assms(3,7,8)] assms(6) New_good[OF assms(1,2)] by blast
qed

lemma rebuild_with_restores:
  assumes codes: "codes_ok codes" "snd (New codes (h_ParityScheme (v_h v)) k m) = Inr c" "cache_ok c (v_caches v (h_ParityScheme (v_h v), k, m))"
    and sched: "\<And>xs. mset (e_sched env xs) = mset xs" and h: "wf_header (v_h v)"
    and mem: "\<And>i. i < k \<Longrightarrow> group_member env (v_h v) g k m q i (frames ! i)"
    and data: "length data = k" "\<And>i. i < k \<Longrightarrow> AppendRecoveryShard stale [] (frames ! i) = Inr (data ! i)"
    and full: "length full = k + m" "map Some full = map Some (stripe c (unat (ParityShardLen q)) data)"
    and shards: "length shards = k + m" "\<And>i. i < k + m \<Longrightarrow> shards ! i = (if i \<in> R then Some (full ! i) else None)"
    and R: "R \<subseteq> {..<k + m}" "k \<le> card R" and a: "a < k" "a \<notin> R"
    and acc: "\<And>f. Parse (e_H env) (e_isNormal env) (frames ! a) (v_h v) = Inr f \<Longrightarrow>
       key \<in> set (rebuilt_keys \<lparr> ref_Frame = f, ref_Offset = -1, ref_Bytes = frames ! a \<rparr>) \<and> accept \<lparr> ref_Frame = f, ref_Offset = -1, ref_Bytes = frames ! a \<rparr>"
  shows "\<exists>v' ref b. rebuild_with env v g key accept c k m q shards = (v', Some ref) \<and> b < k \<and> ref_Bytes ref = frames ! b \<and>
    key \<in> set (rebuilt_keys ref) \<and> accept ref"
proof -
  let ?n = "unat (ParityShardLen q)" and ?present = "map (\<lambda>s. s \<noteq> None) shards" and ?wb = "with_buffers env q k shards"
  note c = New_good[OF codes(1,2)]
  have dl: "length d = ?n" if "d \<in> set data" for d
    using that data mem group_member_shard(2)[OF mem h data(2)] by (metis in_set_conv_nth)
  have so: "shards_of c ?n data" using data(1) dl c by (simp add: shards_of_def)
  have st: "full = stripe c ?n data" using full(2) by (metis inj_Some inj_map_eq_map)
  have fl: "length (full ! i) = ?n" if "i < k + m" for i using that c so st by (simp add: stripe_nth)
  have wb: "length ?wb = k + m" "\<And>i. i < k + m \<Longrightarrow> ?wb ! i = (if i \<in> R then Some (full ! i) else if i < k then Some (map (e_stale env) [0..<?n]) else None)"
    using shards by (simp_all add: with_buffers_def)
  have pres: "\<And>i. i < k + m \<Longrightarrow> ?present ! i = (i \<in> R)" using shards by simp
  have sv: "survives c ?n data ?wb ?present"
    unfolding survives_def sized_def using wb pres shards(1) st c fl by (auto simp: in_set_conv_nth split: if_splits)
  have cnt: "present_count ?present = card R"
  proof -
    have "set (filter (\<lambda>i. ?present ! i) [0..<length ?present]) = R" using pres R(1) shards(1) by auto
    then show ?thesis by (metis distinct_card distinct_filter distinct_upt)
  qed
  have bo: "buffers_ok c ?wb ?present" unfolding buffers_ok_def
    using wb c by (auto simp: in_set_conv_nth)
  obtain cache' where rc: "Reconstruct (e_sched env) (e_procs env) c (v_caches v (h_ParityScheme (v_h v), k, m)) ?wb ?present = (cache', restored c ?n data ?wb, None)"
    using Reconstruct_stripe[OF codes(1,2) sched so sv _ codes(3) bo] cnt R(2) by auto
  have miss: "a \<in> set (missing_data k shards)" "set (missing_data k shards) \<subseteq> {..<k} - R"
    using a shards by (auto simp: missing_data_def)
  have "{i. i < length shards \<and> shards ! i \<noteq> None} = R" using shards R(1) by (auto split: if_splits)
  then have enough: "\<not> length (filter (\<lambda>s. s \<noteq> None) shards) < k" using R(2) by (simp only: length_filter_conv_card)
  have rs: "restored c ?n data ?wb ! i = Some (data ! i)" if "i \<in> set (missing_data k shards)" for i
  proof -
    have "i < k" "i \<notin> R" using miss that by auto
    then show ?thesis using wb stripe_data[OF c(5) so] c by (simp add: restored_def)
  qed
  have rm: "\<exists>f. Parse (e_H env) (e_isNormal env) (frames ! i) (v_h v) = Inr f \<and>
      rebuilt_member env (v_h v) g k m q (restored c ?n data ?wb) i = Some \<lparr> ref_Frame = f, ref_Offset = -1, ref_Bytes = frames ! i \<rparr>"
    if "i \<in> set (missing_data k shards)" for i
    using rebuilt_member_true[OF mem h data(2) rs[OF that]] miss that by auto
  obtain f where f: "Parse (e_H env) (e_isNormal env) (frames ! a) (v_h v) = Inr f"
    "rebuilt_member env (v_h v) g k m q (restored c ?n data ?wb) a = Some \<lparr> ref_Frame = f, ref_Offset = -1, ref_Bytes = frames ! a \<rparr>" using rm[OF miss(1)] by blast
  obtain d' b ref where l: "rebuild_loop env (v_h v) g k m q (restored c ?n data ?wb) key accept (missing_data k shards) (v_dir v) None = (d', Some ref)"
    "b \<in> set (missing_data k shards)" "rebuilt_member env (v_h v) g k m q (restored c ?n data ?wb) b = Some ref" "key \<in> set (rebuilt_keys ref)" "accept ref"
    using rebuild_loop_finds[where accept = accept and d = "v_dir v", OF miss(1) f(2)] acc[OF f(1)] by blast
  have "ref_Bytes ref = frames ! b" "b < k" using rm[OF l(2)] l(3) miss(2) l(2) by auto
  moreover have "missing_data k shards \<noteq> []" using miss(1) by auto
  ultimately show ?thesis using rc l enough unfolding rebuild_with_def Let_def by (auto simp del: rebuild_loop.simps)
qed

lemma readMember_cong: "same_files v v' \<Longrightarrow> readMember env v' b off = readMember env v b off"
proof -
  assume s: "same_files v v'"
  let ?f = "map_option (\<lambda>bv. (bv_rd bv, bv_size bv, bv_idx bv))"
  have m: "map ?f (v_blobs v') = map ?f (v_blobs v)" and h: "v_h v' = v_h v" using s by (simp_all add: same_files_def)
  have l: "length (v_blobs v') = length (v_blobs v)" using arg_cong[OF m, of length] by simp
  have "?f (v_blobs v' ! b) = ?f (v_blobs v ! b)" if "b < length (v_blobs v)" using arg_cong[OF m, of "\<lambda>xs. xs ! b"] l that by simp
  then show ?thesis using l h
    by (cases "v_blobs v ! b"; cases "v_blobs v' ! b") (auto simp: readMember_def)
qed

lemma rebuildFrom_restores:
  assumes use: "groupUsable (fd_groups (v_dir v) g)" and tr: "members_true env v g k m q frames parity"
    and codes: "codes_ok (v_codes v)" "snd (New (v_codes v) (h_ParityScheme (v_h v)) k m) = Inr c" "cache_ok c (v_caches v (h_ParityScheme (v_h v), k, m))"
    and sched: "\<And>xs. mset (e_sched env xs) = mset xs" "\<And>xs. mset (sched' xs) = mset xs" and h: "wf_header (v_h v)"
    and mem: "\<And>i. i < k \<Longrightarrow> group_member env (v_h v) g k m q i (frames ! i)"
    and data: "length data = k" "\<And>i. i < k \<Longrightarrow> AppendRecoveryShard stale [] (frames ! i) = Inr (data ! i)"
    and par: "length buf = m" "\<forall>b \<in> set buf. length b = unat (ParityShardLen q)"
      "Encode sched' procs' c (map Some data) (map Some buf) = Inr (map Some parity)"
    and R: "k \<le> card (readable env v g)" and a: "a < k" "a \<notin> readable env v g"
    and acc: "\<And>f. Parse (e_H env) (e_isNormal env) (frames ! a) (v_h v) = Inr f \<Longrightarrow>
       key \<in> set (rebuilt_keys \<lparr> ref_Frame = f, ref_Offset = -1, ref_Bytes = frames ! a \<rparr>) \<and> accept \<lparr> ref_Frame = f, ref_Offset = -1, ref_Bytes = frames ! a \<rparr>"
  shows "\<exists>v' ref b. rebuildFrom env v g key accept = (v', Some ref) \<and> b < k \<and> ref_Bytes ref = frames ! b \<and>
    key \<in> set (rebuilt_keys ref) \<and> accept ref"
proof -
  let ?ms = "fd_groups (v_dir v) g" and ?n = "unat (ParityShardLen q)"
  note c = New_good[OF codes(1,2)]
  have ne: "?ms \<noteq> []" using use by (auto simp: groupUsable_def)
  then have m0: "?ms ! 0 \<in> set ?ms" by simp
  have km: "unat (m_GroupK (hm_t (?ms ! 0))) = k" "unat (m_GroupM (hm_t (?ms ! 0))) = m" "hm_quanta (?ms ! 0) = q"
    using tr m0 unfolding members_true_def by blast+
  obtain codes' cr where n: "New (v_codes v) (h_ParityScheme (v_h v)) k m = (codes', cr)" by (rule prod.exhaust)
  then have cr: "cr = Inr c" using codes(2) by simp
  define w where "w = v\<lparr> v_codes := codes' \<rparr>"
  have w: "same_files v w" "v_h w = v_h v" "v_caches w = v_caches v" "fd_groups (v_dir w) g = ?ms" by (simp_all add: w_def)
  have rm: "readMember env w b off = readMember env v b off" for b off using readMember_cong[OF w(1)] .
  have data': "AppendRecoveryShard (e_stale env) [] (frames ! i) = Inr (data ! i)" if "i < k" for i
    using group_member_shard(1)[OF mem[OF that] h data(2)[OF that]] .
  have ms: "member_shard env w g x = (if readMember env v (hm_blob x) (hm_off x) \<noteq> None then Some ((data @ parity) ! unat (m_GroupIndex (hm_t x))) else None)"
    if "x \<in> set ?ms" for x
  proof -
    have "members_true env w g k m q frames parity" using tr rm w(4) by (simp add: members_true_def)
    from member_shard_true[OF this, of x data] show ?thesis using that w(4) data' data(1) rm by simp
  qed
  let ?sh = "load_shards env w g ?ms (replicate (k + m) None)"
  have sh: "?sh ! i = (if i \<in> readable env v g then Some ((data @ parity) ! i) else None)" if "i < k + m" for i
    using load_shards_true[OF ms, of ?ms "replicate (k + m) None" i] that by (auto simp: readable_def)
  have Rs: "readable env v g \<subseteq> {..<k + m}" using tr by (auto simp: readable_def members_true_def)
  have dl: "length d = ?n" if "d \<in> set data" for d
    using that data group_member_shard(2)[OF mem h data(2)] by (metis in_set_conv_nth)
  have so: "shards_of c ?n data" using data(1) dl c by (simp add: shards_of_def)
  have st: "map Some (data @ parity) = map Some (stripe c ?n data)"
    using encoded_stripe[OF c(5) so sched(2) _ par(2,3)] par(1) c by simp
  then have lp: "length (data @ parity) = k + m" using c by (metis length_map length_stripe)
  have "\<exists>v' ref b. rebuild_with env w g key accept c k m q ?sh = (v', Some ref) \<and> b < k \<and> ref_Bytes ref = frames ! b \<and>
      key \<in> set (rebuilt_keys ref) \<and> accept ref"
  proof (rule rebuild_with_restores[OF codes(1) _ _ sched(1) _ _ data lp st _ sh Rs R a])
    show "snd (New (v_codes v) (h_ParityScheme (v_h w)) k m) = Inr c" using codes(2) w(2) by simp
    show "cache_ok c (v_caches w (h_ParityScheme (v_h w), k, m))" using codes(3) w by simp
    show "wf_header (v_h w)" "length ?sh = k + m" using h w by simp_all
    show "group_member env (v_h w) g k m q i (frames ! i)" if "i < k" for i using mem[OF that] w by simp
    show "key \<in> set (rebuilt_keys \<lparr> ref_Frame = f, ref_Offset = -1, ref_Bytes = frames ! a \<rparr>) \<and> accept \<lparr> ref_Frame = f, ref_Offset = -1, ref_Bytes = frames ! a \<rparr>"
      if "Parse (e_H env) (e_isNormal env) (frames ! a) (v_h w) = Inr f" for f using acc that w by simp
  qed
  then show ?thesis using use n cr km unfolding rebuildFrom_def Let_def w_def[symmetric] by (simp add: w_def)
qed

section \<open>Properties\<close>

text \<open>C4: What a reader returns for a path is the content its current version records: there is such a version, its extents
  tile the content without gap or overlap, and the bytes of every extent lie in a completely valid frame that carries the
  digest, path, version and length which the manifest records, whether the frame was found through the index, by the scan,
  by hop-and-read or rebuilt from parity. Damage is never returned as content or filled with zeros.\<close>

theorem Get_returns_recorded_content:
  assumes "wf_state (r_st r)" "\<forall>ls. set (e_order env ls) = set ls" "reader_Get env r p = (r', Inr out)"
  shows "\<exists>ver. Lookup (r_st r) p = Some ver \<and> contiguous 0 (v_Loc ver) \<and> total (v_Loc ver) = length out \<and>
    (\<forall>l \<in> set (v_Loc ver). extent_bytes env (v_h (r_view r)) p (v_FileVer ver) l (seg out (loc_lo l) (loc_hi l)))"
proof -
  obtain ver where ver: "Lookup (r_st r) p = Some ver" using assms(3) by (auto simp: reader_Get_def reader_Stat_def split: option.splits)
  obtain v' res where v: "view_read env (r_view r) p ver = (v', res)" by (rule prod.exhaust)
  then have res: "res = Inr out" using assms(3) ver by (simp add: reader_Get_def reader_Stat_def)
  have ok: "ok_version (st_h (r_st r)) ver" using assms(1) ver by (auto simp: wf_state_def Lookup_def)
  show ?thesis using ver ok_version_extents[OF ok] view_read_ok[OF v[unfolded res] ok] assms(2) by auto
qed

text \<open>\<open>ReadAt\<close> of an open object always returns, whatever is damaged. The bytes it returns are the bytes from the given
  offset of some content of the version in which every extent that the range meets is as recorded; there are as many as were
  asked for unless an error is reported, and the object stays usable.\<close>

lemma ReadAt_returns_part:
  assumes "ok_version h0 (o_ver obj)" "obj_ok env (v_h v) obj" "0 \<le> off" "off < 2 ^ 63" "len < 2 ^ 63"
  shows "\<exists>v' obj' out err. object_ReadAt env v obj len off = Some (v', obj', out, err) \<and> obj_ok env (v_h v') obj' \<and>
    o_ver obj' = o_ver obj \<and> o_path obj' = o_path obj \<and> length out \<le> len \<and> (err = None \<longrightarrow> length out = len) \<and>
    part_of_version env (v_h v) (o_path obj) (o_ver obj) (nat off) out"
proof -
  have "nat off < 2 ^ 63" using assms(3,4) by (simp add: nat_less_iff)
  from read_at_loop_ok[OF assms(1) this assms(5) refl refl assms(2), of "[]"] obtain v' obj' out err where
    "read_at_loop env v obj len (nat off) [] = Some (v', obj', out, err)" "same_files v v'" "obj_ok env (v_h v) obj'" "o_ver obj' = o_ver obj"
    "o_path obj' = o_path obj" "length out \<le> len" "err = None \<longrightarrow> length out = len" "part_of_version env (v_h v) (o_path obj) (o_ver obj) (nat off) out" by auto
  then show ?thesis using assms(3) by (auto simp: object_ReadAt_def same_files_def)
qed

text \<open>A parity group as it was written: the members that can be read are the frames and the parity payloads of the group, where
  the parity is the encoding of the frames' recovery shards.\<close>

definition parity_group :: "env \<Rightarrow> view \<Rightarrow> u32 \<Rightarrow> Code \<Rightarrow> nat \<Rightarrow> nat \<Rightarrow> u32 \<Rightarrow> bytes list \<Rightarrow> bytes list \<Rightarrow> bool" where
  "parity_group env v g c k m q frames parity \<longleftrightarrow>
    members_true env v g k m q frames parity \<and> (\<forall>i < k. group_member env (v_h v) g k m q i (frames ! i)) \<and>
    (\<exists>data buf stale sched procs. length data = k \<and> (\<forall>i < k. AppendRecoveryShard stale [] (frames ! i) = Inr (data ! i)) \<and>
       length buf = m \<and> (\<forall>b \<in> set buf. length b = unat (ParityShardLen q)) \<and> (\<forall>xs. mset (sched xs) = mset xs) \<and>
       Encode sched procs c (map Some data) (map Some buf) = Inr (map Some parity))"

text \<open>C5: Any \<open>k\<close> readable members of a parity group, data or parity, bring back a lost one: if the group has no conflicting
  members and the extent is in the lost frame \<open>a\<close>, then the group's reconstruction returns a frame that holds this extent and
  that is, byte for byte, one of the frames the group was written with, whatever the pooled buffers held and in whatever order
  the workers ran.\<close>

theorem lost_frame_rebuilt:
  assumes "groupUsable (fd_groups (v_dir v) g)" "parity_group env v g c k m q frames parity"
    and "codes_ok (v_codes v)" "snd (New (v_codes v) (h_ParityScheme (v_h v)) k m) = Inr c" "cache_ok c (v_caches v (h_ParityScheme (v_h v), k, m))"
    and "\<forall>xs. mset (e_sched env xs) = mset xs" "wf_header (v_h v)"
    and "k \<le> card (readable env v g)" "a < k" "a \<notin> readable env v g"
    and "NewRef (e_H env) (e_isNormal env) (frames ! a) (v_h v) = Inr ref" "key \<in> set (rebuilt_keys ref)" "accept ref"
  shows "\<exists>v' ref' b. rebuildFrom env v g key accept = (v', Some ref') \<and> b < k \<and> ref_Bytes ref' = frames ! b \<and>
    key \<in> set (rebuilt_keys ref') \<and> accept ref'"
proof -
  obtain data buf stale sched procs where d: "length data = k" "\<And>i. i < k \<Longrightarrow> AppendRecoveryShard stale [] (frames ! i) = Inr (data ! i)"
    "length buf = m" "\<forall>b \<in> set buf. length b = unat (ParityShardLen q)" "\<And>xs. mset (sched xs) = mset xs"
    "Encode sched procs c (map Some data) (map Some buf) = Inr (map Some parity)"
    and t: "members_true env v g k m q frames parity" "\<And>i. i < k \<Longrightarrow> group_member env (v_h v) g k m q i (frames ! i)"
    using assms(2) unfolding parity_group_def by blast
  show ?thesis using assms(11-13)
    by (intro rebuildFrom_restores[OF assms(1) t(1) assms(3-5) _ d(5) assms(7) t(2) d(1-4,6) assms(8-10)])
      (use assms(6) in \<open>auto simp: NewRef_def split: sum.splits\<close>)
qed

section \<open>A sample archive\<close>

definition sample_env :: env where
  "sample_env = \<lparr> e_H = sample_hashes, e_isNormal = (\<lambda>_. True), e_stale = (\<lambda>_. 7), e_sched = id, e_procs = 1, e_range = id, e_order = rev \<rparr>"

definition sample_view :: "ArchiveHeader \<Rightarrow> blobView option list \<Rightarrow> view" where
  "sample_view h bs = \<lparr> v_h = h, v_blobs = bs, v_dir = emptyDir (length bs), v_codes = [], v_caches = (\<lambda>_. []) \<rparr>"

definition file_view :: "bytes \<Rightarrow> ArchiveHeader \<Rightarrow> blobView" where
  "file_view b h = \<lparr> bv_rd = file_reader (\<lambda>_ _. False) (one_file b) sample_file, bv_size = length b, bv_idx = index_New h 0, bv_defective = False \<rparr>"

definition sample_version :: Version where
  "sample_version = \<lparr> v_FileVer = 1, v_Loc = [\<lparr> loc_Blob = 0, loc_Hash = replicate 32 5, loc_Offset = 0, loc_Length = 3 \<rparr>], v_Length = 3, v_Seq = 0 \<rparr>"

definition sample_live :: State where
  "sample_live = (NewState sample_header DefaultLimits)\<lparr> st_live := [[0x61, 0x2F, 0x62] \<mapsto> sample_version],
     st_appliedMax := [[0x61, 0x2F, 0x62] \<mapsto> 1], st_maxFileVer := 1 \<rparr>"

lemma sample_version_ok: "ok_version sample_header sample_version"
  by (simp add: ok_version_def sample_version_def sample_header_def MaxFrameSize_def)

lemma wf_sample_live: "wf_state sample_live"
  using sample_version_ok by (simp add: wf_state_def sample_live_def NewState_def DefaultLimits_def staged_sum_def) (simp add: sample_version_def)

lemma single_frame_blob:
  assumes h: "wf_header h" and P: "Parse H isNormal fr h = Inr f" "length fr = unat (p_FrameQuanta (f_Prefix f)) * 4096"
    and pre: "length pre = 64" and lt: "length fr < 2 ^ 62" "16 \<le> length fr"
  shows "ReadFrame H isNormal (bv_rd (file_view (pre @ fr) h)) (bv_size (file_view (pre @ fr) h)) h 64 =
      Inr \<lparr> ref_Frame = f, ref_Offset = 64, ref_Bytes = fr \<rparr>" (is ?read)
    "a \<lparr> ref_Frame = f, ref_Offset = 64, ref_Bytes = fr \<rparr> \<Longrightarrow>
     index_Find H isNormal (bv_rd (file_view (pre @ fr) h)) (bv_size (file_view (pre @ fr) h)) h (index_New h 0) (m_HashPayload (f_Trailer f)) (Some a) =
       Inr (Some \<lparr> ref_Frame = f, ref_Offset = 64, ref_Bytes = fr \<rparr>, ViaScan)"
proof -
  let ?c = "one_file (pre @ fr)" and ?hash = "m_HashPayload (f_Trailer f)"
  let ?rd = "file_reader (\<lambda>_ _. False) ?c sample_file"
  have rel: "\<not> unreliable (\<lambda>_ _. False) sample_file" by (simp add: unreliable_def sample_file_def)
  have sz: "file_Size ?c sample_file = 64 + length fr" using pre by (simp add: file_Size_bytes)
  have at: "frame_at H isNormal h (file_bytes ?c sample_file) 64 = Some (f, length fr)"
    using frame_at_parsed[OF P lt(2), of pre "[]"] pre by simp
  have fv: "bv_rd (file_view (pre @ fr) h) = ?rd" "bv_size (file_view (pre @ fr) h) = file_Size ?c sample_file"
    using sz pre by (simp_all add: file_view_def)
  have "OnFrameGrid (word_of_nat 64)" by (simp add: OnFrameGrid_def)
  then show r: ?read unfolding fv using blob_file.ReadFrame_ok[OF h, of 64 H isNormal "\<lambda>_ _. False" ?c sample_file] rel at pre
    by (simp add: file_Size_bytes seg_def)
  have run: "valid_run H isNormal h (file_bytes ?c sample_file) 64 = [(64, f)]"
    using valid_run_single(1)[OF at] sz by (simp add: file_Size_bytes)
  let ?fn = "\<lambda>found off f. (if m_HashPayload (f_Trailer f) = ?hash then found @ [off] else found, None :: error option)"
  obtain res acc err where s: "scan H isNormal ?rd h 64 (file_Size ?c sample_file) ?fn [] = (res, acc, err)" by (rule prod_cases3)
  have acc: "acc = [64] \<and> err = None" using file_scan_ok(1)[OF h _ rel s] sz lt run[simplified] by (simp add: visit_found)
  have "index_Lookup (index_New h 0) ?hash = []" using index_map.lookup_empty .
  then show "index_Find H isNormal (bv_rd (file_view (pre @ fr) h)) (bv_size (file_view (pre @ fr) h)) h (index_New h 0) ?hash (Some a) =
       Inr (Some \<lparr> ref_Frame = f, ref_Offset = 64, ref_Bytes = fr \<rparr>, ViaScan)" if "a \<lparr> ref_Frame = f, ref_Offset = 64, ref_Bytes = fr \<rparr>"
    unfolding fv using s acc r[unfolded fv] that by (simp add: index_Find_def Scan_def)
qed

lemma sample_fetch:
  obtains b ref where "fetch sample_env (sample_view sample_header [Some (file_view b sample_header)]) [0x61, 0x2F, 0x62] sample_version
      (v_Loc sample_version ! 0) = (mark_defective (sample_view sample_header [Some (file_view b sample_header)]) 0, Inr ref)"
    "f_Payload (ref_Frame ref) = [1, 2, 3]"
proof -
  obtain fr where b: "AppendFrame sample_hashes (\<lambda>_. True) (\<lambda>_. 7) [] sample_header sample_spec = Inr fr"
    using sample_built by (auto simp: Build_def)
  from Parse_of_AppendFrame[OF wf_sample_header wf_sample_hashes sample_packed_ok b] obtain f where
    f: "Parse sample_hashes (\<lambda>_. True) fr sample_header = Inr f" "f_Payload f = [1, 2, 3]" "f_Entries f = Some [sample_entry]"
    "m_BlockType (f_Trailer f) = 0" "m_CodecID (f_Trailer f) = 0" "length fr = unat (p_FrameQuanta (f_Prefix f)) * 4096" by (auto simp: sample_spec_def)
  let ?v = "sample_view sample_header [Some (file_view (replicate 64 0 @ fr) sample_header)]" and ?l = "v_Loc sample_version ! 0"
  let ?ref = "\<lparr> ref_Frame = f, ref_Offset = 64, ref_Bytes = fr \<rparr>"
  have hash: "m_HashPayload (f_Trailer f) = replicate 32 5"
    by (rule Parse_facts[OF f(1)]) (simp add: Hash_def sample_hashes_def sample_header_def split: if_splits)
  have q: "0 < unat (p_FrameQuanta (f_Prefix f))" "unat (p_FrameQuanta (f_Prefix f)) \<le> 16"
  proof -
    have "DecodeFramePrefix fr sample_header = Inr (f_Prefix f)" by (rule Parse_facts[OF f(1)]) blast
    then show "0 < unat (p_FrameQuanta (f_Prefix f))" "unat (p_FrameQuanta (f_Prefix f)) \<le> 16"
      using DecodeFramePrefix_Inr by (fastforce simp: CheckFrameQuanta_Inr sample_header_def word_le_nat_alt)+
  qed
  have a: "accepts [0x61, 0x2F, 0x62] sample_version ?l ?ref"
    using f hash by (simp add: accepts_def packedEntry_def entries_of_def sample_version_def sample_entry_def)
  have "index_Find sample_hashes (\<lambda>_. True) (bv_rd (file_view (replicate 64 0 @ fr) sample_header)) (bv_size (file_view (replicate 64 0 @ fr) sample_header))
      sample_header (index_New sample_header 0) (replicate 32 5) (Some (accepts [0x61, 0x2F, 0x62] sample_version ?l)) = Inr (Some ?ref, ViaScan)"
    using single_frame_blob(2)[where a = "accepts [0x61, 0x2F, 0x62] sample_version ?l", OF wf_sample_header f(1,6) _ _ _ a, of "replicate 64 0"] q f(6) hash by simp
  moreover have "slicePacked ?ref [0x61, 0x2F, 0x62] 1 ?l = ?ref" using f(4) by (simp add: slicePacked_def)
  ultimately have "fetch sample_env ?v [0x61, 0x2F, 0x62] sample_version ?l = (mark_defective ?v 0, Inr ?ref)"
    by (simp add: fetch_def sample_view_def sample_env_def file_view_def[of _ sample_header] sample_version_def)
  then show ?thesis using that[of "replicate 64 0 @ fr" ?ref] f(2) by simp
qed

theorem Get_returns_recorded_content_witness:
  "\<exists>b r'. reader_Get sample_env \<lparr> r_view = sample_view sample_header [Some (file_view b sample_header)], r_st = sample_live \<rparr> [0x61, 0x2F, 0x62] =
     (r', Inr [1, 2, 3]) \<and> extent_bytes sample_env sample_header [0x61, 0x2F, 0x62] 1 (v_Loc sample_version ! 0) [1, 2, 3]"
proof -
  obtain b ref where f: "fetch sample_env (sample_view sample_header [Some (file_view b sample_header)]) [0x61, 0x2F, 0x62] sample_version
      (v_Loc sample_version ! 0) = (mark_defective (sample_view sample_header [Some (file_view b sample_header)]) 0, Inr ref)"
    "f_Payload (ref_Frame ref) = [1, 2, 3]" by (rule sample_fetch)
  let ?r = "\<lparr> r_view = sample_view sample_header [Some (file_view b sample_header)], r_st = sample_live \<rparr>"
  have ver: "v_Loc sample_version = [v_Loc sample_version ! 0]" "loc_Offset (v_Loc sample_version ! 0) = 0" "loc_Length (v_Loc sample_version ! 0) = 3"
    "v_Length sample_version = 3" "v_FileVer sample_version = 1" by (simp_all add: sample_version_def)
  have look: "Lookup sample_live [0x61, 0x2F, 0x62] = Some sample_version" by (simp add: Lookup_def sample_live_def)
  have "view_read sample_env (r_view ?r) [0x61, 0x2F, 0x62] sample_version =
      (mark_defective (sample_view sample_header [Some (file_view b sample_header)]) 0, Inr [1, 2, 3])"
  proof -
    have o: "e_order sample_env (v_Loc sample_version) = [v_Loc sample_version ! 0]" using ver(1) by (metis sample_env_def env.select_convs(7) rev_singleton_conv)
    show ?thesis unfolding view_read_def o using f ver(2-5) by (simp add: copy_into_def put_at_def)
  qed
  then obtain r' where g: "reader_Get sample_env ?r [0x61, 0x2F, 0x62] = (r', Inr [1, 2, 3])"
    using look by (simp add: reader_Get_def reader_Stat_def)
  have "\<forall>ls. set (e_order sample_env ls) = set ls" by (simp add: sample_env_def)
  from Get_returns_recorded_content[OF _ this g] look wf_sample_live
  have "\<forall>l \<in> set (v_Loc sample_version). extent_bytes sample_env sample_header [0x61, 0x2F, 0x62] 1 l (seg [1, 2, 3] (loc_lo l) (loc_hi l))"
    by (simp add: sample_view_def ver(5))
  moreover have "v_Loc sample_version ! 0 \<in> set (v_Loc sample_version)" by (metis ver(1) list.set_intros(1))
  ultimately show ?thesis using g ver by (auto simp: seg_def)
qed

text \<open>A group of one data frame and its parity; the blob of the data frame is lost.\<close>

definition lost_spec :: Spec where
  "lost_spec = sample_spec\<lparr> s_GroupID := 1, s_GroupK := 1, s_GroupM := 1 \<rparr>"

definition parity_spec :: "bytes \<Rightarrow> Spec" where
  "parity_spec p = \<lparr> s_BlockType = BlockParity, s_Codec = 0, s_Payload = p, s_Entries = [], s_GroupID = 1,
     s_GroupIndex = 1, s_GroupK = 1, s_GroupM = 1, s_FrameOrdinal = 5, s_FrameQuanta = 1 \<rparr>"

lemmas sample_trailer_simps = frameTrailer_def sample_header_def sample_hashes_def sample_entry_def Hash_def ObjectID_def
  ValidateTrailer_def validateGroup_def validateBlock_def MasterTrailer_AppendBinary_def Let_def
  HashID_Valid_def CodecID_Valid_def BlockType_Valid_def Encrypted_def MaxFrameSize_def

lemma frameTrailer_group:
  "frameTrailer H h s q = Inr t \<Longrightarrow> m_GroupIndex t = s_GroupIndex s \<and> m_GroupK t = s_GroupK s \<and> m_GroupM t = s_GroupM s"
  by (auto simp: frameTrailer_def Let_def case_sum_eq_Inr split: if_splits)

lemma built_one_quantum:
  assumes A: "AppendFrame sample_hashes (\<lambda>_. True) (\<lambda>_. 7) [] sample_header s = Inr fr" and e: "AppendEntries (\<lambda>_. True) [] (s_Entries s) = Inr body"
    and c: "chooseQuanta sample_header s (word_of_nat (length body) + 4) = Inr 1" and p: "packed_store_ok sample_header s"
  obtains f where "Parse sample_hashes (\<lambda>_. True) fr sample_header = Inr f" "length fr = 4096" "p_FrameQuanta (f_Prefix f) = 1"
    "f_Payload f = s_Payload s" "f_Entries f = Some (s_Entries s)" "frameTrailer sample_hashes sample_header s 1 = Inr (f_Trailer f)"
    "length (f_PreTrailer f) = length body + 4"
    "120 + length (s_Payload s) + length body + (if s_GroupID s \<noteq> 0 \<and> s_BlockType s \<noteq> BlockParity then 112 else 0) \<le> 4096"
proof -
  obtain body' q t where b: "built sample_hashes (\<lambda>_. True) sample_header s body' q t" and fr: "fr = frame_image q (s_Payload s) body' t"
    using AppendFrame_Inr[OF A wf_sample_header wf_sample_hashes] by auto
  have q: "body' = body" "q = 1" using b e c by (auto simp: built_def)
  obtain n where P: "Parse sample_hashes (\<lambda>_. True) fr sample_header = Inr (parsed q (s_Payload s) body' t (Some (s_Entries s)) n)"
    using Parse_built[OF wf_sample_header b p] unfolding fr by blast
  have x: "wf_trailer t" "120 + length (s_Payload s) + length body' + (if s_GroupID s \<noteq> 0 \<and> s_BlockType s \<noteq> BlockParity then 112 else 0) \<le> unat q * 4096"
    "frameTrailer sample_hashes sample_header s q = Inr t" using b by (simp_all add: built_def)
  have "length fr = unat q * 4096" unfolding fr by (rule frame_image_parts(1)) (use x q in \<open>auto split: if_splits\<close>)
  then show ?thesis using P x q by (intro that[of "parsed q (s_Payload s) body' t (Some (s_Entries s)) n"]) (simp_all add: parsed_def)
qed

lemma lost_frame_built:
  obtains fr f where "Parse sample_hashes (\<lambda>_. True) fr sample_header = Inr f" "group_member sample_env sample_header 1 1 1 1 0 fr"
    "f_Entries f = Some [sample_entry]" "m_HashPayload (f_Trailer f) = replicate 32 5" "m_BlockType (f_Trailer f) = BlockData"
proof -
  have q: "RequiredQuanta 3 36 True = Inr 1" by (subst RequiredQuanta_Inr) (simp_all add: need_def)
  have c: "chooseQuanta sample_header lost_spec 36 = Inr 1"
    using q by (simp add: chooseQuanta_def sample_header_def lost_spec_def sample_spec_def Let_def)
  have e: "AppendEntries (\<lambda>_. True) [] (s_Entries lost_spec) = Inr (le32 1 @ entry_bytes sample_entry)"
    using sample_entries_bytes(1)[of "\<lambda>_. True"] by (simp add: lost_spec_def sample_spec_def)
  have "\<exists>fr. frame_spec sample_hashes (\<lambda>_. True) sample_header lost_spec = Inr fr"
    using sample_entries_bytes(1)[of "\<lambda>_. True"] sample_entries_bytes(2) c
    by (simp add: frame_spec_def lost_spec_def sample_spec_def checkEntriesForBuild_def) (auto simp: sample_trailer_simps sample_spec_def)
  then obtain fr where A: "AppendFrame sample_hashes (\<lambda>_. True) (\<lambda>_. 7) [] sample_header lost_spec = Inr fr"
    using AppendFrame_spec[OF wf_sample_header wf_sample_hashes] by auto
  have c': "chooseQuanta sample_header lost_spec (word_of_nat (length (le32 1 @ entry_bytes sample_entry)) + 4) = Inr 1"
    using c sample_entries_bytes(2) by simp
  have pk: "packed_store_ok sample_header lost_spec" by (simp add: packed_store_ok_def lost_spec_def sample_spec_def)
  obtain f where f: "Parse sample_hashes (\<lambda>_. True) fr sample_header = Inr f" "length fr = 4096" "p_FrameQuanta (f_Prefix f) = 1"
    "f_Payload f = s_Payload lost_spec" "f_Entries f = Some (s_Entries lost_spec)" "frameTrailer sample_hashes sample_header lost_spec 1 = Inr (f_Trailer f)"
    "length (f_PreTrailer f) = length (le32 1 @ entry_bytes sample_entry) + 4"
    by (rule built_one_quantum[OF A e c' pk]) blast
  have t: "m_GroupID (f_Trailer f) = 1" "m_GroupIndex (f_Trailer f) = 0" "m_GroupK (f_Trailer f) = 1" "m_GroupM (f_Trailer f) = 1"
    "m_HashPayload (f_Trailer f) = replicate 32 5" "m_BlockType (f_Trailer f) = BlockData"
    using frameTrailer_group[OF f(6)] frameTrailer_Inr(3,6,7)[OF f(6)] by (simp_all add: lost_spec_def sample_spec_def sample_hashes_def sample_header_def Hash_def)
  have "group_member sample_env sample_header 1 1 1 1 0 fr"
    unfolding group_member_def using f t sample_entries_bytes(2)
    by (intro exI[of _ f]) (simp add: sample_env_def lost_spec_def sample_spec_def)
  then show ?thesis using that f(1,5) t by (simp add: lost_spec_def sample_spec_def)
qed

lemma parity_frame_built:
  assumes p: "length p = 3972"
  obtains fr f where "Parse sample_hashes (\<lambda>_. True) fr sample_header = Inr f" "length fr = 4096" "p_FrameQuanta (f_Prefix f) = 1"
    "f_Payload f = p" "m_BlockType (f_Trailer f) = BlockParity"
    "m_GroupID (f_Trailer f) = 1" "m_GroupIndex (f_Trailer f) = 1" "m_GroupK (f_Trailer f) = 1" "m_GroupM (f_Trailer f) = 1"
proof -
  have q: "RequiredQuanta 3972 8 False = Inr 1" by (subst RequiredQuanta_Inr) (simp_all add: need_def)
  have c: "chooseQuanta sample_header (parity_spec p) 8 = Inr 1"
    using q p by (simp add: chooseQuanta_def parityQuanta_def sample_header_def parity_spec_def Let_def ParityShardLen_def FrameSize_def)
  have e: "AppendEntries (\<lambda>_. True) [] (s_Entries (parity_spec p)) = Inr (le32 0)" unfolding AppendEntries_Inr by (simp add: parity_spec_def)
  then have "\<exists>fr. frame_spec sample_hashes (\<lambda>_. True) sample_header (parity_spec p) = Inr fr"
    using c p
    by (simp add: frame_spec_def parity_spec_def checkEntriesForBuild_def) (auto simp: sample_trailer_simps parity_spec_def)
  then obtain fr where A: "AppendFrame sample_hashes (\<lambda>_. True) (\<lambda>_. 7) [] sample_header (parity_spec p) = Inr fr"
    using AppendFrame_spec[OF wf_sample_header wf_sample_hashes] by auto
  have c': "chooseQuanta sample_header (parity_spec p) (word_of_nat (length (le32 0)) + 4) = Inr 1" using c by simp
  have pk: "packed_store_ok sample_header (parity_spec p)" by (simp add: packed_store_ok_def parity_spec_def)
  obtain f where f: "Parse sample_hashes (\<lambda>_. True) fr sample_header = Inr f" "length fr = 4096" "p_FrameQuanta (f_Prefix f) = 1"
    "f_Payload f = s_Payload (parity_spec p)" "frameTrailer sample_hashes sample_header (parity_spec p) 1 = Inr (f_Trailer f)"
    by (rule built_one_quantum[OF A e c' pk]) blast
  show ?thesis using f(1-4) frameTrailer_group[OF f(5)] frameTrailer_Inr(3,6)[OF f(5)] by (intro that[of fr f]) (simp_all add: parity_spec_def)
qed

lemma lost_parity:
  assumes m: "group_member sample_env sample_header 1 1 1 1 0 fr"
  obtains c s p where "snd (New [] 1 1 1) = Inr c" "AppendRecoveryShard (\<lambda>_. 7) [] fr = Inr s"
    "Encode id 1 c [Some s] [Some (replicate 3972 0)] = Inr [Some p]" "length p = 3972"
proof -
  have n: "unat (ParityShardLen 1) = 3972" by (simp add: ParityShardLen_def FrameSize_def)
  obtain s where s: "AppendRecoveryShard (\<lambda>_. 7) [] fr = Inr s" "length s = 3972"
  proof -
    obtain f' where f': "Parse sample_hashes (\<lambda>_. True) fr sample_header = Inr f'" "p_FrameQuanta (f_Prefix f') = 1" "m_BlockType (f_Trailer f') \<noteq> BlockParity"
      "228 + length (f_Payload f') + length (f_PreTrailer f') \<le> length fr" "length fr < 2 ^ 64" using m by (auto simp: group_member_def sample_env_def)
    show ?thesis using recovery_shard_round_trip[OF f'(1) wf_sample_header f'(5,3,4), of "\<lambda>_. 7" "\<lambda>_. 7" "[]"] f'(2) n that by auto
  qed
  have sup: "supported 1 1 1" by (simp add: supported_def valid_code_def)
  obtain c where c: "snd (New [] 1 1 1) = Inr c" using New_exact(2)[OF codes_ok_Nil sup] by blast
  note g = New_good[OF codes_ok_Nil c]
  have so: "shards_of c 3972 [s]" using s(2) g by (simp add: shards_of_def)
  define p where "p = stripe c 3972 [s] ! 1"
  have two: "drop 1 xs = [xs ! 1]" if "length xs = Suc (Suc 0)" for xs :: "bytes list" using that by (auto simp: length_Suc_conv)
  have "drop 1 (stripe c 3972 [s]) = [p]" unfolding p_def using g by (intro two) simp
  then have p: "Encode id 1 c [Some s] [Some (replicate 3972 0)] = Inr [Some p]" "length p = 3972"
    using Encode_stripe[OF g(5) so, of id "[replicate 3972 0]" 1] g by (simp_all add: p_def stripe_nth)
  show ?thesis by (rule that[OF c s(1) p])
qed

theorem lost_frame_rebuilt_witness:
  "\<exists>frame v v' ref. v_blobs v ! 0 = None \<and> rebuildFrom sample_env v 1
      \<lparr> fk_Hash = replicate 32 5, fk_Path = [0x61, 0x2F, 0x62], fk_FileVer = 1, fk_Offset = 0 \<rparr> (\<lambda>_. True) = (v', Some ref) \<and>
     ref_Bytes ref = frame \<and> \<not> isl (Parse sample_hashes (\<lambda>_. True) frame sample_header)"
proof -
  obtain fr f where f: "Parse sample_hashes (\<lambda>_. True) fr sample_header = Inr f" "group_member sample_env sample_header 1 1 1 1 0 fr"
    "f_Entries f = Some [sample_entry]" "m_HashPayload (f_Trailer f) = replicate 32 5" "m_BlockType (f_Trailer f) = BlockData" by (rule lost_frame_built)
  have n: "unat (ParityShardLen 1) = 3972" by (simp add: ParityShardLen_def FrameSize_def)
  obtain c s p where c: "snd (New [] 1 1 1) = Inr c" and s: "AppendRecoveryShard (\<lambda>_. 7) [] fr = Inr s"
    and p: "Encode id 1 c [Some s] [Some (replicate 3972 0)] = Inr [Some p]" "length p = 3972" by (rule lost_parity[OF f(2)])
  obtain pf f2 where pf: "Parse sample_hashes (\<lambda>_. True) pf sample_header = Inr f2" "length pf = 4096" "p_FrameQuanta (f_Prefix f2) = 1"
    "f_Payload f2 = p" "m_BlockType (f_Trailer f2) = BlockParity"
    "m_GroupID (f_Trailer f2) = 1" "m_GroupIndex (f_Trailer f2) = 1" "m_GroupK (f_Trailer f2) = 1" "m_GroupM (f_Trailer f2) = 1"
    by (rule parity_frame_built[OF p(2)])
  let ?mem = "\<lparr> hm_blob = 1, hm_off = 64, hm_quanta = 1, hm_t = f_Trailer f2, hm_entries = Some [] \<rparr>"
  let ?v0 = "sample_view sample_header [None, Some (file_view (replicate 64 0 @ pf) sample_header)]"
  define v where "v = ?v0\<lparr> v_dir := (v_dir ?v0)\<lparr> fd_groups := (\<lambda>g. if g = 1 then [?mem] else []) \<rparr> \<rparr>"
  let ?key = "\<lparr> fk_Hash = replicate 32 5, fk_Path = [0x61, 0x2F, 0x62], fk_FileVer = 1, fk_Offset = 0 \<rparr>"
  have gr: "fd_groups (v_dir v) 1 = [?mem]" "v_h v = sample_header" "v_codes v = []" "v_caches v = (\<lambda>_. [])" "v_blobs v ! 0 = None"
    by (simp_all add: v_def sample_view_def)
  have rd: "readMember sample_env v 1 64 = Some \<lparr> ref_Frame = f2, ref_Offset = 64, ref_Bytes = pf \<rparr>"
    using single_frame_blob(1)[OF wf_sample_header pf(1), of "replicate 64 0"] pf(2,3)
    by (simp add: readMember_def v_def sample_view_def sample_env_def)
  have us: "groupUsable (fd_groups (v_dir v) 1)" by (simp add: gr groupUsable_def)
  have pg: "parity_group sample_env v 1 c 1 1 1 [fr] [p]"
    unfolding parity_group_def
  proof (intro conjI)
    show "members_true sample_env v 1 1 1 1 [fr] [p]" using pf rd by (simp add: members_true_def gr)
    show "\<forall>i<1. group_member sample_env (v_h v) 1 1 1 1 i ([fr] ! i)" using f(2) gr by simp
    show "\<exists>data buf stale sched procs. length data = 1 \<and> (\<forall>i<1. AppendRecoveryShard stale [] ([fr] ! i) = Inr (data ! i)) \<and> length buf = 1 \<and>
       (\<forall>b\<in>set buf. length b = unat (ParityShardLen 1)) \<and> (\<forall>xs. mset (sched xs) = mset xs) \<and> Encode sched procs c (map Some data) (map Some buf) = Inr (map Some [p])"
      using s p n by (intro exI[of _ "[s]"] exI[of _ "[replicate 3972 0]"] exI[of _ "\<lambda>_. 7"] exI[of _ id] exI[of _ 1]) simp
  qed
  have re: "readable sample_env v 1 = {1}" using rd pf(7) by (auto simp: readable_def gr)
  have nr: "NewRef sample_hashes (\<lambda>_. True) ([fr] ! 0) sample_header = Inr \<lparr> ref_Frame = f, ref_Offset = -1, ref_Bytes = fr \<rparr>"
    using f(1) by (simp add: NewRef_def)
  have key: "?key \<in> set (rebuilt_keys \<lparr> ref_Frame = f, ref_Offset = -1, ref_Bytes = fr \<rparr>)"
    using f(3-5) by (simp add: rebuilt_keys_def entries_of_def sample_entry_def)
  have "\<exists>v' ref' b. rebuildFrom sample_env v 1 ?key (\<lambda>_. True) = (v', Some ref') \<and> b < 1 \<and> ref_Bytes ref' = [fr] ! b \<and>
    ?key \<in> set (rebuilt_keys ref') \<and> True"
    by (rule lost_frame_rebuilt[OF us pg, where a = 0 and ref = "\<lparr> ref_Frame = f, ref_Offset = -1, ref_Bytes = fr \<rparr>"])
      (use gr c re nr key wf_sample_header in \<open>simp_all add: sample_env_def cache_ok_def\<close>, simp add: sample_header_def)
  then obtain v' ref where "rebuildFrom sample_env v 1 ?key (\<lambda>_. True) = (v', Some ref)" "ref_Bytes ref = fr" by auto
  then show ?thesis using f(1) gr(5) by (intro exI[of _ fr] exI[of _ v] exI[of _ v'] exI[of _ ref]) simp
qed

end
