(* ===== verification/Spec2Isabelle.thy ===== *)
theory Spec2Isabelle
  imports Shard Alloc Index_Store Parity_Code Manifest_Writer Archive_View
begin

text \<open>
  A verification library for STASH, the Go reference implementation of an append-only archive format.

  \<^bold>\<open>The program.\<close> An archive is a directory of generations. Frames of one or more 4096-byte quanta carry
  payload, entry list and trailer (\<^verbatim>\<open>internal/wire\<close>, \<^verbatim>\<open>internal/frame\<close>) and are appended to blobs
  (\<^verbatim>\<open>internal/blob\<close>); an index per blob finds frames by hash (\<^verbatim>\<open>internal/index\<close>); a journal of JSON lines
  says which frames form which version of which path (\<^verbatim>\<open>internal/manifest\<close>); parity stripes rebuild lost
  frames (\<^verbatim>\<open>internal/parity\<close>); identifiers are reserved durably before use (\<^verbatim>\<open>internal/alloc\<close>). Everything
  is written through \<^verbatim>\<open>internal/vfs\<close>, whose \<open>CrashFS\<close> is an explicit model of what a power loss leaves.

  \<^bold>\<open>Theories and sources.\<close>

  \<^item> \<open>Prelude\<close>: bytes, words, errors as values, byte ranges, little-endian numbers, and the lemmas the
    components share. The interfaces \<open>codec\<close> and \<open>sealed_codec\<close> of \<open>Wire_Header\<close> state what an encoder and its
    decoder promise; they are interpreted on the codecs of the format.
  \<^item> \<open>Checked\<close>: \<^verbatim>\<open>checked.go\<close>. \<open>Wire_Base\<close>, \<open>Wire_Header\<close>, \<open>Wire_Frame\<close>, \<open>Wire_Entries\<close>, \<open>Wire_Index\<close>:
    \<^verbatim>\<open>internal/wire\<close>, one definition per encoder, decoder and check, checks in the order of the code.
    Shown: every decoder accepts exactly the images of its encoder, decoded values satisfy the bounds of the
    format, one changed byte is refused, layouts split a frame without overlap or wrap-around.
  \<^item> \<open>Canonpath\<close>, \<open>Assigned15\<close>: \<^verbatim>\<open>internal/canonpath\<close>; a path is accepted exactly when it is canonical.
    \<open>Ident\<close>: \<^verbatim>\<open>internal/ident\<close>.
  \<^item> \<open>Frame\<close>, \<open>Shard\<close>: \<^verbatim>\<open>internal/frame\<close>. \<open>AppendFrame\<close> works in place on a buffer with stale bytes and is shown
    equal to the plain construction; \<open>Parse\<close> inverts it (but for packed frames stored with a payload of the
    wrong length, which it refuses) and accepts canonical frames only; a one-byte change outside the stored pre-trailer length is
    refused or is a hash collision of the payload; a frame is rebuilt from its recovery shard.
  \<^item> \<open>GF256\<close>, \<open>GF_Matrix\<close>, \<open>Parity_Code\<close>: \<^verbatim>\<open>internal/parity\<close>. The tables are a field (an instance of the
    library's class), Gauss-Jordan elimination inverts exactly the regular matrices, any \<open>k\<close> rows of the
    encoding matrix are regular, so any \<open>k\<close> shards rebuild the stripe, whatever the schedule of the
    concurrent chunks and the state of the caches. The contract is the locale \<open>erasure_code\<close>.
  \<^item> \<open>Vfs\<close>: \<^verbatim>\<open>crashfs.go\<close> and \<^verbatim>\<open>atomic.go\<close>; the state is the record \<open>CrashFS\<close> (inodes with current and durable
    content, current and durable names), \<open>Crash\<close> the three power-loss models with a random source as
    argument. A replacement of a file is atomic under power loss at any of its steps and durable once it
    reports success; the locale \<open>durable_file\<close> states this for clients.
  \<^item> \<open>Alloc\<close>: \<^verbatim>\<open>internal/alloc\<close> over that file system: no identifier is handed out twice, as an invariant of a
    step relation with opens, reservations, failures, stops and power losses.
  \<^item> \<open>Bufpool\<close>: \<^verbatim>\<open>internal/bufpool\<close>, buffers as their capacities.
  \<^item> \<open>Blob_Read\<close>, \<open>Blob_Writer\<close>, \<open>Blob_Append\<close>: \<^verbatim>\<open>internal/blob\<close>. Scans visit the longest run of valid frames;
    opening a writer never cuts a referenced frame away; appends and syncs, as a step relation over the
    critical sections of the writer, leave no hole. The locale \<open>random_reader\<close> is what the readers need of
    a file, interpreted on files of \<open>CrashFS\<close> with faults.
  \<^item> \<open>Index\<close>, \<open>Index_Store\<close>: \<^verbatim>\<open>internal/index\<close>, a sorted multimap with a pending part (locale \<open>multimap\<close>), its lookup
    with validation of candidates, its stored form.
  \<^item> \<open>Manifest_State\<close>, \<open>Manifest_Spec\<close>: \<^verbatim>\<open>state.go\<close>, the fold of journal records, and the abstract store it
    refines: a transaction takes effect as a whole, at its commit.
  \<^item> \<open>Manifest_Json\<close>, \<open>Manifest_Line\<close>: \<^verbatim>\<open>json.go\<close>, \<^verbatim>\<open>record.go\<close>, \<^verbatim>\<open>encode.go\<close>, \<^verbatim>\<open>fast.go\<close>: one line of the journal.
    Parser, strict decoder, writer and fast path, with the round trip and the agreement of the two
    decoders on every byte string.
  \<^item> \<open>Min_Heap\<close>, \<open>Manifest_Journal\<close>, \<open>Manifest_Load\<close>: \<^verbatim>\<open>journal.go\<close>. The bounded line reader, the cursors with
    read-ahead and the merge of the main journal with its linked files by sequence number, over
    \<^verbatim>\<open>container/heap\<close> (interface \<open>min_queue\<close>). Shown: loading always returns, applies exactly the records of
    all files in order, and reads a journal with a torn tail back up to its last complete line.
  \<^item> \<open>Manifest_Writer\<close>: \<^verbatim>\<open>writer.go\<close>. An operation acts on a \<open>world\<close> (file system, sequence source, random
    identifiers, device faults to come) and the \<open>Journal\<close>; a client is a list of operations. Shown: the file always
    loads as the live state, also after a power loss that follows a sync, opening aborts what it finds open,
    and batches of extents fit a line. The journal is one whose name is durable or one that \<open>OpenJournal\<close> creates;
    \<open>retried_open_loses_journal\<close> shows what happens when the directory sync of the creation has failed before.
  \<^item> \<open>Archive_View\<close>: \<^verbatim>\<open>view.go\<close> and \<^verbatim>\<open>repair.go\<close> of \<^verbatim>\<open>internal/archive\<close>, which compose the above: a \<open>view\<close> has for
    every blob a reader and an index, the directory of frames found by hop-and-read, and the caches of the parity
    codes; the record \<open>env\<close> holds what the environment decides. Shown: what is read is the recorded content, in
    frames that validate, wherever they were found; lazy reads return; any \<open>k\<close> readable members of a parity
    group rebuild a lost frame.

  \<^bold>\<open>Conventions.\<close> A Go slice is a byte list and a fixed array a byte list whose length is part of the
  well-formedness predicate of its record; unsigned integers are words of their width; file offsets, which
  are below \<open>2 ^ 63\<close> and never wrap, are natural numbers. A fallible function returns \<open>Inl\<close> of an error with
  the class of the code's error value, the structure and the field; message texts are left out. A nil slice
  or pointer is \<open>None\<close>.

  \<^bold>\<open>Parameters.\<close> Code outside the repository is an argument: SHA-256 and BLAKE3 (\<open>hashes\<close>), the Unicode
  normal-form test (\<open>isNormal\<close>), random numbers, failures of devices and the operating system (\<open>fault\<close>),
  the old content of recycled buffers (\<open>stale\<close>), the schedule and the number of processors, callbacks.
  Theorems hold for all of them unless a hypothesis says otherwise.

  \<^bold>\<open>Loops and bounds.\<close> Loops are structurally recursive or functions with a proved measure; the merge of
  the journal files and the loop of \<open>ReadAt\<close> are partial functions into \<open>option\<close>, shown to return. The loops over
  members and elements of the JSON parser carry a fuel of one more than the remaining bytes, which
  \<open>parseJSON_total\<close> shows to be enough; recursion is bounded by \<open>maxDepth\<close>, as in the code.

  \<^bold>\<open>Not modelled.\<close> The write path of the archive layer (\<^verbatim>\<open>writer.go\<close>, \<^verbatim>\<open>commit.go\<close>, \<^verbatim>\<open>pack.go\<close>, \<^verbatim>\<open>groupwrite.go\<close>,
  \<^verbatim>\<open>create.go\<close>, \<^verbatim>\<open>layout.go\<close>, \<^verbatim>\<open>checkpoint.go\<close> of \<^verbatim>\<open>internal/archive\<close>) and the opening of blobs and generations in
  \<^verbatim>\<open>view.go\<close>, which compose the modelled packages with goroutines, channels and operating system locks; the
  public interface \<^verbatim>\<open>stash.go\<close>, which delegates to that layer; the binding of \<^verbatim>\<open>vfs\<close> to the operating system;
  and the build-time generator of the Unicode table, whose output is modelled. Failures of opening a journal file
  other than its absence, and of reading its size, are not modelled; failures of reading it are. A sequence source changes its
  own state only: that the allocator behind it writes a file of its own is not part of the journal's model.
\<close>

end
